(* ===== verification/Prelude.thy ===== *)
theory Prelude
  imports Complex_Main "HOL-Library.AList" "HOL-Library.Sublist" "HOL-Library.Log_Nat"
begin

text \<open>
  Shared vocabulary of the development.

  \<^item> Python strings are \<open>string\<close>: one \<open>char\<close> is one code point of the range
    U+0000 to U+00FF.  \<open>utf8_len\<close> is the size of \<open>str.encode("utf-8")\<close> on that range.
  \<^item> A Python \<open>dict\<close> is an association list in insertion order: \<open>AList.update\<close>
    overwrites in place or appends, \<open>AList.delete\<close> removes, \<open>map_of\<close> reads.
  \<^item> JSON-like dynamic values (message dictionaries, snapshots, schemas) are \<open>pyval\<close>;
    a finite \<open>float\<close> is the rational number it denotes.
  \<^item> Negative slices (\<open>xs[-n:]\<close>, \<open>xs[:-n]\<close>) are \<open>py_last\<close> and \<open>py_but_last\<close>, with
    Python's reading of \<open>-0\<close>.
\<close>

section \<open>Collections of rewrite and invariant rules\<close>

named_theorems py_simps \<open>unfolding rules of the Python vocabulary\<close>
named_theorems inv_rules \<open>operations that keep an invariant\<close>

section \<open>Dictionaries\<close>

type_synonym 'v pydict = "(string \<times> 'v) list"

abbreviation dict_ok :: "('k \<times> 'v) list \<Rightarrow> bool" where
  "dict_ok d \<equiv> distinct (map fst d)"

abbreviation keys :: "('k \<times> 'v) list \<Rightarrow> 'k set" where
  "keys d \<equiv> fst ` set d"

lemma keys_update [simp]: "keys (AList.update k v d) = insert k (keys d)"
  by (induction d) auto

lemma keys_delete [simp]: "keys (AList.delete k d) = keys d - {k}"
  by (auto simp: AList.delete_eq)

lemma dict_ok_update [intro, inv_rules]: "dict_ok d \<Longrightarrow> dict_ok (AList.update k v d)"
  by (rule distinct_update)

lemma dict_ok_delete [intro, inv_rules]: "dict_ok d \<Longrightarrow> dict_ok (AList.delete k d)"
  by (rule distinct_delete)

lemma map_of_none_keys: "map_of d k = None \<longleftrightarrow> k \<notin> keys d"
  by (rule map_of_eq_None_iff)

lemma map_of_some_keys: "map_of d k = Some v \<Longrightarrow> k \<in> keys d"
  by (force dest: map_of_SomeD)

lemma keys_lookup: "k \<in> keys d \<Longrightarrow> \<exists>v. map_of d k = Some v"
  by (metis map_of_none_keys not_None_eq)

lemma length_update_old: "k \<in> keys d \<Longrightarrow> length (AList.update k v d) = length d"
  by (induction d) auto

lemma update_new: "k \<notin> keys d \<Longrightarrow> AList.update k v d = d @ [(k, v)]"
  by (induction d) auto

lemma length_delete_le [simp]: "length (AList.delete k d) \<le> length d"
  by (rule length_delete_le)

lemma length_delete_old: "k \<in> keys d \<Longrightarrow> length (AList.delete k d) < length d"
proof (induction d)
  case Nil
  then show ?case by simp
next
  case (Cons p d)
  then show ?case
    by (cases "fst p = k") (auto simp: less_Suc_eq_le simp del: keys_delete)
qed

lemma update_commute_old:
  "\<lbrakk> a \<noteq> b; a \<in> keys d; b \<in> keys d \<rbrakk> \<Longrightarrow>
   AList.update a x (AList.update b y d) = AList.update b y (AList.update a x d)"
  by (induction d) auto

lemma map_fst_update_old: "k \<in> keys d \<Longrightarrow> map fst (AList.update k v d) = map fst d"
  by (induction d) auto

lemma set_update_dict:
  "dict_ok d \<Longrightarrow> set (AList.update k v d) = insert (k, v) {p \<in> set d. fst p \<noteq> k}"
  by (induction d) (auto simp: image_iff)

text \<open>\<open>sum(f(v) for v in d.values())\<close> and its change under one assignment.\<close>

definition dict_sum :: "('k \<Rightarrow> 'v \<Rightarrow> int) \<Rightarrow> ('k \<times> 'v) list \<Rightarrow> int" where
  "dict_sum f d = sum_list (map (\<lambda>(k, v). f k v) d)"

lemma dict_sum_simps [simp]:
  "dict_sum f [] = 0"
  "dict_sum f ((k, v) # d) = f k v + dict_sum f d"
  "dict_sum f (d @ e) = dict_sum f d + dict_sum f e"
  by (simp_all add: dict_sum_def)

lemma dict_sum_update:
  "dict_ok d \<Longrightarrow> dict_sum f (AList.update k v d) =
     dict_sum f d + f k v - (case map_of d k of None \<Rightarrow> 0 | Some w \<Rightarrow> f k w)"
proof (induction d)
  case Nil
  then show ?case by simp
next
  case (Cons p d)
  obtain a b where p: "p = (a, b)" by (cases p)
  then show ?case using Cons by (cases "a = k") simp_all
qed

lemma dict_sum_delete:
  "dict_ok d \<Longrightarrow> dict_sum f (AList.delete k d) =
     dict_sum f d - (case map_of d k of None \<Rightarrow> 0 | Some w \<Rightarrow> f k w)"
proof (induction d)
  case Nil
  then show ?case by simp
next
  case (Cons p d)
  obtain a b where p: "p = (a, b)" by (cases p)
  have "map_of d a = None" and "AList.delete a d = d" if "a = k"
    using Cons.prems that by (force simp: p map_of_none_keys AList.delete_eq filter_id_conv)+
  then show ?case using Cons p by (cases "a = k") simp_all
qed

lemma dict_sum_nonneg: "(\<And>k v. 0 \<le> f k v) \<Longrightarrow> 0 \<le> dict_sum f d"
  by (induction d) auto

lemma dict_sum_cong: "(\<And>k v. (k, v) \<in> set d \<Longrightarrow> f k v = g k v) \<Longrightarrow> dict_sum f d = dict_sum g d"
  by (induction d) auto

text \<open>A sum over a dictionary in which one entry changes, together with the summand at that entry.\<close>

lemma dict_sum_update_at:
  assumes "dict_ok d" and "\<And>a x. a \<noteq> k \<Longrightarrow> g a x = f a x"
  shows "dict_sum g (AList.update k v d) = dict_sum f (AList.delete k d) + g k v"
proof -
  have "dict_sum g (AList.delete k d) = dict_sum f (AList.delete k d)"
    by (rule dict_sum_cong) (use assms(2) in \<open>auto simp: AList.delete_eq\<close>)
  then show ?thesis using assms(1) by (simp add: dict_sum_update dict_sum_delete)
qed

lemma dict_sum_mono: "(\<And>k v. (k, v) \<in> set d \<Longrightarrow> f k v \<le> g k v) \<Longrightarrow> dict_sum f d \<le> dict_sum g d"
proof (induction d)
  case (Cons p d)
  then show ?case by (cases p) (force intro: add_mono)
qed simp

lemma dict_sum_single:
  assumes "dict_ok d" and "map_of d k = Some v" and "\<And>a x. (a, x) \<in> set d \<Longrightarrow> a \<noteq> k \<Longrightarrow> g a x \<le> f a x"
  shows "dict_sum g d \<le> dict_sum f d - f k v + g k v"
proof -
  have "dict_sum g (AList.delete k d) \<le> dict_sum f (AList.delete k d)"
    by (rule dict_sum_mono) (use assms(3) in \<open>auto simp: AList.delete_eq\<close>)
  then show ?thesis using assms(1,2) by (simp add: dict_sum_delete)
qed

section \<open>Results\<close>

text \<open>Sequencing of computations that may raise.\<close>

definition bnd :: "'e + 'a \<Rightarrow> ('a \<Rightarrow> 'e + 'b) \<Rightarrow> 'e + 'b" where
  "bnd m f = (case m of Inl e \<Rightarrow> Inl e | Inr a \<Rightarrow> f a)"

lemma bnd_simps [simp]: "bnd (Inl e) f = Inl e" "bnd (Inr a) f = f a"
  by (simp_all add: bnd_def)

lemma bnd_Inr_iff: "bnd m f = Inr b \<longleftrightarrow> (\<exists>a. m = Inr a \<and> f a = Inr b)"
  by (cases m) auto

section \<open>Slices\<close>

definition py_last :: "nat \<Rightarrow> 'a list \<Rightarrow> 'a list" where
  "py_last n xs = (if n = 0 then xs else drop (length xs - n) xs)"

definition py_but_last :: "nat \<Rightarrow> 'a list \<Rightarrow> 'a list" where
  "py_but_last n xs = (if n = 0 then [] else take (length xs - n) xs)"

lemma py_split: "py_but_last n xs @ py_last n xs = xs"
  by (simp add: py_but_last_def py_last_def)

lemma length_py_last [simp]: "0 < n \<Longrightarrow> length (py_last n xs) = min n (length xs)"
  by (simp add: py_last_def)

lemma length_py_but_last [simp]: "0 < n \<Longrightarrow> length (py_but_last n xs) = length xs - n"
  by (simp add: py_but_last_def)

lemma suffix_py_last: "suffix (py_last n xs) xs"
  by (simp add: py_last_def suffix_drop)

lemma set_py_last: "set (py_last n xs) \<subseteq> set xs"
  by (simp add: py_last_def set_drop_subset)

lemma set_py_but_last: "set (py_but_last n xs) \<subseteq> set xs"
  by (simp add: py_but_last_def set_take_subset)

text \<open>\<open>enumerate(xs)\<close> visits every element.\<close>

lemma enumerate_member: "x \<in> set xs \<Longrightarrow> \<exists>i. (i, x) \<in> set (zip [0..<length xs] xs)"
  by (force simp: set_zip in_set_conv_nth)

lemma list_all_enumerate: "list_all (\<lambda>q. P (snd q)) (zip [0..<length xs] xs) = list_all P xs"
proof -
  have "list_all P (map snd (zip [0..<length xs] xs)) = list_all P xs" by simp
  then show ?thesis by (simp only: list.pred_map comp_def)
qed

section \<open>Dynamic values\<close>

datatype pyfloat = Fin rat | PInf | NInf | NaN

datatype pyval =
    VNone
  | VBool bool
  | VInt int
  | VFloat pyfloat
  | VStr string
  | VList "pyval list"
  | VDict "(string \<times> pyval) list"

text \<open>\<open>bool(v)\<close>.\<close>

fun truthy :: "pyval \<Rightarrow> bool" where
  "truthy VNone = False"
| "truthy (VBool b) = b"
| "truthy (VInt i) = (i \<noteq> 0)"
| "truthy (VFloat f) = (f \<noteq> Fin 0)"
| "truthy (VStr s) = (s \<noteq> [])"
| "truthy (VList xs) = (xs \<noteq> [])"
| "truthy (VDict d) = (d \<noteq> [])"

text \<open>\<open>m.get(k)\<close> on a dictionary, \<open>None\<close> when the key is absent.\<close>

definition get :: "(string \<times> pyval) list \<Rightarrow> string \<Rightarrow> pyval" where
  "get m k = (case map_of m k of None \<Rightarrow> VNone | Some v \<Rightarrow> v)"

lemma get_update [simp]: "get (AList.update k v m) k' = (if k' = k then v else get m k')"
  by (simp add: get_def update_conv)

lemma get_delete [simp]: "get (AList.delete k m) k' = (if k' = k then VNone else get m k')"
  by (simp add: get_def delete_conv)

definition is_str :: "pyval \<Rightarrow> bool" where
  "is_str v = (case v of VStr _ \<Rightarrow> True | _ \<Rightarrow> False)"

definition is_dict :: "pyval \<Rightarrow> bool" where
  "is_dict v = (case v of VDict _ \<Rightarrow> True | _ \<Rightarrow> False)"

definition is_list :: "pyval \<Rightarrow> bool" where
  "is_list v = (case v of VList _ \<Rightarrow> True | _ \<Rightarrow> False)"

definition is_bool :: "pyval \<Rightarrow> bool" where
  "is_bool v = (case v of VBool _ \<Rightarrow> True | _ \<Rightarrow> False)"

lemma is_str_simps [simp]:
  "is_str (VStr s)" "\<not> is_str VNone" "\<not> is_str (VBool b)" "\<not> is_str (VInt i)"
  "\<not> is_str (VFloat f)" "\<not> is_str (VList xs)" "\<not> is_str (VDict d)"
  by (simp_all add: is_str_def)

lemma is_strE [elim!]: "is_str v \<Longrightarrow> (\<And>s. v = VStr s \<Longrightarrow> P) \<Longrightarrow> P"
  by (cases v) auto

lemma is_dict_simps [simp]:
  "is_dict (VDict d)" "\<not> is_dict VNone" "\<not> is_dict (VBool b)" "\<not> is_dict (VInt i)"
  "\<not> is_dict (VFloat f)" "\<not> is_dict (VList xs)" "\<not> is_dict (VStr s)"
  by (simp_all add: is_dict_def)

lemma is_list_simps [simp]:
  "is_list (VList d)" "\<not> is_list VNone" "\<not> is_list (VBool b)" "\<not> is_list (VInt i)"
  "\<not> is_list (VFloat f)" "\<not> is_list (VDict xs)" "\<not> is_list (VStr s)"
  by (simp_all add: is_list_def)

lemma is_bool_simps [simp]:
  "is_bool (VBool b)" "\<not> is_bool VNone" "\<not> is_bool (VInt i)" "\<not> is_bool (VFloat f)"
  "\<not> is_bool (VStr s)" "\<not> is_bool (VList xs)" "\<not> is_bool (VDict d)"
  by (simp_all add: is_bool_def)

lemma is_dict_conv: "is_dict v \<longleftrightarrow> (\<exists>d. v = VDict d)"
  by (cases v) auto

lemma is_str_conv: "is_str v \<longleftrightarrow> (\<exists>s. v = VStr s)"
  by (cases v) auto

lemma is_list_conv: "is_list v \<longleftrightarrow> (\<exists>xs. v = VList xs)"
  by (cases v) auto

lemma is_bool_conv: "is_bool v \<longleftrightarrow> (\<exists>b. v = VBool b)"
  by (cases v) auto

text \<open>A value stored in a dictionary or list is smaller than its container.\<close>

lemma size_dict_entry: "(k, v) \<in> set d \<Longrightarrow> size v < size (VDict d)"
  by (induction d) auto

lemma size_map_of: "map_of d k = Some v \<Longrightarrow> size v < size (VDict d)"
  by (rule size_dict_entry [OF map_of_SomeD])

lemma size_list_entry: "v \<in> set xs \<Longrightarrow> size v < size (VList xs)"
  by (induction xs) auto

lemma size_nested_dict: "map_of d k = Some (VDict e) \<Longrightarrow> p \<in> set e \<Longrightarrow> size (snd p) < size (VDict d)"
  using size_map_of [of d k "VDict e"] size_dict_entry [of "fst p" "snd p" e] by simp

lemma size_nested_list: "map_of d k = Some (VList xs) \<Longrightarrow> x \<in> set xs \<Longrightarrow> size x < size (VDict d)"
  using size_map_of [of d k "VList xs"] size_list_entry [of x xs] by simp

lemma size_nested_zip: "map_of d k = Some (VList xs) \<Longrightarrow> (i, x) \<in> set (zip ns xs) \<Longrightarrow> size x < size (VDict d)"
  by (rule size_nested_list) (auto dest: set_zip_rightD)

lemmas size_map_of_sym = size_map_of [OF sym]

text \<open>
  \<open>float(i)\<close> for an integer: exact up to 53 significant bits, otherwise rounded to the nearest
  representable value with ties to even; \<open>None\<close> is the \<open>OverflowError\<close>.
\<close>

definition round_double :: "nat \<Rightarrow> nat" where
  "round_double n =
     (let e = floorlog 2 n - 53; q = n div 2 ^ e; r = n mod 2 ^ e
      in if 2 * r > 2 ^ e \<or> (2 * r = 2 ^ e \<and> odd q) then (q + 1) * 2 ^ e else q * 2 ^ e)"

definition float_of_int :: "int \<Rightarrow> rat option" where
  "float_of_int i =
     (let m = round_double (nat \<bar>i\<bar>)
      in if m \<ge> 2 ^ 1024 then None else Some (of_int (sgn i) * of_nat m))"

lemma round_double_exact: "n < 2 ^ 53 \<Longrightarrow> round_double n = n"
proof -
  assume "n < 2 ^ 53"
  then have "floorlog 2 n \<le> 53" by (simp add: floorlog_leI)
  then show ?thesis by (simp add: round_double_def)
qed

section \<open>Text\<close>

definition code :: "char \<Rightarrow> nat" where
  "code c = of_char c"

definition utf8_char_len :: "char \<Rightarrow> nat" where
  "utf8_char_len c = (if code c < 128 then 1 else 2)"

definition utf8_len :: "string \<Rightarrow> nat" where
  "utf8_len s = sum_list (map utf8_char_len s)"

lemma utf8_len_simps [simp]:
  "utf8_len [] = 0"
  "utf8_len (c # s) = utf8_char_len c + utf8_len s"
  "utf8_len (s @ t) = utf8_len s + utf8_len t"
  by (simp_all add: utf8_len_def)

lemma utf8_len_ge: "length s \<le> utf8_len s"
  by (induction s) (auto simp: utf8_char_len_def)

lemma utf8_len_le: "utf8_len s \<le> 2 * length s"
  by (induction s) (auto simp: utf8_char_len_def)

text \<open>\<open>str.isspace\<close> on one code point, \<open>str.strip()\<close>, \<open>sep.join\<close>, \<open>str.startswith\<close>.\<close>

definition is_space :: "char \<Rightarrow> bool" where
  "is_space c = (let n = code c in (9 \<le> n \<and> n \<le> 13) \<or> (28 \<le> n \<and> n \<le> 32) \<or> n = 133 \<or> n = 160)"

definition py_strip :: "string \<Rightarrow> string" where
  "py_strip s = rev (dropWhile is_space (rev (dropWhile is_space s)))"

fun py_join :: "'a list \<Rightarrow> 'a list list \<Rightarrow> 'a list" where
  "py_join sep [] = []"
| "py_join sep [x] = x"
| "py_join sep (x # y # ys) = x @ sep @ py_join sep (y # ys)"

definition startswith :: "string \<Rightarrow> string \<Rightarrow> bool" where
  "startswith s p = (take (length p) s = p)"

lemma startswith_iff: "startswith s p \<longleftrightarrow> (\<exists>t. s = p @ t)"
  unfolding startswith_def by (metis append_eq_conv_conj)

definition endswith :: "string \<Rightarrow> string \<Rightarrow> bool" where
  "endswith s p = suffix p s"

text \<open>\<open>s.replace("\\r\\n", "\\n").replace("\\r", "\\n")\<close>.\<close>

fun replace_crlf :: "string \<Rightarrow> string" where
  "replace_crlf (c # d # s) =
     (if c = CHR 0x0D \<and> d = CHR 0x0A then CHR 0x0A # replace_crlf s else c # replace_crlf (d # s))"
| "replace_crlf s = s"

definition normalize_newlines :: "string \<Rightarrow> string" where
  "normalize_newlines s = map (\<lambda>c. if c = CHR 0x0D then CHR 0x0A else c) (replace_crlf s)"

text \<open>The decimal rendering of an integer, as an f-string prints it.\<close>

fun nat_digits :: "nat \<Rightarrow> string" where
  "nat_digits n = (if n < 10 then [char_of (48 + n)]
                   else nat_digits (n div 10) @ [char_of (48 + n mod 10)])"

declare nat_digits.simps [simp del]

definition int_str :: "int \<Rightarrow> string" where
  "int_str i = (if i < 0 then CHR ''-'' # nat_digits (nat (- i)) else nat_digits (nat i))"

lemma nat_digits_nonempty [simp]: "nat_digits n \<noteq> []"
  by (subst nat_digits.simps) simp

end
