(* ===== verification/Pending.thy ===== *)
theory Pending
  imports Prelude "HOL-Library.Multiset"
begin

text \<open>
  The pending-event table of a session (\<open>domain/pending.py\<close>).  Every tool call of a batch
  has one row, keyed by its \<open>tool_call_id\<close>; a row is filled exactly once, and the session
  resumes when every row is filled.  The table is a \<open>dict\<close>, so an association list in
  insertion order; \<open>add\<close> and \<open>fill\<close> raise \<open>PendingRowError\<close>, here the left summand.
\<close>

section \<open>Data\<close>

datatype RowKind = IMMEDIATE | CHILD_AGENT

datatype RowStatus = PENDING | DONE | FAILED

datatype RowRef = RefInt int | RefStr string

record PendingRow =
  tool_call_id :: string
  row_kind :: RowKind
  row_order :: int
  row_ref :: "RowRef option"
  row_status :: RowStatus
  row_result :: "string option"
  row_error :: "string option"
  row_started_at :: "rat option"
  row_finished_at :: "rat option"

datatype PendingRowError =
    DuplicateRow string
  | NoPendingRow string
  | AlreadyFilled string RowStatus

type_synonym PendingEventTable = "(string \<times> PendingRow) list"

section \<open>Operations\<close>

definition add :: "PendingEventTable \<Rightarrow> PendingRow \<Rightarrow> PendingRowError + PendingEventTable" where
  "add t row =
     (if tool_call_id row \<in> keys t then Inl (DuplicateRow (tool_call_id row))
      else Inr (AList.update (tool_call_id row) row t))"

definition fill ::
  "PendingEventTable \<Rightarrow> string \<Rightarrow> string \<Rightarrow> RowStatus \<Rightarrow> rat option \<Rightarrow> string option
     \<Rightarrow> PendingRowError + PendingEventTable" where
  "fill t cid result status finished_at error =
     (case map_of t cid of
        None \<Rightarrow> Inl (NoPendingRow cid)
      | Some row \<Rightarrow>
          if row_status row \<noteq> PENDING then Inl (AlreadyFilled cid (row_status row))
          else Inr (AList.update cid
                 (row\<lparr>row_status := status, row_result := Some result,
                      row_error := error, row_finished_at := finished_at\<rparr>) t))"

definition is_empty :: "PendingEventTable \<Rightarrow> bool" where
  "is_empty t = (t = [])"

definition is_complete :: "PendingEventTable \<Rightarrow> bool" where
  "is_complete t = (t \<noteq> [] \<and> list_all (\<lambda>(_, row). row_status row \<noteq> PENDING) t)"

record ToolMessage =
  tm_role :: string
  tm_call_id :: string
  tm_content :: string

definition row_message :: "PendingRow \<Rightarrow> ToolMessage" where
  "row_message row =
     \<lparr>tm_role = ''tool'', tm_call_id = tool_call_id row,
      tm_content = (case row_result row of None \<Rightarrow> [] | Some r \<Rightarrow> r)\<rparr>"

definition ordered_results :: "PendingEventTable \<Rightarrow> ToolMessage list" where
  "ordered_results t = map row_message (sort_key row_order (map snd t))"

definition clear :: "PendingEventTable \<Rightarrow> PendingEventTable" where
  "clear t = []"

section \<open>Well-formedness\<close>

definition table_ok :: "PendingEventTable \<Rightarrow> bool" where
  "table_ok t = (dict_ok t \<and> list_all (\<lambda>(k, row). tool_call_id row = k) t)"

lemma table_ok_Nil [simp]: "table_ok []"
  by (simp add: table_ok_def)

lemma add_table_ok [inv_rules]: "table_ok t \<Longrightarrow> add t row = Inr t' \<Longrightarrow> table_ok t'"
  by (auto simp: table_ok_def add_def list_all_iff set_update_dict split: if_splits)

lemma add_keys: "add t row = Inr t' \<Longrightarrow> keys t' = insert (tool_call_id row) (keys t)"
  by (simp add: add_def keys_update split: if_splits del: image_insert) (metis keys_update)

lemma fill_table_ok [inv_rules]:
  assumes "table_ok t" and "fill t cid r st f e = Inr t'"
  shows "table_ok t'"
proof -
  obtain row where row: "map_of t cid = Some row"
    and t': "t' = AList.update cid (row\<lparr>row_status := st, row_result := Some r,
                      row_error := e, row_finished_at := f\<rparr>) t"
    using assms(2) by (auto simp: fill_def split: option.splits if_splits)
  have "tool_call_id row = cid"
    using assms(1) map_of_SomeD [OF row] by (auto simp: table_ok_def list_all_iff)
  then show ?thesis
    using assms(1) by (auto simp: t' table_ok_def list_all_iff set_update_dict)
qed

lemma clear_table_ok [inv_rules]: "table_ok (clear t)"
  by (simp add: clear_def)

section \<open>What one fill does\<close>

lemma fill_ok_iff:
  "(\<exists>t'. fill t cid r st f e = Inr t') \<longleftrightarrow>
   (\<exists>row. map_of t cid = Some row \<and> row_status row = PENDING)"
  by (auto simp: fill_def split: option.splits)

lemma fill_lookup:
  assumes "fill t cid r st f e = Inr t'"
  shows "map_of t' k =
    (if k = cid then map_option (\<lambda>row. row\<lparr>row_status := st, row_result := Some r,
        row_error := e, row_finished_at := f\<rparr>) (map_of t cid) else map_of t k)"
  using assms by (auto simp: fill_def update_conv split: option.splits if_splits)

lemma fill_keys: "fill t cid r st f e = Inr t' \<Longrightarrow> map fst t' = map fst t"
  by (auto simp: fill_def map_fst_update_old map_of_some_keys split: option.splits if_splits)

lemma fill_commute:
  assumes "a \<noteq> b" and "fill t a r1 s1 f1 e1 = Inr t1" and "fill t b r2 s2 f2 e2 = Inr t2"
  shows "\<exists>t'. fill t1 b r2 s2 f2 e2 = Inr t' \<and> fill t2 a r1 s1 f1 e1 = Inr t'"
proof -
  obtain ra rb where a: "map_of t a = Some ra" "row_status ra = PENDING"
    and b: "map_of t b = Some rb" "row_status rb = PENDING"
    using fill_ok_iff assms(2,3) by metis
  then show ?thesis
    using assms update_commute_old [OF assms(1), of t]
    by (auto simp: fill_def update_conv map_of_some_keys)
qed

section \<open>A batch of completions in arrival order\<close>

record Completion =
  c_id :: string
  c_result :: string
  c_status :: RowStatus
  c_finished :: "rat option"
  c_error :: "string option"

fun fill_all :: "PendingEventTable \<Rightarrow> Completion list \<Rightarrow> PendingRowError + PendingEventTable" where
  "fill_all t [] = Inr t"
| "fill_all t (c # cs) =
     (case fill t (c_id c) (c_result c) (c_status c) (c_finished c) (c_error c) of
        Inl e \<Rightarrow> Inl e
      | Inr t' \<Rightarrow> fill_all t' cs)"

definition pending_ids :: "PendingEventTable \<Rightarrow> string set" where
  "pending_ids t = {k. \<exists>row. map_of t k = Some row \<and> row_status row = PENDING}"

lemma fill_pending_ids:
  "fill t cid r st f e = Inr t' \<Longrightarrow> st \<noteq> PENDING \<Longrightarrow> pending_ids t' = pending_ids t - {cid}"
  by (auto simp: pending_ids_def fill_lookup split: if_splits)

lemma fill_pending_ids_other:
  "fill t cid r st f e = Inr t' \<Longrightarrow> k \<noteq> cid \<Longrightarrow> k \<in> pending_ids t' \<longleftrightarrow> k \<in> pending_ids t"
  by (auto simp: pending_ids_def fill_lookup)

lemma fill_defined: "cid \<in> pending_ids t \<Longrightarrow> \<exists>t'. fill t cid r st f e = Inr t'"
  by (simp add: fill_ok_iff pending_ids_def)

lemma fill_open: "fill t cid r st f e = Inr t' \<Longrightarrow> cid \<in> pending_ids t"
  by (auto simp: fill_def pending_ids_def split: option.splits if_splits)

lemma fill_all_defined:
  "distinct (map c_id cs) \<Longrightarrow> c_id ` set cs \<subseteq> pending_ids t \<Longrightarrow> \<exists>t'. fill_all t cs = Inr t'"
proof (induction cs arbitrary: t)
  case Nil
  then show ?case by simp
next
  case (Cons c cs)
  have "c_id c \<in> pending_ids t" using Cons.prems by auto
  then obtain t1 where t1: "fill t (c_id c) (c_result c) (c_status c) (c_finished c) (c_error c) = Inr t1"
    using fill_defined by blast
  have "c_id ` set cs \<subseteq> pending_ids t1"
  proof
    fix k assume k: "k \<in> c_id ` set cs"
    have "c_id c \<notin> c_id ` set cs" and "c_id ` set cs \<subseteq> pending_ids t"
      using Cons.prems by simp_all
    with k have "k \<noteq> c_id c" and "k \<in> pending_ids t" by blast+
    then show "k \<in> pending_ids t1" using fill_pending_ids_other [OF t1] by blast
  qed
  then show ?case using Cons.IH [of t1] Cons.prems t1 by auto
qed

lemma fill_all_pending_ids:
  assumes "fill_all t cs = Inr t'" and "\<forall>c \<in> set cs. c_status c \<noteq> PENDING"
  shows "pending_ids t' = pending_ids t - c_id ` set cs \<and> map fst t' = map fst t"
  using assms
  by (induction cs arbitrary: t) (auto split: sum.splits dest: fill_pending_ids fill_keys)

lemma is_complete_iff:
  assumes "table_ok t"
  shows "is_complete t \<longleftrightarrow> t \<noteq> [] \<and> pending_ids t = {}"
proof -
  have "map_of t k = Some row \<longleftrightarrow> (k, row) \<in> set t" for k row
    using assms by (simp add: table_ok_def)
  then show ?thesis by (auto simp: is_complete_def pending_ids_def list_all_iff)
qed

lemma fill_all_table_ok [inv_rules]: "table_ok t \<Longrightarrow> fill_all t cs = Inr t' \<Longrightarrow> table_ok t'"
  by (induction cs arbitrary: t) (auto split: sum.splits intro: fill_table_ok)

abbreviation fill_c :: "Completion \<Rightarrow> PendingEventTable \<Rightarrow> PendingRowError + PendingEventTable" where
  "fill_c c t \<equiv> fill t (c_id c) (c_result c) (c_status c) (c_finished c) (c_error c)"

lemma fill_move:
  assumes "c_id c \<notin> c_id ` set (us @ vs)" and "fill_c c t = Inr t1"
    and "fill_all t1 (us @ vs) = Inr t'"
  shows "fill_all t (us @ c # vs) = Inr t'"
  using assms
proof (induction us arbitrary: t t1)
  case Nil
  then show ?case by simp
next
  case (Cons u us)
  obtain t2 where t2: "fill_c u t1 = Inr t2" "fill_all t2 (us @ vs) = Inr t'"
    using Cons.prems(3) by (auto split: sum.splits)
  have ne: "c_id c \<noteq> c_id u" using Cons.prems(1) by auto
  have "c_id u \<in> pending_ids t1" using t2(1) by (rule fill_open)
  then have "c_id u \<in> pending_ids t" using fill_pending_ids_other [OF Cons.prems(2)] ne by metis
  then obtain t3 where t3: "fill_c u t = Inr t3" using fill_defined by blast
  obtain t4 where t4: "fill_c u t1 = Inr t4" "fill_c c t3 = Inr t4"
    using fill_commute [OF ne Cons.prems(2) t3] by blast
  have "fill_all t3 (us @ c # vs) = Inr t'"
    using Cons.IH [of t3 t2] Cons.prems(1) t4 t2 by auto
  then show ?case using t3 by simp
qed

lemma fill_all_perm:
  assumes "mset cs = mset cs'" and "distinct (map c_id cs)" and "fill_all t cs = Inr t'"
  shows "fill_all t cs' = Inr t'"
  using assms
proof (induction cs arbitrary: cs' t)
  case Nil
  then show ?case by simp
next
  case (Cons c cs)
  obtain us vs where cs': "cs' = us @ c # vs"
    using Cons.prems(1) by (metis list.set_intros(1) set_mset_mset split_list)
  obtain t1 where t1: "fill_c c t = Inr t1" "fill_all t1 cs = Inr t'"
    using Cons.prems(3) by (auto split: sum.splits)
  have eq: "mset cs = mset (us @ vs)" using Cons.prems(1) cs' by simp
  then have uv: "fill_all t1 (us @ vs) = Inr t'"
    using Cons.IH Cons.prems(2) t1(2) by simp
  have "c_id c \<notin> c_id ` set (us @ vs)"
    using Cons.prems(2) mset_eq_setD [OF eq] by auto
  then show ?case using fill_move [OF _ t1(1) uv] cs' by simp
qed

section \<open>The drained block\<close>

lemma ordered_results_ids:
  assumes "table_ok t"
  shows "mset (map tm_call_id (ordered_results t)) = mset (map fst t)"
proof -
  have "mset (map tm_call_id (ordered_results t)) = image_mset tool_call_id (mset (map snd t))"
    by (simp add: ordered_results_def row_message_def comp_def)
  also have "\<dots> = mset (map (\<lambda>p. tool_call_id (snd p)) t)"
    by (simp add: comp_def multiset.map_comp)
  also have "map (\<lambda>p. tool_call_id (snd p)) t = map fst t"
    using assms by (auto simp: table_ok_def list_all_iff)
  finally show ?thesis .
qed

text \<open>A fill keeps the place and the identity of its row.\<close>

definition slot :: "PendingRow \<Rightarrow> int \<times> string" where
  "slot row = (row_order row, tool_call_id row)"

lemma update_slots:
  "map_of t k = Some r \<Longrightarrow> slot r' = slot r \<Longrightarrow> map slot (map snd (AList.update k r' t)) = map slot (map snd t)"
  by (induction t) (auto split: if_splits)

lemma fill_all_slots: "fill_all t cs = Inr t' \<Longrightarrow> map slot (map snd t') = map slot (map snd t)"
proof (induction cs arbitrary: t)
  case (Cons c cs)
  obtain t1 where t1: "fill_c c t = Inr t1" "fill_all t1 cs = Inr t'" using Cons.prems by (auto split: sum.splits)
  have "map slot (map snd t1) = map slot (map snd t)"
    using t1(1) update_slots by (fastforce simp: fill_def slot_def split: option.splits if_splits)
  then show ?case using Cons.IH [OF t1(2)] by (rule trans [rotated])
qed simp

lemma map_insort_key: "map g (insort_key (\<lambda>x. k (g x)) x xs) = insort_key k (g x) (map g xs)"
  by (induction xs) auto

lemma map_sort_key: "map g (sort_key (\<lambda>x. k (g x)) xs) = sort_key k (map g xs)"
  by (induction xs) (simp_all add: map_insort_key)

lemma ordered_ids: "map tm_call_id (ordered_results t) = map snd (sort_key fst (map slot (map snd t)))"
proof -
  have "map tm_call_id (ordered_results t) = map snd (map slot (sort_key row_order (map snd t)))"
    by (simp add: ordered_results_def row_message_def slot_def)
  also have "map slot (sort_key row_order (map snd t)) = sort_key fst (map slot (map snd t))"
    using map_sort_key [of slot fst "map snd t"] by (simp add: slot_def)
  finally show ?thesis .
qed

lemma fill_all_lookup_other: "k \<notin> c_id ` set cs \<Longrightarrow> fill_all t cs = Inr t' \<Longrightarrow> map_of t' k = map_of t k"
  by (induction cs arbitrary: t) (auto simp: fill_lookup split: sum.splits)

lemma fill_all_lookup:
  "distinct (map c_id cs) \<Longrightarrow> fill_all t cs = Inr t' \<Longrightarrow> c \<in> set cs \<Longrightarrow>
   \<exists>row. map_of t' (c_id c) = Some row \<and> row_result row = Some (c_result c)"
proof (induction cs arbitrary: t)
  case (Cons d cs)
  obtain t1 where t1: "fill_c d t = Inr t1" "fill_all t1 cs = Inr t'" using Cons.prems(2) by (auto split: sum.splits)
  show ?case
  proof (cases "c \<in> set cs")
    case True
    then show ?thesis using Cons.IH t1(2) Cons.prems(1) by simp
  next
    case False
    then have c: "c = d" using Cons.prems(3) by simp
    have "map_of t' (c_id d) = map_of t1 (c_id d)" using fill_all_lookup_other [OF _ t1(2)] Cons.prems(1) by simp
    then show ?thesis using t1(1) fill_lookup [OF t1(1), of "c_id d"] c
      by (auto simp: fill_def split: option.splits if_splits)
  qed
qed simp

lemma result_delivered:
  assumes "table_ok t" and "map_of t k = Some row" and "row_result row = Some r"
  shows "\<lparr>tm_role = ''tool'', tm_call_id = k, tm_content = r\<rparr> \<in> set (ordered_results t)"
proof -
  have "row_message row = \<lparr>tm_role = ''tool'', tm_call_id = k, tm_content = r\<rparr>"
    using assms map_of_SomeD [OF assms(2)] by (auto simp: row_message_def table_ok_def list_all_iff)
  moreover have "row \<in> set (map snd t)" using map_of_SomeD [OF assms(2)] by force
  ultimately show ?thesis unfolding ordered_results_def by (metis image_eqI list.set_map set_sort)
qed

text \<open>
  The interface the scheduler relies on when it completes children: filling is defined
  exactly on the open rows, closes one of them and leaves the identities alone.
\<close>

locale completion_table =
  fixes opens :: "'t \<Rightarrow> string set"
    and ids :: "'t \<Rightarrow> string set"
    and complete :: "'t \<Rightarrow> string \<Rightarrow> string \<Rightarrow> RowStatus \<Rightarrow> string option \<Rightarrow> PendingRowError + 't"
    and okay :: "'t \<Rightarrow> bool"
  assumes opens_ids: "opens t \<subseteq> ids t"
    and complete_iff: "(\<exists>t'. complete t cid r st e = Inr t') \<longleftrightarrow> cid \<in> opens t"
    and complete_opens: "complete t cid r st e = Inr t' \<Longrightarrow> st \<noteq> PENDING \<Longrightarrow> opens t' = opens t - {cid}"
    and complete_ids: "complete t cid r st e = Inr t' \<Longrightarrow> ids t' = ids t"
    and complete_okay: "okay t \<Longrightarrow> complete t cid r st e = Inr t' \<Longrightarrow> okay t'"
begin

lemma complete_twice:
  assumes "complete t cid r st e = Inr t'" and "st \<noteq> PENDING"
  shows "\<exists>err. complete t' cid r2 st2 e2 = Inl err"
proof (cases "complete t' cid r2 st2 e2")
  case (Inr t'')
  then have "cid \<in> opens t'" using complete_iff by blast
  then show ?thesis using complete_opens [OF assms] by simp
qed blast

lemma complete_unknown: "cid \<notin> ids t \<Longrightarrow> \<exists>err. complete t cid r st e = Inl err"
  using opens_ids complete_iff by (cases "complete t cid r st e") blast+

end

interpretation pe: completion_table pending_ids keys
  "\<lambda>t cid r st e. fill t cid r st None e" table_ok
proof unfold_locales
  fix t t' cid r st e
  show "pending_ids t \<subseteq> keys t"
    by (auto simp: pending_ids_def dest: map_of_some_keys)
  show "(\<exists>t'. fill t cid r st None e = Inr t') = (cid \<in> pending_ids t)"
    by (simp add: fill_ok_iff pending_ids_def)
  show "st \<noteq> PENDING \<Longrightarrow> fill t cid r st None e = Inr t' \<Longrightarrow> pending_ids t' = pending_ids t - {cid}"
    by (rule fill_pending_ids)
  show "fill t cid r st None e = Inr t' \<Longrightarrow> keys t' = keys t"
    by (metis fill_keys set_map)
  show "table_ok t \<Longrightarrow> fill t cid r st None e = Inr t' \<Longrightarrow> table_ok t'"
    by (rule fill_table_ok)
qed

section \<open>Properties\<close>


text \<open>
  A batch always resumes: once every open row of a well-formed, non-empty table has received
  one completion, the fills have all succeeded, the table is complete, the drained block answers
  every tool call id exactly once and in the original call order, whatever order the completions
  came in, and every completion's text is delivered under its own call id.
\<close>

theorem batch_resumes:
  assumes "table_ok t" and "t \<noteq> []" and "distinct (map c_id cs)"
    and "c_id ` set cs = pending_ids t" and "\<forall>c \<in> set cs. c_status c \<noteq> PENDING"
  shows "\<exists>t'. fill_all t cs = Inr t' \<and> is_complete t' \<and>
    mset (map tm_call_id (ordered_results t')) = mset (map fst t) \<and>
    map tm_call_id (ordered_results t') = map tool_call_id (sort_key row_order (map snd t)) \<and>
    (\<forall>c \<in> set cs. \<lparr>tm_role = ''tool'', tm_call_id = c_id c, tm_content = c_result c\<rparr> \<in> set (ordered_results t'))"
proof -
  obtain t' where t': "fill_all t cs = Inr t'"
    using fill_all_defined [of cs t] assms(3,4) by auto
  have p: "pending_ids t' = {}" and k: "map fst t' = map fst t"
    using fill_all_pending_ids [OF t' assms(5)] assms(4) by auto
  have ok: "table_ok t'" using fill_all_table_ok [OF assms(1) t'] .
  have ne: "t' \<noteq> []" using assms(2) k by auto
  have "map tm_call_id (ordered_results t') = map tm_call_id (ordered_results t)"
    by (simp only: ordered_ids fill_all_slots [OF t'])
  then have "map tm_call_id (ordered_results t') = map tool_call_id (sort_key row_order (map snd t))"
    by (simp add: ordered_results_def row_message_def)
  then show ?thesis
    using t' ok p k ne is_complete_iff ordered_results_ids fill_all_lookup [OF assms(3) t'] result_delivered [OF ok]
    by metis
qed

section \<open>Witnesses\<close>

definition demo_row :: "string \<Rightarrow> int \<Rightarrow> PendingRow" where
  "demo_row cid n = \<lparr>tool_call_id = cid, row_kind = CHILD_AGENT, row_order = n, row_ref = None,
     row_status = PENDING, row_result = None, row_error = None, row_started_at = None,
     row_finished_at = None\<rparr>"

definition demo_table :: PendingEventTable where
  "demo_table = [(''a'', demo_row ''a'' 0), (''b'', demo_row ''b'' 1)]"

definition demo_done :: "string \<Rightarrow> Completion" where
  "demo_done cid = \<lparr>c_id = cid, c_result = ''ok'', c_status = DONE, c_finished = None, c_error = None\<rparr>"


theorem batch_resumes_witness:
  "\<exists>t'. fill_all demo_table [demo_done ''b'', demo_done ''a''] = Inr t' \<and> is_complete t'"
proof -
  have "pending_ids demo_table = {''a'', ''b''}"
    by (auto simp: pending_ids_def demo_table_def demo_row_def)
  then show ?thesis
    using batch_resumes [of demo_table "[demo_done ''b'', demo_done ''a'']"]
    by (auto simp: demo_table_def demo_row_def demo_done_def table_ok_def)
qed

end
