(* ===== verification/Tool_Facts.thy ===== *)
theory Tool_Facts
  imports Prelude
begin

text \<open>
  Per-call execution observations (\<open>domain/tool_facts.py\<close>).  A collector belongs to one
  invocation; after \<open>close\<close> no observation changes its facts.  The run-time type tests of the
  source (\<open>type(exit_code) is int\<close>) act on dynamic values.
\<close>

record ToolFacts =
  observed :: bool
  exit_code :: "int option"
  timed_out :: "bool option"
  write_completed :: "bool option"
  content_changed :: "bool option"
  changed_paths :: "string list"
  facts_summary :: "string option"

definition empty_facts :: ToolFacts where
  "empty_facts = \<lparr>observed = False, exit_code = None, timed_out = None, write_completed = None,
     content_changed = None, changed_paths = [], facts_summary = None\<rparr>"

record ToolFactsCollector =
  facts :: ToolFacts
  closed :: bool

definition new_collector :: ToolFactsCollector where
  "new_collector = \<lparr>facts = empty_facts, closed = False\<rparr>"

definition as_int :: "pyval \<Rightarrow> int option" where
  "as_int v = (case v of VInt i \<Rightarrow> Some i | _ \<Rightarrow> None)"

definition as_bool :: "pyval \<Rightarrow> bool option" where
  "as_bool v = (case v of VBool b \<Rightarrow> Some b | _ \<Rightarrow> None)"

definition record_execution :: "ToolFactsCollector \<Rightarrow> pyval \<Rightarrow> pyval \<Rightarrow> ToolFactsCollector" where
  "record_execution c ec to =
     (if closed c then c
      else c\<lparr>facts := (facts c)\<lparr>observed := True, exit_code := as_int ec, timed_out := as_bool to\<rparr>\<rparr>)"

definition record_write :: "ToolFactsCollector \<Rightarrow> bool \<Rightarrow> pyval \<Rightarrow> pyval \<Rightarrow> ToolFactsCollector" where
  "record_write c completed changed path =
     (if closed c then c
      else
        let previous = facts c;
            ch = as_bool changed;
            paths = (case path of
                       VStr p \<Rightarrow> if ch = Some True \<and> p \<notin> set (changed_paths previous)
                                then changed_paths previous @ [p] else changed_paths previous
                     | _ \<Rightarrow> changed_paths previous);
            ch' = (if content_changed previous = Some True then Some True else ch)
        in c\<lparr>facts := previous\<lparr>observed := True, write_completed := Some completed,
                                content_changed := ch', changed_paths := paths\<rparr>\<rparr>)"

definition record_timeout :: "ToolFactsCollector \<Rightarrow> ToolFactsCollector" where
  "record_timeout c =
     (if closed c then c else c\<lparr>facts := (facts c)\<lparr>observed := True, timed_out := Some True\<rparr>\<rparr>)"

definition record_submission :: "ToolFactsCollector \<Rightarrow> string \<Rightarrow> ToolFactsCollector" where
  "record_submission c summary =
     (if closed c then c else c\<lparr>facts := (facts c)\<lparr>facts_summary := Some summary\<rparr>\<rparr>)"

definition close :: "ToolFactsCollector \<Rightarrow> ToolFactsCollector \<times> ToolFacts" where
  "close c = (c\<lparr>closed := True\<rparr>, facts c)"

section \<open>Runs of observations\<close>

datatype observation =
    ObsExecution pyval pyval
  | ObsWrite bool pyval pyval
  | ObsTimeout
  | ObsSubmission string
  | ObsClose

fun observe :: "ToolFactsCollector \<Rightarrow> observation \<Rightarrow> ToolFactsCollector" where
  "observe c (ObsExecution e t) = record_execution c e t"
| "observe c (ObsWrite b ch p) = record_write c b ch p"
| "observe c ObsTimeout = record_timeout c"
| "observe c (ObsSubmission s) = record_submission c s"
| "observe c ObsClose = fst (close c)"

lemmas collector_defs = record_execution_def record_write_def record_timeout_def
  record_submission_def close_def Let_def

lemma observe_closed: "closed c \<Longrightarrow> observe c ob = c"
  by (cases ob) (simp_all add: collector_defs)

lemma observe_latch: "content_changed (facts c) = Some True \<Longrightarrow> content_changed (facts (observe c ob)) = Some True"
  by (cases ob) (simp_all add: collector_defs)

lemma observe_paths: "\<exists>qs. changed_paths (facts (observe c ob)) = changed_paths (facts c) @ qs \<and>
   (distinct (changed_paths (facts c)) \<longrightarrow> distinct (changed_paths (facts (observe c ob))))"
  by (cases ob) (auto simp: collector_defs split: pyval.splits)

definition facts_ok :: "ToolFacts \<Rightarrow> bool" where
  "facts_ok f = (distinct (changed_paths f) \<and> (changed_paths f \<noteq> [] \<longrightarrow> content_changed f = Some True))"

lemma observe_facts_ok [inv_rules]: "facts_ok (facts c) \<Longrightarrow> facts_ok (facts (observe c ob))"
  by (cases ob) (auto simp: facts_ok_def collector_defs split: pyval.splits)

lemma observe_all_facts_ok: "facts_ok (facts c) \<Longrightarrow> facts_ok (facts (foldl observe c obs))"
  by (induction obs arbitrary: c) (auto intro: observe_facts_ok)

lemma observe_all_closed: "closed c \<Longrightarrow> foldl observe c obs = c"
  by (induction obs) (simp_all add: observe_closed)

lemma observe_all_latch:
  "content_changed (facts c) = Some True \<Longrightarrow> content_changed (facts (foldl observe c obs)) = Some True"
  by (induction obs arbitrary: c) (auto intro: observe_latch)

section \<open>Properties\<close>

text \<open>
  An invocation's facts are fixed by its close: whatever is observed before, the facts a
  close returns are those of every later state of the collector, and they are consistent
  (no path twice, and a recorded path implies that content changed).
\<close>

theorem close_fixes_facts:
  "close (foldl observe new_collector obs) = (c, f) \<Longrightarrow>
     facts (foldl observe c late) = f \<and> facts_ok f"
proof -
  assume h: "close (foldl observe new_collector obs) = (c, f)"
  have f: "f = facts (foldl observe new_collector obs)"
    and c: "c = (foldl observe new_collector obs)\<lparr>closed := True\<rparr>"
    using h by (auto simp: close_def)
  have "facts_ok (facts new_collector)"
    by (simp add: new_collector_def empty_facts_def facts_ok_def)
  then have "facts_ok f" unfolding f by (rule observe_all_facts_ok)
  moreover have "foldl observe c late = c" by (rule observe_all_closed) (simp add: c)
  ultimately show ?thesis by (simp add: c f)
qed

theorem close_fixes_facts_witness:
  "let (c, f) = close (foldl observe new_collector [ObsWrite True (VBool True) (VStr ''a.py'')])
   in facts (foldl observe c [ObsTimeout]) = f \<and> changed_paths f = [''a.py'']"
proof -
  let ?r = "close (foldl observe new_collector [ObsWrite True (VBool True) (VStr ''a.py'')])"
  have "changed_paths (snd ?r) = [''a.py'']"
    by (simp add: collector_defs new_collector_def empty_facts_def as_bool_def)
  then show ?thesis
    using close_fixes_facts [of "[ObsWrite True (VBool True) (VStr ''a.py'')]" "fst ?r" "snd ?r" "[ObsTimeout]"]
    by (simp add: case_prod_beta)
qed

end
