(* ===== verification/Tool_Loops.thy ===== *)
theory Tool_Loops
  imports Tool_Facts
begin

text \<open>
  Bounded repeat-call permissions (\<open>domain/tool_loops.py\<close>).  A \<open>LoopState\<close> keeps one record
  per operation key: which edit it last ran on, whether a validation of the current edit is
  already spent, the largest timeout tried, and the invocation that owns it.  \<open>reserve\<close> is the
  gate in front of a dispatch, \<open>finish\<close> its completion; \<open>to_dict\<close> and \<open>from_dict\<close> persist it.
\<close>

section \<open>Data\<close>

abbreviation MAX_OPERATIONS :: nat where "MAX_OPERATIONS \<equiv> 200"

abbreviation ANONYMOUS_CALL :: string where "ANONYMOUS_CALL \<equiv> ''<anonymous>''"

datatype ExitKind = ExitUnknown | ExitCompleted | ExitFailed | ExitTimeout

fun kind_str :: "ExitKind \<Rightarrow> string" where
  "kind_str ExitUnknown = ''unknown''"
| "kind_str ExitCompleted = ''completed''"
| "kind_str ExitFailed = ''failed''"
| "kind_str ExitTimeout = ''timeout''"

definition kind_of :: "pyval \<Rightarrow> ExitKind" where
  "kind_of v = (case v of VStr s \<Rightarrow>
      if s = ''completed'' then ExitCompleted else if s = ''failed'' then ExitFailed
      else if s = ''timeout'' then ExitTimeout else ExitUnknown
    | _ \<Rightarrow> ExitUnknown)"

lemma kind_of_kind_str [simp]: "kind_of (VStr (kind_str k)) = k"
  by (cases k) (simp_all add: kind_of_def)

definition nonnegative_int :: "pyval \<Rightarrow> int \<Rightarrow> int" where
  "nonnegative_int v dflt = (case v of VInt i \<Rightarrow> if 0 \<le> i then i else dflt | _ \<Rightarrow> dflt)"

definition positive_timeout :: "pyval \<Rightarrow> rat option" where
  "positive_timeout v =
     (case v of
        VInt i \<Rightarrow> (case float_of_int i of None \<Rightarrow> None | Some r \<Rightarrow> if 0 < r then Some r else None)
      | VFloat (Fin r) \<Rightarrow> if 0 < r then Some r else None
      | _ \<Rightarrow> None)"

lemma positive_timeout_pos: "positive_timeout v = Some r \<Longrightarrow> 0 < r"
  by (auto simp: positive_timeout_def split: pyval.splits pyfloat.splits option.splits if_splits)

record OperationState =
  last_executed_edit_seq :: int
  validation_reserved_edit_seq :: int
  last_exit_kind :: ExitKind
  max_attempted_timeout :: rat
  timeout_recovery_used :: bool
  last_result_key :: "string option"
  inflight_tool_call_id :: "string option"

definition fresh_operation :: "int \<Rightarrow> OperationState" where
  "fresh_operation e = \<lparr>last_executed_edit_seq = e, validation_reserved_edit_seq = e,
     last_exit_kind = ExitUnknown, max_attempted_timeout = 0, timeout_recovery_used = False,
     last_result_key = None, inflight_tool_call_id = None\<rparr>"

record LoopState =
  edit_seq :: int
  blocked_rounds :: int
  last_counted_step :: int
  operations :: "(string \<times> OperationState) list"

definition empty_loops :: LoopState where
  "empty_loops = \<lparr>edit_seq = 0, blocked_rounds = 0, last_counted_step = -1, operations = []\<rparr>"

datatype Reservation =
    Ordinary | Validation | TimeoutRecovery | ValidationTimeoutRecovery
  | Blocked | Inflight | Capacity

definition admits :: "Reservation \<Rightarrow> bool" where
  "admits r = (r \<in> {Ordinary, Validation, TimeoutRecovery, ValidationTimeoutRecovery})"

section \<open>Operations\<close>

definition prune :: "LoopState \<Rightarrow> string set \<Rightarrow> LoopState" where
  "prune s active =
     s\<lparr>operations := filter (\<lambda>(k, op). k \<in> active \<or> inflight_tool_call_id op \<noteq> None) (operations s)\<rparr>"

definition evict_candidate ::
  "(string \<times> OperationState) list \<Rightarrow> string set option \<Rightarrow> string option" where
  "evict_candidate ops active =
     map_option fst (find (\<lambda>(k, op). inflight_tool_call_id op = None \<and>
        (case active of None \<Rightarrow> True | Some ks \<Rightarrow> k \<notin> ks)) ops)"

text \<open>The record a reservation works on: the stored one, or a fresh one after making room.\<close>

definition ensure_operation ::
  "LoopState \<Rightarrow> string \<Rightarrow> int \<Rightarrow> string set option \<Rightarrow> (LoopState \<times> OperationState) option" where
  "ensure_operation s key recent_same active =
     (case map_of (operations s) key of
        Some op \<Rightarrow> Some (s, op)
      | None \<Rightarrow>
          let op = fresh_operation (if recent_same \<le> 1 then edit_seq s else 0);
              insert_into = (\<lambda>ops. Some (s\<lparr>operations := AList.update key op ops\<rparr>, op))
          in if length (operations s) \<ge> MAX_OPERATIONS
             then (case evict_candidate (operations s) active of
                     None \<Rightarrow> None
                   | Some k \<Rightarrow> insert_into (AList.delete k (operations s)))
             else insert_into (operations s))"

definition owned :: "LoopState \<Rightarrow> string \<Rightarrow> bool" where
  "owned s key = (case map_of (operations s) key of
     None \<Rightarrow> False | Some op \<Rightarrow> inflight_tool_call_id op \<noteq> None)"

definition may_validate :: "LoopState \<Rightarrow> OperationState \<Rightarrow> bool \<Rightarrow> bool" where
  "may_validate s op workspace_sensitive = (workspace_sensitive \<and>
     max (last_executed_edit_seq op) (validation_reserved_edit_seq op) < edit_seq s)"

definition may_recover :: "OperationState \<Rightarrow> rat option \<Rightarrow> bool" where
  "may_recover op wait = (case wait of None \<Rightarrow> False | Some w \<Rightarrow>
     last_exit_kind op = ExitTimeout \<and> max_attempted_timeout op < w \<and> \<not> timeout_recovery_used op)"

definition claim_operation ::
  "int \<Rightarrow> rat option \<Rightarrow> string option \<Rightarrow> bool \<Rightarrow> OperationState \<Rightarrow> OperationState" where
  "claim_operation e wait call_id recovers op =
     op\<lparr>inflight_tool_call_id := Some (case call_id of Some c \<Rightarrow> c | None \<Rightarrow> ANONYMOUS_CALL),
        validation_reserved_edit_seq := e,
        max_attempted_timeout := (case wait of Some w \<Rightarrow> max (max_attempted_timeout op) w
                                  | None \<Rightarrow> max_attempted_timeout op),
        timeout_recovery_used := timeout_recovery_used op \<or> recovers\<rparr>"

definition reserve ::
  "LoopState \<Rightarrow> string \<Rightarrow> int \<Rightarrow> int \<Rightarrow> bool \<Rightarrow> bool \<Rightarrow> pyval \<Rightarrow> string option \<Rightarrow> string set option
     \<Rightarrow> LoopState \<times> Reservation" where
  "reserve s key recent_same limit workspace_sensitive timeout_control timeout call_id active =
     (if owned s key then (s, Inflight)
      else
       case ensure_operation s key recent_same active of
         None \<Rightarrow> (s, Capacity)
       | Some (s1, op) \<Rightarrow>
           let wait = (if timeout_control then positive_timeout timeout else None);
               validation = may_validate s1 op workspace_sensitive;
               recovery = may_recover op wait;
               exceptional = (limit \<le> recent_same)
           in if exceptional \<and> \<not> (validation \<or> recovery) then (s1, Blocked)
              else
                (s1\<lparr>operations := AList.update key
                   (claim_operation (edit_seq s1) wait call_id (exceptional \<and> recovery) op) (operations s1)\<rparr>,
                 if \<not> exceptional then Ordinary
                 else if validation \<and> recovery then ValidationTimeoutRecovery
                 else if validation then Validation else TimeoutRecovery))"

definition exit_kind_of :: "ToolFacts \<Rightarrow> bool \<Rightarrow> ExitKind" where
  "exit_kind_of f completed =
     (if timed_out f = Some True then ExitTimeout
      else case exit_code f of
        Some c \<Rightarrow> if c = 0 then ExitCompleted else ExitFailed
      | None \<Rightarrow>
          if write_completed f = Some False then ExitFailed
          else if write_completed f = Some True \<or> completed then ExitCompleted
          else ExitUnknown)"

definition release_operation ::
  "int \<Rightarrow> ExitKind \<Rightarrow> string option \<Rightarrow> OperationState \<Rightarrow> OperationState" where
  "release_operation e kind result_key op =
     op\<lparr>last_executed_edit_seq := e,
        validation_reserved_edit_seq := max (validation_reserved_edit_seq op) e,
        last_exit_kind := kind, last_result_key := result_key,
        inflight_tool_call_id := None\<rparr>"

definition finish ::
  "LoopState \<Rightarrow> string \<Rightarrow> ToolFacts \<Rightarrow> string option \<Rightarrow> string option \<Rightarrow> bool \<Rightarrow> bool \<Rightarrow> LoopState \<times> bool" where
  "finish s key f result_key call_id workspace_sensitive completed =
     (let owner = (case call_id of Some c \<Rightarrow> c | None \<Rightarrow> ANONYMOUS_CALL)
      in case map_of (operations s) key of
           None \<Rightarrow> (s, False)
         | Some op \<Rightarrow>
             if inflight_tool_call_id op \<noteq> Some owner then (s, False)
             else
               let previous = last_exit_kind op;
                   kind = exit_kind_of f completed;
                   changed = (content_changed f = Some True);
                   validated_edit = (workspace_sensitive \<and> last_executed_edit_seq op < edit_seq s
                                     \<and> kind = ExitCompleted);
                   recovered = (previous \<in> {ExitTimeout, ExitFailed} \<and> kind = ExitCompleted);
                   e = (if changed then edit_seq s + 1 else edit_seq s)
               in (s\<lparr>edit_seq := e, operations := AList.update key (release_operation e kind result_key op) (operations s)\<rparr>,
                   changed \<or> validated_edit \<or> recovered))"

section \<open>Persistence\<close>

definition opt_str :: "string option \<Rightarrow> pyval" where
  "opt_str x = (case x of None \<Rightarrow> VNone | Some s \<Rightarrow> VStr s)"

definition str_opt :: "pyval \<Rightarrow> string option" where
  "str_opt v = (case v of VStr s \<Rightarrow> Some s | _ \<Rightarrow> None)"

lemma str_opt_opt_str [simp]: "str_opt (opt_str x) = x"
  by (cases x) (simp_all add: opt_str_def str_opt_def)

definition operation_to_dict :: "OperationState \<Rightarrow> pyval" where
  "operation_to_dict op = VDict
     [(''last_executed_edit_seq'', VInt (last_executed_edit_seq op)),
      (''validation_reserved_edit_seq'', VInt (validation_reserved_edit_seq op)),
      (''last_exit_kind'', VStr (kind_str (last_exit_kind op))),
      (''max_attempted_timeout'', VFloat (Fin (max_attempted_timeout op))),
      (''timeout_recovery_used'', VBool (timeout_recovery_used op)),
      (''last_result_key'', opt_str (last_result_key op)),
      (''inflight_tool_call_id'', opt_str (inflight_tool_call_id op))]"

definition to_dict :: "LoopState \<Rightarrow> pyval" where
  "to_dict s = VDict
     [(''version'', VInt 1), (''edit_seq'', VInt (edit_seq s)),
      (''blocked_rounds'', VInt (blocked_rounds s)),
      (''last_counted_step'', VInt (last_counted_step s)),
      (''operations'', VDict (map (\<lambda>(k, op). (k, operation_to_dict op)) (operations s)))]"

definition operation_from_dict :: "int \<Rightarrow> pyval pydict \<Rightarrow> OperationState" where
  "operation_from_dict e v =
     \<lparr>last_executed_edit_seq = min (nonnegative_int (get v ''last_executed_edit_seq'') 0) e,
      validation_reserved_edit_seq = min (nonnegative_int (get v ''validation_reserved_edit_seq'') 0) e,
      last_exit_kind = kind_of (get v ''last_exit_kind''),
      max_attempted_timeout = (case positive_timeout (get v ''max_attempted_timeout'') of
                                 Some r \<Rightarrow> r | None \<Rightarrow> 0),
      timeout_recovery_used = (get v ''timeout_recovery_used'' = VBool True),
      last_result_key = str_opt (get v ''last_result_key''),
      inflight_tool_call_id = str_opt (get v ''inflight_tool_call_id'')\<rparr>"

datatype SnapshotError = TooManyUnresolved

fun restore_operations ::
  "string set option \<Rightarrow> int \<Rightarrow> (string \<times> pyval) list \<Rightarrow> (string \<times> OperationState) list
     \<Rightarrow> SnapshotError + (string \<times> OperationState) list" where
  "restore_operations active e [] ops = Inr ops"
| "restore_operations active e ((key, value) # rest) ops =
     (case value of
        VDict v \<Rightarrow>
          let inflight = is_str (get v ''inflight_tool_call_id'');
              skipped = (case active of None \<Rightarrow> False | Some ks \<Rightarrow> key \<notin> ks \<and> \<not> inflight);
              store = (\<lambda>ops'. restore_operations active e rest (AList.update key (operation_from_dict e v) ops'))
          in if skipped then restore_operations active e rest ops
             else if length ops \<ge> MAX_OPERATIONS
             then (case evict_candidate ops None of
                     None \<Rightarrow> if inflight then Inl TooManyUnresolved
                             else restore_operations active e rest ops
                   | Some k \<Rightarrow> store (AList.delete k ops))
             else store ops
      | _ \<Rightarrow> restore_operations active e rest ops)"

definition from_dict :: "pyval \<Rightarrow> pyval \<Rightarrow> string set option \<Rightarrow> SnapshotError + LoopState" where
  "from_dict raw legacy_blocked_calls active =
     (case raw of
        VDict d \<Rightarrow>
          let e = nonnegative_int (get d ''edit_seq'') 0;
              s = \<lparr>edit_seq = e, blocked_rounds = nonnegative_int (get d ''blocked_rounds'') 0,
                   last_counted_step = nonnegative_int (get d ''last_counted_step'') (-1),
                   operations = []\<rparr>
          in (case get d ''operations'' of
                VDict ops \<Rightarrow>
                  (case restore_operations active e ops [] of
                     Inl err \<Rightarrow> Inl err
                   | Inr rs \<Rightarrow> Inr (s\<lparr>operations := rs\<rparr>))
              | _ \<Rightarrow> Inr s)
      | _ \<Rightarrow> Inr (empty_loops\<lparr>blocked_rounds :=
                    (if nonnegative_int legacy_blocked_calls 0 > 0 then 1 else 0)\<rparr>))"

section \<open>The invariant\<close>

text \<open>
  A record never claims to have run on, or to have spent, an edit that has not happened; the
  table has at most 200 records; every timeout is nonnegative.
\<close>

definition operation_ok :: "int \<Rightarrow> OperationState \<Rightarrow> bool" where
  "operation_ok e op =
     (0 \<le> last_executed_edit_seq op \<and> last_executed_edit_seq op \<le> e \<and>
      0 \<le> validation_reserved_edit_seq op \<and> validation_reserved_edit_seq op \<le> e \<and>
      0 \<le> max_attempted_timeout op)"

definition ops_ok :: "int \<Rightarrow> (string \<times> OperationState) list \<Rightarrow> bool" where
  "ops_ok e ops = (dict_ok ops \<and> length ops \<le> MAX_OPERATIONS \<and> (\<forall>op \<in> snd ` set ops. operation_ok e op))"

definition loop_ok :: "LoopState \<Rightarrow> bool" where
  "loop_ok s = (0 \<le> edit_seq s \<and> 0 \<le> blocked_rounds s \<and> -1 \<le> last_counted_step s
     \<and> ops_ok (edit_seq s) (operations s))"

lemma loop_ok_empty [simp]: "loop_ok empty_loops"
  by (simp add: loop_ok_def ops_ok_def empty_loops_def)

lemma operation_ok_mono: "operation_ok e op \<Longrightarrow> e \<le> e' \<Longrightarrow> operation_ok e' op"
  by (auto simp: operation_ok_def)

lemma operation_ok_fresh: "0 \<le> e \<Longrightarrow> e \<le> e' \<Longrightarrow> operation_ok e' (fresh_operation e)"
  by (simp add: operation_ok_def fresh_operation_def)

lemma ops_ok_update_old:
  "ops_ok e ops \<Longrightarrow> operation_ok e op \<Longrightarrow> k \<in> keys ops \<Longrightarrow> ops_ok e (AList.update k op ops)"
  by (auto simp: ops_ok_def length_update_old set_update_dict)

lemma ops_ok_update_new:
  "ops_ok e ops \<Longrightarrow> operation_ok e op \<Longrightarrow> length ops < MAX_OPERATIONS \<Longrightarrow> ops_ok e (AList.update k op ops)"
  by (cases "k \<in> keys ops") (auto simp: ops_ok_def length_update_old set_update_dict update_new)

lemma ops_ok_delete: "ops_ok e ops \<Longrightarrow> ops_ok e (AList.delete k ops)"
  by (auto simp: ops_ok_def AList.delete_eq intro: order_trans [OF length_filter_le] distinct_map_filter)

lemma evict_candidate_Some:
  assumes "evict_candidate ops active = Some k"
  shows "k \<in> keys ops \<and> (\<exists>op. (k, op) \<in> set ops \<and> inflight_tool_call_id op = None)"
  using assms by (force simp: evict_candidate_def find_Some_iff in_set_conv_nth)

lemma evict_makes_room:
  assumes "evict_candidate ops active = Some k" and "ops_ok e ops"
  shows "length (AList.delete k ops) < MAX_OPERATIONS"
proof -
  have "k \<in> keys ops" using evict_candidate_Some [OF assms(1)] by blast
  then have "length (AList.delete k ops) < length ops" by (rule length_delete_old)
  then show ?thesis using assms(2) by (simp add: ops_ok_def)
qed

lemma evict_candidate_not_owned:
  assumes "evict_candidate ops active = Some k" and "dict_ok ops" and "map_of ops k = Some op"
  shows "inflight_tool_call_id op = None"
  using evict_candidate_Some [OF assms(1)] assms(2,3) by (metis map_of_is_SomeI option.inject)

lemma ops_ok_lookup: "ops_ok e ops \<Longrightarrow> map_of ops k = Some op \<Longrightarrow> operation_ok e op"
  by (force simp: ops_ok_def dest: map_of_SomeD)

lemma ensure_operation_ok:
  assumes "loop_ok s" and "ensure_operation s key n active = Some (s1, op)"
  shows "loop_ok s1 \<and> map_of (operations s1) key = Some op \<and> edit_seq s1 = edit_seq s"
proof (cases "map_of (operations s) key")
  case (Some op')
  then show ?thesis using assms by (simp add: ensure_operation_def)
next
  case None
  let ?op = "fresh_operation (if n \<le> 1 then edit_seq s else 0)"
  have op: "operation_ok (edit_seq s) ?op"
    using assms(1) by (auto simp: loop_ok_def intro: operation_ok_fresh)
  have ok: "ops_ok (edit_seq s) (operations s)" using assms(1) by (simp add: loop_ok_def)
  obtain ops1 where s1: "s1 = s\<lparr>operations := ops1\<rparr>" "op = ?op"
    and o: "ops_ok (edit_seq s) ops1" "map_of ops1 key = Some ?op"
  proof (cases "length (operations s) \<ge> MAX_OPERATIONS")
    case True
    obtain k where k: "evict_candidate (operations s) active = Some k"
      using assms(2) None True by (cases "evict_candidate (operations s) active") (simp_all add: ensure_operation_def)
    then show ?thesis
      using that assms(2) None True ops_ok_update_new [OF ops_ok_delete [OF ok] op evict_makes_room [OF k ok]]
      by (auto simp: ensure_operation_def Let_def update_conv)
  next
    case False
    then show ?thesis
      using that assms(2) None ops_ok_update_new [OF ok op]
      by (auto simp: ensure_operation_def Let_def update_conv)
  qed
  then show ?thesis using assms(1) by (simp add: loop_ok_def)
qed

lemma claim_operation_ok: "operation_ok e op \<Longrightarrow> 0 \<le> e \<Longrightarrow> operation_ok e (claim_operation e wait cid u op)"
  by (auto simp: operation_ok_def claim_operation_def split: option.splits)

lemma release_operation_ok:
  "operation_ok e op \<Longrightarrow> e \<le> e' \<Longrightarrow> operation_ok e' (release_operation e' kind rk op)"
  by (auto simp: operation_ok_def release_operation_def)

text \<open>The four outcomes of a reservation, as one case rule.\<close>

lemma reserve_cases:
  assumes "reserve s key n l ws tc tm cid active = (s', r)"
  obtains
    (inflight) "owned s key" "s' = s" "r = Inflight"
  | (capacity) "\<not> owned s key" "ensure_operation s key n active = None" "s' = s" "r = Capacity"
  | (blocked) op where "\<not> owned s key" "ensure_operation s key n active = Some (s', op)" "r = Blocked"
      "l \<le> n" "\<not> may_validate s' op ws"
  | (admitted) s1 op wait where "\<not> owned s key" "ensure_operation s key n active = Some (s1, op)"
      "s' = s1\<lparr>operations := AList.update key
          (claim_operation (edit_seq s1) wait cid (l \<le> n \<and> may_recover op wait) op) (operations s1)\<rparr>"
      "r = (if \<not> l \<le> n then Ordinary
            else if may_validate s1 op ws \<and> may_recover op wait then ValidationTimeoutRecovery
            else if may_validate s1 op ws then Validation else TimeoutRecovery)"
      "l \<le> n \<longrightarrow> may_validate s1 op ws \<or> may_recover op wait"
proof (cases "owned s key")
  case True
  then have "s' = s" "r = Inflight" using assms by (simp_all add: reserve_def)
  then show ?thesis by (rule inflight [OF True])
next
  case owned: False
  define wait where "wait = (if tc then positive_timeout tm else None)"
  show ?thesis
  proof (cases "ensure_operation s key n active")
    case None
    then have "s' = s" "r = Capacity" using assms owned by (simp_all add: reserve_def)
    then show ?thesis by (rule capacity [OF owned None])
  next
    case (Some p)
    obtain s1 op where p: "p = (s1, op)" by (cases p)
    show ?thesis
    proof (cases "l \<le> n \<and> \<not> (may_validate s1 op ws \<or> may_recover op wait)")
      case True
      then have "s' = s1" "r = Blocked" using assms owned Some p
        by (simp_all add: reserve_def Let_def flip: wait_def)
      then show ?thesis using blocked [OF owned] Some p True by simp
    next
      case False
      then show ?thesis using assms owned Some p admitted [OF owned, of s1 op wait]
        by (auto simp: reserve_def Let_def simp flip: wait_def split: if_splits)
    qed
  qed
qed

lemma finish_cases:
  assumes "finish s key f rk cid ws c = (s', b)"
  obtains (ignored) "s' = s" "\<not> b"
  | (settled) op e where "map_of (operations s) key = Some op"
      "inflight_tool_call_id op = Some (case cid of Some c \<Rightarrow> c | None \<Rightarrow> ANONYMOUS_CALL)"
      "e = (if content_changed f = Some True then edit_seq s + 1 else edit_seq s)"
      "s' = s\<lparr>edit_seq := e, operations :=
         AList.update key (release_operation e (exit_kind_of f c) rk op) (operations s)\<rparr>"
proof (cases "map_of (operations s) key")
  case None
  then show ?thesis using assms ignored by (simp add: finish_def)
next
  case (Some op)
  define e where "e = (if content_changed f = Some True then edit_seq s + 1 else edit_seq s)"
  show ?thesis
  proof (cases "inflight_tool_call_id op = Some (case cid of Some c \<Rightarrow> c | None \<Rightarrow> ANONYMOUS_CALL)")
    case True
    then show ?thesis
      using assms Some settled [OF Some True e_def] unfolding finish_def Let_def
      by (simp flip: e_def)
  next
    case False
    then show ?thesis using assms Some ignored by (simp add: finish_def)
  qed
qed

lemma loop_ok_update:
  "\<lbrakk> loop_ok s; key \<in> keys (operations s); edit_seq s \<le> e; operation_ok e op \<rbrakk> \<Longrightarrow>
   loop_ok (s\<lparr>edit_seq := e, operations := AList.update key op (operations s)\<rparr>)"
proof -
  assume h: "loop_ok s" "key \<in> keys (operations s)" "edit_seq s \<le> e" "operation_ok e op"
  then have "ops_ok e (operations s)" by (auto simp: loop_ok_def ops_ok_def intro: operation_ok_mono)
  then show ?thesis using h ops_ok_update_old by (auto simp: loop_ok_def)
qed

lemma reserve_ok [inv_rules]:
  assumes "loop_ok s" and "reserve s key n l ws tc tm cid active = (s', r)"
  shows "loop_ok s'"
  using assms(2)
proof (cases rule: reserve_cases)
  case (admitted s1 op wait)
  have e: "loop_ok s1" "map_of (operations s1) key = Some op"
    using ensure_operation_ok [OF assms(1) admitted(2)] by auto
  then have "operation_ok (edit_seq s1) op" "0 \<le> edit_seq s1"
    using ops_ok_lookup by (auto simp: loop_ok_def)
  then show ?thesis
    using loop_ok_update [OF e(1) map_of_some_keys [OF e(2)] order.refl claim_operation_ok] admitted(3)
    by simp
next
  case (blocked op)
  then show ?thesis using ensure_operation_ok [OF assms(1)] by blast
qed (use assms(1) in simp_all)

lemma finish_ok [inv_rules]:
  assumes "loop_ok s" and "finish s key f rk cid ws c = (s', b)"
  shows "loop_ok s'"
  using assms(2)
proof (cases rule: finish_cases)
  case (settled op e)
  have "operation_ok (edit_seq s) op" "edit_seq s \<le> e"
    using assms(1) settled(1,3) ops_ok_lookup by (auto simp: loop_ok_def)
  then show ?thesis
    using loop_ok_update [OF assms(1) map_of_some_keys [OF settled(1)] _ release_operation_ok] settled(4)
    by simp
qed (use assms(1) in simp)

lemma prune_ok [inv_rules]: "loop_ok s \<Longrightarrow> loop_ok (prune s active)"
  by (auto simp: loop_ok_def prune_def ops_ok_def intro: order_trans [OF length_filter_le] distinct_map_filter)

lemma operation_from_dict_ok: "0 \<le> e \<Longrightarrow> operation_ok e (operation_from_dict e v)"
  by (auto simp: operation_ok_def operation_from_dict_def nonnegative_int_def
      split: pyval.splits option.splits dest: positive_timeout_pos)

lemma restore_operations_ok:
  assumes "0 \<le> e" and "ops_ok e ops" and "restore_operations active e raw ops = Inr ops'"
  shows "ops_ok e ops'"
  using assms(2,3)
proof (induction raw arbitrary: ops)
  case Nil
  then show ?case by simp
next
  case (Cons p raw)
  obtain key val where p: "p = (key, val)" by (cases p)
  show ?case
  proof (cases val)
    case (VDict v)
    have new: "ops_ok e ops1 \<Longrightarrow> length ops1 < MAX_OPERATIONS \<Longrightarrow>
        ops_ok e (AList.update key (operation_from_dict e v) ops1)" for ops1
      using operation_from_dict_ok [OF assms(1)] ops_ok_update_new by blast
    have evict: "evict_candidate ops None = Some k \<Longrightarrow>
        ops_ok e (AList.update key (operation_from_dict e v) (AList.delete k ops))" for k
      using new evict_makes_room ops_ok_delete Cons.prems(1) by blast
    show ?thesis
      using Cons.prems Cons.IH new [OF Cons.prems(1)] evict VDict p
      by (auto simp: Let_def not_le split: if_splits option.splits)
  qed (use Cons p in simp_all)
qed

lemma from_dict_ok: "from_dict raw legacy active = Inr s \<Longrightarrow> loop_ok s"
proof (cases raw)
  case (VDict d)
  assume h: "from_dict raw legacy active = Inr s"
  let ?e = "nonnegative_int (get d ''edit_seq'') 0"
  have e: "0 \<le> ?e" by (simp add: nonnegative_int_def split: pyval.splits)
  have n: "0 \<le> nonnegative_int v 0" "-1 \<le> nonnegative_int v (-1)" for v
    by (simp_all add: nonnegative_int_def split: pyval.splits)
  have "ops_ok ?e []" by (simp add: ops_ok_def)
  then show ?thesis
    using h VDict e n restore_operations_ok [OF e]
    by (auto simp: from_dict_def loop_ok_def Let_def split: pyval.splits sum.splits)
qed (auto simp: from_dict_def loop_ok_def empty_loops_def ops_ok_def)


section \<open>Round trip of a snapshot\<close>

lemma operation_roundtrip:
  "operation_ok e op \<Longrightarrow> operation_to_dict op = VDict v \<Longrightarrow> operation_from_dict e v = op"
  by (cases op) (auto simp: operation_to_dict_def operation_from_dict_def operation_ok_def get_def
      nonnegative_int_def positive_timeout_def)

lemma restore_roundtrip:
  assumes "dict_ok (done @ ops)" and "length (done @ ops) \<le> MAX_OPERATIONS"
    and "\<forall>op \<in> snd ` set ops. operation_ok e op"
  shows "restore_operations None e (map (\<lambda>(k, op). (k, operation_to_dict op)) ops) done = Inr (done @ ops)"
  using assms
proof (induction ops arbitrary: "done")
  case Nil
  then show ?case by simp
next
  case (Cons p ops)
  obtain k op where p: "p = (k, op)" by (cases p)
  obtain v where v: "operation_to_dict op = VDict v" by (simp add: operation_to_dict_def)
  have "k \<notin> keys done" and "operation_ok e op" using Cons.prems p by auto
  then show ?case
    using Cons.IH [of "done @ [p]"] Cons.prems p v operation_roundtrip [of e op v]
    by (simp add: update_new)
qed

section \<open>Ownership and one-shot permissions\<close>

lemma owned_iff: "owned s key \<longleftrightarrow> (\<exists>op. map_of (operations s) key = Some op \<and> inflight_tool_call_id op \<noteq> None)"
  by (auto simp: owned_def split: option.splits)

lemma ensure_keeps_owned:
  assumes "loop_ok s" and "map_of (operations s) k = Some op" and "inflight_tool_call_id op \<noteq> None"
    and "ensure_operation s key n active = Some (s1, op1)"
  shows "map_of (operations s1) k = Some op"
proof (cases "map_of (operations s) key")
  case (Some x)
  then show ?thesis using assms by (simp add: ensure_operation_def)
next
  case None
  then have "k \<noteq> key" using assms(2) by auto
  moreover have "evict_candidate (operations s) active \<noteq> Some k"
    using evict_candidate_not_owned assms(1-3) by (auto simp: loop_ok_def ops_ok_def)
  ultimately show ?thesis
    using assms(2,4) None by (auto simp: ensure_operation_def Let_def update_conv delete_conv'
        split: if_splits option.splits)
qed

lemma reserve_keeps_owned:
  assumes "loop_ok s" and "map_of (operations s) k = Some op" and "inflight_tool_call_id op \<noteq> None"
    and "reserve s key n l ws tc tm cid active = (s', r)"
  shows "map_of (operations s') k = Some op"
proof -
  have "owned s k" using assms(2,3) by (auto simp: owned_iff)
  show ?thesis
    using assms(4)
  proof (cases rule: reserve_cases)
    case (admitted s1 op1 wait)
    then have "k \<noteq> key" using \<open>owned s k\<close> by auto
    then show ?thesis using ensure_keeps_owned [OF assms(1-3) admitted(2)] admitted(3) by (simp add: update_conv)
  next
    case (blocked op1)
    then show ?thesis using ensure_keeps_owned [OF assms(1-3)] by blast
  qed (use assms(2) in simp_all)
qed

text \<open>Runs of the gate: reservations, completions and prunes in any order.\<close>

datatype loop_event =
    EvReserve string int int bool bool pyval "string option" "string set option"
  | EvFinish string ToolFacts "string option" "string option" bool bool
  | EvPrune "string set"

fun loop_step :: "LoopState \<Rightarrow> loop_event \<Rightarrow> LoopState" where
  "loop_step s (EvReserve k n l ws tc tm cid act) = fst (reserve s k n l ws tc tm cid act)"
| "loop_step s (EvFinish k f rk cid ws c) = fst (finish s k f rk cid ws c)"
| "loop_step s (EvPrune act) = prune s act"

abbreviation owner_of :: "string option \<Rightarrow> string" where
  "owner_of cid \<equiv> (case cid of Some c \<Rightarrow> c | None \<Rightarrow> ANONYMOUS_CALL)"

fun finishes :: "string \<Rightarrow> string \<Rightarrow> loop_event \<Rightarrow> bool" where
  "finishes k w (EvFinish k' f rk cid ws c) = (k' = k \<and> owner_of cid = w)"
| "finishes k w _ = False"

lemma loop_step_ok [inv_rules]: "loop_ok s \<Longrightarrow> loop_ok (loop_step s ev)"
  by (cases ev) (auto intro: reserve_ok finish_ok prune_ok simp: prod_eq_iff)

lemma loop_run_ok: "loop_ok s \<Longrightarrow> loop_ok (foldl loop_step s evs)"
  by (induction evs arbitrary: s) (auto intro: loop_step_ok)

lemma finish_keeps_owned:
  assumes "map_of (operations s) k = Some op" and "inflight_tool_call_id op = Some w"
    and "\<not> (key = k \<and> owner_of cid = w)"
  shows "map_of (operations (fst (finish s key f rk cid ws c))) k = Some op"
proof -
  obtain s' b where f: "finish s key f rk cid ws c = (s', b)" by (cases "finish s key f rk cid ws c")
  then have "map_of (operations s') k = Some op"
    using assms by (cases rule: finish_cases) (auto simp: update_conv)
  then show ?thesis by (simp add: f)
qed

lemma prune_keeps_owned:
  assumes "dict_ok (operations s)" "map_of (operations s) k = Some op" "inflight_tool_call_id op \<noteq> None"
  shows "map_of (operations (prune s act)) k = Some op"
proof -
  have "(k, op) \<in> set (operations (prune s act))"
    using assms(2,3) by (auto simp: prune_def dest: map_of_SomeD)
  moreover have "dict_ok (operations (prune s act))"
    using assms(1) by (simp add: prune_def distinct_map_filter)
  ultimately show ?thesis by simp
qed

lemma loop_step_keeps_owned:
  assumes "loop_ok s" "map_of (operations s) k = Some op" "inflight_tool_call_id op = Some w"
    and "\<not> finishes k w ev"
  shows "map_of (operations (loop_step s ev)) k = Some op"
  using assms
proof (cases ev)
  case (EvReserve key n l ws tc tm cid act)
  then show ?thesis
    using reserve_keeps_owned [OF assms(1,2), of key n l ws tc tm cid act] assms(3)
    by (cases "reserve s key n l ws tc tm cid act") simp
next
  case (EvFinish key f rk cid ws c)
  then show ?thesis using finish_keeps_owned [OF assms(2,3)] assms(4) by auto
next
  case (EvPrune act)
  then show ?thesis using prune_keeps_owned [OF _ assms(2)] assms(1,3) by (simp add: loop_ok_def ops_ok_def)
qed

lemma loop_run_keeps_owned:
  assumes "loop_ok s" "map_of (operations s) k = Some op" "inflight_tool_call_id op = Some w"
    and "list_all (\<lambda>ev. \<not> finishes k w ev) evs"
  shows "map_of (operations (foldl loop_step s evs)) k = Some op"
  using assms
  by (induction evs arbitrary: s) (auto intro: loop_step_ok loop_step_keeps_owned)

lemma reserve_admitted:
  assumes "loop_ok s" and "reserve s key n l ws tc tm cid active = (s', r)" and "admits r"
  obtains op where "map_of (operations s') key = Some op" "inflight_tool_call_id op = Some (owner_of cid)"
    "validation_reserved_edit_seq op = edit_seq s'"
    "r \<in> {TimeoutRecovery, ValidationTimeoutRecovery} \<longrightarrow> timeout_recovery_used op"
  using assms(2)
proof (cases rule: reserve_cases)
  case (admitted s1 op wait)
  then show ?thesis
    using that [of "claim_operation (edit_seq s1) wait cid (l \<le> n \<and> may_recover op wait) op"]
    by (auto simp: update_conv claim_operation_def)
qed (use assms(3) in \<open>simp_all add: admits_def\<close>)

lemma finish_settled:
  assumes "map_of (operations s) key = Some op" "inflight_tool_call_id op = Some (owner_of cid)"
    and "finish s key f rk cid ws c = (s', b)"
  obtains op' where "map_of (operations s') key = Some op'" "last_executed_edit_seq op' = edit_seq s'"
    "timeout_recovery_used op' = timeout_recovery_used op" "inflight_tool_call_id op' = None"
proof -
  define e where "e = (if content_changed f = Some True then edit_seq s + 1 else edit_seq s)"
  have "s' = s\<lparr>edit_seq := e, operations :=
      AList.update key (release_operation e (exit_kind_of f c) rk op) (operations s)\<rparr>"
    using assms by (auto simp: finish_def Let_def e_def)
  then show ?thesis
    using that [of "release_operation e (exit_kind_of f c) rk op"]
    by (simp add: update_conv release_operation_def)
qed

lemma reserve_known:
  assumes "map_of (operations s) key = Some op" and "reserve s key n l ws tc tm cid active = (s', r)"
  shows "(r \<in> {Validation, ValidationTimeoutRecovery} \<longrightarrow> may_validate s op ws) \<and>
    (r \<in> {TimeoutRecovery, ValidationTimeoutRecovery} \<longrightarrow> \<not> timeout_recovery_used op)"
  using assms(2)
proof (cases rule: reserve_cases)
  case (admitted s1 op1 wait)
  then have "s1 = s" "op1 = op" using assms(1) by (simp_all add: ensure_operation_def)
  then show ?thesis using admitted(4,5) by (auto simp: may_recover_def split: option.splits if_splits)
qed simp_all

section \<open>Properties\<close>

text \<open>
  C40. A restored gate is always well formed: from any snapshot value that is accepted, and after
  any run of reservations, completions and prunes, at most 200 records remain, no record runs
  ahead of the edit counter and every counter is in range.
\<close>

theorem restored_loops_stay_ok:
  assumes "from_dict raw legacy active = Inr s"
  shows "loop_ok (foldl loop_step s evs)"
  using from_dict_ok [OF assms] by (rule loop_run_ok)

theorem restored_loops_stay_ok_witness:
  "loop_ok (foldl loop_step (empty_loops\<lparr>blocked_rounds := 1\<rparr>) [EvReserve ''k'' 3 3 True False VNone None None])"
proof -
  have "from_dict VNone (VInt 2) None = Inr (empty_loops\<lparr>blocked_rounds := 1\<rparr>)"
    by (simp add: from_dict_def nonnegative_int_def)
  then show ?thesis by (rule restored_loops_stay_ok)
qed

text \<open>
  Saving and restoring the gate loses nothing: a well-formed state is what \<open>from_dict\<close> builds
  from its own \<open>to_dict\<close>, owners and spent permissions included.
\<close>

theorem loops_roundtrip:
  assumes "loop_ok s"
  shows "from_dict (to_dict s) legacy None = Inr s"
proof -
  have "restore_operations None (edit_seq s) (map (\<lambda>(k, op). (k, operation_to_dict op)) (operations s)) []
      = Inr (operations s)"
    using assms restore_roundtrip [of "[]" "operations s" "edit_seq s"]
    by (simp add: loop_ok_def ops_ok_def)
  then show ?thesis
    using assms by (auto simp: from_dict_def to_dict_def loop_ok_def get_def nonnegative_int_def)
qed

definition demo_loops :: LoopState where
  "demo_loops = \<lparr>edit_seq = 2, blocked_rounds = 1, last_counted_step = 4,
     operations = [(''k'', (fresh_operation 1)\<lparr>inflight_tool_call_id := Some ''c1''\<rparr>)]\<rparr>"

theorem loops_roundtrip_witness:
  "loop_ok demo_loops \<and> from_dict (to_dict demo_loops) VNone None = Inr demo_loops"
proof -
  have "loop_ok demo_loops"
    by (simp add: demo_loops_def loop_ok_def ops_ok_def operation_ok_def fresh_operation_def)
  then show ?thesis using loops_roundtrip by blast
qed

text \<open>
  C32. A dispatch is exclusive: once a reservation is admitted, every later reservation of the same
  key is answered \<open>inflight\<close> and changes nothing, through any run that does not contain the
  completion by the owning call; no eviction or prune can take the record away.
\<close>

theorem dispatch_exclusive:
  assumes "loop_ok s" and "reserve s key n l ws tc tm cid active = (s1, r)" and "admits r"
    and "list_all (\<lambda>ev. \<not> finishes key (owner_of cid) ev) evs"
  shows "reserve (foldl loop_step s1 evs) key n' l' ws' tc' tm' cid' active'
    = (foldl loop_step s1 evs, Inflight)"
proof -
  obtain op where op: "map_of (operations s1) key = Some op" "inflight_tool_call_id op = Some (owner_of cid)"
    using reserve_admitted [OF assms(1-3)] by blast
  have "map_of (operations (foldl loop_step s1 evs)) key = Some op"
    using loop_run_keeps_owned [OF reserve_ok [OF assms(1,2)] op assms(4)] .
  then show ?thesis using op(2) by (simp add: reserve_def owned_def)
qed

theorem dispatch_exclusive_witness:
  "\<exists>s1. reserve empty_loops ''k'' 1 3 True False VNone (Some ''c1'') None = (s1, Ordinary) \<and>
     reserve s1 ''k'' 2 3 True False VNone (Some ''c2'') None = (s1, Inflight)"
proof -
  obtain s1 where s1: "reserve empty_loops ''k'' 1 3 True False VNone (Some ''c1'') None = (s1, Ordinary)"
    by (simp add: reserve_def owned_def ensure_operation_def empty_loops_def Let_def)
  have "reserve (foldl loop_step s1 []) ''k'' 2 3 True False VNone (Some ''c2'') None
      = (foldl loop_step s1 [], Inflight)"
    by (rule dispatch_exclusive [OF loop_ok_empty s1]) (simp_all add: admits_def)
  then show ?thesis using s1 by simp
qed


definition demo_edited :: LoopState where
  "demo_edited = \<lparr>edit_seq = 1, blocked_rounds = 0, last_counted_step = -1,
     operations = [(''k'', fresh_operation 0)]\<rparr>"


end
