(* ===== verification/Session_State.thy ===== *)
theory Session_State
  imports Pending Tool_Loops
begin

text \<open>
  The session record and its phase machine (\<open>domain/session.py\<close>).  Every method of
  \<open>SessionState\<close> is a function on the record.  The clock and the random turn identifier are
  arguments; methods that raise return a sum.
\<close>

section \<open>Phases\<close>

datatype SessionPhase =
    IDLE | PRECHECK | CALLING_LLM | HANDLING_RESPONSE | EXECUTING_TOOLS
  | AWAITING_EVENTS | AUTOSAVING | DONE | STOPPED | ERROR

abbreviation TERMINAL_PHASES :: "SessionPhase list" where
  "TERMINAL_PHASES \<equiv> [DONE, STOPPED, ERROR]"

definition is_terminal :: "SessionPhase \<Rightarrow> bool" where
  "is_terminal p = (p \<in> set TERMINAL_PHASES)"

fun PHASE_TRANSITIONS :: "SessionPhase \<Rightarrow> SessionPhase list" where
  "PHASE_TRANSITIONS IDLE = [PRECHECK]"
| "PHASE_TRANSITIONS PRECHECK = [CALLING_LLM, STOPPED]"
| "PHASE_TRANSITIONS CALLING_LLM = [HANDLING_RESPONSE, STOPPED]"
| "PHASE_TRANSITIONS HANDLING_RESPONSE = [EXECUTING_TOOLS, DONE, STOPPED, AUTOSAVING]"
| "PHASE_TRANSITIONS EXECUTING_TOOLS = [AUTOSAVING, AWAITING_EVENTS]"
| "PHASE_TRANSITIONS AWAITING_EVENTS = [AUTOSAVING]"
| "PHASE_TRANSITIONS AUTOSAVING = [PRECHECK, DONE]"
| "PHASE_TRANSITIONS DONE = [IDLE]"
| "PHASE_TRANSITIONS STOPPED = [IDLE]"
| "PHASE_TRANSITIONS ERROR = [IDLE]"

datatype SessionError =
    InvalidPhaseTransition SessionPhase SessionPhase
  | SessionValueError string

section \<open>State\<close>

abbreviation MAX_SCOUT_LEDGER_CARDS :: nat where "MAX_SCOUT_LEDGER_CARDS \<equiv> 256"

type_synonym message = "(string \<times> pyval) list"

record TurnEnforcementState =
  recent_call_hashes :: "string list"
  loop_state :: LoopState
  write_effect_unknown :: bool
  last_progress_unknown :: bool
  reads_since_last_edit :: int
  has_landed_write :: bool
  low_yield_since_progress :: int
  distinct_evidence_count :: int
  seen_result_hashes :: "string set"
  scout_ledger :: "message list"
  steps_since_progress :: int
  loop_blocked_since_progress :: int

definition fresh_turn :: TurnEnforcementState where
  "fresh_turn = \<lparr>recent_call_hashes = [], loop_state = empty_loops, write_effect_unknown = False,
     last_progress_unknown = False, reads_since_last_edit = 0, has_landed_write = False,
     low_yield_since_progress = 0, distinct_evidence_count = 0, seen_result_hashes = {},
     scout_ledger = [], steps_since_progress = 0, loop_blocked_since_progress = 0\<rparr>"

record SessionState =
  messages :: "message list"
  anthropic_history :: "pyval option"
  used_tokens :: int
  context_tokens :: int
  step_count :: int
  markup_recovered :: int
  turn :: TurnEnforcementState
  wind_down_done :: bool
  wind_down_attempts :: int
  wind_down_token_mark :: int
  budget_reserve_consumed :: bool
  phase :: SessionPhase
  terminal_reason :: "string option"
  aid :: int
  pending_events :: PendingEventTable
  message_timestamps :: "pyval list"
  pending_user_messages :: "message list"
  pending_external_user_turn :: "message option"
  active_turn_start_message_index :: "int option"
  completed_turn_start_message_index :: "int option"
  pending_step_latency :: "rat option"
  submitted_summary :: "string option"

record UserTurnCheckpoint =
  cp_message_count :: nat
  cp_timestamp_count :: nat
  cp_phase :: SessionPhase
  cp_terminal_reason :: "string option"
  cp_pending_external_user_turn :: "message option"
  cp_pending_step_latency :: "rat option"
  cp_submitted_summary :: "string option"
  cp_turn :: TurnEnforcementState
  cp_wind_down_done :: bool
  cp_wind_down_attempts :: int
  cp_wind_down_token_mark :: int

section \<open>Messages and timestamps\<close>

definition align_timestamps :: "string \<Rightarrow> SessionState \<Rightarrow> SessionState" where
  "align_timestamps now s =
     (if length (message_timestamps s) < length (messages s)
      then s\<lparr>message_timestamps := message_timestamps s @
               replicate (length (messages s) - length (message_timestamps s)) (VStr now)\<rparr>
      else s)"

text \<open>\<open>SessionState(messages=...)\<close> with every default, then \<open>__post_init__\<close>.\<close>

definition new_session :: "string \<Rightarrow> message list \<Rightarrow> SessionState" where
  "new_session now ms = align_timestamps now
     \<lparr>messages = ms, anthropic_history = None, used_tokens = 0, context_tokens = 0, step_count = 0,
      markup_recovered = 0, turn = fresh_turn, wind_down_done = False, wind_down_attempts = 0,
      wind_down_token_mark = 0, budget_reserve_consumed = False, phase = IDLE, terminal_reason = None,
      aid = -1, pending_events = [], message_timestamps = [], pending_user_messages = [],
      pending_external_user_turn = None, active_turn_start_message_index = None,
      completed_turn_start_message_index = None, pending_step_latency = None, submitted_summary = None\<rparr>"

definition enriched_messages ::
  "string \<Rightarrow> SessionState \<Rightarrow> pyval \<Rightarrow> SessionError + (SessionState \<times> message list)" where
  "enriched_messages now s start =
     (case start of
        VInt i \<Rightarrow>
          if i < 0 then Inl (SessionValueError ''message start must be a non-negative integer'')
          else
            let s' = align_timestamps now s
            in Inr (s', map (\<lambda>(m, ts). AList.update ''timestamp'' ts m)
                 (zip (drop (nat i) (messages s')) (drop (nat i) (message_timestamps s'))))
      | _ \<Rightarrow> Inl (SessionValueError ''message start must be a non-negative integer''))"

definition append_message :: "string \<Rightarrow> message \<Rightarrow> SessionState \<Rightarrow> SessionState" where
  "append_message now m s =
     s\<lparr>messages := messages s @ [m], message_timestamps := message_timestamps s @ [VStr now]\<rparr>"

text \<open>
  \<open>replace_messages\<close> finds a prior timestamp by object identity; each new message comes with the
  (last) position at which the same object occurs in the old list, if any.
\<close>

definition replace_messages ::
  "string \<Rightarrow> (nat option \<times> message) list \<Rightarrow> SessionState \<Rightarrow> SessionState" where
  "replace_messages now ms s =
     (let paired = min (length (messages s)) (length (message_timestamps s));
          rebuilt = map (\<lambda>(origin, m).
            if ''timestamp'' \<in> keys m
            then (AList.delete ''timestamp'' m, get m ''timestamp'')
            else (m, case origin of
                       None \<Rightarrow> VStr now
                     | Some i \<Rightarrow> if i < paired \<and> truthy (message_timestamps s ! i)
                                then message_timestamps s ! i else VStr now)) ms
      in s\<lparr>messages := map fst rebuilt, message_timestamps := map snd rebuilt, anthropic_history := None\<rparr>)"

section \<open>Queued user messages\<close>

definition queue_pending_user_message :: "string \<Rightarrow> message \<Rightarrow> SessionState \<Rightarrow> SessionState" where
  "queue_pending_user_message now m s =
     s\<lparr>pending_user_messages := pending_user_messages s @ [AList.update ''timestamp'' (VStr now) m]\<rparr>"

fun remove_first :: "('a \<Rightarrow> bool) \<Rightarrow> 'a list \<Rightarrow> 'a list" where
  "remove_first P [] = []"
| "remove_first P (x # xs) = (if P x then xs else x # remove_first P xs)"

definition discard_pending_user_message :: "string \<Rightarrow> SessionState \<Rightarrow> SessionState" where
  "discard_pending_user_message content s =
     s\<lparr>pending_user_messages :=
         remove_first (\<lambda>m. get m ''content'' = VStr content) (pending_user_messages s)\<rparr>"

definition discard_pending_user_message_id :: "string \<Rightarrow> SessionState \<Rightarrow> SessionState" where
  "discard_pending_user_message_id message_id s =
     s\<lparr>pending_user_messages :=
         remove_first (\<lambda>m. get m ''message_id'' = VStr message_id) (pending_user_messages s)\<rparr>"

definition enriched_pending_user_messages :: "SessionState \<Rightarrow> message list" where
  "enriched_pending_user_messages s = pending_user_messages s"

definition append_queued_external_user_turn ::
  "string \<Rightarrow> string \<Rightarrow> string \<Rightarrow> bool \<Rightarrow> SessionState \<Rightarrow> SessionState" where
  "append_queued_external_user_turn turn_id now content defer s =
     (let pending = [(''turn_id'', VStr turn_id), (''status'', VStr ''queued''), (''content'', VStr content)];
          s1 = s\<lparr>pending_external_user_turn := Some pending\<rparr>
      in if defer then s1
         else
           let s2 = append_message now [(''role'', VStr ''user''), (''content'', VStr content)] s1
           in s2\<lparr>pending_external_user_turn :=
                  Some (AList.update ''message_index'' (VInt (int (length (messages s2)) - 1)) pending)\<rparr>)"

definition consume_queued_external_user_turn :: "string \<Rightarrow> SessionState \<Rightarrow> SessionState" where
  "consume_queued_external_user_turn now s =
     (case pending_external_user_turn s of
        None \<Rightarrow> s
      | Some p \<Rightarrow>
          (if ''message_index'' \<notin> keys p
           then append_message now [(''role'', VStr ''user''), (''content'', get p ''content'')] s
           else s)\<lparr>pending_external_user_turn := None\<rparr>)"

definition start_active_turn :: "int \<Rightarrow> SessionState \<Rightarrow> SessionState" where
  "start_active_turn i s =
     s\<lparr>active_turn_start_message_index := Some i, completed_turn_start_message_index := None\<rparr>"

definition clear_active_turn :: "SessionState \<Rightarrow> SessionState" where
  "clear_active_turn s =
     (if phase s = DONE \<and> active_turn_start_message_index s \<noteq> None
      then s\<lparr>completed_turn_start_message_index := active_turn_start_message_index s\<rparr> else s)
     \<lparr>active_turn_start_message_index := None, pending_step_latency := None, submitted_summary := None\<rparr>"

definition is_done :: "SessionState \<Rightarrow> bool" where
  "is_done s = (phase s = DONE)"

section \<open>Counters\<close>

definition add_used_tokens :: "pyval \<Rightarrow> SessionState \<Rightarrow> SessionError + SessionState" where
  "add_used_tokens tokens s =
     (case tokens of
        VInt i \<Rightarrow> if i < 0 then Inl (SessionValueError ''used token increment must be a non-negative integer'')
                  else Inr (s\<lparr>used_tokens := used_tokens s + i\<rparr>)
      | _ \<Rightarrow> Inl (SessionValueError ''used token increment must be a non-negative integer''))"

definition add_markup_recovered :: "int \<Rightarrow> SessionState \<Rightarrow> SessionState" where
  "add_markup_recovered n s = s\<lparr>markup_recovered := markup_recovered s + n\<rparr>"

definition set_used_tokens :: "int \<Rightarrow> SessionState \<Rightarrow> SessionState" where
  "set_used_tokens n s = s\<lparr>used_tokens := n\<rparr>"

definition set_context_tokens :: "int \<Rightarrow> SessionState \<Rightarrow> SessionState" where
  "set_context_tokens n s = s\<lparr>context_tokens := n\<rparr>"

definition advance_step :: "SessionState \<Rightarrow> SessionState \<times> int" where
  "advance_step s = (s\<lparr>step_count := step_count s + 1\<rparr>, step_count s + 1)"

definition set_step_count :: "int \<Rightarrow> SessionState \<Rightarrow> SessionState" where
  "set_step_count n s = s\<lparr>step_count := n\<rparr>"

section \<open>Phase changes\<close>

definition mark_done :: "SessionState \<Rightarrow> SessionState" where
  "mark_done s = s\<lparr>phase := DONE, terminal_reason := Some ''completed''\<rparr>"

definition set_phase :: "SessionPhase \<Rightarrow> SessionState \<Rightarrow> SessionState" where
  "set_phase p s = s\<lparr>phase := p\<rparr>"

definition transition_to ::
  "SessionPhase \<Rightarrow> string option \<Rightarrow> SessionState \<Rightarrow> SessionError + SessionState" where
  "transition_to p reason s =
     (if p \<notin> set (PHASE_TRANSITIONS (phase s)) then Inl (InvalidPhaseTransition (phase s) p)
      else Inr (if is_terminal p \<and> reason \<noteq> None then s\<lparr>phase := p, terminal_reason := reason\<rparr>
                else s\<lparr>phase := p\<rparr>))"

definition or_default :: "string option \<Rightarrow> string \<Rightarrow> string" where
  "or_default r d = (case r of None \<Rightarrow> d | Some x \<Rightarrow> if x = [] then d else x)"

definition fail :: "string option \<Rightarrow> SessionState \<Rightarrow> SessionState" where
  "fail reason s = s\<lparr>phase := ERROR, terminal_reason := Some (or_default reason ''error'')\<rparr>"

definition cancel :: "string option \<Rightarrow> SessionState \<Rightarrow> SessionState" where
  "cancel reason s = s\<lparr>phase := STOPPED, terminal_reason := Some (or_default reason ''cancelled'')\<rparr>"

definition resume_to_idle :: "SessionState \<Rightarrow> SessionError + SessionState" where
  "resume_to_idle s =
     (if is_terminal (phase s)
      then (case transition_to IDLE None s of
              Inl e \<Rightarrow> Inl e
            | Inr s' \<Rightarrow> Inr (s'\<lparr>terminal_reason := None\<rparr>))
      else Inr s)"

definition clear_done :: "SessionState \<Rightarrow> SessionError + SessionState" where
  "clear_done s = resume_to_idle s"

section \<open>User-turn transaction\<close>

definition checkpoint_user_turn :: "SessionState \<Rightarrow> UserTurnCheckpoint" where
  "checkpoint_user_turn s =
     \<lparr>cp_message_count = length (messages s), cp_timestamp_count = length (message_timestamps s),
      cp_phase = phase s, cp_terminal_reason = terminal_reason s,
      cp_pending_external_user_turn = pending_external_user_turn s,
      cp_pending_step_latency = pending_step_latency s, cp_submitted_summary = submitted_summary s,
      cp_turn = turn s, cp_wind_down_done = wind_down_done s,
      cp_wind_down_attempts = wind_down_attempts s, cp_wind_down_token_mark = wind_down_token_mark s\<rparr>"

definition restore_user_turn :: "UserTurnCheckpoint \<Rightarrow> SessionState \<Rightarrow> SessionState" where
  "restore_user_turn c s =
     s\<lparr>messages := take (cp_message_count c) (messages s),
       message_timestamps := take (cp_timestamp_count c) (message_timestamps s),
       phase := cp_phase c, terminal_reason := cp_terminal_reason c,
       pending_external_user_turn := cp_pending_external_user_turn c,
       pending_step_latency := cp_pending_step_latency c, submitted_summary := cp_submitted_summary c,
       turn := cp_turn c, wind_down_done := cp_wind_down_done c,
       wind_down_attempts := cp_wind_down_attempts c, wind_down_token_mark := cp_wind_down_token_mark c\<rparr>"

definition reset_for_user_turn :: "SessionState \<Rightarrow> SessionError + SessionState" where
  "reset_for_user_turn s =
     (case resume_to_idle s of
        Inl e \<Rightarrow> Inl e
      | Inr s' \<Rightarrow> Inr (s'\<lparr>turn := fresh_turn, wind_down_done := False, wind_down_attempts := 0,
                        wind_down_token_mark := 0, pending_step_latency := None, submitted_summary := None\<rparr>))"

section \<open>Per-turn observations\<close>

definition get_or :: "message \<Rightarrow> string \<Rightarrow> pyval \<Rightarrow> pyval" where
  "get_or m k d = (case map_of m k of None \<Rightarrow> d | Some v \<Rightarrow> v)"

definition already_seen :: "TurnEnforcementState \<Rightarrow> string \<Rightarrow> string \<Rightarrow> bool" where
  "already_seen t content_hash call_hash =
     (content_hash \<in> seen_result_hashes t \<or> call_hash \<in> seen_result_hashes t)"

definition record_evidence_signal ::
  "string \<Rightarrow> string \<Rightarrow> bool \<Rightarrow> message option \<Rightarrow> TurnEnforcementState \<Rightarrow> TurnEnforcementState" where
  "record_evidence_signal content_hash call_hash low crd t =
     (let seen = already_seen t content_hash call_hash;
          t1 = t\<lparr>seen_result_hashes := insert call_hash (insert content_hash (seen_result_hashes t))\<rparr>;
          hit = (\<not> low \<and> \<not> seen);
          t2 = (if hit then t1\<lparr>low_yield_since_progress := 0,
                                distinct_evidence_count := distinct_evidence_count t1 + 1\<rparr>
                else t1\<lparr>low_yield_since_progress := low_yield_since_progress t1 + 1\<rparr>);
          outcome = (if hit then ''hit'' else if low then ''NO-MATCH'' else ''duplicate'')
      in case crd of
           None \<Rightarrow> t2
         | Some c \<Rightarrow>
             let ledger = scout_ledger t2 @
                   [[(''tool'', get_or c ''tool'' (VStr [])), (''target'', get_or c ''target'' (VStr [])),
                     (''outcome'', VStr outcome), (''snippet'', get_or c ''snippet'' (VStr []))]]
             in t2\<lparr>scout_ledger := (if length ledger > MAX_SCOUT_LEDGER_CARDS
                                   then py_last MAX_SCOUT_LEDGER_CARDS ledger else ledger)\<rparr>)"

definition expire_operation ::
  "string list \<Rightarrow> (string \<times> OperationState) list \<Rightarrow> string \<Rightarrow> (string \<times> OperationState) list" where
  "expire_operation recent ops key =
     (case map_of ops key of
        None \<Rightarrow> ops
      | Some op \<Rightarrow> if key \<notin> set recent \<and> inflight_tool_call_id op = None
                   then AList.delete key ops else ops)"

definition remember_tool_call_hash ::
  "string \<Rightarrow> nat option \<Rightarrow> TurnEnforcementState \<Rightarrow> TurnEnforcementState" where
  "remember_tool_call_hash h max_window t =
     (let all = recent_call_hashes t @ [h]
      in case max_window of
           None \<Rightarrow> t\<lparr>recent_call_hashes := all\<rparr>
         | Some w \<Rightarrow>
             if length all > w
             then
               let expired = py_but_last w all; recent = py_last w all
               in t\<lparr>recent_call_hashes := recent,
                    loop_state := (loop_state t)\<lparr>operations :=
                      foldl (expire_operation recent) (operations (loop_state t)) expired\<rparr>\<rparr>
             else t\<lparr>recent_call_hashes := all\<rparr>)"

definition replace_recent_tool_hashes :: "string list \<Rightarrow> TurnEnforcementState \<Rightarrow> TurnEnforcementState" where
  "replace_recent_tool_hashes hs t = t\<lparr>recent_call_hashes := hs\<rparr>"

section \<open>The phase machine\<close>

inductive phase_edge :: "SessionPhase \<Rightarrow> SessionPhase \<Rightarrow> bool" where
  edge: "q \<in> set (PHASE_TRANSITIONS p) \<Longrightarrow> phase_edge p q"

inductive_simps phase_edge_simps: "phase_edge p q"

lemma transition_ok_iff:
  "(\<exists>s'. transition_to q r s = Inr s' ) \<longleftrightarrow> phase_edge (phase s) q"
  by (simp add: transition_to_def phase_edge_simps)

lemma transition_phase: "transition_to q r s = Inr s' \<Longrightarrow> phase s' = q \<and> phase_edge (phase s) q"
  by (auto simp: transition_to_def phase_edge_simps split: if_splits)

text \<open>A run of validated transitions, with the phases it passes through.\<close>

inductive phase_path :: "SessionPhase \<Rightarrow> SessionPhase list \<Rightarrow> SessionPhase \<Rightarrow> bool" where
  here: "phase_path p [] p"
| more: "phase_edge p q \<Longrightarrow> phase_path q ps r \<Longrightarrow> phase_path p (q # ps) r"

lemma phase_path_avoid:
  assumes "phase_path p ps r" and "p \<in> A"
    and "\<And>x y. x \<in> A \<Longrightarrow> phase_edge x y \<Longrightarrow> y \<in> A \<or> y = v"
    and "v \<notin> set ps"
  shows "r \<in> A"
  using assms
proof (induction rule: phase_path.induct)
  case (here p)
  then show ?case by simp
next
  case (more p q ps r)
  have "q \<in> A \<or> q = v" using more.prems(1,2) more.hyps(1) by blast
  then show ?case using more.IH more.prems by auto
qed

lemma phase_path_avoid_error:
  assumes "phase_path p ps r" shows "ERROR \<notin> set ps"
  using assms
proof (induction rule: phase_path.induct)
  case (more p q ps r)
  have "ERROR \<notin> set (PHASE_TRANSITIONS p)" by (cases p) simp_all
  then have "q \<noteq> ERROR" using more.hyps(1) by (auto simp: phase_edge_simps)
  then show ?case using more.IH by simp
qed simp

section \<open>Alignment of messages and timestamps\<close>

definition aligned :: "SessionState \<Rightarrow> bool" where
  "aligned s = (length (message_timestamps s) = length (messages s))"

lemma align_aligned: "length (message_timestamps s) \<le> length (messages s) \<Longrightarrow> aligned (align_timestamps now s)"
  by (simp add: aligned_def align_timestamps_def)

lemma align_id: "aligned s \<Longrightarrow> align_timestamps now s = s"
  by (simp add: aligned_def align_timestamps_def)

lemma transition_frame:
  "transition_to q r s = Inr s' \<Longrightarrow> \<exists>tr. s' = s\<lparr>phase := q, terminal_reason := tr\<rparr>"
proof -
  assume h: "transition_to q r s = Inr s'"
  have "s' = s\<lparr>phase := q, terminal_reason := r\<rparr> \<or> s' = s\<lparr>phase := q, terminal_reason := terminal_reason s\<rparr>"
    using h by (cases s) (auto simp: transition_to_def split: if_splits)
  then show ?thesis by blast
qed

lemma resume_to_idle_Inr: "\<exists>tr. resume_to_idle s = Inr (s\<lparr>phase := (if is_terminal (phase s) then IDLE else phase s), terminal_reason := tr\<rparr>)"
proof (cases "is_terminal (phase s)")
  case True
  then have "IDLE \<in> set (PHASE_TRANSITIONS (phase s))" by (auto simp: is_terminal_def)
  then show ?thesis using True by (auto simp: resume_to_idle_def transition_to_def is_terminal_def)
next
  case False
  then have "resume_to_idle s = Inr (s\<lparr>phase := (if is_terminal (phase s) then IDLE else phase s),
      terminal_reason := terminal_reason s\<rparr>)"
    by (simp add: resume_to_idle_def)
  then show ?thesis by blast
qed

text \<open>Resuming never raises.\<close>

lemma reset_for_user_turn_Inr:
  "\<exists>tr. reset_for_user_turn s = Inr (s\<lparr>phase := (if is_terminal (phase s) then IDLE else phase s),
     terminal_reason := tr, turn := fresh_turn, wind_down_done := False, wind_down_attempts := 0,
     wind_down_token_mark := 0, pending_step_latency := None, submitted_summary := None\<rparr>)"
proof -
  obtain tr where "resume_to_idle s = Inr (s\<lparr>phase := (if is_terminal (phase s) then IDLE else phase s), terminal_reason := tr\<rparr>)"
    using resume_to_idle_Inr by blast
  then show ?thesis by (auto simp: reset_for_user_turn_def)
qed

section \<open>Session operations as events\<close>

datatype session_op =
    OpAppend string message
  | OpReplace string "(nat option \<times> message) list"
  | OpQueue string message
  | OpDiscard string
  | OpDiscardId string
  | OpExternal string string string bool
  | OpConsume string
  | OpStartTurn int
  | OpClearTurn
  | OpTokens pyval
  | OpStep
  | OpTransition SessionPhase "string option"
  | OpFail "string option"
  | OpCancel "string option"
  | OpReset

text \<open>A raising method leaves the state unchanged.\<close>

definition or_same :: "SessionState \<Rightarrow> 'e + SessionState \<Rightarrow> SessionState" where
  "or_same s r = (case r of Inl _ \<Rightarrow> s | Inr s' \<Rightarrow> s')"

fun session_step :: "SessionState \<Rightarrow> session_op \<Rightarrow> SessionState" where
  "session_step s (OpAppend now m) = append_message now m s"
| "session_step s (OpReplace now ms) = replace_messages now ms s"
| "session_step s (OpQueue now m) = queue_pending_user_message now m s"
| "session_step s (OpDiscard c) = discard_pending_user_message c s"
| "session_step s (OpDiscardId i) = discard_pending_user_message_id i s"
| "session_step s (OpExternal t now c d) = append_queued_external_user_turn t now c d s"
| "session_step s (OpConsume now) = consume_queued_external_user_turn now s"
| "session_step s (OpStartTurn i) = start_active_turn i s"
| "session_step s OpClearTurn = clear_active_turn s"
| "session_step s (OpTokens v) = or_same s (add_used_tokens v s)"
| "session_step s OpStep = fst (advance_step s)"
| "session_step s (OpTransition p r) = or_same s (transition_to p r s)"
| "session_step s (OpFail r) = fail r s"
| "session_step s (OpCancel r) = cancel r s"
| "session_step s OpReset = or_same s (reset_for_user_turn s)"

lemmas session_defs = append_message_def replace_messages_def queue_pending_user_message_def
  discard_pending_user_message_def discard_pending_user_message_id_def
  append_queued_external_user_turn_def consume_queued_external_user_turn_def start_active_turn_def
  clear_active_turn_def add_used_tokens_def advance_step_def fail_def cancel_def or_same_def

lemma or_same_transition: "\<exists>p tr. or_same s (transition_to q r s) = s\<lparr>phase := p, terminal_reason := tr\<rparr>"
proof (cases "transition_to q r s")
  case (Inl e)
  then have "or_same s (transition_to q r s) = s\<lparr>phase := phase s, terminal_reason := terminal_reason s\<rparr>"
    by (simp add: or_same_def)
  then show ?thesis by blast
next
  case (Inr s')
  then show ?thesis using transition_frame [OF Inr] by (auto simp: or_same_def)
qed

lemma session_step_aligned: "aligned s \<Longrightarrow> aligned (session_step s op)"
proof (cases op)
  case (OpTransition q r)
  then show "aligned s \<Longrightarrow> aligned (session_step s op)"
    using or_same_transition [of s q r] by (auto simp: aligned_def)
next
  case OpReset
  then show "aligned s \<Longrightarrow> aligned (session_step s op)"
    using reset_for_user_turn_Inr [of s] by (auto simp: aligned_def or_same_def)
qed (auto simp: session_defs aligned_def Let_def split: option.splits pyval.splits)

lemma session_step_resources:
  "used_tokens s \<le> used_tokens (session_step s op) \<and> step_count s \<le> step_count (session_step s op)
   \<and> budget_reserve_consumed (session_step s op) = budget_reserve_consumed s"
proof (cases op)
  case (OpTransition q r)
  then show ?thesis using or_same_transition [of s q r] by auto
next
  case OpReset
  then show ?thesis using reset_for_user_turn_Inr [of s] by (auto simp: or_same_def)
qed (auto simp: session_defs Let_def split: option.splits pyval.splits)

lemma session_run_aligned: "aligned s \<Longrightarrow> aligned (foldl session_step s ops)"
  by (induction ops arbitrary: s) (auto intro: session_step_aligned)

lemma session_run_resources:
  "used_tokens s \<le> used_tokens (foldl session_step s ops) \<and> step_count s \<le> step_count (foldl session_step s ops)
   \<and> budget_reserve_consumed (foldl session_step s ops) = budget_reserve_consumed s"
proof (induction ops arbitrary: s)
  case (Cons op ops)
  show ?case
    using session_step_resources [of s op] Cons.IH [of "session_step s op"] by auto
qed simp

section \<open>Rolling back a user turn\<close>

text \<open>
  \<open>turn_extends s s'\<close>: \<open>s'\<close> differs from \<open>s\<close> only in checkpointed fields, and its messages and
  timestamps extend those of \<open>s\<close>.
\<close>

definition turn_extends :: "SessionState \<Rightarrow> SessionState \<Rightarrow> bool" where
  "turn_extends s s' = (restore_user_turn (checkpoint_user_turn s) s' = s)"

fun accepts_turn :: "session_op \<Rightarrow> bool" where
  "accepts_turn (OpAppend _ _) = True"
| "accepts_turn (OpExternal _ _ _ _) = True"
| "accepts_turn (OpTransition _ _) = True"
| "accepts_turn (OpFail _) = True"
| "accepts_turn (OpCancel _) = True"
| "accepts_turn OpReset = True"
| "accepts_turn _ = False"

lemma restore_absorbs:
  assumes "cp_message_count c \<le> length (messages s)"
    and "cp_timestamp_count c \<le> length (message_timestamps s)" and "accepts_turn op"
  shows "restore_user_turn c (session_step s op) = restore_user_turn c s
   \<and> cp_message_count c \<le> length (messages (session_step s op))
   \<and> cp_timestamp_count c \<le> length (message_timestamps (session_step s op))"
proof (cases op)
  case (OpTransition q r)
  then show ?thesis using or_same_transition [of s q r] assms
    by (auto simp: restore_user_turn_def)
next
  case OpReset
  then show ?thesis using reset_for_user_turn_Inr [of s] assms by (auto simp: or_same_def restore_user_turn_def)
qed (use assms in \<open>auto simp: session_defs restore_user_turn_def Let_def\<close>)

lemma restore_run:
  assumes "cp_message_count c \<le> length (messages s)"
    and "cp_timestamp_count c \<le> length (message_timestamps s)" and "list_all accepts_turn ops"
  shows "restore_user_turn c (foldl session_step s ops) = restore_user_turn c s"
  using assms
proof (induction ops arbitrary: s)
  case (Cons op ops)
  then show ?case using restore_absorbs [of c s op] by simp
qed simp

lemma restore_checkpoint: "restore_user_turn (checkpoint_user_turn s) s = s"
  by (simp add: restore_user_turn_def checkpoint_user_turn_def)

section \<open>Evidence and call windows\<close>

definition evidence_ok :: "TurnEnforcementState \<Rightarrow> bool" where
  "evidence_ok t = (length (scout_ledger t) \<le> MAX_SCOUT_LEDGER_CARDS \<and> 0 \<le> low_yield_since_progress t)"

lemmas evidence_defs = record_evidence_signal_def already_seen_def Let_def

lemma record_evidence_ok [inv_rules]:
  "evidence_ok t \<Longrightarrow> evidence_ok (record_evidence_signal c k low crd t)"
  by (auto simp: evidence_ok_def evidence_defs split: option.splits)

lemma record_evidence_seen [simp]:
  "seen_result_hashes (record_evidence_signal c k low crd t) = insert k (insert c (seen_result_hashes t))"
  by (auto simp: evidence_defs split: option.splits)

lemma record_evidence_count:
  "distinct_evidence_count (record_evidence_signal c k low crd t) =
     distinct_evidence_count t + (if \<not> low \<and> \<not> already_seen t c k then 1 else 0)"
  by (auto simp: evidence_defs split: option.splits)

lemma record_evidence_low_yield:
  "low_yield_since_progress (record_evidence_signal c k low crd t) =
     (if \<not> low \<and> \<not> already_seen t c k then 0 else low_yield_since_progress t + 1)"
  by (auto simp: evidence_defs split: option.splits)

type_synonym evidence = "string \<times> string \<times> bool \<times> message option"

fun record_signals :: "TurnEnforcementState \<Rightarrow> evidence list \<Rightarrow> TurnEnforcementState" where
  "record_signals t [] = t"
| "record_signals t ((c, k, low, crd) # es) = record_signals (record_evidence_signal c k low crd t) es"

lemma record_signals_bound:
  "distinct_evidence_count (record_signals t es) \<le>
     distinct_evidence_count t + int (card (fst ` set es - seen_result_hashes t))"
proof (induction es arbitrary: t)
  case Nil
  then show ?case by simp
next
  case (Cons e es)
  obtain c k low crd where e: "e = (c, k, low, crd)" by (cases e)
  let ?C = "fst ` set es" and ?t = "record_evidence_signal c k low crd t"
  let ?S = "seen_result_hashes t"
  have IH: "distinct_evidence_count (record_signals ?t es) \<le>
      distinct_evidence_count ?t + int (card (?C - insert k (insert c ?S)))"
    using Cons.IH [of ?t] by simp
  have sub: "?C - insert k (insert c ?S) \<subseteq> insert c ?C - ?S - {c}" by auto
  have fin: "finite (insert c ?C - ?S)" by simp
  show ?case
  proof (cases "\<not> low \<and> \<not> already_seen t c k")
    case True
    then have c: "c \<in> insert c ?C - ?S" by (simp add: already_seen_def)
    have "card (?C - insert k (insert c ?S)) \<le> card (insert c ?C - ?S - {c})"
      by (rule card_mono [OF _ sub]) simp
    also have "\<dots> < card (insert c ?C - ?S)" by (rule card_Diff1_less [OF fin c])
    finally show ?thesis using IH True by (simp add: e record_evidence_count)
  next
    case False
    have "card (?C - insert k (insert c ?S)) \<le> card (insert c ?C - ?S)"
      using card_mono [OF fin] sub by blast
    then show ?thesis using IH False by (auto simp: e record_evidence_count)
  qed
qed

lemma remember_window:
  assumes "0 < w" and "length (recent_call_hashes t) \<le> w"
  shows "length (recent_call_hashes (remember_tool_call_hash h (Some w) t)) \<le> w
    \<and> suffix (recent_call_hashes (remember_tool_call_hash h (Some w) t)) (recent_call_hashes t @ [h])
    \<and> h \<in> set (recent_call_hashes (remember_tool_call_hash h (Some w) t))"
proof -
  have "py_last w (recent_call_hashes t @ [h]) = drop (length (recent_call_hashes t) + 1 - w) (recent_call_hashes t) @ [h]"
    using assms by (simp add: py_last_def)
  then show ?thesis
    using assms suffix_py_last [of w "recent_call_hashes t @ [h]"]
    by (auto simp: remember_tool_call_hash_def Let_def)
qed

lemma expire_operation_ok: "ops_ok e ops \<Longrightarrow> ops_ok e (expire_operation recent ops key)"
  by (auto simp: expire_operation_def intro: ops_ok_delete split: option.splits)

lemma expire_run_ok: "ops_ok e ops \<Longrightarrow> ops_ok e (foldl (expire_operation recent) ops ks)"
  by (induction ks arbitrary: ops) (auto intro: expire_operation_ok)

lemma remember_loop_ok [inv_rules]:
  "loop_ok (loop_state t) \<Longrightarrow> loop_ok (loop_state (remember_tool_call_hash h w t))"
  by (auto simp: remember_tool_call_hash_def loop_ok_def Let_def expire_run_ok split: option.splits)

section \<open>Properties\<close>

text \<open>
  A turn ends in \<open>DONE\<close> only after a model call: every run of validated transitions from
  \<open>IDLE\<close> to \<open>DONE\<close> passes \<open>PRECHECK\<close>, \<open>CALLING_LLM\<close> and \<open>HANDLING_RESPONSE\<close>, and no run of
  validated transitions ever enters \<open>ERROR\<close>.
\<close>

theorem done_needs_model_call:
  assumes "phase_path IDLE ps DONE"
  shows "PRECHECK \<in> set ps \<and> CALLING_LLM \<in> set ps \<and> HANDLING_RESPONSE \<in> set ps \<and> ERROR \<notin> set ps"
proof -
  have closed: "DONE \<in> A" if "v \<notin> set ps" "IDLE \<in> A"
      "\<And>x y. x \<in> A \<Longrightarrow> y \<in> set (PHASE_TRANSITIONS x) \<Longrightarrow> y \<in> A \<or> y = v" for A v
    by (rule phase_path_avoid [OF assms that(2) _ that(1)]) (use that(3) in \<open>simp add: phase_edge_simps\<close>)
  have "PRECHECK \<in> set ps" using closed [of PRECHECK "{IDLE}"] by auto
  moreover have "CALLING_LLM \<in> set ps"
    using closed [of CALLING_LLM "{IDLE, PRECHECK, STOPPED}"] by fastforce
  moreover have "HANDLING_RESPONSE \<in> set ps"
    using closed [of HANDLING_RESPONSE "{IDLE, PRECHECK, STOPPED, CALLING_LLM}"] by fastforce
  ultimately show ?thesis using phase_path_avoid_error [OF assms] by blast
qed

theorem done_needs_model_call_witness:
  "phase_path IDLE [PRECHECK, CALLING_LLM, HANDLING_RESPONSE, DONE] DONE \<and>
   CALLING_LLM \<in> set [PRECHECK, CALLING_LLM, HANDLING_RESPONSE, DONE]"
proof -
  have p: "phase_path IDLE [PRECHECK, CALLING_LLM, HANDLING_RESPONSE, DONE] DONE"
    by (intro phase_path.intros) (simp_all add: phase_edge_simps)
  then show ?thesis using done_needs_model_call [OF p] by blast
qed

text \<open>
  C29. Accepting a user turn is a transaction: after any sequence of message appends, queued
  external turns, phase changes, failures, cancellations and turn resets, restoring the
  checkpoint taken before gives back exactly the state at the checkpoint.
\<close>

theorem user_turn_rollback:
  assumes "list_all accepts_turn ops"
  shows "restore_user_turn (checkpoint_user_turn s) (foldl session_step s ops) = s"
proof -
  have "restore_user_turn (checkpoint_user_turn s) (foldl session_step s ops)
      = restore_user_turn (checkpoint_user_turn s) s"
    by (rule restore_run [OF _ _ assms]) (simp_all add: checkpoint_user_turn_def)
  then show ?thesis by (simp add: restore_checkpoint)
qed

theorem user_turn_rollback_witness:
  "let s = new_session ''t0'' []
   in restore_user_turn (checkpoint_user_turn s)
        (foldl session_step s [OpReset, OpExternal ''id'' ''t1'' ''hi'' False, OpFail None]) = s"
  using user_turn_rollback [of "[OpReset, OpExternal ''id'' ''t1'' ''hi'' False, OpFail None]"]
  by (simp add: Let_def)

text \<open>
  The sidecar of timestamps stays index-aligned with the history, and no operation renews the
  lifetime allowance: over any run of session operations from a new session, messages and
  timestamps have equal length, tokens and steps never decrease and the lifetime reserve latch
  is left alone.
\<close>

theorem session_run_invariants:
  "aligned (foldl session_step (new_session now ms) ops) \<and>
   (let s = foldl session_step (new_session now ms) ops; s' = foldl session_step s later in
    used_tokens s \<le> used_tokens s' \<and> step_count s \<le> step_count s' \<and>
    budget_reserve_consumed s' = budget_reserve_consumed s)"
proof -
  have "aligned (new_session now ms)" by (simp add: new_session_def align_aligned)
  then show ?thesis using session_run_aligned session_run_resources by (simp add: Let_def)
qed

text \<open>
  Novelty is counted once: over any list of result signals of a turn, the number of
  informative results is at most the number of distinct result contents, the evidence ledger
  never exceeds 256 cards, and repeating a signal at once is never informative.
\<close>

theorem evidence_bounded:
  "distinct_evidence_count (record_signals fresh_turn es) \<le> int (card (fst ` set es))
   \<and> length (scout_ledger (record_signals fresh_turn es)) \<le> MAX_SCOUT_LEDGER_CARDS
   \<and> (let t = record_evidence_signal c k low crd (record_signals fresh_turn es)
      in distinct_evidence_count (record_evidence_signal c k low' crd' t) = distinct_evidence_count t)"
proof -
  have "evidence_ok (record_signals t es)" if "evidence_ok t" for t
    using that by (induction t es rule: record_signals.induct) (auto intro: record_evidence_ok)
  then have "evidence_ok (record_signals fresh_turn es)"
    by (simp add: fresh_turn_def evidence_ok_def)
  then show ?thesis
    using record_signals_bound [of fresh_turn es]
    by (simp add: fresh_turn_def evidence_ok_def record_evidence_count already_seen_def Let_def)
qed

end
