(* ===== verification/Identity.thy ===== *)
theory Identity
  imports Prelude
begin

text \<open>
  Role identities (\<open>domain/identity.py\<close>), the team topology (\<open>domain/team.py\<close>), tool-name
  collision keys (\<open>domain/tools.py\<close>) and the tool table of an agent (\<open>domain/agent.py\<close>).
  On the code points of \<open>char\<close> the normal form NFC is the identity and \<open>str.casefold\<close> and
  \<open>unicodedata.category\<close> are written out; the compatibility normal form NFKC and SHA-256 are
  arguments.
\<close>

section \<open>Code-point tables\<close>

definition fold_char :: "char \<Rightarrow> string" where
  \<comment> \<open>U+00B5 folds to U+03BC, outside the range; no other code point of the range folds there, so
      keeping it fixed gives the same equalities between keys.\<close>
  "fold_char c =
     (let n = code c in
      if (65 \<le> n \<and> n \<le> 90) \<or> (192 \<le> n \<and> n \<le> 222 \<and> n \<noteq> 215) then [char_of (n + 32)]
      else if n = 223 then ''ss'' else [c])"

definition casefold :: "string \<Rightarrow> string" where
  "casefold s = concat (map fold_char s)"

text \<open>\<open>unicodedata.category(c) in {"Cc", "Cf", "Cs"}\<close>.\<close>

definition is_control :: "char \<Rightarrow> bool" where
  "is_control c = (let n = code c in n < 32 \<or> (127 \<le> n \<and> n \<le> 159) \<or> n = 173)"

section \<open>Roles\<close>

abbreviation MAX_ROLE_IDENTITY_BYTES :: nat where "MAX_ROLE_IDENTITY_BYTES \<equiv> 128"

abbreviation ROLE_SLUG_MAX_CHARS :: nat where "ROLE_SLUG_MAX_CHARS \<equiv> 32"

datatype IdentityError =
    RoleNotString | RoleUnsafe | RoleTooLong
  | SourceCollision string string | DestinationCollision string
  | ToolNameNotString | ToolNameUnsafe
  | ToolNameReserved nat string | ToolNameDuplicate nat nat

definition unsafe_component :: "string \<Rightarrow> bool" where
  "unsafe_component s =
     (s = [] \<or> s \<noteq> py_strip s \<or> s = ''.'' \<or> s = ''..'' \<or> CHR ''/'' \<in> set s \<or> CHR 0x5C \<in> set s
      \<or> list_ex is_control s)"

definition validate_role_identity :: "pyval \<Rightarrow> IdentityError + string" where
  "validate_role_identity v =
     (case v of
        VStr s \<Rightarrow>
          if unsafe_component s then Inl RoleUnsafe
          else if utf8_len s > MAX_ROLE_IDENTITY_BYTES then Inl RoleTooLong
          else Inr s
      | _ \<Rightarrow> Inl RoleNotString)"

definition role_collision_key :: "pyval \<Rightarrow> IdentityError + string" where
  "role_collision_key v = (case validate_role_identity v of Inl e \<Rightarrow> Inl e | Inr s \<Rightarrow> Inr (casefold s))"

definition slug_char :: "char \<Rightarrow> bool" where
  "slug_char c = (let n = code c in
     (65 \<le> n \<and> n \<le> 90) \<or> (97 \<le> n \<and> n \<le> 122) \<or> (48 \<le> n \<and> n \<le> 57) \<or> n = 46 \<or> n = 95 \<or> n = 45)"

text \<open>\<open>re.sub(r"[^A-Za-z0-9._-]+", "-", s)\<close>: each maximal run of other characters becomes one dash.\<close>

fun sub_runs :: "bool \<Rightarrow> string \<Rightarrow> string" where
  "sub_runs in_run [] = []"
| "sub_runs in_run (c # s) =
     (if slug_char c then c # sub_runs False s
      else if in_run then sub_runs True s else CHR ''-'' # sub_runs True s)"

definition strip_marks :: "string \<Rightarrow> string" where
  "strip_marks s = (let m = (\<lambda>c. c \<in> set ''-._'') in rev (dropWhile m (rev (dropWhile m s))))"

definition role_storage_slug :: "(string \<Rightarrow> string) \<Rightarrow> pyval \<Rightarrow> IdentityError + string" where
  "role_storage_slug sha256_hex v =
     (case validate_role_identity v of
        Inl e \<Rightarrow> Inl e
      | Inr s \<Rightarrow>
          let readable = take ROLE_SLUG_MAX_CHARS (strip_marks (sub_runs False s));
              readable' = (if readable = [] then ''role'' else readable)
          in Inr (readable' @ ''-'' @ take 12 (sha256_hex s)))"

section \<open>Topology\<close>

record Topology =
  edges :: "(string \<times> string list) list"
  allow_all :: bool

fun normalize_destinations ::
  "string \<Rightarrow> pyval list \<Rightarrow> string set \<Rightarrow> string list \<Rightarrow> IdentityError + string list" where
  "normalize_destinations src [] seen acc = Inr acc"
| "normalize_destinations src (raw # raws) seen acc =
     (case validate_role_identity raw of
        Inl e \<Rightarrow> Inl e
      | Inr d \<Rightarrow>
          if casefold d \<in> seen then Inl (DestinationCollision src)
          else normalize_destinations src raws (insert (casefold d) seen) (acc @ [d]))"

fun normalize_edges ::
  "(string \<times> pyval list) list \<Rightarrow> (string \<times> string) list \<Rightarrow> (string \<times> string list) list
     \<Rightarrow> IdentityError + (string \<times> string list) list" where
  "normalize_edges [] source_keys acc = Inr acc"
| "normalize_edges ((raw, raw_dests) # rest) source_keys acc =
     (case validate_role_identity (VStr raw) of
        Inl e \<Rightarrow> Inl e
      | Inr s \<Rightarrow>
          (case map_of source_keys (casefold s) of
             Some other \<Rightarrow> Inl (SourceCollision other raw)
           | None \<Rightarrow>
               (case normalize_destinations raw raw_dests {} [] of
                  Inl e \<Rightarrow> Inl e
                | Inr ds \<Rightarrow> normalize_edges rest (AList.update (casefold s) s source_keys)
                             (AList.update s ds acc))))"

text \<open>\<open>Topology.__post_init__\<close>.\<close>

definition make_topology :: "(string \<times> pyval list) list \<Rightarrow> bool \<Rightarrow> IdentityError + Topology" where
  "make_topology raw all =
     (case normalize_edges raw [] [] of
        Inl e \<Rightarrow> Inl e
      | Inr es \<Rightarrow> Inr \<lparr>edges = es, allow_all = all\<rparr>)"

fun first_source :: "(string \<times> string list) list \<Rightarrow> string \<Rightarrow> string \<Rightarrow> bool" where
  "first_source [] sk dk = False"
| "first_source ((s, ds) # rest) sk dk =
     (if casefold s \<noteq> sk then first_source rest sk dk
      else list_ex (\<lambda>d. casefold d = dk) ds)"

definition allows :: "Topology \<Rightarrow> pyval \<Rightarrow> pyval \<Rightarrow> IdentityError + bool" where
  "allows t src dst =
     (case validate_role_identity src of
        Inl e \<Rightarrow> Inl e
      | Inr s \<Rightarrow>
          (case validate_role_identity dst of
             Inl e \<Rightarrow> Inl e
           | Inr d \<Rightarrow>
               if allow_all t then Inr True
               else Inr (first_source (edges t) (casefold s) (casefold d))))"

section \<open>Tool names\<close>

definition tool_name_collision_key :: "(string \<Rightarrow> string) \<Rightarrow> pyval \<Rightarrow> IdentityError + string" where
  "tool_name_collision_key nfkc v =
     (case v of
        VStr s \<Rightarrow>
          if s = [] then Inl ToolNameNotString
          else let n = nfkc s in
            if n = [] \<or> n \<noteq> py_strip n \<or> list_ex is_control n then Inl ToolNameUnsafe
            else Inr (casefold n)
      | _ \<Rightarrow> Inl ToolNameNotString)"

fun reserved_keys ::
  "(string \<Rightarrow> string) \<Rightarrow> string list \<Rightarrow> (string \<times> string) list \<Rightarrow> IdentityError + (string \<times> string) list" where
  "reserved_keys nfkc [] acc = Inr acc"
| "reserved_keys nfkc (r # rs) acc =
     (case tool_name_collision_key nfkc (VStr r) of
        Inl e \<Rightarrow> Inl e
      | Inr k \<Rightarrow> reserved_keys nfkc rs (AList.update k r acc))"

fun check_names ::
  "(string \<Rightarrow> string) \<Rightarrow> (string \<times> string) list \<Rightarrow> nat \<Rightarrow> pyval list \<Rightarrow> (string \<times> nat) list
     \<Rightarrow> IdentityError option" where
  "check_names nfkc rk i [] seen = None"
| "check_names nfkc rk i (v # vs) seen =
     (case tool_name_collision_key nfkc v of
        Inl e \<Rightarrow> Some e
      | Inr k \<Rightarrow>
          (case map_of rk k of
             Some r \<Rightarrow> Some (ToolNameReserved i r)
           | None \<Rightarrow>
               (case map_of seen k of
                  Some j \<Rightarrow> Some (ToolNameDuplicate j i)
                | None \<Rightarrow> check_names nfkc rk (Suc i) vs (AList.update k i seen))))"

text \<open>\<open>None\<close> means that no error is raised.\<close>

definition validate_unique_tool_names ::
  "(string \<Rightarrow> string) \<Rightarrow> pyval list \<Rightarrow> string list \<Rightarrow> IdentityError option" where
  "validate_unique_tool_names nfkc names reserved =
     (case reserved_keys nfkc reserved [] of
        Inl e \<Rightarrow> Some e
      | Inr rk \<Rightarrow> check_names nfkc rk 0 names [])"

section \<open>The agent's tool table\<close>

record ToolSpec =
  tool_name :: pyval
  tool_schema :: pyval

definition validate_tool_names :: "(string \<Rightarrow> string) \<Rightarrow> ToolSpec list \<Rightarrow> IdentityError option" where
  "validate_tool_names nfkc tools =
     validate_unique_tool_names nfkc (filter is_str (map tool_name tools)) []"

text \<open>\<open>Agent.__post_init__\<close>: the normalized name and the checked tool table.\<close>

definition make_agent ::
  "(string \<Rightarrow> string) \<Rightarrow> pyval \<Rightarrow> ToolSpec list \<Rightarrow> IdentityError + (string \<times> ToolSpec list)" where
  "make_agent nfkc name tools =
     (case validate_role_identity name of
        Inl e \<Rightarrow> Inl e
      | Inr n \<Rightarrow> (case validate_tool_names nfkc tools of Some e \<Rightarrow> Inl e | None \<Rightarrow> Inr (n, tools)))"

definition tool_schemas :: "(string \<Rightarrow> string) \<Rightarrow> ToolSpec list \<Rightarrow> IdentityError + pyval list" where
  "tool_schemas nfkc tools =
     (case validate_tool_names nfkc tools of Some e \<Rightarrow> Inl e | None \<Rightarrow> Inr (map tool_schema tools))"

fun find_by_key ::
  "(string \<Rightarrow> string) \<Rightarrow> string \<Rightarrow> ToolSpec list \<Rightarrow> IdentityError + ToolSpec option" where
  "find_by_key nfkc key [] = Inr None"
| "find_by_key nfkc key (t # ts) =
     (case tool_name_collision_key nfkc (tool_name t) of
        Inl e \<Rightarrow> Inl e
      | Inr k \<Rightarrow> if k = key then Inr (Some t) else find_by_key nfkc key ts)"

definition find_tool ::
  "(string \<Rightarrow> string) \<Rightarrow> ToolSpec list \<Rightarrow> pyval \<Rightarrow> IdentityError + ToolSpec option" where
  "find_tool nfkc tools name =
     (case validate_tool_names nfkc tools of
        Some e \<Rightarrow> Inl e
      | None \<Rightarrow>
          (case tool_name_collision_key nfkc name of
             Inl _ \<Rightarrow> Inr None
           | Inr key \<Rightarrow> find_by_key nfkc key tools))"

section \<open>Lemmas\<close>

lemma validate_role_Inr: "validate_role_identity v = Inr s \<longleftrightarrow>
    v = VStr s \<and> \<not> unsafe_component s \<and> utf8_len s \<le> MAX_ROLE_IDENTITY_BYTES"
  by (auto simp: validate_role_identity_def split: pyval.splits)

definition role_ok :: "string \<Rightarrow> bool" where
  "role_ok s = (\<not> unsafe_component s \<and> utf8_len s \<le> MAX_ROLE_IDENTITY_BYTES)"

lemma validate_role_ok [simp]: "role_ok s \<Longrightarrow> validate_role_identity (VStr s) = Inr s"
  by (simp add: validate_role_identity_def role_ok_def)

text \<open>Roles of a built topology are valid and their collision keys are distinct.\<close>

definition edges_ok :: "(string \<times> string list) list \<Rightarrow> bool" where
  "edges_ok es = (distinct (map (casefold \<circ> fst) es) \<and>
     list_all (\<lambda>(s, ds). role_ok s \<and> list_all role_ok ds \<and> distinct (map casefold ds)) es)"

lemma normalize_destinations_ok:
  "normalize_destinations src raws seen acc = Inr ds \<Longrightarrow> seen = casefold ` set acc \<Longrightarrow>
   list_all role_ok acc \<Longrightarrow> distinct (map casefold acc) \<Longrightarrow>
   list_all role_ok ds \<and> distinct (map casefold ds)"
proof (induction raws arbitrary: seen acc)
  case Nil
  then show ?case by simp
next
  case (Cons raw raws)
  then obtain d where d: "validate_role_identity raw = Inr d" "casefold d \<notin> seen"
    "normalize_destinations src raws (insert (casefold d) seen) (acc @ [d]) = Inr ds"
    by (auto split: sum.splits if_splits)
  then have "role_ok d" by (auto simp: validate_role_Inr role_ok_def)
  then show ?case using Cons.IH [OF d(3)] Cons.prems d(2) by auto
qed

lemma normalize_edges_ok:
  "normalize_edges raw source_keys acc = Inr es \<Longrightarrow> edges_ok acc \<Longrightarrow>
   keys source_keys = casefold ` keys acc \<Longrightarrow> edges_ok es"
proof (induction raw arbitrary: source_keys acc)
  case Nil
  then show ?case by simp
next
  case (Cons p raw)
  obtain r rd where p: "p = (r, rd)" by (cases p)
  obtain ds where r: "validate_role_identity (VStr r) = Inr r" "map_of source_keys (casefold r) = None"
      "normalize_destinations r rd {} [] = Inr ds"
      "normalize_edges raw (AList.update (casefold r) r source_keys) (AList.update r ds acc) = Inr es"
    using Cons.prems(1) p by (auto simp: validate_role_Inr split: sum.splits option.splits)
  have new: "casefold r \<notin> casefold ` keys acc" using r(2) Cons.prems(3) by (simp add: map_of_none_keys)
  then have acc: "AList.update r ds acc = acc @ [(r, ds)]" by (intro update_new) auto
  have "role_ok r" using r(1) by (simp add: validate_role_Inr role_ok_def)
  then have "edges_ok (acc @ [(r, ds)])"
    using Cons.prems(2) new normalize_destinations_ok [OF r(3)]
    by (auto simp: edges_ok_def image_image)
  then show ?case using Cons.IH [OF r(4)] acc Cons.prems(3) by auto
qed

lemma make_topology_ok: "make_topology raw al = Inr t \<Longrightarrow> edges_ok (edges t)"
  using normalize_edges_ok [of raw "[]" "[]"]
  by (auto simp: make_topology_def edges_ok_def split: sum.splits)

lemma first_source_iff:
  "distinct (map (casefold \<circ> fst) es) \<Longrightarrow>
   first_source es sk dk \<longleftrightarrow> (\<exists>(s, ds) \<in> set es. casefold s = sk \<and> dk \<in> casefold ` set ds)"
  by (induction es sk dk rule: first_source.induct) (auto simp: list_ex_iff image_iff split: prod.splits)

lemma check_names_keys:
  assumes "check_names nfkc rk i vs seen = None"
  shows "\<exists>ks. map (tool_name_collision_key nfkc) vs = map Inr ks \<and> distinct ks
     \<and> set ks \<inter> keys rk = {} \<and> set ks \<inter> keys seen = {}"
  using assms
proof (induction vs arbitrary: i seen)
  case Nil
  then show ?case by simp
next
  case (Cons v vs)
  obtain k where k: "tool_name_collision_key nfkc v = Inr k" "k \<notin> keys rk" "k \<notin> keys seen"
      "check_names nfkc rk (Suc i) vs (AList.update k i seen) = None"
    using Cons.prems by (auto simp: map_of_none_keys split: sum.splits option.splits)
  obtain ks where "map (tool_name_collision_key nfkc) vs = map Inr ks" "distinct ks"
      "set ks \<inter> keys rk = {}" "set ks \<inter> keys (AList.update k i seen) = {}"
    using Cons.IH [OF k(4)] by blast
  then show ?case using k by (intro exI [of _ "k # ks"]) auto
qed

lemma find_by_key_ok:
  "map (tool_name_collision_key nfkc \<circ> tool_name) ts = map Inr ks \<Longrightarrow>
   find_by_key nfkc key ts = Inr (map_of (zip ks ts) key)"
  by (induction ts arbitrary: ks) (auto simp: map_eq_Cons_conv)

section \<open>Properties\<close>

text \<open>
  Topology checks mean what the team file says: for a topology that was accepted, \<open>allows\<close> on
  valid roles answers true exactly when the topology is open or some declared edge connects the
  two roles up to case folding.  The first source that matches is the only one that can.
\<close>

theorem topology_allows_iff:
  assumes "make_topology raw al = Inr t" and "role_ok src" and "role_ok dst"
  shows "allows t (VStr src) (VStr dst) = Inr (al \<or>
    (\<exists>(s, ds) \<in> set (edges t). casefold s = casefold src \<and> casefold dst \<in> casefold ` set ds))"
proof -
  have "distinct (map (casefold \<circ> fst) (edges t))"
    using make_topology_ok [OF assms(1)] by (simp add: edges_ok_def)
  moreover have "allow_all t = al" using assms(1) by (auto simp: make_topology_def split: sum.splits)
  ultimately show ?thesis using assms(2,3) first_source_iff by (simp add: allows_def)
qed

theorem topology_allows_iff_witness:
  "\<exists>t. make_topology [(''Lead'', [VStr ''coder''])] False = Inr t \<and>
     allows t (VStr ''LEAD'') (VStr ''Coder'') = Inr True"
proof -
  have ok: "role_ok ''LEAD''" "role_ok ''Coder''" "role_ok ''Lead''" "role_ok ''coder''"
    by (simp_all add: role_ok_def unsafe_component_def py_strip_def is_space_def is_control_def
        code_def utf8_char_len_def)
  have t: "make_topology [(''Lead'', [VStr ''coder''])] False
      = Inr \<lparr>edges = [(''Lead'', [''coder''])], allow_all = False\<rparr>"
    using ok by (simp add: make_topology_def)
  have "casefold ''Lead'' = casefold ''LEAD''" "casefold ''coder'' = casefold ''Coder''"
    by code_simp+
  then show ?thesis
    using topology_allows_iff [OF t ok(1,2)] t by simp
qed

text \<open>
  Tool dispatch is unambiguous: for a tool table that passed validation and has only string
  names, every tool is found under its own name, and a name finds at most the one tool whose
  collision key it shares.
\<close>

theorem find_tool_unique:
  assumes "validate_tool_names nfkc tools = None" and "\<forall>t \<in> set tools. is_str (tool_name t)"
    and "t \<in> set tools"
  shows "find_tool nfkc tools (tool_name t) = Inr (Some t) \<and>
    (\<forall>t' \<in> set tools. tool_name_collision_key nfkc (tool_name t') = tool_name_collision_key nfkc (tool_name t) \<longrightarrow> t' = t)"
proof -
  have names: "filter is_str (map tool_name tools) = map tool_name tools"
    using assms(2) by (simp add: filter_id_conv)
  obtain ks where ks: "map (tool_name_collision_key nfkc) (map tool_name tools) = map Inr ks" "distinct ks"
    using assms(1) check_names_keys [of nfkc "[]" 0 "map tool_name tools" "[]"]
    by (auto simp: validate_tool_names_def validate_unique_tool_names_def names)
  have len: "length ks = length tools" using ks(1) by (metis length_map)
  obtain i where i: "i < length tools" "tools ! i = t" using assms(3) by (auto simp: in_set_conv_nth)
  have key: "tool_name_collision_key nfkc (tool_name (tools ! j)) = Inr (ks ! j)" if "j < length tools" for j
    using arg_cong [OF ks(1), of "\<lambda>l. l ! j"] that len by simp
  have "find_by_key nfkc (ks ! i) tools = Inr (map_of (zip ks tools) (ks ! i))"
    by (rule find_by_key_ok) (use ks(1) in simp)
  moreover have "map_of (zip ks tools) (ks ! i) = Some (tools ! i)"
    using map_of_zip_nth [of ks tools i] ks(2) len i(1) by simp
  ultimately have "find_tool nfkc tools (tool_name t) = Inr (Some t)"
    using assms(1) key [OF i(1)] i(2) by (simp add: find_tool_def)
  moreover have "t' = t" if "t' \<in> set tools"
    "tool_name_collision_key nfkc (tool_name t') = tool_name_collision_key nfkc (tool_name t)" for t'
  proof -
    obtain j where j: "j < length tools" "tools ! j = t'" using \<open>t' \<in> set tools\<close> by (metis in_set_conv_nth)
    then have "ks ! i = ks ! j" using that(2) key i by (metis sum.inject(2))
    then have "i = j" using ks(2) i(1) j(1) len by (simp add: nth_eq_iff_index_eq)
    then show ?thesis using i j by simp
  qed
  ultimately show ?thesis by blast
qed

theorem find_tool_unique_witness:
  "let ts = [\<lparr>tool_name = VStr ''bash'', tool_schema = VNone\<rparr>, \<lparr>tool_name = VStr ''grep'', tool_schema = VNone\<rparr>]
   in find_tool id ts (VStr ''bash'') = Inr (Some (ts ! 0))"
proof -
  let ?ts = "[\<lparr>tool_name = VStr ''bash'', tool_schema = VNone\<rparr>, \<lparr>tool_name = VStr ''grep'', tool_schema = VNone\<rparr>]"
  have "validate_tool_names id ?ts = None"
    by (simp add: validate_tool_names_def validate_unique_tool_names_def tool_name_collision_key_def Let_def
        casefold_def fold_char_def py_strip_def is_space_def is_control_def code_def)
  then show ?thesis using find_tool_unique [of id ?ts "?ts ! 0"] by simp
qed

end
