(* ===== verification/Tool_Processing.thy ===== *)
theory Tool_Processing
  imports Session_State
begin

text \<open>
  The result of one batch of tool calls and how it is folded into the session
  (\<open>LoopDetection\<close> and \<open>ToolProcessingResult\<close> of \<open>domain/tools.py\<close>).  The Python methods update
  both the result object (its applied-so-far marks) and the session; here each returns the pair.
  Loop-state updates are values, so \<open>clone\<close> is the identity.
\<close>

section \<open>Data\<close>

abbreviation MAX_CALL_HASH_WINDOW :: nat where "MAX_CALL_HASH_WINDOW \<equiv> 200"

record LoopDetection =
  detected_tool :: string
  detected_count :: int

record ToolProcessingResult =
  messages_to_append :: "message list"
  recent_hash_updates :: "string list"
  loop_detections :: "LoopDetection list"
  pending_loop_state :: "LoopState option"
  history_applied_count :: nat
  read_write_applied_count :: nat
  current_progress :: bool
  effect_unknown :: bool
  evidence_neutral :: "bool list"
  model_step :: "int option"
  reads_executed :: int
  write_succeeded :: bool
  read_write_signals :: "string list"
  tool_step_attempted :: bool
  evidence_signals :: "(string \<times> string \<times> bool) list"
  evidence_cards :: "message list"
  terminal_capture_accepted :: bool
  turn_submitted :: bool
  result_submitted_summary :: "string option"

definition empty_result :: ToolProcessingResult where
  "empty_result = \<lparr>messages_to_append = [], recent_hash_updates = [], loop_detections = [],
     pending_loop_state = None, history_applied_count = 0, read_write_applied_count = 0,
     current_progress = False, effect_unknown = False, evidence_neutral = [], model_step = None,
     reads_executed = 0, write_succeeded = False, read_write_signals = [], tool_step_attempted = False,
     evidence_signals = [], evidence_cards = [], terminal_capture_accepted = False,
     turn_submitted = False, result_submitted_summary = None\<rparr>"

section \<open>Folding a result into the turn\<close>

definition apply_hashes_to ::
  "nat \<Rightarrow> ToolProcessingResult \<Rightarrow> TurnEnforcementState
     \<Rightarrow> ToolProcessingResult \<times> TurnEnforcementState" where
  "apply_hashes_to max_window r t =
     (let t1 = foldl (\<lambda>t h. remember_tool_call_hash h (Some max_window) t) t
                 (drop (history_applied_count r) (recent_hash_updates r));
          t2 = (case pending_loop_state r of None \<Rightarrow> t1 | Some l \<Rightarrow> t1\<lparr>loop_state := l\<rparr>)
      in (r\<lparr>history_applied_count := length (recent_hash_updates r), pending_loop_state := None\<rparr>, t2))"

definition apply_signal :: "TurnEnforcementState \<Rightarrow> string \<Rightarrow> TurnEnforcementState" where
  "apply_signal t sig =
     (if sig = ''write''
      then t\<lparr>reads_since_last_edit := 0, has_landed_write := True, write_effect_unknown := False\<rparr>
      else if sig = ''unknown'' then t\<lparr>write_effect_unknown := True\<rparr>
      else if sig = ''read'' then t\<lparr>reads_since_last_edit := reads_since_last_edit t + 1\<rparr>
      else t)"

definition apply_read_write_counter_to ::
  "ToolProcessingResult \<Rightarrow> TurnEnforcementState \<Rightarrow> ToolProcessingResult \<times> TurnEnforcementState" where
  "apply_read_write_counter_to r t =
     (if read_write_signals r \<noteq> []
      then (r\<lparr>read_write_applied_count := length (read_write_signals r)\<rparr>,
            foldl apply_signal t (drop (read_write_applied_count r) (read_write_signals r)))
      else if write_succeeded r
      then (r, t\<lparr>reads_since_last_edit := 0, write_effect_unknown := False, has_landed_write := True\<rparr>)
      else (r, t\<lparr>reads_since_last_edit := reads_since_last_edit t + reads_executed r\<rparr>))"

text \<open>
  The loop over \<open>enumerate(evidence_signals)\<close>: cards and neutral marks are consumed in step, and
  an index past their end means no card and not neutral.
\<close>

fun fold_evidence ::
  "(string \<times> string \<times> bool) list \<Rightarrow> message list \<Rightarrow> bool list \<Rightarrow> TurnEnforcementState
     \<Rightarrow> TurnEnforcementState" where
  "fold_evidence [] cards neutral t = t"
| "fold_evidence ((c, k, low) # es) cards neutral t =
     (let crd = (case cards of [] \<Rightarrow> None | x # _ \<Rightarrow> Some x);
          previous = low_yield_since_progress t;
          t1 = record_evidence_signal c k low crd t;
          t2 = (case neutral of
                  True # _ \<Rightarrow> t1\<lparr>low_yield_since_progress := min previous (low_yield_since_progress t1)\<rparr>
                | _ \<Rightarrow> t1)
      in fold_evidence es (tl cards) (tl neutral) t2)"

definition step_counted :: "ToolProcessingResult \<Rightarrow> TurnEnforcementState \<Rightarrow> bool" where
  "step_counted r t = (case model_step r of None \<Rightarrow> False | Some n \<Rightarrow> last_counted_step (loop_state t) = n)"

definition uncertain_batch :: "ToolProcessingResult \<Rightarrow> bool" where
  "uncertain_batch r = (effect_unknown r \<and> loop_detections r = [])"

text \<open>The counters after the evidence loop, given whether the batch made progress.\<close>

definition settle_progress ::
  "ToolProcessingResult \<Rightarrow> bool \<Rightarrow> TurnEnforcementState \<Rightarrow> TurnEnforcementState" where
  "settle_progress r made t =
     (let uncertain = uncertain_batch r;
          loops = loop_state t;
          n = int (length (loop_detections r))
      in t\<lparr>last_progress_unknown := uncertain \<and> \<not> made,
           steps_since_progress :=
             (if made then 0
              else if \<not> uncertain \<and> (evidence_signals r \<noteq> [] \<or> tool_step_attempted r)
              then steps_since_progress t + 1 else steps_since_progress t),
           loop_blocked_since_progress :=
             (if made then 0 else if loop_detections r \<noteq> [] then loop_blocked_since_progress t + n
              else loop_blocked_since_progress t),
           loop_state := loops\<lparr>
             blocked_rounds := (if made then 0 else if loop_detections r \<noteq> [] then blocked_rounds loops + 1
                                else blocked_rounds loops),
             last_counted_step := (case model_step r of None \<Rightarrow> last_counted_step loops | Some k \<Rightarrow> k)\<rparr>\<rparr>)"

definition apply_evidence_counter_to ::
  "ToolProcessingResult \<Rightarrow> TurnEnforcementState \<Rightarrow> TurnEnforcementState" where
  "apply_evidence_counter_to r t =
     (if step_counted r t then t
      else
        let t1 = fold_evidence (evidence_signals r) (evidence_cards r) (evidence_neutral r) t;
            made = (write_succeeded r \<or> current_progress r \<or>
                    (evidence_signals r \<noteq> [] \<and> distinct_evidence_count t < distinct_evidence_count t1))
        in settle_progress r made t1)"

definition append_results :: "string list \<Rightarrow> ToolProcessingResult \<Rightarrow> SessionState \<Rightarrow> SessionState" where
  \<comment> \<open>one clock reading per appended message\<close>
  "append_results nows r s =
     foldl (\<lambda>s (now, m). append_message now m s) s (zip nows (messages_to_append r))"

text \<open>The three counter folds in the order of \<open>apply_to\<close>; they touch only \<open>state.turn\<close>.\<close>

definition apply_counters ::
  "nat \<Rightarrow> ToolProcessingResult \<Rightarrow> TurnEnforcementState
     \<Rightarrow> ToolProcessingResult \<times> TurnEnforcementState" where
  "apply_counters max_window r t =
     (let (r1, t1) = apply_hashes_to max_window r t;
          (r2, t2) = apply_read_write_counter_to r1 t1
      in (r2, apply_evidence_counter_to r2 t2))"

definition apply_to ::
  "string list \<Rightarrow> nat \<Rightarrow> ToolProcessingResult \<Rightarrow> SessionState \<Rightarrow> ToolProcessingResult \<times> SessionState" where
  "apply_to nows max_window r s =
     (let s1 = append_results nows r s;
          (r', t') = apply_counters max_window r (turn s1)
      in (r', s1\<lparr>turn := t'\<rparr>))"

section \<open>Lemmas\<close>

lemma drop_applied_append: "n = length xs \<Longrightarrow> drop n (xs @ ys) = ys"
  by simp

lemma foldl_drop_split:
  "n \<le> length xs \<Longrightarrow>
   foldl f (foldl f t (drop n xs)) (drop (length xs) (xs @ ys)) = foldl f t (drop n (xs @ ys))"
  by simp

definition reads_after_write :: "string list \<Rightarrow> int" where
  "reads_after_write sigs =
     int (length (filter (\<lambda>x. x = ''read'') (rev (takeWhile (\<lambda>x. x \<noteq> ''write'') (rev sigs)))))"

lemma reads_after_write_snoc:
  "reads_after_write (sigs @ [x]) =
     (if x = ''write'' then 0 else if x = ''read'' then reads_after_write sigs + 1 else reads_after_write sigs)"
  by (cases "x = ''write''") (auto simp: reads_after_write_def)

lemma apply_signals_reads:
  "reads_since_last_edit (foldl apply_signal t sigs) =
     (if ''write'' \<in> set sigs then reads_after_write sigs
      else reads_since_last_edit t + reads_after_write sigs)"
proof (induction sigs rule: rev_induct)
  case Nil
  then show ?case by (simp add: reads_after_write_def)
next
  case (snoc x sigs)
  have "''read'' \<noteq> ''unknown''" "''read'' \<noteq> ''write''" "''unknown'' \<noteq> ''write''" by simp_all
  then show ?case using snoc by (auto simp: apply_signal_def reads_after_write_snoc)
qed

lemma apply_signals_landed:
  "has_landed_write (foldl apply_signal t sigs) = (has_landed_write t \<or> ''write'' \<in> set sigs)"
  by (induction sigs arbitrary: t) (auto simp: apply_signal_def)

lemma apply_signal_loop_state [simp]: "loop_state (apply_signal t sig) = loop_state t"
  by (simp add: apply_signal_def)

lemma foldl_apply_signal_loop_state [simp]: "loop_state (foldl apply_signal t sigs) = loop_state t"
  by (induction sigs arbitrary: t) simp_all

lemma record_evidence_frame [simp]:
  "loop_state (record_evidence_signal c k low crd t) = loop_state t"
  "steps_since_progress (record_evidence_signal c k low crd t) = steps_since_progress t"
  "loop_blocked_since_progress (record_evidence_signal c k low crd t) = loop_blocked_since_progress t"
  by (auto simp: evidence_defs split: option.splits)

lemma neutral_case_frame [simp]:
  "loop_state (case neutral of True # _ \<Rightarrow> t\<lparr>low_yield_since_progress := x\<rparr> | _ \<Rightarrow> t) = loop_state t"
  "steps_since_progress (case neutral of True # _ \<Rightarrow> t\<lparr>low_yield_since_progress := x\<rparr> | _ \<Rightarrow> t) = steps_since_progress t"
  "loop_blocked_since_progress (case neutral of True # _ \<Rightarrow> t\<lparr>low_yield_since_progress := x\<rparr> | _ \<Rightarrow> t)
     = loop_blocked_since_progress t"
  by (auto split: list.splits bool.splits)

lemma fold_evidence_frame [simp]:
  "loop_state (fold_evidence es cards neutral t) = loop_state t"
  "steps_since_progress (fold_evidence es cards neutral t) = steps_since_progress t"
  "loop_blocked_since_progress (fold_evidence es cards neutral t) = loop_blocked_since_progress t"
  by (induction es cards neutral t rule: fold_evidence.induct) (simp_all add: Let_def)

lemma settle_loop_state:
  "last_counted_step (loop_state (settle_progress r made t)) =
     (case model_step r of None \<Rightarrow> last_counted_step (loop_state t) | Some k \<Rightarrow> k)"
  by (simp add: settle_progress_def Let_def)

lemma evidence_counted: "model_step r = Some n \<Longrightarrow> step_counted r (apply_evidence_counter_to r t)"
  by (simp add: step_counted_def apply_evidence_counter_to_def settle_loop_state Let_def)

lemma evidence_idem:
  "model_step r = Some n \<Longrightarrow>
   apply_evidence_counter_to r (apply_evidence_counter_to r t) = apply_evidence_counter_to r t"
  using evidence_counted [of r n t] by (simp add: apply_evidence_counter_to_def)

section \<open>Properties\<close>

text \<open>
  Folding a batch is idempotent: when the batch carries ordered read/write signals and its model step
  number, folding its hashes, read/write signals and evidence a second time (a resumed or retried
  step) leaves both the turn counters and the result unchanged.
\<close>

theorem fold_batch_idempotent:
  assumes "model_step r = Some n" and "read_write_signals r \<noteq> []"
    and "apply_counters w r t = (r', t')"
  shows "apply_counters w r' t' = (r', t')"
proof -
  define r1 t1 where "r1 = fst (apply_hashes_to w r t)" and "t1 = snd (apply_hashes_to w r t)"
  define t2 where "t2 = foldl apply_signal t1 (drop (read_write_applied_count r) (read_write_signals r))"
  have r1: "r1 = r\<lparr>history_applied_count := length (recent_hash_updates r), pending_loop_state := None\<rparr>"
    by (simp add: r1_def apply_hashes_to_def Let_def)
  have r': "r' = r1\<lparr>read_write_applied_count := length (read_write_signals r)\<rparr>"
    and t': "t' = apply_evidence_counter_to r' t2"
    using assms(2,3) r1
    by (auto simp: apply_counters_def apply_read_write_counter_to_def t2_def t1_def r1_def split: prod.splits)
  have "apply_hashes_to w r' t' = (r', t')"
    by (simp add: apply_hashes_to_def r' r1)
  moreover have "apply_read_write_counter_to r' t' = (r', t')"
    using assms(2) by (simp add: apply_read_write_counter_to_def r' r1)
  moreover have "model_step r' = Some n" using assms(1) by (simp add: r' r1)
  ultimately show ?thesis using evidence_idem t' by (simp add: apply_counters_def)
qed

definition demo_result :: ToolProcessingResult where
  "demo_result = empty_result\<lparr>model_step := Some 3, read_write_signals := [''read'', ''write'', ''read'', ''read''],
     recent_hash_updates := [''h1''], evidence_signals := [(''c1'', ''h1'', False)]\<rparr>"

theorem fold_batch_idempotent_witness:
  "let (r, t) = apply_counters MAX_CALL_HASH_WINDOW demo_result fresh_turn
   in apply_counters MAX_CALL_HASH_WINDOW r t = (r, t) \<and> reads_since_last_edit t = 2 \<and> steps_since_progress t = 0"
proof -
  obtain r t where rt: "apply_counters MAX_CALL_HASH_WINDOW demo_result fresh_turn = (r, t)" by fastforce
  have "apply_counters MAX_CALL_HASH_WINDOW r t = (r, t)"
    by (rule fold_batch_idempotent [OF _ _ rt, of 3]) (simp_all add: demo_result_def empty_result_def)
  moreover have "reads_since_last_edit t = 2 \<and> steps_since_progress t = 0"
    using rt by (auto simp: apply_counters_def apply_hashes_to_def apply_read_write_counter_to_def
        apply_evidence_counter_to_def settle_progress_def demo_result_def empty_result_def Let_def
        step_counted_def apply_signal_def fresh_turn_def empty_loops_def remember_tool_call_hash_def evidence_defs
        uncertain_batch_def)
  ultimately show ?thesis using rt by simp
qed

text \<open>
  A write resets only the reads that precede it, however the batch is delivered: folding the
  ordered signals in two instalments gives the same turn as folding them at once, and the counter
  then is the number of reads after the last write, on top of the earlier count when there is none.
\<close>

theorem read_write_in_instalments:
  assumes "read_write_signals r \<noteq> []" and "read_write_applied_count r \<le> length (read_write_signals r)"
    and "apply_read_write_counter_to r t = (r1, t1)"
    and "apply_read_write_counter_to (r1\<lparr>read_write_signals := read_write_signals r @ more_signals\<rparr>) t1 = (r2, t2)"
  shows "(r2, t2) = apply_read_write_counter_to (r\<lparr>read_write_signals := read_write_signals r @ more_signals\<rparr>) t
    \<and> (let sigs = drop (read_write_applied_count r) (read_write_signals r @ more_signals) in
       reads_since_last_edit t2 =
         (if ''write'' \<in> set sigs then reads_after_write sigs else reads_since_last_edit t + reads_after_write sigs))"
proof -
  let ?sigs = "drop (read_write_applied_count r) (read_write_signals r @ more_signals)"
  have "r2 = r1\<lparr>read_write_signals := read_write_signals r @ more_signals,
      read_write_applied_count := length (read_write_signals r @ more_signals)\<rparr>"
    and t2: "t2 = foldl apply_signal t ?sigs"
    and "r1 = r\<lparr>read_write_applied_count := length (read_write_signals r)\<rparr>"
    using assms by (auto simp: apply_read_write_counter_to_def)
  then have "(r2, t2) = apply_read_write_counter_to (r\<lparr>read_write_signals := read_write_signals r @ more_signals\<rparr>) t"
    using assms(1) by (simp add: apply_read_write_counter_to_def)
  moreover have "reads_since_last_edit t2 =
      (if ''write'' \<in> set ?sigs then reads_after_write ?sigs else reads_since_last_edit t + reads_after_write ?sigs)"
    unfolding t2 by (rule apply_signals_reads)
  ultimately show ?thesis unfolding Let_def ..
qed

theorem read_write_in_instalments_witness:
  "let r = empty_result\<lparr>read_write_signals := [''read'', ''write'']\<rparr>;
       (r1, t1) = apply_read_write_counter_to r fresh_turn;
       (r2, t2) = apply_read_write_counter_to (r1\<lparr>read_write_signals := [''read'', ''write''] @ [''read'']\<rparr>) t1
   in reads_since_last_edit t2 = 1"
proof -
  let ?r = "empty_result\<lparr>read_write_signals := [''read'', ''write'']\<rparr>"
  obtain r1 t1 where 1: "apply_read_write_counter_to ?r fresh_turn = (r1, t1)" by fastforce
  obtain r2 t2 where 2: "apply_read_write_counter_to
      (r1\<lparr>read_write_signals := read_write_signals ?r @ [''read'']\<rparr>) t1 = (r2, t2)" by fastforce
  have "reads_since_last_edit t2 = 1"
    using read_write_in_instalments [OF _ _ 1 2] by (simp add: empty_result_def reads_after_write_def)
  then show ?thesis using 1 2 by simp
qed

text \<open>
  The progress watchdog moves by at most one per model step: folding a batch either resets
  the step counter, leaves it, or adds exactly one, it is reset exactly when a write landed, the
  batch is marked as progress or some result was novel, and a batch whose step was already counted
  changes nothing.
\<close>

theorem watchdog_step:
  assumes "0 \<le> steps_since_progress t"
  shows "let t' = apply_evidence_counter_to r t;
             novel = distinct_evidence_count t < distinct_evidence_count
               (fold_evidence (evidence_signals r) (evidence_cards r) (evidence_neutral r) t)
         in if step_counted r t then t' = t
            else if write_succeeded r \<or> current_progress r \<or> novel
            then steps_since_progress t' = 0 \<and> loop_blocked_since_progress t' = 0 \<and> blocked_rounds (loop_state t') = 0
            else steps_since_progress t' =
                   steps_since_progress t +
                     (if \<not> uncertain_batch r \<and> (evidence_signals r \<noteq> [] \<or> tool_step_attempted r) then 1 else 0)
                 \<and> 0 \<le> steps_since_progress t'
                 \<and> loop_blocked_since_progress t' =
                     loop_blocked_since_progress t + int (length (loop_detections r))"
proof (cases "evidence_signals r = []")
  case True
  then show ?thesis using assms
    by (simp add: apply_evidence_counter_to_def settle_progress_def Let_def)
next
  case False
  then show ?thesis using assms
    by (simp add: apply_evidence_counter_to_def settle_progress_def Let_def)
qed

theorem watchdog_step_witness:
  "steps_since_progress (apply_evidence_counter_to (empty_result\<lparr>tool_step_attempted := True\<rparr>) fresh_turn) = 1"
  using watchdog_step [of fresh_turn "empty_result\<lparr>tool_step_attempted := True\<rparr>"]
  by (simp add: fresh_turn_def empty_result_def step_counted_def uncertain_batch_def Let_def)

end
