(* ===== verification/Py_Float.thy ===== *)
theory Py_Float
  imports Prelude
begin

text \<open>
  Rounding of floating-point results: \<open>round53\<close> rounds to the nearest number with 53 significant
  bits, ties to even, with an unbounded exponent.  Users state why the exponent range does not
  matter to them.
\<close>

section \<open>Floating-point rounding\<close>

definition pow2 :: "int \<Rightarrow> rat" where
  "pow2 k = (if 0 \<le> k then 2 ^ nat k else 1 / 2 ^ nat (- k))"

definition binary_exponent :: "rat \<Rightarrow> int" where
  "binary_exponent x =
     (let (n, d) = quotient_of x; k = int (floorlog 2 (nat n)) - int (floorlog 2 (nat d))
      in if pow2 k \<le> x then k else k - 1)"

definition round_half_even :: "rat \<Rightarrow> int" where
  "round_half_even y =
     (let q = \<lfloor>y\<rfloor>; r = y - of_int q in if r > 1 / 2 \<or> (r = 1 / 2 \<and> odd q) then q + 1 else q)"

definition round53 :: "rat \<Rightarrow> rat" where
  "round53 x =
     (if x = 0 then 0
      else let u = pow2 (binary_exponent \<bar>x\<bar> - 52)
           in sgn x * of_int (round_half_even (\<bar>x\<bar> / u)) * u)"

text \<open>\<open>int(f)\<close> truncates toward zero.\<close>

definition trunc :: "rat \<Rightarrow> int" where
  "trunc x = (if 0 \<le> x then \<lfloor>x\<rfloor> else \<lceil>x\<rceil>)"

section \<open>Rounding error\<close>

lemma pow2_pos [simp]: "0 < pow2 k"
  by (simp add: pow2_def)

lemma pow2_nonneg [simp]: "0 \<le> pow2 k"
  by (rule less_imp_le) simp

lemma pow2_add_nat: "pow2 (k + int n) = pow2 k * 2 ^ n"
proof (induction n)
  case (Suc n)
  have step: "pow2 (j + 1) = pow2 j * 2" for j
  proof (cases "0 \<le> j")
    case True
    then show ?thesis by (simp add: pow2_def nat_add_distrib)
  next
    case False
    then have "nat (- j) = Suc (nat (- (j + 1)))" by simp
    then show ?thesis using False by (auto simp: pow2_def)
  qed
  have "pow2 (k + int (Suc n)) = pow2 ((k + int n) + 1)" by (simp add: algebra_simps)
  then show ?case by (simp only: step Suc power_Suc mult_ac)
qed simp

lemma pow2_mono: "j \<le> k \<Longrightarrow> pow2 j \<le> pow2 k"
proof -
  assume "j \<le> k"
  then have "pow2 k = pow2 j * 2 ^ nat (k - j)" using pow2_add_nat [of j "nat (k - j)"] by simp
  then show ?thesis using pow2_pos [of j] by (simp add: less_imp_le)
qed

lemma binary_exponent_le:
  assumes "0 < x"
  shows "pow2 (binary_exponent x) \<le> x"
proof -
  obtain n d where q: "quotient_of x = (n, d)" by fastforce
  have d: "0 < d" using quotient_of_denom_pos [OF q] .
  have x: "x = of_int n / of_int d" using quotient_of_div [OF q] .
  then have n: "0 < n" using assms d by (simp add: zero_less_divide_iff)
  let ?a = "floorlog 2 (nat n)" and ?b = "floorlog 2 (nat d)"
  have "?a \<noteq> 0" using n by (simp add: floorlog_eq_zero_iff)
  have "2 ^ (?a - 1) \<le> nat n" using floorlog_bounds [of "nat n" 2] n by simp
  then have "(2::int) ^ (?a - 1) \<le> n" using n by (simp add: le_nat_iff)
  then have lo: "(2::rat) ^ (?a - 1) \<le> of_int n" by (metis of_int_le_iff of_int_numeral of_int_power)
  have "nat d < 2 ^ ?b" using floorlog_bounds [of "nat d" 2] d by simp
  then have "d < (2::int) ^ ?b" using d by (simp add: nat_less_iff)
  then have hi: "of_int d < (2::rat) ^ ?b" by (metis of_int_less_iff of_int_numeral of_int_power)
  define k where "k = int ?a - int ?b - 1"
  have "k + int ?b = int (?a - 1)" using \<open>?a \<noteq> 0\<close> by (simp add: k_def)
  then have "pow2 k * 2 ^ ?b = 2 ^ (?a - 1)" using pow2_add_nat [of k ?b] by (simp add: pow2_def)
  moreover have "pow2 k * of_int d \<le> pow2 k * 2 ^ ?b"
    using hi pow2_pos [of k] by (intro mult_left_mono) simp_all
  ultimately have "pow2 k * of_int d \<le> of_int n" using lo by linarith
  then have "pow2 k \<le> x" using x d by (simp add: pos_le_divide_eq)
  then have "pow2 (int ?a - int ?b - 1) \<le> x" by (simp add: k_def)
  then show ?thesis by (simp add: binary_exponent_def q Let_def)
qed

lemma exponent_below_53:
  assumes "0 < x" and "x < 2 ^ 53"
  shows "binary_exponent x \<le> 52"
proof (rule ccontr)
  assume "\<not> binary_exponent x \<le> 52"
  then have "pow2 53 \<le> pow2 (binary_exponent x)" by (intro pow2_mono) simp
  then show False using binary_exponent_le [OF assms(1)] assms(2) by (simp add: pow2_def)
qed

lemma round_half_even_bounds:
  "\<lfloor>y\<rfloor> \<le> round_half_even y" "of_int (round_half_even y) \<le> y + 1 / 2"
  "y - 1 / 2 \<le> of_int (round_half_even y)"
proof -
  show "y - 1 / 2 \<le> of_int (round_half_even y)"
  proof (cases "y - of_int \<lfloor>y\<rfloor> \<le> 1 / 2")
    case True
    then have "of_int \<lfloor>y\<rfloor> \<ge> y - 1 / 2" by linarith
    moreover have "rat_of_int \<lfloor>y\<rfloor> \<le> of_int (round_half_even y)"
      unfolding of_int_le_iff by (simp add: round_half_even_def Let_def)
    ultimately show ?thesis by linarith
  next
    case False
    then have "round_half_even y = \<lfloor>y\<rfloor> + 1" by (simp add: round_half_even_def Let_def)
    then show ?thesis by (simp add: floor_less_iff less_imp_le) linarith
  qed
  show "\<lfloor>y\<rfloor> \<le> round_half_even y" by (simp add: round_half_even_def Let_def)
  show "of_int (round_half_even y) \<le> y + 1 / 2"
  proof (cases "y - of_int \<lfloor>y\<rfloor> \<ge> 1 / 2")
    case True
    then show ?thesis using of_int_floor_le [of y] by (simp add: round_half_even_def Let_def)
  next
    case False
    then have "round_half_even y = \<lfloor>y\<rfloor>" by (auto simp: round_half_even_def Let_def)
    then show ?thesis using of_int_floor_le [of y] by linarith
  qed
qed

lemma round53_int: "\<bar>i\<bar> < 2 ^ 53 \<Longrightarrow> round53 (of_int i) = of_int i"
proof (cases "i = 0")
  case False
  assume "\<bar>i\<bar> < 2 ^ 53"
  define e where "e = binary_exponent \<bar>rat_of_int i\<bar>"
  have "\<bar>rat_of_int i\<bar> < 2 ^ 53" using \<open>\<bar>i\<bar> < 2 ^ 53\<close>
    by (metis of_int_abs of_int_less_iff of_int_numeral of_int_power)
  then have "e \<le> 52" unfolding e_def by (intro exponent_below_53) (use False in simp_all)
  then have "pow2 (e - 52) * 2 ^ nat (52 - e) = 1"
    using pow2_add_nat [of "e - 52" "nat (52 - e)"] by (simp add: pow2_def)
  then have u: "\<bar>rat_of_int i\<bar> / pow2 (e - 52) = of_int (\<bar>i\<bar> * 2 ^ nat (52 - e))"
    using pow2_pos [of "e - 52"] by (auto simp: divide_eq_eq mult.assoc mult.commute [of _ "pow2 (e - 52)"])
  have "round_half_even (of_int k) = k" for k by (simp add: round_half_even_def)
  then have "round53 (of_int i) = sgn (of_int i) * (\<bar>rat_of_int i\<bar> / pow2 (e - 52)) * pow2 (e - 52)"
    using False u by (simp only: round53_def e_def Let_def) simp
  then show ?thesis using pow2_pos [of "e - 52"] by (simp add: abs_mult_sgn mult.commute sgn_mult_abs)
qed (simp add: round53_def)

text \<open>The rounding of a quotient below \<open>2 ^ 53\<close> stays between its floor and the next step of \<open>1 / n\<close>.\<close>

lemma round53_between:
  assumes "0 < x" and "x < 2 ^ 53"
  shows "of_int \<lfloor>x\<rfloor> \<le> round53 x" and "round53 x \<le> x + x / 2 ^ 53" and "x - x / 2 ^ 53 \<le> round53 x"
proof -
  define e where "e = binary_exponent x"
  define u where "u = pow2 (e - 52)"
  have e: "e \<le> 52" unfolding e_def using exponent_below_53 assms .
  have u: "0 < u" by (simp add: u_def)
  have unit: "u * 2 ^ nat (52 - e) = 1"
    using pow2_add_nat [of "e - 52" "nat (52 - e)"] e by (simp add: pow2_def u_def)
  have r: "round53 x = of_int (round_half_even (x / u)) * u"
    using assms(1) by (simp add: round53_def u_def e_def Let_def)
  have "of_int (\<lfloor>x\<rfloor> * 2 ^ nat (52 - e)) = of_int \<lfloor>x\<rfloor> / u"
    using u unit by (simp add: eq_divide_eq mult.assoc mult.commute [of _ u])
  also have "\<dots> \<le> x / u" using u by (simp add: divide_right_mono)
  finally have "\<lfloor>x\<rfloor> * 2 ^ nat (52 - e) \<le> \<lfloor>x / u\<rfloor>" by (simp add: le_floor_iff)
  also have "\<dots> \<le> round_half_even (x / u)" by (rule round_half_even_bounds)
  finally have "of_int (\<lfloor>x\<rfloor> * 2 ^ nat (52 - e)) * u \<le> of_int (round_half_even (x / u)) * u"
    using u by (intro mult_right_mono) (simp_all only: of_int_le_iff less_imp_le)
  moreover have "of_int (\<lfloor>x\<rfloor> * 2 ^ nat (52 - e)) * u = of_int \<lfloor>x\<rfloor> * (u * 2 ^ nat (52 - e))" by simp
  ultimately show "of_int \<lfloor>x\<rfloor> \<le> round53 x" by (simp only: unit r mult_1_right)
  have "pow2 (e - 52 + int 52) \<le> x" using binary_exponent_le [OF assms(1)] by (simp add: e_def)
  then have half: "u / 2 \<le> x / 2 ^ 53" by (simp only: pow2_add_nat) (simp add: u_def)
  have "round53 x \<le> (x / u + 1 / 2) * u"
    unfolding r using round_half_even_bounds(2) [of "x / u"] u by (intro mult_right_mono) simp_all
  also have "\<dots> = x + u / 2" using u by (simp add: distrib_right)
  finally show "round53 x \<le> x + x / 2 ^ 53" using half by linarith
  have "x - u / 2 = (x / u - 1 / 2) * u" using u by (simp add: left_diff_distrib)
  also have "\<dots> \<le> round53 x"
    unfolding r using round_half_even_bounds(3) [of "x / u"] u by (intro mult_right_mono) simp_all
  finally show "x - x / 2 ^ 53 \<le> round53 x" using half by linarith
qed

lemma round53_floor_div:
  assumes "0 \<le> a" and "a < 2 ^ 53" and "0 < n"
  shows "trunc (round53 (of_int a / of_int n)) = a div n"
proof (cases "a = 0")
  case True
  then show ?thesis by (simp add: round53_def trunc_def)
next
  case False
  let ?x = "rat_of_int a / of_int n"
  have a: "0 < a" using False assms(1) by simp
  have pos: "0 < ?x" using a assms(3) by simp
  have ub: "rat_of_int a < 2 ^ 53" using assms(2) by (metis of_int_less_iff of_int_numeral of_int_power)
  have "?x \<le> of_int a" using a assms(3) by (simp add: divide_le_eq mult_le_cancel_left1)
  then have x: "?x < 2 ^ 53" using ub by linarith
  have fl: "\<lfloor>?x\<rfloor> = a div n" by (simp add: floor_divide_of_int_eq)
  have "?x / 2 ^ 53 < 1 / of_int n" using ub assms(3) by (simp add: divide_strict_right_mono field_simps)
  then have "round53 ?x < ?x + 1 / of_int n" using round53_between(2) [OF pos x] by linarith
  also have "\<dots> \<le> of_int (a div n) + 1"
  proof -
    have "a + 1 \<le> n * (a div n) + n"
      using mult_div_mod_eq [of n a] pos_mod_bound [OF assms(3), of a] by linarith
    then have "rat_of_int (a + 1) \<le> of_int (n * (a div n) + n)" by (simp only: of_int_le_iff)
    then have "(rat_of_int a + 1) / of_int n \<le> (of_int (a div n) + 1)"
      using assms(3) by (simp add: pos_divide_le_eq algebra_simps)
    then show ?thesis by (simp add: add_divide_distrib)
  qed
  finally have "round53 ?x < of_int (a div n) + 1" .
  moreover have "of_int (a div n) \<le> round53 ?x" using round53_between(1) [OF pos x] fl by simp
  moreover have "0 \<le> a div n" using assms by (simp add: pos_imp_zdiv_nonneg_iff)
  then have "0 \<le> round53 ?x" using calculation(2) by (metis of_int_0_le_iff order_trans)
  ultimately show ?thesis by (simp add: trunc_def floor_eq_iff)
qed

lemma float_of_small: "\<bar>i\<bar> < 2 ^ 53 \<Longrightarrow> float_of_int i = Some (of_int i)"
proof -
  assume i: "\<bar>i\<bar> < 2 ^ 53"
  then have "nat \<bar>i\<bar> < 2 ^ 53" by (simp add: nat_less_iff)
  then have r: "round_double (nat \<bar>i\<bar>) = nat \<bar>i\<bar>" by (rule round_double_exact)
  have "nat \<bar>i\<bar> < 2 ^ 1024"
    using \<open>nat \<bar>i\<bar> < 2 ^ 53\<close> by (rule order.strict_trans2) (rule power_increasing, simp_all)
  moreover have "rat_of_int (sgn i) * of_nat (nat \<bar>i\<bar>) = of_int (sgn i * \<bar>i\<bar>)" by simp
  ultimately show ?thesis using r by (simp only: float_of_int_def Let_def sgn_mult_abs) simp
qed

section \<open>Monotonicity\<close>

lemma pow2_of_nats: "pow2 (int a - int b) = 2 ^ a / 2 ^ b"
proof -
  have "pow2 (int a - int b) * 2 ^ b = pow2 (int a)" using pow2_add_nat [of "int a - int b" b] by simp
  then show ?thesis by (simp add: pow2_def eq_divide_eq)
qed

lemma binary_exponent_gt:
  assumes "0 < x"
  shows "x < pow2 (binary_exponent x + 1)"
proof -
  obtain n d where q: "quotient_of x = (n, d)" by fastforce
  have d: "0 < d" using quotient_of_denom_pos [OF q] .
  have x: "x = of_int n / of_int d" using quotient_of_div [OF q] .
  then have n: "0 < n" using assms d by (simp add: zero_less_divide_iff)
  let ?a = "floorlog 2 (nat n)" and ?b = "floorlog 2 (nat d)"
  have b: "?b \<noteq> 0" using d by (simp add: floorlog_eq_zero_iff)
  have "nat n < 2 ^ ?a" using floorlog_bounds [of "nat n" 2] n by simp
  then have "n < (2::int) ^ ?a" using n by (simp add: nat_less_iff)
  then have hi: "of_int n < (2::rat) ^ ?a" by (metis of_int_less_iff of_int_numeral of_int_power)
  have "2 ^ (?b - 1) \<le> nat d" using floorlog_bounds [of "nat d" 2] d by simp
  then have "(2::int) ^ (?b - 1) \<le> d" using d by (simp add: le_nat_iff)
  then have lo: "(2::rat) ^ (?b - 1) \<le> of_int d" by (metis of_int_le_iff of_int_numeral of_int_power)
  have "x < 2 ^ ?a / of_int d" unfolding x using hi d by (intro divide_strict_right_mono) simp_all
  also have "\<dots> \<le> 2 ^ ?a / 2 ^ (?b - 1)" using lo d by (intro divide_left_mono) simp_all
  also have "\<dots> = pow2 (int ?a - int (?b - 1))" by (rule pow2_of_nats [symmetric])
  also have "int ?a - int (?b - 1) = int ?a - int ?b + 1" using b by simp
  finally show ?thesis by (simp add: binary_exponent_def q Let_def)
qed

lemma binary_exponent_mono: "0 < x \<Longrightarrow> x \<le> y \<Longrightarrow> binary_exponent x \<le> binary_exponent y"
proof (rule ccontr)
  assume "0 < x" "x \<le> y" "\<not> binary_exponent x \<le> binary_exponent y"
  then have "pow2 (binary_exponent y + 1) \<le> pow2 (binary_exponent x)" by (intro pow2_mono) simp
  then show False
    using binary_exponent_gt [of y] binary_exponent_le [of x] \<open>0 < x\<close> \<open>x \<le> y\<close> by linarith
qed

lemma round_half_even_mono:
  assumes "y \<le> z"
  shows "round_half_even y \<le> round_half_even z"
proof (cases "\<lfloor>y\<rfloor> = \<lfloor>z\<rfloor>")
  case True
  then have "y - of_int \<lfloor>y\<rfloor> \<le> z - of_int \<lfloor>z\<rfloor>" using assms by simp
  then show ?thesis using True by (auto simp: round_half_even_def Let_def)
next
  case False
  then have "\<lfloor>y\<rfloor> + 1 \<le> \<lfloor>z\<rfloor>" using floor_mono [OF assms] by linarith
  moreover have "round_half_even y \<le> \<lfloor>y\<rfloor> + 1" by (simp add: round_half_even_def Let_def)
  ultimately show ?thesis using round_half_even_bounds(1) [of z] by linarith
qed

lemma round_half_even_int [simp]: "round_half_even (of_int k) = k"
  by (simp add: round_half_even_def)

lemma round53_pos: "0 < x \<Longrightarrow> round53 x = of_int (round_half_even (x / pow2 (binary_exponent x - 52))) * pow2 (binary_exponent x - 52)"
  by (simp add: round53_def Let_def)

lemma round53_binade:
  assumes "0 < x"
  shows "pow2 (binary_exponent x) \<le> round53 x \<and> round53 x \<le> pow2 (binary_exponent x + 1)"
proof -
  define e where "e = binary_exponent x"
  define u where "u = pow2 (e - 52)"
  have u: "0 < u" by (simp add: u_def)
  have lo: "pow2 e = of_int (2 ^ 52) * u" and hi: "pow2 (e + 1) = of_int (2 ^ 53) * u"
    using pow2_add_nat [of "e - 52" 52] pow2_add_nat [of "e - 52" 53] by (simp_all add: u_def algebra_simps)
  have "of_int (2 ^ 52) \<le> x / u" using binary_exponent_le [OF assms] lo u by (simp add: e_def pos_le_divide_eq)
  from round_half_even_mono [OF this] have a: "2 ^ 52 \<le> round_half_even (x / u)" by (simp only: round_half_even_int)
  have "x / u \<le> of_int (2 ^ 53)" using binary_exponent_gt [OF assms] hi u by (simp add: e_def pos_divide_le_eq)
  from round_half_even_mono [OF this] have b: "round_half_even (x / u) \<le> 2 ^ 53" by (simp only: round_half_even_int)
  have r: "round53 x = of_int (round_half_even (x / u)) * u" unfolding u_def e_def by (rule round53_pos [OF assms])
  have "of_int (2 ^ 52) * u \<le> of_int (round_half_even (x / u)) * u"
    using a u by (intro mult_right_mono) (simp_all only: of_int_le_iff less_imp_le)
  moreover have "of_int (round_half_even (x / u)) * u \<le> of_int (2 ^ 53) * u"
    using b u by (intro mult_right_mono) (simp_all only: of_int_le_iff less_imp_le)
  ultimately show ?thesis unfolding r e_def [symmetric] lo hi by simp
qed

lemma round53_mono:
  assumes "0 \<le> x" and "x \<le> y"
  shows "round53 x \<le> round53 y"
proof (cases "x = 0")
  case True
  have "0 \<le> round53 y" if "0 < y"
    using round53_binade [OF that] pow2_nonneg [of "binary_exponent y"] by linarith
  then show ?thesis using True assms(2) by (cases "y = 0") (simp_all add: round53_def [of 0])
next
  case False
  then have x: "0 < x" and y: "0 < y" using assms by simp_all
  show ?thesis
  proof (cases "binary_exponent x = binary_exponent y")
    case True
    let ?u = "pow2 (binary_exponent y - 52)"
    have "round_half_even (x / ?u) \<le> round_half_even (y / ?u)"
      using assms(2) by (intro round_half_even_mono divide_right_mono) simp_all
    then show ?thesis unfolding round53_pos [OF x] round53_pos [OF y] True
      by (intro mult_right_mono) (simp_all only: of_int_le_iff pow2_nonneg)
  next
    case False
    then have "binary_exponent x + 1 \<le> binary_exponent y" using binary_exponent_mono [OF x assms(2)] by simp
    then have "pow2 (binary_exponent x + 1) \<le> pow2 (binary_exponent y)" by (rule pow2_mono)
    then show ?thesis using round53_binade [OF x] round53_binade [OF y] by linarith
  qed
qed

end
