(* ===== verification/Team_Rules.thy ===== *)
theory Team_Rules
  imports Session_State Py_Float
begin

text \<open>
  Team allocation rules, delegation values and the session registry (\<open>domain/scheduler.py\<close>).
  \<open>per_agent_cap\<close> is computed in floating point by the source: an overflow of the product is the
  \<open>OverflowError\<close> of \<open>int(inf)\<close>, and where the product or the quotient is subnormal the
  truncated result is 0 either way.
\<close>

section \<open>Allocation rules\<close>

text \<open>\<open>None\<close> is the \<open>OverflowError\<close>.\<close>

definition per_agent_cap :: "int \<Rightarrow> int \<Rightarrow> rat \<Rightarrow> int option" where
  "per_agent_cap pool team_size share =
     (if team_size \<le> 0 then Some (max 0 pool)
      else
        case (float_of_int pool, float_of_int team_size) of
          (Some t, Some n) \<Rightarrow>
            let product = round53 (t * share)
            in if \<bar>product\<bar> \<ge> 2 ^ 1024 then None
               else Some (max 0 (min pool (trunc (round53 (product / n)))))
        | _ \<Rightarrow> None)"

definition dynamic_roster_share :: "int \<Rightarrow> int" where
  "dynamic_roster_share pool = min pool (max 10000 (pool div 4))"

definition split_budget :: "int \<Rightarrow> int \<Rightarrow> int" where
  "split_budget pool allocated =
     (let remaining = max 0 (pool - allocated) in min (dynamic_roster_share pool) remaining)"

section \<open>Delegation values\<close>

record DelegationTask =
  task_role :: string
  task_text :: string
  task_context :: string

definition render :: "DelegationTask \<Rightarrow> string" where
  "render d =
     (if task_context d \<noteq> []
      then ''Context:'' @ [CHR 0x0A] @ task_context d @ [CHR 0x0A, CHR 0x0A] @ ''Task:'' @ [CHR 0x0A] @ task_text d
      else task_text d)"

record ReviewVerdict =
  passed :: bool
  raw_text :: string

text \<open>\<open>str.splitlines()\<close> on the code points of \<open>char\<close>; a carriage return and the line feed
  right after it are one boundary.\<close>

definition is_linebreak :: "char \<Rightarrow> bool" where
  "is_linebreak c = (let n = code c in (10 \<le> n \<and> n \<le> 13) \<or> (28 \<le> n \<and> n \<le> 30) \<or> n = 133)"

fun split_lines :: "string \<Rightarrow> string \<Rightarrow> string list" where
  "split_lines acc [] = (if acc = [] then [] else [acc])"
| "split_lines acc [c] = (if is_linebreak c then [acc] else [acc @ [c]])"
| "split_lines acc (c # d # s) =
     (if c = CHR 0x0D \<and> d = CHR 0x0A then acc # split_lines [] s
      else if is_linebreak c then acc # split_lines [] (d # s)
      else split_lines (acc @ [c]) (d # s))"

definition splitlines :: "string \<Rightarrow> string list" where
  "splitlines s = split_lines [] s"

definition upper_char :: "char \<Rightarrow> char" where
  "upper_char c = (let n = code c in if 97 \<le> n \<and> n \<le> 122 then char_of (n - 32) else c)"

text \<open>\<open>re.fullmatch(r"VERDICT: PASS[.!]?", line, re.IGNORECASE)\<close>: the two wide punctuation marks
  of the source lie outside the code points of \<open>char\<close>.\<close>

definition is_pass_line :: "string \<Rightarrow> bool" where
  "is_pass_line l =
     (let u = map upper_char l
      in u \<in> {''VERDICT: PASS'', ''VERDICT: PASS.'', ''VERDICT: PASS!''})"

definition parse :: "string \<Rightarrow> ReviewVerdict" where
  "parse text =
     (let lines = filter (\<lambda>l. l \<noteq> []) (map py_strip (splitlines text))
      in \<lparr>passed = (lines \<noteq> [] \<and> is_pass_line (last lines)), raw_text = text\<rparr>)"

section \<open>Session registry\<close>

record SessionControlBlock =
  scb_aid :: int
  parent_aid :: "int option"
  scb_agent_name :: string
  scb_state :: SessionState
  scb_result :: string
  scb_answer :: "string option"

record SessionTable =
  entries :: "(int \<times> SessionControlBlock) list"
  next_aid :: int

definition empty_table :: SessionTable where
  "empty_table = \<lparr>entries = [], next_aid = 0\<rparr>"

definition allocate_aid :: "SessionTable \<Rightarrow> SessionTable \<times> int" where
  "allocate_aid t = (t\<lparr>next_aid := next_aid t + 1\<rparr>, next_aid t)"

definition add_scb :: "SessionControlBlock \<Rightarrow> SessionTable \<Rightarrow> SessionTable" where
  "add_scb b t = t\<lparr>entries := AList.update (scb_aid b) b (entries t)\<rparr>"

definition get_scb :: "SessionTable \<Rightarrow> int \<Rightarrow> SessionControlBlock option" where
  "get_scb t a = map_of (entries t) a"

definition total_used_tokens :: "SessionTable \<Rightarrow> int" where
  "total_used_tokens t = dict_sum (\<lambda>_ b. used_tokens (scb_state b)) (entries t)"

section \<open>Lemmas on the rules and the registry\<close>

lemma split_budget_le: "split_budget pool allocated \<le> max 0 (pool - allocated)"
  by (simp add: split_budget_def)

lemma split_budget_nonneg: "0 \<le> pool \<Longrightarrow> 0 \<le> split_budget pool allocated"
  by (simp add: split_budget_def dynamic_roster_share_def)

text \<open>
  A registry reached through \<open>allocate_aid\<close> and \<open>add\<close>: control blocks are filed under their own
  identifier and every identifier was allocated.
\<close>

definition registry_ok :: "SessionTable \<Rightarrow> bool" where
  "registry_ok t = (dict_ok (entries t) \<and> 0 \<le> next_aid t \<and>
     list_all (\<lambda>(a, b). scb_aid b = a \<and> a < next_aid t) (entries t))"

definition register :: "(int \<Rightarrow> SessionControlBlock) \<Rightarrow> SessionTable \<Rightarrow> SessionTable" where
  "register mk t = (let (t', a) = allocate_aid t in add_scb ((mk a)\<lparr>scb_aid := a\<rparr>) t')"

lemma registry_fresh: "registry_ok t \<Longrightarrow> next_aid t \<notin> keys (entries t)"
  by (auto simp: registry_ok_def list_all_iff)

lemma register_entries:
  "registry_ok t \<Longrightarrow> entries (register mk t) =
     entries t @ [(next_aid t, (mk (next_aid t))\<lparr>scb_aid := next_aid t\<rparr>)]"
  using registry_fresh [of t] by (simp add: register_def allocate_aid_def add_scb_def update_new)

lemma register_ok [inv_rules]: "registry_ok t \<Longrightarrow> registry_ok (register mk t)"
proof -
  assume ok: "registry_ok t"
  have n: "next_aid (register mk t) = next_aid t + 1"
    by (simp add: register_def allocate_aid_def add_scb_def)
  have "list_all (\<lambda>(a, b). scb_aid b = a \<and> a < next_aid t + 1) (entries t)"
    using ok by (auto simp: registry_ok_def list_all_iff)
  then show ?thesis
    using ok registry_fresh [OF ok] register_entries [OF ok, of mk] n by (auto simp: registry_ok_def)
qed

lemma split_lines_plain:
  "list_all (\<lambda>c. \<not> is_linebreak c) l \<Longrightarrow> l \<noteq> [] \<Longrightarrow> split_lines acc l = [acc @ l]"
proof (induction acc l rule: split_lines.induct)
  case (3 acc c d s)
  have "is_linebreak (CHR 0x0D)" by code_simp
  then have "c \<noteq> CHR 0x0D" using "3.prems" by auto
  then show ?case using 3 by simp
qed simp_all

lemma split_lines_last:
  assumes "list_all (\<lambda>c. \<not> is_linebreak c) l" and "l \<noteq> []"
  shows "\<exists>pre. split_lines acc (s @ CHR 0x0A # l) = pre @ [l]"
proof -
  have nl: "is_linebreak (CHR 0x0A)" by code_simp
  obtain d l' where l: "l = d # l'" using assms(2) by (cases l) auto
  have base: "split_lines acc (CHR 0x0A # l) = [acc, l]" for acc
    using split_lines_plain [OF assms, of "[]"] nl by (simp add: l)
  show ?thesis
  proof (induction acc s rule: split_lines.induct)
    case (1 acc)
    then show ?case using base [of acc] by (intro exI [of _ "[acc]"]) simp
  next
    case (2 acc c)
    have "split_lines acc (c # CHR 0x0A # l) \<in> {[acc, l], [acc, [], l], [acc @ [c], l]}"
      using split_lines_plain [OF assms, of "[]"] base by simp
    then show ?case by (auto intro: exI [of _ "[acc]"] exI [of _ "[acc, []]"] exI [of _ "[acc @ [c]]"])
  next
    case (3 acc c d s)
    consider "c = CHR 0x0D \<and> d = CHR 0x0A" | "\<not> (c = CHR 0x0D \<and> d = CHR 0x0A)" "is_linebreak c"
      | "\<not> (c = CHR 0x0D \<and> d = CHR 0x0A)" "\<not> is_linebreak c" by blast
    then show ?case
    proof cases
      case 1
      obtain pre where "split_lines [] (s @ CHR 0x0A # l) = pre @ [l]" using "3.IH"(1) [OF 1] by blast
      then show ?thesis using 1 by (intro exI [of _ "acc # pre"]) simp
    next
      case 2
      obtain pre where "split_lines [] ((d # s) @ CHR 0x0A # l) = pre @ [l]" using "3.IH"(2) [OF 2] by blast
      then show ?thesis using 2 by (intro exI [of _ "acc # pre"]) auto
    next
      case 3
      then show ?thesis using "3.IH"(3) [OF 3] by auto
    qed
  qed
qed

section \<open>Properties\<close>

text \<open>
  Declared seat caps fit the pool: the cap computed in floating point is the exact floor of
  the equal share for every pool below \<open>2 ^ 53\<close> tokens, so the caps of all seats together never
  exceed the pool and lose less than one token per seat.
\<close>

theorem seat_caps_fit_pool:
  assumes "0 \<le> pool" and "pool < 2 ^ 53" and "0 < n" and "n < 2 ^ 53"
  shows "per_agent_cap pool n 1 = Some (pool div n) \<and> n * (pool div n) \<le> pool \<and> pool - n < n * (pool div n)"
proof -
  have p: "round53 (of_int pool) = of_int pool" by (rule round53_int) (use assms in simp)
  have "rat_of_int pool < 2 ^ 53" using assms(2) by (metis of_int_less_iff of_int_numeral of_int_power)
  moreover have "(2::rat) ^ 53 \<le> 2 ^ 1024" by (rule power_increasing) simp_all
  ultimately have small: "\<not> \<bar>rat_of_int pool\<bar> \<ge> 2 ^ 1024" using assms(1) by linarith
  have "pool div n \<le> pool" using zdiv_mono2 [of pool 1 n] assms by simp
  moreover have "0 \<le> pool div n" using assms by (simp add: pos_imp_zdiv_nonneg_iff)
  ultimately have "per_agent_cap pool n 1 = Some (pool div n)"
    using assms p small round53_floor_div [OF assms(1,2,3)]
    by (simp add: per_agent_cap_def float_of_small Let_def del: of_int_abs)
  moreover have "n * (pool div n) + pool mod n = pool" by (rule mult_div_mod_eq)
  ultimately show ?thesis using pos_mod_bound [OF assms(3), of pool] pos_mod_sign [OF assms(3), of pool] by linarith
qed

theorem seat_caps_fit_pool_witness:
  "per_agent_cap 1000000 3 1 = Some 333333"
  using seat_caps_fit_pool [of 1000000 3] by simp

text \<open>
  Agent identifiers are never reused: registering sessions one after the other gives each a
  control block under an identifier that no earlier session had, and the registry keeps every
  earlier block.
\<close>

theorem identifiers_unique:
  "registry_ok (foldl (\<lambda>t mk. register mk t) empty_table mks) \<and>
   map fst (entries (foldl (\<lambda>t mk. register mk t) empty_table mks)) = [0..int (length mks) - 1]"
proof (induction mks rule: rev_induct)
  case Nil
  then show ?case by (simp add: registry_ok_def empty_table_def)
next
  case (snoc mk mks)
  let ?t = "foldl (\<lambda>t mk. register mk t) empty_table mks"
  have "next_aid (foldl (\<lambda>t mk. register mk t) u ms) = next_aid u + int (length ms)" for u ms
    by (induction ms arbitrary: u) (simp_all add: register_def allocate_aid_def add_scb_def)
  then have n: "next_aid ?t = int (length mks)" by (simp add: empty_table_def)
  have up: "[0..int (length mks)] = [0..int (length mks) - 1] @ [int (length mks)]"
    by (rule upto_rec2) simp
  have "registry_ok (register mk ?t)" using snoc register_ok by blast
  moreover have "map fst (entries (register mk ?t)) = [0..int (length mks)]"
    unfolding up using snoc n by (simp add: register_entries)
  ultimately show ?case by simp
qed

text \<open>
  The verdict is the reviewer's last non-blank line: text before the final line can neither
  approve nor reject, so quoted instructions do not override the judgement.
\<close>

theorem verdict_is_last_line:
  assumes "list_all (\<lambda>c. \<not> is_linebreak c) l" and "py_strip l \<noteq> []"
  shows "passed (parse (earlier @ CHR 0x0A # l)) \<longleftrightarrow> is_pass_line (py_strip l)"
proof -
  have "l \<noteq> []" using assms(2) by (auto simp: py_strip_def)
  then obtain pre where "splitlines (earlier @ CHR 0x0A # l) = pre @ [l]"
    using split_lines_last [OF assms(1), of "[]" earlier] by (auto simp: splitlines_def)
  then show ?thesis using assms(2) by (simp add: parse_def Let_def)
qed

theorem verdict_is_last_line_witness:
  "passed (parse (''VERDICT: FAIL'' @ CHR 0x0A # ''Verdict: pass.'')) \<and>
   \<not> passed (parse (''VERDICT: PASS'' @ CHR 0x0A # ''VERDICT: FAIL''))"
proof -
  have 1: "list_all (\<lambda>c. \<not> is_linebreak c) ''Verdict: pass.''" "py_strip ''Verdict: pass.'' = ''Verdict: pass.''"
      "is_pass_line ''Verdict: pass.''"
    and 2: "list_all (\<lambda>c. \<not> is_linebreak c) ''VERDICT: FAIL''" "py_strip ''VERDICT: FAIL'' = ''VERDICT: FAIL''"
      "\<not> is_pass_line ''VERDICT: FAIL''"
    by code_simp+
  show ?thesis
    using verdict_is_last_line [OF 1(1), of "''VERDICT: FAIL''"] 1(2,3)
      verdict_is_last_line [OF 2(1), of "''VERDICT: PASS''"] 2(2,3) by simp
qed

end
