(* ===== verification/Team_Leases.thy ===== *)
theory Team_Leases
  imports Team_Rules Identity
begin

text \<open>
  The scheduler's token accounting: turn leases, deferred provider leases and seat caps
  (\<open>application/_scheduler_persistence.py\<close>) and the constructor's checks of the declared roster
  (\<open>application/scheduler.py\<close>).  A live session carries the identity of the Python object, since
  \<open>_is_entry_session\<close> compares with \<open>is\<close>; cleanup tasks and reservation keys are identified by
  numbers.  The trace of a reached cap is observation only and is not part of the state.
\<close>

section \<open>State\<close>

record LiveRunner =
  runner_max_budget :: "int option"
  pending_cleanup_tasks :: "nat list"

record LiveSession =
  object_id :: nat
  live_used_tokens :: int
  session_max_budget :: "int option"
  session_runner :: "LiveRunner option"

record ProviderLease =
  lease_aid :: int
  lease_grant :: int
  lease_base :: int
  lease_tasks :: "nat set"
  lease_finished :: "nat set"

record Team =
  max_budget_tokens :: int
  role_budgets :: "(string \<times> int) list"
  prebuild_team :: bool
  team_roles :: "string list"
  entry_role :: "string option"
  table :: SessionTable
  sessions :: "(int \<times> LiveSession) list"
  lead_session :: "nat option"
  turn_lease :: "(int \<times> int) list"
  lease_baseline :: "(int \<times> int) list"
  provider_leases :: "(nat \<times> ProviderLease) list"

datatype BudgetError =
    OverflowError | MissingAllowance | RoleCollision | RoleInvalid IdentityError
  | BudgetsNeedRoster | BudgetsIncomplete

section \<open>Configuration\<close>

fun normalize_roles :: "pyval list \<Rightarrow> string set \<Rightarrow> string list \<Rightarrow> BudgetError + string list" where
  "normalize_roles [] seen acc = Inr acc"
| "normalize_roles (raw # raws) seen acc =
     (case validate_role_identity raw of
        Inl e \<Rightarrow> Inl (RoleInvalid e)
      | Inr role \<Rightarrow>
          if casefold role \<in> seen then Inl RoleCollision
          else normalize_roles raws (insert (casefold role) seen) (acc @ [role]))"

definition covered :: "(string \<times> int) list \<Rightarrow> string list \<Rightarrow> string option \<Rightarrow> bool" where
  "covered budgets roles entry =
     (list_all (\<lambda>r. r \<in> keys budgets) roles \<and> (case entry of None \<Rightarrow> False | Some r \<Rightarrow> r \<in> keys budgets))"

definition make_team ::
  "int \<Rightarrow> bool \<Rightarrow> pyval list \<Rightarrow> (string \<times> int) list \<Rightarrow> string option \<Rightarrow> BudgetError + Team" where
  "make_team max_budget prebuild raw_roles budgets entry =
     bnd (normalize_roles raw_roles {} []) (\<lambda>roles.
       if budgets \<noteq> [] \<and> \<not> prebuild then Inl BudgetsNeedRoster
       else if budgets \<noteq> [] \<and> \<not> covered budgets roles entry then Inl BudgetsIncomplete
       else Inr \<lparr>max_budget_tokens = max_budget, role_budgets = budgets, prebuild_team = prebuild,
                 team_roles = roles, entry_role = entry, table = empty_table, sessions = [],
                 lead_session = None, turn_lease = [], lease_baseline = [], provider_leases = []\<rparr>)"

section \<open>Caps and usage\<close>

definition team_used_tokens :: "Team \<Rightarrow> int" where
  "team_used_tokens s = total_used_tokens (table s)"

definition role_of :: "Team \<Rightarrow> int \<Rightarrow> string option" where
  "role_of s a =
     (if a = 0 \<and> entry_role s \<noteq> None then entry_role s
      else map_option scb_agent_name (get_scb (table s) a))"

definition declared_team_size :: "Team \<Rightarrow> int" where
  "declared_team_size s = max 1 (int (length (team_roles s)))"

definition seat_cap :: "Team \<Rightarrow> BudgetError + int option" where
  "seat_cap s =
     (if \<not> prebuild_team s then Inr None
      else case per_agent_cap (max_budget_tokens s) (declared_team_size s) 1 of
             None \<Rightarrow> Inl OverflowError | Some c \<Rightarrow> Inr (Some c))"

definition agent_cap :: "Team \<Rightarrow> int \<Rightarrow> string option \<Rightarrow> BudgetError + int option" where
  "agent_cap s a role =
     (if role_budgets s \<noteq> []
      then (case (case role of Some r \<Rightarrow> Some r | None \<Rightarrow> role_of s a) of
              None \<Rightarrow> Inl MissingAllowance
            | Some r \<Rightarrow> (case map_of (role_budgets s) r of
                           None \<Rightarrow> Inl MissingAllowance | Some c \<Rightarrow> Inr (Some c)))
      else seat_cap s)"

definition session_used_tokens :: "Team \<Rightarrow> int \<Rightarrow> int" where
  "session_used_tokens s a =
     (case get_scb (table s) a of
        Some b \<Rightarrow> max 0 (used_tokens (scb_state b))
      | None \<Rightarrow> (case map_of (sessions s) a of Some v \<Rightarrow> max 0 (live_used_tokens v) | None \<Rightarrow> 0))"

definition lease_remaining :: "Team \<Rightarrow> int \<Rightarrow> int \<Rightarrow> int \<Rightarrow> int" where
  "lease_remaining s a grant baseline = max 0 (grant - max 0 (session_used_tokens s a - baseline))"

definition baseline_of :: "Team \<Rightarrow> int \<Rightarrow> int" where
  "baseline_of s a = (case map_of (lease_baseline s) a of None \<Rightarrow> 0 | Some b \<Rightarrow> b)"

text \<open>\<open>all(...)\<close> over the seats stops at the first seat with allowance left.\<close>

fun all_spent :: "Team \<Rightarrow> int list \<Rightarrow> BudgetError + bool" where
  "all_spent s [] = Inr True"
| "all_spent s (a # as) =
     bnd (agent_cap s a None) (\<lambda>cap.
       if (case cap of Some c \<Rightarrow> session_used_tokens s a \<ge> c | None \<Rightarrow> False) then all_spent s as
       else Inr False)"

definition budget_exhausted :: "Team \<Rightarrow> BudgetError + bool" where
  "budget_exhausted s =
     (if role_budgets s \<noteq> []
      then (if entries (table s) = [] then Inr False else all_spent s (map fst (entries (table s))))
      else Inr (team_used_tokens s \<ge> max_budget_tokens s))"

definition entry_start_budget :: "Team \<Rightarrow> BudgetError + int" where
  "entry_start_budget s =
     bnd (agent_cap s 0 None) (\<lambda>cap. Inr (case cap of None \<Rightarrow> max_budget_tokens s | Some c \<Rightarrow> c))"

definition entry_agent_takes_the_pool :: "Team \<Rightarrow> int \<Rightarrow> BudgetError + bool" where
  "entry_agent_takes_the_pool s a = bnd (seat_cap s) (\<lambda>cap. Inr (a = 0 \<and> cap = None))"

definition is_entry_session :: "Team \<Rightarrow> int \<Rightarrow> bool" where
  "is_entry_session s a =
     (a = 0 \<and> lead_session s \<noteq> None \<and> map_option object_id (map_of (sessions s) 0) = lead_session s)"

section \<open>Leases\<close>

definition committed :: "Team \<Rightarrow> int" where
  \<comment> \<open>spend and live reservations of a dynamic roster\<close>
  "committed s = max 0 (team_used_tokens s)
     + dict_sum (\<lambda>a g. lease_remaining s a g (baseline_of s a)) (turn_lease s)
     + dict_sum (\<lambda>_ l. lease_remaining s (lease_aid l) (lease_grant l) (lease_base l)) (provider_leases s)"

definition budget_committed :: "Team \<Rightarrow> BudgetError + int" where
  "budget_committed s =
     bnd (seat_cap s) (\<lambda>cap. Inr (case cap of Some _ \<Rightarrow> max 0 (team_used_tokens s) | None \<Rightarrow> committed s))"

definition book :: "int \<Rightarrow> int \<Rightarrow> int \<Rightarrow> Team \<Rightarrow> Team" where
  "book a grant baseline s =
     s\<lparr>turn_lease := AList.update a grant (turn_lease s),
       lease_baseline := AList.update a baseline (lease_baseline s)\<rparr>"

definition seed_entry_lease :: "Team \<Rightarrow> BudgetError + Team" where
  "seed_entry_lease s =
     bnd (seat_cap s) (\<lambda>cap. Inr (case cap of
        Some _ \<Rightarrow> s
      | None \<Rightarrow> book 0 (dynamic_roster_share (max_budget_tokens s)) (session_used_tokens s 0) s))"

definition drop_lease :: "int \<Rightarrow> Team \<Rightarrow> Team" where
  "drop_lease a s = s\<lparr>turn_lease := AList.delete a (turn_lease s),
                      lease_baseline := AList.delete a (lease_baseline s)\<rparr>"

definition current_turn_lease :: "Team \<Rightarrow> int \<Rightarrow> (int \<times> int) option" where
  "current_turn_lease s a = map_option (\<lambda>g. (g, baseline_of s a)) (map_of (turn_lease s) a)"

definition release_turn_lease :: "int \<Rightarrow> Team \<Rightarrow> Team \<times> (int \<times> int) option" where
  "release_turn_lease a s = (drop_lease a s, current_turn_lease s a)"

definition limit_runner :: "int \<Rightarrow> LiveRunner \<Rightarrow> LiveRunner" where
  "limit_runner l r = (if runner_max_budget r \<noteq> None then r\<lparr>runner_max_budget := Some l\<rparr> else r)"

definition limit_session :: "int \<Rightarrow> LiveSession \<Rightarrow> LiveSession" where
  "limit_session l v =
     (let v1 = (if session_max_budget v \<noteq> None then v\<lparr>session_max_budget := Some l\<rparr> else v)
      in v1\<lparr>session_runner := map_option (limit_runner l) (session_runner v1)\<rparr>)"

definition set_session_budget_limit :: "int \<Rightarrow> int \<Rightarrow> Team \<Rightarrow> Team" where
  "set_session_budget_limit a l s =
     (case map_of (sessions s) a of
        None \<Rightarrow> s
      | Some v \<Rightarrow> s\<lparr>sessions := AList.update a (limit_session l v) (sessions s)\<rparr>)"

definition grant_under_cap :: "Team \<Rightarrow> int \<Rightarrow> int \<Rightarrow> int" where
  "grant_under_cap s cap used =
     (if role_budgets s \<noteq> [] then max 0 (cap - used)
      else max 0 (min (cap - used) (max_budget_tokens s - team_used_tokens s)))"

definition reserve_child_budget :: "int \<Rightarrow> string option \<Rightarrow> Team \<Rightarrow> BudgetError + (Team \<times> int)" where
  "reserve_child_budget a role s =
     bnd (agent_cap s a role) (\<lambda>cap.
       case cap of
         Some c \<Rightarrow> Inr (s, c)
       | None \<Rightarrow> bnd (budget_committed s) (\<lambda>c.
           let grant = split_budget (max_budget_tokens s) c
           in Inr (book a grant (session_used_tokens s a) s, grant)))"

definition reserve_turn_lease :: "int \<Rightarrow> Team \<Rightarrow> BudgetError + (Team \<times> int)" where
  "reserve_turn_lease a s0 =
     (let s = fst (release_turn_lease a s0); baseline = session_used_tokens s a
      in bnd (agent_cap s a None) (\<lambda>cap.
         bnd (case cap of
                None \<Rightarrow> bnd (budget_committed s) (\<lambda>c. Inr (max 0 (max_budget_tokens s - c)))
              | Some c \<Rightarrow> Inr (grant_under_cap s c baseline)) (\<lambda>grant.
         let s1 = (if grant > 0 then book a grant baseline s else s)
         in Inr (set_session_budget_limit a (baseline + grant) s1, grant))))"

definition reserve_message_budget :: "int \<Rightarrow> Team \<Rightarrow> BudgetError + (Team \<times> bool)" where
  "reserve_message_budget a s =
     (case map_of (sessions s) a of
        None \<Rightarrow> Inr (s, False)
      | Some _ \<Rightarrow>
          bnd (seat_cap s) (\<lambda>cap.
            if cap \<noteq> None then bnd (reserve_turn_lease a s) (\<lambda>(s1, _). Inr (s1, True))
            else if \<not> is_entry_session s a \<and> a \<in> keys (turn_lease s) then Inr (s, True)
            else
              bnd (if is_entry_session s a then reserve_turn_lease a s
                   else bnd (reserve_child_budget a None s) (\<lambda>(s1, grant).
                     let s2 = set_session_budget_limit a (session_used_tokens s1 a + grant) s1
                     in Inr (if grant \<le> 0 then fst (release_turn_lease a s2) else s2, grant)))
                (\<lambda>(s3, grant).
                  if grant > 0 then Inr (s3, True) else bnd (budget_exhausted s3) (\<lambda>e. Inr (s3, e)))))"

definition restore_turn_lease :: "int \<Rightarrow> (int \<times> int) option \<Rightarrow> Team \<Rightarrow> BudgetError + Team" where
  "restore_turn_lease a lease s =
     (case lease of
        None \<Rightarrow> Inr s
      | Some (old_grant, old_baseline) \<Rightarrow>
          let used = session_used_tokens s a;
              old_remaining = max 0 (old_grant - max 0 (used - old_baseline))
          in bnd (budget_committed s) (\<lambda>c.
             let available = max 0 (max_budget_tokens s - c);
                 grant = min old_remaining available;
                 s1 = (if grant > 0 then book a grant used s else s)
             in Inr (set_session_budget_limit a (used + grant) s1)))"

definition cleanup_tasks :: "Team \<Rightarrow> int \<Rightarrow> nat set" where
  "cleanup_tasks s a =
     (case map_of (sessions s) a of
        None \<Rightarrow> {}
      | Some v \<Rightarrow> (case session_runner v of None \<Rightarrow> {} | Some r \<Rightarrow> set (pending_cleanup_tasks r)))"

definition defer_budget_lease_for_provider_cleanup ::
  "nat \<Rightarrow> int \<Rightarrow> Team \<Rightarrow> BudgetError + (Team \<times> bool)" where
  \<comment> \<open>the first argument is the fresh reservation object\<close>
  "defer_budget_lease_for_provider_cleanup reservation a s =
     bnd (seat_cap s) (\<lambda>cap.
       if cap \<noteq> None then Inr (s, False)
       else case (current_turn_lease s a, cleanup_tasks s a = {}) of
              (Some (grant, baseline), False) \<Rightarrow>
                let s1 = fst (release_turn_lease a s)
                in Inr (s1\<lparr>provider_leases := AList.update reservation
                       \<lparr>lease_aid = a, lease_grant = grant, lease_base = baseline,
                        lease_tasks = cleanup_tasks s a, lease_finished = {}\<rparr> (provider_leases s1)\<rparr>, True)
            | _ \<Rightarrow> Inr (s, False))"

definition finish_provider_budget_lease :: "nat \<Rightarrow> nat \<Rightarrow> Team \<Rightarrow> Team" where
  "finish_provider_budget_lease reservation task s =
     (case map_of (provider_leases s) reservation of
        None \<Rightarrow> s
      | Some l \<Rightarrow>
          let l' = l\<lparr>lease_finished := insert task (lease_finished l)\<rparr>
          in if lease_tasks l' \<subseteq> lease_finished l'
             then s\<lparr>provider_leases := AList.delete reservation (provider_leases s)\<rparr>
             else s\<lparr>provider_leases := AList.update reservation l' (provider_leases s)\<rparr>)"

section \<open>Events of a team run\<close>

text \<open>Tokens recorded by a running agent: \<open>SessionState.add_used_tokens\<close> on its control block.\<close>

definition spend :: "int \<Rightarrow> nat \<Rightarrow> Team \<Rightarrow> Team" where
  "spend a n s =
     (case get_scb (table s) a of
        None \<Rightarrow> s
      | Some b \<Rightarrow>
          (case add_used_tokens (VInt (int n)) (scb_state b) of
             Inl _ \<Rightarrow> s
           | Inr st \<Rightarrow> s\<lparr>table := (table s)\<lparr>entries := AList.update a (b\<lparr>scb_state := st\<rparr>) (entries (table s))\<rparr>\<rparr>))"

datatype lease_event =
    ReserveTurn int
  | ReserveChild int "string option"
  | ReserveMessage int
  | Release int
  | Restore int "(int \<times> int) option"
  | Defer nat int
  | CleanupDone nat nat
  | Spend int nat

definition keep :: "Team \<Rightarrow> 'e + (Team \<times> 'a) \<Rightarrow> Team" where
  "keep s r = (case r of Inl _ \<Rightarrow> s | Inr (s', _) \<Rightarrow> s')"

fun lease_step :: "Team \<Rightarrow> lease_event \<Rightarrow> Team" where
  "lease_step s (ReserveTurn a) = keep s (reserve_turn_lease a s)"
| "lease_step s (ReserveChild a r) = keep s (reserve_child_budget a r s)"
| "lease_step s (ReserveMessage a) = keep s (reserve_message_budget a s)"
| "lease_step s (Release a) = fst (release_turn_lease a s)"
| "lease_step s (Restore a l) = (case restore_turn_lease a l s of Inl _ \<Rightarrow> s | Inr s' \<Rightarrow> s')"
| "lease_step s (Defer k a) =
     (if k \<in> keys (provider_leases s) then s else keep s (defer_budget_lease_for_provider_cleanup k a s))"
| "lease_step s (CleanupDone k t) = finish_provider_budget_lease k t s"
| "lease_step s (Spend a n) = spend a n s"

text \<open>How far a spend goes beyond what the agent's own lease still covers.\<close>

definition own_remaining :: "Team \<Rightarrow> int \<Rightarrow> int" where
  "own_remaining s a = (case map_of (turn_lease s) a of
     None \<Rightarrow> 0 | Some g \<Rightarrow> lease_remaining s a g (baseline_of s a))"

fun overshoot :: "Team \<Rightarrow> lease_event \<Rightarrow> int" where
  "overshoot s (Spend a n) = max 0 (int n - own_remaining s a)"
| "overshoot s _ = 0"

fun run_overshoot :: "Team \<Rightarrow> lease_event list \<Rightarrow> int" where
  "run_overshoot s [] = 0"
| "run_overshoot s (e # es) = overshoot s e + run_overshoot (lease_step s e) es"

section \<open>Invariant of the lease tables\<close>

definition leases_ok :: "Team \<Rightarrow> bool" where
  "leases_ok s = (dict_ok (turn_lease s) \<and> dict_ok (provider_leases s) \<and> dict_ok (entries (table s)) \<and>
     list_all (\<lambda>(_, b). 0 \<le> used_tokens (scb_state b)) (entries (table s)) \<and>
     list_all (\<lambda>(a, _). baseline_of s a \<le> session_used_tokens s a) (turn_lease s))"

definition dynamic :: "Team \<Rightarrow> bool" where
  "dynamic s = (\<not> prebuild_team s \<and> role_budgets s = [])"

lemma dynamic_caps [simp]: "dynamic s \<Longrightarrow> seat_cap s = Inr None" "dynamic s \<Longrightarrow> agent_cap s a r = Inr None"
  by (simp_all add: dynamic_def seat_cap_def agent_cap_def)

lemma dynamic_committed [simp]: "dynamic s \<Longrightarrow> budget_committed s = Inr (committed s)"
  by (simp add: budget_committed_def)

text \<open>Booking, dropping and limiting a session touch only the lease tables or the session limits.\<close>

lemma book_frame [simp]:
  "session_used_tokens (book a g b s) = session_used_tokens s" "team_used_tokens (book a g b s) = team_used_tokens s"
  "provider_leases (book a g b s) = provider_leases s" "dynamic (book a g b s) = dynamic s"
  "max_budget_tokens (book a g b s) = max_budget_tokens s" "sessions (book a g b s) = sessions s"
  "table (book a g b s) = table s"
  "lease_remaining (book a g b s) = lease_remaining s"
  "baseline_of (book a g b s) c = (if c = a then b else baseline_of s c)"
  "turn_lease (book a g b s) = AList.update a g (turn_lease s)"
  by (simp_all add: book_def session_used_tokens_def team_used_tokens_def dynamic_def fun_eq_iff
      lease_remaining_def baseline_of_def update_conv split: option.split)

lemma drop_frame [simp]:
  "session_used_tokens (drop_lease a s) = session_used_tokens s" "team_used_tokens (drop_lease a s) = team_used_tokens s"
  "provider_leases (drop_lease a s) = provider_leases s" "dynamic (drop_lease a s) = dynamic s"
  "max_budget_tokens (drop_lease a s) = max_budget_tokens s" "sessions (drop_lease a s) = sessions s"
  "table (drop_lease a s) = table s"
  "lease_remaining (drop_lease a s) = lease_remaining s"
  "baseline_of (drop_lease a s) c = (if c = a then 0 else baseline_of s c)"
  "turn_lease (drop_lease a s) = AList.delete a (turn_lease s)"
  by (simp_all add: drop_lease_def session_used_tokens_def team_used_tokens_def dynamic_def fun_eq_iff
      lease_remaining_def baseline_of_def delete_conv split: option.split)

lemma drop_config [simp]:
  "role_budgets (drop_lease a s) = role_budgets s" "prebuild_team (drop_lease a s) = prebuild_team s"
  "team_roles (drop_lease a s) = team_roles s" "entry_role (drop_lease a s) = entry_role s"
  by (simp_all add: drop_lease_def)

lemma drop_caps [simp]: "agent_cap (drop_lease a s) c r = agent_cap s c r"
  unfolding agent_cap_def seat_cap_def role_of_def declared_team_size_def drop_config drop_frame ..

lemma limit_live [simp]: "live_used_tokens (limit_session l v) = live_used_tokens v"
  by (simp add: limit_session_def Let_def)

lemma limit_frame [simp]:
  "session_used_tokens (set_session_budget_limit a l s) = session_used_tokens s"
  "team_used_tokens (set_session_budget_limit a l s) = team_used_tokens s"
  "provider_leases (set_session_budget_limit a l s) = provider_leases s"
  "turn_lease (set_session_budget_limit a l s) = turn_lease s"
  "lease_baseline (set_session_budget_limit a l s) = lease_baseline s"
  "dynamic (set_session_budget_limit a l s) = dynamic s"
  "max_budget_tokens (set_session_budget_limit a l s) = max_budget_tokens s"
  "table (set_session_budget_limit a l s) = table s"
  by (auto simp: set_session_budget_limit_def session_used_tokens_def team_used_tokens_def dynamic_def
      fun_eq_iff update_conv split: option.splits)

lemma limit_committed [simp]: "committed (set_session_budget_limit a l s) = committed s"
  by (simp add: committed_def lease_remaining_def baseline_of_def)

lemma limit_ok [simp]: "leases_ok (set_session_budget_limit a l s) = leases_ok s"
  by (simp add: leases_ok_def baseline_of_def)

lemma book_ok [inv_rules]:
  "leases_ok s \<Longrightarrow> b = session_used_tokens s a \<Longrightarrow> leases_ok (book a g b s)"
  by (auto simp: leases_ok_def distinct_update list_all_iff set_update_dict)

lemma drop_ok [inv_rules]: "leases_ok s \<Longrightarrow> leases_ok (drop_lease a s)"
proof -
  assume ok: "leases_ok s"
  have base: "baseline_of s c \<le> session_used_tokens s c" if "(c, g) \<in> set (turn_lease s)" for c g
    using ok that by (auto simp: leases_ok_def list_all_iff)
  have "list_all (\<lambda>(c, _). baseline_of (drop_lease a s) c \<le> session_used_tokens s c) (AList.delete a (turn_lease s))"
    unfolding list_all_iff AList.delete_eq using base by auto
  then show ?thesis using ok by (simp add: leases_ok_def distinct_delete)
qed

lemma remaining_nonneg [simp]: "0 \<le> lease_remaining s a g b"
  by (simp add: lease_remaining_def)

lemma own_remaining_nonneg: "0 \<le> own_remaining s a"
  by (simp add: own_remaining_def split: option.split)

lemma committed_nonneg: "0 \<le> committed s"
  unfolding committed_def by (intro add_nonneg_nonneg dict_sum_nonneg) simp_all

lemma committed_drop: "leases_ok s \<Longrightarrow> committed (drop_lease a s) = committed s - own_remaining s a"
proof -
  assume ok: "leases_ok s"
  have "dict_sum (\<lambda>c g. lease_remaining s c g (baseline_of (drop_lease a s) c)) (AList.delete a (turn_lease s))
      = dict_sum (\<lambda>c g. lease_remaining s c g (baseline_of s c)) (AList.delete a (turn_lease s))"
    by (rule dict_sum_cong) (auto simp: AList.delete_eq)
  then show ?thesis
    using ok by (simp add: committed_def leases_ok_def own_remaining_def dict_sum_delete split: option.split)
qed

lemma committed_book:
  "leases_ok s \<Longrightarrow> committed (book a g b s) = committed s - own_remaining s a + lease_remaining s a g b"
proof -
  assume ok: "leases_ok s"
  then have d: "dict_ok (turn_lease s)" by (simp add: leases_ok_def)
  have "dict_sum (\<lambda>c x. lease_remaining s c x (if c = a then b else baseline_of s c)) (AList.update a g (turn_lease s))
      = dict_sum (\<lambda>c x. lease_remaining s c x (baseline_of s c)) (AList.delete a (turn_lease s)) + lease_remaining s a g b"
    by (subst dict_sum_update_at [OF d, where f = "\<lambda>c x. lease_remaining s c x (baseline_of s c)"]) simp_all
  then show ?thesis
    using d by (simp add: committed_def own_remaining_def dict_sum_delete split: option.split)
qed

lemma fresh_remaining [simp]: "lease_remaining s a g (session_used_tokens s a) = max 0 g"
  by (simp add: lease_remaining_def)

lemma own_after_drop [simp]: "own_remaining (drop_lease a s) a = 0"
  by (simp add: own_remaining_def delete_conv)

section \<open>Every event keeps the pool\<close>

text \<open>\<open>keeps s s' k\<close>: from \<open>s\<close> to \<open>s'\<close> the commitment stays below the pool, up to an excess \<open>k\<close>.\<close>

definition keeps :: "Team \<Rightarrow> Team \<Rightarrow> int \<Rightarrow> bool" where
  "keeps s s' k = (leases_ok s' \<and> dynamic s' \<and> max_budget_tokens s' = max_budget_tokens s \<and>
     committed s' \<le> max (committed s) (max_budget_tokens s) + k)"

lemma keeps_refl: "leases_ok s \<Longrightarrow> dynamic s \<Longrightarrow> 0 \<le> k \<Longrightarrow> keeps s s k"
  by (simp add: keeps_def)

lemma keeps_trans: "keeps s s1 j \<Longrightarrow> 0 \<le> j \<Longrightarrow> keeps s1 s2 k \<Longrightarrow> keeps s s2 (j + k)"
  by (auto simp: keeps_def)

lemma drop_keeps: "leases_ok s \<Longrightarrow> dynamic s \<Longrightarrow> keeps s (drop_lease a s) 0"
  using own_remaining_nonneg [of s a] by (simp add: keeps_def drop_ok committed_drop)

lemma book_keeps:
  assumes "leases_ok s" and "dynamic s" and "g \<le> max 0 (max_budget_tokens s - committed s)"
  shows "keeps s (book a g (session_used_tokens s a) s) 0"
  using assms own_remaining_nonneg [of s a] by (simp add: keeps_def book_ok committed_book)

lemma limit_keeps [simp]: "keeps s (set_session_budget_limit a l s') k = keeps s s' k"
  by (simp add: keeps_def)

lemma reserve_turn_keeps:
  assumes "leases_ok s" and "dynamic s"
  shows "\<exists>s' g. reserve_turn_lease a s = Inr (s', g) \<and> keeps s s' 0"
proof -
  let ?s = "drop_lease a s"
  define g where "g = max 0 (max_budget_tokens s - committed ?s)"
  have d: "keeps s ?s 0" by (rule drop_keeps [OF assms])
  have "keeps ?s (book a g (session_used_tokens ?s a) ?s) 0"
    by (rule book_keeps) (use assms in \<open>simp_all add: drop_ok g_def\<close>)
  then have "keeps s (if g > 0 then book a g (session_used_tokens ?s a) ?s else ?s) 0"
    using keeps_trans [OF d] d by simp
  moreover have "max 0 (max_budget_tokens ?s - committed ?s) = g" by (simp add: g_def)
  ultimately show ?thesis using assms
    by (simp add: reserve_turn_lease_def release_turn_lease_def Let_def del: drop_frame(5))
qed

lemma reserve_child_keeps:
  assumes "leases_ok s" and "dynamic s"
  shows "\<exists>s' g. reserve_child_budget a r s = Inr (s', g) \<and> keeps s s' 0"
  using assms book_keeps [OF assms split_budget_le, of a]
  by (simp add: reserve_child_budget_def Let_def)

lemma reserve_message_keeps:
  assumes "leases_ok s" and "dynamic s"
  shows "\<exists>s' ok. reserve_message_budget a s = Inr (s', ok) \<and> keeps s s' 0"
proof -
  have settle: "\<exists>s' ok. (if g > 0 then Inr (t, True) else bnd (budget_exhausted t) (\<lambda>e. Inr (t, e))) = Inr (s', ok)
      \<and> keeps s s' 0" if "keeps s t 0" for t and g :: int
  proof -
    have "role_budgets t = []" using that by (simp add: keeps_def dynamic_def)
    then show ?thesis using that by (cases "g > 0") (auto simp: budget_exhausted_def)
  qed
  obtain s1 g1 where turn: "reserve_turn_lease a s = Inr (s1, g1)" "keeps s s1 0"
    using reserve_turn_keeps [OF assms] by blast
  obtain s2 g2 where child: "reserve_child_budget a None s = Inr (s2, g2)" "keeps s s2 0"
    using reserve_child_keeps [OF assms] by blast
  define s3 where "s3 = set_session_budget_limit a (session_used_tokens s2 a + g2) s2"
  have "keeps s s3 0" using child by (simp add: s3_def)
  moreover from this have "keeps s (drop_lease a s3) 0"
    using keeps_trans [of s s3 0 "drop_lease a s3" 0] drop_keeps [of s3 a] by (simp add: keeps_def)
  ultimately show ?thesis
    using assms turn child settle [of s1 g1] settle [of s3 g2] settle [of "drop_lease a s3" g2] keeps_refl [OF assms, of 0]
    by (auto simp: reserve_message_budget_def release_turn_lease_def s3_def [symmetric] Let_def split: option.split)
qed

lemma restore_keeps:
  assumes "leases_ok s" and "dynamic s"
  shows "\<exists>s'. restore_turn_lease a l s = Inr s' \<and> keeps s s' 0"
proof (cases l)
  case None
  then show ?thesis using keeps_refl [OF assms, of 0] by (simp add: restore_turn_lease_def)
next
  case (Some p)
  obtain og ob where p: "p = (og, ob)" by (cases p)
  define g where "g = min (max 0 (og - max 0 (session_used_tokens s a - ob))) (max 0 (max_budget_tokens s - committed s))"
  have "keeps s (book a g (session_used_tokens s a) s) 0"
    by (rule book_keeps [OF assms]) (simp add: g_def)
  then show ?thesis using Some p assms keeps_refl [OF assms, of 0]
    by (simp add: restore_turn_lease_def Let_def g_def)
qed

text \<open>The table of deferred leases enters only the sum over it.\<close>

lemma provider_frame:
  "session_used_tokens (s\<lparr>provider_leases := p\<rparr>) = session_used_tokens s"
  "lease_remaining (s\<lparr>provider_leases := p\<rparr>) = lease_remaining s"
  "baseline_of (s\<lparr>provider_leases := p\<rparr>) = baseline_of s"
  "team_used_tokens (s\<lparr>provider_leases := p\<rparr>) = team_used_tokens s"
  "dynamic (s\<lparr>provider_leases := p\<rparr>) = dynamic s"
  by (auto simp: session_used_tokens_def team_used_tokens_def lease_remaining_def baseline_of_def
      dynamic_def fun_eq_iff split: option.split)

lemma defer_keeps:
  assumes ok: "leases_ok s" and dyn: "dynamic s" and fresh: "k \<notin> keys (provider_leases s)"
  shows "\<exists>s' b. defer_budget_lease_for_provider_cleanup k a s = Inr (s', b) \<and> keeps s s' 0"
proof (cases "current_turn_lease s a = None \<or> cleanup_tasks s a = {}")
  case True
  then have "defer_budget_lease_for_provider_cleanup k a s = Inr (s, False)"
    using dyn by (auto simp: defer_budget_lease_for_provider_cleanup_def split: option.split)
  then show ?thesis using keeps_refl [OF ok dyn, of 0] by auto
next
  case False
  then obtain g where g: "map_of (turn_lease s) a = Some g" and lease: "current_turn_lease s a = Some (g, baseline_of s a)"
    by (auto simp: current_turn_lease_def)
  let ?l = "\<lparr>lease_aid = a, lease_grant = g, lease_base = baseline_of s a,
    lease_tasks = cleanup_tasks s a, lease_finished = {}\<rparr>"
  let ?s' = "(drop_lease a s)\<lparr>provider_leases := AList.update k ?l (provider_leases (drop_lease a s))\<rparr>"
  have "committed ?s' = committed (drop_lease a s) + lease_remaining s a g (baseline_of s a)"
    using fresh by (simp add: committed_def provider_frame update_new)
  then have "committed ?s' = committed s" using ok g by (simp add: committed_drop own_remaining_def)
  moreover have "leases_ok ?s'"
    using drop_ok [OF ok, of a] by (simp add: leases_ok_def provider_frame distinct_update)
  moreover have "dynamic ?s'" using dyn by (simp add: provider_frame)
  moreover have "defer_budget_lease_for_provider_cleanup k a s = Inr (?s', True)"
    using dyn lease False by (simp add: defer_budget_lease_for_provider_cleanup_def release_turn_lease_def Let_def)
  ultimately show ?thesis by (auto simp: keeps_def)
qed

lemma cleanup_keeps:
  assumes ok: "leases_ok s" and dyn: "dynamic s"
  shows "keeps s (finish_provider_budget_lease k t s) 0"
proof (cases "map_of (provider_leases s) k")
  case None
  then show ?thesis using keeps_refl [OF ok dyn, of 0] by (simp add: finish_provider_budget_lease_def)
next
  case (Some l)
  have d: "dict_ok (provider_leases s)" using ok by (simp add: leases_ok_def)
  have del: "keeps s (s\<lparr>provider_leases := AList.delete k (provider_leases s)\<rparr>) 0"
    using ok dyn d Some remaining_nonneg [of s "lease_aid l" "lease_grant l" "lease_base l"]
    unfolding keeps_def committed_def leases_ok_def
    by (auto simp: provider_frame dict_sum_delete distinct_delete le_max_iff_disj simp del: remaining_nonneg)
  have upd: "keeps s (s\<lparr>provider_leases := AList.update k (l\<lparr>lease_finished := f\<rparr>) (provider_leases s)\<rparr>) 0" for f
    using ok dyn d Some unfolding keeps_def committed_def leases_ok_def
    by (simp add: provider_frame dict_sum_update distinct_update)
  show ?thesis using del upd Some by (simp add: finish_provider_budget_lease_def Let_def)
qed

lemma used_nonneg:
  assumes "leases_ok s" and "get_scb (table s) a = Some b"
  shows "0 \<le> used_tokens (scb_state b)"
proof -
  have "(a, b) \<in> set (entries (table s))" using assms(2) unfolding get_scb_def by (rule map_of_SomeD)
  moreover have "\<forall>(_, b) \<in> set (entries (table s)). 0 \<le> used_tokens (scb_state b)"
    using assms(1) by (simp add: leases_ok_def list_all_iff)
  ultimately show ?thesis by blast
qed

lemma spend_used:
  assumes "leases_ok s" and "get_scb (table s) a = Some b"
  shows "session_used_tokens (spend a n s) c = session_used_tokens s c + (if c = a then int n else 0)"
    and "team_used_tokens (spend a n s) = team_used_tokens s + int n"
    and "turn_lease (spend a n s) = turn_lease s" "provider_leases (spend a n s) = provider_leases s"
    and "baseline_of (spend a n s) = baseline_of s" "max_budget_tokens (spend a n s) = max_budget_tokens s"
    and "dynamic (spend a n s) = dynamic s"
    and "entries (table (spend a n s)) =
      AList.update a (b\<lparr>scb_state := (scb_state b)\<lparr>used_tokens := used_tokens (scb_state b) + int n\<rparr>\<rparr>) (entries (table s))"
proof -
  have d: "dict_ok (entries (table s))" using assms(1) by (simp add: leases_ok_def)
  have pos: "0 \<le> used_tokens (scb_state b)" using used_nonneg assms .
  have m: "map_of (entries (table s)) a = Some b" using assms(2) by (simp add: get_scb_def)
  define b' where "b' = b\<lparr>scb_state := (scb_state b)\<lparr>used_tokens := used_tokens (scb_state b) + int n\<rparr>\<rparr>"
  have sp: "spend a n s = s\<lparr>table := (table s)\<lparr>entries := AList.update a b' (entries (table s))\<rparr>\<rparr>"
    using assms(2) by (simp add: spend_def add_used_tokens_def b'_def)
  have u: "used_tokens (scb_state b') = used_tokens (scb_state b) + int n" by (simp add: b'_def)
  show "entries (table (spend a n s)) =
      AList.update a (b\<lparr>scb_state := (scb_state b)\<lparr>used_tokens := used_tokens (scb_state b) + int n\<rparr>\<rparr>) (entries (table s))"
    by (simp add: sp b'_def)
  show "session_used_tokens (spend a n s) c = session_used_tokens s c + (if c = a then int n else 0)"
    using pos m u by (cases "c = a") (simp_all add: sp session_used_tokens_def get_scb_def update_conv split: option.split)
  show "team_used_tokens (spend a n s) = team_used_tokens s + int n"
    using m d u by (simp add: sp team_used_tokens_def total_used_tokens_def dict_sum_update)
  show "turn_lease (spend a n s) = turn_lease s" "provider_leases (spend a n s) = provider_leases s"
      "baseline_of (spend a n s) = baseline_of s" "max_budget_tokens (spend a n s) = max_budget_tokens s"
      "dynamic (spend a n s) = dynamic s"
    by (simp_all add: sp baseline_of_def dynamic_def fun_eq_iff)
qed

lemma spend_remaining:
  assumes "leases_ok s" and "get_scb (table s) a = Some b"
  shows "lease_remaining (spend a n s) c g bl \<le> lease_remaining s c g bl"
    and "bl \<le> session_used_tokens s a \<Longrightarrow>
      lease_remaining (spend a n s) a g bl = max 0 (lease_remaining s a g bl - int n)"
  using spend_used(1) [OF assms] by (auto simp: lease_remaining_def)

lemma spend_ok:
  assumes ok: "leases_ok s" and b: "get_scb (table s) a = Some b"
  shows "leases_ok (spend a n s)"
proof -
  note used = spend_used [OF ok b, of n]
  have d: "dict_ok (entries (table s))" using ok by (simp add: leases_ok_def)
  have "0 \<le> used_tokens (scb_state b)" using used_nonneg ok b .
  then have "list_all (\<lambda>(_, b). 0 \<le> used_tokens (scb_state b)) (entries (table (spend a n s)))"
    using ok d by (auto simp: used(8) list_all_iff set_update_dict leases_ok_def)
  moreover have "list_all (\<lambda>(c, _). baseline_of s c \<le> session_used_tokens (spend a n s) c) (turn_lease s)"
    using ok by (fastforce simp: used(1) leases_ok_def list_all_iff)
  ultimately show ?thesis using ok by (simp add: leases_ok_def used distinct_update)
qed

lemma spend_keeps:
  assumes ok: "leases_ok s" and dyn: "dynamic s"
  shows "keeps s (spend a n s) (max 0 (int n - own_remaining s a))"
proof (cases "get_scb (table s) a")
  case None
  then show ?thesis using keeps_refl [OF ok dyn] by (simp add: spend_def)
next
  case (Some b)
  note used = spend_used [OF ok Some, of n] and rem = spend_remaining(1) [OF ok Some, of n]
    and own = spend_remaining(2) [OF ok Some, where n = n]
  let ?s = "spend a n s"
  have team: "0 \<le> team_used_tokens s"
    using ok unfolding team_used_tokens_def total_used_tokens_def leases_ok_def dict_sum_def
    by (auto simp: list_all_iff intro!: sum_list_nonneg)
  have prov: "dict_sum (\<lambda>_ l. lease_remaining ?s (lease_aid l) (lease_grant l) (lease_base l)) (provider_leases s)
      \<le> dict_sum (\<lambda>_ l. lease_remaining s (lease_aid l) (lease_grant l) (lease_base l)) (provider_leases s)"
    by (rule dict_sum_mono) (rule rem)
  have turn: "dict_sum (\<lambda>c g. lease_remaining ?s c g (baseline_of s c)) (turn_lease s)
      \<le> dict_sum (\<lambda>c g. lease_remaining s c g (baseline_of s c)) (turn_lease s)
        - own_remaining s a + max 0 (own_remaining s a - int n)"
  proof (cases "map_of (turn_lease s) a")
    case None
    then show ?thesis by (simp add: own_remaining_def dict_sum_mono rem)
  next
    case (Some g)
    have d: "dict_ok (turn_lease s)" using ok by (simp add: leases_ok_def)
    have "baseline_of s a \<le> session_used_tokens s a"
      using ok map_of_SomeD [OF Some] by (auto simp: leases_ok_def list_all_iff)
    then show ?thesis
      using dict_sum_single [OF d Some, of "\<lambda>c g. lease_remaining ?s c g (baseline_of s c)"
          "\<lambda>c g. lease_remaining s c g (baseline_of s c)"] rem own Some
      by (simp add: own_remaining_def)
  qed
  have "committed ?s \<le> committed s + max 0 (int n - own_remaining s a)"
    using team turn prov by (simp add: committed_def used)
  then show ?thesis using spend_ok [OF ok Some, of n] dyn by (simp add: keeps_def used)
qed

lemma lease_step_keeps:
  assumes ok: "leases_ok s" and dyn: "dynamic s"
  shows "keeps s (lease_step s e) (overshoot s e)"
proof (cases e)
  case (ReserveTurn a)
  then show ?thesis using reserve_turn_keeps [OF ok dyn, of a] by (auto simp: keep_def)
next
  case (ReserveChild a r)
  then show ?thesis using reserve_child_keeps [OF ok dyn, of a r] by (auto simp: keep_def)
next
  case (ReserveMessage a)
  then show ?thesis using reserve_message_keeps [OF ok dyn, of a] by (auto simp: keep_def)
next
  case (Release a)
  then show ?thesis using drop_keeps [OF ok dyn, of a] by (simp add: release_turn_lease_def)
next
  case (Restore a l)
  then show ?thesis using restore_keeps [OF ok dyn, of a l] by auto
next
  case (Defer k a)
  then show ?thesis using defer_keeps [OF ok dyn, of k a] keeps_refl [OF ok dyn, of 0] by (auto simp: keep_def)
next
  case (CleanupDone k t)
  then show ?thesis using cleanup_keeps [OF ok dyn, of k t] by simp
next
  case (Spend a n)
  then show ?thesis using spend_keeps [OF ok dyn, of a n] by simp
qed

lemma overshoot_nonneg: "0 \<le> overshoot s e"
  by (cases e) simp_all

section \<open>Properties\<close>

text \<open>
  C26. A dynamic team's pool is never oversubscribed: over any run of turn, child and message
  reservations, releases, restorations, deferred provider leases and their settlements, tokens
  spent plus tokens still reserved stay within the pool (or the commitment the run started from),
  up to what agents actually spent beyond their own leases.
\<close>

theorem pool_not_oversubscribed:
  assumes "leases_ok s" and "dynamic s"
  shows "committed (foldl lease_step s es) \<le> max (committed s) (max_budget_tokens s) + run_overshoot s es"
proof -
  have "keeps s (foldl lease_step s es) (run_overshoot s es)"
    using assms
  proof (induction es arbitrary: s)
    case Nil
    then show ?case by (simp add: keeps_refl)
  next
    case (Cons e es)
    have step: "keeps s (lease_step s e) (overshoot s e)" using lease_step_keeps Cons.prems .
    then have "leases_ok (lease_step s e)" "dynamic (lease_step s e)" by (simp_all add: keeps_def)
    from keeps_trans [OF step overshoot_nonneg Cons.IH [OF this]] show ?case by simp
  qed
  then show ?thesis by (simp add: keeps_def)
qed

definition demo_team :: Team where
  "demo_team = \<lparr>max_budget_tokens = 100000, role_budgets = [], prebuild_team = False, team_roles = [''lead''],
     entry_role = None, table = \<lparr>entries = [(1, \<lparr>scb_aid = 1, parent_aid = Some 0, scb_agent_name = ''coder'',
       scb_state = new_session ''t'' [], scb_result = [], scb_answer = None\<rparr>)], next_aid = 2\<rparr>,
     sessions = [], lead_session = None, turn_lease = [], lease_baseline = [], provider_leases = []\<rparr>"

theorem pool_not_oversubscribed_witness:
  "committed (foldl lease_step demo_team [ReserveChild 1 None, Spend 1 700, ReserveTurn 0]) \<le> 100000"
proof -
  have ok: "leases_ok demo_team" "dynamic demo_team"
    by (simp_all add: demo_team_def leases_ok_def dynamic_def new_session_def align_timestamps_def)
  have "own_remaining (lease_step demo_team (ReserveChild 1 None)) 1 = 25000"
    using ok(2)
    by (simp add: keep_def reserve_child_budget_def own_remaining_def update_conv split_budget_def
        dynamic_roster_share_def committed_def demo_team_def team_used_tokens_def total_used_tokens_def
        new_session_def align_timestamps_def Let_def)
  moreover have "committed demo_team = 0"
    by (simp add: committed_def demo_team_def team_used_tokens_def total_used_tokens_def
        new_session_def align_timestamps_def)
  ultimately show ?thesis
    using pool_not_oversubscribed [OF ok, of "[ReserveChild 1 None, Spend 1 700, ReserveTurn 0]"]
    by (simp add: demo_team_def [THEN arg_cong, of max_budget_tokens])
qed

text \<open>
  A seat never gets more than its own allowance: in a team with declared seats or per-role
  allowances, a turn lease raises the session's limit to its spend plus the grant, never above the
  larger of its cap and what it already spent; without per-role allowances the grant also fits the
  unspent pool.
\<close>

theorem seat_grant_within_cap:
  assumes "agent_cap s a None = Inr (Some cap)" and "reserve_turn_lease a s = Inr (s', grant)"
    and "map_of (sessions s) a = Some v" and "session_max_budget v \<noteq> None"
  shows "0 \<le> grant \<and> session_used_tokens s a + grant \<le> max cap (session_used_tokens s a)
    \<and> (role_budgets s = [] \<longrightarrow> grant \<le> max 0 (max_budget_tokens s - team_used_tokens s))
    \<and> map_option session_max_budget (map_of (sessions s') a) = Some (Some (session_used_tokens s a + grant))"
proof -
  let ?s = "drop_lease a s"
  have cap: "agent_cap ?s a None = Inr (Some cap)"
    using assms(1) by simp
  have g: "grant = grant_under_cap ?s cap (session_used_tokens s a)"
    and s': "s' = set_session_budget_limit a (session_used_tokens s a + grant)
      (if grant > 0 then book a grant (session_used_tokens s a) ?s else ?s)"
    using assms(2) cap by (auto simp: reserve_turn_lease_def release_turn_lease_def Let_def)
  have "map_of (sessions s') a = Some (limit_session (session_used_tokens s a + grant) v)"
    using assms(3) by (auto simp: s' set_session_budget_limit_def update_conv)
  moreover have "session_max_budget (limit_session l v) = Some l" for l
    using assms(4) by (simp add: limit_session_def Let_def)
  ultimately show ?thesis by (auto simp: g grant_under_cap_def)
qed

definition demo_seats :: Team where
  "demo_seats = demo_team\<lparr>role_budgets := [(''coder'', 900)], prebuild_team := True,
     sessions := [(1, \<lparr>object_id = 7, live_used_tokens = 0, session_max_budget = Some 0, session_runner = None\<rparr>)]\<rparr>"

theorem seat_grant_within_cap_witness:
  "\<exists>s'. reserve_turn_lease 1 demo_seats = Inr (s', 900) \<and>
     map_option session_max_budget (map_of (sessions s') 1) = Some (Some 900)"
proof -
  have cap: "agent_cap demo_seats 1 None = Inr (Some 900)"
    by (simp add: agent_cap_def role_of_def get_scb_def demo_seats_def demo_team_def)
  have used: "session_used_tokens demo_seats 1 = 0"
    by (simp add: session_used_tokens_def get_scb_def demo_seats_def demo_team_def new_session_def align_timestamps_def)
  have "role_budgets demo_seats \<noteq> []" by (simp add: demo_seats_def)
  then have "\<exists>s'. reserve_turn_lease 1 demo_seats = Inr (s', 900)"
    using cap used
    by (simp add: reserve_turn_lease_def release_turn_lease_def grant_under_cap_def Let_def)
  then obtain s' where r: "reserve_turn_lease 1 demo_seats = Inr (s', 900)" by blast
  have v: "map_of (sessions demo_seats) 1 =
      Some \<lparr>object_id = 7, live_used_tokens = 0, session_max_budget = Some 0, session_runner = None\<rparr>"
    by (simp add: demo_seats_def)
  show ?thesis using seat_grant_within_cap [OF cap r v] r used by simp
qed

end
