(* ===== verification/Spawn_Dedup.thy ===== *)
theory Spawn_Dedup
  imports Identity
begin

text \<open>
  Single-flight delegation (\<open>application/scheduler_dedup.py\<close>): the identity of delegated work and
  the two maps that reserve it.  SHA-256 is an argument; what the reservation relies on is that
  it does not collide.
\<close>

section \<open>Identity of delegated work\<close>

definition utf8_char :: "char \<Rightarrow> nat list" where
  "utf8_char c = (let n = code c in if n < 128 then [n] else [192 + n div 64, 128 + n mod 64])"

definition utf8 :: "string \<Rightarrow> nat list" where
  "utf8 s = concat (map utf8_char s)"

text \<open>\<open>n.to_bytes(k, "big")\<close>.\<close>

fun to_bytes :: "nat \<Rightarrow> nat \<Rightarrow> nat list" where
  "to_bytes 0 n = []"
| "to_bytes (Suc k) n = to_bytes k (n div 256) @ [n mod 256]"

definition frame :: "string \<Rightarrow> nat list" where
  "frame v = to_bytes 8 (length (utf8 v)) @ utf8 v"

definition task_key ::
  "(nat list \<Rightarrow> string) \<Rightarrow> int \<Rightarrow> string \<Rightarrow> string \<Rightarrow> string \<Rightarrow> IdentityError + string" where
  "task_key sha256 parent role task context =
     (case role_collision_key (VStr role) of
        Inl e \<Rightarrow> Inl e
      | Inr rk \<Rightarrow> Inr (sha256 (concat (map frame
            [int_str parent, rk, normalize_newlines task, normalize_newlines context]))))"

section \<open>Reservations\<close>

record Inflight =
  inflight :: "(string \<times> int) list"
  inflight_key_of :: "(int \<times> string) list"

datatype SpawnError = DuplicateSpawnError int | BadRole IdentityError

definition inflight_spawn ::
  "(nat list \<Rightarrow> string) \<Rightarrow> string \<Rightarrow> string \<Rightarrow> int \<Rightarrow> string \<Rightarrow> Inflight \<Rightarrow> SpawnError + int option" where
  "inflight_spawn sha256 role task parent context s =
     (case task_key sha256 parent role task context of
        Inl e \<Rightarrow> Inl (BadRole e)
      | Inr k \<Rightarrow> Inr (map_of (inflight s) k))"

definition reserve_inflight ::
  "(nat list \<Rightarrow> string) \<Rightarrow> int \<Rightarrow> int \<Rightarrow> string \<Rightarrow> string \<Rightarrow> string \<Rightarrow> Inflight \<Rightarrow> SpawnError + Inflight" where
  "reserve_inflight sha256 a parent role task context s =
     (case task_key sha256 parent role task context of
        Inl e \<Rightarrow> Inl (BadRole e)
      | Inr k \<Rightarrow>
          (case map_of (inflight s) k of
             Some existing \<Rightarrow> Inl (DuplicateSpawnError existing)
           | None \<Rightarrow> Inr (s\<lparr>inflight := AList.update k a (inflight s),
                            inflight_key_of := AList.update a k (inflight_key_of s)\<rparr>)))"

definition clear_inflight :: "int \<Rightarrow> Inflight \<Rightarrow> Inflight" where
  "clear_inflight a s =
     (case map_of (inflight_key_of s) a of
        None \<Rightarrow> s
      | Some k \<Rightarrow>
          let s1 = s\<lparr>inflight_key_of := AList.delete a (inflight_key_of s)\<rparr>
          in if map_of (inflight s) k = Some a then s1\<lparr>inflight := AList.delete k (inflight s)\<rparr> else s1)"

section \<open>The key separates delegations\<close>

lemma code_lt [simp]: "code c < 256"
  by (simp add: code_def)

lemma code_eq_iff: "code c = code d \<longleftrightarrow> c = d"
  by (simp add: code_def)

text \<open>A byte below 128 starts a one-byte character, any other lead byte a two-byte one.\<close>

lemma utf8_inj: "utf8 s = utf8 t \<Longrightarrow> s = t"
proof (induction s arbitrary: t)
  case Nil
  then show ?case by (cases t) (auto simp: utf8_def utf8_char_def Let_def split: if_splits)
next
  case (Cons c s)
  obtain d u where t: "t = d # u"
    using Cons.prems by (cases t) (auto simp: utf8_def utf8_char_def Let_def split: if_splits)
  have e: "utf8_char c @ utf8 s = utf8_char d @ utf8 u" using Cons.prems by (simp add: t utf8_def)
  have "code c = code d \<and> utf8 s = utf8 u"
  proof (cases "code c < 128"; cases "code d < 128")
    assume "\<not> code c < 128" "\<not> code d < 128"
    then have "code c div 64 = code d div 64 \<and> code c mod 64 = code d mod 64 \<and> utf8 s = utf8 u"
      using e by (simp add: utf8_char_def Let_def)
    then show ?thesis by (metis div_mult_mod_eq)
  qed (use e in \<open>auto simp: utf8_char_def Let_def\<close>)
  then show ?case using Cons.IH by (simp add: t code_eq_iff)
qed

lemma length_to_bytes [simp]: "length (to_bytes k n) = k"
  by (induction k arbitrary: n) simp_all

lemma to_bytes_inj: "to_bytes k m = to_bytes k n \<Longrightarrow> m < 256 ^ k \<Longrightarrow> n < 256 ^ k \<Longrightarrow> m = n"
proof (induction k arbitrary: m n)
  case (Suc k)
  have "m div 256 = n div 256"
    using Suc by (simp add: less_mult_imp_div_less mult.commute)
  moreover have "m mod 256 = n mod 256" using Suc.prems by simp
  ultimately show ?case by (metis div_mult_mod_eq)
qed simp

definition short :: "string \<Rightarrow> bool" where
  "short v = (length (utf8 v) < 256 ^ 8)"

lemma length_utf8_le: "length (utf8 v) \<le> 2 * length v"
  by (induction v) (auto simp: utf8_def utf8_char_def Let_def)

lemma short_small: "length v < 1000 \<Longrightarrow> short v"
  using length_utf8_le [of v] by (simp add: short_def)

lemma frame_prefix_inj:
  assumes "frame v @ r = frame w @ q" and "short v" and "short w"
  shows "v = w \<and> r = q"
proof -
  have "to_bytes 8 (length (utf8 v)) = to_bytes 8 (length (utf8 w))" and
    rest: "utf8 v @ r = utf8 w @ q"
    using assms(1) by (simp_all add: frame_def)
  then have "length (utf8 v) = length (utf8 w)" using to_bytes_inj assms(2,3) unfolding short_def by blast
  then have "utf8 v = utf8 w \<and> r = q" using rest by simp
  then show ?thesis using utf8_inj by blast
qed

lemma frames_inj:
  "concat (map frame vs) = concat (map frame ws) \<Longrightarrow> length vs = length ws \<Longrightarrow>
   list_all short vs \<Longrightarrow> list_all short ws \<Longrightarrow> vs = ws"
proof (induction vs arbitrary: ws)
  case (Cons v vs)
  obtain w us where ws: "ws = w # us" using Cons.prems(2) by (cases ws) auto
  have "frame v @ concat (map frame vs) = frame w @ concat (map frame us)" using Cons.prems(1) by (simp add: ws)
  then have "v = w \<and> concat (map frame vs) = concat (map frame us)"
    by (rule frame_prefix_inj) (use Cons.prems(3,4) in \<open>simp_all add: ws\<close>)
  then show ?case using Cons by (simp add: ws)
qed simp

text \<open>Decimal rendering is injective.\<close>

lemma digit_code: "d < 10 \<Longrightarrow> code (char_of (48 + d)) = 48 + d"
  by (simp add: code_def)

lemma nat_digits_digit: "c \<in> set (nat_digits n) \<Longrightarrow> 48 \<le> code c \<and> code c \<le> 57"
proof (induction n rule: nat_digits.induct)
  case (1 n)
  then show ?case
    by (cases "n < 10") (auto simp: nat_digits.simps [of n] digit_code less_Suc_eq_le)
qed

fun digits_val :: "string \<Rightarrow> nat \<Rightarrow> nat" where
  "digits_val [] a = a"
| "digits_val (c # s) a = digits_val s (10 * a + (code c - 48))"

lemma digits_val_append: "digits_val (s @ t) a = digits_val t (digits_val s a)"
  by (induction s arbitrary: a) simp_all

lemma digits_val_nat [simp]: "digits_val (nat_digits n) 0 = n"
proof (induction n rule: nat_digits.induct)
  case (1 n)
  then show ?case
    by (cases "n < 10") (simp_all add: nat_digits.simps [of n] digits_val_append digit_code)
qed

lemma int_str_inj: "int_str i = int_str j \<Longrightarrow> i = j"
proof -
  assume e: "int_str i = int_str j"
  have minus: "CHR ''-'' \<notin> set (nat_digits n)" for n
    using nat_digits_digit [of "CHR ''-''" n] by (auto simp: code_def)
  have inj: "nat_digits m = nat_digits n \<Longrightarrow> m = n" for m n by (metis digits_val_nat)
  show ?thesis
  proof (cases "i < 0"; cases "j < 0")
    assume "i < 0" "j < 0"
    then have "nat (- i) = nat (- j)" using e inj by (simp add: int_str_def)
    then show ?thesis using \<open>i < 0\<close> \<open>j < 0\<close> by simp
  next
    assume "i < 0" "\<not> j < 0"
    then show ?thesis using e minus [of "nat j"] by (metis int_str_def list.set_intros(1))
  next
    assume "\<not> i < 0" "j < 0"
    then show ?thesis using e minus [of "nat i"] by (metis int_str_def list.set_intros(1))
  next
    assume "\<not> i < 0" "\<not> j < 0"
    then have "nat i = nat j" using e inj by (simp add: int_str_def)
    then show ?thesis using \<open>\<not> i < 0\<close> \<open>\<not> j < 0\<close> by simp
  qed
qed

definition identity_of :: "int \<Rightarrow> string \<Rightarrow> string \<Rightarrow> string \<Rightarrow> string list" where
  "identity_of parent role task context =
     [int_str parent, casefold role, normalize_newlines task, normalize_newlines context]"

lemma task_key_Inr:
  "role_ok role \<Longrightarrow> task_key sha256 parent role task context
     = Inr (sha256 (concat (map frame (identity_of parent role task context))))"
  by (simp add: task_key_def role_collision_key_def identity_of_def)

text \<open>What the reservation relies on: SHA-256 does not collide on framed identities.\<close>

definition collision_free :: "(nat list \<Rightarrow> string) \<Rightarrow> bool" where
  "collision_free sha256 =
     (\<forall>vs ws. sha256 (concat (map frame vs)) = sha256 (concat (map frame ws)) \<longrightarrow>
       concat (map frame vs) = concat (map frame ws))"

lemma task_key_eq_iff:
  assumes "collision_free sha256" and "role_ok role" and "role_ok role'"
    and "list_all short (identity_of parent role task context)"
    and "list_all short (identity_of parent' role' task' context')"
  shows "task_key sha256 parent role task context = task_key sha256 parent' role' task' context' \<longleftrightarrow>
    parent = parent' \<and> casefold role = casefold role' \<and> normalize_newlines task = normalize_newlines task' \<and>
    normalize_newlines context = normalize_newlines context'"
proof
  assume "task_key sha256 parent role task context = task_key sha256 parent' role' task' context'"
  then have "concat (map frame (identity_of parent role task context)) =
      concat (map frame (identity_of parent' role' task' context'))"
    using assms(1) unfolding task_key_Inr [OF assms(2)] task_key_Inr [OF assms(3)] collision_free_def by blast
  then have "identity_of parent role task context = identity_of parent' role' task' context'"
    by (rule frames_inj) (use assms(4,5) in \<open>simp_all add: identity_of_def\<close>)
  then show "parent = parent' \<and> casefold role = casefold role' \<and> normalize_newlines task = normalize_newlines task' \<and>
      normalize_newlines context = normalize_newlines context'"
    using int_str_inj by (simp add: identity_of_def)
next
  assume "parent = parent' \<and> casefold role = casefold role' \<and> normalize_newlines task = normalize_newlines task' \<and>
      normalize_newlines context = normalize_newlines context'"
  then show "task_key sha256 parent role task context = task_key sha256 parent' role' task' context'"
    unfolding task_key_Inr [OF assms(2)] task_key_Inr [OF assms(3)] by (simp add: identity_of_def)
qed

section \<open>The two maps are inverse\<close>

definition inflight_ok :: "Inflight \<Rightarrow> bool" where
  "inflight_ok s = (dict_ok (inflight s) \<and> dict_ok (inflight_key_of s) \<and>
     (\<forall>k a. map_of (inflight s) k = Some a \<longleftrightarrow> map_of (inflight_key_of s) a = Some k))"

lemma reserve_inflight_ok:
  assumes "inflight_ok s" and "map_of (inflight_key_of s) a = None"
    and "reserve_inflight sha256 a parent role task context s = Inr s'"
  shows "inflight_ok s'"
proof -
  obtain k where "map_of (inflight s) k = None" "s' = s\<lparr>inflight := AList.update k a (inflight s),
      inflight_key_of := AList.update a k (inflight_key_of s)\<rparr>"
    using assms(3) by (auto simp: reserve_inflight_def split: sum.splits option.splits)
  then show ?thesis using assms(1,2) by (auto simp: inflight_ok_def update_conv distinct_update)
qed

lemma clear_inflight_ok [inv_rules]: "inflight_ok s \<Longrightarrow> inflight_ok (clear_inflight a s)"
proof (cases "map_of (inflight_key_of s) a")
  case None
  then show "inflight_ok s \<Longrightarrow> inflight_ok (clear_inflight a s)" by (simp add: clear_inflight_def)
next
  case (Some k)
  assume ok: "inflight_ok s"
  then have k: "map_of (inflight s) k = Some a" using Some by (simp add: inflight_ok_def)
  then have "clear_inflight a s = s\<lparr>inflight_key_of := AList.delete a (inflight_key_of s),
      inflight := AList.delete k (inflight s)\<rparr>"
    using Some by (simp add: clear_inflight_def Let_def)
  moreover have "(map_of (AList.delete k (inflight s)) k' = Some a') =
      (map_of (AList.delete a (inflight_key_of s)) a' = Some k')" for k' a'
  proof -
    have "\<forall>k a. map_of (inflight s) k = Some a \<longleftrightarrow> map_of (inflight_key_of s) a = Some k"
      using ok by (simp add: inflight_ok_def)
    then show ?thesis using Some k by (cases "k' = k"; cases "a' = a") (simp_all add: delete_conv, metis option.inject)
  qed
  ultimately show ?thesis using ok by (simp add: inflight_ok_def distinct_delete)
qed

section \<open>Properties\<close>

text \<open>
  At most one live child per delegation: when SHA-256 does not collide, a delegation is refused
  exactly when a child that is still in flight was reserved for the same parent, the same role up
  to case, and the same task and context up to newline encoding; and after that child settles the
  same delegation is accepted again.
\<close>

theorem single_flight:
  assumes "collision_free sha256" and "inflight_ok s" and "role_ok role" and "role_ok role'"
    and "list_all short (identity_of parent role task context)"
    and "list_all short (identity_of parent' role' task' context')"
    and "map_of (inflight_key_of s) a = None" and "a \<noteq> b"
    and "reserve_inflight sha256 a parent role task context s = Inr s1"
    and "inflight_spawn sha256 role' task' parent' context' s = Inr None"
  shows "(reserve_inflight sha256 b parent' role' task' context' s1 = Inl (DuplicateSpawnError a) \<longleftrightarrow>
      parent = parent' \<and> casefold role = casefold role' \<and> normalize_newlines task = normalize_newlines task' \<and>
      normalize_newlines context = normalize_newlines context') \<and>
    inflight_ok s1 \<and> inflight_ok (clear_inflight a s1) \<and>
    (\<exists>s2. reserve_inflight sha256 b parent' role' task' context' (clear_inflight a s1) = Inr s2)"
proof -
  note key = task_key_eq_iff [OF assms(1,3,4,5,6)]
  obtain k where k: "task_key sha256 parent role task context = Inr k" using task_key_Inr [OF assms(3)] by blast
  obtain k' where k': "task_key sha256 parent' role' task' context' = Inr k'" using task_key_Inr [OF assms(4)] by blast
  have s1: "map_of (inflight s) k = None" "s1 = s\<lparr>inflight := AList.update k a (inflight s),
      inflight_key_of := AList.update a k (inflight_key_of s)\<rparr>"
    using assms(9) k by (auto simp: reserve_inflight_def split: option.splits)
  have free: "map_of (inflight s) k' = None" using assms(10) k' by (simp add: inflight_spawn_def)
  have "reserve_inflight sha256 b parent' role' task' context' s1 = Inl (DuplicateSpawnError a) \<longleftrightarrow> k = k'"
    using free by (auto simp: reserve_inflight_def k' s1(2) update_conv split: option.splits)
  moreover have ok: "inflight_ok s1" by (rule reserve_inflight_ok [OF assms(2,7,9)])
  moreover have "map_of (inflight (clear_inflight a s1)) k' = None"
    using free s1(1) by (simp add: clear_inflight_def s1(2) update_conv delete_conv Let_def)
  then have "\<exists>s2. reserve_inflight sha256 b parent' role' task' context' (clear_inflight a s1) = Inr s2"
    by (simp add: reserve_inflight_def k')
  ultimately show ?thesis using key k k' clear_inflight_ok [OF ok] by simp
qed

text \<open>A concrete digest that does not collide: the bytes themselves, two characters per byte.\<close>

definition hex_digest :: "nat list \<Rightarrow> string" where
  "hex_digest bs = concat (map (\<lambda>b. [char_of (b div 256), char_of b]) bs)"

lemma frame_bytes: "b \<in> set (frame v) \<Longrightarrow> b < 256"
proof -
  have "x \<in> set (to_bytes k n) \<Longrightarrow> x < 256" for x k n by (induction k arbitrary: n) auto
  moreover have "x \<in> set (utf8_char c) \<Longrightarrow> x < 256" for x c
  proof -
    have "code c div 64 \<le> 3" using code_lt [of c] by linarith
    then show "x \<in> set (utf8_char c) \<Longrightarrow> x < 256" by (auto simp: utf8_char_def Let_def split: if_splits)
  qed
  ultimately show "b \<in> set (frame v) \<Longrightarrow> b < 256" by (auto simp: frame_def utf8_def)
qed

lemma hex_digest_inj:
  "hex_digest bs = hex_digest cs \<Longrightarrow> list_all (\<lambda>b. b < 256) bs \<Longrightarrow> list_all (\<lambda>b. b < 256) cs \<Longrightarrow> bs = cs"
proof (induction bs arbitrary: cs)
  case Nil
  then show ?case by (cases cs) (auto simp: hex_digest_def)
next
  case (Cons b bs)
  then show ?case by (cases cs) (auto simp: hex_digest_def)
qed

lemma hex_digest_collision_free: "collision_free hex_digest"
  unfolding collision_free_def
proof (intro allI impI)
  fix vs ws
  assume "hex_digest (concat (map frame vs)) = hex_digest (concat (map frame ws))"
  then show "concat (map frame vs) = concat (map frame ws)"
    by (rule hex_digest_inj) (auto simp: list_all_iff dest: frame_bytes)
qed

theorem single_flight_witness:
  "\<exists>s1. reserve_inflight hex_digest 1 0 ''coder'' ''fix'' [] \<lparr>inflight = [], inflight_key_of = []\<rparr> = Inr s1 \<and>
     reserve_inflight hex_digest 2 0 ''Coder'' ''fix'' [] s1 = Inl (DuplicateSpawnError 1)"
proof -
  let ?s = "\<lparr>inflight = [], inflight_key_of = []\<rparr>"
  have ok: "role_ok ''coder''" "role_ok ''Coder''" and fold: "casefold ''coder'' = casefold ''Coder''"
    by code_simp+
  have sh: "list_all short (identity_of 0 ''coder'' ''fix'' [])" "list_all short (identity_of 0 ''Coder'' ''fix'' [])"
    unfolding identity_of_def list.pred_inject by (intro conjI TrueI short_small; code_simp)+
  obtain s1 where r: "reserve_inflight hex_digest 1 0 ''coder'' ''fix'' [] ?s = Inr s1"
    using task_key_Inr [OF ok(1)] by (simp add: reserve_inflight_def)
  have n: "inflight_spawn hex_digest ''Coder'' ''fix'' 0 [] ?s = Inr None"
    using task_key_Inr [OF ok(2)] by (simp add: inflight_spawn_def)
  show ?thesis
    using single_flight [OF hex_digest_collision_free _ ok sh _ _ r n, of 2] r fold by (simp add: inflight_ok_def)
qed

end
