(* ===== verification/Workflow_Budget.thy ===== *)
theory Workflow_Budget
  imports Prelude
begin

text \<open>
  Shared token accounting of deterministic workflows (\<open>application/workflow_budget.py\<close>).
  Sessions, leases and budgets are Python objects shared between workflows, so they live in a
  store: \<open>ws_used\<close> holds the token count of each session, \<open>ws_leases\<close> and \<open>ws_budgets\<close> the
  objects by creation order.  A nested workflow's budget names its parent budget, which is older,
  and the parent's lease it draws on.  \<open>None\<close> stands for \<open>float("inf")\<close>.  Trace records do not
  change an allocation and are left out.
\<close>

section \<open>Amounts\<close>

type_synonym amount = "int option"

definition plus_amt :: "amount \<Rightarrow> amount \<Rightarrow> amount" where
  "plus_amt a b = (case (a, b) of (Some x, Some y) \<Rightarrow> Some (x + y) | _ \<Rightarrow> None)"

definition min_amt :: "int \<Rightarrow> amount \<Rightarrow> int" where
  "min_amt a b = (case b of None \<Rightarrow> a | Some y \<Rightarrow> min a y)"

section \<open>State\<close>

abbreviation UNBOUNDED_SESSION_BUDGET :: int where "UNBOUNDED_SESSION_BUDGET \<equiv> 1000000"

record BudgetLease =
  bl_total :: "int option"
  bl_reserved :: int
  bl_sessions :: "nat list"

record WorkflowBudget =
  wb_total :: "int option"
  wb_sessions :: "nat list"
  wb_leases :: "nat list"
  wb_parent :: "(nat \<times> nat) option"

record WorkflowStore =
  ws_used :: "(nat \<times> int) list"
  ws_leases :: "BudgetLease list"
  ws_budgets :: "WorkflowBudget list"
  escape_used :: bool

datatype BudgetFailure = NotPositive | WorkflowBudgetExceeded bool | InfiniteAmount

definition used_of :: "WorkflowStore \<Rightarrow> nat \<Rightarrow> int" where
  "used_of s i = (case map_of (ws_used s) i of None \<Rightarrow> 0 | Some n \<Rightarrow> n)"

section \<open>Validation\<close>

definition positive_concurrency :: "pyval \<Rightarrow> BudgetFailure + int" where
  "positive_concurrency v = (case v of VInt i \<Rightarrow> if i < 1 then Inl NotPositive else Inr i | _ \<Rightarrow> Inl NotPositive)"

definition positive_budget :: "pyval \<Rightarrow> BudgetFailure + int option" where
  "positive_budget v = (if v = VNone then Inr None else bnd (positive_concurrency v) (\<lambda>i. Inr (Some i)))"

section \<open>Reading the accounts\<close>

definition lease_left :: "WorkflowStore \<Rightarrow> BudgetLease \<Rightarrow> amount" where
  "lease_left s l =
     (case bl_total l of
        None \<Rightarrow> None
      | Some t \<Rightarrow> Some (max 0 (t - sum_list (map (\<lambda>i. max 0 (used_of s i)) (bl_sessions l)))))"

definition lease_at :: "WorkflowStore \<Rightarrow> nat \<Rightarrow> amount" where
  "lease_at s i = (if i < length (ws_leases s) then lease_left s (ws_leases s ! i) else Some 0)"

definition spent :: "WorkflowStore \<Rightarrow> WorkflowBudget \<Rightarrow> int" where
  "spent s b = sum_list (map (used_of s) (wb_sessions b))"

definition reserved_unspent :: "WorkflowStore \<Rightarrow> WorkflowBudget \<Rightarrow> amount" where
  "reserved_unspent s b = foldr (\<lambda>i acc. plus_amt (lease_at s i) acc) (wb_leases b) (Some 0)"

text \<open>
  \<open>total - spent - inf\<close> would be \<open>-inf\<close>; it cannot arise because only leases with a finite total
  are registered, and the model reads it as no headroom.  In \<open>refresh_budget_lease\<close> an infinite amount
  is the \<open>OverflowError\<close> of \<open>int(inf)\<close>.
\<close>

function remaining :: "WorkflowStore \<Rightarrow> nat \<Rightarrow> amount" where
  "remaining s n =
     (if n < length (ws_budgets s)
      then
        let b = ws_budgets s ! n
        in case wb_total b of
             None \<Rightarrow> None
           | Some tot \<Rightarrow>
               let tot' = (case wb_parent b of
                     None \<Rightarrow> tot
                   | Some (p, l) \<Rightarrow>
                       if p < n
                       then min_amt tot (plus_amt (Some (spent s b)) (plus_amt (remaining s p) (lease_at s l)))
                       else tot)
               in (case reserved_unspent s b of
                     None \<Rightarrow> Some 0
                   | Some r \<Rightarrow> Some (tot' - spent s b - r))
      else Some 0)"
  by pat_completeness auto
termination
  by (relation "measure snd") auto

declare remaining.simps [simp del]

section \<open>Changing the accounts\<close>

definition add_session_to_lease :: "nat \<Rightarrow> nat \<Rightarrow> WorkflowStore \<Rightarrow> WorkflowStore" where
  "add_session_to_lease l i s =
     s\<lparr>ws_leases := (ws_leases s)[l := (ws_leases s ! l)\<lparr>bl_sessions := bl_sessions (ws_leases s ! l) @ [i]\<rparr>]\<rparr>"

definition add_session_to_budget :: "nat \<Rightarrow> nat \<Rightarrow> WorkflowStore \<Rightarrow> WorkflowStore" where
  "add_session_to_budget n i s =
     s\<lparr>ws_budgets := (ws_budgets s)[n := (ws_budgets s ! n)\<lparr>wb_sessions := wb_sessions (ws_budgets s ! n) @ [i]\<rparr>]\<rparr>"

function track_session :: "nat \<Rightarrow> nat \<Rightarrow> WorkflowStore \<Rightarrow> WorkflowStore" where
  "track_session n i s =
     (if n < length (ws_budgets s)
      then
        let s1 = add_session_to_budget n i s
        in case wb_parent (ws_budgets s ! n) of
             None \<Rightarrow> s1
           | Some (p, l) \<Rightarrow> if p < n then track_session p i (add_session_to_lease l i s1) else s1
      else s)"
  by pat_completeness auto
termination
  by (relation "measure fst") auto

declare track_session.simps [simp del]

definition reserve_lease :: "nat \<Rightarrow> BudgetLease \<Rightarrow> WorkflowStore \<Rightarrow> WorkflowStore \<times> nat" where
  \<comment> \<open>creates the lease object and appends it to the budget's list\<close>
  "reserve_lease n l s =
     (let i = length (ws_leases s); b = ws_budgets s ! n
      in (s\<lparr>ws_leases := ws_leases s @ [l],
            ws_budgets := (ws_budgets s)[n := b\<lparr>wb_leases := wb_leases b @ [i]\<rparr>]\<rparr>, i))"

definition release_lease :: "nat \<Rightarrow> nat \<Rightarrow> WorkflowStore \<Rightarrow> WorkflowStore" where
  "release_lease n i s =
     (let b = ws_budgets s ! n
      in s\<lparr>ws_budgets := (ws_budgets s)[n := b\<lparr>wb_leases := remove1 i (wb_leases b)\<rparr>]\<rparr>)"

definition session_budget :: "nat \<Rightarrow> nat option \<Rightarrow> WorkflowStore \<Rightarrow> int option" where
  "session_budget n active s =
     (case active of
        Some l \<Rightarrow> lease_at s l
      | None \<Rightarrow> map_option (\<lambda>r. max 0 r) (remaining s n))"

definition capped_session_budget ::
  "bool \<Rightarrow> nat \<Rightarrow> nat option \<Rightarrow> int option \<Rightarrow> WorkflowStore \<Rightarrow> int option" where
  "capped_session_budget unbounded n active cap s =
     (if unbounded then None
      else case session_budget n active s of
             None \<Rightarrow> map_option (\<lambda>c. max 0 c) cap
           | Some base \<Rightarrow> Some (case cap of Some c \<Rightarrow> min (max 0 c) base | None \<Rightarrow> base))"

text \<open>
  A granted call: a lease outside the pool (unbounded mode or unlimited budget), the one-shot
  escape, or a lease registered with the budget.
\<close>

datatype Grant =
    Outside BudgetLease
  | Escape BudgetLease
  | Registered nat

text \<open>
  The critical section of \<open>_acquire_budget_lease\<close>.  \<open>waiters\<close> is the number of contenders counted
  at that moment, this call included; \<open>share\<close> the active collection budget.
\<close>

definition uncapped_share :: "int \<Rightarrow> int option \<Rightarrow> nat \<Rightarrow> int" where
  "uncapped_share available share waiters =
     (case share of Some c \<Rightarrow> min c available | None \<Rightarrow> max 1 (available div max 1 (int waiters)))"

definition acquire_budget_lease ::
  "bool \<Rightarrow> nat \<Rightarrow> pyval \<Rightarrow> bool \<Rightarrow> nat \<Rightarrow> int option \<Rightarrow> WorkflowStore
     \<Rightarrow> WorkflowStore \<times> (BudgetFailure + Grant)" where
  "acquire_budget_lease unbounded n raw_cap over_budget_ok waiters share s =
     (case positive_budget raw_cap of
        Inl e \<Rightarrow> (s, Inl e)
      | Inr cap \<Rightarrow>
          if unbounded then (s, Inr (Outside \<lparr>bl_total = None, bl_reserved = 0, bl_sessions = []\<rparr>))
          else case remaining s n of
            None \<Rightarrow> (s, Inr (Outside \<lparr>bl_total = map_option (\<lambda>c. max 0 c) cap, bl_reserved = 0, bl_sessions = []\<rparr>))
          | Some r \<Rightarrow>
              let available = max 0 r
              in if available \<le> 0 \<and> \<not> over_budget_ok then (s, Inl (WorkflowBudgetExceeded False))
                 else if available \<le> 0
                 then (if escape_used s then (s, Inl (WorkflowBudgetExceeded True))
                       else (s\<lparr>escape_used := True\<rparr>,
                             Inr (Escape \<lparr>bl_total = Some (case cap of Some c \<Rightarrow> max 0 c | None \<Rightarrow> UNBOUNDED_SESSION_BUDGET),
                                          bl_reserved = 0, bl_sessions = []\<rparr>)))
                 else
                   let tot = (case cap of None \<Rightarrow> uncapped_share available share waiters
                                | Some c \<Rightarrow> min (max 0 c) available);
                       (s', i) = reserve_lease n \<lparr>bl_total = Some tot, bl_reserved = tot, bl_sessions = []\<rparr> s
                   in (s', Inr (Registered i)))"

definition refresh_budget_lease ::
  "bool \<Rightarrow> nat \<Rightarrow> nat \<Rightarrow> pyval \<Rightarrow> bool \<Rightarrow> nat \<Rightarrow> int option \<Rightarrow> WorkflowStore
     \<Rightarrow> WorkflowStore \<times> (BudgetFailure + Grant)" where
  "refresh_budget_lease unbounded n i raw_cap over_budget_ok waiters share s =
     (let l = ws_leases s ! i
      in if bl_reserved l = 0 then (s, Inr (Registered i))
         else
           case plus_amt (remaining s n) (lease_left s l) of
             None \<Rightarrow> (s, Inl InfiniteAmount)
           | Some headroom \<Rightarrow>
               let available = max 0 headroom
               in if available \<le> 0
                  then acquire_budget_lease unbounded n raw_cap over_budget_ok waiters share (release_lease n i s)
                  else
                    let t = (case bl_total l of None \<Rightarrow> available | Some t \<Rightarrow> min t available)
                    in (s\<lparr>ws_leases := (ws_leases s)[i := l\<lparr>bl_total := Some t, bl_reserved := t\<rparr>]\<rparr>, Inr (Registered i)))"

section \<open>Well-formed stores\<close>

definition leases_known :: "WorkflowStore \<Rightarrow> WorkflowBudget \<Rightarrow> bool" where
  "leases_known s b = (list_all (\<lambda>i. i < length (ws_leases s)) (wb_leases b) \<and>
     (case wb_parent b of None \<Rightarrow> True | Some (p, l) \<Rightarrow> l < length (ws_leases s)))"

definition store_ok :: "WorkflowStore \<Rightarrow> bool" where
  "store_ok s = list_all (leases_known s) (ws_budgets s)"

lemma store_ok_nth: "store_ok s \<Longrightarrow> n < length (ws_budgets s) \<Longrightarrow> leases_known s (ws_budgets s ! n)"
  by (simp add: store_ok_def list_all_length)

lemma used_frame [simp]: "used_of (s\<lparr>ws_leases := ls, ws_budgets := bs\<rparr>) = used_of s"
  by (simp add: fun_eq_iff used_of_def)

lemma lease_at_append: "i < length (ws_leases s) \<Longrightarrow> lease_at (s\<lparr>ws_leases := ws_leases s @ [l], ws_budgets := bs\<rparr>) i = lease_at s i"
  by (simp add: lease_at_def lease_left_def nth_append split: option.split)

lemma reserved_append:
  assumes "leases_known s b"
  shows "reserved_unspent (s\<lparr>ws_leases := ws_leases s @ [l], ws_budgets := bs\<rparr>) b = reserved_unspent s b"
proof -
  have "foldr (\<lambda>i acc. plus_amt (lease_at (s\<lparr>ws_leases := ws_leases s @ [l], ws_budgets := bs\<rparr>) i) acc) is (Some 0)
      = foldr (\<lambda>i acc. plus_amt (lease_at s i) acc) is (Some 0)"
    if "list_all (\<lambda>i. i < length (ws_leases s)) is" for "is"
    using that by (induction "is") (simp_all add: lease_at_append)
  then show ?thesis using assms by (simp add: reserved_unspent_def leases_known_def)
qed

lemma spent_frame [simp]: "spent (s\<lparr>ws_leases := ls, ws_budgets := bs\<rparr>) b = spent s b"
  by (simp add: spent_def)

text \<open>Creating a lease and changing younger budgets leaves the balance of older ones.\<close>

lemma remaining_frame:
  assumes "store_ok s" and "length bs = length (ws_budgets s)" and "\<forall>k \<le> m. bs ! k = ws_budgets s ! k"
  shows "remaining (s\<lparr>ws_leases := ws_leases s @ [l], ws_budgets := bs\<rparr>) m = remaining s m"
  using assms(3)
proof (induction m rule: less_induct)
  case (less m)
  let ?s = "s\<lparr>ws_leases := ws_leases s @ [l], ws_budgets := bs\<rparr>"
  show ?case
  proof (cases "m < length (ws_budgets s)")
    case False
    then show ?thesis using assms(2) by (simp add: remaining.simps)
  next
    case True
    have b: "bs ! m = ws_budgets s ! m" using less.prems by simp
    have k: "leases_known s (ws_budgets s ! m)" using store_ok_nth assms(1) True .
    have IH: "remaining ?s p = remaining s p" if "p < m" for p using less that by simp
    have "remaining ?s p = remaining s p \<and> lease_at ?s i = lease_at s i"
      if "wb_parent (ws_budgets s ! m) = Some (p, i)" "p < m" for p i
      using k that IH by (simp add: leases_known_def lease_at_append)
    then show ?thesis
      unfolding remaining.simps [of ?s m] remaining.simps [of s m]
      using True assms(2) b reserved_append [OF k]
      by (simp add: Let_def split: option.splits)
  qed
qed

lemma foldr_plus_amt:
  "foldr (\<lambda>i acc. plus_amt (f i) acc) is (Some c) =
     map_option (\<lambda>x. x + c) (foldr (\<lambda>i acc. plus_amt (f i) acc) is (Some 0))"
  by (induction "is") (auto simp: plus_amt_def split: option.splits)

lemma fresh_lease_at:
  "lease_at (s\<lparr>ws_leases := ws_leases s @ [\<lparr>bl_total = Some t, bl_reserved = t, bl_sessions = []\<rparr>], ws_budgets := bs\<rparr>)
     (length (ws_leases s)) = Some (max 0 t)"
  by (simp add: lease_at_def lease_left_def)

lemma reserve_remaining:
  assumes "store_ok s" and "n < length (ws_budgets s)" and "remaining s n = Some r"
    and "reserved_unspent s (ws_budgets s ! n) \<noteq> None" and "0 \<le> t"
    and "reserve_lease n \<lparr>bl_total = Some t, bl_reserved = t, bl_sessions = []\<rparr> s = (s', i)"
  shows "remaining s' n = Some (r - t) \<and> reserved_unspent s' (ws_budgets s' ! n) \<noteq> None"
proof -
  let ?b = "ws_budgets s ! n" and ?l = "\<lparr>bl_total = Some t, bl_reserved = t, bl_sessions = []\<rparr>"
  define b' where "b' = ?b\<lparr>wb_leases := wb_leases ?b @ [length (ws_leases s)]\<rparr>"
  define bs where "bs = (ws_budgets s)[n := b']"
  have s': "s' = s\<lparr>ws_leases := ws_leases s @ [?l], ws_budgets := bs\<rparr>"
    using assms(6) by (auto simp: reserve_lease_def Let_def bs_def b'_def)
  have k: "leases_known s ?b" using store_ok_nth assms(1,2) .
  obtain c where c: "reserved_unspent s ?b = Some c" using assms(4) by auto
  have old: "reserved_unspent s' ?b = Some c" using reserved_append [OF k] c by (simp add: s')
  have "reserved_unspent s' b' = Some (c + t)"
    using old assms(5) foldr_plus_amt [of "lease_at s'" "wb_leases ?b" t] fresh_lease_at [where s = s and t = t and bs = bs]
    by (simp add: reserved_unspent_def b'_def s' plus_amt_def)
  moreover have "spent s' b' = spent s ?b" by (simp add: s') (simp add: b'_def spent_def)
  moreover have "wb_parent b' = wb_parent ?b" "wb_total b' = wb_total ?b" by (simp_all add: b'_def)
  moreover have "remaining s' p = remaining s p \<and> lease_at s' j = lease_at s j"
    if "wb_parent ?b = Some (p, j)" "p < n" for p j
  proof -
    have "remaining s' p = remaining s p"
      unfolding s' by (rule remaining_frame [OF assms(1)]) (use that(2) in \<open>auto simp: bs_def nth_list_update\<close>)
    then show ?thesis using k that by (simp add: leases_known_def lease_at_append s')
  qed
  moreover have "ws_budgets s' ! n = b'" "n < length (ws_budgets s')" using assms(2) by (simp_all add: s' bs_def)
  ultimately show ?thesis
    using assms(2,3) c unfolding remaining.simps [of s' n] remaining.simps [of s n]
    by (auto simp: Let_def split: option.splits)
qed

lemma reserve_store_ok:
  assumes "store_ok s" and "n < length (ws_budgets s)" and "reserve_lease n l s = (s', i)"
  shows "store_ok s' \<and> length (ws_budgets s') = length (ws_budgets s)"
proof -
  have s': "s' = s\<lparr>ws_leases := ws_leases s @ [l], ws_budgets := (ws_budgets s)[n := (ws_budgets s ! n)
      \<lparr>wb_leases := wb_leases (ws_budgets s ! n) @ [length (ws_leases s)]\<rparr>]\<rparr>"
    using assms(3) by (auto simp: reserve_lease_def Let_def)
  have "leases_known s' (ws_budgets s ! k)" if "k < length (ws_budgets s)" for k
    using store_ok_nth [OF assms(1) that]
    by (auto simp: leases_known_def s' list_all_iff less_Suc_eq split: option.splits)
  then have known: "leases_known s' b" if "b \<in> set (ws_budgets s)" for b using that by (metis in_set_conv_nth)
  have "leases_known s' ((ws_budgets s ! n)\<lparr>wb_leases := wb_leases (ws_budgets s ! n) @ [length (ws_leases s)]\<rparr>)"
    using known [OF nth_mem [OF assms(2)]] by (simp add: leases_known_def s')
  then have "list_all (leases_known s') (ws_budgets s')"
    using known set_update_subset_insert [of "ws_budgets s" n] by (auto simp: list_all_iff s')
  then show ?thesis by (simp add: store_ok_def s')
qed

section \<open>Case analysis of an acquisition\<close>

lemma acquire_cases:
  assumes "acquire_budget_lease u n cap ok w share s = (s', res)"
  obtains (failed) e where "s' = s" "res = Inl e"
    | (outside) l where "s' = s" "res = Inr (Outside l)"
    | (escaped) l where "\<not> escape_used s" "s' = s\<lparr>escape_used := True\<rparr>" "res = Inr (Escape l)" "bl_reserved l = 0"
    | (registered) r c i where "positive_budget cap = Inr c" "remaining s n = Some r" "0 < r"
        "reserve_lease n (let t = (case c of None \<Rightarrow> uncapped_share r share w | Some c \<Rightarrow> min (max 0 c) r)
           in \<lparr>bl_total = Some t, bl_reserved = t, bl_sessions = []\<rparr>) s = (s', i)"
        "res = Inr (Registered i)"
proof (cases "positive_budget cap")
  case (Inl e)
  then show ?thesis using assms failed by (auto simp: acquire_budget_lease_def)
next
  case (Inr c)
  show ?thesis
  proof (cases "u \<or> remaining s n = None")
    case True
    then show ?thesis using assms Inr outside by (auto simp: acquire_budget_lease_def split: if_splits)
  next
    case False
    then obtain r where r: "remaining s n = Some r" "\<not> u" by auto
    show ?thesis
    proof (cases "0 < r")
      case True
      let ?t = "case c of None \<Rightarrow> uncapped_share r share w | Some c \<Rightarrow> min (max 0 c) r"
      obtain s1 i where x: "reserve_lease n \<lparr>bl_total = Some ?t, bl_reserved = ?t, bl_sessions = []\<rparr> s = (s1, i)"
        by fastforce
      have m: "max 0 r = r" using True by simp
      have "(s', res) = (s1, Inr (Registered i))"
        using assms r True x Inr m by (cases c) (simp_all add: acquire_budget_lease_def Let_def)
      then show ?thesis using registered [OF Inr r(1) True] x by (simp add: Let_def)
    next
      case False
      then have "(s', res) = (s, Inl (WorkflowBudgetExceeded False)) \<or> (s', res) = (s, Inl (WorkflowBudgetExceeded True)) \<or>
          (\<exists>l. \<not> escape_used s \<and> (s', res) = (s\<lparr>escape_used := True\<rparr>, Inr (Escape l)) \<and> bl_reserved l = 0)"
        using assms r Inr by (auto simp: acquire_budget_lease_def Let_def split: if_splits)
      then show ?thesis using failed escaped by blast
    qed
  qed
qed

section \<open>Runs\<close>

datatype budget_event =
    Acquire bool nat pyval bool nat "int option"
  | ReleaseLease nat nat
  | Track nat nat
  | Use nat nat

fun budget_step :: "WorkflowStore \<Rightarrow> budget_event \<Rightarrow> WorkflowStore \<times> (BudgetFailure + Grant) option" where
  "budget_step s (Acquire u n cap ok w share) =
     (let (s', res) = acquire_budget_lease u n cap ok w share s in (s', Some res))"
| "budget_step s (ReleaseLease n i) = (release_lease n i s, None)"
| "budget_step s (Track n i) = (track_session n i s, None)"
| "budget_step s (Use i k) = (s\<lparr>ws_used := AList.update i (used_of s i + int k) (ws_used s)\<rparr>, None)"

fun budget_run :: "WorkflowStore \<Rightarrow> budget_event list \<Rightarrow> (BudgetFailure + Grant) list" where
  "budget_run s [] = []"
| "budget_run s (e # es) =
     (case budget_step s e of (s', None) \<Rightarrow> budget_run s' es | (s', Some res) \<Rightarrow> res # budget_run s' es)"

definition is_escape :: "BudgetFailure + Grant \<Rightarrow> bool" where
  "is_escape r = (case r of Inr (Escape _) \<Rightarrow> True | _ \<Rightarrow> False)"

lemma track_escape [simp]: "escape_used (track_session n i s) = escape_used s"
proof (induction n i s rule: track_session.induct)
  case (1 n i s)
  have "escape_used (add_session_to_lease l i (add_session_to_budget n i s)) = escape_used s" for l
    by (simp add: add_session_to_lease_def add_session_to_budget_def)
  then show ?case using 1
    by (subst track_session.simps) (auto simp: Let_def add_session_to_budget_def split: option.split)
qed

lemma reserve_escape: "reserve_lease n l s = (s', i) \<Longrightarrow> escape_used s' = escape_used s"
  by (auto simp: reserve_lease_def Let_def)

lemma budget_step_escape:
  assumes "budget_step s e = (s', out)"
  shows "(case out of Some r \<Rightarrow> is_escape r | None \<Rightarrow> False) \<and> \<not> escape_used s \<and> escape_used s' \<or>
    \<not> (case out of Some r \<Rightarrow> is_escape r | None \<Rightarrow> False) \<and> escape_used s' = escape_used s"
proof (cases e)
  case (Acquire u n cap ok w share)
  then obtain res where a: "acquire_budget_lease u n cap ok w share s = (s', res)" "out = Some res"
    using assms by (auto split: prod.splits)
  from a(1) show ?thesis
    by (cases rule: acquire_cases) (auto simp: a(2) is_escape_def dest: reserve_escape)
qed (use assms in \<open>auto simp: release_lease_def Let_def\<close>)

lemma budget_run_escapes:
  "length (filter is_escape (budget_run s es)) \<le> (if escape_used s then 0 else 1)"
proof (induction es arbitrary: s)
  case (Cons e es)
  obtain s' out where st: "budget_step s e = (s', out)" by fastforce
  show ?case
    using budget_step_escape [OF st] Cons.IH [of s'] st by (auto split: option.splits if_splits)
qed simp

section \<open>Properties\<close>

text \<open>
  The over-budget escape is one-shot: over any interleaving of acquisitions (of the workflow and
  all of its children, which share the claim), releases, session registrations and spending, at
  most one acquisition is granted by the escape.
\<close>

theorem escape_at_most_once:
  "length (filter is_escape (budget_run s es)) \<le> 1"
  using budget_run_escapes [of s es] by (auto split: if_splits)

text \<open>
  A registered grant fits the pool: it is at least one token, at most the cap and at most the
  live balance of the budget (which accounts for the parent's balance), and the balance goes down by exactly the
  grant, so concurrent callers cannot be promised the same tokens.
\<close>

theorem grant_comes_from_pool:
  assumes "store_ok s" and "n < length (ws_budgets s)"
    and "reserved_unspent s (ws_budgets s ! n) \<noteq> None" and "\<forall>c. share = Some c \<longrightarrow> 1 \<le> c"
    and "acquire_budget_lease u n cap ok w share s = (s', Inr (Registered i))"
  shows "\<exists>r t. remaining s n = Some r \<and> 1 \<le> t \<and> t \<le> r \<and> (\<forall>c. cap = VInt c \<longrightarrow> t \<le> c) \<and>
    bl_total (ws_leases s' ! i) = Some t \<and> remaining s' n = Some (r - t) \<and> store_ok s'"
  using assms(5)
proof (cases rule: acquire_cases)
  case (registered r c i')
  define t where "t = (case c of None \<Rightarrow> uncapped_share r share w | Some c \<Rightarrow> min (max 0 c) r)"
  have res: "reserve_lease n \<lparr>bl_total = Some t, bl_reserved = t, bl_sessions = []\<rparr> s = (s', i)"
    using registered(4,5) by (simp add: t_def Let_def)
  have cap: "(cap = VNone \<and> c = None) \<or> (\<exists>k. cap = VInt k \<and> c = Some k \<and> 1 \<le> k)"
    using registered(1) by (auto simp: positive_budget_def positive_concurrency_def split: pyval.splits if_splits)
  have div: "r div max 1 (int w) \<le> r" using zdiv_mono2 [of r 1 "max 1 (int w)"] registered(3) by simp
  have "1 \<le> t \<and> t \<le> r \<and> (\<forall>k. cap = VInt k \<longrightarrow> t \<le> k)"
    using cap div registered(3) assms(4) by (auto simp: t_def uncapped_share_def split: option.splits)
  moreover have "remaining s' n = Some (r - t)"
    using reserve_remaining [OF assms(1,2) registered(2) assms(3) _ res] calculation by simp
  moreover have "bl_total (ws_leases s' ! i) = Some t" using res by (auto simp: reserve_lease_def Let_def)
  moreover have "store_ok s'" using reserve_store_ok [OF assms(1,2) res] by simp
  ultimately show ?thesis using registered(2) by blast
qed simp_all

definition demo_pool :: WorkflowStore where
  "demo_pool = \<lparr>ws_used = [], ws_leases = [],
     ws_budgets = [\<lparr>wb_total = Some 100, wb_sessions = [], wb_leases = [], wb_parent = None\<rparr>], escape_used = False\<rparr>"

lemma demo_pool_remaining: "remaining demo_pool 0 = Some 100"
  by (simp add: remaining.simps demo_pool_def reserved_unspent_def spent_def)

theorem grant_comes_from_pool_witness:
  "\<exists>s' i. acquire_budget_lease False 0 (VInt 30) False 1 None demo_pool = (s', Inr (Registered i)) \<and>
     remaining s' 0 = Some 70"
proof -
  obtain s' i where a: "acquire_budget_lease False 0 (VInt 30) False 1 None demo_pool = (s', Inr (Registered i))"
    and t: "bl_total (ws_leases s' ! i) = Some 30"
    using demo_pool_remaining
    by (auto simp: acquire_budget_lease_def positive_budget_def positive_concurrency_def Let_def
        reserve_lease_def demo_pool_def)
  show ?thesis
    using grant_comes_from_pool [OF _ _ _ _ a] t a demo_pool_remaining
    by (auto simp: demo_pool_def store_ok_def leases_known_def reserved_unspent_def)
qed

section \<open>Contending callers\<close>

text \<open>\<open>k\<close> uncapped calls launched together: each counts the calls still waiting, itself included.\<close>

fun contend :: "nat \<Rightarrow> nat \<Rightarrow> WorkflowStore \<Rightarrow> WorkflowStore \<times> (BudgetFailure + Grant) list" where
  "contend n 0 s = (s, [])"
| "contend n (Suc k) s =
     (let (s1, res) = acquire_budget_lease False n VNone False (Suc k) None s;
          (s2, out) = contend n k s1
      in (s2, res # out))"

lemma equal_share_step:
  fixes a :: int
  assumes "int (Suc (Suc k)) \<le> a"
  shows "a div int (Suc (Suc k)) \<le> (a - a div int (Suc (Suc k))) div int (Suc k) \<and>
    int (Suc k) \<le> a - a div int (Suc (Suc k))"
proof -
  define m j q where "m = int (Suc (Suc k))" and "j = int (Suc k)" and "q = a div m"
  have pos: "0 < j" "m = j + 1" "m \<le> a" using assms by (simp_all add: m_def j_def)
  have "m * q \<le> a" using mult_div_mod_eq [of m a] pos_mod_sign [of m a] pos unfolding q_def by linarith
  then have le: "q * j \<le> a - q" using pos(2) by (simp add: algebra_simps)
  have "0 < q" unfolding q_def using pos by (simp add: pos_imp_zdiv_pos_iff)
  then have "j \<le> q * j" using pos(1) by (simp add: mult_le_cancel_right1)
  moreover have "q \<le> (a - q) div j" using zdiv_mono1 [OF le pos(1)] pos(1) by simp
  ultimately have "q \<le> (a - q) div j \<and> j \<le> a - q" using le by linarith
  then show ?thesis by (simp only: m_def j_def q_def)
qed

lemma acquire_uncapped:
  assumes "remaining s n = Some a" and "int (Suc k) \<le> a"
  shows "acquire_budget_lease False n VNone False (Suc k) None s =
    (let t = a div int (Suc k); (s1, i) = reserve_lease n \<lparr>bl_total = Some t, bl_reserved = t, bl_sessions = []\<rparr> s
     in (s1, Inr (Registered i)))"
proof -
  have "1 \<le> a div int (Suc k)" using assms(2) by (simp add: pos_imp_zdiv_pos_iff int_one_le_iff_zero_less)
  then have "uncapped_share a None (Suc k) = a div int (Suc k)" by (simp add: uncapped_share_def)
  then show ?thesis using assms by (simp add: acquire_budget_lease_def positive_budget_def Let_def)
qed

lemma contend_shares:
  assumes "store_ok s" and "n < length (ws_budgets s)" and "reserved_unspent s (ws_budgets s ! n) \<noteq> None"
    and "remaining s n = Some a" and "int (Suc k) \<le> a" and "contend n (Suc k) s = (s', out)"
  shows "\<exists>ls. ws_leases s' = ws_leases s @ ls \<and> length ls = Suc k \<and>
    out = map (\<lambda>j. Inr (Registered (length (ws_leases s) + j))) [0..<Suc k] \<and>
    list_all (\<lambda>l. \<exists>t. bl_total l = Some t \<and> a div int (Suc k) \<le> t) ls \<and> remaining s' n = Some 0"
  using assms
proof (induction k arbitrary: s a out)
  case 0
  let ?l = "\<lparr>bl_total = Some a, bl_reserved = a, bl_sessions = []\<rparr>"
  obtain s1 i where r: "reserve_lease n ?l s = (s1, i)" by fastforce
  have "s' = s1" "out = [Inr (Registered i)]" using "0.prems"(6) acquire_uncapped [OF "0.prems"(4,5)] r by auto
  moreover have "i = length (ws_leases s)" "ws_leases s1 = ws_leases s @ [?l]"
    using r by (auto simp: reserve_lease_def Let_def)
  moreover have "remaining s1 n = Some 0"
    using reserve_remaining [OF "0.prems"(1,2,4,3) _ r] "0.prems"(5) by simp
  ultimately show ?case by auto
next
  case (Suc k)
  define t where "t = a div int (Suc (Suc k))"
  let ?l = "\<lparr>bl_total = Some t, bl_reserved = t, bl_sessions = []\<rparr>"
  obtain s1 i where r: "reserve_lease n ?l s = (s1, i)" by fastforce
  have acq: "acquire_budget_lease False n VNone False (Suc (Suc k)) None s = (s1, Inr (Registered i))"
    using acquire_uncapped [OF Suc.prems(4,5)] r by (simp add: t_def)
  obtain s2 out1 where c: "contend n (Suc k) s1 = (s2, out1)" by fastforce
  have out: "contend n (Suc k) s1 = (s', out1)" "out = Inr (Registered i) # out1"
    using Suc.prems(6) c unfolding contend.simps(2) [of n "Suc k" s] acq Let_def prod.case by simp_all
  have i: "i = length (ws_leases s)" "ws_leases s1 = ws_leases s @ [?l]"
    using r by (auto simp: reserve_lease_def Let_def)
  have "0 \<le> t" using Suc.prems(5) by (simp add: t_def pos_imp_zdiv_nonneg_iff)
  then have rem: "remaining s1 n = Some (a - t)" "reserved_unspent s1 (ws_budgets s1 ! n) \<noteq> None"
    using reserve_remaining [OF Suc.prems(1,2,4,3) _ r] by simp_all
  have ok: "store_ok s1" "n < length (ws_budgets s1)"
    using reserve_store_ok [OF Suc.prems(1,2) r] Suc.prems(2) by simp_all
  note step = equal_share_step [OF Suc.prems(5), folded t_def]
  obtain ls where ls: "ws_leases s' = ws_leases s1 @ ls" "length ls = Suc k"
      "out1 = map (\<lambda>j. Inr (Registered (length (ws_leases s1) + j))) [0..<Suc k]"
      "list_all (\<lambda>l. \<exists>t'. bl_total l = Some t' \<and> (a - t) div int (Suc k) \<le> t') ls" "remaining s' n = Some 0"
    using Suc.IH [OF ok rem(2,1) conjunct2 [OF step] out(1)] by blast
  have "list_all (\<lambda>l. \<exists>t'. bl_total l = Some t' \<and> t \<le> t') (?l # ls)"
    using ls(4) conjunct1 [OF step] by (fastforce simp: list_all_iff)
  moreover have "out = map (\<lambda>j. Inr (Registered (length (ws_leases s) + j))) [0..<Suc (Suc k)]"
    unfolding out(2) ls(3) i by (subst upt_conv_Cons) (simp_all add: map_Suc_upt [symmetric] del: upt_Suc)
  ultimately show ?case using ls i by (intro exI [of _ "?l # ls"]) (simp add: t_def)
qed

text \<open>
  Contending callers share the pool: when \<open>k\<close> uncapped agent calls launched together contend for a
  balance of at least \<open>k\<close> tokens, each gets a registered lease of at least the equal share, and
  together they are granted exactly the balance.
\<close>

theorem contending_calls_share:
  assumes "store_ok s" and "n < length (ws_budgets s)" and "reserved_unspent s (ws_budgets s ! n) \<noteq> None"
    and "remaining s n = Some a" and "0 < k" and "int k \<le> a" and "contend n k s = (s', out)"
  shows "\<exists>ls. ws_leases s' = ws_leases s @ ls \<and> length ls = k \<and>
    out = map (\<lambda>j. Inr (Registered (length (ws_leases s) + j))) [0..<k] \<and>
    list_all (\<lambda>l. \<exists>t. bl_total l = Some t \<and> a div int k \<le> t) ls \<and> remaining s' n = Some 0"
proof -
  obtain j where "k = Suc j" using assms(5) by (cases k) auto
  then show ?thesis using contend_shares [OF assms(1-4), of j s' out] assms(6,7) by simp
qed

theorem contending_calls_share_witness:
  "\<exists>s' ls. contend 0 3 demo_pool = (s', [Inr (Registered 0), Inr (Registered 1), Inr (Registered 2)]) \<and>
     remaining s' 0 = Some 0 \<and> ws_leases s' = ls \<and> list_all (\<lambda>l. \<exists>t. bl_total l = Some t \<and> 33 \<le> t) ls"
proof -
  obtain s' out where c: "contend 0 3 demo_pool = (s', out)" by fastforce
  show ?thesis
    using contending_calls_share [OF _ _ _ demo_pool_remaining _ _ c] c
    by (auto simp: demo_pool_def store_ok_def leases_known_def reserved_unspent_def upt_rec)
qed

end
