(* ===== verification/Schema_Validate.thy ===== *)
theory Schema_Validate
  imports Prelude
begin

text \<open>
  The JSON-Schema subset validator for structured workflow output
  (\<open>application/schema_validate.py\<close>).  Errors are collected in order, each with the path string
  the source builds and a constructor for its message.  The regular-expression engine is given by
  two arguments: whether a pattern compiles and whether it is found in a text.  Lists that the
  source extends in place are returned here.
\<close>

section \<open>Values and keywords\<close>

definition is_number :: "pyval \<Rightarrow> bool" where
  "is_number v = (case v of VInt _ \<Rightarrow> True | VFloat (Fin _) \<Rightarrow> True | _ \<Rightarrow> False)"

definition num_val :: "pyval \<Rightarrow> rat" where
  "num_val v = (case v of VInt i \<Rightarrow> of_int i | VFloat (Fin q) \<Rightarrow> q | _ \<Rightarrow> 0)"

text \<open>\<open>_TYPE_CHECKS\<close>; \<open>None\<close> is a missing key.\<close>

definition type_check :: "string \<Rightarrow> (pyval \<Rightarrow> bool) option" where
  "type_check t =
     (if t = ''object'' then Some is_dict
      else if t = ''array'' then Some is_list
      else if t = ''string'' then Some is_str
      else if t = ''boolean'' then Some is_bool
      else if t = ''integer'' then Some (\<lambda>v. is_number v \<and> num_val v \<in> \<int>)
      else if t = ''number'' then Some is_number
      else if t = ''null'' then Some (\<lambda>v. v = VNone)
      else None)"

definition VALIDATION_KEYWORDS :: "string list" where
  "VALIDATION_KEYWORDS = [''additionalProperties'', ''enum'', ''items'', ''maxItems'', ''maxLength'',
     ''maximum'', ''minItems'', ''minLength'', ''minimum'', ''oneOf'', ''pattern'', ''properties'',
     ''required'', ''type'']"

definition ANNOTATION_KEYWORDS :: "string list" where
  "ANNOTATION_KEYWORDS = [''default'', ''deprecated'', ''description'', ''examples'', ''format'',
     ''readOnly'', ''title'', ''writeOnly'']"

definition SUPPORTED_KEYWORDS :: "string list" where
  "SUPPORTED_KEYWORDS = VALIDATION_KEYWORDS @ ANNOTATION_KEYWORDS @ [''$schema'']"

datatype SchemaProblem =
    NotObject | UnsupportedKeyword | DialectNotRoot | DialectEmpty | UnsupportedType
  | BadRequired | BadProperties | BadAdditional | BadEnum | EnumNotJson
  | NotNonnegative | NotFinite | PatternNotString | PatternInvalid | BadOneOf
  | WrongType | NotInEnum | OneOfCount nat | Missing | Unexpected
  | TooFewItems | TooManyItems | TooShort | TooLong | NoMatch | TooSmall | TooLarge
  | Crash \<comment> \<open>an exception of the validator itself\<close>

type_synonym schema_error = "string \<times> SchemaProblem"

section \<open>Checking a schema\<close>

text \<open>\<open>json.dumps(enum, allow_nan=False)\<close> succeeds.\<close>

fun json_finite :: "pyval \<Rightarrow> bool" where
  "json_finite (VFloat f) = (case f of Fin _ \<Rightarrow> True | _ \<Rightarrow> False)"
| "json_finite (VList xs) = list_all json_finite xs"
| "json_finite (VDict d) = list_all (\<lambda>p. json_finite (snd p)) d"
| "json_finite _ = True"

definition type_members :: "pyval \<Rightarrow> pyval list" where
  "type_members t = (case t of VList ms \<Rightarrow> ms | _ \<Rightarrow> [t])"

definition type_problem :: "pyval \<Rightarrow> bool" where
  "type_problem t =
     (let ms = type_members t
      in ms = [] \<or> list_ex (\<lambda>m. case m of VStr s \<Rightarrow> type_check s = None | _ \<Rightarrow> True) ms)"

definition check_keyword :: "string \<Rightarrow> string \<times> pyval \<Rightarrow> schema_error list" where
  "check_keyword path kv =
     (let (k, v) = kv
      in if k \<notin> set SUPPORTED_KEYWORDS then [(path @ ''.'' @ k, UnsupportedKeyword)]
         else if k = ''$schema''
         then (if path \<noteq> ''$schema'' then [(path @ ''.$schema'', DialectNotRoot)]
               else case v of VStr s \<Rightarrow> if py_strip s = [] then [(path @ ''.$schema'', DialectEmpty)] else []
                    | _ \<Rightarrow> [(path @ ''.$schema'', DialectEmpty)])
         else [])"

definition check_type_keyword :: "string \<Rightarrow> (string \<times> pyval) list \<Rightarrow> schema_error list" where
  "check_type_keyword path d =
     (let t = get d ''type'' in if t \<noteq> VNone \<and> type_problem t then [(path @ ''.type'', UnsupportedType)] else [])"

definition check_required :: "string \<Rightarrow> (string \<times> pyval) list \<Rightarrow> schema_error list" where
  "check_required path d =
     (case map_of d ''required'' of
        None \<Rightarrow> []
      | Some (VList fs) \<Rightarrow> if list_all is_str fs then [] else [(path @ ''.required'', BadRequired)]
      | Some _ \<Rightarrow> [(path @ ''.required'', BadRequired)])"

definition check_enum :: "string \<Rightarrow> (string \<times> pyval) list \<Rightarrow> schema_error list" where
  "check_enum path d =
     (case map_of d ''enum'' of
        None \<Rightarrow> []
      | Some (VList es) \<Rightarrow>
          if es = [] then [(path @ ''.enum'', BadEnum)]
          else if list_all json_finite es then [] else [(path @ ''.enum'', EnumNotJson)]
      | Some _ \<Rightarrow> [(path @ ''.enum'', BadEnum)])"

definition validate_nonnegative_integer :: "string \<Rightarrow> pyval \<Rightarrow> schema_error list" where
  "validate_nonnegative_integer path v =
     (case v of VInt i \<Rightarrow> if i < 0 then [(path, NotNonnegative)] else [] | _ \<Rightarrow> [(path, NotNonnegative)])"

definition check_lengths :: "string \<Rightarrow> (string \<times> pyval) list \<Rightarrow> schema_error list" where
  "check_lengths path d =
     concat (map (\<lambda>k. case map_of d k of None \<Rightarrow> [] | Some v \<Rightarrow> validate_nonnegative_integer (path @ ''.'' @ k) v)
       [''minLength'', ''maxLength'', ''minItems'', ''maxItems''])"

definition check_bounds :: "string \<Rightarrow> (string \<times> pyval) list \<Rightarrow> schema_error list" where
  "check_bounds path d =
     concat (map (\<lambda>k. case map_of d k of None \<Rightarrow> [] | Some v \<Rightarrow> if is_number v then [] else [(path @ ''.'' @ k, NotFinite)])
       [''minimum'', ''maximum''])"

definition check_pattern :: "(string \<Rightarrow> bool) \<Rightarrow> string \<Rightarrow> (string \<times> pyval) list \<Rightarrow> schema_error list" where
  "check_pattern re_ok path d =
     (case map_of d ''pattern'' of
        None \<Rightarrow> []
      | Some (VStr p) \<Rightarrow> if re_ok p then [] else [(path @ ''.pattern'', PatternInvalid)]
      | Some _ \<Rightarrow> [(path @ ''.pattern'', PatternNotString)])"

function validate_schema_node :: "(string \<Rightarrow> bool) \<Rightarrow> string \<Rightarrow> pyval \<Rightarrow> schema_error list" where
  "validate_schema_node re_ok path schema =
     (case schema of
        VDict d \<Rightarrow>
          concat (map (check_keyword path) d)
          @ check_type_keyword path d
          @ check_required path d
          @ (case map_of d ''properties'' of
               None \<Rightarrow> []
             | Some (VDict ps) \<Rightarrow>
                 concat (map (\<lambda>p. validate_schema_node re_ok (path @ ''.properties.'' @ fst p) (snd p)) ps)
             | Some _ \<Rightarrow> [(path @ ''.properties'', BadProperties)])
          @ (case map_of d ''items'' of
               None \<Rightarrow> [] | Some i \<Rightarrow> validate_schema_node re_ok (path @ ''.items'') i)
          @ (case map_of d ''additionalProperties'' of
               None \<Rightarrow> []
             | Some (VDict a) \<Rightarrow> validate_schema_node re_ok (path @ ''.additionalProperties'') (VDict a)
             | Some (VBool _) \<Rightarrow> []
             | Some _ \<Rightarrow> [(path @ ''.additionalProperties'', BadAdditional)])
          @ check_enum path d
          @ check_lengths path d
          @ check_bounds path d
          @ check_pattern re_ok path d
          @ (case map_of d ''oneOf'' of
               None \<Rightarrow> []
             | Some (VList bs) \<Rightarrow>
                 if bs = [] then [(path @ ''.oneOf'', BadOneOf)]
                 else concat (map (\<lambda>q. validate_schema_node re_ok (path @ ''.oneOf['' @ nat_digits (fst q) @ '']'') (snd q))
                                (zip [0..<length bs] bs))
             | Some _ \<Rightarrow> [(path @ ''.oneOf'', BadOneOf)])
      | _ \<Rightarrow> [(path, NotObject)])"
  by pat_completeness auto
termination
  by (relation "measure (\<lambda>(_, _, v). size v)")
    (auto simp del: pyval.size intro: size_nested_dict size_nested_zip dest: size_map_of)

declare validate_schema_node.simps [simp del]

definition validate_schema :: "(string \<Rightarrow> bool) \<Rightarrow> pyval \<Rightarrow> schema_error list" where
  "validate_schema re_ok schema = validate_schema_node re_ok ''$schema'' schema"

section \<open>Checking a value\<close>

text \<open>\<open>_json_equal\<close>; the last branch compares two non-finite floats.\<close>

function json_equal :: "pyval \<Rightarrow> pyval \<Rightarrow> bool" where
  "json_equal l r =
     (if is_bool l \<or> is_bool r then is_bool l \<and> is_bool r \<and> l = r
      else if is_number l \<or> is_number r then is_number l \<and> is_number r \<and> num_val l = num_val r
      else if l = VNone \<or> r = VNone then l = VNone \<and> r = VNone
      else if is_str l \<or> is_str r then is_str l \<and> is_str r \<and> l = r
      else case (l, r) of
        (VList xs, VList ys) \<Rightarrow>
          length xs = length ys \<and> list_all (\<lambda>q. json_equal (fst q) (snd q)) (zip xs ys)
      | (VList _, _) \<Rightarrow> False
      | (_, VList _) \<Rightarrow> False
      | (VDict d, VDict e) \<Rightarrow>
          keys d = keys e \<and>
          list_all (\<lambda>k. case (map_of d k, map_of e k) of (Some a, Some b) \<Rightarrow> json_equal a b | _ \<Rightarrow> False) (map fst d)
      | (VDict _, _) \<Rightarrow> False
      | (_, VDict _) \<Rightarrow> False
      | (VFloat f, VFloat g) \<Rightarrow> f = g \<and> f \<noteq> NaN
      | _ \<Rightarrow> False)"
  by pat_completeness auto
termination
  by (relation "measure (\<lambda>(l, _). size l)")
    (auto simp del: pyval.size intro: size_list_entry size_map_of_sym dest: set_zip_leftD)

declare json_equal.simps [simp del]

text \<open>A checked schema names types by strings; on other values the source would raise.\<close>

function check_type :: "pyval \<Rightarrow> pyval \<Rightarrow> bool" where
  "check_type v t =
     (case t of
        VList ms \<Rightarrow> list_ex (check_type v) ms
      | VStr s \<Rightarrow> (case type_check s of None \<Rightarrow> False | Some chk \<Rightarrow> chk v)
      | _ \<Rightarrow> False)"
  by pat_completeness auto
termination
  by (relation "measure (\<lambda>(_, t). size t)") (auto simp del: pyval.size intro: size_list_entry)

declare check_type.simps [simp del]

text \<open>An optional non-negative bound: \<open>None\<close> when absent or null.\<close>

definition int_bound :: "(string \<times> pyval) list \<Rightarrow> string \<Rightarrow> int option" where
  "int_bound d k = (case map_of d k of Some (VInt i) \<Rightarrow> Some i | _ \<Rightarrow> None)"

definition bad_bound :: "(string \<times> pyval) list \<Rightarrow> string \<Rightarrow> bool" where
  "bad_bound d k = (case get d k of VNone \<Rightarrow> False | VInt _ \<Rightarrow> False | _ \<Rightarrow> True)"

definition lower_bound :: "(string \<times> pyval) list \<Rightarrow> string \<Rightarrow> string \<Rightarrow> nat \<Rightarrow> SchemaProblem \<Rightarrow> schema_error list" where
  "lower_bound d k path n e =
     (if bad_bound d k then [(path, Crash)]
      else case int_bound d k of Some m \<Rightarrow> if int n < m then [(path, e)] else [] | None \<Rightarrow> [])"

definition upper_bound :: "(string \<times> pyval) list \<Rightarrow> string \<Rightarrow> string \<Rightarrow> nat \<Rightarrow> SchemaProblem \<Rightarrow> schema_error list" where
  "upper_bound d k path n e =
     (if bad_bound d k then [(path, Crash)]
      else case int_bound d k of Some m \<Rightarrow> if m < int n then [(path, e)] else [] | None \<Rightarrow> [])"

definition validate_string :: "(string \<Rightarrow> string \<Rightarrow> bool) \<Rightarrow> string \<Rightarrow> (string \<times> pyval) list \<Rightarrow> string \<Rightarrow> schema_error list" where
  "validate_string re_search s d path =
     lower_bound d ''minLength'' path (length s) TooShort
     @ upper_bound d ''maxLength'' path (length s) TooLong
     @ (case get d ''pattern'' of
          VNone \<Rightarrow> [] | VStr p \<Rightarrow> if re_search p s then [] else [(path, NoMatch)] | _ \<Rightarrow> [(path, Crash)])"

definition validate_number :: "pyval \<Rightarrow> (string \<times> pyval) list \<Rightarrow> string \<Rightarrow> schema_error list" where
  "validate_number v d path =
     (let lo = get d ''minimum''; hi = get d ''maximum''
      in (if lo = VNone then [] else if \<not> is_number lo then [(path, Crash)]
          else if num_val v < num_val lo then [(path, TooSmall)] else [])
       @ (if hi = VNone then [] else if \<not> is_number hi then [(path, Crash)]
          else if num_val hi < num_val v then [(path, TooLarge)] else []))"

definition missing_fields :: "(string \<times> pyval) list \<Rightarrow> (string \<times> pyval) list \<Rightarrow> string \<Rightarrow> schema_error list" where
  "missing_fields obj d path =
     (case map_of d ''required'' of
        None \<Rightarrow> []
      | Some (VList fs) \<Rightarrow>
          concat (map (\<lambda>f. case f of VStr k \<Rightarrow> if k \<in> keys obj then [] else [(path @ ''.'' @ k, Missing)]
                          | _ \<Rightarrow> [(path, Crash)]) fs)
      | Some _ \<Rightarrow> [(path, Crash)])"

function validate_node ::
  "(string \<Rightarrow> string \<Rightarrow> bool) \<Rightarrow> pyval \<Rightarrow> pyval \<Rightarrow> string \<Rightarrow> schema_error list" where
  "validate_node re_search v schema path =
     (case schema of
        VDict d \<Rightarrow>
          (if get d ''type'' \<noteq> VNone \<and> \<not> check_type v (get d ''type'') then [(path, WrongType)]
           else
             (case get d ''enum'' of
                VNone \<Rightarrow> []
              | VList es \<Rightarrow> if list_ex (json_equal v) es then [] else [(path, NotInEnum)]
              | _ \<Rightarrow> [(path, Crash)])
             @ (case map_of d ''oneOf'' of
                  None \<Rightarrow> []
                | Some (VList bs) \<Rightarrow>
                    let n = length (filter (\<lambda>b. validate_node re_search v b path = []) bs)
                    in if n \<noteq> 1 then [(path, OneOfCount n)] else []
                | Some VNone \<Rightarrow> []
                | Some _ \<Rightarrow> [(path, Crash)])
             @ (case v of VStr s \<Rightarrow> validate_string re_search s d path | _ \<Rightarrow> [])
             @ (if is_number v then validate_number v d path else [])
             @ (case v of
                  VDict obj \<Rightarrow>
                    missing_fields obj d path
                    @ (case map_of d ''properties'' of
                         None \<Rightarrow> []
                       | Some (VDict ps) \<Rightarrow>
                           concat (map (\<lambda>p. case map_of obj (fst p) of
                                None \<Rightarrow> []
                              | Some w \<Rightarrow> validate_node re_search w (snd p) (path @ ''.'' @ fst p)) ps)
                       | Some _ \<Rightarrow> [(path, Crash)])
                    @ (let declared = (case map_of d ''properties'' of Some (VDict ps) \<Rightarrow> keys ps | _ \<Rightarrow> {})
                       in case map_of d ''additionalProperties'' of
                            Some (VBool False) \<Rightarrow>
                              concat (map (\<lambda>p. if fst p \<in> declared then [] else [(path @ ''.'' @ fst p, Unexpected)]) obj)
                          | Some (VDict a) \<Rightarrow>
                              concat (map (\<lambda>p. if fst p \<in> declared then []
                                   else validate_node re_search (snd p) (VDict a) (path @ ''.'' @ fst p)) obj)
                          | _ \<Rightarrow> [])
                | VList xs \<Rightarrow>
                    lower_bound d ''minItems'' path (length xs) TooFewItems
                    @ upper_bound d ''maxItems'' path (length xs) TooManyItems
                    @ (case map_of d ''items'' of
                         None \<Rightarrow> []
                       | Some i \<Rightarrow>
                           if i = VNone then []
                           else concat (map (\<lambda>q. validate_node re_search (snd q) i (path @ ''['' @ nat_digits (fst q) @ '']''))
                                          (zip [0..<length xs] xs)))
                | _ \<Rightarrow> []))
      | _ \<Rightarrow> [(path, Crash)])"
  by pat_completeness auto
termination
  by (relation "measure (\<lambda>(_, _, s, _). size s)")
    (auto simp del: pyval.size intro: size_nested_dict size_nested_list dest: size_map_of)

declare validate_node.simps [simp del]

definition validate :: "(string \<Rightarrow> bool) \<Rightarrow> (string \<Rightarrow> string \<Rightarrow> bool) \<Rightarrow> pyval \<Rightarrow> pyval \<Rightarrow> schema_error list" where
  "validate re_ok re_search v schema =
     (let errors = validate_schema re_ok schema
      in if errors \<noteq> [] then errors else validate_node re_search v schema ''$'')"

section \<open>What conformance means\<close>

text \<open>The meaning of a schema, keyword by keyword, without error collection.\<close>

definition in_range :: "(string \<times> pyval) list \<Rightarrow> string \<Rightarrow> string \<Rightarrow> nat \<Rightarrow> bool" where
  "in_range d lo hi n =
     ((case int_bound d lo of Some m \<Rightarrow> m \<le> int n | None \<Rightarrow> True) \<and>
      (case int_bound d hi of Some m \<Rightarrow> int n \<le> m | None \<Rightarrow> True))"

definition string_conforms :: "(string \<Rightarrow> string \<Rightarrow> bool) \<Rightarrow> string \<Rightarrow> (string \<times> pyval) list \<Rightarrow> bool" where
  "string_conforms re_search s d =
     (in_range d ''minLength'' ''maxLength'' (length s) \<and>
      (case map_of d ''pattern'' of Some (VStr p) \<Rightarrow> re_search p s | _ \<Rightarrow> True))"

definition number_conforms :: "pyval \<Rightarrow> (string \<times> pyval) list \<Rightarrow> bool" where
  "number_conforms v d =
     ((case map_of d ''minimum'' of Some lo \<Rightarrow> num_val lo \<le> num_val v | None \<Rightarrow> True) \<and>
      (case map_of d ''maximum'' of Some hi \<Rightarrow> num_val v \<le> num_val hi | None \<Rightarrow> True))"

definition required_present :: "(string \<times> pyval) list \<Rightarrow> (string \<times> pyval) list \<Rightarrow> bool" where
  "required_present obj d =
     (case map_of d ''required'' of
        Some (VList fs) \<Rightarrow> list_all (\<lambda>f. case f of VStr k \<Rightarrow> k \<in> keys obj | _ \<Rightarrow> True) fs
      | _ \<Rightarrow> True)"

definition declared_properties :: "(string \<times> pyval) list \<Rightarrow> string set" where
  "declared_properties d = (case map_of d ''properties'' of Some (VDict ps) \<Rightarrow> keys ps | _ \<Rightarrow> {})"

function conforms :: "(string \<Rightarrow> string \<Rightarrow> bool) \<Rightarrow> pyval \<Rightarrow> pyval \<Rightarrow> bool" where
  "conforms re_search v schema =
     (case schema of
        VDict d \<Rightarrow>
          (get d ''type'' = VNone \<or> check_type v (get d ''type'')) \<and>
          (case map_of d ''enum'' of Some (VList es) \<Rightarrow> list_ex (json_equal v) es | _ \<Rightarrow> True) \<and>
          (case map_of d ''oneOf'' of
             Some (VList bs) \<Rightarrow> length (filter (\<lambda>b. conforms re_search v b) bs) = 1 | _ \<Rightarrow> True) \<and>
          (case v of VStr s \<Rightarrow> string_conforms re_search s d | _ \<Rightarrow> True) \<and>
          (is_number v \<longrightarrow> number_conforms v d) \<and>
          (case v of
             VDict obj \<Rightarrow>
               required_present obj d \<and>
               (case map_of d ''properties'' of
                  Some (VDict ps) \<Rightarrow>
                    list_all (\<lambda>p. case map_of obj (fst p) of
                      Some w \<Rightarrow> conforms re_search w (snd p) | None \<Rightarrow> True) ps
                | _ \<Rightarrow> True) \<and>
               (case map_of d ''additionalProperties'' of
                  Some (VBool b) \<Rightarrow> b \<or> keys obj \<subseteq> declared_properties d
                | Some (VDict a) \<Rightarrow>
                    list_all (\<lambda>p. fst p \<in> declared_properties d \<or> conforms re_search (snd p) (VDict a)) obj
                | _ \<Rightarrow> True)
           | VList xs \<Rightarrow>
               in_range d ''minItems'' ''maxItems'' (length xs) \<and>
               (case map_of d ''items'' of Some i \<Rightarrow> list_all (\<lambda>x. conforms re_search x i) xs | None \<Rightarrow> True)
           | _ \<Rightarrow> True)
      | _ \<Rightarrow> False)"
  by pat_completeness auto
termination
  by (relation "measure (\<lambda>(_, _, s). size s)")
    (auto simp del: pyval.size intro: size_nested_dict size_nested_list dest: size_map_of)

declare conforms.simps [simp del]

section \<open>Accepted schemas\<close>

definition wf_schema :: "(string \<Rightarrow> bool) \<Rightarrow> pyval \<Rightarrow> bool" where
  "wf_schema re_ok s = (\<exists>path. validate_schema_node re_ok path s = [])"

lemma wf_schema_dict: "wf_schema re_ok s \<Longrightarrow> \<exists>d. s = VDict d"
  unfolding wf_schema_def by (cases s) (auto simp: validate_schema_node.simps)

text \<open>What an accepted node says of its keywords.\<close>

lemma wf_schemaD:
  assumes "wf_schema re_ok (VDict d)"
  shows "\<And>v. map_of d ''required'' = Some v \<Longrightarrow> \<exists>fs. v = VList fs \<and> list_all is_str fs"
    and "\<And>v. map_of d ''enum'' = Some v \<Longrightarrow> \<exists>es. v = VList es"
    and "\<And>k v. k \<in> {''minLength'', ''maxLength'', ''minItems'', ''maxItems''} \<Longrightarrow> map_of d k = Some v \<Longrightarrow> \<exists>i. v = VInt i"
    and "\<And>k v. k \<in> {''minimum'', ''maximum''} \<Longrightarrow> map_of d k = Some v \<Longrightarrow> is_number v"
    and "\<And>v. map_of d ''pattern'' = Some v \<Longrightarrow> is_str v"
    and "\<And>v. map_of d ''properties'' = Some v \<Longrightarrow>
      \<exists>ps. v = VDict ps \<and> (\<forall>p \<in> set ps. wf_schema re_ok (snd p))"
    and "\<And>v. map_of d ''items'' = Some v \<Longrightarrow> wf_schema re_ok v"
    and "\<And>v. map_of d ''additionalProperties'' = Some v \<Longrightarrow> (is_dict v \<and> wf_schema re_ok v) \<or> is_bool v"
    and "\<And>v. map_of d ''oneOf'' = Some v \<Longrightarrow> \<exists>bs. v = VList bs \<and> (\<forall>b \<in> set bs. wf_schema re_ok b)"
proof -
  obtain path where e: "validate_schema_node re_ok path (VDict d) = []" using assms by (auto simp: wf_schema_def)
  note n = e [unfolded validate_schema_node.simps [of re_ok path "VDict d"], simplified]
  have parts: "check_required path d = []" "check_enum path d = []" "check_lengths path d = []"
      "check_bounds path d = []" "check_pattern re_ok path d = []" using n by blast+
  show "\<exists>fs. v = VList fs \<and> list_all is_str fs" if "map_of d ''required'' = Some v" for v
    using parts(1) that by (cases v) (simp_all add: check_required_def split: if_splits)
  show "\<exists>es. v = VList es" if "map_of d ''enum'' = Some v" for v
    using parts(2) that by (cases v) (simp_all add: check_enum_def)
  show "\<exists>i. v = VInt i" if "k \<in> {''minLength'', ''maxLength'', ''minItems'', ''maxItems''}" "map_of d k = Some v" for k v
  proof -
    have "validate_nonnegative_integer (path @ ''.'' @ k) v = []"
      using parts(3) that by (auto simp: check_lengths_def)
    then show ?thesis by (cases v) (simp_all add: validate_nonnegative_integer_def)
  qed
  show "is_number v" if "k \<in> {''minimum'', ''maximum''}" "map_of d k = Some v" for k v
    using parts(4) that by (auto simp: check_bounds_def split: if_splits)
  show "is_str v" if "map_of d ''pattern'' = Some v" for v
    using parts(5) that by (cases v) (simp_all add: check_pattern_def)
  show "\<exists>ps. v = VDict ps \<and> (\<forall>p \<in> set ps. wf_schema re_ok (snd p))" if "map_of d ''properties'' = Some v" for v
    using n that by (cases v) (auto simp: wf_schema_def)
  show "wf_schema re_ok v" if "map_of d ''items'' = Some v" for v
    using n that by (auto simp: wf_schema_def)
  show "(is_dict v \<and> wf_schema re_ok v) \<or> is_bool v" if "map_of d ''additionalProperties'' = Some v" for v
    using n that by (cases v) (auto simp: wf_schema_def)
  show "\<exists>bs. v = VList bs \<and> (\<forall>b \<in> set bs. wf_schema re_ok b)" if one: "map_of d ''oneOf'' = Some v" for v
  proof -
    have "is_list v" using n one by (cases v) simp_all
    then obtain bs where bs: "v = VList bs" by (auto simp: is_list_conv)
    have "\<forall>q \<in> set (zip [0..<length bs] bs). wf_schema re_ok (snd q)"
      using n one bs by (auto simp: wf_schema_def split: if_splits)
    moreover have "\<exists>i. (i, b) \<in> set (zip [0..<length bs] bs)" if "b \<in> set bs" for b
      using that by (rule enumerate_member)
    ultimately show ?thesis using bs by fastforce
  qed
qed

section \<open>Errors and conformance agree\<close>

definition sound :: "schema_error list \<Rightarrow> bool \<Rightarrow> bool" where
  "sound es ok = ((es = [] \<longleftrightarrow> ok) \<and> list_all (\<lambda>e. snd e \<noteq> Crash) es)"

lemma sound_Nil [simp]: "sound [] True"
  by (simp add: sound_def)

lemma sound_append: "sound a p \<Longrightarrow> sound b q \<Longrightarrow> sound (a @ b) (p \<and> q)"
  by (auto simp: sound_def)

lemma sound_concat:
  "(\<And>x. x \<in> set xs \<Longrightarrow> sound (f x) (P x)) \<Longrightarrow> sound (concat (map f xs)) (list_all P xs)"
  by (induction xs) (auto simp: sound_def)

lemma range_sound:
  assumes "\<And>k v. k \<in> {lo, hi} \<Longrightarrow> map_of d k = Some v \<Longrightarrow> \<exists>i. v = VInt i" and "e \<noteq> Crash" and "f \<noteq> Crash"
  shows "sound (lower_bound d lo path n e @ upper_bound d hi path n f) (in_range d lo hi n)"
proof -
  have ok: "\<not> bad_bound d k" if "k \<in> {lo, hi}" for k
    using assms(1) [OF that] by (auto simp: bad_bound_def get_def split: option.splits)
  have "sound (lower_bound d lo path n e) (case int_bound d lo of Some m \<Rightarrow> m \<le> int n | None \<Rightarrow> True)"
    using ok [of lo] assms(2) by (auto simp: lower_bound_def sound_def split: option.split)
  moreover have "sound (upper_bound d hi path n f) (case int_bound d hi of Some m \<Rightarrow> int n \<le> m | None \<Rightarrow> True)"
    using ok [of hi] assms(3) by (auto simp: upper_bound_def sound_def split: option.split)
  ultimately show ?thesis unfolding in_range_def by (rule sound_append)
qed

lemma string_sound:
  assumes wf: "wf_schema re_ok (VDict d)"
  shows "sound (validate_string re_search s d path) (string_conforms re_search s d)"
proof -
  have "sound (lower_bound d ''minLength'' path (length s) TooShort @ upper_bound d ''maxLength'' path (length s) TooLong)
      (in_range d ''minLength'' ''maxLength'' (length s))"
    by (rule range_sound) (use wf_schemaD(3) [OF wf] in \<open>auto\<close>)
  moreover have "sound (case get d ''pattern'' of VNone \<Rightarrow> [] | VStr p \<Rightarrow> if re_search p s then [] else [(path, NoMatch)]
      | _ \<Rightarrow> [(path, Crash)]) (case map_of d ''pattern'' of Some (VStr p) \<Rightarrow> re_search p s | _ \<Rightarrow> True)"
    using wf_schemaD(5) [OF wf] by (cases "map_of d ''pattern''") (auto simp: get_def sound_def split: if_splits)
  ultimately have "sound ((lower_bound d ''minLength'' path (length s) TooShort @
      upper_bound d ''maxLength'' path (length s) TooLong) @ (case get d ''pattern'' of VNone \<Rightarrow> []
      | VStr p \<Rightarrow> if re_search p s then [] else [(path, NoMatch)] | _ \<Rightarrow> [(path, Crash)])) (string_conforms re_search s d)"
    unfolding string_conforms_def by (rule sound_append)
  then show ?thesis by (simp add: validate_string_def)
qed

lemma number_not_none: "is_number v \<Longrightarrow> v \<noteq> VNone"
  by (auto simp: is_number_def)

lemma number_sound:
  assumes wf: "wf_schema re_ok (VDict d)"
  shows "sound (validate_number v d path) (number_conforms v d)"
proof -
  have b: "\<And>v. map_of d ''minimum'' = Some v \<Longrightarrow> is_number v" "\<And>v. map_of d ''maximum'' = Some v \<Longrightarrow> is_number v"
    using wf_schemaD(4) [OF wf] by auto
  show ?thesis unfolding validate_number_def number_conforms_def Let_def
    by (rule sound_append)
      (use b number_not_none in \<open>force simp: get_def sound_def not_less split: option.split\<close>)+
qed

lemma required_sound:
  assumes wf: "wf_schema re_ok (VDict d)"
  shows "sound (missing_fields obj d path) (required_present obj d)"
proof (cases "map_of d ''required''")
  case None
  then show ?thesis by (simp add: missing_fields_def required_present_def)
next
  case (Some v)
  then obtain fs where fs: "v = VList fs" "list_all is_str fs" using wf_schemaD(1) [OF wf] by blast
  have "sound (concat (map (\<lambda>f. case f of VStr k \<Rightarrow> if k \<in> keys obj then [] else [(path @ ''.'' @ k, Missing)]
      | _ \<Rightarrow> [(path, Crash)]) fs)) (list_all (\<lambda>f. case f of VStr k \<Rightarrow> k \<in> keys obj | _ \<Rightarrow> True) fs)"
  proof (rule sound_concat)
    fix f
    assume "f \<in> set fs"
    then obtain k where "f = VStr k" using fs(2) by (auto simp: list_all_iff is_str_conv)
    then show "sound (case f of VStr k \<Rightarrow> if k \<in> keys obj then [] else [(path @ ''.'' @ k, Missing)]
        | _ \<Rightarrow> [(path, Crash)]) (case f of VStr k \<Rightarrow> k \<in> keys obj | _ \<Rightarrow> True)"
      by (simp add: sound_def)
  qed
  then show ?thesis using Some fs(1) by (simp add: missing_fields_def required_present_def)
qed

lemma enum_sound:
  assumes wf: "wf_schema re_ok (VDict d)"
  shows "sound (case get d ''enum'' of VNone \<Rightarrow> []
      | VList es \<Rightarrow> if list_ex (json_equal v) es then [] else [(path, NotInEnum)] | _ \<Rightarrow> [(path, Crash)])
    (case map_of d ''enum'' of Some (VList es) \<Rightarrow> list_ex (json_equal v) es | _ \<Rightarrow> True)"
proof (cases "map_of d ''enum''")
  case None
  then show ?thesis by (simp add: get_def)
next
  case (Some e)
  then obtain es where "e = VList es" using wf_schemaD(2) [OF wf] by blast
  then show ?thesis using Some by (simp add: get_def sound_def)
qed

lemma one_of_sound:
  assumes wf: "wf_schema re_ok (VDict d)"
    and IH: "\<And>b. size b < size (VDict d) \<Longrightarrow> wf_schema re_ok b \<Longrightarrow> sound (validate_node rs v b path) (conforms rs v b)"
  shows "sound (case map_of d ''oneOf'' of None \<Rightarrow> []
      | Some (VList bs) \<Rightarrow> let n = length (filter (\<lambda>b. validate_node rs v b path = []) bs)
          in if n \<noteq> 1 then [(path, OneOfCount n)] else []
      | Some VNone \<Rightarrow> [] | Some _ \<Rightarrow> [(path, Crash)])
    (case map_of d ''oneOf'' of Some (VList bs) \<Rightarrow> length (filter (\<lambda>b. conforms rs v b) bs) = 1 | _ \<Rightarrow> True)"
proof (cases "map_of d ''oneOf''")
  case None
  then show ?thesis by simp
next
  case (Some e)
  then obtain bs where bs: "e = VList bs" "\<forall>b \<in> set bs. wf_schema re_ok b" using wf_schemaD(9) [OF wf] by blast
  have "filter (\<lambda>b. validate_node rs v b path = []) bs = filter (\<lambda>b. conforms rs v b) bs"
    using IH bs Some by (intro filter_cong) (auto simp: sound_def simp del: pyval.size intro: size_nested_list)
  then show ?thesis using Some bs(1) by (simp add: sound_def Let_def)
qed

lemma properties_sound:
  assumes wf: "wf_schema re_ok (VDict d)"
    and IH: "\<And>b w p. size b < size (VDict d) \<Longrightarrow> wf_schema re_ok b \<Longrightarrow> sound (validate_node rs w b p) (conforms rs w b)"
  shows "sound (case map_of d ''properties'' of None \<Rightarrow> []
      | Some (VDict ps) \<Rightarrow> concat (map (\<lambda>p. case map_of obj (fst p) of None \<Rightarrow> []
          | Some w \<Rightarrow> validate_node rs w (snd p) (path @ ''.'' @ fst p)) ps)
      | Some _ \<Rightarrow> [(path, Crash)])
    (case map_of d ''properties'' of Some (VDict ps) \<Rightarrow> list_all (\<lambda>p. case map_of obj (fst p) of
        Some w \<Rightarrow> conforms rs w (snd p) | None \<Rightarrow> True) ps | _ \<Rightarrow> True)"
proof (cases "map_of d ''properties''")
  case None
  then show ?thesis by simp
next
  case (Some e)
  then obtain ps where ps: "e = VDict ps" "\<forall>p \<in> set ps. wf_schema re_ok (snd p)" using wf_schemaD(6) [OF wf] by blast
  have "sound (concat (map (\<lambda>p. case map_of obj (fst p) of None \<Rightarrow> []
        | Some w \<Rightarrow> validate_node rs w (snd p) (path @ ''.'' @ fst p)) ps))
      (list_all (\<lambda>p. case map_of obj (fst p) of Some w \<Rightarrow> conforms rs w (snd p) | None \<Rightarrow> True) ps)"
    using IH ps Some by (intro sound_concat) (auto simp del: pyval.size intro: size_nested_dict split: option.split)
  then show ?thesis using Some ps(1) by simp
qed

lemma additional_sound:
  assumes wf: "wf_schema re_ok (VDict d)"
    and IH: "\<And>b w p. size b < size (VDict d) \<Longrightarrow> wf_schema re_ok b \<Longrightarrow> sound (validate_node rs w b p) (conforms rs w b)"
  shows "sound (let declared = (case map_of d ''properties'' of Some (VDict ps) \<Rightarrow> keys ps | _ \<Rightarrow> {})
       in case map_of d ''additionalProperties'' of
            Some (VBool False) \<Rightarrow> concat (map (\<lambda>p. if fst p \<in> declared then [] else [(path @ ''.'' @ fst p, Unexpected)]) obj)
          | Some (VDict a) \<Rightarrow> concat (map (\<lambda>p. if fst p \<in> declared then []
                 else validate_node rs (snd p) (VDict a) (path @ ''.'' @ fst p)) obj)
          | _ \<Rightarrow> [])
    (case map_of d ''additionalProperties'' of
       Some (VBool b) \<Rightarrow> b \<or> keys obj \<subseteq> declared_properties d
     | Some (VDict a) \<Rightarrow> list_all (\<lambda>p. fst p \<in> declared_properties d \<or> conforms rs (snd p) (VDict a)) obj
     | _ \<Rightarrow> True)"
  unfolding declared_properties_def [symmetric] Let_def
proof (cases "map_of d ''additionalProperties''")
  case (Some e)
  consider a where "e = VDict a" "wf_schema re_ok (VDict a)" | b where "e = VBool b"
    using wf_schemaD(8) [OF wf Some] by (auto simp: is_dict_conv is_bool_conv)
  then show "sound (case map_of d ''additionalProperties'' of
            Some (VBool False) \<Rightarrow> concat (map (\<lambda>p. if fst p \<in> declared_properties d then [] else [(path @ ''.'' @ fst p, Unexpected)]) obj)
          | Some (VDict a) \<Rightarrow> concat (map (\<lambda>p. if fst p \<in> declared_properties d then []
                 else validate_node rs (snd p) (VDict a) (path @ ''.'' @ fst p)) obj)
          | _ \<Rightarrow> []) (case map_of d ''additionalProperties'' of
       Some (VBool b) \<Rightarrow> b \<or> keys obj \<subseteq> declared_properties d
     | Some (VDict a) \<Rightarrow> list_all (\<lambda>p. fst p \<in> declared_properties d \<or> conforms rs (snd p) (VDict a)) obj
     | _ \<Rightarrow> True)"
  proof cases
    case 1
    have "sound (concat (map (\<lambda>p. if fst p \<in> declared_properties d then []
          else validate_node rs (snd p) (VDict a) (path @ ''.'' @ fst p)) obj))
        (list_all (\<lambda>p. fst p \<in> declared_properties d \<or> conforms rs (snd p) (VDict a)) obj)"
      using IH [OF size_map_of [OF Some [unfolded 1(1)]] 1(2)] by (intro sound_concat) simp
    then show ?thesis using Some 1(1) by simp
  next
    case 2
    have "sound (concat (map (\<lambda>p. if fst p \<in> declared_properties d then [] else [(path @ ''.'' @ fst p, Unexpected)]) obj))
        (list_all (\<lambda>p. fst p \<in> declared_properties d) obj)"
      by (intro sound_concat) (simp add: sound_def)
    moreover have "list_all (\<lambda>p. fst p \<in> declared_properties d) obj = (keys obj \<subseteq> declared_properties d)"
      by (auto simp: list_all_iff)
    ultimately show ?thesis using Some 2 by (cases b) simp_all
  qed
qed simp

lemma items_sound:
  assumes wf: "wf_schema re_ok (VDict d)"
    and IH: "\<And>b w p. size b < size (VDict d) \<Longrightarrow> wf_schema re_ok b \<Longrightarrow> sound (validate_node rs w b p) (conforms rs w b)"
  shows "sound (case map_of d ''items'' of None \<Rightarrow> []
      | Some i \<Rightarrow> if i = VNone then []
          else concat (map (\<lambda>q. validate_node rs (snd q) i (path @ ''['' @ nat_digits (fst q) @ '']'')) (zip [0..<length xs] xs)))
    (case map_of d ''items'' of Some i \<Rightarrow> list_all (\<lambda>x. conforms rs x i) xs | None \<Rightarrow> True)"
proof (cases "map_of d ''items''")
  case None
  then show ?thesis by simp
next
  case (Some i)
  then have i: "wf_schema re_ok i" using wf_schemaD(7) [OF wf] by blast
  then have "i \<noteq> VNone" using wf_schema_dict by blast
  moreover have "sound (concat (map (\<lambda>q. validate_node rs (snd q) i (path @ ''['' @ nat_digits (fst q) @ '']''))
      (zip [0..<length xs] xs))) (list_all (\<lambda>q. conforms rs (snd q) i) (zip [0..<length xs] xs))"
    using IH [OF size_map_of [OF Some] i] by (intro sound_concat)
  ultimately show ?thesis using Some by (simp add: list_all_enumerate [where P = "\<lambda>x. conforms rs x i"])
qed

lemma validate_node_sound:
  "wf_schema re_ok schema \<Longrightarrow> sound (validate_node rs v schema path) (conforms rs v schema)"
proof (induction schema arbitrary: v path rule: measure_induct_rule [of size])
  case (less schema)
  obtain d where d: "schema = VDict d" using wf_schema_dict less.prems by blast
  have wf: "wf_schema re_ok (VDict d)" using less.prems d by simp
  have IH: "\<And>b w p. size b < size (VDict d) \<Longrightarrow> wf_schema re_ok b \<Longrightarrow> sound (validate_node rs w b p) (conforms rs w b)"
    using less.IH d by blast
  note enum = enum_sound [OF wf] and one = one_of_sound [OF wf IH]
  have str: "sound (case v of VStr s \<Rightarrow> validate_string rs s d path | _ \<Rightarrow> [])
      (case v of VStr s \<Rightarrow> string_conforms rs s d | _ \<Rightarrow> True)"
    using string_sound [OF wf] by (cases v) simp_all
  have num: "sound (if is_number v then validate_number v d path else []) (is_number v \<longrightarrow> number_conforms v d)"
    using number_sound [OF wf] by simp
  have range: "sound (lower_bound d ''minItems'' path n TooFewItems @ upper_bound d ''maxItems'' path n TooManyItems)
      (in_range d ''minItems'' ''maxItems'' n)" for n
    by (rule range_sound) (use wf_schemaD(3) [OF wf] in auto)
  note obj = sound_append [OF required_sound [OF wf] sound_append [OF properties_sound [OF wf IH] additional_sound [OF wf IH]]]
  note arr = sound_append [OF range items_sound [OF wf IH], simplified append_assoc]
  show ?case
  proof (cases "get d ''type'' \<noteq> VNone \<and> \<not> check_type v (get d ''type'')")
    case True
    then show ?thesis unfolding d validate_node.simps [of rs v "VDict d"] conforms.simps [of rs v "VDict d"]
      by (simp add: sound_def)
  next
    case False
    then have t: "(get d ''type'' = VNone \<or> check_type v (get d ''type'')) = True" by blast
    have cont: "(\<And>obj. v = VDict obj \<Longrightarrow> sound (e1 obj) (p1 obj)) \<Longrightarrow> (\<And>xs. v = VList xs \<Longrightarrow> sound (e2 xs) (p2 xs)) \<Longrightarrow>
      sound (case v of VDict obj \<Rightarrow> e1 obj | VList xs \<Rightarrow> e2 xs | _ \<Rightarrow> []) (case v of VDict obj \<Rightarrow> p1 obj | VList xs \<Rightarrow> p2 xs | _ \<Rightarrow> True)"
      for e1 p1 e2 p2 by (cases v) simp_all
    show ?thesis
      unfolding d validate_node.simps [of rs v "VDict d"] conforms.simps [of rs v "VDict d"] pyval.case
        if_not_P [OF False] t simp_thms
      by (rule sound_append [OF enum sound_append [OF one sound_append [OF str sound_append [OF num cont]]]])
        (assumption | rule TrueI | rule obj | rule arr)+
  qed
qed

section \<open>JSON equality\<close>

text \<open>Values that JSON can carry: finite numbers and distinct object keys.\<close>

fun json_value :: "pyval \<Rightarrow> bool" where
  "json_value (VFloat f) = (case f of Fin _ \<Rightarrow> True | _ \<Rightarrow> False)"
| "json_value (VList xs) = list_all json_value xs"
| "json_value (VDict d) = (dict_ok d \<and> list_all (\<lambda>p. json_value (snd p)) d)"
| "json_value _ = True"

lemma is_number_simps [simp]:
  "is_number (VInt i)" "is_number (VFloat (Fin q))" "\<not> is_number VNone" "\<not> is_number (VBool b)"
  "\<not> is_number (VStr s)" "\<not> is_number (VList xs)" "\<not> is_number (VDict d)" "\<not> is_number (VFloat NaN)"
  by (simp_all add: is_number_def)

lemma json_equal_list:
  "json_equal (VList xs) (VList ys) \<longleftrightarrow> length xs = length ys \<and> list_all (\<lambda>q. json_equal (fst q) (snd q)) (zip xs ys)"
  by (subst json_equal.simps) simp

lemma json_equal_dict:
  "json_equal (VDict d) (VDict e) \<longleftrightarrow> keys d = keys e \<and>
     (\<forall>k \<in> keys d. \<exists>a b. map_of d k = Some a \<and> map_of e k = Some b \<and> json_equal a b)"
proof -
  have "(case (x, y) of (Some a, Some b) \<Rightarrow> json_equal a b | _ \<Rightarrow> False) \<longleftrightarrow> (\<exists>a b. x = Some a \<and> y = Some b \<and> json_equal a b)"
    for x y by (cases x; cases y) simp_all
  then show ?thesis by (subst json_equal.simps) (simp add: list_all_iff)
qed

text \<open>On anything but two arrays or two objects, equality is identity or numeric equality.\<close>

lemma json_equal_scalar:
  assumes "\<not> (is_list a \<and> is_list b)" and "\<not> (is_dict a \<and> is_dict b)"
  shows "json_equal a b \<longleftrightarrow> (a = b \<and> a \<noteq> VFloat NaN) \<or> (is_number a \<and> is_number b \<and> num_val a = num_val b)"
  using assms by (cases a; cases b; subst json_equal.simps; auto)

lemma json_value_number: "json_value (VFloat f) \<Longrightarrow> is_number (VFloat f)"
  by (cases f) simp_all

lemma json_equal_refl: "json_value v \<Longrightarrow> json_equal v v"
proof (induction v rule: measure_induct_rule [of size])
  case (less v)
  show ?case
  proof (cases v)
    case (VList xs)
    have "json_equal x x" if "x \<in> set xs" for x
      using less.IH [of x] less.prems size_list_entry [OF that] that by (auto simp: VList list_all_iff)
    then show ?thesis by (auto simp: VList json_equal_list list_all_iff zip_same_conv_map)
  next
    case (VDict d)
    have "json_equal a a" if "map_of d k = Some a" for k a
      using less.IH [of a] less.prems size_map_of [OF that] map_of_SomeD [OF that] by (auto simp: VDict list_all_iff)
    then show ?thesis unfolding VDict json_equal_dict using keys_lookup by metis
  next
    case (VFloat f)
    then show ?thesis using json_value_number [of f] less.prems by (subst json_equal.simps) simp
  qed (subst json_equal.simps, simp)+
qed

lemma json_equal_sym: "json_equal a b \<Longrightarrow> json_equal b a"
proof (induction a arbitrary: b rule: measure_induct_rule [of size])
  case (less a)
  show ?case
  proof (cases "is_list a \<and> is_list b \<or> is_dict a \<and> is_dict b")
    case False
    then have "\<not> (is_list a \<and> is_list b)" "\<not> (is_dict a \<and> is_dict b)" by blast+
    then show ?thesis using less.prems json_equal_scalar [of a b] json_equal_scalar [of b a] by auto
  next
    case True
    then consider xs ys where "a = VList xs" "b = VList ys" | d e where "a = VDict d" "b = VDict e"
      by (auto simp: is_list_conv is_dict_conv)
    then show ?thesis
    proof cases
      case 1
      have "json_equal y x" if "(x, y) \<in> set (zip xs ys)" for x y
        using less 1 that size_list_entry [OF set_zip_leftD [OF that]] by (fastforce simp: json_equal_list list_all_iff)
      moreover have "(x, y) \<in> set (zip xs ys)" if "(y, x) \<in> set (zip ys xs)" for x y
        using that by (auto simp: set_zip)
      ultimately show ?thesis using less.prems 1 by (auto simp: json_equal_list list_all_iff)
    next
      case 2
      have "json_equal y x" if "map_of d k = Some x" "json_equal x y" for k x y
        using less.IH [of x y] that size_map_of [OF that(1)] 2 by simp
      then show ?thesis using less.prems 2 unfolding 2 json_equal_dict by metis
    qed
  qed
qed

section \<open>Properties\<close>

text \<open>
  C36. The validator decides conformance: the schema is accepted and the error list is empty
  exactly when the schema is well formed and the value conforms to it keyword by keyword, and a
  value checked against an accepted schema never makes the validator itself raise.
\<close>

theorem validate_decides:
  "(validate re_ok rs v schema = [] \<longleftrightarrow> validate_schema re_ok schema = [] \<and> conforms rs v schema) \<and>
   (validate_schema re_ok schema = [] \<longrightarrow> (\<forall>p. (p, Crash) \<notin> set (validate re_ok rs v schema)))"
proof (cases "validate_schema re_ok schema = []")
  case True
  then have "wf_schema re_ok schema" by (auto simp: wf_schema_def validate_schema_def)
  from validate_node_sound [OF this, of rs v "''$''"] True show ?thesis
    by (auto simp: validate_def sound_def list_all_iff)
next
  case False
  then show ?thesis by (simp add: validate_def)
qed

definition demo_schema :: pyval where
  "demo_schema = VDict [(''type'', VStr ''object''), (''required'', VList [VStr ''n'']),
     (''properties'', VDict [(''n'', VDict [(''type'', VStr ''integer''), (''minimum'', VInt 1)])]),
     (''additionalProperties'', VBool False)]"

lemma demo_schema_ok: "validate_schema (\<lambda>_. True) demo_schema = []"
  by (simp add: validate_schema_def demo_schema_def validate_schema_node.simps check_keyword_def
      SUPPORTED_KEYWORDS_def VALIDATION_KEYWORDS_def ANNOTATION_KEYWORDS_def check_type_keyword_def get_def
      type_problem_def type_members_def type_check_def check_required_def check_enum_def check_lengths_def
      check_bounds_def check_pattern_def Let_def)

theorem validate_decides_witness:
  "validate (\<lambda>_. True) (\<lambda>_ _. True) (VDict [(''n'', VInt 3)]) demo_schema = [] \<and>
   validate (\<lambda>_. True) (\<lambda>_ _. True) (VDict [(''n'', VInt 0)]) demo_schema \<noteq> []"
proof -
  have "conforms (\<lambda>_ _. True) (VDict [(''n'', VInt i)]) demo_schema \<longleftrightarrow> 1 \<le> i" for i
    by (simp add: demo_schema_def conforms.simps get_def check_type.simps type_check_def required_present_def
        declared_properties_def number_conforms_def num_val_def)
  then show ?thesis
    using validate_decides [of "\<lambda>_. True" "\<lambda>_ _. True" _ demo_schema] demo_schema_ok by simp
qed

text \<open>
  Enum membership uses an equality of JSON values: it is symmetric, reflexive on JSON values, does not
  confuse booleans with numbers, identifies equal integers and floats, and ignores the order of
  object keys.
\<close>

theorem json_equality:
  "(json_equal a b \<longleftrightarrow> json_equal b a) \<and> (json_value v \<longrightarrow> json_equal v v) \<and>
   \<not> json_equal (VBool x) (VInt i) \<and> json_equal (VInt i) (VFloat (Fin (of_int i))) \<and>
   (k \<noteq> k' \<longrightarrow> json_value v \<longrightarrow> json_value w \<longrightarrow> json_equal (VDict [(k, v), (k', w)]) (VDict [(k', w), (k, v)]))"
proof -
  have "json_equal (VDict [(k, v), (k', w)]) (VDict [(k', w), (k, v)])" if "k \<noteq> k'" "json_value v" "json_value w"
    using that json_equal_refl by (auto simp: json_equal_dict)
  moreover have "\<not> json_equal (VBool x) (VInt i)" "json_equal (VInt i) (VFloat (Fin (of_int i)))"
    by (simp_all add: json_equal.simps num_val_def)
  ultimately show ?thesis using json_equal_sym json_equal_refl by blast
qed

theorem json_equality_witness:
  "json_equal (VDict [(''a'', VInt 1), (''b'', VNone)]) (VDict [(''b'', VNone), (''a'', VInt 1)])"
  using json_equality [of VNone VNone "VInt 1" False 0 "''a''" "''b''" VNone] by simp

end
