(* ===== verification/Apply_Patch.thy ===== *)
theory Apply_Patch
  imports Prelude
begin

text \<open>
  The text engine of \<open>apply_patch\<close> (\<open>adapters/tools/apply_patch_engine.py\<close>) with its line helpers
  (\<open>adapters/_safe_file_common.py\<close>) and integer parameters (\<open>adapters/tools/_parameters.py\<close>).
  A byte-order mark (U+FEFF) lies outside the code points of \<open>char\<close>, so the branch that keeps it
  ahead of inserted lines cannot be taken here.  Error texts are constructors.
\<close>

section \<open>Lines\<close>

abbreviation LF :: char where "LF \<equiv> CHR 0x0A"

abbreviation CR :: char where "CR \<equiv> CHR 0x0D"

text \<open>\<open>text.split("\\n")\<close>.\<close>

fun split_nl :: "string \<Rightarrow> string list" where
  "split_nl [] = [[]]"
| "split_nl (c # s) =
     (if c = LF then [] # split_nl s
      else case split_nl s of l # ls \<Rightarrow> (c # l) # ls | [] \<Rightarrow> [[c]])"

definition split_text :: "string \<Rightarrow> string list \<times> bool" where
  "split_text t =
     (if t = [] then ([], False)
      else let ended = endswith t [LF]; ls = split_nl t in (if ended then butlast ls else ls, ended))"

definition join_lines :: "string list \<Rightarrow> bool \<Rightarrow> string" where
  "join_lines ls ended_nl = (if ls = [] then [] else py_join [LF] ls @ (if ended_nl then [LF] else []))"

text \<open>The matches of the newline pattern, in order.\<close>

fun newlines :: "string \<Rightarrow> string list" where
  "newlines (c # d # s) =
     (if c = CR \<and> d = LF then [CR, LF] # newlines s
      else if c = CR \<or> c = LF then [c] # newlines (d # s)
      else newlines (d # s))"
| "newlines [c] = (if c = CR \<or> c = LF then [[c]] else [])"
| "newlines [] = []"

definition detect_newline_style :: "string \<Rightarrow> string" where
  "detect_newline_style t =
     (let styles = remdups (newlines t)
      in if length styles > 1 then ''mixed'' else case styles of [] \<Rightarrow> [LF] | s # _ \<Rightarrow> s)"

definition restore_newlines :: "string \<Rightarrow> string \<Rightarrow> string" where
  "restore_newlines t style =
     (if style = [LF] then t else concat (map (\<lambda>c. if c = LF then style else [c]) t))"

section \<open>Line replacement\<close>

datatype PatchError =
    MixedNewlines | LinesRequired | NotInteger | StartTooSmall | EndBeforeStart | StartPastEnd | EndPastEnd
  | ExpectedMismatch | ExpectedHits nat
  | InvalidOldRange nat | InvalidNewRange nat | UntaggedBlank nat | UnknownMetadata nat | OrphanMetadata nat
  | RepeatedMetadata nat | UnknownPrefix nat | NoHunks | EmptyHunk nat | ZeroStartWithBody
  | CountMismatch | AmbiguousHunk nat nat | HunkNotFound nat | MetadataAwayFromEof nat
  | MetadataNotFinal nat | MetadataMismatch nat

definition integer_parameter :: "pyval \<Rightarrow> int option" where
  "integer_parameter v =
     (case v of VInt i \<Rightarrow> Some i | VFloat (Fin q) \<Rightarrow> if q \<in> \<int> then Some \<lfloor>q\<rfloor> else None | _ \<Rightarrow> None)"

record ReplaceParams =
  start_line :: "pyval option"
  end_line :: "pyval option"
  new_str :: "string option"
  expected_str :: "string option"
  relocate_expected :: bool

definition matches_at :: "string list \<Rightarrow> string list \<Rightarrow> nat \<Rightarrow> bool" where
  "matches_at ls block i = (take (length block) (drop i ls) = block)"

text \<open>\<open>range(lo, len(ls) - len(block) + 1)\<close>.\<close>

definition candidates :: "nat \<Rightarrow> string list \<Rightarrow> string list \<Rightarrow> nat list" where
  "candidates lo ls block = [lo..<Suc (length ls) - length block]"

definition locate_expected :: "string list \<Rightarrow> string \<Rightarrow> nat \<Rightarrow> (nat \<times> nat) list" where
  "locate_expected ls expected line_count =
     (if expected = [] then []
      else
        let block0 = fst (split_text expected);
            block = (if endswith expected [LF] \<and> line_count = length block0 + 1 then block0 @ [[]] else block0)
        in map (\<lambda>i. (i, i + length block)) (filter (matches_at ls block) (candidates 0 ls block)))"

text \<open>The range to replace: the quoted one, or the one place where the expected text is.\<close>

definition resolve_range ::
  "string list \<Rightarrow> nat \<Rightarrow> nat \<Rightarrow> string option \<Rightarrow> bool \<Rightarrow> PatchError + (nat \<times> nat)" where
  "resolve_range ls start_idx end_idx expected relocate =
     (case expected of
        None \<Rightarrow> Inr (start_idx, end_idx)
      | Some e \<Rightarrow>
          let actual_lines = take (end_idx - start_idx) (drop start_idx ls);
              actual = py_join [LF] actual_lines
          in if e \<noteq> actual \<and> (actual_lines = [] \<or> e \<noteq> actual @ [LF])
             then (if \<not> relocate then Inl ExpectedMismatch
                   else case locate_expected ls e (end_idx - start_idx) of
                          [hit] \<Rightarrow> Inr hit
                        | hits \<Rightarrow> Inl (ExpectedHits (length hits)))
             else Inr (start_idx, end_idx))"

definition line_range :: "nat \<Rightarrow> pyval option \<Rightarrow> pyval option \<Rightarrow> PatchError + (nat \<times> nat)" where
  "line_range n start_value end_value =
     (case (start_value, end_value) of
        (Some sv, Some ev) \<Rightarrow>
          (case (integer_parameter sv, integer_parameter ev) of
             (Some s, Some e) \<Rightarrow>
               if s < 1 then Inl StartTooSmall
               else if e < s - 1 then Inl EndBeforeStart
               else if s > int n + 1 then Inl StartPastEnd
               else if e > int n then Inl EndPastEnd
               else Inr (nat (s - 1), nat e)
           | _ \<Rightarrow> Inl NotInteger)
      | _ \<Rightarrow> Inl LinesRequired)"

definition apply_line_replace :: "string \<Rightarrow> ReplaceParams \<Rightarrow> PatchError + string" where
  "apply_line_replace source params =
     (let style = detect_newline_style source
      in if style = ''mixed'' then Inl MixedNewlines
         else
           let (ls, ended) = split_text (normalize_newlines source)
           in bnd (line_range (length ls) (start_line params) (end_line params)) (\<lambda>(s, e).
              bnd (resolve_range ls s e (map_option normalize_newlines (expected_str params)) (relocate_expected params)) (\<lambda>(i, j).
                let new_lines = fst (split_text (case new_str params of None \<Rightarrow> [] | Some t \<Rightarrow> normalize_newlines t));
                    result = take i ls @ new_lines @ drop j ls
                in Inr (restore_newlines (join_lines result (result \<noteq> [] \<and> ended)) style))))"

section \<open>Unified diffs\<close>

record Hunk =
  header_line :: nat
  old_start :: "nat option"
  old_len :: nat
  new_start :: "nat option"
  new_len :: nat
  hunk_lines :: "string list"
  no_newline_after :: "nat set"

text \<open>\<open>\\d+\<close> on the code points of \<open>char\<close>: the digits and what follows them.\<close>

definition is_digit :: "char \<Rightarrow> bool" where
  "is_digit c = (48 \<le> code c \<and> code c \<le> 57)"

definition number :: "string \<Rightarrow> (nat \<times> string) option" where
  "number s =
     (let ds = takeWhile is_digit s
      in if ds = [] then None
         else Some (foldl (\<lambda>n c. 10 * n + (code c - 48)) 0 ds, dropWhile is_digit s))"

definition optional_length :: "string \<Rightarrow> nat option \<times> string" where
  "optional_length s =
     (case s of
        c # t \<Rightarrow> if c = CHR '','' then (case number t of Some (n, u) \<Rightarrow> (Some n, u) | None \<Rightarrow> (None, s)) else (None, s)
      | [] \<Rightarrow> (None, s))"

definition strip_prefix :: "string \<Rightarrow> string \<Rightarrow> string option" where
  "strip_prefix p s = (if startswith s p then Some (drop (length p) s) else None)"

text \<open>\<open>_HUNK_RE.match\<close>: old start and length, new start and length.\<close>

definition match_header :: "string \<Rightarrow> (nat \<times> nat \<times> nat \<times> nat) option" where
  "match_header raw =
     Option.bind (strip_prefix ''@@ -'' raw) (\<lambda>s1.
     Option.bind (number s1) (\<lambda>(os, s2).
       let (ol, s3) = optional_length s2
       in Option.bind (strip_prefix '' +'' s3) (\<lambda>s4.
          Option.bind (number s4) (\<lambda>(ns, s5).
            let (nl, s6) = optional_length s5
            in Option.bind (strip_prefix '' @@'' s6) (\<lambda>_.
                 Some (os, (case ol of Some n \<Rightarrow> n | None \<Rightarrow> 1), ns, (case nl of Some n \<Rightarrow> n | None \<Rightarrow> 1)))))))"

definition bare_header :: "string \<Rightarrow> bool" where
  "bare_header raw =
     (case strip_prefix ''@@'' raw of
        None \<Rightarrow> False
      | Some s \<Rightarrow>
          let blank = (\<lambda>c. c = CHR '' '' \<or> c = CHR 0x09); t = dropWhile blank s
          in t = [] \<or> (case strip_prefix ''@@'' t of None \<Rightarrow> False | Some u \<Rightarrow> list_all blank u))"

definition old_line :: "string \<Rightarrow> bool" where
  "old_line l = (l \<noteq> [] \<and> hd l \<in> {CHR '' '', CHR ''-''})"

definition new_line :: "string \<Rightarrow> bool" where
  "new_line l = (l \<noteq> [] \<and> hd l \<in> {CHR '' '', CHR ''+''})"

definition validate_hunk_counts :: "bool \<Rightarrow> Hunk \<Rightarrow> PatchError + Hunk" where
  "validate_hunk_counts norm_hunks h =
     (let oc = length (filter old_line (hunk_lines h)); nc = length (filter new_line (hunk_lines h))
      in if norm_hunks \<and> hunk_lines h = [] then Inl (EmptyHunk (header_line h))
         else if norm_hunks \<and> ((old_start h = Some 0 \<and> oc \<noteq> 0) \<or> (new_start h = Some 0 \<and> nc \<noteq> 0)) then Inl ZeroStartWithBody
         else
           let h' = (if norm_hunks then h\<lparr>old_len := oc, new_len := nc\<rparr> else h)
           in if oc \<noteq> old_len h' \<or> nc \<noteq> new_len h' then Inl CountMismatch else Inr h')"

text \<open>The loop of \<open>_parse_hunks\<close>: finished hunks, the current one, and the next line number.\<close>

fun parse_lines :: "bool \<Rightarrow> nat \<Rightarrow> Hunk list \<Rightarrow> Hunk option \<Rightarrow> string list \<Rightarrow> PatchError + Hunk list" where
  "parse_lines norm_hunks n hunks cur [] =
     (case cur of
        None \<Rightarrow> Inl NoHunks
      | Some h \<Rightarrow> bnd (validate_hunk_counts norm_hunks h) (\<lambda>h'. Inr (hunks @ [h'])))"
| "parse_lines norm_hunks n hunks cur (raw # rest) =
     (let m = match_header raw; bare = (norm_hunks \<and> bare_header raw)
      in if m \<noteq> None \<or> bare
         then
           bnd (case cur of None \<Rightarrow> Inr hunks
                | Some h \<Rightarrow> bnd (validate_hunk_counts norm_hunks h) (\<lambda>h'. Inr (hunks @ [h']))) (\<lambda>hunks'.
             case m of
               Some (os, ol, ns, nl) \<Rightarrow>
                 if os = 0 \<and> ol \<noteq> 0 then Inl (InvalidOldRange n)
                 else if ns = 0 \<and> nl \<noteq> 0 then Inl (InvalidNewRange n)
                 else parse_lines norm_hunks (Suc n) hunks'
                   (Some \<lparr>header_line = n, old_start = Some os, old_len = ol, new_start = Some ns, new_len = nl,
                          hunk_lines = [], no_newline_after = {}\<rparr>) rest
             | None \<Rightarrow> parse_lines norm_hunks (Suc n) hunks'
                   (Some \<lparr>header_line = n, old_start = None, old_len = 0, new_start = None, new_len = 0,
                          hunk_lines = [], no_newline_after = {}\<rparr>) rest)
         else case cur of
           None \<Rightarrow> parse_lines norm_hunks (Suc n) hunks None rest
         | Some h \<Rightarrow>
             if raw = [] then Inl (UntaggedBlank n)
             else if hd raw \<in> {CHR '' '', CHR ''+'', CHR ''-''}
             then parse_lines norm_hunks (Suc n) hunks (Some (h\<lparr>hunk_lines := hunk_lines h @ [raw]\<rparr>)) rest
             else if hd raw = CHR 0x5C
             then (if raw \<noteq> CHR 0x5C # '' No newline at end of file'' then Inl (UnknownMetadata n)
                   else if hunk_lines h = [] then Inl (OrphanMetadata n)
                   else if length (hunk_lines h) - 1 \<in> no_newline_after h then Inl (RepeatedMetadata n)
                   else parse_lines norm_hunks (Suc n) hunks
                     (Some (h\<lparr>no_newline_after := insert (length (hunk_lines h) - 1) (no_newline_after h)\<rparr>)) rest)
             else Inl (UnknownPrefix n))"

definition parse_hunks :: "bool \<Rightarrow> string \<Rightarrow> PatchError + Hunk list" where
  "parse_hunks norm_hunks patch =
     (let raw = split_nl patch; raw' = (if raw \<noteq> [] \<and> last raw = [] then butlast raw else raw)
      in parse_lines norm_hunks 1 [] None raw')"

text \<open>The loop of \<open>_find_block\<close>: the nearest match so far and its distance.\<close>

fun scan_block :: "string list \<Rightarrow> string list \<Rightarrow> nat \<Rightarrow> nat list \<Rightarrow> (nat \<times> int) option \<Rightarrow> (nat \<times> int) option" where
  "scan_block ls block e [] best = best"
| "scan_block ls block e (i # is) best =
     (if \<not> matches_at ls block i then scan_block ls block e is best
      else
        let distance = \<bar>int i - int e\<bar>
        in if (case best of None \<Rightarrow> True | Some (_, b) \<Rightarrow> distance < b)
           then (if distance = 0 then Some (i, distance) else scan_block ls block e is (Some (i, distance)))
           else scan_block ls block e is best)"

definition find_block :: "string list \<Rightarrow> string list \<Rightarrow> nat \<Rightarrow> nat \<Rightarrow> nat option" where
  "find_block ls block e lo =
     (if block = [] then (if e < lo \<or> e > length ls then None else Some e)
      else map_option fst (scan_block ls block e (candidates lo ls block) None))"

definition old_block :: "Hunk \<Rightarrow> string list" where
  "old_block h = map tl (filter old_line (hunk_lines h))"

definition new_block :: "Hunk \<Rightarrow> string list" where
  "new_block h = map tl (filter new_line (hunk_lines h))"

text \<open>Positions within the old or new block of the lines marked as having no newline.\<close>

definition marked_positions :: "(string \<Rightarrow> bool) \<Rightarrow> Hunk \<Rightarrow> nat list" where
  "marked_positions keep h =
     concat (map (\<lambda>i. if i \<in> no_newline_after h \<and> keep (hunk_lines h ! i)
                      then [length (filter keep (take i (hunk_lines h)))] else [])
       [0..<length (hunk_lines h)])"

definition hunk_position :: "string list \<Rightarrow> nat \<Rightarrow> nat \<Rightarrow> Hunk \<Rightarrow> PatchError + nat" where
  "hunk_position ls n src_idx h =
     (case old_start h of
        None \<Rightarrow>
          (case filter (\<lambda>i. old_block h \<noteq> [] \<and> matches_at ls (old_block h) i) (candidates src_idx ls (old_block h)) of
             [i] \<Rightarrow> Inr i
           | hits \<Rightarrow> Inl (AmbiguousHunk n (length hits)))
      | Some os \<Rightarrow>
          (case find_block ls (old_block h) (if old_len h = 0 then os else os - 1) src_idx of
             None \<Rightarrow> Inl (HunkNotFound n) | Some i \<Rightarrow> Inr i))"

definition check_metadata :: "string list \<Rightarrow> bool \<Rightarrow> bool \<Rightarrow> nat \<Rightarrow> nat \<Rightarrow> Hunk \<Rightarrow> bool \<Rightarrow> PatchError + bool" where
  "check_metadata ls ended is_last n pos h target =
     (if no_newline_after h = {} then Inr target
      else
        let olds = marked_positions old_line h; news = marked_positions new_line h
        in if \<not> is_last \<or> pos + length (old_block h) \<noteq> length ls then Inl (MetadataAwayFromEof n)
           else if length olds > 1 \<or> (olds \<noteq> [] \<and> Suc (hd olds) \<noteq> length (old_block h))
                   \<or> length news > 1 \<or> (news \<noteq> [] \<and> Suc (hd news) \<noteq> length (new_block h))
           then Inl (MetadataNotFinal n)
           else if ls \<noteq> [] \<and> ended = (olds \<noteq> []) then Inl (MetadataMismatch n)
           else Inr (news = []))"

fun apply_hunks ::
  "string list \<Rightarrow> bool \<Rightarrow> nat \<Rightarrow> nat \<Rightarrow> string list \<Rightarrow> bool \<Rightarrow> Hunk list \<Rightarrow> PatchError + (string list \<times> bool)" where
  "apply_hunks ls ended n src_idx result target [] = Inr (result @ drop src_idx ls, target)"
| "apply_hunks ls ended n src_idx result target (h # hs) =
     bnd (hunk_position ls n src_idx h) (\<lambda>pos.
     bnd (check_metadata ls ended (hs = []) n pos h target) (\<lambda>target'.
       apply_hunks ls ended (Suc n) (pos + length (old_block h))
         (result @ take (pos - src_idx) (drop src_idx ls) @ new_block h) target' hs))"

definition apply_unified_diff :: "bool \<Rightarrow> string \<Rightarrow> string \<Rightarrow> PatchError + string" where
  "apply_unified_diff norm_hunks source patch =
     (let style = detect_newline_style source
      in if style = ''mixed'' then Inl MixedNewlines
         else bnd (parse_hunks norm_hunks (normalize_newlines patch)) (\<lambda>hunks.
           let (ls, ended) = split_text (normalize_newlines source)
           in bnd (apply_hunks ls ended 1 0 [] (if ls = [] then True else ended) hunks) (\<lambda>(result, target).
                Inr (restore_newlines (join_lines result (result \<noteq> [] \<and> target)) style))))"

section \<open>Splitting and joining\<close>

lemma split_nl_nonempty [simp]: "split_nl s \<noteq> []"
  by (cases s) (auto split: list.split)

lemma split_nl_lines: "l \<in> set (split_nl s) \<Longrightarrow> LF \<notin> set l \<and> set l \<subseteq> set s"
proof (induction s arbitrary: l)
  case (Cons c s)
  obtain k ks where "split_nl s = k # ks" by (cases "split_nl s") auto
  then show ?case using Cons.IH [of k] Cons.IH [of l] Cons.prems by (auto split: if_splits)
qed simp

lemma join_cons: "ls \<noteq> [] \<Longrightarrow> py_join sep (l # ls) = l @ sep @ py_join sep ls"
  by (cases ls) simp_all

lemma join_split_nl: "py_join [LF] (split_nl s) = s"
proof (induction s)
  case (Cons c s)
  obtain l ls where "split_nl s = l # ls" by (cases "split_nl s") auto
  then show ?case using Cons by (cases ls) (auto simp: join_cons)
qed simp

lemma split_nl_plain: "LF \<notin> set l \<Longrightarrow> split_nl l = [l]"
  by (induction l) auto

lemma split_nl_append: "LF \<notin> set l \<Longrightarrow> split_nl (l @ LF # s) = l # split_nl s"
  by (induction l) auto

lemma split_join:
  "ls \<noteq> [] \<Longrightarrow> list_all (\<lambda>l. LF \<notin> set l) ls \<Longrightarrow> split_nl (py_join [LF] ls) = ls"
proof (induction ls)
  case (Cons l ls)
  then show ?case by (cases ls) (simp_all add: split_nl_plain split_nl_append)
qed simp

lemma split_join_ended:
  "ls \<noteq> [] \<Longrightarrow> list_all (\<lambda>l. LF \<notin> set l) ls \<Longrightarrow> split_nl (py_join [LF] ls @ [LF]) = ls @ [[]]"
proof (induction ls)
  case (Cons l ls)
  then show ?case by (cases ls) (simp_all add: split_nl_append)
qed simp

lemma join_last: "ls \<noteq> [] \<Longrightarrow> list_all (\<lambda>l. LF \<notin> set l) ls \<Longrightarrow> suffix [LF] (py_join [LF] ls) \<Longrightarrow> last ls = [] \<and> ls \<noteq> [[]]"
proof -
  assume ls: "ls \<noteq> []" "list_all (\<lambda>l. LF \<notin> set l) ls" and "suffix [LF] (py_join [LF] ls)"
  then obtain t where t: "py_join [LF] ls = t @ [LF]" by (auto simp: suffix_def)
  then have e: "split_nl (t @ [LF]) = ls" using split_join [OF ls] by simp
  have "split_nl (t @ [LF]) = split_nl t @ [[]]"
    using split_join_ended [of "split_nl t"] split_nl_lines [of _ t] by (simp add: join_split_nl list_all_iff)
  then show ?thesis using e by (metis append_self_conv2 butlast_snoc last_snoc split_nl_nonempty butlast.simps(2))
qed

text \<open>
  A nonempty line list survives writing and reading back.  The exceptions are a lone empty line
  without a final newline, which is the empty text, and a last empty line without one, which reads
  back as the final newline of the line before it.
\<close>

lemma split_text_join:
  assumes "ls \<noteq> []" and "list_all (\<lambda>l. LF \<notin> set l) ls" and "ended \<or> last ls \<noteq> []"
  shows "split_text (join_lines ls ended) = (ls, ended)"
proof (cases ended)
  case True
  then show ?thesis
    using assms split_join_ended [OF assms(1,2)] by (simp add: split_text_def join_lines_def endswith_def Let_def)
next
  case False
  then have "\<not> suffix [LF] (py_join [LF] ls)" using join_last [OF assms(1,2)] assms(3) by blast
  moreover have "py_join [LF] ls \<noteq> []" using split_join [OF assms(1,2)] assms(3) False by auto
  ultimately show ?thesis using assms False split_join [OF assms(1,2)]
    by (simp add: split_text_def join_lines_def endswith_def Let_def)
qed

lemma split_text_lines:
  assumes "split_text t = (ls, ended)" and "l \<in> set ls"
  shows "LF \<notin> set l \<and> set l \<subseteq> set t"
proof -
  have "l \<in> set (split_nl t)" using assms in_set_butlastD
    by (fastforce simp: split_text_def Let_def split: if_splits)
  then show ?thesis by (rule split_nl_lines)
qed

section \<open>Newline styles\<close>

lemma newlines_styles: "x \<in> set (newlines t) \<Longrightarrow> x \<in> {[LF], [CR], [CR, LF]}"
  by (induction t rule: newlines.induct) (auto split: if_splits)

lemma style_cases:
  "detect_newline_style t \<noteq> ''mixed'' \<Longrightarrow> detect_newline_style t \<in> {[LF], [CR], [CR, LF]}"
proof -
  assume m: "detect_newline_style t \<noteq> ''mixed''"
  show ?thesis
  proof (cases "remdups (newlines t)")
    case Nil
    then show ?thesis by (simp add: detect_newline_style_def)
  next
    case (Cons x xs)
    then have "x \<in> set (newlines t)" by (metis list.set_intros(1) set_remdups)
    then show ?thesis using newlines_styles m Cons by (auto simp: detect_newline_style_def Let_def split: if_splits)
  qed
qed

lemma replace_crlf_subset: "set (replace_crlf s) \<subseteq> set s"
  by (induction s rule: replace_crlf.induct) auto

lemma normalize_no_CR: "CR \<notin> set (normalize_newlines s)"
  by (auto simp: normalize_newlines_def)

lemma replace_crlf_no_CR: "CR \<notin> set s \<Longrightarrow> replace_crlf s = s"
  by (induction s rule: replace_crlf.induct) auto

lemma replace_crlf_no_LF: "LF \<notin> set s \<Longrightarrow> replace_crlf s = s"
  by (induction s rule: replace_crlf.induct) auto

lemma replace_crlf_Cons: "c \<noteq> CR \<Longrightarrow> replace_crlf (c # s) = c # replace_crlf s"
  by (cases s) simp_all

lemma map_CR_id: "CR \<notin> set t \<Longrightarrow> map (\<lambda>c. if c = CR then LF else c) t = t"
  by (induction t) auto

lemma normalize_restore:
  assumes "CR \<notin> set t" and "style \<in> {[LF], [CR], [CR, LF]}"
  shows "normalize_newlines (restore_newlines t style) = t"
proof -
  have lf: "normalize_newlines t = t"
    using assms(1) by (simp add: normalize_newlines_def replace_crlf_no_CR map_CR_id)
  have "normalize_newlines (concat (map (\<lambda>c. if c = LF then [CR] else [c]) t)) = t"
  proof -
    have "LF \<notin> set (concat (map (\<lambda>c. if c = LF then [CR] else [c]) t))" by auto
    then have "normalize_newlines (concat (map (\<lambda>c. if c = LF then [CR] else [c]) t)) =
        map (\<lambda>c. if c = CR then LF else c) (concat (map (\<lambda>c. if c = LF then [CR] else [c]) t))"
      by (simp add: normalize_newlines_def replace_crlf_no_LF)
    also have "\<dots> = t" using assms(1) by (induction t) auto
    finally show ?thesis .
  qed
  moreover have "replace_crlf (concat (map (\<lambda>c. if c = LF then [CR, LF] else [c]) t)) = t"
    using assms(1) by (induction t) (auto simp: replace_crlf_Cons)
  ultimately show ?thesis using assms lf
    by (auto simp: restore_newlines_def normalize_newlines_def map_CR_id)
qed

section \<open>Finding a block\<close>

lemma scan_block_best:
  assumes "case best of None \<Rightarrow> True | Some (i, b) \<Rightarrow> b = \<bar>int i - int e\<bar>"
  shows "case scan_block ls block e js best of
      None \<Rightarrow> best = None \<and> (\<forall>j \<in> set js. \<not> matches_at ls block j)
    | Some (i, b) \<Rightarrow> b = \<bar>int i - int e\<bar> \<and> (Some (i, b) = best \<or> i \<in> set js \<and> matches_at ls block i) \<and>
        (\<forall>j \<in> set js. matches_at ls block j \<longrightarrow> b \<le> \<bar>int j - int e\<bar>) \<and>
        (case best of None \<Rightarrow> True | Some (_, c) \<Rightarrow> b \<le> c)"
  using assms
proof (induction js arbitrary: best)
  case Nil
  then show ?case by (auto split: option.splits)
next
  case (Cons i js)
  show ?case
  proof (cases "matches_at ls block i \<and> (case best of None \<Rightarrow> True | Some (_, b) \<Rightarrow> \<bar>int i - int e\<bar> < b)")
    case True
    then show ?thesis
      using Cons.IH [of "Some (i, \<bar>int i - int e\<bar>)"]
      by (cases "int i = int e") (auto simp: Let_def split: option.splits)
  next
    case False
    then show ?thesis using Cons.IH [OF Cons.prems]
      by (cases "matches_at ls block i") (auto simp: Let_def split: option.splits)
  qed
qed

lemma find_block_Some:
  assumes "find_block ls block e lo = Some i" and "block \<noteq> []"
  shows "i \<in> set (candidates lo ls block) \<and> matches_at ls block i \<and>
    (\<forall>j \<in> set (candidates lo ls block). matches_at ls block j \<longrightarrow> \<bar>int i - int e\<bar> \<le> \<bar>int j - int e\<bar>)"
proof -
  obtain b where "scan_block ls block e (candidates lo ls block) None = Some (i, b)"
    using assms by (auto simp: find_block_def)
  then show ?thesis using scan_block_best [where best = None and e = e and ls = ls and block = block and js = "candidates lo ls block"] by auto
qed

lemma find_block_None:
  assumes "find_block ls block e lo = None" and "block \<noteq> []"
  shows "\<forall>j \<in> set (candidates lo ls block). \<not> matches_at ls block j"
  using assms scan_block_best [where best = None and e = e and ls = ls and block = block and js = "candidates lo ls block"]
  by (simp add: find_block_def)

lemma candidates_iff: "i \<in> set (candidates lo ls block) \<longleftrightarrow> lo \<le> i \<and> i + length block \<le> length ls"
  by (auto simp: candidates_def)

section \<open>What a diff does\<close>

text \<open>\<open>edits xs es ys\<close>: \<open>ys\<close> is \<open>xs\<close> with the old blocks of \<open>es\<close>, found in order and without
  overlap, replaced by the new ones.\<close>

inductive edits :: "string list \<Rightarrow> (string list \<times> string list) list \<Rightarrow> string list \<Rightarrow> bool" where
  edits_done: "edits xs [] xs"
| edits_block: "edits rest es out \<Longrightarrow> edits (pre @ old @ rest) ((old, new) # es) (pre @ new @ out)"

lemma hunk_position_ok:
  assumes "hunk_position ls n k h = Inr pos" and "k \<le> length ls"
  shows "k \<le> pos \<and> pos + length (old_block h) \<le> length ls \<and> matches_at ls (old_block h) pos"
proof (cases "old_start h")
  case None
  then have "[pos] = filter (\<lambda>i. old_block h \<noteq> [] \<and> matches_at ls (old_block h) i) (candidates k ls (old_block h))"
    using assms(1) by (auto simp: hunk_position_def split: list.splits)
  then have "pos \<in> set (filter (\<lambda>i. old_block h \<noteq> [] \<and> matches_at ls (old_block h) i) (candidates k ls (old_block h)))"
    by (metis list.set_intros(1))
  then show ?thesis by (auto simp: candidates_iff)
next
  case (Some os)
  then obtain e where f: "find_block ls (old_block h) e k = Some pos"
    using assms(1) by (auto simp: hunk_position_def split: option.splits)
  show ?thesis
  proof (cases "old_block h = []")
    case True
    then show ?thesis using f by (auto simp: find_block_def matches_at_def split: if_splits)
  next
    case False
    then show ?thesis using find_block_Some [OF f] by (auto simp: candidates_iff)
  qed
qed

lemma apply_hunks_edits:
  assumes "apply_hunks ls ended n k result target hs = Inr (out, t)" and "k \<le> length ls"
  shows "\<exists>rest. out = result @ rest \<and> edits (drop k ls) (map (\<lambda>h. (old_block h, new_block h)) hs) rest"
  using assms
proof (induction hs arbitrary: n k result target)
  case Nil
  then show ?case by (auto intro: edits_done)
next
  case (Cons h hs)
  then obtain pos t' where p: "hunk_position ls n k h = Inr pos"
      "apply_hunks ls ended (Suc n) (pos + length (old_block h))
        (result @ take (pos - k) (drop k ls) @ new_block h) t' hs = Inr (out, t)"
    by (auto simp: bnd_Inr_iff)
  note ok = hunk_position_ok [OF p(1) Cons.prems(2)]
  let ?rest = "drop (pos + length (old_block h)) ls"
  obtain rest where r: "out = (result @ take (pos - k) (drop k ls) @ new_block h) @ rest"
      "edits ?rest (map (\<lambda>h. (old_block h, new_block h)) hs) rest"
    using Cons.IH [OF p(2)] ok by blast
  have "drop pos ls = old_block h @ ?rest"
    using ok append_take_drop_id [of "length (old_block h)" "drop pos ls"]
    by (simp add: matches_at_def add.commute)
  moreover have "drop k ls = take (pos - k) (drop k ls) @ drop pos ls"
    using ok append_take_drop_id [of "pos - k" "drop k ls"] by simp
  ultimately have "drop k ls = take (pos - k) (drop k ls) @ old_block h @ ?rest" by simp
  then have "edits (drop k ls) ((old_block h, new_block h) # map (\<lambda>h. (old_block h, new_block h)) hs)
      (take (pos - k) (drop k ls) @ new_block h @ rest)"
    using edits_block [OF r(2), of "take (pos - k) (drop k ls)" "old_block h" "new_block h"] by simp
  then show ?case using r(1) by auto
qed

lemma split_text_clean:
  assumes "split_text (normalize_newlines t) = (ls, ended)"
  shows "list_all (\<lambda>l. LF \<notin> set l \<and> CR \<notin> set l) ls"
  using split_text_lines [OF assms] normalize_no_CR [of t] by (fastforce simp: list_all_iff)

lemma join_no_CR: "list_all (\<lambda>l. CR \<notin> set l) ls \<Longrightarrow> CR \<notin> set (join_lines ls ended)"
proof -
  have "list_all (\<lambda>l. CR \<notin> set l) ls \<Longrightarrow> CR \<notin> set (py_join [LF] ls)"
    by (induction "[LF]" ls rule: py_join.induct) auto
  then show "list_all (\<lambda>l. CR \<notin> set l) ls \<Longrightarrow> CR \<notin> set (join_lines ls ended)"
    by (auto simp: join_lines_def)
qed

lemma resolve_no_relocate: "resolve_range ls i j ex False = Inr p \<Longrightarrow> p = (i, j)"
  by (auto simp: resolve_range_def Let_def split: option.splits if_splits)

text \<open>Reading a written result back.\<close>

lemma written_lines:
  assumes "list_all (\<lambda>l. LF \<notin> set l \<and> CR \<notin> set l) ls" and "ls \<noteq> []" and "ended \<or> last ls \<noteq> []"
    and "style \<in> {[LF], [CR], [CR, LF]}"
  shows "split_text (normalize_newlines (restore_newlines (join_lines ls ended) style)) = (ls, ended)"
proof -
  have "CR \<notin> set (join_lines ls ended)" using assms(1) by (intro join_no_CR) (auto simp: list_all_iff)
  then have "normalize_newlines (restore_newlines (join_lines ls ended) style) = join_lines ls ended"
    using normalize_restore assms(4) by blast
  moreover have "list_all (\<lambda>l. LF \<notin> set l) ls" using assms(1) by (auto simp: list_all_iff)
  ultimately show ?thesis using split_text_join [OF assms(2)] assms(3) by simp
qed

section \<open>Properties\<close>

text \<open>
  A line replacement changes exactly the named range: when it succeeds without relocation, the
  new file reads back as the lines before the range, the new text's lines and the lines after the
  range, in the source's newline style and with its final-newline convention (results whose last line is
  empty without a final newline excepted, since they read back as that newline).
\<close>

theorem line_replace_exact:
  assumes "apply_line_replace source params = Inr t" and "\<not> relocate_expected params"
    and "split_text (normalize_newlines source) = (ls, ended)"
    and "start_line params = Some (VInt s)" and "end_line params = Some (VInt e)"
    and "new = fst (split_text (case new_str params of None \<Rightarrow> [] | Some x \<Rightarrow> normalize_newlines x))"
    and "result = take (nat (s - 1)) ls @ new @ drop (nat e) ls"
    and "result \<noteq> []" and "ended \<or> last result \<noteq> []"
  shows "1 \<le> s \<and> s - 1 \<le> e \<and> e \<le> int (length ls) \<and>
    split_text (normalize_newlines t) = (result, ended)"
proof -
  define style where "style = detect_newline_style source"
  have mix: "style \<noteq> ''mixed''" using assms(1) by (auto simp: apply_line_replace_def style_def Let_def)
  obtain i j i' j' where b: "line_range (length ls) (start_line params) (end_line params) = Inr (i, j)"
      "resolve_range ls i j (map_option normalize_newlines (expected_str params)) False = Inr (i', j')"
      "t = restore_newlines (join_lines (take i' ls @ new @ drop j' ls) (take i' ls @ new @ drop j' ls \<noteq> [] \<and> ended)) style"
    using assms(1,2) mix unfolding apply_line_replace_def style_def [symmetric] assms(3) assms(6)
    by (auto simp: Let_def bnd_Inr_iff)
  have ij: "i' = i" "j' = j" using resolve_no_relocate [OF b(2)] by simp_all
  have r: "1 \<le> s" "s - 1 \<le> e" "e \<le> int (length ls)" "i = nat (s - 1)" "j = nat e"
    using b(1) by (auto simp: line_range_def assms(4,5) integer_parameter_def split: if_splits)
  have new: "list_all (\<lambda>l. LF \<notin> set l \<and> CR \<notin> set l) new"
  proof (cases "new_str params")
    case None
    then show ?thesis by (simp add: assms(6) split_text_def)
  next
    case (Some x)
    then show ?thesis using split_text_clean [of x] by (auto simp: assms(6)) (metis prod.collapse)
  qed
  have "list_all (\<lambda>l. LF \<notin> set l \<and> CR \<notin> set l) result"
    using split_text_clean [OF assms(3)] new assms(7)
    by (auto simp: list_all_iff dest: in_set_takeD in_set_dropD)
  then have "split_text (normalize_newlines (restore_newlines (join_lines result ended) style)) = (result, ended)"
    using written_lines assms(8,9) style_cases mix unfolding style_def by blast
  moreover have "t = restore_newlines (join_lines result ended) style" using b(3) ij r assms(7,8) by simp
  ultimately show ?thesis using r by simp
qed

definition demo_replace :: ReplaceParams where
  "demo_replace = \<lparr>start_line = Some (VInt 2), end_line = Some (VInt 2), new_str = Some ''B'',
     expected_str = Some ''b'', relocate_expected = False\<rparr>"

theorem line_replace_exact_witness:
  "\<exists>t. apply_line_replace [CHR ''a'', LF, CHR ''b'', LF] demo_replace = Inr t \<and>
     split_text (normalize_newlines t) = ([''a'', ''B''], True)"
proof -
  let ?src = "[CHR ''a'', LF, CHR ''b'', LF]"
  have "apply_line_replace ?src demo_replace = Inr [CHR ''a'', LF, CHR ''B'', LF]"
    by code_simp
  moreover have "split_text (normalize_newlines ?src) = ([''a'', ''b''], True)" by code_simp
  moreover have "fst (split_text (normalize_newlines ''B'')) = [''B'']" by code_simp
  ultimately show ?thesis
    using line_replace_exact [of ?src demo_replace _ "[''a'', ''b'']" True 2 2 "[''B'']" "[''a'', ''B'']"]
    by (simp add: demo_replace_def)
qed

text \<open>
  C35. A unified diff does what its hunks say: when it applies, the new lines are the source lines with every
  hunk's old block, found in order and without overlap, replaced by its new block, and nothing
  else changes.
\<close>

theorem unified_diff_edits:
  assumes "apply_unified_diff norm_hunks source patch = Inr t"
    and "split_text (normalize_newlines source) = (ls, ended)"
  shows "\<exists>hunks result target. parse_hunks norm_hunks (normalize_newlines patch) = Inr hunks \<and>
    edits ls (map (\<lambda>h. (old_block h, new_block h)) hunks) result \<and>
    t = restore_newlines (join_lines result (result \<noteq> [] \<and> target)) (detect_newline_style source)"
proof -
  obtain hunks result target where h: "parse_hunks norm_hunks (normalize_newlines patch) = Inr hunks"
      "apply_hunks ls ended 1 0 [] (if ls = [] then True else ended) hunks = Inr (result, target)"
      "t = restore_newlines (join_lines result (result \<noteq> [] \<and> target)) (detect_newline_style source)"
    using assms by (auto simp: apply_unified_diff_def Let_def bnd_Inr_iff split: if_splits)
  then show ?thesis using apply_hunks_edits [OF h(2)] by auto
qed

definition demo_patch :: string where
  "demo_patch = ''@@ -1,2 +1,2 @@'' @ [LF] @ '' a'' @ [LF] @ ''-b'' @ [LF] @ ''+c'' @ [LF]"

theorem unified_diff_edits_witness:
  "\<exists>t hunks result. apply_unified_diff False [CHR ''a'', LF, CHR ''b'', LF] demo_patch = Inr t \<and>
     t = [CHR ''a'', LF, CHR ''c'', LF] \<and> parse_hunks False (normalize_newlines demo_patch) = Inr hunks \<and>
     edits [''a'', ''b''] (map (\<lambda>h. (old_block h, new_block h)) hunks) result"
proof -
  have 1: "apply_unified_diff False [CHR ''a'', LF, CHR ''b'', LF] demo_patch = Inr [CHR ''a'', LF, CHR ''c'', LF]"
    by code_simp
  have 2: "split_text (normalize_newlines [CHR ''a'', LF, CHR ''b'', LF]) = ([''a'', ''b''], True)" by code_simp
  show ?thesis using unified_diff_edits [OF 1 2] 1 by blast
qed

text \<open>
  A repeated block resolves to the occurrence nearest the stated line: \<open>find_block\<close> returns a
  match at or after the consumed position that no other match is closer than, and gives up only
  when there is no match.
\<close>

theorem find_block_nearest:
  assumes "block \<noteq> []"
  shows "case find_block ls block e lo of
      Some i \<Rightarrow> lo \<le> i \<and> take (length block) (drop i ls) = block \<and> i + length block \<le> length ls \<and>
        (\<forall>j. lo \<le> j \<longrightarrow> j + length block \<le> length ls \<longrightarrow> take (length block) (drop j ls) = block \<longrightarrow>
           \<bar>int i - int e\<bar> \<le> \<bar>int j - int e\<bar>)
    | None \<Rightarrow> (\<forall>j. lo \<le> j \<longrightarrow> j + length block \<le> length ls \<longrightarrow> take (length block) (drop j ls) \<noteq> block)"
proof (cases "find_block ls block e lo")
  case None
  then show ?thesis using find_block_None [OF None assms] by (auto simp: candidates_iff matches_at_def)
next
  case (Some i)
  then show ?thesis using find_block_Some [OF Some assms] by (auto simp: candidates_iff matches_at_def)
qed

theorem find_block_nearest_witness:
  "find_block [''x'', ''y'', ''x'', ''z'', ''x''] [''x''] 3 0 = Some 2 \<and>
   take 1 (drop 2 [''x'', ''y'', ''x'', ''z'', ''x'']) = [''x'']"
proof -
  have "find_block [''x'', ''y'', ''x'', ''z'', ''x''] [''x''] 3 0 = Some 2" by code_simp
  then show ?thesis using find_block_nearest
      [where block = "[''x'']" and ls = "[''x'', ''y'', ''x'', ''z'', ''x'']" and e = 3 and lo = 0] by simp
qed

end
