(* ===== verification/Token_Estimation.thy ===== *)
theory Token_Estimation
  imports Py_Float "HOL-Library.Char_ord" "HOL-Library.List_Lexorder"
begin

text \<open>
  Token estimates of provider payloads (\<open>domain/token_estimation.py\<close>) and the usage-calibrated
  estimate of a session (\<open>application/context_pressure.py\<close>).  JSON serialisation with sorted keys
  and compact separators is written out; how a \<open>float\<close> prints is an argument.  The locale
  \<open>token_estimator\<close> is what the history shapers rely on, and both estimators interpret it.
\<close>

section \<open>Serialisation\<close>

definition hex_digit :: "nat \<Rightarrow> char" where
  "hex_digit n = (if n < 10 then char_of (48 + n) else char_of (87 + n))"

definition json_char :: "char \<Rightarrow> string" where
  "json_char c =
     (let n = code c
      in if n = 34 then [CHR 0x5C, CHR 0x22]
         else if n = 92 then [CHR 0x5C, CHR 0x5C]
         else if n = 10 then CHR 0x5C # ''n''
         else if n = 13 then CHR 0x5C # ''r''
         else if n = 9 then CHR 0x5C # ''t''
         else if n = 12 then CHR 0x5C # ''f''
         else if n = 8 then CHR 0x5C # ''b''
         else if n < 32 then CHR 0x5C # ''u00'' @ [hex_digit (n div 16), hex_digit (n mod 16)]
         else [c])"

definition json_str :: "string \<Rightarrow> string" where
  "json_str s = CHR 0x22 # concat (map json_char s) @ [CHR 0x22]"

fun json_dumps :: "(pyfloat \<Rightarrow> string) \<Rightarrow> pyval \<Rightarrow> string" where
  "json_dumps fr VNone = ''null''"
| "json_dumps fr (VBool b) = (if b then ''true'' else ''false'')"
| "json_dumps fr (VInt i) = int_str i"
| "json_dumps fr (VFloat f) = fr f"
| "json_dumps fr (VStr s) = json_str s"
| "json_dumps fr (VList xs) = ''['' @ py_join '','' (map (json_dumps fr) xs) @ '']''"
| "json_dumps fr (VDict d) =
     ''{'' @ py_join '','' (map snd (sort_key fst (map (\<lambda>p. (fst p, json_str (fst p) @ '':'' @ json_dumps fr (snd p))) d))) @ ''}''"

section \<open>Estimates\<close>

definition estimate_tokens :: "string \<Rightarrow> nat" where
  "estimate_tokens text =
     (let n = length text; wide = min n (utf8_len text - n) in max 1 ((n - wide) div 3 + wide))"

definition REQUEST_MESSAGE_FIELDS :: "string list" where
  "REQUEST_MESSAGE_FIELDS = [''role'', ''content'', ''reasoning_content'', ''tool_calls'', ''tool_call_id'', ''name'']"

definition REQUEST_ESTIMATE_MESSAGE_FIELDS :: "string list" where
  "REQUEST_ESTIMATE_MESSAGE_FIELDS = REQUEST_MESSAGE_FIELDS @ [''provider_state'', ''response_items'']"

definition REQUEST_ESTIMATE_MESSAGE_FIELDS_NO_REASONING :: "string list" where
  "REQUEST_ESTIMATE_MESSAGE_FIELDS_NO_REASONING =
     removeAll ''reasoning_content'' REQUEST_ESTIMATE_MESSAGE_FIELDS"

abbreviation MESSAGE_TOKEN_OVERHEAD :: nat where "MESSAGE_TOKEN_OVERHEAD \<equiv> 4"
abbreviation TOOLS_TOKEN_OVERHEAD :: nat where "TOOLS_TOKEN_OVERHEAD \<equiv> 4"
abbreviation REQUEST_PROTOCOL_TOKEN_OVERHEAD :: nat where "REQUEST_PROTOCOL_TOKEN_OVERHEAD \<equiv> 16"
abbreviation MESSAGE_PROTOCOL_TOKEN_OVERHEAD :: nat where "MESSAGE_PROTOCOL_TOKEN_OVERHEAD \<equiv> 64"
abbreviation TOOLS_PROTOCOL_TOKEN_OVERHEAD :: nat where "TOOLS_PROTOCOL_TOKEN_OVERHEAD \<equiv> 16"
abbreviation TOOL_PROTOCOL_TOKEN_OVERHEAD :: nat where "TOOL_PROTOCOL_TOKEN_OVERHEAD \<equiv> 32"

type_synonym message = "(string \<times> pyval) list"

definition serialized_tokens :: "(pyfloat \<Rightarrow> string) \<Rightarrow> pyval \<Rightarrow> nat" where
  "serialized_tokens fr v = estimate_tokens (json_dumps fr v)"

definition or_empty :: "pyval \<Rightarrow> pyval" where
  "or_empty v = (if truthy v then v else VStr [])"

definition request_message_payload :: "message \<Rightarrow> string list \<Rightarrow> bool \<Rightarrow> message" where
  "request_message_payload m fields prefer =
     (if prefer \<and> get m ''role'' = VStr ''system''
      then [(''role'', get m ''role''), (''content'', or_empty (get m ''content''))]
      else if prefer \<and> get m ''role'' = VStr ''tool''
      then [(''role'', get m ''role''), (''tool_call_id'', get m ''tool_call_id''),
            (''content'', or_empty (get m ''content''))]
      else if prefer \<and> get m ''response_items'' \<noteq> VNone
      then [(''response_items'', get m ''response_items'')]
      else map (\<lambda>(k, v). (k, if k = ''content'' \<and> v = VNone then VStr [] else v))
             (filter (\<lambda>p. fst p \<in> set fields) m))"

definition message_tokens :: "(pyfloat \<Rightarrow> string) \<Rightarrow> string list \<Rightarrow> bool \<Rightarrow> nat \<Rightarrow> message \<Rightarrow> nat" where
  "message_tokens fr fields prefer overhead m =
     overhead + serialized_tokens fr (VDict (request_message_payload m fields prefer))"

definition estimate_messages_tokens ::
  "(pyfloat \<Rightarrow> string) \<Rightarrow> message list \<Rightarrow> pyval list \<Rightarrow> bool \<Rightarrow> nat" where
  "estimate_messages_tokens fr ms tools prefer =
     foldl (\<lambda>acc m. acc + message_tokens fr REQUEST_MESSAGE_FIELDS prefer MESSAGE_TOKEN_OVERHEAD m) 0 ms
     + (if tools \<noteq> [] then TOOLS_TOKEN_OVERHEAD + serialized_tokens fr (VList tools) else 0)"

definition estimate_fields :: "bool \<Rightarrow> string list" where
  "estimate_fields keep_reasoning =
     (if keep_reasoning then REQUEST_ESTIMATE_MESSAGE_FIELDS else REQUEST_ESTIMATE_MESSAGE_FIELDS_NO_REASONING)"

definition estimate_request_message_tokens ::
  "(pyfloat \<Rightarrow> string) \<Rightarrow> bool \<Rightarrow> bool \<Rightarrow> message list \<Rightarrow> nat" where
  "estimate_request_message_tokens fr keep_reasoning prefer ms =
     foldl (\<lambda>acc m. acc + message_tokens fr (estimate_fields keep_reasoning) prefer MESSAGE_PROTOCOL_TOKEN_OVERHEAD m) 0 ms"

definition estimate_request_tokens ::
  "(pyfloat \<Rightarrow> string) \<Rightarrow> message list \<Rightarrow> pyval list \<Rightarrow> bool \<Rightarrow> bool \<Rightarrow> nat" where
  "estimate_request_tokens fr ms tools keep_reasoning prefer =
     REQUEST_PROTOCOL_TOKEN_OVERHEAD + estimate_request_message_tokens fr keep_reasoning prefer ms
     + (if tools \<noteq> []
        then TOOLS_PROTOCOL_TOKEN_OVERHEAD + length tools * TOOL_PROTOCOL_TOKEN_OVERHEAD + serialized_tokens fr (VList tools)
        else 0)"

section \<open>Calibration by provider usage\<close>

text \<open>
  \<open>ContextPressure\<close>: the fallback estimate and the weights by exact message key.  The usage object
  is the record of the attributes the methods read; an absent attribute is \<open>VNone\<close>, except that a
  missing \<open>estimated\<close> reads as \<open>True\<close>.
\<close>

record Usage =
  u_context_tokens :: pyval
  u_input_tokens :: pyval
  u_context_output_tokens :: pyval
  u_output_tokens :: pyval
  u_context_tokens_estimated :: pyval
  u_estimated :: pyval

type_synonym weights = "(string \<times> int) list"

definition pressure_key :: "(pyfloat \<Rightarrow> string) \<Rightarrow> message \<Rightarrow> string" where
  "pressure_key fr m = json_dumps fr (VDict m)"

definition weight :: "(pyfloat \<Rightarrow> string) \<Rightarrow> (message \<Rightarrow> int) \<Rightarrow> weights \<Rightarrow> message \<Rightarrow> int" where
  "weight fr fallback ws m =
     (case map_of ws (pressure_key fr m) of Some w \<Rightarrow> w | None \<Rightarrow> max 1 (fallback m))"

definition pressure :: "(pyfloat \<Rightarrow> string) \<Rightarrow> (message \<Rightarrow> int) \<Rightarrow> weights \<Rightarrow> message list \<Rightarrow> int" where
  "pressure fr fallback ws ms = sum_list (map (weight fr fallback ws) ms)"

definition first_known :: "pyval \<Rightarrow> pyval \<Rightarrow> pyval" where
  "first_known a b = (if a = VNone then b else a)"

definition measured :: "pyval \<Rightarrow> Usage \<Rightarrow> int option" where
  "measured tokens u =
     (if first_known (u_context_tokens_estimated u) (u_estimated u) = VBool False
      then (case tokens of VInt n \<Rightarrow> if 0 < n then Some n else None | _ \<Rightarrow> None)
      else None)"

text \<open>
  \<open>math.ceil(weight * tokens / total)\<close>: the quotient of two integers is rounded once.  It is at
  most \<open>tokens\<close>, so it overflows only for a usage of \<open>2 ^ 1024\<close> tokens, which is not modelled.
\<close>

definition share_of :: "int \<Rightarrow> int \<Rightarrow> int \<Rightarrow> int" where
  "share_of w tokens sum_w = \<lceil>round53 (rat_of_int (w * tokens) / rat_of_int sum_w)\<rceil>"

definition observe_request ::
  "(pyfloat \<Rightarrow> string) \<Rightarrow> (message \<Rightarrow> int) \<Rightarrow> message list \<Rightarrow> Usage \<Rightarrow> weights \<Rightarrow> weights" where
  "observe_request fr fallback ms u ws =
     (case measured (first_known (u_context_tokens u) (u_input_tokens u)) u of
        None \<Rightarrow> ws
      | Some tokens \<Rightarrow>
          if ms = [] then ws
          else
            let weighted = map (\<lambda>m. (pressure_key fr m, weight fr fallback ws m)) ms;
                sum_w = sum_list (map snd weighted)
            in foldl (\<lambda>d (k, w). AList.update k (share_of w tokens sum_w) d) [] weighted)"

definition observe_output ::
  "(pyfloat \<Rightarrow> string) \<Rightarrow> (message \<Rightarrow> int) \<Rightarrow> message \<Rightarrow> Usage \<Rightarrow> weights \<Rightarrow> weights" where
  "observe_output fr fallback m u ws =
     (case measured (first_known (u_context_output_tokens u) (u_output_tokens u)) u of
        None \<Rightarrow> ws
      | Some tokens \<Rightarrow> AList.update (pressure_key fr m) (min (tokens + 64) (max 1 (fallback m))) ws)"

section \<open>The estimator interface\<close>

text \<open>What history compaction needs: the estimate of a list is the sum over its parts.\<close>

locale token_estimator =
  fixes est :: "message list \<Rightarrow> int"
  assumes est_nil: "est [] = 0"
    and est_append: "est (xs @ ys) = est xs + est ys"
begin

lemma est_cons: "est (m # ms) = est [m] + est ms"
  using est_append [of "[m]" ms] by simp

lemma est_concat: "est (concat gs) = sum_list (map est gs)"
  by (induction gs) (simp_all add: est_nil est_append)

lemma est_replace: "est (pre @ mid @ post) - est mid + est mid' = est (pre @ mid' @ post)"
  by (simp add: est_append)

end

locale positive_estimator = token_estimator +
  assumes est_pos: "1 \<le> est [m]"
begin

lemma est_length: "int (length ms) \<le> est ms"
proof (induction ms)
  case (Cons m ms)
  then show ?case using est_cons [of m ms] est_pos [of m] by simp
qed (simp add: est_nil)

lemma est_shrinks: "xs \<noteq> [] \<Longrightarrow> est (pre @ post) < est (pre @ xs @ post)"
proof -
  assume "xs \<noteq> []"
  then have "1 \<le> est xs" using est_length [of xs] by (cases xs) auto
  then show ?thesis by (simp add: est_append)
qed

end

lemma foldl_add_start: "foldl (\<lambda>acc m. acc + f m) (a :: nat) ms = a + foldl (\<lambda>acc m. acc + f m) 0 ms"
proof (induction ms arbitrary: a)
  case (Cons m ms)
  show ?case using Cons [of "a + f m"] Cons [of "f m"] by simp
qed simp

lemma estimate_append:
  "estimate_request_message_tokens fr k p (xs @ ys) =
     estimate_request_message_tokens fr k p xs + estimate_request_message_tokens fr k p ys"
  unfolding estimate_request_message_tokens_def foldl_append by (rule foldl_add_start)

interpretation req: positive_estimator "\<lambda>ms. int (estimate_request_message_tokens fr k p ms)" for fr k p
proof
  show "int (estimate_request_message_tokens fr k p []) = 0" by (simp add: estimate_request_message_tokens_def)
  show "int (estimate_request_message_tokens fr k p (xs @ ys)) =
      int (estimate_request_message_tokens fr k p xs) + int (estimate_request_message_tokens fr k p ys)" for xs ys
    by (simp add: estimate_append)
  show "1 \<le> int (estimate_request_message_tokens fr k p [m])" for m
    by (simp add: estimate_request_message_tokens_def message_tokens_def)
qed

interpretation cal: token_estimator "pressure fr fallback ws" for fr fallback ws
  by unfold_locales (simp_all add: pressure_def)

section \<open>Bounds\<close>

lemma estimate_tokens_bounds:
  "length text div 3 \<le> estimate_tokens text \<and> estimate_tokens text \<le> max 1 (length text)"
proof -
  define n w where "n = length text" and "w = min n (utf8_len text - n)"
  have w: "w \<le> n" by (simp add: w_def)
  have "(n - w) div 3 + w \<ge> n div 3" using w by linarith
  moreover have "(n - w) div 3 + w \<le> n" using w by linarith
  moreover have "estimate_tokens text = max 1 ((n - w) div 3 + w)"
    by (simp add: estimate_tokens_def n_def w_def Let_def)
  ultimately show ?thesis unfolding n_def [symmetric] by linarith
qed

definition weights_ok :: "weights \<Rightarrow> bool" where
  "weights_ok ws = list_all (\<lambda>p. 1 \<le> snd p) ws"

lemma weight_pos: "weights_ok ws \<Longrightarrow> 1 \<le> weight fr fallback ws m"
  by (force simp: weight_def weights_ok_def list_all_iff split: option.split dest: map_of_SomeD)

text \<open>The dictionary built from the weighted list gives each message its share.\<close>

lemma foldl_update_lookup:
  assumes "\<And>k w. (k, w) \<in> set kws \<Longrightarrow> w = g k"
  shows "map_of (foldl (\<lambda>d (k, w). AList.update k (f w) d) d kws) k =
    (if k \<in> fst ` set kws then Some (f (g k)) else map_of d k)"
  using assms
proof (induction kws arbitrary: d)
  case (Cons p kws)
  obtain a w where p: "p = (a, w)" by (cases p)
  have "w = g a" using Cons.prems [of a w] p by simp
  then show ?case using Cons.IH [of "AList.update a (f w) d"] Cons.prems by (auto simp: p update_conv)
qed simp

lemma share_bounds:
  assumes "1 \<le> w" and "w \<le> s" and "1 \<le> n" and "n < 2 ^ 53"
  defines "x \<equiv> rat_of_int (w * n) / of_int s"
  shows "1 \<le> share_of w n s" and "x - x / 2 ^ 53 \<le> of_int (share_of w n s)"
    and "of_int (share_of w n s) < x + x / 2 ^ 53 + 1"
proof -
  have s: "0 < s" using assms(1,2) by simp
  have x: "0 < x" using assms(1,3) s by (simp add: x_def zero_less_divide_iff zero_less_mult_iff)
  have "x \<le> of_int n"
  proof -
    have "w * n \<le> s * n" using assms(2,3) by (simp add: mult_right_mono)
    then have "rat_of_int (w * n) \<le> of_int (s * n)" by (simp only: of_int_le_iff)
    then show ?thesis using s by (simp add: x_def pos_divide_le_eq mult.commute)
  qed
  moreover have "rat_of_int n < 2 ^ 53" using assms(4) by (metis of_int_less_iff of_int_numeral of_int_power)
  ultimately have lt: "x < 2 ^ 53" by linarith
  note r = round53_between [OF x lt]
  have "x / 2 ^ 53 < x" using x by (simp add: divide_less_eq)
  then have "0 < round53 x" using r(3) by linarith
  moreover have sh: "share_of w n s = \<lceil>round53 x\<rceil>" by (simp only: share_of_def x_def)
  ultimately show "1 \<le> share_of w n s" by simp
  show "x - x / 2 ^ 53 \<le> of_int (share_of w n s)"
    using r(3) le_of_int_ceiling [of "round53 x"] unfolding sh by linarith
  show "of_int (share_of w n s) < x + x / 2 ^ 53 + 1"
    using r(2) ceiling_correct [of "round53 x"] unfolding sh by linarith
qed

lemma sum_shares:
  assumes "0 < s" and "sum_list (map w ms) = s"
  shows "sum_list (map (\<lambda>m. rat_of_int (w m * n) / of_int s) ms) = of_int n"
proof -
  have "sum_list (map (\<lambda>m. rat_of_int (w m * n) / of_int s) ms) = of_int (sum_list (map w ms)) * (of_int n / of_int s)"
    by (induction ms) (simp_all add: field_simps add_divide_distrib)
  then show ?thesis using assms by simp
qed

lemma sum_between:
  assumes "\<And>m. m \<in> set ms \<Longrightarrow> f m - f m * e \<le> rat_of_int (g m) \<and> rat_of_int (g m) \<le> f m + f m * e + 1"
  shows "sum_list (map f ms) - sum_list (map f ms) * e \<le> rat_of_int (sum_list (map g ms)) \<and>
    rat_of_int (sum_list (map g ms)) \<le> sum_list (map f ms) + sum_list (map f ms) * e + rat_of_nat (length ms)"
  using assms
proof (induction ms)
  case (Cons m ms)
  let ?F = "sum_list (map f ms)"
  have m: "f m - f m * e \<le> rat_of_int (g m)" "rat_of_int (g m) \<le> f m + f m * e + 1"
    using Cons.prems [of m] by auto
  have "?F - ?F * e \<le> rat_of_int (sum_list (map g ms)) \<and>
      rat_of_int (sum_list (map g ms)) \<le> ?F + ?F * e + rat_of_nat (length ms)"
    by (rule Cons.IH) (use Cons.prems in simp)
  moreover have "(f m + ?F) * e = f m * e + ?F * e" by (rule distrib_right)
  ultimately show ?case using m by simp
qed simp

lemma sum_shares_bounds:
  assumes w: "\<And>m. m \<in> set ms \<Longrightarrow> 1 \<le> w m" and ne: "ms \<noteq> []" and n: "1 \<le> n" "n < 2 ^ 53"
    and s: "s = sum_list (map w ms)"
  shows "n \<le> sum_list (map (\<lambda>m. share_of (w m) n s) ms) \<and>
    sum_list (map (\<lambda>m. share_of (w m) n s) ms) \<le> n + int (length ms)"
proof -
  let ?x = "\<lambda>m. rat_of_int (w m * n) / of_int s"
  define T where "T = sum_list (map (\<lambda>m. share_of (w m) n s) ms)"
  have le: "w m \<le> s" if "m \<in> set ms" for m
    unfolding s using that w by (intro member_le_sum_list) force+
  obtain m0 where "m0 \<in> set ms" using ne by (cases ms) auto
  then have pos: "0 < s" using le [of m0] w [of m0] by simp
  have F: "sum_list (map ?x ms) = of_int n" by (rule sum_shares [OF pos s [symmetric]])
  have "of_int n - of_int n * (1 / 2 ^ 53) \<le> rat_of_int T \<and>
      rat_of_int T \<le> of_int n + of_int n * (1 / 2 ^ 53) + rat_of_nat (length ms)"
    unfolding T_def F [symmetric]
  proof (rule sum_between)
    fix m assume m: "m \<in> set ms"
    show "?x m - ?x m * (1 / 2 ^ 53) \<le> of_int (share_of (w m) n s) \<and>
        of_int (share_of (w m) n s) \<le> ?x m + ?x m * (1 / 2 ^ 53) + 1"
      using share_bounds(2,3) [OF w [OF m] le [OF m] n] by simp
  qed
  moreover have "rat_of_int n * (1 / 2 ^ 53) < 1"
  proof -
    have "rat_of_int n < 2 ^ 53" using n(2) by (metis of_int_less_iff of_int_numeral of_int_power)
    then show ?thesis by simp
  qed
  ultimately have "rat_of_int n - 1 < rat_of_int T" "rat_of_int T < of_int n + 1 + rat_of_nat (length ms)" by linarith+
  then have "rat_of_int (n - 1) < rat_of_int T" "rat_of_int T < of_int (n + 1 + int (length ms))" by simp_all
  then show ?thesis unfolding of_int_less_iff T_def by linarith
qed

text \<open>
  The fallback estimate of one message depends only on what the key shows of it: two messages
  that serialise alike are the same payload.
\<close>

definition fallback_by_key :: "(pyfloat \<Rightarrow> string) \<Rightarrow> (message \<Rightarrow> int) \<Rightarrow> message list \<Rightarrow> bool" where
  "fallback_by_key fr fallback ms =
     list_all (\<lambda>m. list_all (\<lambda>m'. pressure_key fr m = pressure_key fr m' \<longrightarrow> fallback m = fallback m') ms) ms"

lemma weight_by_key:
  assumes "fallback_by_key fr fallback ms" and "m \<in> set ms" "m' \<in> set ms" and "pressure_key fr m = pressure_key fr m'"
  shows "weight fr fallback ws m = weight fr fallback ws m'"
proof -
  have "fallback m = fallback m'" using assms unfolding fallback_by_key_def list_all_iff by blast
  then show ?thesis by (simp only: weight_def assms(4))
qed

lemma observe_request_weight:
  assumes "measured (first_known (u_context_tokens u) (u_input_tokens u)) u = Some n" and "fallback_by_key fr fallback ms"
    and "m \<in> set ms"
  shows "map_of (observe_request fr fallback ms u ws) (pressure_key fr m) =
    Some (share_of (weight fr fallback ws m) n (pressure fr fallback ws ms))"
proof -
  let ?kws = "map (\<lambda>m. (pressure_key fr m, weight fr fallback ws m)) ms"
  define g where "g = (\<lambda>k. weight fr fallback ws (hd (filter (\<lambda>m. pressure_key fr m = k) ms)))"
  have g: "weight fr fallback ws m' = g (pressure_key fr m')" if "m' \<in> set ms" for m'
  proof -
    let ?h = "hd (filter (\<lambda>x. pressure_key fr x = pressure_key fr m') ms)"
    have "filter (\<lambda>x. pressure_key fr x = pressure_key fr m') ms \<noteq> []" using that by (auto simp: filter_empty_conv)
    then have "?h \<in> set (filter (\<lambda>x. pressure_key fr x = pressure_key fr m') ms)" by (rule hd_in_set)
    then have "?h \<in> set ms" "pressure_key fr ?h = pressure_key fr m'" by simp_all
    then show ?thesis unfolding g_def using weight_by_key [OF assms(2) that] by metis
  qed
  have "map_of (foldl (\<lambda>d (k, w). AList.update k (share_of w n (pressure fr fallback ws ms)) d) [] ?kws) (pressure_key fr m) =
      (if pressure_key fr m \<in> fst ` set ?kws then Some (share_of (g (pressure_key fr m)) n (pressure fr fallback ws ms)) else map_of [] (pressure_key fr m))"
    by (rule foldl_update_lookup) (use g in auto)
  moreover have "sum_list (map snd ?kws) = pressure fr fallback ws ms" by (simp add: pressure_def comp_def)
  moreover have "ms \<noteq> []" using assms(3) by auto
  ultimately show ?thesis using assms(1,3) g [OF assms(3)] by (force simp: observe_request_def Let_def)
qed

lemma foldl_update_values:
  "list_all P (map snd d) \<Longrightarrow> list_all (\<lambda>p. P (f (snd p))) kws \<Longrightarrow>
   list_all P (map snd (foldl (\<lambda>d (k, w). AList.update k (f w) d) d kws))"
proof (induction kws arbitrary: d)
  case (Cons p kws)
  obtain a w where p: "p = (a, w)" by (cases p)
  have "list_all P (map snd (AList.update a (f w) d))"
    using Cons.prems by (induction d) (auto simp: p)
  then show ?case using Cons by (simp add: p)
qed simp

lemma weights_ok_map: "weights_ok ws = list_all (\<lambda>w. 1 \<le> w) (map snd ws)"
  by (simp add: weights_ok_def list_all_iff)

lemma observe_request_positive:
  assumes "weights_ok ws" and "measured (first_known (u_context_tokens u) (u_input_tokens u)) u = Some n" and "n < 2 ^ 53"
  shows "weights_ok (observe_request fr fallback ms u ws)"
proof (cases "ms = []")
  case False
  let ?w = "weight fr fallback ws" and ?s = "pressure fr fallback ws ms"
  let ?kws = "map (\<lambda>m. (pressure_key fr m, ?w m)) ms"
  have n: "1 \<le> n" using assms(2) by (simp add: measured_def split: if_splits pyval.splits)
  have sh: "1 \<le> share_of (?w m) n ?s" if "m \<in> set ms" for m
  proof (rule share_bounds(1) [OF weight_pos [OF assms(1)] _ n assms(3)])
    have nn: "0 \<le> x" if x: "x \<in> set (map ?w ms)" for x
    proof -
      obtain m' where "x = ?w m'" using x by auto
      then show ?thesis using weight_pos [OF assms(1), of fr fallback m'] by simp
    qed
    show "?w m \<le> ?s" unfolding pressure_def by (rule member_le_sum_list [OF _ nn]) (use that in simp)
  qed
  have "list_all (\<lambda>w. 1 \<le> w) (map snd (foldl (\<lambda>d (k, w). AList.update k (share_of w n ?s) d) [] ?kws))"
    by (rule foldl_update_values) (use sh in \<open>auto simp: list_all_iff\<close>)
  moreover have "sum_list (map snd ?kws) = ?s" by (simp add: pressure_def comp_def)
  ultimately show ?thesis using assms(2) False by (simp add: observe_request_def Let_def weights_ok_map)
qed (use assms in \<open>simp add: observe_request_def\<close>)

lemma observe_output_positive:
  "weights_ok ws \<Longrightarrow> weights_ok (observe_output fr fallback m u ws)"
proof -
  assume ws: "weights_ok ws"
  have "weights_ok (AList.update k v ws)" if "1 \<le> v" for k v
    using ws that by (induction ws) (auto simp: weights_ok_def)
  then show ?thesis using ws by (simp add: observe_output_def measured_def split: option.split pyval.split)
qed

text \<open>
  Calibration.  After a response that measured \<open>n\<close> prompt tokens, the session's estimate of
  the very request that was sent is \<open>n\<close>, rounded up by less than one token per message: it never
  falls below what the provider counted and exceeds it by at most the number of messages.  Every
  stored weight stays positive, also after the response's own output is recorded, so no message
  becomes free.
\<close>

theorem calibrated_estimate:
  assumes "weights_ok ws" and "measured (first_known (u_context_tokens u) (u_input_tokens u)) u = Some n"
    and "n < 2 ^ 53" and "ms \<noteq> []" and "fallback_by_key fr fallback ms"
  shows "n \<le> pressure fr fallback (observe_request fr fallback ms u ws) ms \<and>
    pressure fr fallback (observe_request fr fallback ms u ws) ms \<le> n + int (length ms) \<and>
    weights_ok (observe_output fr fallback reply u (observe_request fr fallback ms u ws))"
proof -
  let ?w = "weight fr fallback ws" and ?s = "pressure fr fallback ws ms"
  have n: "1 \<le> n" using assms(2) by (simp add: measured_def split: if_splits pyval.splits)
  have "weight fr fallback (observe_request fr fallback ms u ws) m = share_of (?w m) n ?s" if "m \<in> set ms" for m
    unfolding weight_def [of _ _ "observe_request fr fallback ms u ws"]
    by (simp add: observe_request_weight [OF assms(2,5) that])
  then have "map (weight fr fallback (observe_request fr fallback ms u ws)) ms = map (\<lambda>m. share_of (?w m) n ?s) ms"
    by (intro map_cong) simp_all
  then have "pressure fr fallback (observe_request fr fallback ms u ws) ms = sum_list (map (\<lambda>m. share_of (?w m) n ?s) ms)"
    by (simp only: pressure_def)
  moreover have "n \<le> sum_list (map (\<lambda>m. share_of (?w m) n ?s) ms) \<and>
      sum_list (map (\<lambda>m. share_of (?w m) n ?s) ms) \<le> n + int (length ms)"
    by (rule sum_shares_bounds [OF weight_pos [OF assms(1)] assms(4) n assms(3)]) (simp add: pressure_def)
  ultimately show ?thesis
    using observe_output_positive [OF observe_request_positive [OF assms(1-3)]] by simp
qed

theorem calibrated_estimate_witness:
  "(let u = \<lparr>u_context_tokens = VNone, u_input_tokens = VInt 100, u_context_output_tokens = VNone,
       u_output_tokens = VInt 7, u_context_tokens_estimated = VNone, u_estimated = VBool False\<rparr>;
     ms = [[(''role'', VStr ''user'')], [(''role'', VStr ''tool'')], [(''role'', VStr ''user'')]];
     ws = observe_request (\<lambda>_. []) (\<lambda>_. 5) ms u []
   in 100 \<le> pressure (\<lambda>_. []) (\<lambda>_. 5) ws ms \<and> pressure (\<lambda>_. []) (\<lambda>_. 5) ws ms \<le> 103 \<and>
      weights_ok (observe_output (\<lambda>_. []) (\<lambda>_. 5) [] u ws))"
  using calibrated_estimate [of "[]"
      "\<lparr>u_context_tokens = VNone, u_input_tokens = VInt 100, u_context_output_tokens = VNone,
        u_output_tokens = VInt 7, u_context_tokens_estimated = VNone, u_estimated = VBool False\<rparr>" 100
      "[[(''role'', VStr ''user'')], [(''role'', VStr ''tool'')], [(''role'', VStr ''user'')]]" "\<lambda>_. []" "\<lambda>_. 5" "[]"]
  by (simp add: weights_ok_def measured_def first_known_def fallback_by_key_def Let_def)

end
