(* ===== verification/Shaping_Groups.thy ===== *)
theory Shaping_Groups
  imports Token_Estimation
begin

text \<open>
  Context sources (\<open>domain/context.py\<close>) and the vocabulary of the history shapers
  (\<open>application/shaping/pipeline.py\<close>): thresholds, message groups, tool-call pairing and pinning.
  A span \<open>(start, end)\<close> of \<open>_group_spans\<close> is represented by the slice it denotes, so the group list
  of a history concatenates to the history.

  Messages are read as the session stores them: entries of \<open>tool_calls\<close> are dictionaries,
  \<open>function\<close> is a dictionary, and a \<open>_ctx\<close> priority is a number (it is written by
  \<open>ContextPlan\<close> only).  On other values the code raises; the definitions read a call that is not a
  dictionary as one without an id, and a priority that is not a number as no priority.
\<close>

section \<open>Context plan\<close>

datatype ContextLayer = IDENTITY | TEAM | PROJECT | TASK | SKILL

datatype ContextPosition = SYSTEM | USER_CONTEXT

fun layer_value :: "ContextLayer \<Rightarrow> string" where
  "layer_value IDENTITY = ''identity''"
| "layer_value TEAM = ''team''"
| "layer_value PROJECT = ''project''"
| "layer_value TASK = ''task''"
| "layer_value SKILL = ''skill''"

fun LAYER_PRIORITY :: "ContextLayer \<Rightarrow> int" where
  "LAYER_PRIORITY IDENTITY = 100"
| "LAYER_PRIORITY TEAM = 90"
| "LAYER_PRIORITY SKILL = 85"
| "LAYER_PRIORITY TASK = 80"
| "LAYER_PRIORITY PROJECT = 30"

record ContextSource =
  src_name :: string
  src_layer :: ContextLayer
  src_position :: ContextPosition
  src_content :: string
  src_priority :: "int option"

definition effective_priority :: "ContextSource \<Rightarrow> int" where
  "effective_priority s = (case src_priority s of Some p \<Rightarrow> p | None \<Rightarrow> LAYER_PRIORITY (src_layer s))"

type_synonym ContextPlan = "ContextSource list"

definition startup :: "ContextPlan \<Rightarrow> ContextPosition \<Rightarrow> ContextSource list" where
  "startup plan pos = filter (\<lambda>s. src_position s = pos \<and> src_content s \<noteq> []) plan"

definition system_prompt :: "ContextPlan \<Rightarrow> string" where
  "system_prompt plan = py_join [CHR 0x0A, CHR 0x0A] (map src_content (startup plan SYSTEM))"

definition source_message :: "string \<Rightarrow> ContextSource \<Rightarrow> message" where
  "source_message role s =
     [(''role'', VStr role), (''content'', VStr (src_content s)),
      (''_ctx'', VDict [(''name'', VStr (src_name s)), (''layer'', VStr (layer_value (src_layer s))),
                        (''priority'', VInt (effective_priority s))])]"

definition startup_messages :: "ContextPlan \<Rightarrow> ContextPosition \<Rightarrow> string \<Rightarrow> message list" where
  "startup_messages plan pos role = map (source_message role) (startup plan pos)"

definition startup_system_messages :: "ContextPlan \<Rightarrow> message list" where
  "startup_system_messages plan = startup_messages plan SYSTEM ''system''"

definition startup_user_messages :: "ContextPlan \<Rightarrow> message list" where
  "startup_user_messages plan = startup_messages plan USER_CONTEXT ''user''"

section \<open>Thresholds\<close>

datatype ShapeError = BadValue string | FloatOverflow

definition require_nonnegative_int :: "pyval \<Rightarrow> string \<Rightarrow> ShapeError + int" where
  "require_nonnegative_int v name = (case v of VInt i \<Rightarrow> if i < 0 then Inl (BadValue name) else Inr i | _ \<Rightarrow> Inl (BadValue name))"

definition require_positive_int :: "pyval \<Rightarrow> string \<Rightarrow> ShapeError + int" where
  "require_positive_int v name = (case v of VInt i \<Rightarrow> if i \<le> 0 then Inl (BadValue name) else Inr i | _ \<Rightarrow> Inl (BadValue name))"

abbreviation DEFAULT_HISTORY_TRIGGER_TOKENS :: int where "DEFAULT_HISTORY_TRIGGER_TOKENS \<equiv> 120000"
abbreviation DEFAULT_HISTORY_TARGET_TOKENS :: int where "DEFAULT_HISTORY_TARGET_TOKENS \<equiv> 90000"
abbreviation HISTORY_TARGET_RATIO :: rat where "HISTORY_TARGET_RATIO \<equiv> 3 / 4"
abbreviation PIN_FLOOR :: int where "PIN_FLOOR \<equiv> 70"

text \<open>
  A ratio strictly between 0 and 1 is a \<open>float\<close>.  \<open>trigger * target_ratio\<close> converts the integer and
  rounds the product; a product too small for the exponent range has integer part 0 either way.
\<close>

definition check_ratio :: "pyval \<Rightarrow> ShapeError + rat" where
  "check_ratio v =
     (case v of
        VFloat (Fin r) \<Rightarrow> if 0 < r \<and> r < 1 then Inr r else Inl (BadValue ''target_ratio'')
      | VInt i \<Rightarrow> if float_of_int i = None then Inl FloatOverflow else Inl (BadValue ''target_ratio'')
      | _ \<Rightarrow> Inl (BadValue ''target_ratio''))"

definition check_window :: "pyval \<Rightarrow> ShapeError + int option" where
  "check_window v =
     (case v of VNone \<Rightarrow> Inr None | VInt w \<Rightarrow> Inr (Some w) | _ \<Rightarrow> Inl (BadValue ''context_window''))"

definition history_trigger_target :: "pyval \<Rightarrow> pyval \<Rightarrow> pyval \<Rightarrow> pyval \<Rightarrow> ShapeError + int \<times> int" where
  "history_trigger_target context_window output_reserve buffer target_ratio =
     bnd (require_nonnegative_int output_reserve ''output_reserve'') (\<lambda>reserve.
     bnd (require_nonnegative_int buffer ''buffer'') (\<lambda>buf.
     bnd (check_ratio target_ratio) (\<lambda>ratio.
     bnd (check_window context_window) (\<lambda>window.
       case window of
         None \<Rightarrow> Inr (DEFAULT_HISTORY_TRIGGER_TOKENS, DEFAULT_HISTORY_TARGET_TOKENS)
       | Some w \<Rightarrow>
           if w \<le> 0 then Inr (DEFAULT_HISTORY_TRIGGER_TOKENS, DEFAULT_HISTORY_TARGET_TOKENS)
           else
             let trigger = max 2 (w - reserve - buf)
             in case float_of_int trigger of
                  None \<Rightarrow> Inl FloatOverflow
                | Some f \<Rightarrow> Inr (trigger, max 1 (min (trigger - 1) (trunc (round53 (f * ratio)))))))))"

section \<open>Groups\<close>

definition is_leader :: "message \<Rightarrow> bool" where
  "is_leader m = (get m ''role'' = VStr ''assistant'' \<and> truthy (get m ''tool_calls''))"

definition is_tool_msg :: "message \<Rightarrow> bool" where
  "is_tool_msg m = (get m ''role'' = VStr ''tool'')"

function groups :: "message list \<Rightarrow> message list list" where
  "groups [] = []"
| "groups (m # ms) =
     (if is_leader m then (m # takeWhile is_tool_msg ms) # groups (dropWhile is_tool_msg ms)
      else [m] # groups ms)"
  by pat_completeness auto
termination
  by (relation "measure length") (simp_all add: le_imp_less_Suc length_dropWhile_le)

fun spans_from :: "nat \<Rightarrow> 'a list list \<Rightarrow> (nat \<times> nat) list" where
  "spans_from i [] = []"
| "spans_from i (g # gs) = (i, i + length g) # spans_from (i + length g) gs"

definition group_spans :: "message list \<Rightarrow> (nat \<times> nat) list" where
  "group_spans ms = spans_from 0 (groups ms)"

definition as_dict :: "pyval \<Rightarrow> message" where
  "as_dict v = (case v of VDict d \<Rightarrow> d | _ \<Rightarrow> [])"

definition calls_of :: "message \<Rightarrow> message list" where
  "calls_of m = (case get m ''tool_calls'' of VList xs \<Rightarrow> map as_dict xs | _ \<Rightarrow> [])"

definition call_ids :: "message \<Rightarrow> pyval list" where
  "call_ids m = map (\<lambda>c. get c ''id'') (calls_of m)"

definition usable_id :: "pyval \<Rightarrow> bool" where
  "usable_id v = (is_str v \<and> truthy v)"

definition ids_ok :: "pyval list \<Rightarrow> bool" where
  "ids_ok ids = (list_all usable_id ids \<and> distinct ids)"

definition result_ids :: "message list \<Rightarrow> pyval list" where
  "result_ids rs = map (\<lambda>r. get r ''tool_call_id'') rs"

fun index_of :: "'a \<Rightarrow> 'a list \<Rightarrow> nat" where
  "index_of x [] = 0"
| "index_of x (y # ys) = (if x = y then 0 else Suc (index_of x ys))"

text \<open>One assistant turn at position \<open>i\<close> and the tool messages that follow it.\<close>

definition turn_occurrences :: "nat \<Rightarrow> message \<Rightarrow> message list \<Rightarrow> (nat \<times> pyval \<times> pyval \<times> pyval) list" where
  "turn_occurrences i m rs =
     (if is_leader m \<and> ids_ok (call_ids m) \<and> ids_ok (result_ids rs) \<and> set (result_ids rs) = set (call_ids m)
      then map (\<lambda>c. let f = as_dict (get c ''function'')
                    in (i + 1 + index_of (get c ''id'') (result_ids rs), get c ''id'', get f ''name'', get f ''arguments''))
             (calls_of m)
      else [])"

fun occurrences_from :: "nat \<Rightarrow> message list \<Rightarrow> (nat \<times> pyval \<times> pyval \<times> pyval) list" where
  "occurrences_from i [] = []"
| "occurrences_from i (m # ms) =
     turn_occurrences i m (takeWhile is_tool_msg ms) @ occurrences_from (Suc i) ms"

definition matched_tool_result_occurrences :: "message list \<Rightarrow> (nat \<times> pyval \<times> pyval \<times> pyval) list" where
  "matched_tool_result_occurrences ms = occurrences_from 0 ms"

definition is_complete_tool_exchange :: "message list \<Rightarrow> bool" where
  "is_complete_tool_exchange g =
     (case g of
        [] \<Rightarrow> False
      | m # rs \<Rightarrow>
          is_leader m \<and>
          (let rids = result_ids (filter is_tool_msg rs)
           in call_ids m \<noteq> [] \<and> ids_ok (call_ids m) \<and> ids_ok rids \<and> set (call_ids m) = set rids))"

definition span_is_safe_to_compact :: "message list \<Rightarrow> bool" where
  "span_is_safe_to_compact g =
     (case g of
        [] \<Rightarrow> True
      | m # rs \<Rightarrow> if is_tool_msg m then False else if is_leader m then is_complete_tool_exchange g else True)"

definition droppable_region :: "message list \<Rightarrow> nat \<Rightarrow> message list list \<times> nat \<times> nat" where
  "droppable_region ms keep_recent_groups =
     (let gs = groups ms in (gs, 1, max 1 (length gs - keep_recent_groups)))"

definition ctx_priority :: "message \<Rightarrow> pyval" where
  "ctx_priority m = (case get m ''_ctx'' of VDict c \<Rightarrow> get c ''priority'' | _ \<Rightarrow> VNone)"

definition is_pinned :: "message \<Rightarrow> bool" where
  "is_pinned m =
     (case ctx_priority m of
        VInt p \<Rightarrow> PIN_FLOOR \<le> p
      | VFloat (Fin r) \<Rightarrow> of_int PIN_FLOOR \<le> r
      | VFloat PInf \<Rightarrow> True
      | _ \<Rightarrow> False)"

definition group_has_pinned :: "message list \<Rightarrow> bool" where
  "group_has_pinned g = list_ex is_pinned g"

definition pinned_free_region :: "message list list \<Rightarrow> nat \<Rightarrow> nat \<Rightarrow> nat \<times> nat" where
  "pinned_free_region gs lo hi =
     (let lo' = lo + length (takeWhile group_has_pinned (drop lo (take hi gs)));
          end' = lo' + length (takeWhile (\<lambda>g. \<not> group_has_pinned g) (drop lo' (take hi gs)))
      in (lo', end'))"

section \<open>Group structure\<close>

lemma concat_groups [simp]: "concat (groups ms) = ms"
  by (induction ms rule: groups.induct) simp_all

lemma slice_of_span:
  "(s, e) \<in> set (spans_from i gs) \<Longrightarrow> \<exists>g \<in> set gs. take (e - s) (drop (s - i) (concat gs)) = g \<and> i \<le> s \<and> s \<le> e"
proof (induction gs arbitrary: i)
  case (Cons g gs)
  show ?case
  proof (cases "(s, e) = (i, i + length g)")
    case False
    then have "(s, e) \<in> set (spans_from (i + length g) gs)" using Cons.prems by auto
    from Cons.IH [OF this] obtain h where h: "h \<in> set gs" "take (e - s) (drop (s - (i + length g)) (concat gs)) = h"
      "i + length g \<le> s" "s \<le> e" by blast
    then have "drop (s - i) (concat (g # gs)) = drop (s - (i + length g)) (concat gs)" by simp
    then show ?thesis using h by (metis list.set_intros(2) le_add1 order_trans)
  qed auto
qed simp

text \<open>A list of groups is chained when regrouping its concatenation gives it back.\<close>

definition group_ok :: "message list \<Rightarrow> bool" where
  "group_ok g =
     (case g of [] \<Rightarrow> False | m # rs \<Rightarrow> if is_leader m then list_all is_tool_msg rs else rs = [])"

definition tool_head :: "message list list \<Rightarrow> bool" where
  "tool_head gs = (gs \<noteq> [] \<and> is_tool_msg (hd (hd gs)))"

fun chained :: "message list list \<Rightarrow> bool" where
  "chained [] = True"
| "chained (g # gs) = (group_ok g \<and> (is_leader (hd g) \<longrightarrow> \<not> tool_head gs) \<and> chained gs)"

lemma group_ok_nonempty: "group_ok g \<Longrightarrow> g \<noteq> []"
  by (auto simp: group_ok_def)

lemma leader_not_tool: "is_leader m \<Longrightarrow> \<not> is_tool_msg m"
  by (simp add: is_leader_def is_tool_msg_def)

lemma hd_groups: "ms \<noteq> [] \<Longrightarrow> hd (hd (groups ms)) = hd ms \<and> groups ms \<noteq> []"
  by (cases ms) simp_all

lemma chained_groups: "chained (groups ms)"
proof (induction ms rule: groups.induct)
  case (2 m ms)
  have "\<not> tool_head (groups (dropWhile is_tool_msg ms))"
  proof (cases "dropWhile is_tool_msg ms")
    case Nil
    then show ?thesis by (simp only: tool_head_def groups.simps) simp
  next
    case (Cons x xs)
    then have "\<not> is_tool_msg x" using hd_dropWhile [of is_tool_msg ms] by simp
    then show ?thesis using hd_groups [of "dropWhile is_tool_msg ms"] Cons by (simp add: tool_head_def)
  qed
  moreover have "list_all is_tool_msg (takeWhile is_tool_msg ms)" by (auto simp: list_all_iff dest: set_takeWhileD)
  ultimately show ?case using 2 by (simp add: group_ok_def)
qed simp

lemma concat_tool_head:
  "chained gs \<Longrightarrow> (concat gs = [] \<longleftrightarrow> gs = []) \<and> (gs \<noteq> [] \<longrightarrow> hd (concat gs) = hd (hd gs))"
  by (cases gs) (auto dest: group_ok_nonempty)

lemma groups_concat: "chained gs \<Longrightarrow> groups (concat gs) = gs"
proof (induction gs)
  case (Cons g gs)
  then have "g \<noteq> []" using group_ok_nonempty by simp
  then obtain m rs where g: "g = m # rs" by (cases g) auto
  show ?case
  proof (cases "is_leader m")
    case True
    then have rs: "list_all is_tool_msg rs" and nt: "\<not> tool_head gs" using Cons.prems by (simp_all add: g group_ok_def)
    have "takeWhile is_tool_msg (concat gs) = [] \<and> dropWhile is_tool_msg (concat gs) = concat gs"
    proof (cases "concat gs")
      case (Cons x xs)
      then have "gs \<noteq> []" and "x = hd (hd gs)" using concat_tool_head [of gs] \<open>chained (g # gs)\<close> by auto
      then show ?thesis using nt Cons by (simp add: tool_head_def)
    next
      case Nil
      then show ?thesis by (simp only: takeWhile.simps dropWhile.simps)
    qed
    then show ?thesis using True rs Cons by (simp add: g list_all_iff takeWhile_append2 dropWhile_append2)
  next
    case False
    then show ?thesis using Cons by (simp add: g group_ok_def)
  qed
qed simp

lemma chained_append:
  "chained (xs @ ys) \<longleftrightarrow> chained xs \<and> chained ys \<and> (xs \<noteq> [] \<longrightarrow> is_leader (hd (last xs)) \<longrightarrow> \<not> tool_head ys)"
  by (induction xs) (auto simp: tool_head_def)

text \<open>The protocol skeleton of a message: all that pairing depends on.\<close>

definition skel :: "message \<Rightarrow> pyval \<times> bool \<times> pyval list \<times> pyval" where
  "skel m = (get m ''role'', truthy (get m ''tool_calls''), call_ids m, get m ''tool_call_id'')"

lemma skel_leader: "skel m = skel m' \<Longrightarrow> is_leader m = is_leader m' \<and> is_tool_msg m = is_tool_msg m'"
  by (simp add: skel_def is_leader_def is_tool_msg_def)

lemma skel_takeWhile:
  "map skel ms = map skel ms' \<Longrightarrow>
   map skel (takeWhile is_tool_msg ms) = map skel (takeWhile is_tool_msg ms') \<and>
   map skel (dropWhile is_tool_msg ms) = map skel (dropWhile is_tool_msg ms')"
proof (induction ms arbitrary: ms')
  case (Cons m ms)
  then obtain m' xs where "ms' = m' # xs" by (cases ms') auto
  then show ?case using Cons skel_leader [of m m'] by simp
qed simp

lemma skel_groups: "map skel ms = map skel ms' \<Longrightarrow> map (map skel) (groups ms) = map (map skel) (groups ms')"
proof (induction ms arbitrary: ms' rule: groups.induct)
  case (2 m ms)
  then obtain m' xs where ms': "ms' = m' # xs" by (cases ms') auto
  have m: "skel m = skel m'" and xs: "map skel ms = map skel xs" using 2 ms' by simp_all
  note tw = skel_takeWhile [OF xs]
  show ?case
  proof (cases "is_leader m")
    case True
    then have "is_leader m'" using skel_leader [OF m] by simp
    then show ?thesis using True m tw 2(1) [of "dropWhile is_tool_msg xs"] by (simp add: ms')
  next
    case False
    then have "\<not> is_leader m'" using skel_leader [OF m] by simp
    then show ?thesis using False m 2(2) [OF False xs] by (simp add: ms')
  qed
qed simp

lemma skel_filter_tool:
  "map skel rs = map skel rs' \<Longrightarrow> result_ids (filter is_tool_msg rs) = result_ids (filter is_tool_msg rs')"
proof (induction rs arbitrary: rs')
  case (Cons r rs)
  then obtain r' xs where "rs' = r' # xs" by (cases rs') auto
  then show ?case using Cons skel_leader [of r r'] by (simp add: result_ids_def skel_def)
qed (simp add: result_ids_def)

lemma skel_safe: "map skel g = map skel g' \<Longrightarrow> span_is_safe_to_compact g = span_is_safe_to_compact g'"
proof (cases g)
  case (Cons m rs)
  assume eq: "map skel g = map skel g'"
  then obtain m' rs' where g': "g' = m' # rs'" using Cons by (cases g') auto
  have "skel m = skel m'" "map skel rs = map skel rs'" using eq Cons g' by simp_all
  then show ?thesis
    using skel_leader [of m m'] skel_filter_tool [of rs rs']
    by (simp add: Cons g' span_is_safe_to_compact_def is_complete_tool_exchange_def skel_def)
qed (simp add: span_is_safe_to_compact_def)

text \<open>The malformed exchanges of a history and its pinned seed messages.\<close>

definition malformed :: "message list \<Rightarrow> (pyval \<times> bool \<times> pyval list \<times> pyval) list list" where
  "malformed ms = map (map skel) (filter (\<lambda>g. \<not> span_is_safe_to_compact g) (groups ms))"

definition pinned_seed :: "message \<Rightarrow> bool" where
  "pinned_seed m = (is_pinned m \<and> get m ''role'' \<in> {VStr ''system'', VStr ''user''})"

lemma skel_malformed: "map skel ms = map skel ms' \<Longrightarrow> malformed ms = malformed ms'"
proof -
  assume "map skel ms = map skel ms'"
  then have eq: "map (map skel) (groups ms) = map (map skel) (groups ms')" by (rule skel_groups)
  have "map (map skel) (filter (\<lambda>g. \<not> span_is_safe_to_compact g) gs) =
      map (map skel) (filter (\<lambda>g. \<not> span_is_safe_to_compact g) gs')"
    if "map (map skel) gs = map (map skel) gs'" for gs gs'
    using that
  proof (induction gs arbitrary: gs')
    case (Cons g gs)
    then obtain g' xs where gs': "gs' = g' # xs" by (cases gs') auto
    then have g: "map skel g = map skel g'" and xs: "map (map skel) gs = map (map skel) xs"
      using Cons.prems by simp_all
    show ?case using Cons.IH [OF xs] skel_safe [OF g] g by (simp add: gs')
  qed simp
  from this [OF eq] show ?thesis unfolding malformed_def .
qed

end
