(* ===== verification/Shaping.thy ===== *)
theory Shaping
  imports Shaping_Groups
begin

text \<open>
  The history shapers: the per-result cap (\<open>shaping/tool_budget.py\<close>), the eager and the reactive
  clearing of old tool output (\<open>shaping/eager.py\<close>, \<open>shaping/reactive.py\<close>), deletion of old
  exchanges, model-written summaries with their cache, and the pipeline that chains them
  (\<open>shaping/pipeline.py\<close>).

  Arguments stand for what the shapers are given: the token estimate, the summariser with its
  \<open>last_call_cacheable\<close> flag, the digest that keys the summary cache, and the outcome of
  \<open>json.loads\<close>.  The asynchronous variants differ only in awaiting the summariser.  The em dash
  of the notices is one character; its code point lies outside the range of \<open>string\<close> and is written
  as \<open>EM_DASH\<close>.
\<close>

section \<open>Per-result cap\<close>

definition EM_DASH :: char where "EM_DASH = CHR 0x97"

record BudgetShaper =
  max_chars :: nat
  preserve_tail :: bool

definition notice :: "nat \<Rightarrow> string" where
  "notice dropped =
     [CHR 0x0A, CHR 0x0A] @ ''[truncated '' @ nat_digits dropped @ '' chars '' @ [EM_DASH] @
     '' re-read a narrower range (file_read with offset/limit, or grep) to see the rest]''"

definition head_budget :: "BudgetShaper \<Rightarrow> nat \<Rightarrow> nat \<Rightarrow> nat" where
  "head_budget cfg n head_len =
     (let source_budget = max_chars cfg - length (notice (n - head_len))
      in if preserve_tail cfg then (source_budget * 3) div 8 else source_budget)"

definition truncate_content :: "BudgetShaper \<Rightarrow> string \<Rightarrow> string" where
  "truncate_content cfg content =
     (let n = length content;
          head_len = (head_budget cfg n ^^ 3) 0;
          marker = notice (n - head_len)
      in take (max_chars cfg)
           (if preserve_tail cfg
            then let source_budget = max_chars cfg - length marker;
                     head' = (source_budget * 3) div 8;
                     tail_len = source_budget - head'
                 in take head' content @ marker @ (if tail_len \<noteq> 0 then py_last tail_len content else [])
            else take head_len content @ marker))"

definition shape_message :: "BudgetShaper \<Rightarrow> message \<Rightarrow> message" where
  "shape_message cfg m =
     (if \<not> is_tool_msg m then m
      else case get m ''content'' of
             VStr content \<Rightarrow>
               if length content \<le> max_chars cfg then m
               else AList.update ''content'' (VStr (truncate_content cfg content)) m
           | _ \<Rightarrow> m)"

datatype json_outcome = JsonDict | JsonOther | JsonValueError | JsonRecursionError

definition REJECTED_ARGUMENTS :: string where
  "REJECTED_ARGUMENTS = ''{'' @ json_str ''_rejected_tool_arguments'' @ '':'' @ json_str ''omitted'' @ ''}''"

definition has_id :: "string \<Rightarrow> pyval \<Rightarrow> bool" where
  "has_id call_id v = (is_dict v \<and> get (as_dict v) ''id'' = VStr call_id)"

definition omit_call :: "string \<Rightarrow> pyval \<Rightarrow> pyval" where
  "omit_call call_id v =
     (case v of
        VDict c \<Rightarrow>
          if get c ''id'' = VStr call_id
          then VDict (AList.update ''function''
                 (VDict (AList.update ''arguments'' (VStr REJECTED_ARGUMENTS) (as_dict (get c ''function'')))) c)
          else v
      | _ \<Rightarrow> v)"

definition omit_item :: "string \<Rightarrow> pyval \<Rightarrow> pyval" where
  "omit_item call_id v =
     (case v of
        VDict c \<Rightarrow>
          if get c ''type'' = VStr ''function_call'' \<and> get c ''call_id'' = VStr call_id
          then VDict (AList.update ''arguments'' (VStr REJECTED_ARGUMENTS) c)
          else v
      | _ \<Rightarrow> v)"

definition list_of :: "pyval \<Rightarrow> pyval list" where
  "list_of v = (case v of VList xs \<Rightarrow> xs | _ \<Rightarrow> [])"

text \<open>Whether the first call with this id carries oversized arguments that are not an object.\<close>

definition oversized_rejected :: "(string \<Rightarrow> json_outcome) \<Rightarrow> BudgetShaper \<Rightarrow> message \<Rightarrow> string \<Rightarrow> bool" where
  "oversized_rejected loads cfg m call_id =
     (case find (has_id call_id) (list_of (get m ''tool_calls'')) of
        None \<Rightarrow> False
      | Some call \<Rightarrow>
          (case get (as_dict (get (as_dict call) ''function'')) ''arguments'' of
             VStr arguments \<Rightarrow> max_chars cfg < length arguments \<and> loads arguments \<in> {JsonOther, JsonValueError}
           | _ \<Rightarrow> False))"

definition shape_rejected_arguments :: "(string \<Rightarrow> json_outcome) \<Rightarrow> BudgetShaper \<Rightarrow> message \<Rightarrow> string \<Rightarrow> message" where
  "shape_rejected_arguments loads cfg m call_id =
     (if oversized_rejected loads cfg m call_id
      then let m' = AList.update ''tool_calls'' (VList (map (omit_call call_id) (list_of (get m ''tool_calls'')))) m
           in if is_list (get m ''response_items'')
              then AList.update ''response_items'' (VList (map (omit_item call_id) (list_of (get m ''response_items'')))) m'
              else m'
      else m)"

definition rejection_prefixes :: "string list" where
  "rejection_prefixes =
     [''Error: invalid JSON arguments:'', ''Error: tool arguments must be a JSON object:'',
      ''Error: entire tool-call batch rejected before execution:'']"

definition is_rejection :: "pyval \<Rightarrow> bool" where
  "is_rejection v = (case v of VStr s \<Rightarrow> list_ex (startswith s) rejection_prefixes | _ \<Rightarrow> False)"

definition new_pending :: "message \<Rightarrow> nat \<Rightarrow> (string \<times> nat) list" where
  "new_pending m owner =
     foldl (\<lambda>d v. case get (as_dict v) ''id'' of VStr i \<Rightarrow> AList.update i owner d | _ \<Rightarrow> d)
       [] (filter is_dict (list_of (get m ''tool_calls'')))"

definition budget_step ::
  "(string \<Rightarrow> json_outcome) \<Rightarrow> BudgetShaper \<Rightarrow> message list \<times> (string \<times> nat) list \<Rightarrow> message \<Rightarrow> message list \<times> (string \<times> nat) list" where
  "budget_step loads cfg st m =
     (case st of (shaped0, pending) \<Rightarrow>
        let shaped = shaped0 @ [shape_message cfg m]
        in if get m ''role'' = VStr ''assistant'' then (shaped, new_pending m (length shaped - 1))
           else if is_tool_msg m
           then (case get m ''tool_call_id'' of
                   VStr call_id \<Rightarrow>
                     (case map_of pending call_id of
                        Some owner \<Rightarrow>
                          (if is_rejection (get m ''content'')
                           then shaped[owner := shape_rejected_arguments loads cfg (shaped ! owner) call_id]
                           else shaped,
                           AList.delete call_id pending)
                      | None \<Rightarrow> (shaped, pending))
                 | _ \<Rightarrow> (shaped, pending))
           else (shaped, pending))"

definition shape_budget :: "(string \<Rightarrow> json_outcome) \<Rightarrow> BudgetShaper \<Rightarrow> message list \<Rightarrow> message list" where
  "shape_budget loads cfg ms = fst (foldl (budget_step loads cfg) ([], []) ms)"

section \<open>Eager clearing\<close>

record EagerShaper =
  eager_tools :: "string list"
  eager_keep :: nat

definition EAGER_STUB_PREFIX :: string where
  "EAGER_STUB_PREFIX = ''[Old tool result cleared''"

definition stub_for_call :: "string \<Rightarrow> string option \<Rightarrow> string" where
  "stub_for_call tool_name target =
     EAGER_STUB_PREFIX @ '': '' @ tool_name @
     (case target of Some t \<Rightarrow> if t \<noteq> [] then '' '' @ t else [] | None \<Rightarrow> []) @ '']'' @
     '' '' @ [EM_DASH] @ '' you already ran this; the full output is in the transcript above.'' @
     '' Re-issue ONLY if you need the exact content again, not to check whether you read it.''"

text \<open>\<open>isinstance(v, int)\<close> holds of booleans too; they print as \<open>True\<close> and \<open>False\<close> and add as 1 and 0.\<close>

definition int_field :: "pyval \<Rightarrow> (int \<times> string) option" where
  "int_field v =
     (case v of
        VInt i \<Rightarrow> Some (i, int_str i)
      | VBool b \<Rightarrow> Some (if b then (1, ''True'') else (0, ''False''))
      | _ \<Rightarrow> None)"

definition range_label :: "message \<Rightarrow> string" where
  "range_label arguments =
     (case (int_field (get arguments ''offset''), int_field (get arguments ''limit'')) of
        (Some (off, off_s), Some (n, _)) \<Rightarrow> '' lines '' @ off_s @ ''-'' @ int_str (off + n - 1)
      | (Some (_, off_s), None) \<Rightarrow> '' from line '' @ off_s
      | (None, Some (_, n_s)) \<Rightarrow> '' first '' @ n_s @ '' lines''
      | (None, None) \<Rightarrow> '' (whole file)'')"

definition first_text :: "message \<Rightarrow> string list \<Rightarrow> string option" where
  "first_text d ks =
     (case find (\<lambda>k. usable_id (get d k)) ks of
        Some k \<Rightarrow> (case get d k of VStr s \<Rightarrow> Some s | _ \<Rightarrow> None)
      | None \<Rightarrow> None)"

text \<open>\<open>parse\<close> is \<open>_as_dict\<close> on a string argument: the object it parses to, if any.\<close>

definition arguments_dict :: "(string \<Rightarrow> message option) \<Rightarrow> pyval \<Rightarrow> message option" where
  "arguments_dict parse v = (case v of VStr s \<Rightarrow> parse s | VDict d \<Rightarrow> Some d | _ \<Rightarrow> None)"

definition call_target :: "(string \<Rightarrow> message option) \<Rightarrow> string \<Rightarrow> pyval \<Rightarrow> string option" where
  "call_target parse tool_name arguments =
     (case arguments_dict parse arguments of
        None \<Rightarrow> None
      | Some d \<Rightarrow>
          (case (if tool_name = ''file_read'' then first_text d [''path'', ''file_path'', ''filename'', ''file''] else None) of
             Some p \<Rightarrow> Some (p @ range_label d)
           | None \<Rightarrow> first_text d [''path'', ''file_path'', ''filename'', ''file'', ''pattern'', ''command'']))"

definition named_tool :: "string list \<Rightarrow> pyval \<Rightarrow> bool" where
  "named_tool tools name = (case name of VStr s \<Rightarrow> s \<in> set tools | _ \<Rightarrow> False)"

definition str_of :: "pyval \<Rightarrow> string" where
  "str_of v = (case v of VStr s \<Rightarrow> s | _ \<Rightarrow> [])"

definition content_len :: "message \<Rightarrow> nat" where
  "content_len m = length (str_of (get m ''content''))"

definition stubs_for_old_results :: "(string \<Rightarrow> message option) \<Rightarrow> EagerShaper \<Rightarrow> message list \<Rightarrow> (nat \<times> string) list" where
  "stubs_for_old_results parse cfg ms =
     (let compactable = filter (\<lambda>(i, _, name, _).
              named_tool (eager_tools cfg) name \<and> \<not> is_pinned (ms ! i) \<and> is_str (get (ms ! i) ''content''))
            (matched_tool_result_occurrences ms)
      in if length compactable \<le> eager_keep cfg then []
         else filter (\<lambda>(i, stub). length stub < content_len (ms ! i))
                (map (\<lambda>(i, _, name, arguments). (i, stub_for_call (str_of name) (call_target parse (str_of name) arguments)))
                   (py_but_last (eager_keep cfg) compactable)))"

text \<open>
  The stubs are a dictionary that later entries overwrite; result positions are distinct, so the
  first entry is the only one.
\<close>

definition put_stubs :: "(message \<Rightarrow> bool) \<Rightarrow> (nat \<times> string) list \<Rightarrow> message list \<Rightarrow> message list" where
  "put_stubs guard stubs ms =
     map (\<lambda>(i, m).
        case map_of stubs i of
          Some stub \<Rightarrow>
            if is_tool_msg m \<and> guard m \<and> get m ''content'' \<noteq> VStr stub
            then AList.update ''content'' (VStr stub) m else m
        | None \<Rightarrow> m) (zip [0..<length ms] ms)"

definition shape_eager :: "(string \<Rightarrow> message option) \<Rightarrow> EagerShaper \<Rightarrow> message list \<Rightarrow> message list" where
  "shape_eager parse cfg ms = put_stubs (\<lambda>m. \<not> is_pinned m) (stubs_for_old_results parse cfg ms) ms"

section \<open>Reactive layers\<close>

record Reactive =
  trigger_tokens :: int
  target_tokens :: int
  keep_recent_groups :: nat

definition reactive_shaper :: "pyval \<Rightarrow> pyval \<Rightarrow> pyval \<Rightarrow> ShapeError + Reactive" where
  "reactive_shaper trigger target keep =
     bnd (require_positive_int trigger ''trigger_tokens'') (\<lambda>tr.
     bnd (require_positive_int target ''target_tokens'') (\<lambda>ta.
     if tr \<le> ta then Inl (BadValue ''target_tokens'')
     else bnd (require_nonnegative_int keep ''keep_recent_groups'') (\<lambda>k.
       Inr \<lparr>trigger_tokens = tr, target_tokens = ta, keep_recent_groups = nat k\<rparr>)))"

definition over_trigger :: "(message list \<Rightarrow> int) \<Rightarrow> bool \<Rightarrow> Reactive \<Rightarrow> message list \<Rightarrow> bool" where
  "over_trigger est forced cfg ms = (ms \<noteq> [] \<and> (forced \<or> trigger_tokens cfg < est ms))"

record ClearShaper =
  clear_base :: Reactive
  compactable_tools :: "string list"
  cleared_content :: string
  clear_keep :: nat

definition indices_to_clear :: "ClearShaper \<Rightarrow> message list \<Rightarrow> nat list" where
  "indices_to_clear cfg ms =
     (let compactable = map fst (filter (\<lambda>(i, _, name, _). named_tool (compactable_tools cfg) name)
            (matched_tool_result_occurrences ms))
      in if length compactable \<le> clear_keep cfg then []
         else filter (\<lambda>i. is_str (get (ms ! i) ''content'') \<and> length (cleared_content cfg) < content_len (ms ! i))
                (py_but_last (clear_keep cfg) compactable))"

definition shape_clear :: "(message list \<Rightarrow> int) \<Rightarrow> bool \<Rightarrow> ClearShaper \<Rightarrow> message list \<Rightarrow> message list" where
  "shape_clear est forced cfg ms =
     (if over_trigger est forced (clear_base cfg) ms
      then put_stubs (\<lambda>_. True) (map (\<lambda>i. (i, cleared_content cfg)) (indices_to_clear cfg ms)) ms
      else ms)"

subsection \<open>Deletion of old exchanges\<close>

definition drop_typed :: "string \<Rightarrow> pyval list \<Rightarrow> pyval list" where
  "drop_typed t vs = filter (\<lambda>v. \<not> (is_dict v \<and> get (as_dict v) ''type'' = VStr t)) vs"

definition snip_replacement :: "message \<Rightarrow> message" where
  "snip_replacement leader =
     (let r0 = AList.delete ''tool_calls'' leader;
          r1 = (case get leader ''response_items'' of
                  VList xs \<Rightarrow> AList.update ''response_items'' (VList (drop_typed ''function_call'' xs)) r0
                | _ \<Rightarrow> r0)
      in case get leader ''provider_state'' of
           VDict ps \<Rightarrow>
             (case get ps ''anthropic_content'' of
                VList blocks \<Rightarrow>
                  AList.update ''provider_state''
                    (VDict (AList.update ''anthropic_content'' (VList (drop_typed ''tool_use'' blocks)) ps)) r1
              | _ \<Rightarrow> r1)
         | _ \<Rightarrow> r1)"

definition snippable :: "message list \<Rightarrow> bool" where
  "snippable g =
     (is_complete_tool_exchange g \<and>
      \<not> ((truthy (get (hd g) ''reasoning_content'') \<or> truthy (get (hd g) ''reasoning'')) \<and> \<not> truthy (get (hd g) ''content'')))"

definition snipped :: "message list \<Rightarrow> message list list" where
  "snipped g = (if truthy (get (hd g) ''content'') then [[snip_replacement (hd g)]] else [])"

text \<open>
  The loop over the droppable groups.  \<open>removed\<close> is the estimate of the group, \<open>retained\<close> that of
  its replacement.
\<close>

fun snip_loop :: "(message list \<Rightarrow> int) \<Rightarrow> int \<Rightarrow> int \<Rightarrow> message list list \<Rightarrow> message list list" where
  "snip_loop est target running [] = []"
| "snip_loop est target running (g # gs) =
     (if snippable g
      then let retained = (if snipped g = [] then 0 else est (concat (snipped g)));
               running' = running - max 0 (est g - retained)
           in snipped g @ (if running' \<le> target then gs else snip_loop est target running' gs)
      else g # snip_loop est target running gs)"

definition shape_snip :: "(message list \<Rightarrow> int) \<Rightarrow> bool \<Rightarrow> Reactive \<Rightarrow> message list \<Rightarrow> message list" where
  "shape_snip est forced cfg ms =
     (if over_trigger est forced cfg ms
      then case droppable_region ms (keep_recent_groups cfg) of
             (gs, lo, hi) \<Rightarrow>
               concat (take lo gs @ snip_loop est (target_tokens cfg) (est ms) (drop lo (take hi gs)) @ drop hi gs)
      else ms)"

subsection \<open>Summaries\<close>

record CompactShaper =
  compact_base :: Reactive
  summary_cache_size :: nat
  summary_cache :: "(string \<times> (nat \<times> string)) list"

type_synonym summarizer = "message list \<Rightarrow> string \<times> bool"

definition COMPACTED_MARKER_PREFIX :: string where
  "COMPACTED_MARKER_PREFIX = ''[Context auto-compacted''"

definition compacted_marker :: "nat \<Rightarrow> string \<Rightarrow> message" where
  "compacted_marker n summary =
     [(''role'', VStr ''system''),
      (''content'', VStr (COMPACTED_MARKER_PREFIX @ '' '' @ [EM_DASH] @ '' summary of '' @ nat_digits n @
         '' earlier messages]:'' @ [CHR 0x0A] @ summary)),
      (''compacted'', VBool True)]"

text \<open>\<open>None\<close> is the case in which the very input list is returned.\<close>

definition replace_region :: "(message list \<Rightarrow> int) \<Rightarrow> message list \<Rightarrow> nat \<Rightarrow> nat \<Rightarrow> string \<Rightarrow> message list option" where
  "replace_region est ms start stop summary =
     (if summary = [] then None
      else let candidate = take start ms @ [compacted_marker (stop - start) summary] @ drop stop ms
           in if est ms \<le> est candidate then None else Some candidate)"

definition move_to_end :: "string \<Rightarrow> nat \<times> string \<Rightarrow> CompactShaper \<Rightarrow> CompactShaper" where
  "move_to_end key entry cfg = cfg\<lparr>summary_cache := AList.delete key (summary_cache cfg) @ [(key, entry)]\<rparr>"

definition cache_summary :: "string \<Rightarrow> message list \<Rightarrow> string \<times> bool \<Rightarrow> CompactShaper \<Rightarrow> CompactShaper \<times> string" where
  "cache_summary key segment answer cfg =
     (case answer of (summary, cacheable) \<Rightarrow>
        if \<not> cacheable then (cfg, [])
        else if summary_cache_size cfg \<noteq> 0 \<and> summary \<noteq> []
        then let cfg' = move_to_end key (length segment, summary) cfg
             in (cfg'\<lparr>summary_cache :=
                   drop (length (summary_cache cfg') - summary_cache_size cfg) (summary_cache cfg')\<rparr>, summary)
        else (cfg, summary))"

definition summarize :: "summarizer \<Rightarrow> (message list \<Rightarrow> string) \<Rightarrow> message list \<Rightarrow> CompactShaper \<Rightarrow> CompactShaper \<times> string" where
  "summarize summ digest segment cfg =
     (case (if summary_cache_size cfg \<noteq> 0 then map_of (summary_cache cfg) (digest segment) else None) of
        Some entry \<Rightarrow> (move_to_end (digest segment) entry cfg, snd entry)
      | None \<Rightarrow> cache_summary (digest segment) segment (summ segment) cfg)"

text \<open>The groups \<open>[lo, hi)\<close> to summarise, then the message range they occupy.\<close>

definition compact_groups :: "Reactive \<Rightarrow> message list \<Rightarrow> nat \<times> nat" where
  "compact_groups cfg ms =
     (case droppable_region ms (keep_recent_groups cfg) of
        (gs, lo, hi) \<Rightarrow>
          case pinned_free_region gs lo hi of
            (lo1, hi1) \<Rightarrow>
              let lo2 = lo1 + length (takeWhile (\<lambda>g. \<not> span_is_safe_to_compact g) (drop lo1 (take hi1 gs)));
                  hi2 = lo2 + length (takeWhile span_is_safe_to_compact (drop lo2 (take hi1 gs)))
              in (lo2, hi2))"

definition compact_region :: "(message list \<Rightarrow> int) \<Rightarrow> bool \<Rightarrow> Reactive \<Rightarrow> message list \<Rightarrow> (nat \<times> nat) option" where
  "compact_region est forced cfg ms =
     (if over_trigger est forced cfg ms
      then case compact_groups cfg ms of
             (lo, hi) \<Rightarrow>
               if hi \<le> lo then None
               else let start = fst (group_spans ms ! lo); stop = snd (group_spans ms ! (hi - 1))
                    in if start < stop then Some (start, stop) else None
      else None)"

fun try_prefixes ::
  "(message list \<Rightarrow> int) \<Rightarrow> bool \<Rightarrow> (message list \<Rightarrow> string) \<Rightarrow> message list \<Rightarrow> nat \<Rightarrow> nat list \<Rightarrow> CompactShaper
   \<Rightarrow> CompactShaper \<times> message list option" where
  "try_prefixes est forced digest ms start [] cfg = (cfg, None)"
| "try_prefixes est forced digest ms start (n # ns) cfg =
     (let key = digest (take n (drop start ms))
      in case map_of (summary_cache cfg) key of
           None \<Rightarrow> try_prefixes est forced digest ms start ns cfg
         | Some entry \<Rightarrow>
             (case replace_region est ms start (start + n) (snd entry) of
                None \<Rightarrow> (cfg, None)
              | Some candidate \<Rightarrow>
                  if over_trigger est forced (compact_base cfg) candidate then (cfg, None)
                  else (move_to_end key entry cfg, Some candidate)))"

definition prefix_lengths :: "CompactShaper \<Rightarrow> message list \<Rightarrow> nat list" where
  "prefix_lengths cfg segment =
     rev (sort (remdups (filter (\<lambda>n. n \<in> set (map snd (group_spans segment))) (map (fst \<circ> snd) (summary_cache cfg)))))"

definition cached_prefix_view ::
  "(message list \<Rightarrow> int) \<Rightarrow> bool \<Rightarrow> (message list \<Rightarrow> string) \<Rightarrow> message list \<Rightarrow> nat \<Rightarrow> nat \<Rightarrow> CompactShaper
   \<Rightarrow> CompactShaper \<times> message list option" where
  "cached_prefix_view est forced digest ms start stop cfg =
     try_prefixes est forced digest ms start (prefix_lengths cfg (take (stop - start) (drop start ms))) cfg"

definition shape_compact ::
  "(message list \<Rightarrow> int) \<Rightarrow> bool \<Rightarrow> summarizer option \<Rightarrow> (message list \<Rightarrow> string) \<Rightarrow> CompactShaper \<Rightarrow> message list
   \<Rightarrow> CompactShaper \<times> message list" where
  "shape_compact est forced summarizer digest cfg ms =
     (case summarizer of
        None \<Rightarrow> (cfg, ms)
      | Some summ \<Rightarrow>
          (case compact_region est forced (compact_base cfg) ms of
             None \<Rightarrow> (cfg, ms)
           | Some (start, stop) \<Rightarrow>
               (case cached_prefix_view est forced digest ms start stop cfg of
                  (cfg1, Some view) \<Rightarrow> (cfg1, view)
                | (cfg1, None) \<Rightarrow>
                    (case summarize summ digest (take (stop - start) (drop start ms)) cfg1 of
                       (cfg2, summary) \<Rightarrow>
                         (cfg2, case replace_region est ms start stop summary of Some out \<Rightarrow> out | None \<Rightarrow> ms)))))"

section \<open>Pipeline\<close>

datatype shaper =
    PerToolResultBudget BudgetShaper
  | EagerToolOutputClear EagerShaper
  | ToolOutputClear ClearShaper
  | OldHistorySnip Reactive
  | AutoCompact CompactShaper
  | ShaperPipeline "shaper list"

record env =
  estimate :: "message list \<Rightarrow> int"
  is_forced :: bool
  loads_outcome :: "string \<Rightarrow> json_outcome"
  loads_dict :: "string \<Rightarrow> message option"
  summary_of :: "summarizer option"
  cache_digest :: "message list \<Rightarrow> string"

fun shape :: "env \<Rightarrow> shaper \<Rightarrow> message list \<Rightarrow> shaper \<times> message list"
and shape_all :: "env \<Rightarrow> shaper list \<Rightarrow> message list \<Rightarrow> shaper list \<times> message list" where
  "shape e (PerToolResultBudget cfg) ms = (PerToolResultBudget cfg, shape_budget (loads_outcome e) cfg ms)"
| "shape e (EagerToolOutputClear cfg) ms = (EagerToolOutputClear cfg, shape_eager (loads_dict e) cfg ms)"
| "shape e (ToolOutputClear cfg) ms = (ToolOutputClear cfg, shape_clear (estimate e) (is_forced e) cfg ms)"
| "shape e (OldHistorySnip cfg) ms = (OldHistorySnip cfg, shape_snip (estimate e) (is_forced e) cfg ms)"
| "shape e (AutoCompact cfg) ms =
     (case shape_compact (estimate e) (is_forced e) (summary_of e) (cache_digest e) cfg ms of (cfg', out) \<Rightarrow> (AutoCompact cfg', out))"
| "shape e (ShaperPipeline ss) ms = (case shape_all e ss ms of (ss', out) \<Rightarrow> (ShaperPipeline ss', out))"
| "shape_all e [] ms = ([], ms)"
| "shape_all e (s # ss) ms =
     (case shape e s ms of (s', mid) \<Rightarrow> case shape_all e ss mid of (ss', out) \<Rightarrow> (s' # ss', out))"

definition forced_shape :: "env \<Rightarrow> shaper \<Rightarrow> message list \<Rightarrow> shaper \<times> message list" where
  "forced_shape e s ms = shape (e\<lparr>is_forced := True\<rparr>) s ms"

record Report =
  rung :: string
  tokens_before :: int
  tokens_after :: int

abbreviation NO_RUNG_FIRED :: string where "NO_RUNG_FIRED \<equiv> ''none''"

fun rung_label :: "shaper \<Rightarrow> string" where
  "rung_label (PerToolResultBudget _) = ''per_tool_budget''"
| "rung_label (EagerToolOutputClear _) = ''eager_clear''"
| "rung_label (ToolOutputClear _) = ''tool_output_clear''"
| "rung_label (OldHistorySnip _) = ''old_history_snip''"
| "rung_label (AutoCompact _) = ''auto_compact''"
| "rung_label (ShaperPipeline _) = ''unknown''"

definition fill_none :: "int \<Rightarrow> Report list \<Rightarrow> Report list" where
  "fill_none tokens rs = (if rs = [] then [\<lparr>rung = NO_RUNG_FIRED, tokens_before = tokens, tokens_after = tokens\<rparr>] else rs)"

text \<open>
  \<open>report_chain\<close> is the loop of \<open>shape_with_report\<close>; \<open>run_rung\<close> is \<open>_run_rung\<close>, in which a nested
  pipeline runs the loop on its own list.
\<close>

fun run_rung :: "env \<Rightarrow> shaper \<Rightarrow> message list \<Rightarrow> int \<Rightarrow> shaper \<times> message list \<times> Report list"
and report_chain :: "env \<Rightarrow> shaper list \<Rightarrow> message list \<Rightarrow> int \<Rightarrow> shaper list \<times> message list \<times> Report list" where
  "run_rung e (ShaperPipeline ss) ms tokens =
     (case report_chain e ss ms (estimate e ms) of (ss', out, rs) \<Rightarrow>
        (ShaperPipeline ss', out,
         if out = ms then []
         else filter (\<lambda>r. rung r \<noteq> NO_RUNG_FIRED) (fill_none (estimate e ms) rs)))"
| "run_rung e s ms tokens =
     (case shape e s ms of (s', out) \<Rightarrow>
        (s', out, if out = ms then []
                  else [\<lparr>rung = rung_label s, tokens_before = tokens, tokens_after = estimate e out\<rparr>]))"
| "report_chain e [] ms tokens = ([], ms, [])"
| "report_chain e (s # ss) ms tokens =
     (case run_rung e s ms tokens of (s', mid, rs) \<Rightarrow>
        case report_chain e ss mid (if rs = [] then tokens else tokens_after (last rs)) of (ss', out, rs') \<Rightarrow>
          (s' # ss', out, rs @ rs'))"

definition shape_with_report :: "env \<Rightarrow> shaper list \<Rightarrow> message list \<Rightarrow> shaper list \<times> message list \<times> Report list" where
  "shape_with_report e ss ms =
     (case report_chain e ss ms (estimate e ms) of (ss', out, rs) \<Rightarrow> (ss', out, fill_none (estimate e ms) rs))"

section \<open>The contract of a shaper\<close>

text \<open>
  A shaper neither breaks nor repairs a tool exchange (the malformed groups are the same before and
  after) and keeps the pinned seed messages, verbatim and in order.  A layer that reworks messages
  in place meets the contract when each rewrite keeps the protocol skeleton and touches no seed.
\<close>

definition reworks :: "message \<Rightarrow> message \<Rightarrow> bool" where
  "reworks m m' = (m' = m \<or> (skel m' = skel m \<and> get m ''role'' \<in> {VStr ''tool'', VStr ''assistant''}))"

locale protocol_shaper =
  fixes f :: "message list \<Rightarrow> message list"
  assumes keeps_malformed: "malformed (f ms) = malformed ms"
    and keeps_seeds: "filter pinned_seed (f ms) = filter pinned_seed ms"
begin

lemma stays_wellformed: "malformed ms = [] \<Longrightarrow> malformed (f ms) = []"
  by (simp add: keeps_malformed)

end

locale inplace_shaper =
  fixes f :: "message list \<Rightarrow> message list"
  assumes reworks_each: "list_all2 reworks ms (f ms)"
begin

lemma same_length: "length (f ms) = length ms"
  using reworks_each [of ms] by (simp add: list_all2_lengthD)

end

lemma reworks_skel: "list_all2 reworks ms ms' \<Longrightarrow> map skel ms' = map skel ms"
  by (induction rule: list_all2_induct) (auto simp: reworks_def)

lemma reworks_seeds: "list_all2 reworks ms ms' \<Longrightarrow> filter pinned_seed ms' = filter pinned_seed ms"
proof (induction rule: list_all2_induct)
  case (Cons m ms m' ms')
  have "get m' ''role'' = get m ''role''" if "skel m' = skel m" using that by (simp add: skel_def)
  then have "pinned_seed m' = pinned_seed m \<and> (pinned_seed m \<longrightarrow> m' = m)"
    using Cons by (auto simp: reworks_def pinned_seed_def)
  then show ?case using Cons by auto
qed simp

sublocale inplace_shaper \<subseteq> prot: protocol_shaper f
proof
  show "malformed (f ms) = malformed ms" for ms
    by (rule skel_malformed) (rule reworks_skel [OF reworks_each])
  show "filter pinned_seed (f ms) = filter pinned_seed ms" for ms
    by (rule reworks_seeds [OF reworks_each])
qed

lemma protocol_shaper_comp:
  "protocol_shaper f \<Longrightarrow> protocol_shaper g \<Longrightarrow> protocol_shaper (\<lambda>ms. g (f ms))"
  by (simp add: protocol_shaper_def)

lemma protocol_shaper_id: "protocol_shaper (\<lambda>ms. ms)"
  by (simp add: protocol_shaper_def)

section \<open>In-place layers\<close>

lemma skel_content [simp]: "skel (AList.update ''content'' v m) = skel m"
  by (simp add: skel_def call_ids_def calls_of_def)

lemma reworks_refl [simp]: "reworks m m"
  by (simp add: reworks_def)

lemma reworks_content: "is_tool_msg m \<Longrightarrow> reworks m (AList.update ''content'' v m)"
  by (simp add: reworks_def is_tool_msg_def)

lemma length_put_stubs [simp]: "length (put_stubs guard stubs ms) = length ms"
  by (simp add: put_stubs_def)

lemma nth_put_stubs:
  "i < length ms \<Longrightarrow> put_stubs guard stubs ms ! i =
     (case map_of stubs i of
        Some stub \<Rightarrow> if is_tool_msg (ms ! i) \<and> guard (ms ! i) \<and> get (ms ! i) ''content'' \<noteq> VStr stub
                     then AList.update ''content'' (VStr stub) (ms ! i) else ms ! i
      | None \<Rightarrow> ms ! i)"
  by (simp add: put_stubs_def)

lemma put_stubs_reworks: "list_all2 reworks ms (put_stubs guard stubs ms)"
  by (simp add: list_all2_conv_all_nth nth_put_stubs reworks_content split: option.split)

interpretation eager: inplace_shaper "shape_eager parse cfg" for parse cfg
  by unfold_locales (simp add: shape_eager_def put_stubs_reworks)

interpretation clear: inplace_shaper "shape_clear est forced cfg" for est forced cfg
  by unfold_locales (simp add: shape_clear_def put_stubs_reworks list_all2_refl)

lemma omit_call_id: "get (as_dict (omit_call c v)) ''id'' = get (as_dict v) ''id''"
  by (cases v) (simp_all add: omit_call_def as_dict_def)

lemma skel_rejected: "skel (shape_rejected_arguments loads cfg m c) = skel m"
proof (cases "oversized_rejected loads cfg m c")
  case True
  then obtain xs where xs: "get m ''tool_calls'' = VList xs" and "xs \<noteq> []"
    by (cases "get m ''tool_calls''"; cases "list_of (get m ''tool_calls'')") (auto simp: oversized_rejected_def list_of_def)
  then show ?thesis
    using True by (simp add: shape_rejected_arguments_def Let_def skel_def call_ids_def calls_of_def list_of_def omit_call_id comp_def)
qed (simp add: shape_rejected_arguments_def)

lemma shape_message_reworks: "reworks m (shape_message cfg m)"
  by (simp add: shape_message_def reworks_content split: pyval.split)

lemma skel_role: "skel m = skel m' \<Longrightarrow> get m ''role'' = get m' ''role''"
  by (simp add: skel_def)

lemma reworks_role: "reworks m m' \<Longrightarrow> get m' ''role'' = get m ''role''"
  by (auto simp: reworks_def dest: skel_role)

lemma reworks_rejected:
  assumes "reworks m m'" and "get m' ''role'' = VStr ''assistant''"
  shows "reworks m (shape_rejected_arguments loads cfg m' c)"
proof -
  have "get m ''role'' = VStr ''assistant''" using reworks_role [OF assms(1)] assms(2) by simp
  moreover have "skel m' = skel m" using assms(1) by (auto simp: reworks_def)
  ultimately show ?thesis by (simp add: reworks_def skel_rejected)
qed

definition owners_ok :: "message list \<Rightarrow> (string \<times> nat) list \<Rightarrow> bool" where
  "owners_ok shaped pending =
     list_all (\<lambda>(_, i). i < length shaped \<and> get (shaped ! i) ''role'' = VStr ''assistant'') pending"

lemma new_pending_owner: "(k, i) \<in> set (new_pending m n) \<Longrightarrow> i = n"
proof -
  have "\<forall>p \<in> set d. snd p = n \<Longrightarrow>
      \<forall>p \<in> set (foldl (\<lambda>d v. case get (as_dict v) ''id'' of VStr i \<Rightarrow> AList.update i n d | _ \<Rightarrow> d) d vs). snd p = n"
    for vs and d :: "(string \<times> nat) list"
  proof (induction vs arbitrary: d)
    case (Cons v vs)
    have "\<forall>p \<in> set (AList.update k n d). snd p = n" for k using Cons.prems by (induction d) auto
    then have "\<forall>p \<in> set (case get (as_dict v) ''id'' of VStr i \<Rightarrow> AList.update i n d | _ \<Rightarrow> d). snd p = n"
      using Cons.prems by (simp split: pyval.split)
    from Cons.IH [OF this] show ?case by (simp only: foldl_Cons)
  qed simp
  from this [of "[]"] show "(k, i) \<in> set (new_pending m n) \<Longrightarrow> i = n"
    unfolding new_pending_def by fastforce
qed

text \<open>One message of the per-result cap: reworks only, and owners stay assistant turns.\<close>

lemma owners_ok_snoc: "owners_ok shaped pending \<Longrightarrow> owners_ok (shaped @ [m]) pending"
  by (force simp: owners_ok_def list_all_iff nth_append)

lemma owners_ok_update:
  "owners_ok shaped pending \<Longrightarrow> get x ''role'' = get (shaped ! i) ''role'' \<Longrightarrow> owners_ok (shaped[i := x]) pending"
proof -
  assume x: "get x ''role'' = get (shaped ! i) ''role''"
  have "get (shaped[i := x] ! b) ''role'' = get (shaped ! b) ''role''" if "b < length shaped" for b
    using x that by (cases "i = b") simp_all
  then show "owners_ok shaped pending \<Longrightarrow> owners_ok (shaped[i := x]) pending"
    unfolding owners_ok_def by (elim list.pred_mono_strong) auto
qed

lemma owners_ok_delete: "owners_ok shaped pending \<Longrightarrow> owners_ok shaped (AList.delete k pending)"
  by (auto simp: owners_ok_def list_all_iff AList.delete_eq)

lemma budget_step_ok:
  assumes "list_all2 reworks ms shaped" and "owners_ok shaped pending" and "budget_step loads cfg (shaped, pending) m = (shaped', pending')"
  shows "list_all2 reworks (ms @ [m]) shaped' \<and> owners_ok shaped' pending'"
proof -
  let ?s = "shaped @ [shape_message cfg m]"
  have rw: "list_all2 reworks (ms @ [m]) ?s"
    using assms(1) by (simp add: list_all2_appendI shape_message_reworks)
  have own: "owners_ok ?s pending" by (rule owners_ok_snoc [OF assms(2)])
  show ?thesis
  proof (cases "get m ''role'' = VStr ''assistant''")
    case True
    then have eq: "shaped' = ?s" "pending' = new_pending m (length shaped)"
      using assms(3) by (simp_all add: budget_step_def Let_def)
    have "get (shape_message cfg m) ''role'' = VStr ''assistant''"
      using reworks_role [OF shape_message_reworks] True by simp
    then have "owners_ok ?s (new_pending m (length shaped))"
      by (auto simp: owners_ok_def list_all_iff dest: new_pending_owner)
    then show ?thesis using rw by (simp only: eq)
  next
    case not_assistant: False
    show ?thesis
    proof (cases "\<exists>c i. is_tool_msg m \<and> get m ''tool_call_id'' = VStr c \<and> map_of pending c = Some i")
      case True
      then obtain c i where c: "is_tool_msg m" "get m ''tool_call_id'' = VStr c" "map_of pending c = Some i" by blast
      let ?x = "shape_rejected_arguments loads cfg (?s ! i) c"
      have eq: "shaped' = (if is_rejection (get m ''content'') then ?s[i := ?x] else ?s)" "pending' = AList.delete c pending"
        using assms(3) not_assistant c by (simp_all add: budget_step_def Let_def)
      have i: "i < length ?s" "get (?s ! i) ''role'' = VStr ''assistant''"
        using own map_of_SomeD [OF c(3)] unfolding owners_ok_def list_all_iff by fast+
      have len: "length (ms @ [m]) = length ?s" using rw by (rule list_all2_lengthD)
      have "reworks ((ms @ [m]) ! i) (?s ! i)" using rw i(1) len by (simp only: list_all2_conv_all_nth)
      then have "reworks ((ms @ [m]) ! i) ?x" by (rule reworks_rejected [OF _ i(2)])
      then have "list_all2 reworks ((ms @ [m])[i := (ms @ [m]) ! i]) (?s[i := ?x])"
        by (rule list_all2_update_cong [OF rw])
      then have "list_all2 reworks (ms @ [m]) (?s[i := ?x])" by (simp only: list_update_id)
      moreover have "owners_ok (?s[i := ?x]) pending" by (intro owners_ok_update own skel_role skel_rejected)
      ultimately show ?thesis using rw own by (simp add: eq owners_ok_delete)
    next
      case False
      then have "shaped' = ?s \<and> pending' = pending"
        using assms(3) not_assistant by (simp add: budget_step_def Let_def split: if_splits pyval.splits option.splits)
      then show ?thesis using rw own by simp
    qed
  qed
qed

lemma budget_fold_ok:
  "list_all2 reworks ms shaped \<Longrightarrow> owners_ok shaped pending \<Longrightarrow>
   list_all2 reworks (ms @ xs) (fst (foldl (budget_step loads cfg) (shaped, pending) xs))"
proof (induction xs arbitrary: ms shaped pending)
  case (Cons x xs)
  obtain s' p' where st: "budget_step loads cfg (shaped, pending) x = (s', p')" by fastforce
  from budget_step_ok [OF Cons.prems st] Cons.IH [of "ms @ [x]" s' p'] show ?case by (simp add: st)
qed simp

interpretation cap: inplace_shaper "shape_budget loads cfg" for loads cfg
proof
  show "list_all2 reworks ms (shape_budget loads cfg ms)" for ms
    using budget_fold_ok [of "[]" "[]" "[]"] by (simp add: shape_budget_def owners_ok_def)
qed

section \<open>Deletion of old exchanges\<close>

lemma complete_safe: "is_complete_tool_exchange g \<Longrightarrow> span_is_safe_to_compact g"
  by (auto simp: is_complete_tool_exchange_def span_is_safe_to_compact_def leader_not_tool split: list.splits)

lemma complete_leader: "is_complete_tool_exchange g \<Longrightarrow> is_leader (hd g)"
  by (auto simp: is_complete_tool_exchange_def split: list.splits)

text \<open>An exchange holds assistant and tool messages only, hence no seed.\<close>

lemma exchange_no_seeds: "group_ok g \<Longrightarrow> is_leader (hd g) \<Longrightarrow> filter pinned_seed g = []"
  by (auto simp: group_ok_def is_leader_def is_tool_msg_def pinned_seed_def list_all_iff filter_empty_conv split: list.splits if_splits)

lemma replacement_role: "get (snip_replacement m) ''role'' = get m ''role''"
  by (simp add: snip_replacement_def Let_def split: pyval.split)

lemma replacement_calls: "get (snip_replacement m) ''tool_calls'' = VNone"
  by (simp add: snip_replacement_def Let_def split: pyval.split)

lemma snipped_facts:
  assumes "is_leader (hd g)"
  shows "chained (snipped g)" "\<not> tool_head (snipped g)" "filter (\<lambda>g. \<not> span_is_safe_to_compact g) (snipped g) = []"
    and "filter pinned_seed (concat (snipped g)) = []"
    and "snipped g \<noteq> [] \<Longrightarrow> \<not> is_leader (hd (last (snipped g)))"
proof -
  let ?r = "snip_replacement (hd g)"
  have role: "get ?r ''role'' = VStr ''assistant''" using assms by (simp add: replacement_role is_leader_def)
  have r: "\<not> is_leader ?r" "\<not> is_tool_msg ?r" "\<not> pinned_seed ?r"
    using role by (simp_all add: is_leader_def replacement_calls is_tool_msg_def pinned_seed_def)
  then show "chained (snipped g)" "\<not> tool_head (snipped g)" "filter (\<lambda>g. \<not> span_is_safe_to_compact g) (snipped g) = []"
    "filter pinned_seed (concat (snipped g)) = []" "snipped g \<noteq> [] \<Longrightarrow> \<not> is_leader (hd (last (snipped g)))"
    by (auto simp: snipped_def group_ok_def tool_head_def span_is_safe_to_compact_def split: if_splits)
qed

lemma snip_loop_cut:
  assumes "snippable g"
  obtains ys where "snip_loop est target r (g # gs) = snipped g @ ys" and "ys = gs \<or> (\<exists>r'. ys = snip_loop est target r' gs)"
proof -
  define r' where "r' = r - max 0 (est g - (if snipped g = [] then 0 else est (concat (snipped g))))"
  define ys where "ys = (if r' \<le> target then gs else snip_loop est target r' gs)"
  show thesis
  proof (rule that)
    show "snip_loop est target r (g # gs) = snipped g @ ys"
      using assms by (simp only: snip_loop.simps if_True Let_def ys_def r'_def)
    show "ys = gs \<or> (\<exists>r'. ys = snip_loop est target r' gs)" by (auto simp: ys_def)
  qed
qed

lemma tool_head_append: "tool_head (xs @ ys) = (if xs = [] then tool_head ys else tool_head xs)"
  by (cases xs) (simp_all add: tool_head_def)

lemma chained_snipped:
  assumes "is_leader (hd g)" and "chained ys" and "\<not> tool_head ys"
  shows "chained (snipped g @ ys) \<and> \<not> tool_head (snipped g @ ys)"
  using snipped_facts [OF assms(1)] assms(2,3) by (simp add: chained_append tool_head_append)

lemma chained_snip:
  "chained (gs @ rest) \<Longrightarrow>
   chained (snip_loop est target r gs @ rest) \<and> (tool_head (snip_loop est target r gs @ rest) \<longrightarrow> tool_head (gs @ rest))"
proof (induction gs arbitrary: r)
  case (Cons g gs)
  note IH = Cons.IH [OF conjunct2 [OF conjunct2 [OF Cons.prems [simplified]]]]
  show ?case
  proof (cases "snippable g")
    case True
    then have g: "is_leader (hd g)" by (simp add: snippable_def complete_leader)
    have "chained (gs @ rest)" "\<not> tool_head (gs @ rest)" using Cons.prems g by simp_all
    obtain ys where ys: "snip_loop est target r (g # gs) = snipped g @ ys" "ys = gs \<or> (\<exists>r'. ys = snip_loop est target r' gs)"
      by (rule snip_loop_cut [OF True])
    have "chained (ys @ rest)" "\<not> tool_head (ys @ rest)"
      using ys(2) IH \<open>chained (gs @ rest)\<close> \<open>\<not> tool_head (gs @ rest)\<close> by auto
    then have "chained (snipped g @ ys @ rest) \<and> \<not> tool_head (snipped g @ ys @ rest)"
      by (rule chained_snipped [OF g])
    then show ?thesis by (simp only: ys(1) append_assoc simp_thms)
  next
    case False
    then show ?thesis using Cons.prems IH [of r] by (auto simp: tool_head_def)
  qed
qed simp

lemma snip_keeps:
  assumes "list_all group_ok gs"
  shows "filter (\<lambda>g. \<not> span_is_safe_to_compact g) (snip_loop est target r gs) = filter (\<lambda>g. \<not> span_is_safe_to_compact g) gs \<and>
    filter pinned_seed (concat (snip_loop est target r gs)) = filter pinned_seed (concat gs)"
  using assms
proof (induction gs arbitrary: r)
  case (Cons g gs)
  show ?case
  proof (cases "snippable g")
    case True
    then have g: "is_complete_tool_exchange g" "is_leader (hd g)" by (simp_all add: snippable_def complete_leader)
    obtain ys where ys: "snip_loop est target r (g # gs) = snipped g @ ys" "ys = gs \<or> (\<exists>r'. ys = snip_loop est target r' gs)"
      by (rule snip_loop_cut [OF True])
    have "filter pinned_seed g = []" using exchange_no_seeds g(2) Cons.prems by simp
    moreover have "filter (\<lambda>g. \<not> span_is_safe_to_compact g) ys = filter (\<lambda>g. \<not> span_is_safe_to_compact g) gs \<and>
        filter pinned_seed (concat ys) = filter pinned_seed (concat gs)"
      using ys(2) Cons by auto
    ultimately show ?thesis
      using snipped_facts(3,4) [OF g(2)] complete_safe [OF g(1)] unfolding ys(1) by simp
  next
    case False
    then show ?thesis using Cons by simp
  qed
qed simp

lemmas snip_filters = snip_keeps [THEN conjunct1] snip_keeps [THEN conjunct2]

lemma chained_group_ok: "chained gs \<Longrightarrow> list_all group_ok gs"
  by (induction gs) simp_all

lemma three_parts: "lo \<le> hi \<Longrightarrow> take lo xs @ drop lo (take hi xs) @ drop hi xs = xs"
  by (metis append.assoc append_take_drop_id min.absorb1 take_take)

text \<open>The groups of a snipped history.\<close>

lemma groups_snip:
  assumes "over_trigger est forced cfg ms"
  defines "hi \<equiv> max 1 (length (groups ms) - keep_recent_groups cfg)"
  shows "groups (shape_snip est forced cfg ms) =
    take 1 (groups ms) @ snip_loop est (target_tokens cfg) (est ms) (drop 1 (take hi (groups ms))) @ drop hi (groups ms)"
proof -
  let ?gs = "groups ms"
  have parts: "take 1 ?gs @ drop 1 (take hi ?gs) @ drop hi ?gs = ?gs" by (rule three_parts) (simp add: hi_def)
  have c: "chained (take 1 ?gs @ drop 1 (take hi ?gs) @ drop hi ?gs)" unfolding parts by (rule chained_groups)
  then have "chained (take 1 ?gs @ snip_loop est (target_tokens cfg) (est ms) (drop 1 (take hi ?gs)) @ drop hi ?gs)"
    using chained_snip [of "drop 1 (take hi ?gs)" "drop hi ?gs"] unfolding chained_append [of "take 1 ?gs"] by blast
  from groups_concat [OF this] show ?thesis
    using assms(1) by (simp add: shape_snip_def droppable_region_def Let_def hi_def)
qed

interpretation snip: protocol_shaper "shape_snip est forced cfg" for est forced cfg
proof
  fix ms
  let ?gs = "groups ms" and ?hi = "max 1 (length (groups ms) - keep_recent_groups cfg)"
  have parts: "take 1 ?gs @ drop 1 (take ?hi ?gs) @ drop ?hi ?gs = ?gs" by (rule three_parts) simp
  have ok: "list_all group_ok (drop 1 (take ?hi ?gs))"
    using chained_group_ok [OF chained_groups, of ms] by (auto simp: list_all_iff dest: in_set_dropD in_set_takeD)
  note f = snip_filters [OF ok, of est "target_tokens cfg" "est ms"]
  show "malformed (shape_snip est forced cfg ms) = malformed ms"
  proof (cases "over_trigger est forced cfg ms")
    case True
    have "filter (\<lambda>g. \<not> span_is_safe_to_compact g) (groups (shape_snip est forced cfg ms)) =
        filter (\<lambda>g. \<not> span_is_safe_to_compact g) (take 1 ?gs @ drop 1 (take ?hi ?gs) @ drop ?hi ?gs)"
      unfolding groups_snip [OF True] filter_append f(1) ..
    then show ?thesis by (simp only: malformed_def parts)
  qed (simp add: shape_snip_def)
  show "filter pinned_seed (shape_snip est forced cfg ms) = filter pinned_seed ms"
  proof (cases "over_trigger est forced cfg ms")
    case True
    have "filter pinned_seed (concat (groups (shape_snip est forced cfg ms))) =
        filter pinned_seed (concat (take 1 ?gs @ drop 1 (take ?hi ?gs) @ drop ?hi ?gs))"
      unfolding groups_snip [OF True] concat_append filter_append f(2) ..
    then show ?thesis by (simp only: parts concat_groups)
  qed (simp add: shape_snip_def)
qed

section \<open>Summaries\<close>

lemma slice_takeWhile:
  "drop lo (take (lo + length (takeWhile P (drop lo (take hi xs)))) xs) = takeWhile P (drop lo (take hi xs))"
proof -
  let ?t = "takeWhile P (drop lo (take hi xs))"
  have "?t = take (length ?t) (drop lo (take hi xs))" by (rule takeWhile_eq_take)
  also have "\<dots> = take (min (length ?t) (hi - lo)) (drop lo xs)" by (simp add: drop_take min.commute)
  also have "min (length ?t) (hi - lo) = length ?t"
  proof (rule min.absorb1)
    have "length (drop lo (take hi xs)) \<le> hi - lo" by simp
    then show "length ?t \<le> hi - lo" by (rule order_trans [OF length_takeWhile_le])
  qed
  finally have "?t = take (length ?t) (drop lo xs)" .
  moreover have "drop lo (take (lo + length ?t) xs) = take (length ?t) (drop lo xs)"
    by (simp only: drop_take diff_add_inverse)
  ultimately show ?thesis by (rule trans [OF _ sym, rotated])
qed

lemma takeWhile_end: "lo \<le> hi \<Longrightarrow> hi \<le> length xs \<Longrightarrow> lo + length (takeWhile P (drop lo (take hi xs))) \<le> hi"
  using length_takeWhile_le [of P "drop lo (take hi xs)"] by simp

lemma set_slice_mono: "lo \<le> lo' \<Longrightarrow> hi' \<le> hi \<Longrightarrow> set (drop lo' (take hi' xs)) \<subseteq> set (drop lo (take hi xs))"
proof -
  assume le: "lo \<le> lo'" "hi' \<le> hi"
  have "take hi' xs = take hi' (take hi xs)" using le(2) by (simp add: min_def)
  then have "set (drop lo' (take hi' xs)) \<subseteq> set (drop lo' (take hi xs))"
    by (metis drop_take set_take_subset)
  also have "\<dots> \<subseteq> set (drop lo (take hi xs))" by (rule set_drop_subset_set_drop [OF le(1)])
  finally show ?thesis .
qed

text \<open>The groups chosen for a summary: past the leading group, before the recent ones, safe and free of pins.\<close>

lemma compact_groups_ok:
  assumes "compact_groups cfg ms = (lo, hi)" and "lo < hi"
  shows "1 \<le> lo \<and> hi \<le> max 1 (length (groups ms) - keep_recent_groups cfg) \<and> hi \<le> length (groups ms)" (is ?bounds)
    and "g \<in> set (drop lo (take hi (groups ms))) \<Longrightarrow> span_is_safe_to_compact g \<and> \<not> group_has_pinned g"
proof -
  let ?gs = "groups ms"
  define h where "h = max 1 (length ?gs - keep_recent_groups cfg)"
  define lo1 where "lo1 = 1 + length (takeWhile group_has_pinned (drop 1 (take h ?gs)))"
  define hi1 where "hi1 = lo1 + length (takeWhile (\<lambda>g. \<not> group_has_pinned g) (drop lo1 (take h ?gs)))"
  have lo: "lo = lo1 + length (takeWhile (\<lambda>g. \<not> span_is_safe_to_compact g) (drop lo1 (take hi1 ?gs)))"
    and hi: "hi = lo + length (takeWhile span_is_safe_to_compact (drop lo (take hi1 ?gs)))"
    using assms(1) unfolding compact_groups_def droppable_region_def pinned_free_region_def Let_def split_beta fst_conv snd_conv
      h_def [symmetric] lo1_def [symmetric] hi1_def [symmetric] by auto
  have ne: "takeWhile span_is_safe_to_compact (drop lo (take hi1 ?gs)) \<noteq> []" using assms(2) unfolding hi by auto
  then have "lo < length (take hi1 ?gs)" by (metis drop_eq_Nil not_le takeWhile.simps(1))
  then have lohi1: "lo < hi1" and "lo < length ?gs" by simp_all
  have hh: "h \<le> length ?gs" using \<open>lo < length ?gs\<close> unfolding h_def by (cases "length ?gs") auto
  have "lo1 \<le> h" unfolding lo1_def by (rule takeWhile_end [OF _ hh]) (simp add: h_def)
  then have "hi1 \<le> h" unfolding hi1_def by (rule takeWhile_end [OF _ hh])
  then have "hi \<le> hi1" unfolding hi by (intro takeWhile_end less_imp_le [OF lohi1]) (use hh in simp)
  then show ?bounds using \<open>hi1 \<le> h\<close> hh by (simp add: lo lo1_def h_def)
  have "drop lo (take hi ?gs) = takeWhile span_is_safe_to_compact (drop lo (take hi1 ?gs))"
    unfolding hi by (rule slice_takeWhile)
  moreover have "set (drop lo (take hi ?gs)) \<subseteq> set (drop lo1 (take hi1 ?gs))"
    by (rule set_slice_mono [OF _ \<open>hi \<le> hi1\<close>]) (simp add: lo)
  moreover have "drop lo1 (take hi1 ?gs) = takeWhile (\<lambda>g. \<not> group_has_pinned g) (drop lo1 (take h ?gs))"
    unfolding hi1_def by (rule slice_takeWhile)
  ultimately show "g \<in> set (drop lo (take hi ?gs)) \<Longrightarrow> span_is_safe_to_compact g \<and> \<not> group_has_pinned g"
    by (metis (no_types, lifting) set_takeWhileD subsetD)
qed

lemma spans_nth:
  "k < length gs \<Longrightarrow> spans_from i gs ! k = (i + length (concat (take k gs)), i + length (concat (take (Suc k) gs)))"
proof (induction gs arbitrary: i k)
  case (Cons g gs)
  then show ?case by (cases k) simp_all
qed simp

lemma span_ends:
  "n \<in> snd ` set (spans_from 0 gs) \<Longrightarrow> \<exists>j. j \<le> length gs \<and> n = length (concat (take j gs))"
proof -
  have len: "length (spans_from i gs) = length gs" for i and gs :: "'a list list" by (induction gs arbitrary: i) simp_all
  assume "n \<in> snd ` set (spans_from 0 gs)"
  then obtain k where "k < length gs" "n = snd (spans_from 0 gs ! k)" by (auto simp: set_conv_nth len)
  then show ?thesis by (intro exI [of _ "Suc k"]) (simp add: spans_nth del: take_Suc)
qed

lemma concat_split: "concat (take k gs) @ concat (drop k gs) = concat gs"
  by (metis append_take_drop_id concat_append)

lemma take_drop_groups:
  "take (length (concat (take k gs))) (concat gs) = concat (take k gs)"
  "drop (length (concat (take k gs))) (concat gs) = concat (drop k gs)"
  using concat_split [of k gs] by (metis append_eq_conv_conj)+

lemma segment_groups:
  assumes "lo \<le> hi"
  shows "take (length (concat (take hi gs)) - length (concat (take lo gs))) (drop (length (concat (take lo gs))) (concat gs)) =
    concat (drop lo (take hi gs))"
proof -
  have "take (length (concat (take hi gs)) - length (concat (take lo gs))) (drop (length (concat (take lo gs))) (concat gs)) =
      drop (length (concat (take lo gs))) (concat (take hi gs))"
    by (simp add: drop_take [symmetric] take_drop_groups(1))
  also have "\<dots> = drop (length (concat (take lo (take hi gs)))) (concat (take hi gs))"
    using assms by (simp add: min_def)
  also have "\<dots> = concat (drop lo (take hi gs))" by (rule take_drop_groups(2))
  finally show ?thesis .
qed

lemma marker_facts:
  "\<not> is_leader (compacted_marker n summary)" "\<not> is_tool_msg (compacted_marker n summary)"
  "\<not> pinned_seed (compacted_marker n summary)"
  by (simp_all add: compacted_marker_def is_leader_def is_tool_msg_def pinned_seed_def is_pinned_def ctx_priority_def get_def)

text \<open>What every replacement of whole, safe, unpinned groups does to the groups of the history.\<close>

lemma replaced_groups:
  assumes r: "replace_region est ms (length (concat (take lo (groups ms)))) (length (concat (take k (groups ms)))) summary = Some out"
    and le: "lo \<le> k"
    and safe: "\<And>g. g \<in> set (drop lo (take k (groups ms))) \<Longrightarrow> span_is_safe_to_compact g \<and> \<not> group_has_pinned g"
  shows "\<exists>n. groups out = take lo (groups ms) @ [[compacted_marker n summary]] @ drop k (groups ms)"
    and "malformed out = malformed ms" and "filter pinned_seed out = filter pinned_seed ms" and "est out < est ms"
proof -
  let ?gs = "groups ms"
  define m where "m = compacted_marker (length (concat (take k ?gs)) - length (concat (take lo ?gs))) summary"
  have m: "out = take (length (concat (take lo ?gs))) ms @ [m] @ drop (length (concat (take k ?gs))) ms"
    and lt: "est out < est ms"
    using r by (auto simp: replace_region_def Let_def m_def split: if_splits)
  have mk: "\<exists>n. m = compacted_marker n summary" using m_def by blast
  have mf: "\<not> is_leader m" "\<not> is_tool_msg m" "\<not> pinned_seed m" by (simp_all add: m_def marker_facts)
  have out: "out = concat (take lo ?gs @ [[m]] @ drop k ?gs)"
    using m take_drop_groups [of lo ?gs] take_drop_groups [of k ?gs] by simp
  have parts: "take lo ?gs @ drop lo (take k ?gs) @ drop k ?gs = ?gs" by (rule three_parts [OF le])
  have ch: "chained (take lo ?gs @ drop lo (take k ?gs) @ drop k ?gs)" unfolding parts by (rule chained_groups)
  then have "chained (take lo ?gs @ [[m]] @ drop k ?gs)"
    using mf by (auto simp: chained_append group_ok_def tool_head_def)
  then have g: "groups out = take lo ?gs @ [[m]] @ drop k ?gs" unfolding out by (rule groups_concat)
  then show "\<exists>n. groups out = take lo ?gs @ [[compacted_marker n summary]] @ drop k ?gs" using mk by blast
  have "filter (\<lambda>g. \<not> span_is_safe_to_compact g) (groups out) =
      filter (\<lambda>g. \<not> span_is_safe_to_compact g) (take lo ?gs @ drop lo (take k ?gs) @ drop k ?gs)"
    using safe mf unfolding g by (simp add: span_is_safe_to_compact_def filter_empty_conv)
  then show "malformed out = malformed ms" by (simp only: malformed_def parts)
  have "filter pinned_seed (concat (drop lo (take k ?gs))) = []"
    using safe by (force simp: filter_empty_conv pinned_seed_def group_has_pinned_def list_ex_iff)
  then have "filter pinned_seed out = filter pinned_seed (concat (take lo ?gs @ drop lo (take k ?gs) @ drop k ?gs))"
    using mf unfolding out by simp
  then show "filter pinned_seed out = filter pinned_seed ms" by (simp only: parts concat_groups)
  show "est out < est ms" by (rule lt)
qed

lemma try_prefixes_Some:
  "try_prefixes est forced digest ms start ns cfg = (cfg', Some out) \<Longrightarrow>
   \<exists>n \<in> set ns. \<exists>entry. map_of (summary_cache cfg) (digest (take n (drop start ms))) = Some entry \<and>
     replace_region est ms start (start + n) (snd entry) = Some out \<and>
     \<not> over_trigger est forced (compact_base cfg) out \<and> cfg' = move_to_end (digest (take n (drop start ms))) entry cfg"
  by (induction ns) (auto simp: Let_def split: option.splits if_splits)

text \<open>A summary replaces whole groups of the chosen range, or the history is returned unchanged.\<close>

lemma compact_outcome:
  assumes "shape_compact est forced summarizer digest cfg ms = (cfg', out)"
  obtains (same) "out = ms"
    | (replaced) lo hi k summary where "compact_groups (compact_base cfg) ms = (lo, hi)" "lo < hi" "lo \<le> k" "k \<le> hi"
        "replace_region est ms (length (concat (take lo (groups ms)))) (length (concat (take k (groups ms)))) summary = Some out"
proof (cases "out = ms")
  case False
  then obtain summ start stop where summ: "summarizer = Some summ"
    and region: "compact_region est forced (compact_base cfg) ms = Some (start, stop)"
    using assms by (auto simp: shape_compact_def split: option.splits prod.splits)
  obtain lo hi where cg: "compact_groups (compact_base cfg) ms = (lo, hi)" by fastforce
  have lohi: "lo < hi" and "start = fst (group_spans ms ! lo)" and "stop = snd (group_spans ms ! (hi - 1))"
    using region by (auto simp: compact_region_def cg Let_def split: if_splits)
  moreover have "hi \<le> length (groups ms)" using compact_groups_ok(1) [OF cg lohi] by simp
  ultimately have start: "start = length (concat (take lo (groups ms)))" and stop: "stop = length (concat (take hi (groups ms)))"
    by (simp_all add: group_spans_def spans_nth)
  let ?seg = "drop lo (take hi (groups ms))"
  have seg: "take (stop - start) (drop start ms) = concat ?seg"
    using segment_groups [OF less_imp_le [OF lohi], of "groups ms"] by (simp add: start stop)
  have "chained ((take lo (groups ms)) @ ?seg @ drop hi (groups ms))"
    using chained_groups [of ms] three_parts [OF less_imp_le [OF lohi], of "groups ms"] by simp
  then have gseg: "groups (concat ?seg) = ?seg" by (simp add: chained_append groups_concat)
  obtain c1 v where cv: "cached_prefix_view est forced digest ms start stop cfg = (c1, v)" by fastforce
  show thesis
  proof (cases v)
    case (Some view)
    then have view: "out = view" using assms summ region cv by (simp add: shape_compact_def)
    have "try_prefixes est forced digest ms start (prefix_lengths cfg (concat ?seg)) cfg = (c1, Some out)"
      using cv unfolding cached_prefix_view_def seg Some view .
    from try_prefixes_Some [OF this] obtain n and entry :: "nat \<times> string" where n: "n \<in> set (prefix_lengths cfg (concat ?seg))"
      and rr: "replace_region est ms start (start + n) (snd entry) = Some out" by blast
    have "n \<in> snd ` set (spans_from 0 ?seg)" using n by (auto simp: prefix_lengths_def group_spans_def gseg)
    then obtain j where j: "j \<le> length ?seg" "n = length (concat (take j ?seg))" using span_ends by blast
    have "j \<le> hi - lo" using j(1) by simp
    then have "take (lo + j) (groups ms) = take lo (groups ms) @ take j ?seg" by (simp add: take_add drop_take min_def)
    then have "start + n = length (concat (take (lo + j) (groups ms)))" by (simp add: start j(2))
    moreover have "lo + j \<le> hi" using j(1) lohi by simp
    ultimately show thesis using replaced [OF cg lohi, of "lo + j"] rr start by simp
  next
    case None
    obtain c2 summary where "summarize summ digest (take (stop - start) (drop start ms)) c1 = (c2, summary)" by fastforce
    then have "replace_region est ms start stop summary = Some out"
      using assms summ region cv None False by (auto simp: shape_compact_def split: option.splits)
    then show thesis using replaced [OF cg lohi, of hi] lohi start stop by simp
  qed
qed (rule same)

interpretation compact: protocol_shaper "\<lambda>ms. snd (shape_compact est forced summarizer digest cfg ms)" for est forced summarizer digest cfg
proof
  fix ms
  obtain cfg' out where sc: "shape_compact est forced summarizer digest cfg ms = (cfg', out)" by fastforce
  have "malformed out = malformed ms \<and> filter pinned_seed out = filter pinned_seed ms"
    using sc
  proof (cases rule: compact_outcome)
    case (replaced lo hi k summary)
    have "set (drop lo (take k (groups ms))) \<subseteq> set (drop lo (take hi (groups ms)))"
      by (rule set_slice_mono [OF _ replaced(4)]) simp
    then have "span_is_safe_to_compact g \<and> \<not> group_has_pinned g" if "g \<in> set (drop lo (take k (groups ms)))" for g
      using compact_groups_ok(2) [OF replaced(1,2)] that by blast
    from replaced_groups(2,3) [OF replaced(5,3) this] show ?thesis by simp
  qed simp
  then show "malformed (snd (shape_compact est forced summarizer digest cfg ms)) = malformed ms"
    and "filter pinned_seed (snd (shape_compact est forced summarizer digest cfg ms)) = filter pinned_seed ms"
    by (simp_all add: sc)
qed

section \<open>Properties of the pipeline\<close>

lemma shape_all_protocol:
  "(\<And>s. s \<in> set ss \<Longrightarrow> protocol_shaper (\<lambda>ms. snd (shape e s ms))) \<Longrightarrow> protocol_shaper (\<lambda>ms. snd (shape_all e ss ms))"
proof (induction ss)
  case (Cons s ss)
  have "protocol_shaper (\<lambda>ms. snd (shape_all e ss (snd (shape e s ms))))"
    by (rule protocol_shaper_comp [of "\<lambda>ms. snd (shape e s ms)" "\<lambda>ms. snd (shape_all e ss ms)"]) (simp_all add: Cons)
  then show ?case by (simp add: split_beta)
qed (simp add: protocol_shaper_id)

lemma shape_protocol: "protocol_shaper (\<lambda>ms. snd (shape e s ms))"
proof (induction s)
  case (ShaperPipeline ss)
  then show ?case using shape_all_protocol [of ss e] by (simp add: split_beta)
qed (simp_all add: cap.prot.protocol_shaper_axioms eager.prot.protocol_shaper_axioms clear.prot.protocol_shaper_axioms
  snip.protocol_shaper_axioms compact.protocol_shaper_axioms split_beta)

text \<open>
  C28. Protocol safety of history shaping.  Whatever shapers are chained, nested and configured,
  forced or not, and whatever the summariser answers: the malformed tool exchanges of the shaped
  view are exactly those of the history, so a well-paired history yields a well-paired request; and
  the pinned system and user messages survive verbatim and in order.
\<close>

theorem pipeline_keeps_protocol:
  "malformed (snd (shape e s ms)) = malformed ms \<and>
   filter pinned_seed (snd (shape e s ms)) = filter pinned_seed ms"
  using protocol_shaper.keeps_malformed [OF shape_protocol] protocol_shaper.keeps_seeds [OF shape_protocol] by blast

lemma source_message_pinned:
  "PIN_FLOOR \<le> effective_priority src \<Longrightarrow> role \<in> {''system'', ''user''} \<Longrightarrow> pinned_seed (source_message role src)"
  by (auto simp: pinned_seed_def is_pinned_def ctx_priority_def source_message_def get_def)

text \<open>
  Pinned sources survive.  A non-empty context source of priority at least \<open>PIN_FLOOR\<close> that
  the plan places in a session is still in the request after a forced, maximal compaction of the
  session's history.
\<close>

theorem pinned_sources_survive:
  assumes "src \<in> set plan" and "src_content src \<noteq> []" and "PIN_FLOOR \<le> effective_priority src"
  shows "source_message (case src_position src of SYSTEM \<Rightarrow> ''system'' | USER_CONTEXT \<Rightarrow> ''user'') src \<in>
    set (snd (forced_shape e s (startup_system_messages plan @ startup_user_messages plan @ history)))"
proof -
  let ?role = "case src_position src of SYSTEM \<Rightarrow> ''system'' | USER_CONTEXT \<Rightarrow> ''user''"
  let ?ms = "startup_system_messages plan @ startup_user_messages plan @ history"
  have "src \<in> set (startup plan (src_position src))" using assms(1,2) by (simp add: startup_def)
  then have "source_message ?role src \<in> set ?ms"
    by (cases "src_position src") (auto simp: startup_system_messages_def startup_user_messages_def startup_messages_def)
  moreover have "pinned_seed (source_message ?role src)"
    by (rule source_message_pinned [OF assms(3)]) (simp split: ContextPosition.split)
  ultimately have "source_message ?role src \<in> set (filter pinned_seed (snd (forced_shape e s ?ms)))"
    unfolding forced_shape_def protocol_shaper.keeps_seeds [OF shape_protocol] by simp
  then show ?thesis by simp
qed

definition demo_env :: env where
  "demo_env = \<lparr>estimate = (\<lambda>ms. 10 * int (length ms)), is_forced = False, loads_outcome = (\<lambda>_. JsonOther),
     loads_dict = (\<lambda>_. None), summary_of = Some (\<lambda>_. (''sum'', True)), cache_digest = (\<lambda>_. ''key'')\<rparr>"

definition demo_reactive :: Reactive where
  "demo_reactive = \<lparr>trigger_tokens = 20, target_tokens = 10, keep_recent_groups = 1\<rparr>"

theorem pinned_sources_survive_witness:
  "source_message ''user'' \<lparr>src_name = ''t'', src_layer = TASK, src_position = USER_CONTEXT, src_content = ''do'', src_priority = None\<rparr>
   \<in> set (snd (forced_shape demo_env (AutoCompact \<lparr>compact_base = demo_reactive, summary_cache_size = 2, summary_cache = []\<rparr>)
       (startup_system_messages [\<lparr>src_name = ''t'', src_layer = TASK, src_position = USER_CONTEXT, src_content = ''do'', src_priority = None\<rparr>]
        @ startup_user_messages [\<lparr>src_name = ''t'', src_layer = TASK, src_position = USER_CONTEXT, src_content = ''do'', src_priority = None\<rparr>]
        @ [[(''role'', VStr ''user'')], [(''role'', VStr ''user'')]])))"
  using pinned_sources_survive [of "\<lparr>src_name = ''t'', src_layer = TASK, src_position = USER_CONTEXT, src_content = ''do'', src_priority = None\<rparr>"
      "[\<lparr>src_name = ''t'', src_layer = TASK, src_position = USER_CONTEXT, src_content = ''do'', src_priority = None\<rparr>]"]
  by (simp add: effective_priority_def)

subsection \<open>Reports\<close>

text \<open>A list of reports links two sizes when each entry starts where the one before it ended.\<close>

fun links :: "int \<Rightarrow> Report list \<Rightarrow> int \<Rightarrow> bool" where
  "links a [] b = (a = b)"
| "links a (r # rs) b = (tokens_before r = a \<and> links (tokens_after r) rs b)"

lemma links_append: "links a rs b \<Longrightarrow> links b rs' c \<Longrightarrow> links a (rs @ rs') c"
  by (induction rs arbitrary: a) simp_all

lemma links_last: "links a rs b \<Longrightarrow> rs \<noteq> [] \<Longrightarrow> tokens_after (last rs) = b"
  by (induction rs arbitrary: a) (auto split: if_splits)

lemma rung_label_named: "rung_label s \<noteq> NO_RUNG_FIRED"
  by (cases s) simp_all

definition rung_ok :: "env \<Rightarrow> shaper \<Rightarrow> bool" where
  "rung_ok e s = (\<forall>ms s' out rs. run_rung e s ms (estimate e ms) = (s', out, rs) \<longrightarrow>
     shape e s ms = (s', out) \<and> links (estimate e ms) rs (estimate e out) \<and> (rs = [] \<longrightarrow> out = ms) \<and>
     list_all (\<lambda>r. rung r \<noteq> NO_RUNG_FIRED) rs)"

lemma report_chain_ok:
  assumes "\<And>s. s \<in> set ss \<Longrightarrow> rung_ok e s" and "report_chain e ss ms (estimate e ms) = (ss', out, rs)"
  shows "shape_all e ss ms = (ss', out) \<and> links (estimate e ms) rs (estimate e out) \<and> (rs = [] \<longrightarrow> out = ms) \<and>
    list_all (\<lambda>r. rung r \<noteq> NO_RUNG_FIRED) rs"
  using assms
proof (induction ss arbitrary: ms ss' out rs)
  case (Cons s ss)
  obtain s1 mid rs1 where r1: "run_rung e s ms (estimate e ms) = (s1, mid, rs1)" by (metis prod_cases3)
  have ok: "shape e s ms = (s1, mid)" "links (estimate e ms) rs1 (estimate e mid)" "rs1 = [] \<longrightarrow> mid = ms"
    "list_all (\<lambda>r. rung r \<noteq> NO_RUNG_FIRED) rs1"
    using Cons.prems(1) [of s] r1 unfolding rung_ok_def by auto
  have tok: "(if rs1 = [] then estimate e ms else tokens_after (last rs1)) = estimate e mid"
    using ok(2) links_last by (cases "rs1 = []") auto
  obtain ss2 out2 rs2 where r2: "report_chain e ss mid (estimate e mid) = (ss2, out2, rs2)" by (metis prod_cases3)
  have eq: "ss' = s1 # ss2" "out = out2" "rs = rs1 @ rs2" using Cons.prems(2) r1 r2 tok by simp_all
  have IH: "shape_all e ss mid = (ss2, out2) \<and> links (estimate e mid) rs2 (estimate e out2) \<and> (rs2 = [] \<longrightarrow> out2 = mid) \<and>
      list_all (\<lambda>r. rung r \<noteq> NO_RUNG_FIRED) rs2"
    by (rule Cons.IH [OF _ r2]) (use Cons.prems(1) in simp)
  then show ?case using ok links_append [OF ok(2)] by (auto simp: eq)
qed simp

lemma rung_ok: "rung_ok e s"
proof (induction s)
  case (ShaperPipeline ss)
  show ?case unfolding rung_ok_def
  proof (intro allI impI)
    fix ms s' out rs
    assume r: "run_rung e (ShaperPipeline ss) ms (estimate e ms) = (s', out, rs)"
    obtain ss1 out1 rs1 where c: "report_chain e ss ms (estimate e ms) = (ss1, out1, rs1)" by (metis prod_cases3)
    note ok = report_chain_ok [OF ShaperPipeline c]
    have "filter (\<lambda>r. rung r \<noteq> NO_RUNG_FIRED) rs1 = rs1" using ok by (simp add: list_all_iff filter_id_conv)
    then have "s' = ShaperPipeline ss1 \<and> out = out1 \<and> rs = (if out1 = ms then [] else rs1)"
      using r c ok by (auto simp: fill_none_def)
    then show "shape e (ShaperPipeline ss) ms = (s', out) \<and> links (estimate e ms) rs (estimate e out) \<and> (rs = [] \<longrightarrow> out = ms) \<and>
        list_all (\<lambda>r. rung r \<noteq> NO_RUNG_FIRED) rs"
      using ok by auto
  qed
qed (auto simp: rung_ok_def split: prod.splits)

text \<open>
  Reporting does not change shaping.  The instrumented pass returns the same view and leaves the
  shapers in the same state as the plain one, and its reports account for every token: they are
  never empty, the first starts at the size of the history, each next one where the previous ended,
  and the last ends at the size of the view.
\<close>

theorem report_accounts:
  assumes "shape_with_report e ss ms = (ss', out, rs)"
  shows "shape_all e ss ms = (ss', out) \<and> rs \<noteq> [] \<and> links (estimate e ms) rs (estimate e out)"
proof -
  obtain ss1 out1 rs1 where c: "report_chain e ss ms (estimate e ms) = (ss1, out1, rs1)" by (metis prod_cases3)
  then have eq: "ss' = ss1" "out = out1" "rs = fill_none (estimate e ms) rs1" using assms by (simp_all add: shape_with_report_def)
  show ?thesis using report_chain_ok [OF rung_ok c] by (auto simp: eq fill_none_def)
qed

theorem report_accounts_witness:
  "shape_all demo_env [OldHistorySnip demo_reactive] [] = ([OldHistorySnip demo_reactive], []) \<and>
   [\<lparr>rung = NO_RUNG_FIRED, tokens_before = 0, tokens_after = 0\<rparr>] \<noteq> [] \<and>
   links (estimate demo_env []) [\<lparr>rung = NO_RUNG_FIRED, tokens_before = 0, tokens_after = 0\<rparr>] (estimate demo_env [])"
  by (rule report_accounts) (simp add: shape_with_report_def fill_none_def demo_env_def shape_snip_def over_trigger_def)

end
