(* ===== verification/Shaping_Bounds.thy ===== *)
theory Shaping_Bounds
  imports Shaping
begin

text \<open>
  What the layers achieve: the size the snip layer reaches, what a summary replaces and how its cache
  behaves, the per-result cap, idempotence of clearing, and the thresholds derived from a window.
\<close>

section \<open>Snipping\<close>

context token_estimator
begin

lemma snip_running:
  assumes "\<And>g. g \<in> set gs \<Longrightarrow> snippable g \<Longrightarrow> est (concat (snipped g)) \<le> est g"
  shows "(\<forall>g \<in> set (snip_loop est target r gs). \<not> snippable g) \<or>
    r - (est (concat gs) - est (concat (snip_loop est target r gs))) \<le> target"
  using assms
proof (induction gs arbitrary: r)
  case (Cons g gs)
  show ?case
  proof (cases "snippable g")
    case True
    let ?r = "r - (est g - est (concat (snipped g)))"
    have "est (concat (snipped g)) \<le> est g" using Cons.prems True by simp
    then have step: "snip_loop est target r (g # gs) = snipped g @ (if ?r \<le> target then gs else snip_loop est target ?r gs)"
      using True by (auto simp: Let_def est_nil)
    have ns: "\<forall>h \<in> set (snipped g). \<not> snippable h"
      using snipped_facts(5) [of g] complete_leader [of g] True
      by (auto simp: snipped_def snippable_def is_complete_tool_exchange_def split: if_splits)
    show ?thesis
    proof (cases "?r \<le> target")
      case True
      then show ?thesis unfolding step by (simp add: est_append)
    next
      case False
      then show ?thesis using Cons.IH [of ?r] Cons.prems ns unfolding step by (auto simp: est_append)
    qed
  next
    case False
    then show ?thesis using Cons.IH [of r] Cons.prems by (auto simp: est_append)
  qed
qed simp

text \<open>The running estimate of the loop is the estimate of the view it produces.\<close>

lemma snip_target:
  assumes "over_trigger est forced cfg ms"
    and "\<And>g. g \<in> set (groups ms) \<Longrightarrow> snippable g \<Longrightarrow> est (concat (snipped g)) \<le> est g"
  defines "hi \<equiv> max 1 (length (groups ms) - keep_recent_groups cfg)"
  shows "\<exists>mid. groups (shape_snip est forced cfg ms) = take 1 (groups ms) @ mid @ drop hi (groups ms) \<and>
    (est (shape_snip est forced cfg ms) \<le> target_tokens cfg \<or> (\<forall>g \<in> set mid. \<not> snippable g))"
proof -
  let ?gs = "groups ms" and ?out = "shape_snip est forced cfg ms"
  let ?reg = "drop 1 (take hi ?gs)"
  define mid where "mid = snip_loop est (target_tokens cfg) (est ms) ?reg"
  have parts: "take 1 ?gs @ ?reg @ drop hi ?gs = ?gs" by (rule three_parts) (simp add: hi_def)
  have g: "groups ?out = take 1 ?gs @ mid @ drop hi ?gs"
    unfolding mid_def hi_def by (rule groups_snip [OF assms(1)])
  have "est ms = est (concat (take 1 ?gs @ ?reg @ drop hi ?gs))" by (simp only: parts concat_groups)
  moreover have "est ?out = est (concat (take 1 ?gs @ mid @ drop hi ?gs))" by (simp only: g [symmetric] concat_groups)
  ultimately have eq: "est ms - (est (concat ?reg) - est (concat mid)) = est ?out" by (simp add: est_append)
  have "set ?reg \<subseteq> set ?gs" by (rule order_trans [OF set_drop_subset set_take_subset])
  then have "(\<forall>g \<in> set mid. \<not> snippable g) \<or> est ?out \<le> target_tokens cfg"
    using snip_running [of ?reg "target_tokens cfg" "est ms"] assms(2) unfolding mid_def [symmetric] eq by blast
  then show ?thesis using g by blast
qed

end

text \<open>
  Snipping reaches its target.  Over the trigger, with the session's calibrated estimate and
  replacements no larger than the exchanges they stand for, the snip layer keeps the leading group
  and the most recent groups verbatim, and either the view is down to the target or no old exchange
  that may be deleted is left.
\<close>

theorem snip_reaches_target:
  assumes "over_trigger (pressure fr fallback ws) forced cfg ms"
    and "\<forall>g \<in> set (groups ms). snippable g \<longrightarrow> pressure fr fallback ws (concat (snipped g)) \<le> pressure fr fallback ws g"
  shows "\<exists>mid. groups (shape_snip (pressure fr fallback ws) forced cfg ms) =
      take 1 (groups ms) @ mid @ drop (max 1 (length (groups ms) - keep_recent_groups cfg)) (groups ms) \<and>
    (pressure fr fallback ws (shape_snip (pressure fr fallback ws) forced cfg ms) \<le> target_tokens cfg \<or>
     (\<forall>g \<in> set mid. \<not> snippable g))"
  using cal.snip_target [OF assms(1)] assms(2) by blast

definition demo_exchange :: "string \<Rightarrow> message list" where
  "demo_exchange c =
     [[(''role'', VStr ''assistant''), (''tool_calls'', VList [VDict [(''id'', VStr c)]])],
      [(''role'', VStr ''tool''), (''tool_call_id'', VStr c)]]"

definition demo_history :: "message list" where
  "demo_history = [(''role'', VStr ''system'')] # demo_exchange ''a'' @ demo_exchange ''b'' @ [[(''role'', VStr ''user'')]]"

lemma demo_exchange_groups:
  "groups (demo_exchange c @ ms) = demo_exchange c # groups ms" if "\<not> tool_head (groups ms)"
proof -
  have "chained (demo_exchange c # groups ms)"
    using that chained_groups [of ms] by (simp add: demo_exchange_def group_ok_def is_leader_def is_tool_msg_def get_def)
  from groups_concat [OF this] show ?thesis by (simp only: concat.simps concat_groups)
qed

lemma demo_groups: "groups demo_history = [[[(''role'', VStr ''system'')]], demo_exchange ''a'', demo_exchange ''b'', [[(''role'', VStr ''user'')]]]"
proof -
  have u: "groups [[(''role'', VStr ''user'')]] = [[[(''role'', VStr ''user'')]]]" by (simp add: is_leader_def get_def)
  have b: "groups (demo_exchange ''b'' @ [[(''role'', VStr ''user'')]]) = [demo_exchange ''b'', [[(''role'', VStr ''user'')]]]"
    by (subst demo_exchange_groups) (simp_all add: u tool_head_def is_tool_msg_def get_def)
  have "groups (demo_exchange ''a'' @ demo_exchange ''b'' @ [[(''role'', VStr ''user'')]]) =
      [demo_exchange ''a'', demo_exchange ''b'', [[(''role'', VStr ''user'')]]]"
    using demo_exchange_groups [of "demo_exchange ''b'' @ [[(''role'', VStr ''user'')]]" "''a''"] unfolding b
    by (simp add: tool_head_def demo_exchange_def is_tool_msg_def get_def)
  then show ?thesis by (simp add: demo_history_def is_leader_def get_def)
qed

theorem snip_reaches_target_witness:
  "\<exists>mid. groups (shape_snip (pressure (\<lambda>_. []) (\<lambda>_. 10) []) False demo_reactive demo_history) =
      take 1 (groups demo_history) @ mid @ drop (max 1 (length (groups demo_history) - keep_recent_groups demo_reactive)) (groups demo_history) \<and>
    (pressure (\<lambda>_. []) (\<lambda>_. 10) [] (shape_snip (pressure (\<lambda>_. []) (\<lambda>_. 10) []) False demo_reactive demo_history) \<le> target_tokens demo_reactive \<or>
     (\<forall>g \<in> set mid. \<not> snippable g))"
proof (rule snip_reaches_target)
  show "over_trigger (pressure (\<lambda>_. []) (\<lambda>_. 10) []) False demo_reactive demo_history"
    by (simp add: over_trigger_def pressure_def weight_def demo_history_def demo_exchange_def demo_reactive_def)
  show "\<forall>g \<in> set (groups demo_history). snippable g \<longrightarrow> pressure (\<lambda>_. []) (\<lambda>_. 10) [] (concat (snipped g)) \<le> pressure (\<lambda>_. []) (\<lambda>_. 10) [] g"
    unfolding demo_groups
    by (simp add: demo_exchange_def snipped_def pressure_def weight_def get_def)
qed

section \<open>Summaries\<close>

definition cache_ok :: "CompactShaper \<Rightarrow> bool" where
  "cache_ok cfg = (dict_ok (summary_cache cfg) \<and> length (summary_cache cfg) \<le> summary_cache_size cfg \<and>
     (\<forall>p \<in> set (summary_cache cfg). snd (snd p) \<noteq> []))"

lemma dict_ok_drop: "dict_ok d \<Longrightarrow> dict_ok (drop n d)"
  by (simp add: drop_map [symmetric])

lemma moved_ok:
  assumes "dict_ok d" and "\<forall>p \<in> set d. snd (snd p) \<noteq> []" and "snd entry \<noteq> []"
  shows "dict_ok (AList.delete key d @ [(key, entry)])"
    and "\<forall>p \<in> set (AList.delete key d @ [(key, entry)]). snd (snd p) \<noteq> []"
proof -
  have "key \<notin> keys (AList.delete key d)" by simp
  then show "dict_ok (AList.delete key d @ [(key, entry)])" using dict_ok_delete [OF assms(1)] by simp
  have "set (AList.delete key d) \<subseteq> set d" by (auto simp: AList.delete_eq)
  then show "\<forall>p \<in> set (AList.delete key d @ [(key, entry)]). snd (snd p) \<noteq> []" using assms(2,3) by auto
qed

lemma move_to_end_ok:
  assumes "cache_ok cfg" and "map_of (summary_cache cfg) key = Some entry"
  shows "cache_ok (move_to_end key entry cfg)"
proof -
  have "(key, entry) \<in> set (summary_cache cfg)" by (rule map_of_SomeD [OF assms(2)])
  then have "snd entry \<noteq> []" using assms(1) by (force simp: cache_ok_def)
  moreover have "length (AList.delete key (summary_cache cfg)) < length (summary_cache cfg)"
    by (rule length_delete_old [OF map_of_some_keys [OF assms(2)]])
  ultimately show ?thesis
    using assms(1) moved_ok [of "summary_cache cfg" entry key] by (simp add: cache_ok_def move_to_end_def)
qed

lemma cache_summary_ok: "cache_ok cfg \<Longrightarrow> cache_ok (fst (cache_summary key segment answer cfg))"
proof -
  assume ok: "cache_ok cfg"
  obtain summary cacheable where a: "answer = (summary, cacheable)" by fastforce
  show ?thesis
  proof (cases "cacheable \<and> summary_cache_size cfg \<noteq> 0 \<and> summary \<noteq> []")
    case True
    define d where "d = AList.delete key (summary_cache cfg) @ [(key, length segment, summary)]"
    have d: "dict_ok d" "\<forall>p \<in> set d. snd (snd p) \<noteq> []"
      unfolding d_def by (rule moved_ok; use ok True in \<open>simp add: cache_ok_def\<close>)+
    have eq: "fst (cache_summary key segment answer cfg) = cfg\<lparr>summary_cache := drop (length d - summary_cache_size cfg) d\<rparr>"
      using True by (simp add: cache_summary_def a move_to_end_def Let_def d_def)
    have "dict_ok (drop n d)" "\<forall>p \<in> set (drop n d). snd (snd p) \<noteq> []" for n
      using dict_ok_drop [OF d(1)] d(2) set_drop_subset [of n d] by blast+
    then show ?thesis unfolding eq cache_ok_def by simp
  next
    case False
    then show ?thesis using ok by (auto simp: cache_summary_def a)
  qed
qed

lemma summarize_ok: "cache_ok cfg \<Longrightarrow> cache_ok (fst (summarize summ digest segment cfg))"
  by (auto simp: summarize_def cache_summary_ok move_to_end_ok split: option.split if_splits)

lemma try_prefixes_ok: "cache_ok cfg \<Longrightarrow> cache_ok (fst (try_prefixes est forced digest ms start ns cfg))"
  by (induction ns) (auto simp: Let_def move_to_end_ok split: option.split)

lemma shape_compact_cache: "cache_ok cfg \<Longrightarrow> cache_ok (fst (shape_compact est forced summarizer digest cfg ms))"
proof (cases summarizer)
  case (Some summ)
  assume ok: "cache_ok cfg"
  show ?thesis
  proof (cases "compact_region est forced (compact_base cfg) ms")
    case region: (Some r)
    obtain start stop where r: "r = (start, stop)" by fastforce
    obtain c1 v where cv: "cached_prefix_view est forced digest ms start stop cfg = (c1, v)" by fastforce
    have "cache_ok c1" using try_prefixes_ok [OF ok] cv unfolding cached_prefix_view_def by (metis fst_conv)
    then show ?thesis
      using summarize_ok [of c1 summ digest] by (simp add: shape_compact_def Some region r cv split: option.split prod.split) (metis fst_conv)
  qed (use ok in \<open>simp add: shape_compact_def Some\<close>)
qed (simp add: shape_compact_def)

text \<open>
  Summaries only ever shrink the middle.  When the summary layer changes the history, the result
  is strictly smaller by the layer's own estimate; it consists of the first groups unchanged, one
  marker that announces itself, and the rest unchanged, where the leading group and the most
  recent \<open>keep_recent_groups\<close> groups are always among the unchanged ones.  The cache keeps its bound,
  one entry per digest and no empty summary.
\<close>

theorem compaction_shrinks:
  assumes "cache_ok cfg" and "shape_compact est forced summarizer digest cfg ms = (cfg', out)"
  shows "cache_ok cfg' \<and>
    (out = ms \<or>
     (est out < est ms \<and>
      (\<exists>lo k n summary. groups out = take lo (groups ms) @ [[compacted_marker n summary]] @ drop k (groups ms) \<and>
         1 \<le> lo \<and> lo \<le> k \<and> k \<le> max 1 (length (groups ms) - keep_recent_groups (compact_base cfg)))))"
  using assms(2)
proof (cases rule: compact_outcome)
  case same
  then show ?thesis using shape_compact_cache [OF assms(1)] assms(2) by (metis fst_conv)
next
  case (replaced lo hi k summary)
  have "set (drop lo (take k (groups ms))) \<subseteq> set (drop lo (take hi (groups ms)))"
    by (rule set_slice_mono [OF _ replaced(4)]) simp
  then have "span_is_safe_to_compact g \<and> \<not> group_has_pinned g" if "g \<in> set (drop lo (take k (groups ms)))" for g
    using compact_groups_ok(2) [OF replaced(1,2)] that by blast
  note r = replaced_groups [OF replaced(5,3) this]
  have "1 \<le> lo" "k \<le> max 1 (length (groups ms) - keep_recent_groups (compact_base cfg))"
    using compact_groups_ok(1) [OF replaced(1,2)] replaced(4) by simp_all
  moreover have "cache_ok cfg'" using shape_compact_cache [OF assms(1)] assms(2) by (metis fst_conv)
  ultimately show ?thesis using r(1,4) replaced(3) by blast
qed

definition demo_compact :: CompactShaper where
  "demo_compact = \<lparr>compact_base = demo_reactive, summary_cache_size = 2, summary_cache = []\<rparr>"

theorem compaction_shrinks_witness:
  "\<exists>cfg' out. shape_compact (estimate demo_env) False (summary_of demo_env) (cache_digest demo_env) demo_compact demo_history = (cfg', out) \<and>
    cache_ok cfg' \<and>
    (out = demo_history \<or>
     (estimate demo_env out < estimate demo_env demo_history \<and>
      (\<exists>lo k n summary. groups out = take lo (groups demo_history) @ [[compacted_marker n summary]] @ drop k (groups demo_history) \<and>
         1 \<le> lo \<and> lo \<le> k \<and> k \<le> max 1 (length (groups demo_history) - keep_recent_groups (compact_base demo_compact)))))"
proof -
  have ok: "cache_ok demo_compact" by (simp add: cache_ok_def demo_compact_def)
  obtain cfg' out where "shape_compact (estimate demo_env) False (summary_of demo_env) (cache_digest demo_env) demo_compact demo_history = (cfg', out)"
    by fastforce
  then show ?thesis using compaction_shrinks [OF ok] by blast
qed

section \<open>Per-result cap and clearing\<close>

definition capped :: "nat \<Rightarrow> message \<Rightarrow> bool" where
  "capped n m = (is_tool_msg m \<longrightarrow> content_len m \<le> n)"

lemma shape_message_capped: "capped (max_chars cfg) (shape_message cfg m)"
proof (cases "get m ''content''")
  case (VStr s)
  have "length (truncate_content cfg s) \<le> max_chars cfg" by (simp add: truncate_content_def Let_def)
  then show ?thesis by (simp add: capped_def shape_message_def VStr content_len_def str_of_def)
qed (simp_all add: capped_def shape_message_def content_len_def str_of_def)

lemma budget_step_capped:
  assumes "list_all (capped (max_chars cfg)) shaped" and "owners_ok shaped pending"
  shows "list_all (capped (max_chars cfg)) (fst (budget_step loads cfg (shaped, pending) m))"
proof -
  let ?s = "shaped @ [shape_message cfg m]"
  have s: "list_all (capped (max_chars cfg)) ?s" using assms(1) by (simp add: shape_message_capped)
  have upd: "list_all (capped (max_chars cfg)) (?s[i := shape_rejected_arguments loads cfg (?s ! i) c])"
    if "map_of pending c = Some i" for c i
  proof -
    have "get (?s ! i) ''role'' = VStr ''assistant''"
      using owners_ok_snoc [OF assms(2)] map_of_SomeD [OF that] unfolding owners_ok_def list_all_iff by fast
    then have "get (shape_rejected_arguments loads cfg (?s ! i) c) ''role'' = VStr ''assistant''"
      using skel_role [OF skel_rejected] by simp
    then have "capped (max_chars cfg) (shape_rejected_arguments loads cfg (?s ! i) c)" by (simp add: capped_def is_tool_msg_def)
    moreover have "set (?s[i := x]) \<subseteq> insert x (set ?s)" for x by (rule set_update_subset_insert)
    ultimately show ?thesis using s unfolding list_all_iff by blast
  qed
  show ?thesis using s upd by (simp add: budget_step_def Let_def split: pyval.split option.split)
qed

lemma budget_fold_capped:
  "list_all2 reworks ms shaped \<Longrightarrow> owners_ok shaped pending \<Longrightarrow> list_all (capped (max_chars cfg)) shaped \<Longrightarrow>
   list_all (capped (max_chars cfg)) (fst (foldl (budget_step loads cfg) (shaped, pending) xs))"
proof (induction xs arbitrary: ms shaped pending)
  case (Cons x xs)
  obtain s' p' where st: "budget_step loads cfg (shaped, pending) x = (s', p')" by fastforce
  have "list_all (capped (max_chars cfg)) s'" using budget_step_capped [OF Cons.prems(3,2)] st by (metis fst_conv)
  then show ?case using Cons.IH [of "ms @ [x]" s' p'] budget_step_ok [OF Cons.prems(1,2) st] by (simp add: st)
qed simp

lemma shape_budget_capped: "list_all (capped (max_chars cfg)) (shape_budget loads cfg ms)"
  using budget_fold_capped [of "[]" "[]" "[]" cfg loads ms] by (simp add: shape_budget_def owners_ok_def)

text \<open>What clearing looks at is untouched by clearing.\<close>

definition call_view :: "message \<Rightarrow> pyval \<times> pyval \<times> pyval" where
  "call_view m = (get m ''role'', get m ''tool_calls'', get m ''tool_call_id'')"

lemma call_view_tool: "call_view m = call_view m' \<Longrightarrow> is_tool_msg m = is_tool_msg m'"
  by (simp add: call_view_def is_tool_msg_def)

lemma call_view_results:
  "map call_view ms = map call_view ms' \<Longrightarrow>
   result_ids (takeWhile is_tool_msg ms) = result_ids (takeWhile is_tool_msg ms')"
proof (induction ms arbitrary: ms')
  case (Cons m ms)
  then obtain m' xs where ms': "ms' = m' # xs" by (cases ms') auto
  then have m: "call_view m = call_view m'" and xs: "map call_view ms = map call_view xs" using Cons.prems by simp_all
  have "get m ''tool_call_id'' = get m' ''tool_call_id''" using m by (simp add: call_view_def)
  then show ?case using Cons.IH [OF xs] call_view_tool [OF m] by (simp add: ms' result_ids_def)
qed simp

lemma call_view_occurrences:
  "map call_view ms = map call_view ms' \<Longrightarrow> occurrences_from i ms = occurrences_from i ms'"
proof (induction ms arbitrary: i ms')
  case (Cons m ms)
  then obtain m' xs where ms': "ms' = m' # xs" by (cases ms') auto
  then have m: "call_view m = call_view m'" and xs: "map call_view ms = map call_view xs" using Cons.prems by simp_all
  have "turn_occurrences i m (takeWhile is_tool_msg ms) = turn_occurrences i m' (takeWhile is_tool_msg xs)"
    using m call_view_results [OF xs]
    by (simp add: turn_occurrences_def call_view_def is_leader_def call_ids_def calls_of_def)
  then show ?case using Cons.IH [OF xs] by (simp add: ms')
qed simp

lemma put_stubs_view: "map call_view (put_stubs guard stubs ms) = map call_view ms"
  by (rule nth_equalityI) (simp_all add: nth_put_stubs call_view_def split: option.split)

lemma map_of_const: "map_of (map (\<lambda>i. (i, c)) xs) i = (if i \<in> set xs then Some c else None)"
  by (induction xs) auto

lemma clear_again:
  assumes "out = put_stubs (\<lambda>_. True) (map (\<lambda>i. (i, cleared_content cfg)) (indices_to_clear cfg ms)) ms"
    and "i \<in> set (indices_to_clear cfg out)" and "i < length ms"
  shows "i \<in> set (indices_to_clear cfg ms)"
proof (rule ccontr)
  assume i: "i \<notin> set (indices_to_clear cfg ms)"
  have "matched_tool_result_occurrences out = matched_tool_result_occurrences ms"
    unfolding matched_tool_result_occurrences_def assms(1) by (rule call_view_occurrences [OF put_stubs_view])
  moreover have "out ! i = ms ! i" unfolding assms(1) using assms(3) i by (simp add: nth_put_stubs map_of_const)
  ultimately have "i \<in> set (indices_to_clear cfg ms)" using assms(2) by (auto simp: indices_to_clear_def Let_def split: if_splits)
  then show False using i by simp
qed

lemma shape_clear_idempotent: "shape_clear est forced cfg (shape_clear est forced cfg ms) = shape_clear est forced cfg ms"
proof (cases "over_trigger est forced (clear_base cfg) ms")
  case True
  define out where "out = put_stubs (\<lambda>_. True) (map (\<lambda>i. (i, cleared_content cfg)) (indices_to_clear cfg ms)) ms"
  have "put_stubs (\<lambda>_. True) (map (\<lambda>i. (i, cleared_content cfg)) (indices_to_clear cfg out)) out = out"
  proof (rule nth_equalityI)
    fix i assume "i < length (put_stubs (\<lambda>_. True) (map (\<lambda>i. (i, cleared_content cfg)) (indices_to_clear cfg out)) out)"
    then have i: "i < length out" "i < length ms" by (simp_all add: out_def)
    show "put_stubs (\<lambda>_. True) (map (\<lambda>i. (i, cleared_content cfg)) (indices_to_clear cfg out)) out ! i = out ! i"
    proof (cases "i \<in> set (indices_to_clear cfg out)")
      case True
      then have "i \<in> set (indices_to_clear cfg ms)" using clear_again [OF out_def _ i(2)] by simp
      then have "\<not> is_tool_msg (out ! i) \<or> get (out ! i) ''content'' = VStr (cleared_content cfg)"
        unfolding out_def using i(2) by (auto simp: nth_put_stubs map_of_const)
      then show ?thesis using i(1) by (auto simp: nth_put_stubs map_of_const)
    qed (use i(1) in \<open>simp add: nth_put_stubs map_of_const\<close>)
  qed simp
  then show ?thesis using True by (simp add: shape_clear_def out_def)
qed (simp add: shape_clear_def)

text \<open>
  Bounded and stable tool output.  After the per-result cap no tool result is longer than
  \<open>max_chars\<close>, in both truncation modes and whatever the length of the notice; and clearing old tool
  output twice is clearing it once.
\<close>

theorem tool_output_bounded:
  "list_all (capped (max_chars bcfg)) (shape_budget loads bcfg ms) \<and>
   shape_clear est forced cfg (shape_clear est forced cfg ms) = shape_clear est forced cfg ms"
  using shape_budget_capped shape_clear_idempotent by blast

section \<open>Thresholds\<close>

lemma three_quarters: "2 \<le> t \<Longrightarrow> t < 2 ^ 51 \<Longrightarrow> trunc (round53 (of_int t * (3 / 4))) = 3 * t div 4"
proof -
  assume t: "2 \<le> t" "t < 2 ^ 51"
  have "rat_of_int t * (3 / 4) = of_int (3 * t) / of_int 4" by simp
  then show ?thesis using round53_floor_div [of "3 * t" 4] t by (simp only:) simp
qed

text \<open>
  Thresholds from the model's window.  For the default ratio and every window below
  \<open>2 ^ 51\<close> tokens the floating-point computation gives exactly three quarters of the trigger, rounded
  down; the trigger leaves the output reserve and the safety buffer free whenever the window has
  room for them; and the pair is always accepted by the layers' constructor, so the target is
  positive and below the trigger.  A malformed window, reserve or ratio raises.
\<close>

theorem thresholds_accepted:
  assumes "0 < w" and "w < 2 ^ 51" and "0 \<le> reserve" and "0 \<le> buf" and "0 \<le> keep"
  shows "(\<exists>trigger target.
    history_trigger_target (VInt w) (VInt reserve) (VInt buf) (VFloat (Fin HISTORY_TARGET_RATIO)) = Inr (trigger, target) \<and>
    target = max 1 (3 * trigger div 4) \<and> (reserve + buf + 2 \<le> w \<longrightarrow> trigger + reserve + buf = w) \<and>
    reactive_shaper (VInt trigger) (VInt target) (VInt keep) =
      Inr \<lparr>trigger_tokens = trigger, target_tokens = target, keep_recent_groups = nat keep\<rparr>) \<and>
    (\<forall>s. history_trigger_target (VStr s) (VInt reserve) (VInt buf) (VFloat (Fin HISTORY_TARGET_RATIO)) = Inl (BadValue ''context_window'')) \<and>
    history_trigger_target (VInt w) (VInt reserve) (VInt buf) (VFloat NaN) = Inl (BadValue ''target_ratio'') \<and>
    history_trigger_target (VInt w) (VInt (- 1 - reserve)) (VInt buf) (VFloat (Fin HISTORY_TARGET_RATIO)) = Inl (BadValue ''output_reserve'')"
proof -
  define t where "t = max 2 (w - reserve - buf)"
  have t: "2 \<le> t" "t < 2 ^ 51" using assms by (simp_all add: t_def)
  have f: "float_of_int t = Some (of_int t)" using t by (intro float_of_small) simp
  have le: "3 * t div 4 \<le> t - 1" using t by linarith
  have target: "max 1 (min (t - 1) (trunc (round53 (of_int t * (3 / 4))))) = max 1 (3 * t div 4)"
    using le unfolding three_quarters [OF t] by simp
  have "history_trigger_target (VInt w) (VInt reserve) (VInt buf) (VFloat (Fin HISTORY_TARGET_RATIO)) = Inr (t, max 1 (3 * t div 4))"
    using assms f target
    by (simp add: history_trigger_target_def require_nonnegative_int_def check_ratio_def check_window_def Let_def t_def [symmetric])
  moreover have "reactive_shaper (VInt t) (VInt (max 1 (3 * t div 4))) (VInt keep) =
      Inr \<lparr>trigger_tokens = t, target_tokens = max 1 (3 * t div 4), keep_recent_groups = nat keep\<rparr>"
    using assms(5) t le by (auto simp: reactive_shaper_def require_positive_int_def require_nonnegative_int_def)
  moreover have "reserve + buf + 2 \<le> w \<longrightarrow> t + reserve + buf = w" by (simp add: t_def)
  ultimately have "\<exists>trigger target.
      history_trigger_target (VInt w) (VInt reserve) (VInt buf) (VFloat (Fin HISTORY_TARGET_RATIO)) = Inr (trigger, target) \<and>
      target = max 1 (3 * trigger div 4) \<and> (reserve + buf + 2 \<le> w \<longrightarrow> trigger + reserve + buf = w) \<and>
      reactive_shaper (VInt trigger) (VInt target) (VInt keep) =
        Inr \<lparr>trigger_tokens = trigger, target_tokens = target, keep_recent_groups = nat keep\<rparr>"
    by blast
  then show ?thesis
    using assms(3,4) by (simp add: history_trigger_target_def require_nonnegative_int_def check_ratio_def check_window_def)
qed

theorem thresholds_accepted_witness:
  "\<exists>trigger target.
    history_trigger_target (VInt 200000) (VInt 20000) (VInt 13000) (VFloat (Fin HISTORY_TARGET_RATIO)) = Inr (trigger, target) \<and>
    target = max 1 (3 * trigger div 4) \<and> trigger + 20000 + 13000 = 200000"
  using thresholds_accepted [of 200000 20000 13000 4] by auto

end
