(* ===== verification/Messaging.thy ===== *)
theory Messaging
  imports Team_Leases
begin

text \<open>
  Teammate messages: envelopes, the bounded inbox, routing checks at delivery, the transactional
  append of a delivery as a user turn, and stop notices (\<open>application/scheduler_messaging.py\<close>,
  \<open>application/_scheduler_stop_notice.py\<close>, \<open>Session.add_user_message\<close>).

  One operation runs under the recipient's lock and is one step here; the state of a session is the
  state of its control block (the code shares the object).  Arguments stand for the clock, fresh
  identifiers, whether the event sink raises, and the outcome of \<open>ElementTree.fromstring\<close>.  Trace
  records and emitted scheduler events are observations and not part of the state.
\<close>

section \<open>Envelopes\<close>

definition xml_char :: "char \<Rightarrow> string" where
  "xml_char c =
     (if c = CHR ''&'' then ''&amp;'' else if c = CHR ''>'' then ''&gt;''
      else if c = CHR ''<'' then ''&lt;'' else [c])"

definition escape :: "string \<Rightarrow> string" where
  "escape s = concat (map xml_char s)"

definition attr_char :: "char \<Rightarrow> string" where
  "attr_char c =
     (if c = CHR 0x0A then ''&#10;'' else if c = CHR 0x0D then ''&#13;''
      else if c = CHR 0x09 then ''&#9;'' else xml_char c)"

definition DQUOTE :: char where "DQUOTE = CHR 0x22"
definition SQUOTE :: char where "SQUOTE = CHR 0x27"

definition quote_char :: "char \<Rightarrow> string" where
  "quote_char c = (if c = DQUOTE then ''&quot;'' else [c])"

definition quoteattr :: "string \<Rightarrow> string" where
  "quoteattr s =
     (let d = concat (map attr_char s)
      in if DQUOTE \<in> set d
         then if SQUOTE \<in> set d then DQUOTE # concat (map quote_char d) @ [DQUOTE]
              else SQUOTE # d @ [SQUOTE]
         else DQUOTE # d @ [DQUOTE])"

definition NL :: char where "NL = CHR 0x0A"

definition format_teammate_message :: "int \<Rightarrow> string \<Rightarrow> string \<Rightarrow> string \<Rightarrow> string" where
  "format_teammate_message from_aid summary content message_id =
     ''<teammate-message teammate_id='' @ quoteattr (''A'' @ int_str from_aid) @ '' summary='' @ quoteattr summary @
     (if message_id \<noteq> [] then '' message_id='' @ quoteattr message_id else []) @ ''>'' @ [NL] @
     escape content @ [NL] @ ''</teammate-message>''"

definition notice_xml :: "int \<Rightarrow> string \<Rightarrow> string \<Rightarrow> string \<Rightarrow> string" where
  "notice_xml a role message_id content =
     ''<team-notice about='' @ quoteattr (''A'' @ int_str a) @ '' role='' @ quoteattr role @ '' message_id='' @
     quoteattr message_id @ ''>'' @ [NL] @ escape content @ [NL] @ ''</team-notice>''"

datatype MessageKind = Teammate | StopNotice | OtherKind string

record QueuedTeammateMessage =
  q_from :: int
  q_to :: int
  q_summary :: string
  q_content :: string
  q_xml :: string
  q_sent_at :: string
  q_id :: string
  q_from_role :: "string option"
  q_to_role :: "string option"
  q_restored :: bool
  q_kind :: MessageKind

definition batch_envelope :: "QueuedTeammateMessage \<Rightarrow> string" where
  "batch_envelope m =
     (if q_kind m = StopNotice then q_xml m
      else ''<teammate-message teammate_id='' @ quoteattr (''A'' @ int_str (q_from m)) @ '' summary='' @ quoteattr (q_summary m) @
           '' sent_at='' @ quoteattr (q_sent_at m) @
           (if q_id m \<noteq> [] then '' message_id='' @ quoteattr (q_id m) else []) @ ''>'' @ [NL] @
           escape (q_content m) @ [NL] @ ''</teammate-message>'')"

definition format_teammate_message_batch :: "QueuedTeammateMessage list \<Rightarrow> string" where
  "format_teammate_message_batch ms =
     ''<teammate-messages count='' @ [DQUOTE] @ nat_digits (length ms) @ [DQUOTE] @ ''>'' @ [NL] @
     py_join [NL] (map batch_envelope ms) @ [NL] @ ''</teammate-messages>''"

definition encoded_size :: "string \<Rightarrow> nat" where
  "encoded_size s = utf8_len s"

definition inbox_size :: "QueuedTeammateMessage list \<Rightarrow> nat" where
  "inbox_size inbox = sum_list (map (\<lambda>m. encoded_size (q_xml m)) inbox)"

abbreviation MAX_TEAMMATE_MESSAGE_BYTES :: nat where "MAX_TEAMMATE_MESSAGE_BYTES \<equiv> 8192"
abbreviation MAX_TEAMMATE_INBOX_MESSAGES :: nat where "MAX_TEAMMATE_INBOX_MESSAGES \<equiv> 32"
abbreviation MAX_TEAMMATE_INBOX_BYTES :: nat where "MAX_TEAMMATE_INBOX_BYTES \<equiv> 65536"
abbreviation MAX_TEAMMATE_DELIVERY_BYTES :: nat where "MAX_TEAMMATE_DELIVERY_BYTES \<equiv> 16384"

definition delivery_text :: "QueuedTeammateMessage list \<Rightarrow> string" where
  "delivery_text ms = (case ms of [m] \<Rightarrow> q_xml m | _ \<Rightarrow> format_teammate_message_batch ms)"

fun extend_batch :: "QueuedTeammateMessage list \<Rightarrow> QueuedTeammateMessage list \<Rightarrow> QueuedTeammateMessage list" where
  "extend_batch batch [] = batch"
| "extend_batch batch (m # ms) =
     (if encoded_size (delivery_text (batch @ [m])) > MAX_TEAMMATE_DELIVERY_BYTES then batch
      else extend_batch (batch @ [m]) ms)"

definition bounded_message_batch :: "QueuedTeammateMessage list \<Rightarrow> QueuedTeammateMessage list" where
  "bounded_message_batch inbox = extend_batch [] inbox"

section \<open>State\<close>

record Office =
  team :: Team
  office_topology :: "Topology option"
  shutting_down :: bool
  message_inbox :: "(int \<times> QueuedTeammateMessage list) list"
  unanswered :: "(int \<times> (int \<times> string) list) list"
  inbox_holds :: "int set"
  cancelled_turns :: "int set"   \<comment> \<open>turns whose cancel event is set\<close>
  delivering :: "int set"        \<comment> \<open>sessions with an unfinished delivery task\<close>
  driving :: "int set"           \<comment> \<open>sessions with an unfinished driver\<close>
  turn_locked :: "int set"       \<comment> \<open>sessions whose turn lock is held\<close>

definition sess :: "Office \<Rightarrow> int \<Rightarrow> SessionState option" where
  "sess off a = map_option scb_state (get_scb (table (team off)) a)"

definition known :: "Office \<Rightarrow> int \<Rightarrow> bool" where
  "known off a = (a \<in> keys (sessions (team off)))"

definition set_sess :: "int \<Rightarrow> SessionState \<Rightarrow> Office \<Rightarrow> Office" where
  "set_sess a st off =
     (case get_scb (table (team off)) a of
        None \<Rightarrow> off
      | Some b \<Rightarrow> off\<lparr>team := (team off)\<lparr>table := (table (team off))\<lparr>entries :=
                    AList.update a (b\<lparr>scb_state := st\<rparr>) (entries (table (team off)))\<rparr>\<rparr>\<rparr>)"

definition upd_sess :: "int \<Rightarrow> (SessionState \<Rightarrow> SessionState) \<Rightarrow> Office \<Rightarrow> Office" where
  "upd_sess a f off = (case sess off a of None \<Rightarrow> off | Some st \<Rightarrow> set_sess a (f st) off)"

definition inbox_of :: "Office \<Rightarrow> int \<Rightarrow> QueuedTeammateMessage list" where
  "inbox_of off a = (case map_of (message_inbox off) a of None \<Rightarrow> [] | Some q \<Rightarrow> q)"

definition waiting_of :: "Office \<Rightarrow> int \<Rightarrow> (int \<times> string) list" where
  "waiting_of off a = (case map_of (unanswered off) a of None \<Rightarrow> [] | Some w \<Rightarrow> w)"

definition set_inbox :: "int \<Rightarrow> QueuedTeammateMessage list \<Rightarrow> Office \<Rightarrow> Office" where
  "set_inbox a q off = off\<lparr>message_inbox := AList.update a q (message_inbox off)\<rparr>"

definition set_waiting :: "int \<Rightarrow> (int \<times> string) list \<Rightarrow> Office \<Rightarrow> Office" where
  "set_waiting a w off = off\<lparr>unanswered := AList.update a w (unanswered off)\<rparr>"

definition role_val :: "string option \<Rightarrow> pyval" where
  "role_val r = (case r of None \<Rightarrow> VNone | Some s \<Rightarrow> VStr s)"

definition topology_forbids :: "Office \<Rightarrow> string option \<Rightarrow> string option \<Rightarrow> IdentityError + bool" where
  "topology_forbids off src dst =
     (case office_topology off of
        None \<Rightarrow> Inr False
      | Some t \<Rightarrow> bnd (allows t (role_val src) (role_val dst)) (\<lambda>ok. Inr (\<not> ok)))"

text \<open>\<open>_record_teammate_exchange\<close>: a reply closes the exchange it answers, otherwise one opens.\<close>

definition record_teammate_exchange :: "int \<Rightarrow> int \<Rightarrow> string \<Rightarrow> Office \<Rightarrow> Office" where
  "record_teammate_exchange from_aid to_aid message_id off =
     (case map_of (waiting_of off from_aid) to_aid of
        Some _ \<Rightarrow> set_waiting from_aid (AList.delete to_aid (waiting_of off from_aid)) off
      | None \<Rightarrow> set_waiting to_aid (AList.update from_aid message_id (waiting_of off to_aid)) off)"

section \<open>Routing of a durable message\<close>

datatype RouteReason =
    TargetChanged | RestoredSelf | SenderGone | TargetGone | SenderRoleChanged | SenderRoleMissing
  | TargetRoleChanged | TargetRoleMissing | NoticeSenderActive | NoticeMalformed | NoticeOtherSubject
  | KindInvalid | RouteForbidden

text \<open>\<open>xml_root\<close> gives the tag and the \<open>about\<close> attribute of an envelope, \<open>None\<close> for a xml_root error.\<close>

definition role_check :: "Office \<Rightarrow> bool \<Rightarrow> string option \<Rightarrow> string \<Rightarrow> RouteReason \<Rightarrow> RouteReason \<Rightarrow> IdentityError + RouteReason option" where
  "role_check off restored recorded current changed missing =
     (case recorded of
        Some r \<Rightarrow>
          if r \<noteq> [] then
            bnd (role_collision_key (VStr r)) (\<lambda>k. bnd (role_collision_key (VStr current)) (\<lambda>k'.
              Inr (if k \<noteq> k' then Some changed else None)))
          else Inr (if restored \<and> office_topology off \<noteq> None then Some missing else None)
      | None \<Rightarrow> Inr (if restored \<and> office_topology off \<noteq> None then Some missing else None))"

definition orElse :: "'e + 'r option \<Rightarrow> 'e + 'r option \<Rightarrow> 'e + 'r option" where
  "orElse x y = bnd x (\<lambda>r. case r of Some _ \<Rightarrow> Inr r | None \<Rightarrow> y)"

definition kind_check :: "(string \<Rightarrow> (string \<times> string option) option) \<Rightarrow> Office \<Rightarrow> SessionControlBlock \<Rightarrow> SessionControlBlock
   \<Rightarrow> QueuedTeammateMessage \<Rightarrow> IdentityError + RouteReason option" where
  "kind_check xml_root off sender target m =
     (case q_kind m of
        StopNotice \<Rightarrow>
          Inr (if phase (scb_state sender) \<notin> {STOPPED, ERROR} then Some NoticeSenderActive
               else case xml_root (q_xml m) of
                      None \<Rightarrow> Some NoticeMalformed
                    | Some (tag, about) \<Rightarrow>
                        if tag \<noteq> ''team-notice'' \<or> about \<noteq> Some (''A'' @ int_str (q_from m)) then Some NoticeOtherSubject
                        else None)
      | OtherKind _ \<Rightarrow> Inr (Some KindInvalid)
      | Teammate \<Rightarrow>
          bnd (topology_forbids off (Some (scb_agent_name sender)) (Some (scb_agent_name target))) (\<lambda>bad.
            Inr (if bad then Some RouteForbidden else None)))"

definition message_route_error ::
  "(string \<Rightarrow> (string \<times> string option) option) \<Rightarrow> Office \<Rightarrow> int \<Rightarrow> QueuedTeammateMessage \<Rightarrow> IdentityError + RouteReason option" where
  "message_route_error xml_root off a m =
     (if q_to m \<noteq> a then Inr (Some TargetChanged)
      else if q_from m = a then Inr (Some RestoredSelf)
      else case (get_scb (table (team off)) (q_from m), get_scb (table (team off)) a) of
             (None, _) \<Rightarrow> Inr (Some SenderGone)
           | (Some sender, target) \<Rightarrow>
               if \<not> known off (q_from m) then Inr (Some SenderGone)
               else case target of
                      None \<Rightarrow> Inr (Some TargetGone)
                    | Some target \<Rightarrow>
                        if \<not> known off a then Inr (Some TargetGone)
                        else orElse (role_check off (q_restored m) (q_from_role m) (scb_agent_name sender) SenderRoleChanged SenderRoleMissing)
                             (orElse (role_check off (q_restored m) (q_to_role m) (scb_agent_name target) TargetRoleChanged TargetRoleMissing)
                              (kind_check xml_root off sender target m)))"

definition route_detail :: "(string \<Rightarrow> string) \<Rightarrow> Office \<Rightarrow> int \<Rightarrow> QueuedTeammateMessage \<Rightarrow> RouteReason \<Rightarrow> string" where
  "route_detail repr off a m r =
     (let name = (\<lambda>x. case get_scb (table (team off)) x of Some b \<Rightarrow> repr (scb_agent_name b) | None \<Rightarrow> []);
          role = (\<lambda>x. case x of Some s \<Rightarrow> repr s | None \<Rightarrow> [])
      in case r of
           TargetChanged \<Rightarrow> ''restored target aid changed from '' @ int_str (q_to m) @ '' to '' @ int_str a
         | RestoredSelf \<Rightarrow> ''restored route would deliver a message to its sender''
         | SenderGone \<Rightarrow> ''restored sender aid '' @ int_str (q_from m) @ '' no longer exists''
         | TargetGone \<Rightarrow> ''restored target aid '' @ int_str a @ '' no longer exists''
         | SenderRoleChanged \<Rightarrow> ''restored sender role changed from '' @ role (q_from_role m) @ '' to '' @ name (q_from m)
         | SenderRoleMissing \<Rightarrow> ''restored message has no durable sender role identity''
         | TargetRoleChanged \<Rightarrow> ''restored target role changed from '' @ role (q_to_role m) @ '' to '' @ name a
         | TargetRoleMissing \<Rightarrow> ''restored message has no durable target role identity''
         | NoticeSenderActive \<Rightarrow> ''notice refers to an active teammate''
         | NoticeMalformed \<Rightarrow> ''notice envelope is malformed''
         | NoticeOtherSubject \<Rightarrow> ''notice envelope has a different subject''
         | KindInvalid \<Rightarrow> ''message kind is unknown''
         | RouteForbidden \<Rightarrow> ''restored route '' @ name (q_from m) @ '' to '' @ name a @ '' is forbidden by the current team topology'')"

text \<open>\<open>_mark_message_rejected\<close> and its bookkeeping.\<close>

definition same_message :: "QueuedTeammateMessage \<Rightarrow> message \<Rightarrow> bool" where
  "same_message m item =
     (if q_id m \<noteq> [] then get item ''message_id'' = VStr (q_id m)
      else get item ''content'' = VStr (q_xml m) \<and> get item ''from_aid'' = VInt (q_from m))"

fun update_first :: "('a \<Rightarrow> bool) \<Rightarrow> ('a \<Rightarrow> 'a) \<Rightarrow> 'a list \<Rightarrow> 'a list" where
  "update_first P f [] = []"
| "update_first P f (x # xs) = (if P x then f x # xs else x # update_first P f xs)"

definition mark_message_rejected :: "QueuedTeammateMessage \<Rightarrow> string \<Rightarrow> SessionState \<Rightarrow> SessionState" where
  "mark_message_rejected m reason st =
     st\<lparr>pending_user_messages := update_first (same_message m)
          (\<lambda>item. AList.update ''rejection_reason'' (VStr reason) (AList.update ''delivery_status'' (VStr ''rejected'') item))
          (pending_user_messages st)\<rparr>"

definition reject_message :: "int \<Rightarrow> QueuedTeammateMessage \<Rightarrow> string \<Rightarrow> Office \<Rightarrow> Office" where
  "reject_message a m reason off =
     (let off1 = upd_sess a (mark_message_rejected m reason) off
      in if map_of (waiting_of off1 a) (q_from m) = Some (q_id m)
         then set_waiting a (AList.delete (q_from m) (waiting_of off1 a)) off1 else off1)"

fun check_routes ::
  "(string \<Rightarrow> (string \<times> string option) option) \<Rightarrow> (string \<Rightarrow> string) \<Rightarrow> int \<Rightarrow> QueuedTeammateMessage list \<Rightarrow> Office
   \<Rightarrow> Office \<times> (IdentityError + QueuedTeammateMessage list)" where
  "check_routes xml_root repr a [] off = (off, Inr [])"
| "check_routes xml_root repr a (m # ms) off =
     (case message_route_error xml_root off a m of
        Inl e \<Rightarrow> (off, Inl e)
      | Inr None \<Rightarrow>
          (case check_routes xml_root repr a ms off of
             (off', Inr kept) \<Rightarrow> (off', Inr (m # kept))
           | (off', Inl e) \<Rightarrow> (off', Inl e))
      | Inr (Some r) \<Rightarrow> check_routes xml_root repr a ms (reject_message a m (route_detail repr off a m r) off))"

section \<open>Delivery\<close>

definition hold_status :: "bool \<Rightarrow> message \<Rightarrow> message" where
  "hold_status held item =
     (if get item ''delivery_status'' = VStr ''rejected'' then item
      else let status = (if held then ''held_after_cancel'' else ''pending'')
           in if (held \<or> get item ''delivery_status'' = VStr ''held_after_cancel'') \<and> get item ''delivery_status'' \<noteq> VStr status
              then AList.update ''delivery_status'' (VStr status) item else item)"

definition set_cancelled_turn_inbox_hold :: "int \<Rightarrow> bool \<Rightarrow> Office \<Rightarrow> Office" where
  "set_cancelled_turn_inbox_hold a held off =
     (let off1 = off\<lparr>inbox_holds := (if held then insert a (inbox_holds off) else inbox_holds off - {a})\<rparr>
      in if known off1 a
         then upd_sess a (\<lambda>st. st\<lparr>pending_user_messages := map (hold_status held) (pending_user_messages st)\<rparr>) off1
         else off1)"

text \<open>
  \<open>Session.add_user_message\<close>: the state after it and whether it returned.  The last failure is
  the event sink raising after the state has changed.
\<close>

definition add_user_message ::
  "Office \<Rightarrow> int \<Rightarrow> string \<Rightarrow> string \<Rightarrow> bool \<Rightarrow> string \<Rightarrow> SessionState \<Rightarrow> SessionState \<times> bool" where
  "add_user_message off a turn_id now emit_ok content st =
     (if a \<in> turn_locked off \<or> cleanup_tasks (team off) a \<noteq> {} \<or> pending_external_user_turn st \<noteq> None
        \<or> (phase st \<noteq> IDLE \<and> \<not> is_terminal (phase st))
      then (st, False)
      else
        let st1 = append_queued_external_user_turn turn_id now content (\<not> is_empty (pending_events st)) st
        in case reset_for_user_turn st1 of
             Inl _ \<Rightarrow> (st1, False)
           | Inr st2 \<Rightarrow> (st2, emit_ok))"

text \<open>\<open>_append_user_turn_txn\<close>: the office afterwards, and whether the append committed.\<close>

definition append_user_turn_txn ::
  "int \<Rightarrow> string \<Rightarrow> string \<Rightarrow> bool \<Rightarrow> string \<Rightarrow> (int \<times> int) option \<Rightarrow> Office \<Rightarrow> Office \<times> bool" where
  "append_user_turn_txn a turn_id now emit_ok content prior_lease off =
     (case sess off a of
        None \<Rightarrow> (off, False)
      | Some st \<Rightarrow>
          (case add_user_message off a turn_id now emit_ok content st of
             (st', True) \<Rightarrow> (set_sess a st' off, True)
           | (st', False) \<Rightarrow>
               let off1 = set_sess a (restore_user_turn (checkpoint_user_turn st) st') off;
                   off2 = off1\<lparr>team := fst (release_turn_lease a (team off1))\<rparr>
               in (if shutting_down off2 then off2
                   else (case restore_turn_lease a prior_lease (team off2) of
                           Inl _ \<Rightarrow> off2 | Inr t \<Rightarrow> off2\<lparr>team := t\<rparr>), False)))"

definition discard_delivered :: "QueuedTeammateMessage list \<Rightarrow> SessionState \<Rightarrow> SessionState" where
  "discard_delivered ms st =
     foldl (\<lambda>st m. if q_id m \<noteq> [] then discard_pending_user_message_id (q_id m) st
                   else discard_pending_user_message (q_xml m) st) st ms"

datatype DrainResult = DrainRaised | Drained "QueuedTeammateMessage list"

definition delivery_blocked :: "bool \<Rightarrow> int \<Rightarrow> SessionState \<Rightarrow> Office \<Rightarrow> bool" where
  "delivery_blocked own_driver a st off =
     (a \<in> delivering off \<or> (a \<in> driving off \<and> \<not> own_driver) \<or>
      phase st = AWAITING_EVENTS \<or> \<not> is_empty (pending_events st) \<or> pending_external_user_turn st \<noteq> None \<or>
      cleanup_tasks (team off) a \<noteq> {})"

text \<open>\<open>own_driver\<close>: the caller is the recipient's own driver and allows it.\<close>

definition deliver_batch ::
  "bool \<Rightarrow> int \<Rightarrow> string \<Rightarrow> string \<Rightarrow> bool \<Rightarrow> Office \<Rightarrow> Office \<times> DrainResult" where
  "deliver_batch own_driver a turn_id now emit_ok off =
     (let ms = bounded_message_batch (inbox_of off a)
      in if ms = [] \<or> shutting_down off then (off, Drained [])
         else case reserve_message_budget a (team off) of
                Inl _ \<Rightarrow> (off, DrainRaised)
              | Inr (t, False) \<Rightarrow> (off\<lparr>team := t\<rparr>, Drained [])
              | Inr (t, True) \<Rightarrow>
                  (case append_user_turn_txn a turn_id now emit_ok (delivery_text ms) (current_turn_lease (team off) a) (off\<lparr>team := t\<rparr>) of
                     (off1, False) \<Rightarrow> (off1, DrainRaised)
                   | (off1, True) \<Rightarrow>
                       let off2 = set_inbox a (drop (length ms) (inbox_of off1 a)) off1;
                           off3 = upd_sess a (discard_delivered ms) off2
                       in if shutting_down off3
                          then (off3\<lparr>team := fst (release_turn_lease a (team off3))\<rparr>, Drained ms)
                          else (off3\<lparr>driving := insert a (driving off3)\<rparr>, Drained ms)))"

text \<open>The rest of a drain once the inbox holds only the messages whose route is valid.\<close>

definition drain_routed ::
  "bool \<Rightarrow> int \<Rightarrow> string \<Rightarrow> string \<Rightarrow> bool \<Rightarrow> Office \<Rightarrow> Office \<times> DrainResult" where
  "drain_routed own_driver a turn_id now emit_ok off =
     (if inbox_of off a = [] then (off, Drained [])
      else case sess off a of
             None \<Rightarrow> (off, Drained [])
           | Some st \<Rightarrow>
               if (a \<in> cancelled_turns off \<and> is_terminal (phase st)) \<or> a \<in> inbox_holds off
               then (set_cancelled_turn_inbox_hold a True off, Drained [])
               else if delivery_blocked own_driver a st off then (off, Drained [])
               else deliver_batch own_driver a turn_id now emit_ok off)"

definition drain_message_inbox_locked ::
  "(string \<Rightarrow> (string \<times> string option) option) \<Rightarrow> (string \<Rightarrow> string) \<Rightarrow> bool \<Rightarrow> int \<Rightarrow> string \<Rightarrow> string \<Rightarrow> bool \<Rightarrow> Office
   \<Rightarrow> Office \<times> DrainResult" where
  "drain_message_inbox_locked xml_root repr own_driver a turn_id now emit_ok off =
     (if inbox_of off a = [] \<or> \<not> known off a \<or> sess off a = None then (off, Drained [])
      else case check_routes xml_root repr a (inbox_of off a) off of
             (off1, Inl _) \<Rightarrow> (off1, DrainRaised)
           | (off1, Inr kept) \<Rightarrow> drain_routed own_driver a turn_id now emit_ok (set_inbox a kept off1))"

section \<open>Sending\<close>

datatype SendReason =
    SelfMessage | SchedulerShuttingDown | UnknownSender | UnknownRecipient | TopologyForbidden
  | MessageTooLarge | InboxMessageLimit | InboxByteLimit

datatype SendResult = Refused SendReason | SendRaised | Sent "QueuedTeammateMessage list"

definition send_refusal :: "int \<Rightarrow> int \<Rightarrow> Office \<Rightarrow> IdentityError + SendReason option" where
  "send_refusal from_aid to_aid off =
     (if to_aid = from_aid then Inr (Some SelfMessage)
      else if shutting_down off then Inr (Some SchedulerShuttingDown)
      else if \<not> known off from_aid \<or> sess off from_aid = None then Inr (Some UnknownSender)
      else if \<not> known off to_aid then Inr (Some UnknownRecipient)
      else bnd (topology_forbids off (role_of (team off) from_aid) (role_of (team off) to_aid)) (\<lambda>bad.
             Inr (if bad then Some TopologyForbidden else None)))"

definition size_refusal :: "string \<Rightarrow> QueuedTeammateMessage list \<Rightarrow> SendReason option" where
  "size_refusal xml inbox =
     (if encoded_size xml > MAX_TEAMMATE_MESSAGE_BYTES then Some MessageTooLarge
      else if length inbox \<ge> MAX_TEAMMATE_INBOX_MESSAGES then Some InboxMessageLimit
      else if inbox_size inbox + encoded_size xml > MAX_TEAMMATE_INBOX_BYTES then Some InboxByteLimit
      else None)"

definition pending_record :: "QueuedTeammateMessage \<Rightarrow> message" where
  "pending_record m =
     [(''role'', VStr ''user''), (''content'', VStr (q_xml m)), (''message_content'', VStr (q_content m)),
      (''from_aid'', VInt (q_from m)), (''to_aid'', VInt (q_to m)), (''from_role'', role_val (q_from_role m)),
      (''to_role'', role_val (q_to_role m)), (''summary'', VStr (q_summary m)), (''message_id'', VStr (q_id m)),
      (''delivery_status'', VStr ''pending'')] @ (if q_kind m = StopNotice then [(''kind'', VStr ''stop_notice'')] else [])"

text \<open>
  Queue a message for its target: the durable record first, then the inbox.  A recipient known to
  the scheduler has a control block, the state the record is kept in.
\<close>

definition enqueue_message :: "string \<Rightarrow> QueuedTeammateMessage \<Rightarrow> Office \<Rightarrow> Office" where
  "enqueue_message now m off =
     (let off1 = upd_sess (q_to m) (queue_pending_user_message now (pending_record m)) off
      in set_inbox (q_to m) (inbox_of off1 (q_to m) @ [m]) off1)"

definition send_message ::
  "(string \<Rightarrow> (string \<times> string option) option) \<Rightarrow> (string \<Rightarrow> string) \<Rightarrow> string \<Rightarrow> string \<Rightarrow> string \<Rightarrow> bool
   \<Rightarrow> int \<Rightarrow> int \<Rightarrow> string \<Rightarrow> string \<Rightarrow> Office \<Rightarrow> Office \<times> SendResult" where
  "send_message xml_root repr message_id turn_id now emit_ok from_aid to_aid summary content off =
     (case send_refusal from_aid to_aid off of
        Inl _ \<Rightarrow> (off, SendRaised)
      | Inr (Some r) \<Rightarrow> (off, Refused r)
      | Inr None \<Rightarrow>
          let xml = format_teammate_message from_aid summary content message_id
          in case size_refusal xml (inbox_of off to_aid) of
               Some r \<Rightarrow> (off, Refused r)
             | None \<Rightarrow>
                 let m = \<lparr>q_from = from_aid, q_to = to_aid, q_summary = summary, q_content = content, q_xml = xml,
                          q_sent_at = now, q_id = message_id, q_from_role = role_of (team off) from_aid,
                          q_to_role = role_of (team off) to_aid, q_restored = False, q_kind = Teammate\<rparr>;
                     off1 = record_teammate_exchange from_aid to_aid message_id (enqueue_message now m off)
                 in case drain_message_inbox_locked xml_root repr False to_aid turn_id now emit_ok off1 of
                      (off2, DrainRaised) \<Rightarrow> (off2, SendRaised)
                    | (off2, Drained ms) \<Rightarrow> (off2, Sent ms))"

section \<open>Stop notices\<close>

definition failed_phase :: "SessionState \<Rightarrow> bool" where
  "failed_phase st = (phase st \<in> {STOPPED, ERROR})"

definition shorten :: "string \<Rightarrow> string" where
  "shorten s = (let n = MAX_TEAMMATE_MESSAGE_BYTES div 16 in if length s > n then take n s @ '' [truncated]'' else s)"

definition stop_content :: "string \<Rightarrow> int \<Rightarrow> string \<Rightarrow> string" where
  "stop_content role a reason =
     role @ '' (A'' @ int_str a @ '') has stopped and will not answer your last message. Reason recorded by the runtime: '' @
     shorten reason"

definition with_extra :: "string \<Rightarrow> string option \<Rightarrow> string" where
  "with_extra content extra =
     (case extra of Some e \<Rightarrow> if e \<noteq> [] then content @ [NL, NL] @ e else content | None \<Rightarrow> content)"

text \<open>
  \<open>peek\<close> and \<open>retain\<close> are what \<open>_notice_recovery_location\<close> answers without and with keeping the
  changes.  The result is the content and its envelope.
\<close>

definition build_notice ::
  "string option \<Rightarrow> string option \<Rightarrow> string option \<Rightarrow> int \<Rightarrow> string \<Rightarrow> string \<Rightarrow> string \<Rightarrow> string \<times> string" where
  "build_notice peek retain partial_result a role message_id reason =
     (let content = stop_content role a reason;
          extra = (case partial_result of
                     Some r \<Rightarrow> Some r
                   | None \<Rightarrow> (case peek of
                               Some l \<Rightarrow> if l \<noteq> [] then Some (''[Partial changes retained at '' @ l @ '']'') else None
                             | None \<Rightarrow> None));
          xml = notice_xml a role message_id (with_extra content extra)
      in if encoded_size xml \<le> MAX_TEAMMATE_MESSAGE_BYTES then (with_extra content extra, xml)
         else
           let extra' = shorten (case retain of
                  Some l \<Rightarrow> if l \<noteq> [] then ''[Full partial changes retained at '' @ l @ '']''
                            else ''[Partial result exceeds the teammate message limit.]''
                | None \<Rightarrow> ''[Partial result exceeds the teammate message limit.]'')
           in (with_extra content (Some extra'), notice_xml a role message_id (content @ [NL, NL] @ extra')))"

record NoticeInput =
  n_peek :: "string option"
  n_retain :: "string option"
  n_partial :: "string option"
  n_message_id :: "int \<Rightarrow> string"
  n_turn_id :: string
  n_now :: string
  n_emit_ok :: bool

datatype NoticeResult = NextSender | StopNotifying | NoticeRaised

definition notify_one ::
  "(string \<Rightarrow> (string \<times> string option) option) \<Rightarrow> (string \<Rightarrow> string) \<Rightarrow> NoticeInput \<Rightarrow> int \<Rightarrow> string \<Rightarrow> string
   \<Rightarrow> int \<times> string \<Rightarrow> Office \<Rightarrow> Office \<times> NoticeResult" where
  "notify_one xml_root repr inp a role reason waiting off =
     (case waiting of (to_aid, unanswered_id) \<Rightarrow>
        if map_of (waiting_of off a) to_aid \<noteq> Some unanswered_id then (off, NextSender)
        else if \<not> (case sess off a of Some st \<Rightarrow> failed_phase st | None \<Rightarrow> False) then (off, StopNotifying)
        else if a \<notin> inbox_holds off \<and> list_ex (\<lambda>m. q_id m = unanswered_id) (inbox_of off a) then (off, NextSender)
        else if shutting_down off then (off, StopNotifying)
        else if \<not> known off to_aid \<or> (case sess off to_aid of Some st \<Rightarrow> failed_phase st | None \<Rightarrow> True)
        then (set_waiting a (AList.delete to_aid (waiting_of off a)) off, NextSender)
        else
          case build_notice (n_peek inp) (n_retain inp) (n_partial inp) a role (n_message_id inp to_aid) reason of
            (content, xml) \<Rightarrow>
              if length (inbox_of off to_aid) \<ge> MAX_TEAMMATE_INBOX_MESSAGES \<or>
                 inbox_size (inbox_of off to_aid) + encoded_size xml > MAX_TEAMMATE_INBOX_BYTES
              then (off, NextSender)
              else
                let m = \<lparr>q_from = a, q_to = to_aid, q_summary = role @ '' stopped'', q_content = content, q_xml = xml,
                         q_sent_at = n_now inp, q_id = n_message_id inp to_aid, q_from_role = Some role,
                         q_to_role = role_of (team off) to_aid, q_restored = False, q_kind = StopNotice\<rparr>;
                    off1 = enqueue_message (n_now inp) m off;
                    off2 = set_waiting a (AList.delete to_aid (waiting_of off1 a)) off1
                in case drain_message_inbox_locked xml_root repr False to_aid (n_turn_id inp) (n_now inp) (n_emit_ok inp) off2 of
                     (off3, DrainRaised) \<Rightarrow> (off3, NoticeRaised)
                   | (off3, Drained _) \<Rightarrow> (off3, NextSender))"

fun notify_loop ::
  "(string \<Rightarrow> (string \<times> string option) option) \<Rightarrow> (string \<Rightarrow> string) \<Rightarrow> NoticeInput \<Rightarrow> int \<Rightarrow> string \<Rightarrow> string
   \<Rightarrow> (int \<times> string) list \<Rightarrow> Office \<Rightarrow> Office" where
  "notify_loop xml_root repr inp a role reason [] off = off"
| "notify_loop xml_root repr inp a role reason (w # ws) off =
     (case notify_one xml_root repr inp a role reason w off of
        (off', NextSender) \<Rightarrow> notify_loop xml_root repr inp a role reason ws off'
      | (off', _) \<Rightarrow> off')"

definition notify_unanswered_senders ::
  "(string \<Rightarrow> (string \<times> string option) option) \<Rightarrow> (string \<Rightarrow> string) \<Rightarrow> NoticeInput \<Rightarrow> int \<Rightarrow> string \<Rightarrow> Office \<Rightarrow> Office" where
  "notify_unanswered_senders xml_root repr inp a reason0 off =
     (case get_scb (table (team off)) a of
        None \<Rightarrow> off
      | Some b \<Rightarrow>
          if \<not> failed_phase (scb_state b) \<or> waiting_of off a = [] \<or> shutting_down off then off
          else case validate_role_identity (VStr (scb_agent_name b)) of
                 Inl _ \<Rightarrow> off
               | Inr role \<Rightarrow>
                   notify_loop xml_root repr inp a role (or_default (terminal_reason (scb_state b)) reason0) (waiting_of off a) off)"

end
