(* ===== verification/Mailbox.thy ===== *)
theory Mailbox
  imports Messaging
begin

text \<open>
  Properties of teammate messaging: what a delivery does to the inbox and to the history, the bounds
  of every inbox, the bookkeeping of unanswered exchanges, and the envelopes.
\<close>

section \<open>Frames\<close>

lemma get_scb_set_sess:
  "get_scb (table (team (set_sess a st off))) b =
     (if b = a then map_option (\<lambda>x. x\<lparr>scb_state := st\<rparr>) (get_scb (table (team off)) a) else get_scb (table (team off)) b)"
  by (simp add: set_sess_def get_scb_def update_conv split: option.split)

lemma set_sess_frame [simp]:
  "message_inbox (set_sess a st off) = message_inbox off" "unanswered (set_sess a st off) = unanswered off"
  "shutting_down (set_sess a st off) = shutting_down off" "inbox_holds (set_sess a st off) = inbox_holds off"
  "cancelled_turns (set_sess a st off) = cancelled_turns off" "delivering (set_sess a st off) = delivering off"
  "driving (set_sess a st off) = driving off" "turn_locked (set_sess a st off) = turn_locked off"
  "office_topology (set_sess a st off) = office_topology off" "sessions (team (set_sess a st off)) = sessions (team off)"
  by (simp_all add: set_sess_def split: option.split)

lemma upd_sess_frame [simp]:
  "message_inbox (upd_sess a f off) = message_inbox off" "unanswered (upd_sess a f off) = unanswered off"
  "shutting_down (upd_sess a f off) = shutting_down off" "inbox_holds (upd_sess a f off) = inbox_holds off"
  "cancelled_turns (upd_sess a f off) = cancelled_turns off" "delivering (upd_sess a f off) = delivering off"
  "driving (upd_sess a f off) = driving off" "turn_locked (upd_sess a f off) = turn_locked off"
  "office_topology (upd_sess a f off) = office_topology off" "sessions (team (upd_sess a f off)) = sessions (team off)"
  by (simp_all add: upd_sess_def split: option.split)

lemma sess_set_sess: "sess (set_sess a st off) b = (if b = a then map_option (\<lambda>_. st) (sess off a) else sess off b)"
  by (simp add: sess_def get_scb_set_sess option.map_comp comp_def)

lemma sess_upd_sess: "sess (upd_sess a f off) b = (if b = a then map_option f (sess off a) else sess off b)"
  by (simp add: upd_sess_def sess_set_sess split: option.split)

lemma sess_frame [simp]:
  "sess (set_inbox a q off) = sess off" "sess (set_waiting a w off) = sess off"
  "sess (off\<lparr>inbox_holds := h\<rparr>) = sess off" "sess (off\<lparr>driving := d\<rparr>) = sess off"
  by (simp_all add: sess_def set_inbox_def set_waiting_def fun_eq_iff)

lemma inbox_frame [simp]:
  "inbox_of (set_sess a st off) = inbox_of off" "inbox_of (upd_sess a f off) = inbox_of off"
  "inbox_of (set_waiting a w off) = inbox_of off" "inbox_of (off\<lparr>team := t\<rparr>) = inbox_of off"
  "inbox_of (off\<lparr>inbox_holds := h\<rparr>) = inbox_of off" "inbox_of (off\<lparr>driving := d\<rparr>) = inbox_of off"
  by (simp_all add: inbox_of_def fun_eq_iff set_waiting_def)

lemma waiting_frame [simp]:
  "waiting_of (set_sess a st off) = waiting_of off" "waiting_of (upd_sess a f off) = waiting_of off"
  "waiting_of (set_inbox a q off) = waiting_of off" "waiting_of (off\<lparr>team := t\<rparr>) = waiting_of off"
  "waiting_of (off\<lparr>inbox_holds := h\<rparr>) = waiting_of off" "waiting_of (off\<lparr>driving := d\<rparr>) = waiting_of off"
  by (simp_all add: waiting_of_def fun_eq_iff set_inbox_def)

lemma inbox_set [simp]: "inbox_of (set_inbox a q off) b = (if b = a then q else inbox_of off b)"
  by (simp add: inbox_of_def set_inbox_def update_conv)

lemma waiting_set [simp]: "waiting_of (set_waiting a w off) b = (if b = a then w else waiting_of off b)"
  by (simp add: waiting_of_def set_waiting_def update_conv)

lemma set_inbox_frame [simp]:
  "team (set_inbox a q off) = team off" "driving (set_inbox a q off) = driving off"
  "shutting_down (set_inbox a q off) = shutting_down off" "inbox_holds (set_inbox a q off) = inbox_holds off"
  "office_topology (set_inbox a q off) = office_topology off" "cancelled_turns (set_inbox a q off) = cancelled_turns off"
  by (simp_all add: set_inbox_def)

lemma set_waiting_frame [simp]:
  "team (set_waiting a w off) = team off" "driving (set_waiting a w off) = driving off"
  "shutting_down (set_waiting a w off) = shutting_down off" "inbox_holds (set_waiting a w off) = inbox_holds off"
  "office_topology (set_waiting a w off) = office_topology off" "cancelled_turns (set_waiting a w off) = cancelled_turns off"
  by (simp_all add: set_waiting_def)

text \<open>Lease operations leave the table of control blocks alone.\<close>

lemma release_table [simp]: "table (fst (release_turn_lease a t)) = table t"
  by (simp add: release_turn_lease_def)

lemma restore_table: "restore_turn_lease a l t = Inr t' \<Longrightarrow> table t' = table t"
  by (auto simp: restore_turn_lease_def Let_def bnd_Inr_iff split: option.splits prod.splits)

lemma reserve_turn_table: "reserve_turn_lease a t = Inr (t', g) \<Longrightarrow> table t' = table t"
  by (auto simp: reserve_turn_lease_def Let_def bnd_Inr_iff release_turn_lease_def split: option.splits)

lemma reserve_child_table: "reserve_child_budget a r t = Inr (t', g) \<Longrightarrow> table t' = table t"
  by (auto simp: reserve_child_budget_def Let_def bnd_Inr_iff split: option.splits)

lemma reserve_message_table: "reserve_message_budget a t = Inr (t', b) \<Longrightarrow> table t' = table t"
  by (auto simp: reserve_message_budget_def Let_def bnd_Inr_iff release_turn_lease_def
      dest: reserve_turn_table reserve_child_table split: option.splits if_splits)

lemma sess_team: "table t = table (team off) \<Longrightarrow> sess (off\<lparr>team := t\<rparr>) = sess off"
  by (simp add: sess_def fun_eq_iff)

section \<open>Routing\<close>

text \<open>A route depends on names, phases, membership and the topology only.\<close>

definition same_roster :: "Office \<Rightarrow> Office \<Rightarrow> bool" where
  "same_roster x y = (office_topology x = office_topology y \<and> sessions (team x) = sessions (team y) \<and>
     (\<forall>a. map_option (\<lambda>b. (scb_agent_name b, phase (scb_state b))) (get_scb (table (team x)) a) =
          map_option (\<lambda>b. (scb_agent_name b, phase (scb_state b))) (get_scb (table (team y)) a)))"

lemma same_roster_refl: "same_roster x x" by (simp add: same_roster_def)

lemma same_roster_trans: "same_roster x y \<Longrightarrow> same_roster y z \<Longrightarrow> same_roster x z" by (simp add: same_roster_def)

lemma upd_sess_roster:
  assumes "\<And>st. phase (f st) = phase st"
  shows "same_roster (upd_sess a f off) off"
proof (cases "get_scb (table (team off)) a")
  case None
  then show ?thesis by (simp add: upd_sess_def sess_def same_roster_refl)
next
  case (Some b)
  then show ?thesis
    using assms by (simp add: same_roster_def upd_sess_def sess_def get_scb_set_sess)
qed

lemma reject_roster: "same_roster (reject_message a m reason off) off"
proof -
  have u: "same_roster (upd_sess a (mark_message_rejected m reason) off) off"
    by (rule upd_sess_roster) (simp add: mark_message_rejected_def)
  moreover have "same_roster (set_waiting a w x) x" for w x by (simp add: same_roster_def)
  ultimately show ?thesis by (auto simp: reject_message_def Let_def intro: same_roster_trans)
qed

lemma route_roster:
  assumes "same_roster x y"
  shows "message_route_error xml_root x a m = message_route_error xml_root y a m"
proof -
  have top: "office_topology x = office_topology y" and ses: "sessions (team x) = sessions (team y)"
    and scb: "map_option (\<lambda>b. (scb_agent_name b, phase (scb_state b))) (get_scb (table (team x)) c) =
      map_option (\<lambda>b. (scb_agent_name b, phase (scb_state b))) (get_scb (table (team y)) c)" for c
    using assms by (simp_all add: same_roster_def)
  have rc: "role_check x = role_check y" by (simp add: fun_eq_iff role_check_def top split: option.split)
  have kc: "kind_check xml_root x s t m = kind_check xml_root y s' t' m"
    if "scb_agent_name s = scb_agent_name s'" "phase (scb_state s) = phase (scb_state s')" "scb_agent_name t = scb_agent_name t'" for s s' t t'
    using that by (simp add: kind_check_def topology_forbids_def top split: MessageKind.split)
  have kn: "known x = known y" by (simp add: known_def fun_eq_iff ses)
  show ?thesis
    using scb [of "q_from m"] scb [of a] kc
    by (cases "get_scb (table (team x)) (q_from m)"; cases "get_scb (table (team y)) (q_from m)";
        cases "get_scb (table (team x)) a"; cases "get_scb (table (team y)) a")
      (simp_all add: message_route_error_def rc kn)
qed

text \<open>The route checks keep exactly the messages whose route is valid and touch only the sidecar.\<close>

definition routable :: "(string \<Rightarrow> (string \<times> string option) option) \<Rightarrow> Office \<Rightarrow> int \<Rightarrow> QueuedTeammateMessage \<Rightarrow> bool" where
  "routable xml_root off a m = (message_route_error xml_root off a m = Inr None)"

definition pending_only :: "SessionState \<Rightarrow> SessionState \<Rightarrow> bool" where
  "pending_only st st' = (st' = st\<lparr>pending_user_messages := pending_user_messages st'\<rparr>)"

lemma pending_only_refl [simp]: "pending_only st st" by (simp add: pending_only_def)

lemma pending_only_trans: "pending_only x y \<Longrightarrow> pending_only y z \<Longrightarrow> pending_only x z"
  unfolding pending_only_def by (metis SessionState.surjective SessionState.update_convs(17))

lemma reject_effect:
  "inbox_of (reject_message a m r off) = inbox_of off"
  "team (reject_message a m r off) = team (upd_sess a (mark_message_rejected m r) off)"
  "driving (reject_message a m r off) = driving off" "shutting_down (reject_message a m r off) = shutting_down off"
  "inbox_holds (reject_message a m r off) = inbox_holds off"
  by (simp_all add: reject_message_def Let_def)

lemma reject_sess: "sess off a = Some st \<Longrightarrow> \<exists>st'. sess (reject_message a m r off) a = Some st' \<and> pending_only st st'"
  by (simp add: reject_message_def Let_def sess_upd_sess mark_message_rejected_def pending_only_def)

lemma check_routes_ok:
  assumes "check_routes xml_root repr a ms off = (off', res)" and "sess off a = Some st"
  shows "(\<forall>kept. res = Inr kept \<longrightarrow> kept = filter (routable xml_root off a) ms) \<and> inbox_of off' = inbox_of off \<and>
    same_roster off' off \<and> shutting_down off' = shutting_down off \<and> driving off' = driving off \<and>
    (\<exists>st'. sess off' a = Some st' \<and> pending_only st st')"
  using assms
proof (induction ms arbitrary: off off' res st)
  case (Cons m ms)
  show ?case
  proof (cases "message_route_error xml_root off a m")
    case (Inl e)
    then show ?thesis using Cons.prems by (auto simp: same_roster_refl)
  next
    case (Inr r)
    show ?thesis
    proof (cases r)
      case None
      obtain o1 res1 where c: "check_routes xml_root repr a ms off = (o1, res1)" by fastforce
      have "off' = o1 \<and> (\<forall>kept. res = Inr kept \<longrightarrow> (\<exists>k. res1 = Inr k \<and> kept = m # k))"
        using Cons.prems(1) Inr None c by (auto split: sum.splits)
      then show ?thesis using Cons.IH [OF c Cons.prems(2)] Inr None by (auto simp: routable_def)
    next
      case (Some x)
      let ?o = "reject_message a m (route_detail repr off a m x) off"
      have c: "check_routes xml_root repr a ms ?o = (off', res)" using Cons.prems(1) Inr Some by simp
      obtain st1 where st1: "sess ?o a = Some st1" "pending_only st st1" using reject_sess [OF Cons.prems(2)] by blast
      have ro: "same_roster ?o off" by (rule reject_roster)
      have "routable xml_root ?o a = routable xml_root off a" by (simp add: fun_eq_iff routable_def route_roster [OF ro])
      moreover have "\<not> routable xml_root off a m" using Inr Some by (simp add: routable_def)
      ultimately show ?thesis
        using Cons.IH [OF c st1(1)] same_roster_trans [OF _ ro] pending_only_trans [OF st1(2)] by (auto simp: reject_effect)
    qed
  qed
qed (auto simp: same_roster_refl)

section \<open>Delivery\<close>

definition user_turn :: "string \<Rightarrow> message" where
  "user_turn content = [(''role'', VStr ''user''), (''content'', VStr content)]"

lemma add_user_message_ok:
  assumes "add_user_message off a turn_id now emit_ok content st = (st', ok)" and "is_empty (pending_events st)"
  shows "restore_user_turn (checkpoint_user_turn st) st' = st \<and>
    (ok \<longrightarrow> messages st' = messages st @ [user_turn content] \<and> pending_user_messages st' = pending_user_messages st \<and> phase st' = IDLE)"
proof (cases "a \<in> turn_locked off \<or> cleanup_tasks (team off) a \<noteq> {} \<or> pending_external_user_turn st \<noteq> None
    \<or> (phase st \<noteq> IDLE \<and> \<not> is_terminal (phase st))")
  case True
  then show ?thesis using assms(1) by (auto simp: add_user_message_def restore_checkpoint)
next
  case False
  define st1 where "st1 = append_queued_external_user_turn turn_id now content False st"
  obtain tr where r: "reset_for_user_turn st1 = Inr (st1\<lparr>phase := (if is_terminal (phase st1) then IDLE else phase st1),
     terminal_reason := tr, turn := fresh_turn, wind_down_done := False, wind_down_attempts := 0,
     wind_down_token_mark := 0, pending_step_latency := None, submitted_summary := None\<rparr>)" (is "_ = Inr ?st2")
    using reset_for_user_turn_Inr by blast
  have "add_user_message off a turn_id now emit_ok content st = (?st2, emit_ok)"
    using assms(2) unfolding add_user_message_def if_not_P [OF False] by (simp add: st1_def [symmetric] r)
  then have st': "st' = ?st2" "ok = emit_ok" using assms(1) by (simp_all only: prod.inject)
  have "restore_user_turn (checkpoint_user_turn st) (foldl session_step st [OpExternal turn_id now content False, OpReset]) =
      restore_user_turn (checkpoint_user_turn st) st"
    by (rule restore_run) (simp_all add: checkpoint_user_turn_def)
  moreover have "foldl session_step st [OpExternal turn_id now content False, OpReset] = ?st2"
    using r by (simp add: st1_def or_same_def)
  ultimately have "restore_user_turn (checkpoint_user_turn st) st' = st" by (simp only: st'(1) restore_checkpoint)
  moreover have "messages ?st2 = messages st @ [user_turn content] \<and> pending_user_messages ?st2 = pending_user_messages st \<and> phase ?st2 = IDLE"
    using False by (auto simp: st1_def append_queued_external_user_turn_def append_message_def user_turn_def Let_def)
  ultimately show ?thesis using st'(1) by blast
qed

lemma append_txn_ok:
  assumes "append_user_turn_txn a turn_id now emit_ok content prior off = (off', ok)"
    and "sess off a = Some st" and "is_empty (pending_events st)"
  shows "inbox_of off' = inbox_of off \<and> waiting_of off' = waiting_of off \<and> shutting_down off' = shutting_down off \<and>
    (\<exists>st'. sess off' a = Some st' \<and>
      (if ok then messages st' = messages st @ [user_turn content] \<and> pending_user_messages st' = pending_user_messages st \<and> phase st' = IDLE
       else st' = st))"
proof -
  obtain st1 ok1 where add: "add_user_message off a turn_id now emit_ok content st = (st1, ok1)" by fastforce
  note ok_facts = add_user_message_ok [OF add assms(3)]
  show ?thesis
  proof (cases ok1)
    case True
    then have "off' = set_sess a st1 off \<and> ok" using assms(1,2) add by (simp add: append_user_turn_txn_def)
    then show ?thesis using ok_facts True assms(2) by (simp add: sess_set_sess)
  next
    case False
    then have add': "add_user_message off a turn_id now emit_ok content st = (st1, False)" using add by simp
    have rolled: "restore_user_turn (checkpoint_user_turn st) st1 = st" using ok_facts by blast
    define o1 where "o1 = set_sess a st off"
    define o2 where "o2 = o1\<lparr>team := fst (release_turn_lease a (team o1))\<rparr>"
    have off': "off' = (if shutting_down o2 then o2 else case restore_turn_lease a prior (team o2) of Inl _ \<Rightarrow> o2 | Inr t \<Rightarrow> o2\<lparr>team := t\<rparr>)"
      and nok: "\<not> ok"
      using assms(1)
      unfolding append_user_turn_txn_def assms(2) option.case add' prod.case bool.case Let_def rolled
        o1_def [symmetric] o2_def [symmetric]
      by simp_all
    have s2: "sess o2 = sess o1" "sess o1 a = Some st"
      using assms(2) by (simp_all add: o2_def sess_team o1_def sess_set_sess)
    have i2: "inbox_of o2 = inbox_of off" "waiting_of o2 = waiting_of off" "shutting_down o2 = shutting_down off"
      by (simp_all add: o2_def o1_def)
    have "sess (o2\<lparr>team := t\<rparr>) = sess o2" if "restore_turn_lease a prior (team o2) = Inr t" for t
      using restore_table [OF that] by (rule sess_team)
    then show ?thesis using off' nok s2 i2 by (auto split: sum.split if_splits)
  qed
qed

lemma discard_pending_only: "pending_only st (discard_delivered ms st)"
proof (induction ms arbitrary: st)
  case (Cons m ms)
  have "pending_only st (if q_id m \<noteq> [] then discard_pending_user_message_id (q_id m) st else discard_pending_user_message (q_xml m) st)"
    by (simp add: pending_only_def discard_pending_user_message_def discard_pending_user_message_id_def)
  then show ?case using Cons pending_only_trans by (simp add: discard_delivered_def)
qed (simp add: discard_delivered_def)

lemma extend_batch_prefix:
  "b = [] \<or> encoded_size (delivery_text b) \<le> MAX_TEAMMATE_DELIVERY_BYTES \<Longrightarrow>
   prefix (extend_batch b ms) (b @ ms) \<and>
   (extend_batch b ms = [] \<or> encoded_size (delivery_text (extend_batch b ms)) \<le> MAX_TEAMMATE_DELIVERY_BYTES)"
proof (induction ms arbitrary: b)
  case (Cons m ms)
  then show ?case using Cons.IH [of "b @ [m]"] by auto
qed simp

lemma bounded_batch:
  "prefix (bounded_message_batch q) q"
  "bounded_message_batch q \<noteq> [] \<Longrightarrow> encoded_size (delivery_text (bounded_message_batch q)) \<le> MAX_TEAMMATE_DELIVERY_BYTES"
  using extend_batch_prefix [of "[]" q] by (auto simp: bounded_message_batch_def)

text \<open>The outcome of a delivery, for the recipient's inbox and session.\<close>

definition delivered :: "QueuedTeammateMessage list \<Rightarrow> Office \<Rightarrow> int \<Rightarrow> SessionState \<Rightarrow> SessionState \<Rightarrow> bool" where
  "delivered ms off' a st st' =
     (encoded_size (delivery_text ms) \<le> MAX_TEAMMATE_DELIVERY_BYTES \<and>
      messages st' = messages st @ [user_turn (delivery_text ms)] \<and> phase st' = IDLE \<and> a \<in> driving off')"

lemma deliver_batch_ok:
  assumes "deliver_batch own_driver a turn_id now emit_ok off = (off', res)"
    and "sess off a = Some st" and "is_empty (pending_events st)"
  shows "(\<forall>b. b \<noteq> a \<longrightarrow> inbox_of off' b = inbox_of off b) \<and> waiting_of off' = waiting_of off \<and>
    (\<exists>st'. sess off' a = Some st' \<and>
      (case res of
         DrainRaised \<Rightarrow> inbox_of off' a = inbox_of off a \<and> st' = st
       | Drained ms \<Rightarrow> ms @ inbox_of off' a = inbox_of off a \<and> (if ms = [] then st' = st else delivered ms off' a st st')))"
proof -
  let ?q = "inbox_of off a"
  define ms where "ms = bounded_message_batch ?q"
  show ?thesis
  proof (cases "ms = [] \<or> shutting_down off")
    case True
    then show ?thesis using assms(1,2) by (auto simp: deliver_batch_def ms_def)
  next
    case go: False
    show ?thesis
    proof (cases "reserve_message_budget a (team off)")
      case (Inl e)
      then show ?thesis using assms(1,2) go by (auto simp: deliver_batch_def ms_def)
    next
      case (Inr p)
      obtain t granted where p: "p = (t, granted)" by fastforce
      have st: "sess (off\<lparr>team := t\<rparr>) a = Some st" using sess_team [OF reserve_message_table] Inr p assms(2) by metis
      show ?thesis
      proof (cases granted)
        case False
        then show ?thesis using assms(1) go Inr p st by (auto simp: deliver_batch_def ms_def)
      next
        case True
        obtain o1 ok where tx: "append_user_turn_txn a turn_id now emit_ok (delivery_text ms) (current_turn_lease (team off) a) (off\<lparr>team := t\<rparr>) = (o1, ok)"
          by fastforce
        note a1 = append_txn_ok [OF tx st assms(3)]
        show ?thesis
        proof (cases ok)
          case False
          then have "off' = o1" "res = DrainRaised"
            using assms(1) go Inr p True tx by (simp_all add: deliver_batch_def ms_def Let_def)
          then show ?thesis using a1 False by auto
        next
          case committed: True
          obtain st1 where st1: "sess o1 a = Some st1" "messages st1 = messages st @ [user_turn (delivery_text ms)]" "phase st1 = IDLE"
            using a1 committed by auto
          define o3 where "o3 = upd_sess a (discard_delivered ms) (set_inbox a (drop (length ms) (inbox_of o1 a)) o1)"
          have sd: "\<not> shutting_down o3" using a1 go by (simp add: o3_def)
          have off': "off' = o3\<lparr>driving := insert a (driving o3)\<rparr>" "res = Drained ms"
            using assms(1) go Inr p True tx committed sd by (simp_all add: deliver_batch_def ms_def Let_def o3_def)
          have st3: "sess off' a = Some (discard_delivered ms st1)" by (simp add: off' o3_def sess_upd_sess st1(1))
          have "pending_only st1 (discard_delivered ms st1)" by (rule discard_pending_only)
          then have "messages (discard_delivered ms st1) = messages st1 \<and> phase (discard_delivered ms st1) = phase st1"
            unfolding pending_only_def by (metis SessionState.select_convs(1,12) SessionState.surjective SessionState.update_convs(17))
          then have "delivered ms off' a st (discard_delivered ms st1)"
            using st1 bounded_batch(2) [of ?q] go by (simp add: delivered_def ms_def off')
          moreover have "ms @ inbox_of off' a = ?q"
          proof -
            obtain rest where "?q = ms @ rest" using bounded_batch(1) [of ?q] by (auto simp: ms_def prefix_def)
            then show ?thesis using a1 by (simp add: off' o3_def)
          qed
          ultimately show ?thesis using st3 a1 go by (auto simp: off' o3_def)
        qed
      qed
    qed
  qed
qed

lemma drain_routed_ok:
  assumes "drain_routed own_driver a turn_id now emit_ok off = (off', res)" and "sess off a = Some st"
  shows "\<exists>st'. sess off' a = Some st' \<and>
    (case res of
       DrainRaised \<Rightarrow> inbox_of off' a = inbox_of off a \<and> messages st' = messages st \<and> phase st' = phase st
     | Drained ms \<Rightarrow> ms @ inbox_of off' a = inbox_of off a \<and>
         (if ms = [] then messages st' = messages st else delivered ms off' a st st'))"
proof -
  consider (empty) "inbox_of off a = []"
    | (held) "inbox_of off a \<noteq> []" "(a \<in> cancelled_turns off \<and> is_terminal (phase st)) \<or> a \<in> inbox_holds off"
    | (blocked) "inbox_of off a \<noteq> []" "\<not> ((a \<in> cancelled_turns off \<and> is_terminal (phase st)) \<or> a \<in> inbox_holds off)"
        "delivery_blocked own_driver a st off"
    | (go) "inbox_of off a \<noteq> []" "\<not> ((a \<in> cancelled_turns off \<and> is_terminal (phase st)) \<or> a \<in> inbox_holds off)"
        "\<not> delivery_blocked own_driver a st off"
    by blast
  then show ?thesis
  proof cases
    case empty
    then show ?thesis using assms by (auto simp: drain_routed_def)
  next
    case held
    then have eq: "off' = set_cancelled_turn_inbox_hold a True off" "res = Drained []"
      using assms unfolding drain_routed_def by (simp_all add: if_P [OF held(2)])
    have "\<exists>st'. sess off' a = Some st' \<and> messages st' = messages st"
      by (simp add: eq set_cancelled_turn_inbox_hold_def Let_def sess_upd_sess assms(2))
    moreover have "inbox_of off' a = inbox_of off a" by (simp add: eq set_cancelled_turn_inbox_hold_def Let_def)
    ultimately show ?thesis using eq(2) by auto
  next
    case blocked
    have "drain_routed own_driver a turn_id now emit_ok off = (off, Drained [])"
      unfolding drain_routed_def assms(2) option.case if_not_P [OF blocked(1)] if_not_P [OF blocked(2)] if_P [OF blocked(3)] by (rule refl)
    then show ?thesis using assms by auto
  next
    case go
    have "drain_routed own_driver a turn_id now emit_ok off = deliver_batch own_driver a turn_id now emit_ok off"
      unfolding drain_routed_def assms(2) option.case if_not_P [OF go(1)] if_not_P [OF go(2)] if_not_P [OF go(3)] by (rule refl)
    then have d: "deliver_batch own_driver a turn_id now emit_ok off = (off', res)" using assms(1) by simp
    have "is_empty (pending_events st)" using go(3) by (simp add: delivery_blocked_def)
    from deliver_batch_ok [OF d assms(2) this] show ?thesis by (cases res) (auto split: if_splits)
  qed
qed

text \<open>
  C27. Exactly-once delivery in order.  When a recipient's inbox is drained, the messages whose route
  is still valid are split into a delivered batch, a prefix in arrival order, and the ones that stay
  queued; nothing is lost, duplicated or reordered.  A delivered batch is one user turn of at most
  16 KiB appended to the history, with the agent idle and its driver started.  If nothing is delivered
  the history is untouched; if the append or its event raises, the history is back to what it was and
  the valid messages are all still queued.
\<close>

theorem drain_exactly_once:
  assumes "drain_message_inbox_locked xml_root repr own_driver a turn_id now emit_ok off = (off', res)"
    and "known off a" and "sess off a = Some st"
  shows "\<exists>st'. sess off' a = Some st' \<and>
    (case res of
       Drained ms \<Rightarrow> ms @ inbox_of off' a = filter (routable xml_root off a) (inbox_of off a) \<and>
         (if ms = [] then messages st' = messages st else delivered ms off' a st st')
     | DrainRaised \<Rightarrow> messages st' = messages st \<and> phase st' = phase st \<and>
         filter (routable xml_root off a) (inbox_of off' a) = filter (routable xml_root off a) (inbox_of off a))"
proof (cases "inbox_of off a = []")
  case True
  then show ?thesis using assms by (auto simp: drain_message_inbox_locked_def)
next
  case ne: False
  let ?q = "inbox_of off a" and ?R = "routable xml_root off a"
  obtain o1 r1 where c: "check_routes xml_root repr a ?q off = (o1, r1)" by fastforce
  note cr = check_routes_ok [OF c assms(3)]
  obtain st1 where st1: "sess o1 a = Some st1" "pending_only st st1" using cr by blast
  have same: "messages st1 = messages st" "phase st1 = phase st"
    using st1(2) unfolding pending_only_def
    by (metis SessionState.select_convs(1,12) SessionState.surjective SessionState.update_convs(17))+
  show ?thesis
  proof (cases r1)
    case (Inl e)
    then have "off' = o1" "res = DrainRaised" using assms c ne by (simp_all add: drain_message_inbox_locked_def)
    then show ?thesis using st1(1) same cr by auto
  next
    case (Inr kept)
    have kept: "kept = filter ?R ?q" using cr Inr by simp
    have d: "drain_routed own_driver a turn_id now emit_ok (set_inbox a kept o1) = (off', res)"
      using assms c ne Inr by (simp add: drain_message_inbox_locked_def)
    have "sess (set_inbox a kept o1) a = Some st1" by (simp add: st1(1))
    from drain_routed_ok [OF d this] show ?thesis using same kept by (cases res) (auto simp: delivered_def)
  qed
qed

definition demo_session :: SessionState where
  "demo_session = new_session ''t0'' []"

definition demo_block :: "int \<Rightarrow> string \<Rightarrow> SessionControlBlock" where
  "demo_block a role = \<lparr>scb_aid = a, parent_aid = None, scb_agent_name = role, scb_state = demo_session,
     scb_result = [], scb_answer = None\<rparr>"

definition demo_live :: LiveSession where
  "demo_live = \<lparr>object_id = 1, live_used_tokens = 0, session_max_budget = None, session_runner = None\<rparr>"

definition demo_message :: QueuedTeammateMessage where
  "demo_message = \<lparr>q_from = 1, q_to = 2, q_summary = ''s'', q_content = ''c'', q_xml = ''<x/>'', q_sent_at = ''t1'',
     q_id = ''m1'', q_from_role = Some ''dev'', q_to_role = Some ''qa'', q_restored = False, q_kind = Teammate\<rparr>"

definition demo_office :: Office where
  "demo_office =
     \<lparr>team = \<lparr>max_budget_tokens = 1000, role_budgets = [], prebuild_team = False, team_roles = [], entry_role = None,
              table = \<lparr>entries = [(1, demo_block 1 ''dev''), (2, demo_block 2 ''qa'')], next_aid = 3\<rparr>,
              sessions = [(1, demo_live), (2, demo_live)], lead_session = None, turn_lease = [], lease_baseline = [],
              provider_leases = []\<rparr>,
      office_topology = None, shutting_down = False, message_inbox = [(2, [demo_message])], unanswered = [],
      inbox_holds = {}, cancelled_turns = {}, delivering = {}, driving = {}, turn_locked = {}\<rparr>"

theorem drain_exactly_once_witness:
  "\<exists>off' res st'. drain_message_inbox_locked (\<lambda>_. None) id False 2 ''u'' ''t2'' True demo_office = (off', res) \<and>
    sess off' 2 = Some st' \<and>
    (case res of
       Drained ms \<Rightarrow> ms @ inbox_of off' 2 = filter (routable (\<lambda>_. None) demo_office 2) (inbox_of demo_office 2) \<and>
         (if ms = [] then messages st' = messages demo_session else delivered ms off' 2 demo_session st')
     | DrainRaised \<Rightarrow> messages st' = messages demo_session \<and> phase st' = phase demo_session \<and>
         filter (routable (\<lambda>_. None) demo_office 2) (inbox_of off' 2) =
         filter (routable (\<lambda>_. None) demo_office 2) (inbox_of demo_office 2))"
proof -
  have k: "known demo_office 2" by (simp add: known_def demo_office_def)
  have s: "sess demo_office 2 = Some demo_session" by (simp add: sess_def get_scb_def demo_office_def demo_block_def)
  obtain off' res where d: "drain_message_inbox_locked (\<lambda>_. None) id False 2 ''u'' ''t2'' True demo_office = (off', res)"
    by fastforce
  from drain_exactly_once [OF d k s] d show ?thesis by blast
qed

section \<open>Bounded inboxes and open exchanges\<close>

datatype mail_event =
    Send string string string bool int int string string
  | Drain bool int string string bool
  | Notify NoticeInput int string
  | Hold int bool
  | World Team "Topology option" bool "int set" "int set" "int set" "int set"

fun mail_step :: "(string \<Rightarrow> (string \<times> string option) option) \<Rightarrow> (string \<Rightarrow> string) \<Rightarrow> Office \<Rightarrow> mail_event \<Rightarrow> Office" where
  "mail_step xml_root repr off (Send message_id turn_id now emit_ok from_aid to_aid summary content) =
     fst (send_message xml_root repr message_id turn_id now emit_ok from_aid to_aid summary content off)"
| "mail_step xml_root repr off (Drain own a turn_id now emit_ok) =
     fst (drain_message_inbox_locked xml_root repr own a turn_id now emit_ok off)"
| "mail_step xml_root repr off (Notify inp a reason) = notify_unanswered_senders xml_root repr inp a reason off"
| "mail_step xml_root repr off (Hold a held) = set_cancelled_turn_inbox_hold a held off"
| "mail_step xml_root repr off (World t tp down cancelled dlv drv locked) =
     off\<lparr>team := t, office_topology := tp, shutting_down := down, cancelled_turns := cancelled,
         delivering := dlv, driving := drv, turn_locked := locked\<rparr>"

text \<open>At most one side of a pair waits for the other.\<close>

definition mail_ok :: "Office \<Rightarrow> bool" where
  "mail_ok off =
     ((\<forall>a. length (inbox_of off a) \<le> MAX_TEAMMATE_INBOX_MESSAGES \<and> inbox_size (inbox_of off a) \<le> MAX_TEAMMATE_INBOX_BYTES) \<and>
      (\<forall>a b. map_of (waiting_of off a) b \<noteq> None \<longrightarrow> map_of (waiting_of off b) a = None))"

definition shrinks :: "Office \<Rightarrow> Office \<Rightarrow> bool" where
  "shrinks off off' =
     ((\<forall>a. subseq (inbox_of off' a) (inbox_of off a)) \<and>
      (\<forall>a b. map_of (waiting_of off' a) b \<noteq> None \<longrightarrow> map_of (waiting_of off a) b \<noteq> None))"

lemma shrinks_refl: "shrinks off off" by (simp add: shrinks_def)

lemma shrinks_trans: "shrinks x y \<Longrightarrow> shrinks y z \<Longrightarrow> shrinks x z"
  unfolding shrinks_def by (meson subseq_order.order_trans)

lemma inbox_size_subseq: "subseq xs ys \<Longrightarrow> inbox_size xs \<le> inbox_size ys"
  by (induction rule: list_emb.induct) (simp_all add: inbox_size_def)

lemma shrinks_ok: "mail_ok off \<Longrightarrow> shrinks off off' \<Longrightarrow> mail_ok off'"
  unfolding mail_ok_def shrinks_def by (meson inbox_size_subseq list_emb_length order_trans)

lemma shrinks_waiting: "shrinks off (set_waiting a (AList.delete b (waiting_of off a)) off)"
  by (auto simp: shrinks_def delete_conv split: if_splits)

lemma shrinks_upd: "shrinks off (upd_sess a f off)" by (simp add: shrinks_def)

lemma shrinks_hold: "shrinks off (set_cancelled_turn_inbox_hold a held off)"
  by (simp add: set_cancelled_turn_inbox_hold_def shrinks_def Let_def)

lemma shrinks_inbox: "subseq q (inbox_of off a) \<Longrightarrow> shrinks off (set_inbox a q off)"
  by (simp add: shrinks_def)

lemma shrinks_reject: "shrinks off (reject_message a m r off)"
proof -
  have "shrinks (upd_sess a f off) (set_waiting a (AList.delete b (waiting_of (upd_sess a f off) a)) (upd_sess a f off))" for f b
    by (rule shrinks_waiting)
  then show ?thesis unfolding reject_message_def Let_def using shrinks_trans [OF shrinks_upd] shrinks_upd by (metis (full_types))
qed

lemma shrinks_routes: "shrinks off (fst (check_routes xml_root repr a ms off))"
proof (induction ms arbitrary: off)
  case (Cons m ms)
  show ?case
  proof (cases "message_route_error xml_root off a m")
    case (Inr r)
    show ?thesis
    proof (cases r)
      case None
      obtain o1 res where c: "check_routes xml_root repr a ms off = (o1, res)" by fastforce
      have "fst (check_routes xml_root repr a (m # ms) off) = o1" using Inr None c by (simp split: sum.split)
      then show ?thesis using Cons.IH [of off] c by simp
    next
      case (Some x)
      then have "check_routes xml_root repr a (m # ms) off = check_routes xml_root repr a ms (reject_message a m (route_detail repr off a m x) off)"
        using Inr by simp
      then show ?thesis using shrinks_trans [OF shrinks_reject Cons.IH] by simp
    qed
  qed (simp add: shrinks_refl)
qed (simp add: shrinks_refl)

lemma shrinks_deliver:
  assumes "sess off a = Some st" and "is_empty (pending_events st)"
  shows "shrinks off (fst (deliver_batch own a turn_id now emit_ok off))"
proof -
  obtain off' res where d: "deliver_batch own a turn_id now emit_ok off = (off', res)" by fastforce
  note ok = deliver_batch_ok [OF d assms]
  have "subseq (inbox_of off' a) (inbox_of off a)"
  proof (cases res)
    case (Drained ms)
    then have "ms @ inbox_of off' a = inbox_of off a" using ok by auto
    then show ?thesis by (metis list_emb_append2 subseq_order.order_refl)
  qed (use ok in auto)
  then show ?thesis using ok by (auto simp: shrinks_def d)
qed

lemma shrinks_routed: "shrinks off (fst (drain_routed own a turn_id now emit_ok off))"
proof (cases "sess off a")
  case (Some st)
  show ?thesis
  proof (cases "delivery_blocked own a st off")
    case True
    then show ?thesis by (simp add: drain_routed_def Some shrinks_refl shrinks_hold)
  next
    case False
    then have "is_empty (pending_events st)" by (simp add: delivery_blocked_def)
    then show ?thesis using shrinks_deliver [OF Some] by (simp add: drain_routed_def Some shrinks_refl shrinks_hold)
  qed
qed (simp add: drain_routed_def shrinks_refl)

lemma shrinks_drain: "shrinks off (fst (drain_message_inbox_locked xml_root repr own a turn_id now emit_ok off))"
proof (cases "inbox_of off a = [] \<or> \<not> known off a \<or> sess off a = None")
  case True
  then have "drain_message_inbox_locked xml_root repr own a turn_id now emit_ok off = (off, Drained [])"
    unfolding drain_message_inbox_locked_def by (rule if_P)
  then show ?thesis by (simp add: shrinks_refl)
next
  case False
  then obtain st where st: "sess off a = Some st" by auto
  obtain o1 r1 where c: "check_routes xml_root repr a (inbox_of off a) off = (o1, r1)" by fastforce
  have s1: "shrinks off o1" using shrinks_routes [of off xml_root repr a "inbox_of off a"] c by simp
  have out: "drain_message_inbox_locked xml_root repr own a turn_id now emit_ok off =
      (case r1 of Inl _ \<Rightarrow> (o1, DrainRaised) | Inr kept \<Rightarrow> drain_routed own a turn_id now emit_ok (set_inbox a kept o1))"
    unfolding drain_message_inbox_locked_def if_not_P [OF False] c by (simp split: sum.split)
  show ?thesis
  proof (cases r1)
    case (Inl e)
    then show ?thesis using s1 by (simp add: out)
  next
    case (Inr kept)
    have "kept = filter (routable xml_root off a) (inbox_of off a)" and "inbox_of o1 = inbox_of off"
      using check_routes_ok [OF c st] Inr by blast+
    then have "subseq kept (inbox_of o1 a)" by simp
    then have "shrinks off (set_inbox a kept o1)" using shrinks_trans [OF s1 shrinks_inbox] by blast
    then show ?thesis using shrinks_trans [OF _ shrinks_routed] by (simp add: out Inr)
  qed
qed

lemma enqueue_frame:
  "inbox_of (enqueue_message now m off) b = (if b = q_to m then inbox_of off b @ [m] else inbox_of off b)"
  "waiting_of (enqueue_message now m off) = waiting_of off"
  by (simp_all add: enqueue_message_def Let_def)

lemma enqueue_ok:
  assumes "mail_ok off" and "length (inbox_of off (q_to m)) < MAX_TEAMMATE_INBOX_MESSAGES"
    and "inbox_size (inbox_of off (q_to m)) + encoded_size (q_xml m) \<le> MAX_TEAMMATE_INBOX_BYTES"
  shows "mail_ok (enqueue_message now m off)"
  using assms by (auto simp: mail_ok_def enqueue_frame inbox_size_def)

lemma record_ok: "mail_ok off \<Longrightarrow> from_aid \<noteq> to_aid \<Longrightarrow> mail_ok (record_teammate_exchange from_aid to_aid i off)"
proof (cases "map_of (waiting_of off from_aid) to_aid")
  case None
  assume ok: "mail_ok off" and ne: "from_aid \<noteq> to_aid"
  have "map_of (waiting_of off a) b \<noteq> None \<longrightarrow> map_of (waiting_of off b) a = None" for a b
    using ok by (simp add: mail_ok_def)
  then show ?thesis using ok ne None
    by (simp add: mail_ok_def record_teammate_exchange_def update_conv inbox_of_def set_waiting_def [symmetric])
qed (auto simp: record_teammate_exchange_def intro: shrinks_ok shrinks_waiting)

lemma send_ok: "mail_ok off \<Longrightarrow> mail_ok (fst (send_message xml_root repr i turn_id now emit_ok f t summary content off))"
proof -
  assume ok: "mail_ok off"
  let ?xml = "format_teammate_message f summary content i"
  let ?m = "\<lparr>q_from = f, q_to = t, q_summary = summary, q_content = content, q_xml = ?xml,
    q_sent_at = now, q_id = i, q_from_role = role_of (team off) f, q_to_role = role_of (team off) t, q_restored = False, q_kind = Teammate\<rparr>"
  show ?thesis
  proof (cases "send_refusal f t off = Inr None \<and> size_refusal ?xml (inbox_of off t) = None")
    case True
    have "f \<noteq> t" using True by (auto simp: send_refusal_def)
    moreover have "mail_ok (enqueue_message now ?m off)"
      by (rule enqueue_ok [OF ok]) (use True in \<open>auto simp: size_refusal_def split: if_splits\<close>)
    ultimately have "mail_ok (record_teammate_exchange f t i (enqueue_message now ?m off))" by (simp add: record_ok)
    from shrinks_ok [OF this shrinks_drain] show ?thesis
      using True by (simp add: send_message_def Let_def split_beta split: DrainResult.split)
  next
    case False
    then have "fst (send_message xml_root repr i turn_id now emit_ok f t summary content off) = off"
      by (auto simp: send_message_def Let_def split: sum.split option.split)
    then show ?thesis using ok by simp
  qed
qed

lemma notify_one_ok: "mail_ok off \<Longrightarrow> mail_ok (fst (notify_one xml_root repr inp a role reason w off))"
proof -
  assume ok: "mail_ok off"
  obtain t u where w: "w = (t, u)" by fastforce
  obtain content xml where n: "build_notice (n_peek inp) (n_retain inp) (n_partial inp) a role (n_message_id inp t) reason = (content, xml)"
    by fastforce
  define m where "m = \<lparr>q_from = a, q_to = t, q_summary = role @ '' stopped'', q_content = content, q_xml = xml,
    q_sent_at = n_now inp, q_id = n_message_id inp t, q_from_role = Some role,
    q_to_role = role_of (team off) t, q_restored = False, q_kind = StopNotice\<rparr>"
  have closed: "mail_ok (set_waiting a (AList.delete t (waiting_of x a)) x)" if "mail_ok x" for x
    using shrinks_ok [OF that shrinks_waiting] .
  have full: "mail_ok (set_waiting a (AList.delete t (waiting_of (enqueue_message (n_now inp) m off) a)) (enqueue_message (n_now inp) m off))"
    if "\<not> (length (inbox_of off t) \<ge> MAX_TEAMMATE_INBOX_MESSAGES \<or> inbox_size (inbox_of off t) + encoded_size xml > MAX_TEAMMATE_INBOX_BYTES)"
    by (intro closed enqueue_ok ok) (use that in \<open>simp_all add: m_def\<close>)
  show ?thesis
  proof (cases "length (inbox_of off t) \<ge> MAX_TEAMMATE_INBOX_MESSAGES \<or> inbox_size (inbox_of off t) + encoded_size xml > MAX_TEAMMATE_INBOX_BYTES")
    case True
    then show ?thesis using ok closed [OF ok] by (simp add: notify_one_def w n)
  next
    case False
    show ?thesis
      using ok closed [OF ok] shrinks_ok [OF full [OF False] shrinks_drain]
      unfolding notify_one_def w prod.case n if_not_P [OF False] m_def [symmetric] Let_def
      by (auto split: prod.split DrainResult.split) (metis fst_conv)+
  qed
qed

lemma notify_loop_ok: "mail_ok off \<Longrightarrow> mail_ok (notify_loop xml_root repr inp a role reason ws off)"
proof (induction ws arbitrary: off)
  case (Cons w ws)
  obtain o1 r where n: "notify_one xml_root repr inp a role reason w off = (o1, r)" by fastforce
  have "mail_ok o1" using notify_one_ok [OF Cons.prems] n by (metis fst_conv)
  then show ?case using Cons.IH n by (simp split: NoticeResult.split)
qed simp

lemma notify_ok: "mail_ok off \<Longrightarrow> mail_ok (notify_unanswered_senders xml_root repr inp a reason off)"
  by (simp add: notify_unanswered_senders_def notify_loop_ok split: option.split sum.split)

lemma mail_step_ok: "mail_ok off \<Longrightarrow> mail_ok (mail_step xml_root repr off e)"
proof (cases e)
  case (World t tp down cancelled dlv drv locked)
  assume "mail_ok off"
  then show ?thesis by (simp add: World mail_ok_def inbox_of_def waiting_of_def)
qed (auto simp: send_ok notify_ok intro: shrinks_ok shrinks_drain shrinks_hold)

text \<open>
  C38. Backpressure and open exchanges.  Over any run of sends, drains, stop notices, cancellation
  holds and changes of the sessions around them, starting without messages: no inbox ever holds more
  than 32 messages or 64 KiB of envelopes, and of two teammates at most one has an unanswered message
  from the other.
\<close>

theorem mailbox_bounded:
  assumes "message_inbox off = []" and "unanswered off = []"
  shows "mail_ok (foldl (mail_step xml_root repr) off es)"
proof -
  have "mail_ok off" using assms by (simp add: mail_ok_def inbox_of_def waiting_of_def inbox_size_def)
  then show ?thesis by (induction es arbitrary: off) (simp_all add: mail_step_ok)
qed

theorem mailbox_bounded_witness:
  "mail_ok (foldl (mail_step (\<lambda>_. None) id) (demo_office\<lparr>message_inbox := []\<rparr>)
     [Send ''m1'' ''u1'' ''t1'' True 1 2 ''s'' ''c'', Send ''m2'' ''u2'' ''t2'' False 2 1 ''s'' ''c''])"
  by (rule mailbox_bounded) (simp_all add: demo_office_def)

section \<open>Envelopes\<close>

text \<open>What a reader of the envelope decodes.\<close>

definition entities :: "(string \<times> char) list" where
  "entities = [(''amp;'', CHR ''&''), (''lt;'', CHR ''<''), (''gt;'', CHR ''>''), (''quot;'', DQUOTE),
     (''#10;'', CHR 0x0A), (''#13;'', CHR 0x0D), (''#9;'', CHR 0x09)]"

function decode :: "string \<Rightarrow> string" where
  "decode [] = []"
| "decode (c # s) =
     (if c = CHR ''&''
      then (case find (\<lambda>p. startswith s (fst p)) entities of
              Some p \<Rightarrow> snd p # decode (drop (length (fst p)) s)
            | None \<Rightarrow> c # decode s)
      else c # decode s)"
  by pat_completeness auto
termination by (relation "measure length") auto

definition unquote :: "string \<Rightarrow> string" where
  "unquote s = decode (butlast (tl s))"

lemmas entity_simps = entities_def startswith_def DQUOTE_def SQUOTE_def

lemma decode_xml_char: "decode (xml_char c @ t) = c # decode t"
  by (simp add: xml_char_def entity_simps)

lemma decode_attr_char: "decode (attr_char c @ t) = c # decode t"
  using decode_xml_char [of c t] by (simp add: attr_char_def entity_simps)

lemma decode_escape: "decode (escape s) = s"
  by (induction s) (simp_all add: escape_def decode_xml_char)

lemma decode_attr: "decode (concat (map attr_char s)) = s"
  by (induction s) (simp_all add: decode_attr_char)

lemma quote_attr_char: "decode (concat (map quote_char (attr_char c)) @ t) = c # decode t"
  by (simp add: attr_char_def xml_char_def quote_char_def entity_simps)

lemma decode_quoted: "decode (concat (map quote_char (concat (map attr_char s)))) = s"
  by (induction s) (simp_all add: quote_attr_char)

definition MARKUP :: "char set" where
  "MARKUP = {CHR ''<'', CHR ''>'', CHR 0x0A, CHR 0x0D, CHR 0x09}"

lemma attr_chars: "set (concat (map attr_char s)) \<inter> MARKUP = {}"
  by (induction s) (auto simp: attr_char_def xml_char_def MARKUP_def)

lemma quoted_chars: "set (concat (map quote_char d)) \<inter> MARKUP \<subseteq> set d \<inter> MARKUP \<and> DQUOTE \<notin> set (concat (map quote_char d))"
  by (induction d) (auto simp: quote_char_def MARKUP_def DQUOTE_def)

lemma escape_chars: "set (escape s) \<inter> {CHR ''<'', CHR ''>''} = {}"
  by (induction s) (auto simp: escape_def xml_char_def)

text \<open>A quoted attribute: the value survives, its delimiter does not occur inside, nor any markup.\<close>

lemma quoteattr_ok:
  "\<exists>q v. q \<in> {DQUOTE, SQUOTE} \<and> quoteattr s = q # v @ [q] \<and> q \<notin> set v \<and> set v \<inter> MARKUP = {} \<and> decode v = s"
proof -
  let ?d = "concat (map attr_char s)"
  consider "DQUOTE \<in> set ?d" "SQUOTE \<in> set ?d" | "DQUOTE \<in> set ?d" "SQUOTE \<notin> set ?d" | "DQUOTE \<notin> set ?d" by blast
  then show ?thesis
  proof cases
    case 1
    then have "quoteattr s = DQUOTE # concat (map quote_char ?d) @ [DQUOTE]" by (simp add: quoteattr_def Let_def)
    then show ?thesis using quoted_chars [of ?d] attr_chars [of s] decode_quoted [of s] by blast
  next
    case 2
    then have "quoteattr s = SQUOTE # ?d @ [SQUOTE]" by (simp add: quoteattr_def Let_def)
    then show ?thesis using 2 attr_chars [of s] decode_attr [of s] by blast
  next
    case 3
    then have "quoteattr s = DQUOTE # ?d @ [DQUOTE]" by (simp add: quoteattr_def Let_def)
    then show ?thesis using 3 attr_chars [of s] decode_attr [of s] by blast
  qed
qed

lemma quoteattr_roundtrip: "unquote (quoteattr s) = s"
  using quoteattr_ok [of s] by (auto simp: unquote_def)

lemma no_open_attr: "CHR ''<'' \<notin> set (quoteattr s)"
  using quoteattr_ok [of s] by (auto simp: MARKUP_def DQUOTE_def SQUOTE_def)

lemma no_open_escape: "CHR ''<'' \<notin> set (escape s)"
  using escape_chars [of s] by auto

lemma no_open_digits: "CHR ''<'' \<notin> set (nat_digits n)"
proof (induction n rule: nat_digits.induct)
  case (1 n)
  have d: "char_of (48 + k) \<noteq> CHR ''<''" if "k < 10" for k :: nat
  proof
    assume "char_of (48 + k) = CHR ''<''"
    then have "of_char (char_of (48 + k) :: char) = (of_char (CHR ''<'') :: nat)" by simp
    then show False using that by simp
  qed
  show ?case
  proof (cases "n < 10")
    case True
    then show ?thesis using d [OF True] by (subst nat_digits.simps) auto
  next
    case False
    have "char_of (48 + n mod 10) \<noteq> CHR ''<''" by (rule d) simp
    then show ?thesis using False 1 [OF False] by (subst nat_digits.simps) (auto dest: sym)
  qed
qed

lemma count_not_in: "c \<notin> set s \<Longrightarrow> count_list s c = 0"
  by (induction s) auto

lemma count_join: "c \<noteq> d \<Longrightarrow> count_list (py_join [d] xs) c = sum_list (map (\<lambda>x. count_list x c) xs)"
  by (induction "[d]" xs rule: py_join.induct) auto

lemma count_teammate: "count_list (format_teammate_message a summary content i) CHR ''<'' = 2"
  by (simp add: format_teammate_message_def NL_def count_not_in [OF no_open_attr] count_not_in [OF no_open_escape])

lemma count_batch_envelope: "q_kind m = Teammate \<Longrightarrow> count_list (batch_envelope m) CHR ''<'' = 2"
  by (simp add: batch_envelope_def NL_def count_not_in [OF no_open_attr] count_not_in [OF no_open_escape])

lemma count_batch:
  "list_all (\<lambda>m. q_kind m = Teammate) ms \<Longrightarrow>
   count_list (format_teammate_message_batch ms) CHR ''<'' = 2 + 2 * length ms"
proof -
  assume k: "list_all (\<lambda>m. q_kind m = Teammate) ms"
  then have "sum_list (map (\<lambda>x. count_list x CHR ''<'') (map batch_envelope ms)) = 2 * length ms"
    by (induction ms) (simp_all add: count_batch_envelope)
  then show ?thesis
    by (simp add: format_teammate_message_batch_def NL_def DQUOTE_def count_not_in [OF no_open_digits] count_join del: map_map)
qed



end
