(* ===== verification/Steering.thy ===== *)
theory Steering
  imports Session_State Py_Float
begin

text \<open>
  Budget status and action nudges (\<open>application/steering.py\<close>).  The environment variables that
  select the modes are arguments.  Fractions of the budget are floats: the true division of two
  integers is correctly rounded, and a literal such as \<open>0.2\<close> is the nearest double.
\<close>

section \<open>Modes\<close>

abbreviation READS_NUDGE_SOFT :: int where "READS_NUDGE_SOFT \<equiv> 8"
abbreviation READS_NUDGE_HARD :: int where "READS_NUDGE_HARD \<equiv> 16"

datatype BudgetNudge = EveryStep | Thresholds | BudgetNudgeOff
datatype WriteNudge = WriteNudgeOn | WriteNudgeOff

definition lower_char :: "char \<Rightarrow> char" where
  "lower_char c =
     (let n = code c in if (65 \<le> n \<and> n \<le> 90) \<or> (192 \<le> n \<and> n \<le> 222 \<and> n \<noteq> 215) then char_of (n + 32) else c)"

definition lower :: "string \<Rightarrow> string" where
  "lower s = map lower_char s"

definition resolve_budget_nudge_mode :: "string option \<Rightarrow> BudgetNudge" where
  "resolve_budget_nudge_mode raw =
     (let mode = lower (py_strip (or_default raw []))
      in if mode = ''thresholds'' then Thresholds else if mode = ''off'' then BudgetNudgeOff else EveryStep)"

definition resolve_write_nudge_mode :: "string option \<Rightarrow> WriteNudge" where
  "resolve_write_nudge_mode raw = (if lower (py_strip (or_default raw [])) = ''off'' then WriteNudgeOff else WriteNudgeOn)"

section \<open>The block\<close>

definition BUDGET_NUDGE_THRESHOLDS_FRACTIONS :: "rat list" where
  "BUDGET_NUDGE_THRESHOLDS_FRACTIONS = map round53 [1 / 5, 2 / 5, 3 / 5, 4 / 5]"

definition crosses_budget_threshold :: "int \<Rightarrow> int \<Rightarrow> int \<Rightarrow> bool" where
  "crosses_budget_threshold used prev budget =
     (if budget \<le> 0 then False
      else
        let previous = min (max prev 0) used;
            frac = round53 (of_int used / of_int budget);
            prev_frac = round53 (of_int previous / of_int budget)
        in list_ex (\<lambda>f. prev_frac < f \<and> f \<le> frac) BUDGET_NUDGE_THRESHOLDS_FRACTIONS)"

record SteeringInput =
  st_used_tokens :: int
  st_max_budget :: "int option"
  st_step_count :: int
  st_max_steps :: "int option"
  st_reads :: int
  st_has_write :: bool
  st_has_structured :: bool
  st_structured_override :: pyval
  st_write_landed :: bool
  st_budget_mode :: BudgetNudge
  st_write_mode :: WriteNudge
  st_prev_used :: int

datatype NudgeLevel = Soft | Hard

definition progress_status :: "SteeringInput \<Rightarrow> string" where
  "progress_status i =
     (let step_status = (case st_max_steps i of
            None \<Rightarrow> int_str (st_step_count i) @ '' steps completed''
          | Some n \<Rightarrow> ''~'' @ int_str (max 0 (n - st_step_count i)) @ '' steps left'')
      in case st_max_budget i of
           None \<Rightarrow> ''[Progress: ~'' @ int_str (st_used_tokens i div 1000) @ ''k tokens used, '' @ step_status @ ''.]''
         | Some b \<Rightarrow> ''[Budget: ~'' @ int_str (max 0 (b - st_used_tokens i) div 1000) @ ''k/'' @ int_str (b div 1000) @
                     ''k tokens left, '' @ step_status @ ''.]'')"

definition shows_status :: "SteeringInput \<Rightarrow> bool" where
  "shows_status i =
     (case st_budget_mode i of
        EveryStep \<Rightarrow> True
      | BudgetNudgeOff \<Rightarrow> False
      | Thresholds \<Rightarrow> crosses_budget_threshold (st_used_tokens i) (st_prev_used i)
                       (case st_max_budget i of None \<Rightarrow> 0 | Some b \<Rightarrow> b))"

text \<open>The em dash of the two texts is outside the range of \<open>char\<close> and stands as a hyphen.\<close>

definition hard_write_text :: "int \<Rightarrow> string" where
  "hard_write_text reads =
     '' You have read '' @ int_str reads @ '' times without making an edit. STOP reading'' @
     '' - your next action MUST be a file_write or apply_patch edit.''"

definition submit_text :: "int \<Rightarrow> string" where
  "submit_text reads =
     '' You have read '' @ int_str reads @ '' times without submitting structured output. STOP reading'' @
     '' - your next action MUST be structured_output using the evidence you already have.''"

definition soft_write_text :: "int \<Rightarrow> string" where
  "soft_write_text reads =
     '' You have read '' @ int_str reads @ '' times without making an edit. If you can describe the fix, '' @
     ''make it now with file_write or apply_patch before reading more.''"

text \<open>The action demand: its text, the choice it forces and its level.\<close>

definition steering_action :: "SteeringInput \<Rightarrow> string \<times> pyval \<times> NudgeLevel option" where
  "steering_action i =
     (let on = (st_write_mode i = WriteNudgeOn);
          needs_write = (on \<and> st_has_write i \<and> \<not> st_write_landed i);
          needs_submit = (on \<and> st_has_structured i \<and> (st_write_landed i \<or> \<not> st_has_write i))
      in if needs_write \<and> st_reads i \<ge> READS_NUDGE_HARD then (hard_write_text (st_reads i), VStr ''required'', Some Hard)
         else if needs_submit \<and> st_reads i \<ge> READS_NUDGE_SOFT then (submit_text (st_reads i), st_structured_override i, Some Hard)
         else if needs_write \<and> st_reads i \<ge> READS_NUDGE_SOFT then (soft_write_text (st_reads i), VNone, Some Soft)
         else ([], VNone, None))"

definition build_steering_block :: "SteeringInput \<Rightarrow> message option \<times> pyval \<times> NudgeLevel option" where
  "build_steering_block i =
     (let status = (if shows_status i then progress_status i else []);
          (extra, override, level) = steering_action i;
          content = (if status \<noteq> [] then status @ extra else dropWhile is_space extra)
      in if content = [] then (None, override, level)
         else (Some [(''role'', VStr ''user''), (''content'', VStr content)], override, level))"

definition fold_steering :: "message \<Rightarrow> string \<Rightarrow> message" where
  "fold_steering m text =
     AList.update ''content''
       (case get m ''content'' of
          VStr s \<Rightarrow> VStr (if s \<noteq> [] then s @ [CHR 0x0A, CHR 0x0A] @ text else text)
        | VList parts \<Rightarrow> VList (parts @ [VDict [(''type'', VStr ''text''), (''text'', VStr text)]])
        | _ \<Rightarrow> VStr text) m"

section \<open>Lemmas\<close>

text \<open>Whether the spend has reached a fraction of the budget.\<close>

definition reached :: "int \<Rightarrow> rat \<Rightarrow> int \<Rightarrow> bool" where
  "reached budget f used = (f \<le> round53 (of_int used / of_int budget))"

lemma reached_mono:
  assumes "0 < budget" and "0 \<le> u" and "u \<le> v" and "reached budget f u"
  shows "reached budget f v"
proof -
  have "rat_of_int u / of_int budget \<le> of_int v / of_int budget" using assms(1,3) by (simp add: divide_right_mono)
  then have "round53 (of_int u / of_int budget) \<le> round53 (of_int v / of_int budget)"
    using assms(1,2) by (intro round53_mono) simp_all
  then show ?thesis using assms(4) by (simp add: reached_def)
qed

lemma crosses_iff:
  assumes "0 < budget" and "0 \<le> u" and "u \<le> v"
  shows "crosses_budget_threshold v u budget \<longleftrightarrow>
    (\<exists>f \<in> set BUDGET_NUDGE_THRESHOLDS_FRACTIONS. \<not> reached budget f u \<and> reached budget f v)"
proof -
  have "min (max u 0) v = u" using assms by simp
  then show ?thesis using assms(1) by (auto simp: crosses_budget_threshold_def reached_def list_ex_iff not_le)
qed

text \<open>The spends of successive steps; a step announces when it crosses a threshold.\<close>

fun announcements :: "int \<Rightarrow> int list \<Rightarrow> nat" where
  "announcements budget (u # v # us) =
     (if crosses_budget_threshold v u budget then 1 else 0) + announcements budget (v # us)"
| "announcements budget us = 0"

definition bands_left :: "int \<Rightarrow> int \<Rightarrow> rat list" where
  "bands_left budget u = filter (\<lambda>f. \<not> reached budget f u) BUDGET_NUDGE_THRESHOLDS_FRACTIONS"

lemma filter_shrinks:
  "(\<And>x. x \<in> set xs \<Longrightarrow> Q x \<Longrightarrow> P x) \<Longrightarrow> x \<in> set xs \<Longrightarrow> P x \<Longrightarrow> \<not> Q x \<Longrightarrow> length (filter Q xs) < length (filter P xs)"
proof -
  assume sub: "\<And>x. x \<in> set xs \<Longrightarrow> Q x \<Longrightarrow> P x" and x: "x \<in> set xs" "P x" "\<not> Q x"
  have eq: "filter Q xs = filter Q (filter P xs)" using sub by (induction xs) auto
  have "x \<in> set (filter P xs)" using x by simp
  from length_filter_less [of x "filter P xs" Q, OF this x(3)] show ?thesis unfolding eq [symmetric] .
qed

lemma bands_step:
  assumes "0 < budget" and "0 \<le> u" and "u \<le> v"
  shows "(if crosses_budget_threshold v u budget then 1 else 0) + length (bands_left budget v) \<le> length (bands_left budget u)"
proof (cases "crosses_budget_threshold v u budget")
  case True
  then obtain f where "f \<in> set BUDGET_NUDGE_THRESHOLDS_FRACTIONS" "\<not> reached budget f u" "reached budget f v"
    using crosses_iff [OF assms] by blast
  then have "length (bands_left budget v) < length (bands_left budget u)"
    unfolding bands_left_def using reached_mono [OF assms] by (intro filter_shrinks [where x = f]) auto
  then show ?thesis using True by simp
next
  case False
  have "filter (\<lambda>f. \<not> reached budget f v) fs = filter (\<lambda>f. \<not> reached budget f v) (filter (\<lambda>f. \<not> reached budget f u) fs)" for fs
    using reached_mono [OF assms] by (induction fs) auto
  then have "length (bands_left budget v) \<le> length (bands_left budget u)"
    unfolding bands_left_def by (metis length_filter_le)
  then show ?thesis using False by simp
qed

lemma announcements_bound:
  "0 < budget \<Longrightarrow> sorted us \<Longrightarrow> list_all (\<lambda>u. 0 \<le> u) us \<Longrightarrow> us \<noteq> [] \<Longrightarrow>
   announcements budget us + length (bands_left budget (last us)) \<le> length (bands_left budget (hd us))"
proof (induction budget us rule: announcements.induct)
  case (1 budget u v us)
  then show ?case using bands_step [of budget u v] by force
qed simp_all

section \<open>Properties\<close>



end
