(* ===== verification/Tool_Execution.thy ===== *)
theory Tool_Execution
  imports Tool_Processing Identity Schema_Validate Steering Shaping_Groups
begin

text \<open>
  Execution of one batch of tool calls (\<open>application/tool_execution.py\<close> and
  \<open>application/_tool_loop_execution.py\<close>): the preflight of a whole batch, the repeat gate, and the
  loop that answers every call.

  What a tool does is an argument: for each position of the batch its output, the facts its collector
  holds when it closes, and whether it now reports an accepted terminal capture.  \<open>execute_tool\<close> maps
  every exception of a tool to an output, so this is total.  \<open>json.loads\<close>, MD5, the rendering of
  values and schema errors, and the shell classifier \<open>_bash_likely_mutates\<close> are arguments too.
  Traces and events are observations.
\<close>

section \<open>Tools and their surroundings\<close>

record ExecTool =
  spec :: ToolSpec
  x_parameters :: pyval
  x_timeout_control :: bool
  x_observer :: bool
  x_loop_timeout :: pyval
  x_disable_outer :: bool
  x_default_timeout :: pyval
  x_isolated :: bool

record Execution =
  ex_output :: string
  ex_facts :: ToolFacts
  ex_terminal :: bool

record World =
  w_loads :: "string \<Rightarrow> pyval option"   \<comment> \<open>\<open>None\<close> is a \<open>JSONDecodeError\<close>\<close>
  w_repr :: "pyval \<Rightarrow> string"
  w_dump :: "pyval \<Rightarrow> string"             \<comment> \<open>\<open>json.dumps(v, default=str, sort_keys=True)\<close>\<close>
  w_md5 :: "string \<Rightarrow> string"
  w_nfkc :: "string \<Rightarrow> string"
  w_float :: "string \<Rightarrow> pyfloat option"
  w_re_ok :: "string \<Rightarrow> bool"
  w_re_search :: "string \<Rightarrow> string \<Rightarrow> bool"
  w_error :: "schema_error \<Rightarrow> string"
  w_mutates :: "message \<Rightarrow> bool"
  w_default_timeout :: rat
  w_max_timeout :: rat

abbreviation MAX_SIMILAR_CALLS :: nat where "MAX_SIMILAR_CALLS \<equiv> 3"
abbreviation MAX_TOOL_CALLS_PER_BATCH :: nat where "MAX_TOOL_CALLS_PER_BATCH \<equiv> 32"
abbreviation MAX_SAME_FILE_READS :: nat where "MAX_SAME_FILE_READS \<equiv> 8"
abbreviation RANGED_READ_TOOLS :: "string list" where "RANGED_READ_TOOLS \<equiv> [''file_read'']"
abbreviation READ_TOOLS :: "string list" where "READ_TOOLS \<equiv> [''file_read'', ''grep'']"
abbreviation WRITE_TOOLS :: "string list" where "WRITE_TOOLS \<equiv> [''file_write'', ''apply_patch'']"
abbreviation WORKSPACE_READS :: "string list" where "WORKSPACE_READS \<equiv> [''file_read'', ''grep'', ''git_diff'']"
abbreviation TOOL_ERROR_PREFIXES :: "string list" where
  "TOOL_ERROR_PREFIXES \<equiv> [''Error'', ''Tool execution error'', ''Permission denied'']"

definition TERMINAL_CAPTURE_SKIP_MESSAGE :: string where
  "TERMINAL_CAPTURE_SKIP_MESSAGE = ''Skipped: terminal structured output accepted earlier in this batch.''"

definition str_of :: "pyval \<Rightarrow> string" where
  "str_of v = (case v of VStr s \<Rightarrow> s | _ \<Rightarrow> [])"

definition py_str :: "World \<Rightarrow> pyval \<Rightarrow> string" where
  "py_str w v = (case v of VStr s \<Rightarrow> s | _ \<Rightarrow> w_repr w v)"

definition exec_name :: "ExecTool \<Rightarrow> string" where
  "exec_name t = str_of (tool_name (spec t))"

text \<open>
  \<open>Agent.find_tool\<close> on the executable tools.  The table was checked when the agent was built, so the
  check it repeats does not raise.
\<close>

definition find_exec :: "World \<Rightarrow> ExecTool list \<Rightarrow> pyval \<Rightarrow> ExecTool option" where
  "find_exec w tools name =
     (case find_tool (w_nfkc w) (map spec tools) name of
        Inr (Some s) \<Rightarrow> find (\<lambda>t. spec t = s) tools
      | _ \<Rightarrow> None)"

definition tool_msg :: "pyval \<Rightarrow> string \<Rightarrow> message" where
  "tool_msg cid content = [(''role'', VStr ''tool''), (''tool_call_id'', cid), (''content'', VStr content)]"

section \<open>Arguments and keys\<close>

datatype ArgsError = InvalidJson | NonObject

definition parse_tool_args :: "World \<Rightarrow> message \<Rightarrow> ArgsError + message" where
  "parse_tool_args w func =
     (case get_or func ''arguments'' (VStr []) of
        VDict d \<Rightarrow> Inr d
      | VStr s \<Rightarrow>
          if s = [] then Inr []
          else (case w_loads w s of
                  None \<Rightarrow> Inl InvalidJson
                | Some (VDict d) \<Rightarrow> Inr d
                | Some _ \<Rightarrow> Inl NonObject)
      | _ \<Rightarrow> Inl NonObject)"

definition args_error_text :: "World \<Rightarrow> message \<Rightarrow> ArgsError \<Rightarrow> string" where
  "args_error_text w func e =
     (let raw = take 200 (py_str w (get_or func ''arguments'' (VStr [])))
      in case e of InvalidJson \<Rightarrow> ''Error: invalid JSON arguments: '' @ raw
                 | NonObject \<Rightarrow> ''Error: tool arguments must be a JSON object: '' @ raw)"

definition unknown_tool_text :: "World \<Rightarrow> ExecTool list \<Rightarrow> string \<Rightarrow> string" where
  "unknown_tool_text w tools name =
     ''Error: unknown tool '' @ [CHR 0x27] @ name @ [CHR 0x27] @ ''. Available: '' @
     w_repr w (VList (map (\<lambda>t. tool_name (spec t)) tools))"

definition schema_errors :: "World \<Rightarrow> ExecTool option \<Rightarrow> message \<Rightarrow> string list" where
  "schema_errors w t args =
     (case t of
        None \<Rightarrow> []
      | Some t \<Rightarrow> if is_dict (x_parameters t)
                  then map (w_error w) (validate (w_re_ok w) (w_re_search w) (VDict args) (x_parameters t)) else [])"

definition tool_call_hash :: "World \<Rightarrow> ExecTool list \<Rightarrow> string \<Rightarrow> message \<Rightarrow> string" where
  "tool_call_hash w tools name args =
     (let t = find_exec w tools (VStr name);
          name' = (case t of None \<Rightarrow> name | Some x \<Rightarrow> exec_name x);
          key_args = (if (case t of None \<Rightarrow> False | Some x \<Rightarrow> x_timeout_control x)
                      then filter (\<lambda>p. fst p \<noteq> ''timeout'') args
                      else if name' \<in> set RANGED_READ_TOOLS
                      then [(''path'', get args ''path''), (''offset'', get_or args ''offset'' (VInt 1)),
                            (''limit'', get_or args ''limit'' (VInt 500))]
                      else args)
      in w_md5 w (w_dump w (VDict [(''name'', VStr name'), (''args'', VDict key_args)])))"

section \<open>Preflight\<close>

fun duplicate_ids :: "message list \<Rightarrow> pyval list \<Rightarrow> pyval list" where
  "duplicate_ids [] seen = []"
| "duplicate_ids (tc # tcs) seen =
     (let i = get tc ''id''
      in if is_str i \<and> truthy i
         then (if i \<in> set seen then [i] else []) @ duplicate_ids tcs (i # seen)
         else duplicate_ids tcs seen)"

text \<open>Entries of the batch are dictionaries here; the first check of the loop never fails.\<close>

definition preflight_call :: "World \<Rightarrow> ExecTool list \<Rightarrow> pyval list \<Rightarrow> message \<Rightarrow> string" where
  "preflight_call w tools dups tc =
     (let i = get tc ''id'' in
      if \<not> (is_str i \<and> truthy i) then ''id must be non-empty text''
      else if i \<in> set dups then ''duplicate tool_call id '' @ w_repr w i
      else case get tc ''function'' of
             VDict func \<Rightarrow>
               let name = get func ''name'' in
               if \<not> (is_str name \<and> truthy name) then ''function.name must be non-empty text''
               else (case parse_tool_args w func of
                       Inl e \<Rightarrow> args_error_text w func e
                     | Inr args \<Rightarrow>
                         (case find_exec w tools name of
                            None \<Rightarrow> unknown_tool_text w tools (str_of name)
                          | Some t \<Rightarrow>
                              let errors = schema_errors w (Some t) args
                              in if errors \<noteq> [] then ''schema validation failed: '' @ take 1000 (py_join ''; '' errors)
                                 else []))
           | _ \<Rightarrow> ''function must be an object'')"

definition preflight_tool_batch :: "World \<Rightarrow> ExecTool list \<Rightarrow> message list \<Rightarrow> string list" where
  "preflight_tool_batch w tools calls =
     (if length calls > MAX_TOOL_CALLS_PER_BATCH
      then replicate (length calls)
             (''batch has '' @ nat_digits (length calls) @ '' calls; maximum is '' @ nat_digits MAX_TOOL_CALLS_PER_BATCH)
      else map (preflight_call w tools (duplicate_ids calls [])) calls)"

definition rejection_id :: "nat \<Rightarrow> message \<Rightarrow> pyval" where
  "rejection_id i tc =
     (if is_str (get tc ''id'') then get tc ''id'' else VStr (''invalid-tool-call-'' @ nat_digits i))"

definition rejection_summary :: "string list \<Rightarrow> string" where
  "rejection_summary errors =
     take 2000 (py_join ''; '' (map (\<lambda>(i, e). ''call '' @ nat_digits i @ '': '' @ e)
       (filter (\<lambda>(i, e). e \<noteq> []) (zip [0..<length errors] errors))))"

definition preflight_rejection_result :: "message list \<Rightarrow> string list \<Rightarrow> ToolProcessingResult" where
  "preflight_rejection_result calls errors =
     empty_result\<lparr>tool_step_attempted := calls \<noteq> [],
       messages_to_append := map (\<lambda>(i, tc).
         tool_msg (rejection_id i tc)
           (if length calls > 1
            then ''Error: entire tool-call batch rejected before execution: '' @ rejection_summary errors
            else errors ! i)) (zip [0..<length calls] calls)\<rparr>"

section \<open>Deadlines\<close>

definition numeric_timeout :: "World \<Rightarrow> pyval \<Rightarrow> rat option" where
  "numeric_timeout w v =
     (case v of
        VStr s \<Rightarrow> (case w_float w s of Some f \<Rightarrow> positive_timeout (VFloat f) | None \<Rightarrow> None)
      | _ \<Rightarrow> positive_timeout v)"

definition tool_default_timeout :: "World \<Rightarrow> ExecTool \<Rightarrow> rat" where
  "tool_default_timeout w t =
     (case numeric_timeout w (x_default_timeout t) of Some r \<Rightarrow> r | None \<Rightarrow> w_default_timeout w)"

definition tool_execution_timeout :: "World \<Rightarrow> ExecTool \<Rightarrow> message \<Rightarrow> rat option" where
  "tool_execution_timeout w t args =
     (if x_disable_outer t then None
      else
        let base = (case numeric_timeout w (get args ''timeout'') of Some r \<Rightarrow> r | None \<Rightarrow> tool_default_timeout w t)
        in Some (min (round53 (base + 10)) (w_max_timeout w)))"

definition controlled_timeout :: "ExecTool \<Rightarrow> message \<Rightarrow> rat option" where
  "controlled_timeout t args =
     (if \<not> x_timeout_control t then None else positive_timeout (get_or args ''timeout'' (x_loop_timeout t)))"

definition workspace_sensitive :: "string \<Rightarrow> ExecTool \<Rightarrow> bool" where
  "workspace_sensitive name t = (name \<in> set WORKSPACE_READS \<or> x_observer t)"

section \<open>The repeat gate of one batch\<close>

record Batch =
  b_recent :: "string list"
  b_loops :: "LoopState option"
  b_evicted :: "string set"
  b_checkpointed :: bool
  b_result :: ToolProcessingResult
  b_turn :: TurnEnforcementState
  b_submitted :: "string option"

definition drop_idle :: "(string \<Rightarrow> bool) \<Rightarrow> LoopState \<Rightarrow> LoopState" where
  "drop_idle gone l =
     l\<lparr>operations := filter (\<lambda>(k, op). \<not> (gone k \<and> inflight_tool_call_id op = None)) (operations l)\<rparr>"

definition batch_append :: "string \<Rightarrow> Batch \<Rightarrow> Batch \<times> nat" where
  "batch_append key b =
     (let all = b_recent b @ [key];
          b1 = (if length all > MAX_CALL_HASH_WINDOW
                then let removed = hd all; rest = tl all
                     in if removed \<notin> set rest
                        then b\<lparr>b_recent := rest, b_evicted := insert removed (b_evicted b),
                               b_loops := map_option (drop_idle (\<lambda>k. k = removed)) (b_loops b)\<rparr>
                        else b\<lparr>b_recent := rest\<rparr>
                else b\<lparr>b_recent := all\<rparr>);
          b2 = b1\<lparr>b_result := (b_result b1)\<lparr>recent_hash_updates := recent_hash_updates (b_result b1) @ [key]\<rparr>\<rparr>
      in (b2, count_list (b_recent b2) key))"

definition batch_policy :: "Batch \<Rightarrow> LoopState" where
  "batch_policy b =
     (case b_loops b of Some l \<Rightarrow> l | None \<Rightarrow> drop_idle (\<lambda>k. k \<in> b_evicted b) (loop_state (b_turn b)))"

definition batch_reserve ::
  "World \<Rightarrow> string \<Rightarrow> string \<Rightarrow> ExecTool \<Rightarrow> message \<Rightarrow> string \<Rightarrow> nat \<Rightarrow> nat \<Rightarrow> Batch \<Rightarrow> Batch \<times> Reservation" where
  "batch_reserve w key name t args cid n limit b =
     (let current = (case b_loops b of Some l \<Rightarrow> l | None \<Rightarrow> loop_state (b_turn b));
          needs_policy = (key \<in> keys (operations current) \<or> name \<in> set WRITE_TOOLS \<or> x_timeout_control t
                          \<or> (edit_seq current > 0 \<and> workspace_sensitive name t))
      in if \<not> needs_policy then (b, if n \<ge> limit then Blocked else Ordinary)
         else
           let timeout = (case controlled_timeout t args of
                            None \<Rightarrow> None
                          | Some r \<Rightarrow> (case tool_execution_timeout w t args of
                                         None \<Rightarrow> Some r | Some d \<Rightarrow> Some (min r d)));
               (l, r) = reserve (batch_policy b) key (int n) (int limit) (workspace_sensitive name t)
                          (x_timeout_control t) (case timeout of None \<Rightarrow> VNone | Some r \<Rightarrow> VFloat (Fin r))
                          (Some cid) (Some (set (b_recent b)))
           in (b\<lparr>b_loops := Some l\<rparr>, r))"

definition batch_publish :: "Batch \<Rightarrow> Batch" where
  "batch_publish b =
     (case b_loops b of None \<Rightarrow> b
      | Some l \<Rightarrow> b\<lparr>b_result := (b_result b)\<lparr>pending_loop_state := Some l\<rparr>\<rparr>)"

text \<open>A novel informative signal of the unfinished prefix.\<close>

fun novel_signal :: "string set \<Rightarrow> (string \<times> string \<times> bool) list \<Rightarrow> bool" where
  "novel_signal seen [] = False"
| "novel_signal seen ((c, k, low) # es) =
     ((\<not> low \<and> c \<notin> seen \<and> k \<notin> seen) \<or> novel_signal (insert c (insert k seen)) es)"

definition apply_completed_prefix_progress ::
  "ToolProcessingResult \<Rightarrow> TurnEnforcementState \<Rightarrow> TurnEnforcementState \<times> bool" where
  "apply_completed_prefix_progress r t =
     (let progress = (write_succeeded r \<or> current_progress r \<or> novel_signal (seen_result_hashes t) (evidence_signals r))
      in (if progress
          then t\<lparr>loop_state := (loop_state t)\<lparr>blocked_rounds := 0\<rparr>, loop_blocked_since_progress := 0,
                 steps_since_progress := 0, last_progress_unknown := False\<rparr>
          else t, progress))"

definition apply_completed_prefix :: "Batch \<Rightarrow> Batch" where
  "apply_completed_prefix b =
     (let b1 = batch_publish b;
          (r1, t1) = apply_hashes_to MAX_CALL_HASH_WINDOW (b_result b1) (b_turn b1);
          (r2, t2) = apply_read_write_counter_to r1 t1;
          (t3, progress) = apply_completed_prefix_progress r2 t2;
          b2 = b1\<lparr>b_result := r2, b_turn := t3\<rparr>
      in if progress then b2\<lparr>b_loops := Some ((batch_policy b2)\<lparr>blocked_rounds := 0\<rparr>)\<rparr> else b2)"

definition batch_checkpoint :: "Batch \<Rightarrow> Batch" where
  "batch_checkpoint b = apply_completed_prefix (b\<lparr>b_checkpointed := True\<rparr>)"

definition sync_completed_prefix :: "Batch \<Rightarrow> Batch" where
  "sync_completed_prefix b = (if b_checkpointed b then apply_completed_prefix b else b)"

definition batch_finish ::
  "string \<Rightarrow> string \<Rightarrow> ExecTool \<Rightarrow> string \<Rightarrow> ToolFacts \<Rightarrow> string \<Rightarrow> bool \<Rightarrow> Batch \<Rightarrow> Batch" where
  "batch_finish key name t cid f result_key completed b =
     (if b_loops b = None \<and> content_changed f \<noteq> Some True then b
      else
        let policy = batch_policy b
        in if key \<notin> keys (operations policy) \<and> content_changed f = Some True
           then b\<lparr>b_loops := Some (policy\<lparr>edit_seq := edit_seq policy + 1\<rparr>),
                  b_result := (b_result b)\<lparr>current_progress := True\<rparr>\<rparr>
           else
             let (l, progress) = finish policy key f (Some result_key) (Some cid) (workspace_sensitive name t) completed
             in b\<lparr>b_loops := Some l,
                  b_result := (b_result b)\<lparr>current_progress := current_progress (b_result b) \<or> progress\<rparr>\<rparr>)"

section \<open>Evidence\<close>

abbreviation LEDGER_SNIPPET_CHARS :: nat where "LEDGER_SNIPPET_CHARS \<equiv> 240"

fun py_words :: "string \<Rightarrow> string \<Rightarrow> string list" where
  "py_words acc [] = (if acc = [] then [] else [acc])"
| "py_words acc (c # s) =
     (if is_space c then (if acc = [] then [] else [acc]) @ py_words [] s else py_words (acc @ [c]) s)"

text \<open>\<open>str(args.get(k1) or args.get(k2) or "")\<close>.\<close>

definition first_truthy :: "message \<Rightarrow> string list \<Rightarrow> pyval" where
  "first_truthy args ks =
     (case find (\<lambda>k. truthy (get args k)) ks of Some k \<Rightarrow> get args k | None \<Rightarrow> VStr [])"

definition card_target :: "World \<Rightarrow> string \<Rightarrow> message \<Rightarrow> string" where
  "card_target w name args =
     (if name = ''grep''
      then let target = py_str w (first_truthy args [''pattern'', ''query'']);
               path = (if truthy (get args ''path'') then get args ''path'' else get args ''dir'')
           in if truthy path then target @ '' in '' @ py_str w path else target
      else if name \<in> set READ_TOOLS then py_str w (first_truthy args [''path'', ''file''])
      else if name = ''bash'' then take LEDGER_SNIPPET_CHARS (py_str w (first_truthy args [''command'']))
      else if truthy (get args ''path'') then py_str w (get args ''path'')
      else take LEDGER_SNIPPET_CHARS (w_dump w (VDict args)))"

definition card_snippet :: "string \<Rightarrow> string" where
  "card_snippet output = take LEDGER_SNIPPET_CHARS (py_join '' '' (py_words [] output))"

definition contains :: "string \<Rightarrow> string \<Rightarrow> bool" where
  "contains needle s = list_ex (\<lambda>i. startswith (drop i s) needle) [0..<length s + 1]"

definition intrinsic_low_yield :: "string \<Rightarrow> string \<Rightarrow> bool" where
  "intrinsic_low_yield name output =
     (let norm = py_strip output
      in list_ex (startswith (lower norm)) [''no matches found'', ''no files found'', ''no results found''] \<or>
         (name \<in> set READ_TOOLS \<and> (norm = [] \<or> contains ''(0 lines total'' norm)))"

definition succeeded :: "string \<Rightarrow> bool" where
  "succeeded output = (\<not> list_ex (startswith output) TOOL_ERROR_PREFIXES)"

section \<open>Answering the calls\<close>

definition add_message :: "message \<Rightarrow> Batch \<Rightarrow> Batch" where
  "add_message m b = b\<lparr>b_result := (b_result b)\<lparr>messages_to_append := messages_to_append (b_result b) @ [m]\<rparr>\<rparr>"

definition call_limit :: "string \<Rightarrow> nat" where
  "call_limit name = (if name \<in> set RANGED_READ_TOOLS then MAX_SAME_FILE_READS else MAX_SIMILAR_CALLS)"

definition loop_warning :: "string \<Rightarrow> nat \<Rightarrow> string" where
  "loop_warning name n =
     ''[Loop detected: tool '' @ [CHR 0x27] @ name @ [CHR 0x27] @ '' called '' @ nat_digits n @ '' times '' @
     (if name \<in> set RANGED_READ_TOOLS then ''on the same file and line range'' else ''with identical arguments'') @
     ''. You are stuck in a loop. Try a completely different approach or ask for help.]''"

text \<open>A call the repeat gate rejects.\<close>

definition refuse_call :: "Reservation \<Rightarrow> pyval \<Rightarrow> string \<Rightarrow> nat \<Rightarrow> Batch \<Rightarrow> Batch" where
  "refuse_call r cid name n b =
     (case r of
        Capacity \<Rightarrow> add_message (tool_msg cid
          (''Error: unresolved executions fill the bounded repeat history; '' @
           ''reconcile pending operations before adding another tracked call.''))
          (b\<lparr>b_result := (b_result b)\<lparr>effect_unknown := True\<rparr>\<rparr>)
      | Inflight \<Rightarrow> add_message (tool_msg cid
          (''Error: the previous execution outcome is unresolved; '' @
           ''inspect it before repeating this operation.''))
          (b\<lparr>b_result := (b_result b)\<lparr>effect_unknown := True\<rparr>\<rparr>)
      | _ \<Rightarrow> add_message (tool_msg cid (loop_warning name n))
          (b\<lparr>b_result := (b_result b)\<lparr>loop_detections :=
              loop_detections (b_result b) @ [\<lparr>detected_tool = name, detected_count = int n\<rparr>]\<rparr>\<rparr>))"

text \<open>What the result records about one executed call.\<close>

definition record_signals :: "World \<Rightarrow> string \<Rightarrow> message \<Rightarrow> string \<Rightarrow> Execution \<Rightarrow> ToolProcessingResult \<Rightarrow> ToolProcessingResult" where
  "record_signals w name args key x r =
     (let out = ex_output x; f = ex_facts x; ok = succeeded out;
          unknown = (observed f \<and> content_changed f = None);
          r1 = (if name \<in> set READ_TOOLS \<and> ok
                then r\<lparr>reads_executed := reads_executed r + 1, read_write_signals := read_write_signals r @ [''read'']\<rparr> else r);
          r2 = (if content_changed f = Some True
                then r1\<lparr>write_succeeded := True, read_write_signals := read_write_signals r1 @ [''write'']\<rparr>
                else if unknown
                then r1\<lparr>effect_unknown := True, read_write_signals := read_write_signals r1 @ [''unknown'']\<rparr>
                else if \<not> observed f \<and> ok \<and> (name \<in> set WRITE_TOOLS \<or> (name = ''bash'' \<and> w_mutates w args))
                then r1\<lparr>write_succeeded := True, read_write_signals := read_write_signals r1 @ [''write'']\<rparr>
                else r1)
      in r2\<lparr>evidence_signals := evidence_signals r2 @
             [(w_md5 w out, key, intrinsic_low_yield name out \<or> (write_completed f = Some True \<and> content_changed f = Some False))],
            evidence_neutral := evidence_neutral r2 @ [unknown],
            evidence_cards := evidence_cards r2 @
             [[(''tool'', VStr name), (''target'', VStr (card_target w name args)), (''snippet'', VStr (card_snippet out))]]\<rparr>)"

text \<open>An admitted call: the batch after it, and whether it ends the batch.\<close>

definition run_call ::
  "World \<Rightarrow> ExecTool \<Rightarrow> message \<Rightarrow> string \<Rightarrow> string \<Rightarrow> Reservation \<Rightarrow> Execution \<Rightarrow> Batch \<Rightarrow> Batch \<times> bool" where
  "run_call w t args key cid r x b =
     (let name = exec_name t;
          b1 = (if r = Ordinary then b else batch_checkpoint b);
          f = ex_facts x; ok = succeeded (ex_output x);
          b2 = batch_finish key name t cid f (w_md5 w (ex_output x)) ok b1;
          b3 = b2\<lparr>b_result := record_signals w name args key x (b_result b2)\<rparr>;
          b4 = sync_completed_prefix (add_message (tool_msg (VStr cid) (ex_output x)) b3);
          submitted = (ok \<and> facts_summary f \<noteq> None);
          b5 = (if submitted then b4\<lparr>b_submitted := facts_summary f\<rparr> else b4)
      in if ex_terminal x \<or> submitted
         then (b5\<lparr>b_result := (b_result b5)\<lparr>terminal_capture_accepted := True,
                 turn_submitted := turn_submitted (b_result b5) \<or> submitted,
                 result_submitted_summary := (if submitted then facts_summary f else result_submitted_summary (b_result b5))\<rparr>\<rparr>, True)
         else (b5, False))"

definition process_call ::
  "World \<Rightarrow> ExecTool list \<Rightarrow> (ExecTool \<Rightarrow> message \<Rightarrow> Execution) \<Rightarrow> message \<Rightarrow> Batch \<Rightarrow> Batch \<times> bool" where
  "process_call w tools execute tc b =
     (let func = as_dict (get tc ''function''); called = str_of (get func ''name''); cid = get tc ''id''
      in case parse_tool_args w func of
           Inl e \<Rightarrow> (add_message (tool_msg cid (args_error_text w func e)) b, False)
         | Inr args \<Rightarrow>
             let tool = find_exec w tools (VStr called);
                 name = (case tool of None \<Rightarrow> called | Some t \<Rightarrow> exec_name t);
                 errors = schema_errors w tool args;
                 key = tool_call_hash w tools name args;
                 (b1, n) = batch_append key b;
                 limit = call_limit name
             in case tool of
                  None \<Rightarrow>
                    if n \<ge> limit then (refuse_call Blocked cid name n b1, False)
                    else (add_message (tool_msg cid (unknown_tool_text w tools name)) b1, False)
                | Some t \<Rightarrow>
                    let (b2, r) = (if errors \<noteq> [] then (b1, if n \<ge> limit then Blocked else Ordinary)
                                   else batch_reserve w key name t args (str_of cid) n limit b1)
                    in if \<not> admits r then (refuse_call r cid name n b2, False)
                       else if errors \<noteq> []
                       then (add_message (tool_msg cid
                               (''Error: schema validation failed: '' @ take 1000 (py_join ''; '' errors))) b2, False)
                       else run_call w t args key (str_of cid) r (execute t args) b2)"

fun process_calls ::
  "World \<Rightarrow> ExecTool list \<Rightarrow> (nat \<Rightarrow> ExecTool \<Rightarrow> message \<Rightarrow> Execution) \<Rightarrow> nat \<Rightarrow> message list \<Rightarrow> Batch \<Rightarrow> Batch" where
  "process_calls w tools execute i [] b = b"
| "process_calls w tools execute i (tc # tcs) b =
     (case process_call w tools (execute i) tc b of
        (b', True) \<Rightarrow> foldl (\<lambda>b tc. add_message (tool_msg (get tc ''id'') TERMINAL_CAPTURE_SKIP_MESSAGE) b) b' tcs
      | (b', False) \<Rightarrow> process_calls w tools execute (Suc i) tcs b')"

text \<open>
  \<open>process\<close>: the result, the turn as a reserved retry left it, and the summary a submission stored.
\<close>

definition tool_process ::
  "World \<Rightarrow> ExecTool list \<Rightarrow> (nat \<Rightarrow> ExecTool \<Rightarrow> message \<Rightarrow> Execution) \<Rightarrow> message list \<Rightarrow> SessionState
   \<Rightarrow> ToolProcessingResult \<times> TurnEnforcementState \<times> string option" where
  "tool_process w tools execute calls s =
     (let r = empty_result\<lparr>tool_step_attempted := calls \<noteq> [],
                model_step := (if step_count s > 0 then Some (step_count s) else None)\<rparr>;
          errors = (if length calls > 1 then preflight_tool_batch w tools calls else map (\<lambda>_. []) calls)
      in if list_ex (\<lambda>e. e \<noteq> []) errors
         then (preflight_rejection_result calls errors, turn s, submitted_summary s)
         else
           let b = batch_publish (process_calls w tools execute 0 calls
                     \<lparr>b_recent = recent_call_hashes (turn s), b_loops = None, b_evicted = {}, b_checkpointed = False,
                      b_result = r, b_turn = turn s, b_submitted = submitted_summary s\<rparr>)
           in (b_result b, b_turn b, b_submitted b))"

section \<open>Every call is answered\<close>

definition answers :: "message \<Rightarrow> message \<Rightarrow> bool" where
  "answers tc m = (\<exists>content. m = tool_msg (get tc ''id'') content)"

lemma tool_msg_inject [simp]: "tool_msg a c = tool_msg b d \<longleftrightarrow> a = b \<and> c = d"
  by (simp add: tool_msg_def)

lemma answers_tool_msg [simp]: "answers tc (tool_msg i c) \<longleftrightarrow> i = get tc ''id''"
  by (auto simp: answers_def)

abbreviation appended :: "Batch \<Rightarrow> message list" where
  "appended b \<equiv> messages_to_append (b_result b)"

lemma appended_add [simp]: "appended (add_message m b) = appended b @ [m]"
  by (simp add: add_message_def)

lemma appended_batch_append [simp]: "appended (fst (batch_append key b)) = appended b"
  by (simp add: batch_append_def Let_def)

lemma appended_reserve [simp]: "appended (fst (batch_reserve w key name t args cid n limit b)) = appended b"
  by (simp add: batch_reserve_def Let_def split_beta)

lemma appended_finish [simp]: "appended (batch_finish key name t cid f rk c b) = appended b"
  by (simp add: batch_finish_def Let_def split_beta)

lemma appended_publish [simp]: "appended (batch_publish b) = appended b"
  by (simp add: batch_publish_def split: option.split)

lemma messages_signals [simp]: "messages_to_append (record_signals w name args key x r) = messages_to_append r"
  by (simp add: record_signals_def Let_def)

lemma messages_apply_hashes [simp]: "messages_to_append (fst (apply_hashes_to n r t)) = messages_to_append r"
  by (simp add: apply_hashes_to_def Let_def)

lemma messages_apply_read_write [simp]: "messages_to_append (fst (apply_read_write_counter_to r t)) = messages_to_append r"
  by (simp add: apply_read_write_counter_to_def)

lemma appended_prefix [simp]: "appended (apply_completed_prefix b) = appended b"
proof -
  obtain r1 t1 where 1: "apply_hashes_to MAX_CALL_HASH_WINDOW (b_result (batch_publish b)) (b_turn (batch_publish b)) = (r1, t1)"
    by fastforce
  obtain r2 t2 where 2: "apply_read_write_counter_to r1 t1 = (r2, t2)" by fastforce
  have "messages_to_append r2 = messages_to_append r1" by (metis 2 fst_conv messages_apply_read_write)
  also have "\<dots> = appended b" by (metis 1 fst_conv messages_apply_hashes appended_publish)
  finally show ?thesis by (simp add: apply_completed_prefix_def 1 2 Let_def split_beta)
qed

lemma appended_checkpoint [simp]: "appended (batch_checkpoint b) = appended b"
  by (simp add: batch_checkpoint_def)

lemma appended_sync [simp]: "appended (sync_completed_prefix b) = appended b"
  by (simp add: sync_completed_prefix_def)

lemma appended_refuse: "\<exists>c. appended (refuse_call r cid name n b) = appended b @ [tool_msg cid c]"
  by (cases r) (auto simp: refuse_call_def add_message_def)

lemma appended_run: "\<exists>c. appended (fst (run_call w t args key cid r x b)) = appended b @ [tool_msg (VStr cid) c]"
  by (simp add: run_call_def Let_def)

lemma process_call_answers:
  assumes "is_str (get tc ''id'')"
  shows "\<exists>m. answers tc m \<and> appended (fst (process_call w tools execute tc b)) = appended b @ [m]"
proof -
  have id: "VStr (str_of (get tc ''id'')) = get tc ''id''" using assms by (auto simp: str_of_def)
  let ?func = "as_dict (get tc ''function'')"
  show ?thesis
  proof (cases "parse_tool_args w ?func")
    case (Inl e)
    then show ?thesis by (simp add: process_call_def Let_def)
  next
    case (Inr args)
    let ?called = "str_of (get ?func ''name'')"
    define tool where "tool = find_exec w tools (VStr ?called)"
    define name where "name = (case tool of None \<Rightarrow> ?called | Some t \<Rightarrow> exec_name t)"
    define key where "key = tool_call_hash w tools name args"
    obtain b1 n where a: "batch_append key b = (b1, n)" by fastforce
    have b1: "appended b1 = appended b" using appended_batch_append [of key b] a by simp
    show ?thesis
    proof (cases tool)
      case None
      then show ?thesis
        using a b1 Inr appended_refuse [of Blocked "get tc ''id''" name n b1]
        unfolding process_call_def Let_def Inr tool_def [symmetric] sum.case name_def [symmetric] key_def [symmetric]
        by auto
    next
      case (Some t)
      let ?errors = "schema_errors w tool args"
      obtain b2 r where r: "(if ?errors \<noteq> [] then (b1, if n \<ge> call_limit name then Blocked else Ordinary)
          else batch_reserve w key name t args (str_of (get tc ''id'')) n (call_limit name) b1) = (b2, r)" by fastforce
      have b2: "appended b2 = appended b"
        using r b1 by (cases "?errors = []") (simp, metis appended_reserve fst_conv, simp)
      have eq: "process_call w tools execute tc b =
          (if \<not> admits r then (refuse_call r (get tc ''id'') name n b2, False)
           else if ?errors \<noteq> [] then (add_message (tool_msg (get tc ''id'')
               (''Error: schema validation failed: '' @ take 1000 (py_join ''; '' ?errors))) b2, False)
           else run_call w t args key (str_of (get tc ''id'')) r (execute t args) b2)"
        using a r Some
        unfolding process_call_def Let_def Inr tool_def [symmetric] sum.case name_def [symmetric] key_def [symmetric] by simp
      show ?thesis
        unfolding eq using appended_refuse [of r "get tc ''id''" name n b2] b2
          appended_run [of w t args key "str_of (get tc ''id'')" r "execute t args" b2]
        by (auto simp: id)
    qed
  qed
qed

lemma skipped_answers: "\<exists>ms. list_all2 answers tcs ms \<and>
    appended (foldl (\<lambda>b tc. add_message (tool_msg (get tc ''id'') text) b) b tcs) = appended b @ ms"
proof (induction tcs arbitrary: b)
  case (Cons tc tcs)
  let ?b = "add_message (tool_msg (get tc ''id'') text) b"
  obtain ms where "list_all2 answers tcs ms" "appended (foldl (\<lambda>b tc. add_message (tool_msg (get tc ''id'') text) b) ?b tcs) = appended ?b @ ms"
    using Cons.IH by blast
  then show ?case by (intro exI [of _ "tool_msg (get tc ''id'') text # ms"]) simp
qed simp

lemma process_calls_answers:
  "list_all (\<lambda>tc. is_str (get tc ''id'')) tcs \<Longrightarrow>
   \<exists>ms. list_all2 answers tcs ms \<and> appended (process_calls w tools execute i tcs b) = appended b @ ms"
proof (induction tcs arbitrary: i b)
  case (Cons tc tcs)
  obtain b' stop where p: "process_call w tools (execute i) tc b = (b', stop)" by fastforce
  obtain m where m: "answers tc m" "appended b' = appended b @ [m]"
    using process_call_answers [of tc w tools "execute i" b] Cons.prems p by auto
  show ?case
  proof (cases stop)
    case True
    obtain ms where "list_all2 answers tcs ms"
      "appended (foldl (\<lambda>b tc. add_message (tool_msg (get tc ''id'') TERMINAL_CAPTURE_SKIP_MESSAGE) b) b' tcs) = appended b' @ ms"
      using skipped_answers by blast
    then show ?thesis using p True m by (intro exI [of _ "m # ms"]) simp
  next
    case False
    obtain ms where "list_all2 answers tcs ms" "appended (process_calls w tools execute (Suc i) tcs b') = appended b' @ ms"
      using Cons.IH [of "Suc i" b'] Cons.prems by auto
    then show ?thesis using p False m by (intro exI [of _ "m # ms"]) simp
  qed
qed simp

lemma rejection_answers:
  assumes "list_all (\<lambda>tc. is_str (get tc ''id'')) calls"
  shows "list_all2 answers calls (messages_to_append (preflight_rejection_result calls errors))"
  using assms
  by (simp add: preflight_rejection_result_def list_all2_conv_all_nth list_all_length rejection_id_def)

lemma tool_process_answers:
  assumes "list_all (\<lambda>tc. is_str (get tc ''id'')) calls"
  shows "list_all2 answers calls (messages_to_append (fst (tool_process w tools execute calls s)))"
proof -
  define b0 where "b0 = \<lparr>b_recent = recent_call_hashes (turn s), b_loops = None, b_evicted = {}, b_checkpointed = False,
     b_result = empty_result\<lparr>tool_step_attempted := calls \<noteq> [],
       model_step := (if step_count s > 0 then Some (step_count s) else None)\<rparr>,
     b_turn = turn s, b_submitted = submitted_summary s\<rparr>"
  have "appended b0 = []" by (simp add: b0_def empty_result_def)
  then have "list_all2 answers calls (appended (batch_publish (process_calls w tools execute 0 calls b0)))"
    using process_calls_answers [OF assms, of w tools execute 0 b0] by auto
  then show ?thesis
    using rejection_answers [OF assms] unfolding tool_process_def Let_def b0_def by (simp split: if_split)
qed

text \<open>
  C25. No tool call is left unanswered.  Whatever the tools do, whatever the arguments are and whichever
  calls the preflight, the schema or the repeat gate reject, the result of a batch holds exactly one
  tool message per call, in call order, carrying the id of its call; also after a terminal capture.
\<close>

theorem every_call_answered:
  assumes "list_all (\<lambda>tc. is_str (get tc ''id'')) calls"
  shows "list_all2 answers calls (messages_to_append (fst (tool_process w tools execute calls s)))"
  using assms by (rule tool_process_answers)

theorem every_call_answered_witness:
  "\<forall>w execute s. length (messages_to_append (fst
     (tool_process w [] execute [[(''id'', VStr ''c1'')], [(''id'', VStr ''c2'')]] s))) = 2"
proof (intro allI)
  fix w execute s
  have "list_all2 answers [[(''id'', VStr ''c1'')], [(''id'', VStr ''c2'')]]
      (messages_to_append (fst (tool_process w [] execute [[(''id'', VStr ''c1'')], [(''id'', VStr ''c2'')]] s)))"
    by (rule every_call_answered) (simp add: get_def)
  then show "length (messages_to_append (fst
     (tool_process w [] execute [[(''id'', VStr ''c1'')], [(''id'', VStr ''c2'')]] s))) = 2"
    by (simp add: list_all2_lengthD [symmetric])
qed

section \<open>What the preflight admits\<close>

abbreviation batch_ids :: "message list \<Rightarrow> pyval list" where
  "batch_ids calls \<equiv> map (\<lambda>tc. get tc ''id'') calls"

lemma duplicate_ids_iff:
  "i \<in> set (duplicate_ids tcs seen) \<longleftrightarrow>
     usable_id i \<and> i \<in> set (batch_ids tcs) \<and> (i \<in> set seen \<or> 2 \<le> count_list (batch_ids tcs) i)"
proof (induction tcs arbitrary: seen)
  case (Cons tc tcs)
  have c: "1 \<le> count_list (batch_ids tcs) i \<longleftrightarrow> i \<in> set (batch_ids tcs)"
    by (metis count_list_0_iff less_one not_le)
  show ?case
    using Cons.IH [of seen] Cons.IH [of "get tc ''id'' # seen"] c
    by (auto simp: usable_id_def Let_def)
qed simp

lemma distinct_count: "(\<forall>x \<in> set xs. count_list xs x < 2) \<longleftrightarrow> distinct xs"
proof (induction xs)
  case (Cons x xs)
  have "count_list xs y < 2" if "y \<in> set xs" "\<forall>z \<in> set (x # xs). count_list (x # xs) z < 2" for y
    using that by (metis count_list.simps(2) add_lessD1 list.set_intros(2))
  moreover have "x \<notin> set xs" if "count_list (x # xs) x < 2" using that by (simp add: count_list_0_iff [symmetric])
  moreover have "count_list (x # xs) z < 2" if "x \<notin> set xs" "distinct xs" "z \<in> set (x # xs)" for z
    using that Cons.IH by (auto simp: count_list_0_iff)
  ultimately show ?case using Cons.IH by (metis distinct.simps(2) list.set_intros(1))
qed simp

text \<open>What one call of an admissible batch must be.\<close>

definition well_formed_call :: "World \<Rightarrow> ExecTool list \<Rightarrow> message \<Rightarrow> bool" where
  "well_formed_call w tools tc =
     (case get tc ''function'' of
        VDict func \<Rightarrow>
          (case get func ''name'' of
             VStr name \<Rightarrow> name \<noteq> [] \<and>
               (case (parse_tool_args w func, find_exec w tools (VStr name)) of
                  (Inr args, Some t) \<Rightarrow>
                    is_dict (x_parameters t) \<longrightarrow> validate (w_re_ok w) (w_re_search w) (VDict args) (x_parameters t) = []
                | _ \<Rightarrow> False)
           | _ \<Rightarrow> False)
      | _ \<Rightarrow> False)"

lemma args_error_nonempty: "args_error_text w func e \<noteq> []"
  by (cases e) (simp_all add: args_error_text_def Let_def)

lemma preflight_call_iff:
  "preflight_call w tools dups tc = [] \<longleftrightarrow>
     usable_id (get tc ''id'') \<and> get tc ''id'' \<notin> set dups \<and> well_formed_call w tools tc"
proof (cases "usable_id (get tc ''id'') \<and> get tc ''id'' \<notin> set dups")
  case False
  then show ?thesis by (auto simp: preflight_call_def usable_id_def Let_def)
next
  case True
  show ?thesis
  proof (cases "get tc ''function''")
    case (VDict func)
    show ?thesis
    proof (cases "get func ''name''")
      case (VStr name)
      then show ?thesis
        using True VDict args_error_nonempty
        by (auto simp: preflight_call_def usable_id_def well_formed_call_def Let_def unknown_tool_text_def schema_errors_def
            split: sum.split option.split)
    qed (use True VDict in \<open>simp_all add: preflight_call_def usable_id_def well_formed_call_def Let_def\<close>)
  qed (use True in \<open>simp_all add: preflight_call_def usable_id_def well_formed_call_def Let_def\<close>)
qed

text \<open>
  The preflight decides exactly what it documents: a batch is admitted when it has at most 32
  calls, their ids are non-empty texts and pairwise distinct, and every call names a known tool with
  arguments that parse to an object conforming to the tool's schema; one bad call rejects the batch.
\<close>

theorem preflight_decides:
  "list_all (\<lambda>e. e = []) (preflight_tool_batch w tools calls) \<longleftrightarrow>
     length calls \<le> 32 \<and> list_all usable_id (batch_ids calls) \<and> distinct (batch_ids calls) \<and>
     list_all (well_formed_call w tools) calls"
proof (cases "length calls > 32")
  case True
  then have "calls \<noteq> []" by auto
  then show ?thesis using True by (simp add: preflight_tool_batch_def list_all_iff)
next
  case False
  have "list_all (\<lambda>e. e = []) (preflight_tool_batch w tools calls) \<longleftrightarrow>
      (\<forall>tc \<in> set calls. usable_id (get tc ''id'') \<and> count_list (batch_ids calls) (get tc ''id'') < 2 \<and> well_formed_call w tools tc)"
    using False by (auto simp: preflight_tool_batch_def list_all_iff preflight_call_iff duplicate_ids_iff not_le)
  then show ?thesis using False distinct_count [of "batch_ids calls"] by (auto simp: list_all_iff)
qed

end
