(* ===== verification/Session_Run.thy ===== *)
theory Session_Run
  imports Tool_Execution
begin

text \<open>
  The turn driver of a session (\<open>application/session_run.py\<close>,
  \<open>application/_session_run_completion.py\<close>, \<open>application/run_control.py\<close>): one \<open>advance\<close> per phase,
  with the model, the tools and the host as arguments of each step.

  The steps are written in a state monad with exceptions; what a method changed before it raised stays
  changed.  An \<open>Input\<close> is what the surroundings do during one step.  The provider is asked at most a
  few times per step; its answer may depend on how many requests it has seen.  The requests are kept
  in \<open>sent\<close> (they are what the trace records).  Emitted events, trace rows and context-pressure
  calibration are observations.  Models whose thinking blocks are bound to a request prefix
  (\<open>_anthropic_history.py\<close>) take extra paths that are not modelled.
\<close>

section \<open>Values\<close>

record LLMUsage =
  lu_input :: pyval
  lu_total :: pyval
  lu_output :: pyval
  lu_context :: pyval
  lu_markup :: int

record Response =
  rs_content :: pyval
  rs_tool_calls :: "message list"
  rs_finish :: "string option"
  rs_usage :: LLMUsage
  rs_reasoning :: pyval
  rs_provider_state :: pyval
  rs_provider_items :: pyval

record LLMError =
  err_overflow :: bool
  err_choice_rejected :: bool
  err_usage :: "LLMUsage option"
  err_text :: string

datatype LLMResult = Answered Response | Failed LLMError

record Request =
  rq_messages :: "message list"
  rq_tools :: "pyval list option"
  rq_choice :: pyval
  rq_limit :: int
  rq_reserved :: int
  rq_remaining :: "int option"

record PendingStep =
  ps_response :: Response
  ps_latency :: rat

datatype RunExn =
    RunCancelled
  | TokenBudgetStop int int int
  | ContextOverflowStop
  | TeamBudgetStop
  | Provider LLMError
  | Raised string

datatype BudgetReason = ForPrecheck | ForWindDown | ForRequest | AfterResponse

record BudgetSnapshot =
  bs_used :: int
  bs_steps :: int
  bs_soft :: "int option"
  bs_hard :: "int option"
  bs_reserved :: int
  bs_minimum :: int
  bs_reason :: BudgetReason

text \<open>What a host budget policy returns: a decision with the two fields, or anything that is refused.\<close>

datatype BudgetDecision = Decision pyval pyval | NoDecision

record Settings =
  set_initial_tools :: "ExecTool list"
  set_initial_choice :: pyval
  set_hard_budget :: "int option"
  set_max_steps :: "int option"
  set_enforcement :: bool
  set_commit_reserve :: int
  set_submit_tool :: string
  set_watchdog_k :: int
  set_low_yield_m :: int
  set_deferrable :: "string list"
  set_control :: bool
  set_policy :: "(BudgetSnapshot \<Rightarrow> BudgetDecision) option"
  set_budget_mode :: BudgetNudge
  set_write_mode :: WriteNudge
  set_max_output :: int
  set_min_output :: "int \<Rightarrow> int"
  set_estimate :: "message list \<Rightarrow> pyval list option \<Rightarrow> int"
  set_process_isolated :: "bool option"   \<comment> \<open>\<open>None\<close> without an environment\<close>

abbreviation DEFAULT_LOOP_BLOCKED_LIMIT :: int where "DEFAULT_LOOP_BLOCKED_LIMIT \<equiv> 3"

record Runner =
  run_state :: SessionState
  run_tools :: "ExecTool list"
  run_choice :: pyval
  max_budget :: "int option"
  pending_step :: "PendingStep option"
  empty_stop_retried :: bool
  required_tool_retried :: bool
  tool_allowlist :: "string list option"
  gate_label :: "string option"
  steering_prev :: "int option"
  turn_start :: "int option"
  step_started :: bool
  final_prompt :: "string option"
  sent :: "Request list"

text \<open>The list a shaping pass returns: the list it was given, or a new one.\<close>

datatype ShapedList = SameList | FreshList "message list"

record Input =
  in_now :: string
  in_cancelled :: bool            \<comment> \<open>the cancellation signal when the step starts\<close>
  in_cancelled_late :: bool       \<comment> \<open>the signal after the step has awaited something\<close>
  in_env_revoked :: bool
  in_team_exhausted :: bool
  in_reservations :: int
  in_shape :: "bool \<Rightarrow> message list \<Rightarrow> (RunExn + ShapedList) \<times> int"  \<comment> \<open>with the tokens a summary was charged\<close>
  in_llm :: "nat \<Rightarrow> Request \<Rightarrow> LLMResult"
  in_execute :: "nat \<Rightarrow> ExecTool \<Rightarrow> message \<Rightarrow> Execution"
  in_deferred :: "nat \<Rightarrow> (RowStatus \<times> string) option \<times> int option \<times> string option"
  in_latency :: rat
  in_elapsed :: rat

section \<open>Steps that may raise\<close>

type_synonym 'a run = "Runner \<Rightarrow> (RunExn + 'a) \<times> Runner"

definition ret :: "'a \<Rightarrow> 'a run" where
  "ret a = (\<lambda>r. (Inr a, r))"

definition throw :: "RunExn \<Rightarrow> 'a run" where
  "throw e = (\<lambda>r. (Inl e, r))"

definition rbind :: "'a run \<Rightarrow> ('a \<Rightarrow> 'b run) \<Rightarrow> 'b run" where
  "rbind m f = (\<lambda>r. case m r of (Inl e, r') \<Rightarrow> (Inl e, r') | (Inr a, r') \<Rightarrow> f a r')"

definition andthen :: "unit run \<Rightarrow> 'b run \<Rightarrow> 'b run" where
  "andthen m k = rbind m (\<lambda>_. k)"

definition handle :: "'a run \<Rightarrow> (RunExn \<Rightarrow> 'a run) \<Rightarrow> 'a run" where
  "handle m h = (\<lambda>r. case m r of (Inl e, r') \<Rightarrow> h e r' | (Inr a, r') \<Rightarrow> (Inr a, r'))"

definition update :: "(Runner \<Rightarrow> Runner) \<Rightarrow> unit run" where
  "update f = (\<lambda>r. (Inr (), f r))"

definition reading :: "(Runner \<Rightarrow> 'a run) \<Rightarrow> 'a run" where
  "reading f = (\<lambda>r. f r r)"

definition on_state :: "(SessionState \<Rightarrow> SessionState) \<Rightarrow> unit run" where
  "on_state f = update (\<lambda>r. r\<lparr>run_state := f (run_state r)\<rparr>)"

definition try_state :: "(SessionState \<Rightarrow> SessionError + SessionState) \<Rightarrow> unit run" where
  "try_state f = reading (\<lambda>r. case f (run_state r) of
     Inl _ \<Rightarrow> throw (Raised ''session state'')
   | Inr s \<Rightarrow> update (\<lambda>r. r\<lparr>run_state := s\<rparr>))"

definition transition :: "SessionPhase \<Rightarrow> string option \<Rightarrow> unit run" where
  "transition p reason = try_state (transition_to p reason)"

definition append_to :: "Input \<Rightarrow> message \<Rightarrow> unit run" where
  "append_to i m = on_state (append_message (in_now i) m)"

definition text_message :: "string \<Rightarrow> string \<Rightarrow> message" where
  "text_message role content = [(''role'', VStr role), (''content'', VStr content)]"

section \<open>Fixed texts\<close>

text \<open>Dashes outside the range of \<open>char\<close> stand as hyphens.\<close>

definition EMPTY_STOP_NUDGE :: string where
  "EMPTY_STOP_NUDGE =
     ''Your previous response was empty - no message and no tool call. If the task is finished, say so briefly. '' @
     ''Otherwise continue now by calling the appropriate tool or giving your answer.''"

definition EMPTY_STOP_PLACEHOLDER :: string where
  "EMPTY_STOP_PLACEHOLDER = ''[no output produced this turn]''"

definition REQUIRED_TOOL_RETRY_NUDGE :: string where
  "REQUIRED_TOOL_RETRY_NUDGE =
     ''Your previous response did not call the required tool. Call one of the currently available tools to complete this step.''"

definition WIND_DOWN_NUDGE :: string where
  "WIND_DOWN_NUDGE =
     ''Exploration budget spent - all exploration tools (grep/file_read/bash) have now been removed; '' @
     ''ONLY submit_findings is available. Your NEXT action MUST be submit_findings with the evidence you already have; '' @
     ''do not call any other tool. Cite file:line / exact matched strings from your real tool results; mark each '' @
     ''finding verified|unverified; if you lack evidence for a dimension, set insufficient_evidence - do NOT fabricate.''"

definition WIND_DOWN_RETRY :: string where
  "WIND_DOWN_RETRY =
     ''Only submit_findings is available. Call submit_findings now with the evidence you have; do not call any other tool. '' @
     ''Cite file:line / exact matched strings; mark each finding verified|unverified; set insufficient_evidence if you lack evidence - do NOT fabricate.''"

definition STRUCTURED_OUTPUT_TOOL :: string where "STRUCTURED_OUTPUT_TOOL = ''structured_output''"

definition submit_tool_choice :: "string \<Rightarrow> pyval" where
  "submit_tool_choice name = VDict [(''type'', VStr ''function''), (''function'', VDict [(''name'', VStr name)])]"

text \<open>\<open>str.capitalize\<close>; the reasons it is applied to start with an ASCII letter.\<close>

definition upper_char :: "char \<Rightarrow> char" where
  "upper_char c = (let n = code c in if 97 \<le> n \<and> n \<le> 122 then char_of (n - 32) else c)"

definition capitalize :: "string \<Rightarrow> string" where
  "capitalize s = (case s of [] \<Rightarrow> [] | c # cs \<Rightarrow> upper_char c # lower cs)"

definition stopped_text :: "string \<Rightarrow> string" where
  "stopped_text reason = ''['' @ capitalize reason @ ''. Session stopped.]''"

section \<open>Usage\<close>

definition nonnegative_usage_int :: "pyval \<Rightarrow> string + int" where
  "nonnegative_usage_int v = (case v of VInt i \<Rightarrow> if i < 0 then Inl ''provider usage'' else Inr i | _ \<Rightarrow> Inl ''provider usage'')"

definition normalize_completion_usage :: "LLMUsage \<Rightarrow> string + int \<times> int" where
  "normalize_completion_usage u =
     bnd (nonnegative_usage_int (lu_input u)) (\<lambda>inp.
     bnd (nonnegative_usage_int (lu_total u)) (\<lambda>tot.
     bnd (if lu_output u = VNone then Inr (max 0 (tot - inp)) else nonnegative_usage_int (lu_output u)) (\<lambda>out.
     bnd (if lu_context u = VNone then Inr inp else nonnegative_usage_int (lu_context u)) (\<lambda>ctx.
       Inr (ctx, max tot (inp + out))))))"

definition lift_usage :: "LLMUsage \<Rightarrow> (int \<times> int) run" where
  "lift_usage u = (case normalize_completion_usage u of Inl e \<Rightarrow> throw (Raised e) | Inr p \<Rightarrow> ret p)"

definition mark_budget_reserve_consumed :: "Settings \<Rightarrow> bool \<Rightarrow> unit run" where
  "mark_budget_reserve_consumed c protected_call = update (\<lambda>r.
     case max_budget r of
       None \<Rightarrow> r
     | Some b \<Rightarrow>
         if protected_call \<and> used_tokens (run_state r) \<ge> b - set_commit_reserve c
         then r\<lparr>run_state := (run_state r)\<lparr>budget_reserve_consumed := True\<rparr>\<rparr> else r)"

text \<open>The answer of the last assistant message of the turn.\<close>

definition py_slice_from :: "int \<Rightarrow> 'a list \<Rightarrow> 'a list" where
  "py_slice_from i xs = (if i < 0 then py_last (nat (- i)) xs else drop (nat i) xs)"

definition answers_turn :: "message \<Rightarrow> bool" where
  "answers_turn m =
     (get m ''role'' = VStr ''assistant'' \<and> truthy (get m ''content'') \<and> get m ''_opencollab_placeholder'' \<noteq> VBool True)"

definition last_assistant_answer :: "message list \<Rightarrow> int option \<Rightarrow> pyval" where
  "last_assistant_answer ms start =
     (case start of
        None \<Rightarrow> VStr []
      | Some i \<Rightarrow> (case find answers_turn (rev (py_slice_from i ms)) of Some m \<Rightarrow> get m ''content'' | None \<Rightarrow> VStr []))"

section \<open>Stopping\<close>

definition stop_precheck :: "Input \<Rightarrow> string \<Rightarrow> string option \<Rightarrow> unit run" where
  "stop_precheck i reason msg =
     andthen (append_to i (text_message ''system'' (case msg of Some m \<Rightarrow> m | None \<Rightarrow> stopped_text reason)))
       (transition STOPPED (Some reason))"

definition stop_for_run_cancellation :: "Input \<Rightarrow> unit run" where
  "stop_for_run_cancellation i = stop_precheck i ''interrupted by user'' (Some ''[Session interrupted by user]'')"

definition clear_pending_step :: "unit run" where
  "clear_pending_step = update (\<lambda>r. r\<lparr>pending_step := None, run_state := (run_state r)\<lparr>pending_step_latency := None\<rparr>\<rparr>)"

definition stop_on_context_overflow :: "Input \<Rightarrow> unit run" where
  "stop_on_context_overflow i =
     (let reason = ''context overflow: prompt exceeds the model context window even after compaction''
      in andthen (append_to i (text_message ''system'' (stopped_text reason)))
           (andthen clear_pending_step (transition STOPPED (Some reason))))"

section \<open>Host budget decisions\<close>

definition accept_decision :: "Settings \<Rightarrow> BudgetDecision \<Rightarrow> Runner \<Rightarrow> (int option \<times> string option) option" where
  "accept_decision c d r =
     (case d of
        NoDecision \<Rightarrow> None
      | Decision soft final \<Rightarrow>
          let soft_ok = (case soft of
                VNone \<Rightarrow> set_hard_budget c = None \<and> max_budget r = None
              | VInt p \<Rightarrow> p \<ge> 1 \<and>
                  (case max_budget r of None \<Rightarrow> False
                   | Some b \<Rightarrow> p \<ge> b \<and> (p = b \<or> p \<ge> used_tokens (run_state r))) \<and>
                  (case set_hard_budget c of None \<Rightarrow> True | Some h \<Rightarrow> p \<le> h)
              | _ \<Rightarrow> False);
              final_ok = (case final of
                VNone \<Rightarrow> True
              | VStr t \<Rightarrow> py_strip t \<noteq> [] \<and> CHR 0x00 \<notin> set t
              | _ \<Rightarrow> False)
          in if soft_ok \<and> final_ok
             then Some (case soft of VInt p \<Rightarrow> Some p | _ \<Rightarrow> None, case final of VStr t \<Rightarrow> Some t | _ \<Rightarrow> None) else None)"

definition raise_if_cancelled :: "bool \<Rightarrow> unit run" where
  "raise_if_cancelled cancelled = (if cancelled then throw RunCancelled else ret ())"

definition decide_run_budget :: "Settings \<Rightarrow> Input \<Rightarrow> BudgetReason \<Rightarrow> int \<Rightarrow> int \<Rightarrow> unit run" where
  "decide_run_budget c i reason reserved minimum =
     (case set_policy c of
        None \<Rightarrow> ret ()
      | Some policy \<Rightarrow>
          if \<not> set_control c then ret ()
          else andthen (raise_if_cancelled (in_cancelled i)) (reading (\<lambda>r.
            if (case set_hard_budget c of None \<Rightarrow> False | Some h \<Rightarrow> used_tokens (run_state r) \<ge> h) then ret ()
            else andthen (raise_if_cancelled (in_cancelled_late i))
              (case accept_decision c (policy \<lparr>bs_used = used_tokens (run_state r), bs_steps = step_count (run_state r),
                       bs_soft = max_budget r, bs_hard = set_hard_budget c, bs_reserved = reserved, bs_minimum = minimum,
                       bs_reason = reason\<rparr>) r of
                 None \<Rightarrow> throw (Raised ''run-control budget policy failed'')
               | Some (soft, final) \<Rightarrow>
                   update (\<lambda>r. r\<lparr>max_budget := soft,
                     final_prompt := (case final of Some t \<Rightarrow> Some t | None \<Rightarrow> final_prompt r)\<rparr>)))))"

section \<open>Tool schemas\<close>

definition ISOLATION_NOTE :: string where
  "ISOLATION_NOTE =
     ''Unavailable in the current execution environment: this tool requires an OS process sandbox. '' @
     ''Use another available tool or report that an isolated execution environment is required. ''"

definition schema_function :: "pyval \<Rightarrow> message" where
  "schema_function s = as_dict (get (as_dict s) ''function'')"

definition block_schema :: "pyval list \<Rightarrow> pyval \<Rightarrow> pyval" where
  "block_schema blocked s =
     (let f = schema_function s
      in if get f ''name'' \<in> set blocked
         then VDict (AList.update ''function'' (VDict (AList.update ''description''
                (VStr (ISOLATION_NOTE @ str_of (get_or f ''description'' (VStr [])))) f)) (as_dict s))
         else s)"

definition build_tool_schemas :: "World \<Rightarrow> Settings \<Rightarrow> (pyval list option) run" where
  "build_tool_schemas w c = reading (\<lambda>r.
     case tool_schemas (w_nfkc w) (map spec (run_tools r)) of
       Inl _ \<Rightarrow> throw (Raised ''tool names'')
     | Inr schemas \<Rightarrow>
         let blocked = map (\<lambda>t. tool_name (spec t)) (filter x_isolated (run_tools r));
             schemas' = (if set_process_isolated c = Some False then map (block_schema blocked) schemas else schemas)
         in ret (if schemas' = [] then None else Some schemas'))"

definition tool_schemas_with_names :: "pyval list option \<Rightarrow> string list \<Rightarrow> pyval list option" where
  "tool_schemas_with_names tools names =
     (case tools of
        None \<Rightarrow> None
      | Some specs \<Rightarrow>
          let kept = filter (\<lambda>s. get (schema_function s) ''name'' \<in> VStr ` set names) specs
          in Some (if kept = [] then specs else kept))"

definition tool_names :: "ExecTool list \<Rightarrow> string list" where
  "tool_names tools = map exec_name tools"

definition hard_steering_tools :: "ExecTool list \<Rightarrow> pyval \<Rightarrow> string list \<times> string" where
  "hard_steering_tools tools override =
     (let structured = ([STRUCTURED_OUTPUT_TOOL], ''hard structured-output gate'')
      in if override = submit_tool_choice STRUCTURED_OUTPUT_TOOL then structured
         else if list_ex (\<lambda>n. n \<in> set WRITE_TOOLS) (tool_names tools) then (WRITE_TOOLS, ''hard write gate'')
         else if STRUCTURED_OUTPUT_TOOL \<in> set (tool_names tools) then structured
         else ([], ''hard tool gate''))"

section \<open>One provider request\<close>

definition remaining_budget_tokens :: "Settings \<Rightarrow> Input \<Rightarrow> Runner \<Rightarrow> int option" where
  "remaining_budget_tokens c i r =
     (let ceilings = (case max_budget r of Some b \<Rightarrow> [b] | None \<Rightarrow> []) @
            (if set_control c then case set_hard_budget c of Some h \<Rightarrow> [h] | None \<Rightarrow> [] else [])
      in case ceilings of [] \<Rightarrow> None
         | b # bs \<Rightarrow> Some (foldl min b bs - used_tokens (run_state r) - in_reservations i))"

definition configured_output :: "Settings \<Rightarrow> int" where
  "configured_output c = max 1 (set_max_output c)"

definition minimum_output :: "Settings \<Rightarrow> int" where
  "minimum_output c = set_min_output c (configured_output c)"

definition append_final_prompt :: "string option \<Rightarrow> message list \<Rightarrow> message list" where
  "append_final_prompt prompt ms =
     (case prompt of
        None \<Rightarrow> ms
      | Some t \<Rightarrow> let m = text_message ''system'' t in if m \<in> set ms then ms else ms @ [m])"

text \<open>
  \<open>_prepare_request_budget\<close> appends the final prompt to the request in place; when the request is the
  session's own message list (\<open>shared\<close>) that list changes with it.
\<close>

definition prepare_request_budget ::
  "Settings \<Rightarrow> Input \<Rightarrow> bool \<Rightarrow> message list \<Rightarrow> pyval list option \<Rightarrow> (message list) run" where
  "prepare_request_budget c i shared ms tools =
     (if \<not> set_control c then ret ms
      else andthen (decide_run_budget c i ForRequest (set_estimate c ms tools) (minimum_output c))
        (andthen (raise_if_cancelled (in_cancelled_late i)) (reading (\<lambda>r.
           let ms' = append_final_prompt (final_prompt r) ms
           in andthen (if shared then on_state (\<lambda>s. s\<lparr>messages := ms'\<rparr>) else ret ()) (ret ms')))))"

definition request_output_limit ::
  "Settings \<Rightarrow> Input \<Rightarrow> message list \<Rightarrow> pyval list option \<Rightarrow> (int \<times> int \<times> int option) run" where
  "request_output_limit c i ms tools =
     (if in_team_exhausted i then throw TeamBudgetStop
      else reading (\<lambda>r.
        let estimated = (max_budget r \<noteq> None \<or> (set_control c \<and> set_hard_budget c \<noteq> None));
            reserved = (if estimated then set_estimate c ms tools else 0)
        in case remaining_budget_tokens c i r of
             None \<Rightarrow> ret (configured_output c, reserved, None)
           | Some remaining \<Rightarrow>
               if remaining - reserved < minimum_output c
               then throw (TokenBudgetStop reserved remaining (minimum_output c))
               else ret (min (configured_output c) (remaining - reserved), reserved, Some remaining)))"

definition start_llm_step :: "unit run" where
  "start_llm_step = update (\<lambda>r.
     if step_started r then r else r\<lparr>run_state := fst (advance_step (run_state r)), step_started := True\<rparr>)"

definition charge_error_usage :: "Settings \<Rightarrow> bool \<Rightarrow> LLMError \<Rightarrow> unit run" where
  "charge_error_usage c protected_call e =
     (case err_usage e of
        None \<Rightarrow> ret ()
      | Some u \<Rightarrow> rbind (lift_usage u) (\<lambda>(_, total_tokens).
          andthen (try_state (add_used_tokens (VInt total_tokens))) (mark_budget_reserve_consumed c protected_call)))"

definition invoke_llm :: "Settings \<Rightarrow> Input \<Rightarrow> Request \<Rightarrow> Response run" where
  "invoke_llm c i req =
     andthen start_llm_step (andthen (if set_control c then raise_if_cancelled (in_cancelled_late i) else ret ())
       (reading (\<lambda>r.
          andthen (update (\<lambda>r. r\<lparr>sent := sent r @ [req]\<rparr>))
            (case in_llm i (length (sent r)) req of
               Answered response \<Rightarrow> ret response
             | Failed e \<Rightarrow> andthen (charge_error_usage c (wind_down_done (run_state r)) e) (throw (Provider e))))))"

definition complete_with_choice ::
  "Settings \<Rightarrow> Input \<Rightarrow> bool \<Rightarrow> message list \<Rightarrow> pyval list option \<Rightarrow> pyval \<Rightarrow> Response run" where
  "complete_with_choice c i shared ms tools choice =
     rbind (prepare_request_budget c i shared ms tools) (\<lambda>ms'.
     rbind (request_output_limit c i ms' tools) (\<lambda>(limit, reserved, remaining).
       invoke_llm c i \<lparr>rq_messages = ms', rq_tools = tools, rq_choice = choice, rq_limit = limit,
                        rq_reserved = reserved, rq_remaining = remaining\<rparr>))"

definition forced_choice :: "pyval \<Rightarrow> bool" where
  "forced_choice choice =
     (choice = VStr ''required'' \<or>
      (case choice of VDict d \<Rightarrow> get d ''type'' \<in> {VStr ''any'', VStr ''tool'', VStr ''function''} | _ \<Rightarrow> False))"

text \<open>
  \<open>except Exception\<close> catches every exception of the retry, the stop signals among them, and raises
  the first rejection instead.  The second attempt sees the request with the final prompt.
\<close>

definition complete :: "Settings \<Rightarrow> Input \<Rightarrow> bool \<Rightarrow> message list \<Rightarrow> pyval list option \<Rightarrow> pyval \<Rightarrow> Response run" where
  "complete c i shared ms tools override = reading (\<lambda>r.
     let choice = (if truthy override then override else run_choice r)
     in handle (complete_with_choice c i shared ms tools choice) (\<lambda>e.
          case e of
            Provider pe \<Rightarrow>
              if \<not> forced_choice choice \<or> err_overflow pe \<or> \<not> err_choice_rejected pe then throw e
              else handle (reading (\<lambda>r'. complete_with_choice c i shared
                     (if set_control c then append_final_prompt (final_prompt r') ms else ms) tools (VStr ''auto'')))
                     (\<lambda>_. throw e)
          | _ \<Rightarrow> throw e))"

section \<open>The shaped call\<close>

definition steering_input :: "Settings \<Rightarrow> Runner \<Rightarrow> SteeringInput" where
  "steering_input c r =
     (let st = run_state r; t = turn st; names = tool_names (run_tools r)
      in \<lparr>st_used_tokens = used_tokens st, st_max_budget = max_budget r, st_step_count = step_count st + 1,
          st_max_steps = set_max_steps c, st_reads = (if write_effect_unknown t then 0 else reads_since_last_edit t),
          st_has_write = list_ex (\<lambda>n. n \<in> set WRITE_TOOLS) names, st_has_structured = STRUCTURED_OUTPUT_TOOL \<in> set names,
          st_structured_override = submit_tool_choice STRUCTURED_OUTPUT_TOOL, st_write_landed = has_landed_write t,
          st_budget_mode = set_budget_mode c, st_write_mode = set_write_mode c,
          st_prev_used = (case steering_prev r of None \<Rightarrow> used_tokens st | Some p \<Rightarrow> p)\<rparr>)"

definition steering_persists :: "message option \<Rightarrow> SessionState \<Rightarrow> bool" where
  "steering_persists steering st =
     (steering \<noteq> None \<and> messages st \<noteq> [] \<and> get (last (messages st)) ''role'' = VStr ''user'')"

definition fold_last :: "message option \<Rightarrow> SessionState \<Rightarrow> SessionState" where
  "fold_last steering st =
     (case steering of
        None \<Rightarrow> st
      | Some m \<Rightarrow> st\<lparr>messages := butlast (messages st) @ [fold_steering (last (messages st)) (str_of (get m ''content''))]\<rparr>)"

text \<open>\<open>_anthropic_history_input\<close>: the transcript itself, or a copy built on a recorded provider view.\<close>

definition history_input :: "SessionState \<Rightarrow> message list \<times> bool" where
  "history_input st =
     (case anthropic_history st of
        None \<Rightarrow> (messages st, True)
      | Some h \<Rightarrow>
          let d = as_dict h;
              recorded = (case get d ''messages'' of VList xs \<Rightarrow> map as_dict xs | _ \<Rightarrow> []);
              n = (case get d ''source_count'' of VInt k \<Rightarrow> k | _ \<Rightarrow> 0)
          in (recorded @ py_slice_from n (messages st), False))"

text \<open>A shaping pass over the history: the view and whether it is still the session's own list.\<close>

definition shape_history :: "Settings \<Rightarrow> Input \<Rightarrow> bool \<Rightarrow> (message list \<times> bool) run" where
  "shape_history c i forced = reading (\<lambda>r.
     case history_input (run_state r) of
       (history, own) \<Rightarrow>
         (case in_shape i forced history of
            (outcome, charged) \<Rightarrow>
              andthen (try_state (add_used_tokens (VInt charged)))
                (case outcome of
                   Inl e \<Rightarrow> throw e
                 | Inr SameList \<Rightarrow> ret (history, own)
                 | Inr (FreshList ms) \<Rightarrow> ret (ms, False))))"

definition set_gate :: "NudgeLevel option \<Rightarrow> pyval \<Rightarrow> unit run" where
  "set_gate level override = update (\<lambda>r.
     if level = Some Hard
     then (case hard_steering_tools (run_tools r) override of
             (names, label) \<Rightarrow> r\<lparr>tool_allowlist := Some names, gate_label := Some label\<rparr>)
     else r\<lparr>tool_allowlist := None, gate_label := None\<rparr>)"

definition narrowed_tools :: "Runner \<Rightarrow> NudgeLevel option \<Rightarrow> pyval \<Rightarrow> pyval list option \<Rightarrow> pyval list option" where
  "narrowed_tools r level override tools =
     (if level = Some Hard then tool_schemas_with_names tools (fst (hard_steering_tools (run_tools r) override)) else tools)"

definition call_llm :: "Settings \<Rightarrow> Input \<Rightarrow> pyval list option \<Rightarrow> Response run" where
  "call_llm c i tools = reading (\<lambda>r0.
     case build_steering_block (steering_input c r0) of
       (steering, override, level) \<Rightarrow>
         let persisted = steering_persists steering (run_state r0)
         in andthen (update (\<lambda>r. r\<lparr>steering_prev := Some (used_tokens (run_state r))\<rparr>))
              (andthen (if persisted then on_state (fold_last steering) else ret ())
                (rbind (shape_history c i False) (\<lambda>(view, shared).
                   let extra = (if persisted then [] else case steering of Some m \<Rightarrow> [m] | None \<Rightarrow> []);
                       request = view @ extra;
                       tools' = narrowed_tools r0 level override tools
                   in andthen (set_gate level override)
                        (handle (complete c i (shared \<and> extra = []) request tools' override) (\<lambda>e.
                           case e of
                             Provider pe \<Rightarrow>
                               if \<not> err_overflow pe then throw e
                               else rbind (shape_history c i True) (\<lambda>(forced, shared').
                                 handle (complete c i shared' forced tools' override) (\<lambda>e'.
                                   case e' of
                                     Provider pe' \<Rightarrow> if err_overflow pe' then throw ContextOverflowStop else throw e'
                                   | _ \<Rightarrow> throw e'))
                           | _ \<Rightarrow> throw e))))))"

section \<open>Gates before a call\<close>

definition ensure_environment :: "Input \<Rightarrow> unit run" where
  "ensure_environment i = (if in_env_revoked i then throw (Raised ''Execution environment has been revoked. Session cannot continue.'') else ret ())"

definition enter_wind_down :: "World \<Rightarrow> Settings \<Rightarrow> Input \<Rightarrow> unit run" where
  "enter_wind_down w c i =
     andthen (on_state (\<lambda>s. s\<lparr>wind_down_done := True, wind_down_attempts := wind_down_attempts s + 1,
                              wind_down_token_mark := used_tokens s\<rparr>))
       (andthen (update (\<lambda>r. case find_exec w (run_tools r) (VStr (set_submit_tool c)) of
                    None \<Rightarrow> r
                  | Some t \<Rightarrow> r\<lparr>run_tools := [t], run_choice := submit_tool_choice (set_submit_tool c)\<rparr>))
         (append_to i (text_message ''system'' WIND_DOWN_NUDGE)))"

definition budget_spent :: "Settings \<Rightarrow> Runner \<Rightarrow> bool" where
  "budget_spent c r =
     (case max_budget r of None \<Rightarrow> False | Some b \<Rightarrow> used_tokens (run_state r) \<ge> b - set_commit_reserve c)"

definition watchdog_tripped :: "Settings \<Rightarrow> SessionState \<Rightarrow> bool" where
  "watchdog_tripped c s = (\<not> last_progress_unknown (turn s) \<and> steps_since_progress (turn s) \<ge> set_watchdog_k c)"

definition low_yield_tripped :: "Settings \<Rightarrow> SessionState \<Rightarrow> bool" where
  "low_yield_tripped c s = (\<not> last_progress_unknown (turn s) \<and> low_yield_since_progress (turn s) \<ge> set_low_yield_m c)"

text \<open>The brakes once the spend has been decided; the result says whether a phase was selected.\<close>

definition engage_brake :: "World \<Rightarrow> Settings \<Rightarrow> Input \<Rightarrow> bool \<Rightarrow> bool run" where
  "engage_brake w c i spent = reading (\<lambda>r.
     let s = run_state r; brake = (spent \<or> watchdog_tripped c s \<or> low_yield_tripped c s)
     in if \<not> brake \<or> \<not> is_empty (pending_events s) then ret False
        else if spent \<and> budget_reserve_consumed s
        then andthen (stop_precheck i ''budget reserve exhausted: protected commit turn already used'' None) (ret True)
        else andthen (if spent then on_state (\<lambda>s. s\<lparr>budget_reserve_consumed := True\<rparr>) else ret ())
          (andthen (enter_wind_down w c i) (andthen (transition CALLING_LLM None) (ret True))))"

definition apply_enforcement_gate :: "World \<Rightarrow> Settings \<Rightarrow> Input \<Rightarrow> bool run" where
  "apply_enforcement_gate w c i = reading (\<lambda>r.
     let s = run_state r
     in if \<not> set_enforcement c then ret False
        else if wind_down_done s
        then if wind_down_attempts s < 2
             then andthen (on_state (\<lambda>s. s\<lparr>wind_down_attempts := wind_down_attempts s + 1\<rparr>))
                    (andthen (append_to i (text_message ''system'' WIND_DOWN_RETRY)) (andthen (transition CALLING_LLM None) (ret True)))
             else andthen (stop_precheck i ''wind-down complete: forced commit within reserve'' None) (ret True)
        else if budget_spent c r \<and> \<not> watchdog_tripped c s \<and> \<not> low_yield_tripped c s
        then andthen (decide_run_budget c i ForWindDown 0 1) (reading (\<lambda>r'. engage_brake w c i (budget_spent c r')))
        else engage_brake w c i (budget_spent c r))"

definition over_budget :: "Runner \<Rightarrow> bool" where
  "over_budget r = (case max_budget r of None \<Rightarrow> False | Some b \<Rightarrow> used_tokens (run_state r) \<ge> b)"

definition precheck_limits :: "World \<Rightarrow> Settings \<Rightarrow> Input \<Rightarrow> unit run" where
  "precheck_limits w c i = reading (\<lambda>r.
     if over_budget r
     then stop_precheck i (''budget exceeded: '' @ int_str (used_tokens (run_state r)) @ '' tokens used'') None
     else if in_team_exhausted i
     then stop_precheck i ''team budget exceeded: aggregate spend reached the global cap'' None
     else rbind (apply_enforcement_gate w c i) (\<lambda>chosen.
       if chosen then ret ()
       else reading (\<lambda>r.
         if (case set_max_steps c of None \<Rightarrow> False | Some n \<Rightarrow> step_count (run_state r) \<ge> n)
         then stop_precheck i (''step limit reached: '' @ int_str (step_count (run_state r)) @ '' steps'') None
         else transition CALLING_LLM None)))"

definition precheck :: "World \<Rightarrow> Settings \<Rightarrow> Input \<Rightarrow> unit run" where
  "precheck w c i =
     andthen (ensure_environment i)
       (if in_cancelled i then stop_for_run_cancellation i
        else if in_env_revoked i then stop_precheck i ''execution environment has been revoked'' None
        else reading (\<lambda>r.
          let blocked = blocked_rounds (loop_state (turn (run_state r)))
          in if blocked \<ge> DEFAULT_LOOP_BLOCKED_LIMIT
             then stop_precheck i (''loop block limit reached: '' @ int_str blocked @ '' unproductive tool batches'') None
             else (\<lambda>r. case decide_run_budget c i ForPrecheck 0 1 r of
                     (Inl RunCancelled, r') \<Rightarrow> stop_for_run_cancellation i r'
                   | (Inl e, r') \<Rightarrow> (Inl e, r')
                   | (Inr _, r') \<Rightarrow> precheck_limits w c i r')))"

section \<open>The model call\<close>

definition truncated :: "Response \<Rightarrow> bool" where
  "truncated rs = (rs_finish rs \<in> {Some ''length'', Some ''max_tokens'', Some ''model_context_window_exceeded''})"

definition has_content :: "Response \<Rightarrow> bool" where
  "has_content rs = (case rs_content rs of VStr t \<Rightarrow> py_strip t \<noteq> [] | _ \<Rightarrow> False)"

definition plain_answer :: "Response \<Rightarrow> message" where
  "plain_answer rs = [(''role'', VStr ''assistant''), (''content'', rs_content rs)]"

definition assistant_message :: "Response \<Rightarrow> message" where
  "assistant_message rs =
     [(''role'', VStr ''assistant'')] @
     (if truthy (rs_reasoning rs) then [(''reasoning_content'', rs_reasoning rs)] else []) @
     (if truthy (rs_provider_state rs) then [(''provider_state'', rs_provider_state rs)] else []) @
     (if has_content rs then [(''content'', rs_content rs)] else []) @
     (if rs_tool_calls rs \<noteq> [] then [(''tool_calls'', VList (map VDict (rs_tool_calls rs)))] else []) @
     (if truthy (rs_provider_items rs) then [(''response_items'', rs_provider_items rs)] else [])"

definition append_assistant_message :: "Input \<Rightarrow> Response \<Rightarrow> unit run" where
  "append_assistant_message i rs =
     (if truncated rs then (if has_content rs then append_to i (plain_answer rs) else ret ())
      else if \<not> has_content rs \<and> rs_tool_calls rs = [] then ret ()
      else append_to i (assistant_message rs))"

definition keep_text :: "Input \<Rightarrow> Response \<Rightarrow> unit run" where
  "keep_text i rs = (if has_content rs then append_to i (plain_answer rs) else ret ())"

definition exceeds_budget :: "Runner \<Rightarrow> bool" where
  "exceeds_budget r = (case max_budget r of None \<Rightarrow> False | Some b \<Rightarrow> used_tokens (run_state r) > b)"

definition accept_response :: "Settings \<Rightarrow> Input \<Rightarrow> Response \<Rightarrow> unit run" where
  "accept_response c i rs =
     rbind (lift_usage (rs_usage rs)) (\<lambda>(context, total_tokens).
     andthen (try_state (add_used_tokens (VInt total_tokens)))
     (andthen (update (\<lambda>r. r\<lparr>final_prompt := None\<rparr>))
     (reading (\<lambda>r. andthen (mark_budget_reserve_consumed c (wind_down_done (run_state r)))
     (andthen (on_state (\<lambda>s. set_context_tokens context (add_markup_recovered (lu_markup (rs_usage rs)) s)))
     (reading (\<lambda>r.
        andthen (if exceeds_budget r then decide_run_budget c i AfterResponse 0 1 else ret ())
        (reading (\<lambda>r.
           if exceeds_budget r
           then let reason = ''budget exceeded after model call: '' @ int_str (used_tokens (run_state r)) @ '' tokens used''
                in andthen (keep_text i rs) (andthen (append_to i (text_message ''system'' (stopped_text reason)))
                     (transition STOPPED (Some reason)))
           else if rs_tool_calls rs \<noteq> [] \<and> in_cancelled_late i
           then andthen (keep_text i rs) (stop_for_run_cancellation i)
           else andthen (append_assistant_message i rs)
             (andthen (update (\<lambda>r. r\<lparr>pending_step := Some \<lparr>ps_response = rs, ps_latency = in_latency i\<rparr>\<rparr>))
               (transition HANDLING_RESPONSE None)))))))))))"

definition token_stop_reason :: "int \<Rightarrow> int \<Rightarrow> int \<Rightarrow> string" where
  "token_stop_reason reserved remaining minimum =
     ''budget exhausted before model call: conservative input reservation requires '' @ int_str reserved @ '' of '' @
     int_str remaining @ '' remaining tokens, '' @
     (if minimum > 1 then ''leaving less than '' @ int_str minimum @ '' output tokens required by model configuration''
      else ''leaving no output headroom'')"

definition run_llm_call :: "World \<Rightarrow> Settings \<Rightarrow> Input \<Rightarrow> unit run" where
  "run_llm_call w c i =
     andthen (update (\<lambda>r. r\<lparr>step_started := False\<rparr>)) (andthen (ensure_environment i)
       (rbind (build_tool_schemas w c) (\<lambda>tools. (\<lambda>r.
          case call_llm c i tools r of
            (Inr rs, r') \<Rightarrow> accept_response c i rs r'
          | (Inl RunCancelled, r') \<Rightarrow> stop_for_run_cancellation i r'
          | (Inl (TokenBudgetStop reserved remaining minimum), r') \<Rightarrow>
              stop_precheck i (token_stop_reason reserved remaining minimum) None r'
          | (Inl ContextOverflowStop, r') \<Rightarrow> stop_on_context_overflow i r'
          | (Inl TeamBudgetStop, r') \<Rightarrow> stop_precheck i ''team budget exceeded: aggregate spend reached the global cap'' None r'
          | (Inl e, r') \<Rightarrow> (Inl e, r')))))"

section \<open>The response\<close>

definition placeholder_message :: message where
  "placeholder_message =
     [(''role'', VStr ''assistant''), (''content'', VStr EMPTY_STOP_PLACEHOLDER), (''_opencollab_placeholder'', VBool True)]"

definition plain_stop :: "Response \<Rightarrow> bool" where
  "plain_stop rs = (rs_finish rs \<in> {None, Some ''stop'', Some ''end_turn''})"

definition fail_with :: "string \<Rightarrow> unit run" where
  "fail_with text = andthen (on_state (fail None)) (throw (Raised text))"

definition handle_pending_response :: "Input \<Rightarrow> unit run" where
  "handle_pending_response i = reading (\<lambda>r.
     case pending_step r of
       None \<Rightarrow> fail_with ''Cannot handle assistant response before calling LLM''
     | Some ps \<Rightarrow>
         let rs = ps_response ps
         in if truncated rs
            then andthen (append_to i (text_message ''system''
                   ''[Output truncated by the provider. Partial response preserved; session stopped.]''))
                   (andthen clear_pending_step
                     (transition STOPPED (Some ''output truncated: provider reached its generation limit'')))
            else if rs_tool_calls rs \<noteq> [] then transition EXECUTING_TOOLS None
            else if tool_allowlist r \<notin> {None, Some []} \<and> plain_stop rs
            then if \<not> required_tool_retried r
                 then andthen (update (\<lambda>r. r\<lparr>required_tool_retried := True\<rparr>))
                   (andthen (if has_content rs then ret () else append_to i placeholder_message)
                     (andthen (append_to i (text_message ''user'' REQUIRED_TOOL_RETRY_NUDGE)) (transition AUTOSAVING None)))
                 else andthen clear_pending_step (transition STOPPED (Some ''required tool was not called after correction''))
            else if \<not> has_content rs \<and> plain_stop rs \<and> \<not> empty_stop_retried r
            then andthen (update (\<lambda>r. r\<lparr>empty_stop_retried := True\<rparr>))
                   (andthen (if messages (run_state r) \<noteq> [] \<and>
                                get (last (messages (run_state r))) ''role'' \<in> {VStr ''user'', VStr ''tool''}
                             then append_to i placeholder_message else ret ())
                     (andthen (append_to i (text_message ''user'' EMPTY_STOP_NUDGE)) (transition AUTOSAVING None)))
            else andthen clear_pending_step (transition DONE (Some ''completed'')))"

section \<open>Tools\<close>

definition call_name :: "message \<Rightarrow> pyval" where
  "call_name tc = get (as_dict (get tc ''function'')) ''name''"

definition is_deferred_tool_name :: "World \<Rightarrow> Settings \<Rightarrow> pyval \<Rightarrow> bool" where
  "is_deferred_tool_name w c name =
     (case tool_name_collision_key (w_nfkc w) name of
        Inl _ \<Rightarrow> False
      | Inr k \<Rightarrow> list_ex (\<lambda>d. tool_name_collision_key (w_nfkc w) (VStr d) = Inr k) (set_deferrable c))"

definition split_tool_calls :: "World \<Rightarrow> Settings \<Rightarrow> message list \<Rightarrow> message list \<times> message list" where
  "split_tool_calls w c calls =
     (filter (\<lambda>tc. \<not> is_deferred_tool_name w c (call_name tc)) calls,
      filter (\<lambda>tc. is_deferred_tool_name w c (call_name tc)) calls)"

definition blocked_text :: "World \<Rightarrow> string list \<Rightarrow> string \<Rightarrow> message \<Rightarrow> string" where
  "blocked_text w allowed label tc =
     ''Error: tool '' @ [CHR 0x27] @ py_str w (call_name tc) @ [CHR 0x27] @ '' is not allowed during the '' @ label @
     ''. Use one of: '' @ py_join '', '' (sort allowed) @ ''.''"

definition apply_pending_tool_allowlist :: "World \<Rightarrow> Runner \<Rightarrow> message list \<Rightarrow> message list \<times> message list" where
  "apply_pending_tool_allowlist w r calls =
     (case tool_allowlist r of
        None \<Rightarrow> (calls, [])
      | Some allowed \<Rightarrow>
          let ok = (\<lambda>tc. call_name tc \<in> VStr ` set allowed);
              label = or_default (gate_label r) ''hard tool gate''
          in (filter ok calls, map (\<lambda>tc. tool_msg (get tc ''id'') (blocked_text w allowed label tc)) (filter (\<lambda>tc. \<not> ok tc) calls)))"

text \<open>The later message of two with the same id wins; messages without an id go last.\<close>

definition ordered_tool_messages :: "message list \<Rightarrow> message list \<Rightarrow> message list" where
  "ordered_tool_messages calls ms =
     List.map_filter (\<lambda>tc. find (\<lambda>m. is_str (get m ''tool_call_id'') \<and> get m ''tool_call_id'' = get tc ''id'') (rev ms)) calls @
     filter (\<lambda>m. \<not> is_str (get m ''tool_call_id'')) ms"

definition apply_result :: "Input \<Rightarrow> ToolProcessingResult \<Rightarrow> unit run" where
  "apply_result i r =
     on_state (\<lambda>s. snd (apply_to (replicate (length (messages_to_append r)) (in_now i)) MAX_CALL_HASH_WINDOW r s))"

definition record_submission :: "ToolProcessingResult \<Rightarrow> unit run" where
  "record_submission r =
     (if turn_submitted r
      then on_state (\<lambda>s. s\<lparr>submitted_summary := Some (case result_submitted_summary r of Some t \<Rightarrow> t | None \<Rightarrow> [])\<rparr>)
      else ret ())"

definition clear_gate :: "unit run" where
  "clear_gate = update (\<lambda>r. r\<lparr>tool_allowlist := None, gate_label := None\<rparr>)"

definition row_dict :: "ToolMessage \<Rightarrow> message" where
  "row_dict m = tool_msg (VStr (tm_call_id m)) (tm_content m)"

definition drain_rows :: "Input \<Rightarrow> unit run" where
  "drain_rows i = on_state (\<lambda>s.
     (foldl (\<lambda>s m. append_message (in_now i) m s) s (map row_dict (ordered_results (pending_events s))))
       \<lparr>pending_events := clear (pending_events s)\<rparr>)"

text \<open>The tool executor on some calls; it may leave its mark on the turn and on a stored submission.\<close>

definition process_on :: "World \<Rightarrow> (nat \<Rightarrow> ExecTool \<Rightarrow> message \<Rightarrow> Execution) \<Rightarrow> message list \<Rightarrow> ToolProcessingResult run" where
  "process_on w execute calls = reading (\<lambda>r.
     case tool_process w (run_tools r) execute calls (run_state r) of
       (result, t, submitted) \<Rightarrow>
         andthen (on_state (\<lambda>s. s\<lparr>turn := t, submitted_summary := submitted\<rparr>)) (ret result))"

definition execute_batch :: "World \<Rightarrow> Input \<Rightarrow> message list \<Rightarrow> message list \<Rightarrow> message list \<Rightarrow> unit run" where
  "execute_batch w i original kept blocked_messages =
     rbind (if kept \<noteq> [] then process_on w (in_execute i) kept else ret empty_result) (\<lambda>result.
       let result' = result\<lparr>messages_to_append := ordered_tool_messages original (messages_to_append result @ blocked_messages)\<rparr>
       in andthen (apply_result i result') (andthen (record_submission result') (andthen clear_gate (transition AUTOSAVING None))))"

section \<open>Batches with deferred work\<close>

definition new_row :: "string \<Rightarrow> RowKind \<Rightarrow> int \<Rightarrow> RowStatus \<Rightarrow> string option \<Rightarrow> PendingRow" where
  "new_row cid kind order status result =
     \<lparr>tool_call_id = cid, row_kind = kind, row_order = order, row_ref = None, row_status = status,
      row_result = result, row_error = None, row_started_at = None, row_finished_at = None\<rparr>"

definition on_table :: "(PendingEventTable \<Rightarrow> PendingRowError + PendingEventTable) \<Rightarrow> unit run" where
  "on_table f = reading (\<lambda>r. case f (pending_events (run_state r)) of
     Inl _ \<Rightarrow> throw (Raised ''pending row'')
   | Inr t \<Rightarrow> on_state (\<lambda>s. s\<lparr>pending_events := t\<rparr>))"

definition buffer_completed_row :: "(string \<Rightarrow> int) \<Rightarrow> message \<Rightarrow> PendingEventTable \<Rightarrow> PendingRowError + PendingEventTable" where
  "buffer_completed_row order m t =
     (let cid = str_of (get m ''tool_call_id''); content = str_of (get m ''content'')
      in if (case map_of t cid of Some row \<Rightarrow> row_status row = RowStatus.DONE \<and> row_result row = Some content | None \<Rightarrow> False) then Inr t
         else add t (new_row cid IMMEDIATE (order cid) RowStatus.DONE (Some content)))"

fun buffer_completed_rows :: "(string \<Rightarrow> int) \<Rightarrow> message list \<Rightarrow> unit run" where
  "buffer_completed_rows order [] = ret ()"
| "buffer_completed_rows order (m # ms) = andthen (on_table (buffer_completed_row order m)) (buffer_completed_rows order ms)"

definition failed_text :: "string option \<Rightarrow> string" where
  "failed_text error = or_default error ''Deferred tool failed without an error message.''"

definition record_deferred_result :: "string \<Rightarrow> int option \<Rightarrow> string option \<Rightarrow> PendingEventTable \<Rightarrow> PendingRowError + PendingEventTable" where
  "record_deferred_result cid ref error t =
     (case map_of t cid of
        None \<Rightarrow> Inl (NoPendingRow cid)
      | Some row \<Rightarrow>
          (case ref of
             Some a \<Rightarrow> Inr (AList.update cid (row\<lparr>row_ref := Some (RefInt a)\<rparr>) t)
           | None \<Rightarrow> if row_status row \<noteq> PENDING then Inr t
                     else fill t cid (failed_text error) FAILED None (Some (failed_text error))))"

text \<open>The row is there before the child starts, so a completion may arrive before the call returns.\<close>

definition early_completion :: "string \<Rightarrow> (RowStatus \<times> string) option \<Rightarrow> PendingEventTable \<Rightarrow> PendingRowError + PendingEventTable" where
  "early_completion cid done t =
     (case done of None \<Rightarrow> Inr t | Some (status, text) \<Rightarrow> fill t cid text status None None)"

definition execute_deferred_tool ::
  "(string \<Rightarrow> int) \<Rightarrow> message \<Rightarrow> (RowStatus \<times> string) option \<times> int option \<times> string option \<Rightarrow> unit run" where
  "execute_deferred_tool order tc outcome =
     (let cid = str_of (get tc ''id'')
      in case outcome of
           (done, ref, error) \<Rightarrow>
             andthen (on_table (\<lambda>t. add t (new_row cid CHILD_AGENT (order cid) PENDING None)))
               (andthen (on_table (early_completion cid done)) (on_table (record_deferred_result cid ref error))))"

definition merge_observations :: "ToolProcessingResult \<Rightarrow> ToolProcessingResult \<Rightarrow> ToolProcessingResult" where
  "merge_observations obs p =
     obs\<lparr>reads_executed := reads_executed obs + reads_executed p,
         write_succeeded := write_succeeded obs \<or> write_succeeded p,
         read_write_signals := read_write_signals obs @ read_write_signals p,
         current_progress := current_progress obs \<or> current_progress p,
         effect_unknown := effect_unknown obs \<or> effect_unknown p,
         evidence_neutral := evidence_neutral obs @ evidence_neutral p,
         evidence_signals := evidence_signals obs @ evidence_signals p,
         evidence_cards := evidence_cards obs @ evidence_cards p,
         loop_detections := loop_detections obs @ loop_detections p,
         tool_step_attempted := tool_step_attempted obs \<or> tool_step_attempted p\<rparr>"

definition on_turn :: "(TurnEnforcementState \<Rightarrow> TurnEnforcementState) \<Rightarrow> unit run" where
  "on_turn f = on_state (\<lambda>s. s\<lparr>turn := f (turn s)\<rparr>)"

text \<open>
  One immediate call of a mixed batch: its counters are folded and its row buffered.  A result that was
  rejected keeps the hash and signal marks of the fold, which nothing reads afterwards.
\<close>

definition execute_immediate ::
  "World \<Rightarrow> (string \<Rightarrow> int) \<Rightarrow> (ExecTool \<Rightarrow> message \<Rightarrow> Execution) \<Rightarrow> message \<Rightarrow> ToolProcessingResult
   \<Rightarrow> (ToolProcessingResult \<times> bool) run" where
  "execute_immediate w order execute tc obs =
     rbind (process_on w (\<lambda>_. execute) [tc]) (\<lambda>p.
       andthen (on_turn (\<lambda>t. snd (apply_hashes_to MAX_CALL_HASH_WINDOW p t)))
       (andthen (on_turn (\<lambda>t. snd (apply_read_write_counter_to p t)))
       (andthen (buffer_completed_rows order (messages_to_append p))
         (let obs' = merge_observations obs p
          in andthen (on_turn (\<lambda>t. fst (apply_completed_prefix_progress obs' t)))
             (andthen (record_submission p) (ret (obs', terminal_capture_accepted p)))))))"

fun execute_mixed ::
  "World \<Rightarrow> Settings \<Rightarrow> Input \<Rightarrow> (string \<Rightarrow> int) \<Rightarrow> nat \<Rightarrow> message list \<Rightarrow> ToolProcessingResult \<Rightarrow> bool
   \<Rightarrow> ToolProcessingResult run" where
  "execute_mixed w c i order n [] obs captured = ret obs"
| "execute_mixed w c i order n (tc # tcs) obs captured =
     (if captured
      then andthen (buffer_completed_rows order [tool_msg (get tc ''id'') TERMINAL_CAPTURE_SKIP_MESSAGE])
             (execute_mixed w c i order (Suc n) tcs obs captured)
      else if is_deferred_tool_name w c (call_name tc)
      then andthen (execute_deferred_tool order tc (in_deferred i n)) (execute_mixed w c i order (Suc n) tcs obs captured)
      else rbind (execute_immediate w order (in_execute i n) tc obs) (\<lambda>(obs', captured').
             execute_mixed w c i order (Suc n) tcs obs' captured'))"

definition call_order :: "message list \<Rightarrow> string \<Rightarrow> int" where
  "call_order calls cid = int (length calls) - 1 - int (index_of (VStr cid) (rev (map (\<lambda>tc. get tc ''id'') calls)))"

definition settle_batch :: "Input \<Rightarrow> PendingStep \<Rightarrow> unit run" where
  "settle_batch i ps = reading (\<lambda>r.
     if is_complete (pending_events (run_state r))
     then andthen (drain_rows i) (transition AUTOSAVING None)
     else andthen (update (\<lambda>r. r\<lparr>pending_step := None,
                run_state := (run_state r)\<lparr>pending_step_latency := Some (max (ps_latency ps) (in_elapsed i))\<rparr>\<rparr>))
            (transition AWAITING_EVENTS None))"

definition execute_mixed_batch ::
  "World \<Rightarrow> Settings \<Rightarrow> Input \<Rightarrow> PendingStep \<Rightarrow> message list \<Rightarrow> message list \<Rightarrow> message list \<Rightarrow> unit run" where
  "execute_mixed_batch w c i ps original kept blocked_messages =
     (let order = call_order original
      in andthen (buffer_completed_rows order blocked_messages) (reading (\<lambda>r.
         rbind (execute_mixed w c i order 0 kept
                 (empty_result\<lparr>model_step := (if step_count (run_state r) > 0 then Some (step_count (run_state r)) else None)\<rparr>) False)
           (\<lambda>obs. andthen (on_turn (apply_evidence_counter_to (obs\<lparr>read_write_applied_count := length (read_write_signals obs)\<rparr>)))
             (andthen clear_gate (settle_batch i ps))))))"

definition execute_pending_tools :: "World \<Rightarrow> Settings \<Rightarrow> Input \<Rightarrow> unit run" where
  "execute_pending_tools w c i = reading (\<lambda>r.
     case pending_step r of
       None \<Rightarrow> fail_with ''Cannot execute tools before calling LLM''
     | Some ps \<Rightarrow>
         let original = rs_tool_calls (ps_response ps);
             errors = preflight_tool_batch w (run_tools r) original
         in if list_ex (\<lambda>e. e \<noteq> []) errors
            then andthen (apply_result i (preflight_rejection_result original errors))
                   (andthen clear_gate (transition AUTOSAVING None))
            else case apply_pending_tool_allowlist w r original of
                   (kept, blocked_messages) \<Rightarrow>
                     andthen (update (\<lambda>r. if kept \<noteq> [] then r\<lparr>required_tool_retried := False\<rparr> else r))
                       (if snd (split_tool_calls w c kept) = [] then execute_batch w i original kept blocked_messages
                        else execute_mixed_batch w c i ps original kept blocked_messages))"

section \<open>Autosave\<close>

definition autosave_pending_step :: "Input \<Rightarrow> unit run" where
  "autosave_pending_step i = reading (\<lambda>r.
     let submitted = submitted_summary (run_state r)
     in andthen (case submitted of None \<Rightarrow> ret () | Some t \<Rightarrow> append_to i (text_message ''assistant'' t))
       (andthen clear_pending_step (andthen (ensure_environment i)
         (if submitted \<noteq> None
          then andthen (on_state (\<lambda>s. s\<lparr>submitted_summary := None\<rparr>)) (transition DONE (Some ''submitted''))
          else transition PRECHECK None))))"

section \<open>The loop\<close>

definition advance :: "World \<Rightarrow> Settings \<Rightarrow> Input \<Rightarrow> unit run" where
  "advance w c i = reading (\<lambda>r.
     case phase (run_state r) of
       IDLE \<Rightarrow> transition PRECHECK None
     | PRECHECK \<Rightarrow> precheck w c i
     | CALLING_LLM \<Rightarrow> run_llm_call w c i
     | HANDLING_RESPONSE \<Rightarrow> handle_pending_response i
     | EXECUTING_TOOLS \<Rightarrow> execute_pending_tools w c i
     | AWAITING_EVENTS \<Rightarrow> fail_with ''advance() called while AWAITING_EVENTS''
     | AUTOSAVING \<Rightarrow> autosave_pending_step i
     | _ \<Rightarrow> fail_with ''Cannot advance terminal phase'')"

definition should_suspend :: "Runner \<Rightarrow> bool" where
  "should_suspend r = (is_terminal (phase (run_state r)) \<or> phase (run_state r) = AWAITING_EVENTS)"

definition begin_turn :: "Runner \<Rightarrow> Runner" where
  "begin_turn r =
     (let n = int (length (messages (run_state r)))
      in r\<lparr>turn_start := Some n, run_state := start_active_turn n (run_state r)\<rparr>)"

definition resume_from_awaiting :: "Input \<Rightarrow> unit run" where
  "resume_from_awaiting i = reading (\<lambda>r.
     if \<not> is_complete (pending_events (run_state r)) then ret ()
     else andthen (drain_rows i) (andthen (update (\<lambda>r.
            if pending_external_user_turn (run_state r) \<noteq> None
            then let r1 = begin_turn (r\<lparr>run_state := consume_queued_external_user_turn (in_now i) (run_state r)\<rparr>)
                 in r1\<lparr>empty_stop_retried := False, run_state := (run_state r1)\<lparr>submitted_summary := None\<rparr>\<rparr>
            else r))
          (transition AUTOSAVING None)))"

definition entry_state :: "Input \<Rightarrow> unit run" where
  "entry_state i =
     andthen (reading (\<lambda>r. let s = run_state r in
        if \<not> is_empty (pending_events s) \<and> (phase s = IDLE \<or> is_terminal (phase s))
        then andthen (try_state resume_to_idle) (on_state (set_phase AWAITING_EVENTS)) else ret ()))
     (andthen (reading (\<lambda>r. let s = run_state r in
        if pending_external_user_turn s \<noteq> None \<and> is_terminal (phase s) then try_state resume_to_idle else ret ()))
      (on_state (\<lambda>s. if phase s = IDLE then consume_queued_external_user_turn (in_now i) s else s)))"

definition prepare_turn :: "Input \<Rightarrow> unit run" where
  "prepare_turn i =
     andthen (entry_state i) (reading (\<lambda>r.
       let entry = phase (run_state r) in
       andthen (update (\<lambda>r.
           if entry = AWAITING_EVENTS then r\<lparr>turn_start := active_turn_start_message_index (run_state r)\<rparr>
           else if entry = DONE
           then r\<lparr>turn_start := Some (case completed_turn_start_message_index (run_state r) of Some n \<Rightarrow> n | None \<Rightarrow> 0)\<rparr>
           else begin_turn r))
         (if entry = AWAITING_EVENTS then resume_from_awaiting i
          else if entry = DONE then ret ()
          else andthen (try_state resume_to_idle)
            (update (\<lambda>r. r\<lparr>empty_stop_retried := False, run_state := (run_state r)\<lparr>submitted_summary := None\<rparr>\<rparr>)))))"

text \<open>
  \<open>while not self._should_suspend(): await self.advance(...)\<close>.  \<open>ins k\<close> is what the surroundings do in
  step \<open>k\<close>; \<open>None\<close> means that the fuel ran out.
\<close>

fun drive :: "nat \<Rightarrow> World \<Rightarrow> Settings \<Rightarrow> (nat \<Rightarrow> Input) \<Rightarrow> nat \<Rightarrow> Runner \<Rightarrow> ((RunExn + unit) \<times> Runner) option" where
  "drive fuel w c ins k r =
     (if should_suspend r then Some (Inr (), r)
      else case fuel of
             0 \<Rightarrow> None
           | Suc fuel' \<Rightarrow>
               (case advance w c (ins k) r of
                  (Inl e, r') \<Rightarrow> Some (Inl e, r')
                | (Inr _, r') \<Rightarrow> drive fuel' w c ins (Suc k) r'))"

declare drive.simps [simp del]

definition exn_text :: "RunExn \<Rightarrow> string" where
  "exn_text e = (case e of Raised t \<Rightarrow> t | Provider pe \<Rightarrow> err_text pe | _ \<Rightarrow> ''stop'')"

text \<open>
  The exception handlers of \<open>run_loop\<close> and its answer; the left summand is an exception it raises.
  \<open>cleanup\<close> says that a prior provider generation is still draining.
\<close>

definition finish_loop :: "Input \<Rightarrow> (RunExn + unit) \<times> Runner \<Rightarrow> (RunExn + pyval) \<times> Runner" where
  "finish_loop i outcome =
     (let answered = (\<lambda>r.
            (Inr (last_assistant_answer (messages (run_state r)) (turn_start r)),
             if is_terminal (phase (run_state r)) then r\<lparr>run_state := clear_active_turn (run_state r)\<rparr> else r))
      in case outcome of
           (Inr _, r) \<Rightarrow> answered r
         | (Inl RunCancelled, r) \<Rightarrow>
             (case stop_for_run_cancellation i r of
                (Inl e, r') \<Rightarrow> (Inl e, r')
              | (Inr _, r') \<Rightarrow> answered r')
         | (Inl e, r) \<Rightarrow> (Inl e, r\<lparr>run_state := fail (Some (exn_text e)) (run_state r)\<rparr>))"

definition run_loop ::
  "nat \<Rightarrow> World \<Rightarrow> Settings \<Rightarrow> bool \<Rightarrow> (nat \<Rightarrow> Input) \<Rightarrow> Runner \<Rightarrow> ((RunExn + pyval) \<times> Runner) option" where
  "run_loop fuel w c cleanup ins r =
     (if cleanup then Some (Inl (Raised ''prior provider generation is still draining''), r)
      else case prepare_turn (ins 0) r of
             (Inl e, r') \<Rightarrow> Some (finish_loop (ins 0) (Inl e, r'))
           | (Inr _, r') \<Rightarrow> map_option (finish_loop (ins 0)) (drive fuel w c ins 1 r'))"

end
