(* ===== verification/Run_Logic.thy ===== *)
theory Run_Logic
  imports Session_Run
begin

text \<open>
  Reasoning about the steps of the turn driver.  \<open>wp m Q E r\<close> says that \<open>m\<close>, run from \<open>r\<close>, ends with
  \<open>Q\<close> when it returns and with \<open>E\<close> when it raises.  The locale \<open>run_order\<close> is for facts that hold
  across a step whatever its outcome: a reflexive and transitive relation between the runner before
  and after, closed under every way of composing steps.
\<close>

section \<open>Weakest preconditions\<close>

definition wp :: "'a run \<Rightarrow> ('a \<Rightarrow> Runner \<Rightarrow> bool) \<Rightarrow> (RunExn \<Rightarrow> Runner \<Rightarrow> bool) \<Rightarrow> Runner \<Rightarrow> bool" where
  "wp m Q E r = (case m r of (Inr a, r') \<Rightarrow> Q a r' | (Inl e, r') \<Rightarrow> E e r')"

named_theorems wp_simps
named_theorems run_rules

lemma wp_ret [wp_simps]: "wp (ret a) Q E r = Q a r"
  by (simp add: wp_def ret_def)

lemma wp_throw [wp_simps]: "wp (throw e) Q E r = E e r"
  by (simp add: wp_def throw_def)

lemma wp_update [wp_simps]: "wp (update f) Q E r = Q () (f r)"
  by (simp add: wp_def update_def)

lemma wp_reading [wp_simps]: "wp (reading f) Q E r = wp (f r) Q E r"
  by (simp add: wp_def reading_def)

lemma wp_rbind [wp_simps]: "wp (rbind m f) Q E r = wp m (\<lambda>a. wp (f a) Q E) E r"
  by (simp add: wp_def rbind_def split: prod.splits sum.splits)

lemma wp_andthen [wp_simps]: "wp (andthen m k) Q E r = wp m (\<lambda>_. wp k Q E) E r"
  by (simp add: andthen_def wp_rbind)

lemma wp_handle [wp_simps]: "wp (handle m h) Q E r = wp m Q (\<lambda>e. wp (h e) Q E) r"
  by (simp add: wp_def handle_def split: prod.splits sum.splits)

lemma wp_catch:
  "wp (\<lambda>r. case m r of (Inl e, r') \<Rightarrow> h e r' | (Inr a, r') \<Rightarrow> f a r') Q E r =
     wp m (\<lambda>a. wp (f a) Q E) (\<lambda>e. wp (h e) Q E) r"
  by (simp add: wp_def split: prod.splits sum.splits)

lemma wp_if [wp_simps]: "wp (if b then m else k) Q E r = (if b then wp m Q E r else wp k Q E r)"
  by simp

lemma wp_option [wp_simps]:
  "wp (case x of None \<Rightarrow> m | Some y \<Rightarrow> f y) Q E r = (case x of None \<Rightarrow> wp m Q E r | Some y \<Rightarrow> wp (f y) Q E r)"
  by (simp split: option.split)

lemma wp_prod [wp_simps]: "wp (case x of (a, b) \<Rightarrow> f a b) Q E r = (case x of (a, b) \<Rightarrow> wp (f a b) Q E r)"
  by (simp split: prod.split)

lemma wp_on_state [wp_simps]: "wp (on_state f) Q E r = Q () (r\<lparr>run_state := f (run_state r)\<rparr>)"
  by (simp add: on_state_def wp_update)

lemma wp_try_state [wp_simps]:
  "wp (try_state f) Q E r =
     (case f (run_state r) of Inl _ \<Rightarrow> E (Raised ''session state'') r | Inr s \<Rightarrow> Q () (r\<lparr>run_state := s\<rparr>))"
  by (simp add: try_state_def wp_simps split: sum.split)

lemma wp_transition [wp_simps]:
  "wp (transition p reason) Q E r =
     (if p \<in> set (PHASE_TRANSITIONS (phase (run_state r)))
      then Q () (r\<lparr>run_state := (run_state r)\<lparr>phase := p, terminal_reason :=
                  (if is_terminal p \<and> reason \<noteq> None then reason else terminal_reason (run_state r))\<rparr>\<rparr>)
      else E (Raised ''session state'') r)"
  by (cases reason) (simp_all add: transition_def wp_try_state transition_to_def)

lemma wp_mono:
  "wp m Q E r \<Longrightarrow> (\<And>a r'. m r = (Inr a, r') \<Longrightarrow> Q a r' \<Longrightarrow> Q' a r') \<Longrightarrow>
   (\<And>e r'. m r = (Inl e, r') \<Longrightarrow> E e r' \<Longrightarrow> E' e r') \<Longrightarrow> wp m Q' E' r"
  by (auto simp: wp_def split: prod.splits sum.splits)

lemma wp_conj: "wp m Q E r \<Longrightarrow> wp m Q' E' r \<Longrightarrow> wp m (\<lambda>a r'. Q a r' \<and> Q' a r') (\<lambda>e r'. E e r' \<and> E' e r') r"
  by (auto simp: wp_def split: prod.splits sum.splits)

lemma wp_Inr: "wp m Q E r \<Longrightarrow> m r = (Inr a, r') \<Longrightarrow> Q a r'"
  by (simp add: wp_def)

lemma wp_Inl: "wp m Q E r \<Longrightarrow> m r = (Inl e, r') \<Longrightarrow> E e r'"
  by (simp add: wp_def)

section \<open>Relations across a step\<close>

definition evolves :: "(Runner \<Rightarrow> Runner \<Rightarrow> bool) \<Rightarrow> 'a run \<Rightarrow> bool" where
  "evolves R m = (\<forall>r. R r (snd (m r)))"

lemma evolvesD: "evolves R m \<Longrightarrow> m r = (res, r') \<Longrightarrow> R r r'"
  by (metis evolves_def snd_conv)

lemma evolves_wp: "evolves R m \<Longrightarrow> (\<And>a r'. R r r' \<Longrightarrow> Q a r') \<Longrightarrow> (\<And>e r'. R r r' \<Longrightarrow> E e r') \<Longrightarrow> wp m Q E r"
  by (auto simp: wp_def evolves_def split: prod.splits sum.splits dest: spec [of _ r])

lemma wp_outcome: "wp m (\<lambda>_ r'. P r') (\<lambda>_ r'. P r') r = P (snd (m r))"
  by (simp add: wp_def split: prod.splits sum.splits)

lemma evolves_by_wp: "(\<And>r. wp m (\<lambda>_ r'. R r r') (\<lambda>_ r'. R r r') r) \<Longrightarrow> evolves R m"
  by (simp add: evolves_def wp_outcome)

lemma evolves_mono: "evolves R m \<Longrightarrow> (\<And>r r'. R r r' \<Longrightarrow> R' r r') \<Longrightarrow> evolves R' m"
  by (simp add: evolves_def)

text \<open>\<open>ensures P m\<close>: whenever \<open>m\<close> returns, \<open>P\<close> holds afterwards.\<close>

definition ensures :: "(Runner \<Rightarrow> bool) \<Rightarrow> 'a run \<Rightarrow> bool" where
  "ensures P m = (\<forall>r. wp m (\<lambda>_ r'. P r') (\<lambda>_ _. True) r)"

lemma ensuresD: "ensures P m \<Longrightarrow> m r = (Inr a, r') \<Longrightarrow> P r'"
  by (fastforce simp: ensures_def wp_def dest: spec [of _ r])

lemma ensures_throw: "ensures P (throw e)"
  by (simp add: ensures_def wp_simps)

lemma wp_True: "wp m (\<lambda>_ _. True) (\<lambda>_ _. True) r"
  by (simp add: wp_def split: prod.splits sum.splits)

lemma ensures_rbind: "(\<And>a. ensures P (f a)) \<Longrightarrow> ensures P (rbind m f)"
  by (auto simp: ensures_def wp_rbind intro: wp_mono [OF wp_True])

lemma ensures_andthen: "ensures P k \<Longrightarrow> ensures P (andthen m k)"
  by (simp add: andthen_def ensures_rbind)

lemma ensures_handle: "ensures P m \<Longrightarrow> (\<And>e. ensures P (h e)) \<Longrightarrow> ensures P (handle m h)"
  unfolding ensures_def wp_handle by (blast intro: wp_mono)

lemma ensures_reading: "(\<And>r. ensures P (f r)) \<Longrightarrow> ensures P (reading f)"
  by (simp add: ensures_def wp_reading)

lemma ensures_if: "ensures P m \<Longrightarrow> ensures P k \<Longrightarrow> ensures P (if b then m else k)"
  by simp

lemma ensures_option:
  "ensures P m \<Longrightarrow> (\<And>y. ensures P (f y)) \<Longrightarrow> ensures P (case x of None \<Rightarrow> m | Some y \<Rightarrow> f y)"
  by (simp split: option.split)

lemma ensures_exn:
  assumes "ensures P a" and "\<And>x y z. ensures P (b x y z)" and "ensures P c" and "ensures P d"
    and "\<And>pe. ensures P (f pe)" and "\<And>t. ensures P (g t)"
  shows "ensures P (case e of RunCancelled \<Rightarrow> a | TokenBudgetStop x y z \<Rightarrow> b x y z | ContextOverflowStop \<Rightarrow> c
           | TeamBudgetStop \<Rightarrow> d | Provider pe \<Rightarrow> f pe | Raised t \<Rightarrow> g t)"
  using assms by (cases e) auto

lemma ensures_pair: "(\<And>a b. ensures P (f a b)) \<Longrightarrow> ensures P (case x of (a, b) \<Rightarrow> f a b)"
  by (simp split: prod.split)

lemmas ensures_rules = ensures_throw ensures_rbind ensures_andthen ensures_handle ensures_reading ensures_if ensures_pair ensures_option ensures_exn

locale run_order =
  fixes R :: "Runner \<Rightarrow> Runner \<Rightarrow> bool"
  assumes R_refl: "R r r" and R_trans: "R r1 r2 \<Longrightarrow> R r2 r3 \<Longrightarrow> R r1 r3"
begin

lemma ret: "evolves R (ret a)"
  by (simp add: evolves_def ret_def R_refl)

lemma throw: "evolves R (throw e)"
  by (simp add: evolves_def throw_def R_refl)

lemma update: "(\<And>r. R r (f r)) \<Longrightarrow> evolves R (update f)"
  by (simp add: evolves_def update_def)

lemma on_state: "(\<And>r. R r (r\<lparr>run_state := f (run_state r)\<rparr>)) \<Longrightarrow> evolves R (on_state f)"
  by (simp add: on_state_def update)

lemma reading: "(\<And>r0. evolves R (f r0)) \<Longrightarrow> evolves R (reading f)"
  by (simp add: evolves_def reading_def)

lemma rbind: "evolves R m \<Longrightarrow> (\<And>a. evolves R (f a)) \<Longrightarrow> evolves R (rbind m f)"
  unfolding evolves_def rbind_def by (auto split: prod.split sum.split) (metis R_trans snd_conv)+

lemma andthen: "evolves R m \<Longrightarrow> evolves R k \<Longrightarrow> evolves R (andthen m k)"
  unfolding andthen_def by (rule rbind)

lemma handle: "evolves R m \<Longrightarrow> (\<And>e. evolves R (h e)) \<Longrightarrow> evolves R (handle m h)"
  unfolding evolves_def handle_def by (auto split: prod.split sum.split) (metis R_trans snd_conv)+

lemma catch:
  "evolves R m \<Longrightarrow> (\<And>e. evolves R (h e)) \<Longrightarrow> (\<And>a. evolves R (f a)) \<Longrightarrow>
   evolves R (\<lambda>r. case m r of (Inl e, r') \<Rightarrow> h e r' | (Inr a, r') \<Rightarrow> f a r')"
  unfolding evolves_def by (auto split: prod.split sum.split) (metis R_trans snd_conv)+

lemma try_state:
  "(\<And>r s. f (run_state r) = Inr s \<Longrightarrow> R r (r\<lparr>run_state := s\<rparr>)) \<Longrightarrow> evolves R (try_state f)"
  unfolding evolves_def try_state_def reading_def throw_def update_def by (simp add: R_refl split: sum.split)

lemma cond: "evolves R m \<Longrightarrow> evolves R k \<Longrightarrow> evolves R (if b then m else k)"
  by simp

lemma opt: "evolves R m \<Longrightarrow> (\<And>y. evolves R (f y)) \<Longrightarrow> evolves R (case x of None \<Rightarrow> m | Some y \<Rightarrow> f y)"
  by (simp split: option.split)

lemma pair: "(\<And>a b. evolves R (f a b)) \<Longrightarrow> evolves R (case x of (a, b) \<Rightarrow> f a b)"
  by (simp split: prod.split)

lemma plus: "(\<And>a. evolves R (f a)) \<Longrightarrow> (\<And>b. evolves R (g b)) \<Longrightarrow> evolves R (case x of Inl a \<Rightarrow> f a | Inr b \<Rightarrow> g b)"
  by (simp split: sum.split)

lemma shaped:
  "evolves R m \<Longrightarrow> (\<And>ms. evolves R (f ms)) \<Longrightarrow> evolves R (case x of SameList \<Rightarrow> m | FreshList ms \<Rightarrow> f ms)"
  by (simp split: ShapedList.split)

lemma exn:
  assumes "evolves R a" and "\<And>x y z. evolves R (b x y z)" and "evolves R c" and "evolves R d"
    and "\<And>pe. evolves R (f pe)" and "\<And>t. evolves R (g t)"
  shows "evolves R (case e of RunCancelled \<Rightarrow> a | TokenBudgetStop x y z \<Rightarrow> b x y z | ContextOverflowStop \<Rightarrow> c
           | TeamBudgetStop \<Rightarrow> d | Provider pe \<Rightarrow> f pe | Raised t \<Rightarrow> g t)"
  using assms by (cases e) auto

lemma answered:
  "(\<And>rs. evolves R (f rs)) \<Longrightarrow> (\<And>e. evolves R (g e)) \<Longrightarrow> evolves R (case x of Answered rs \<Rightarrow> f rs | Failed e \<Rightarrow> g e)"
  by (simp split: LLMResult.split)

lemmas steps = exn answered ret throw reading rbind andthen handle cond opt pair plus shaped

end

section \<open>Invariants of a step\<close>

definition hoare :: "(Runner \<Rightarrow> bool) \<Rightarrow> 'a run \<Rightarrow> ('a \<Rightarrow> Runner \<Rightarrow> bool) \<Rightarrow> (RunExn \<Rightarrow> Runner \<Rightarrow> bool) \<Rightarrow> bool" where
  "hoare P m Q E = (\<forall>r. P r \<longrightarrow> wp m Q E r)"

text \<open>\<open>m\<close> keeps \<open>P\<close> on every outcome, and what it returns satisfies \<open>A\<close>.\<close>

abbreviation holds :: "(Runner \<Rightarrow> bool) \<Rightarrow> ('a \<Rightarrow> bool) \<Rightarrow> 'a run \<Rightarrow> bool" where
  "holds P A m \<equiv> hoare P m (\<lambda>a r. P r \<and> A a) (\<lambda>_ r. P r)"

lemma hoareD: "hoare P m Q E \<Longrightarrow> P r \<Longrightarrow> wp m Q E r"
  by (simp add: hoare_def)

named_theorems hoare_rules

lemma hoare_ret [hoare_rules]: "(\<And>r. P r \<Longrightarrow> Q a r) \<Longrightarrow> hoare P (ret a) Q E"
  by (simp add: hoare_def wp_ret)

lemma hoare_throw [hoare_rules]: "(\<And>r. P r \<Longrightarrow> E e r) \<Longrightarrow> hoare P (throw e) Q E"
  by (simp add: hoare_def wp_throw)

lemma hoare_update [hoare_rules]: "(\<And>r. P r \<Longrightarrow> Q () (f r)) \<Longrightarrow> hoare P (update f) Q E"
  by (simp add: hoare_def wp_update)

lemma hoare_on_state [hoare_rules]:
  "(\<And>r. P r \<Longrightarrow> Q () (r\<lparr>run_state := f (run_state r)\<rparr>)) \<Longrightarrow> hoare P (on_state f) Q E"
  by (simp add: hoare_def wp_on_state)

lemma hoare_reading [hoare_rules]: "(\<And>r. P r \<Longrightarrow> hoare (\<lambda>r'. r' = r) (f r) Q E) \<Longrightarrow> hoare P (reading f) Q E"
  by (simp add: hoare_def wp_reading)

lemma hoare_if [hoare_rules]:
  "(b \<Longrightarrow> hoare P m Q E) \<Longrightarrow> (\<not> b \<Longrightarrow> hoare P k Q E) \<Longrightarrow> hoare P (if b then m else k) Q E"
  by simp

lemma hoare_option [hoare_rules]:
  "(x = None \<Longrightarrow> hoare P m Q E) \<Longrightarrow> (\<And>y. x = Some y \<Longrightarrow> hoare P (f y) Q E) \<Longrightarrow>
   hoare P (case x of None \<Rightarrow> m | Some y \<Rightarrow> f y) Q E"
  by (simp split: option.split)

lemma hoare_pair [hoare_rules]:
  "(\<And>a b. x = (a, b) \<Longrightarrow> hoare P (f a b) Q E) \<Longrightarrow> hoare P (case x of (a, b) \<Rightarrow> f a b) Q E"
  by (simp split: prod.split)

lemma hoare_exn [hoare_rules]:
  assumes "e = RunCancelled \<Longrightarrow> hoare P a Q E" and "\<And>x y z. e = TokenBudgetStop x y z \<Longrightarrow> hoare P (b x y z) Q E"
    and "e = ContextOverflowStop \<Longrightarrow> hoare P k Q E" and "e = TeamBudgetStop \<Longrightarrow> hoare P d Q E"
    and "\<And>pe. e = Provider pe \<Longrightarrow> hoare P (f pe) Q E" and "\<And>t. e = Raised t \<Longrightarrow> hoare P (g t) Q E"
  shows "hoare P (case e of RunCancelled \<Rightarrow> a | TokenBudgetStop x y z \<Rightarrow> b x y z | ContextOverflowStop \<Rightarrow> k
           | TeamBudgetStop \<Rightarrow> d | Provider pe \<Rightarrow> f pe | Raised t \<Rightarrow> g t) Q E"
  using assms by (cases e) auto

lemma hoare_pre: "hoare P m Q E \<Longrightarrow> (\<And>r. P' r \<Longrightarrow> P r) \<Longrightarrow> hoare P' m Q E"
  by (simp add: hoare_def)

lemma hoare_post:
  "hoare P m Q E \<Longrightarrow> (\<And>a r. Q a r \<Longrightarrow> Q' a r) \<Longrightarrow> (\<And>e r. E e r \<Longrightarrow> E' e r) \<Longrightarrow> hoare P m Q' E'"
  unfolding hoare_def by (blast intro: wp_mono)

text \<open>The invariant of a sequence; the first step may also say something about its value.\<close>

lemma hoare_rbind:
  assumes "holds P A m" and "\<And>a. A a \<Longrightarrow> hoare P (f a) Q E" and "\<And>e r. P r \<Longrightarrow> E e r"
  shows "hoare P (rbind m f) Q E"
  unfolding hoare_def wp_rbind
  using assms by (auto intro!: wp_mono [OF hoareD [OF assms(1)]] dest: hoareD)

lemma hoare_andthen:
  "holds P (\<lambda>_. True) m \<Longrightarrow> hoare P k Q E \<Longrightarrow> (\<And>e r. P r \<Longrightarrow> E e r) \<Longrightarrow> hoare P (andthen m k) Q E"
  unfolding andthen_def by (rule hoare_rbind)

lemma hoare_bind: "hoare P m R E \<Longrightarrow> (\<And>a. hoare (R a) (f a) Q E) \<Longrightarrow> hoare P (rbind m f) Q E"
  unfolding hoare_def wp_rbind by (blast intro: wp_mono)

lemma hoare_catch:
  "hoare P m R E \<Longrightarrow> (\<And>a. hoare (R a) (f a) Q E') \<Longrightarrow> (\<And>e. hoare (E e) (h e) Q E') \<Longrightarrow>
   hoare P (\<lambda>r. case m r of (Inl e, r') \<Rightarrow> h e r' | (Inr a, r') \<Rightarrow> f a r') Q E'"
  unfolding hoare_def wp_catch by (blast intro: wp_mono)

lemma hoare_seq: "hoare P m (\<lambda>_. P') E \<Longrightarrow> hoare P' k Q E \<Longrightarrow> hoare P (andthen m k) Q E"
  unfolding hoare_def wp_andthen by (blast intro: wp_mono)

lemma holds_handle:
  assumes "holds P A m" and "\<And>e. holds P A (h e)"
  shows "holds P A (handle m h)"
  unfolding hoare_def wp_handle
  using assms by (auto intro!: wp_mono [OF hoareD [OF assms(1)]] dest: hoareD)

lemma holds_reading: "(\<And>r. P r \<Longrightarrow> hoare P (f r) Q E) \<Longrightarrow> hoare P (reading f) Q E"
  by (simp add: hoare_def wp_reading)

lemma holds_evolves: "evolves R m \<Longrightarrow> (\<And>r r'. R r r' \<Longrightarrow> P r \<Longrightarrow> P r') \<Longrightarrow> holds P (\<lambda>_. True) m"
  unfolding hoare_def by (auto elim!: evolves_wp)

section \<open>Appending to the transcript\<close>

lemma append_messages_eq:
  "foldl (\<lambda>s m. append_message n m s) s ms =
     s\<lparr>messages := messages s @ ms, message_timestamps := message_timestamps s @ replicate (length ms) (VStr n)\<rparr>"
  by (induction ms arbitrary: s) (simp_all add: append_message_def)

lemma append_results_eq:
  "append_results ns r s = s\<lparr>messages := messages s @ map snd (zip ns (messages_to_append r)),
     message_timestamps := message_timestamps s @ map (\<lambda>x. VStr (fst x)) (zip ns (messages_to_append r))\<rparr>"
proof -
  have "foldl (\<lambda>s (n, m). append_message n m s) s xs = s\<lparr>messages := messages s @ map snd xs,
          message_timestamps := message_timestamps s @ map (\<lambda>x. VStr (fst x)) xs\<rparr>" for xs
    by (induction xs arbitrary: s) (auto simp: append_message_def)
  then show ?thesis by (simp add: append_results_def)
qed

lemma zip_stamps: "map snd (zip (replicate (length ms) n) ms) = ms"
  by (simp add: map_snd_zip)

lemma apply_result_eq:
  "\<exists>ts t. snd (apply_to (replicate (length (messages_to_append p)) n) k p s) =
     s\<lparr>messages := messages s @ messages_to_append p, message_timestamps := ts, turn := t\<rparr>"
  by (auto simp: apply_to_def append_results_eq zip_stamps Let_def split: prod.split)

section \<open>A sample run\<close>

text \<open>A session with one user message, no tools and a model that always answers.\<close>

definition sample_world :: World where
  "sample_world = \<lparr>w_loads = (\<lambda>_. None), w_repr = (\<lambda>_. []), w_dump = (\<lambda>_. []), w_md5 = id, w_nfkc = id,
     w_float = (\<lambda>_. None), w_re_ok = (\<lambda>_. True), w_re_search = (\<lambda>_ _. False), w_error = (\<lambda>_. []),
     w_mutates = (\<lambda>_. False), w_default_timeout = 180, w_max_timeout = 900\<rparr>"

definition sample_settings :: Settings where
  "sample_settings = \<lparr>set_initial_tools = [], set_initial_choice = VNone, set_hard_budget = None, set_max_steps = Some 3,
     set_enforcement = True, set_commit_reserve = 25, set_submit_tool = ''submit_findings'', set_watchdog_k = 4,
     set_low_yield_m = 3, set_deferrable = [], set_control = True, set_policy = None, set_budget_mode = EveryStep,
     set_write_mode = WriteNudgeOn, set_max_output = 50, set_min_output = (\<lambda>_. 10), set_estimate = (\<lambda>_ _. 40),
     set_process_isolated = None\<rparr>"

text \<open>The model uses up exactly what it is allowed.\<close>

definition sample_response :: "Request \<Rightarrow> Response" where
  "sample_response req = \<lparr>rs_content = VStr ''done'', rs_tool_calls = [], rs_finish = Some ''stop'',
     rs_usage = \<lparr>lu_input = VInt 0, lu_total = VInt (max 0 (rq_reserved req + rq_limit req)), lu_output = VNone,
                 lu_context = VNone, lu_markup = 0\<rparr>,
     rs_reasoning = VNone, rs_provider_state = VNone, rs_provider_items = VNone\<rparr>"

definition sample_input :: Input where
  "sample_input = \<lparr>in_now = ''t'', in_cancelled = False, in_cancelled_late = False, in_env_revoked = False,
     in_team_exhausted = False, in_reservations = 0, in_shape = (\<lambda>_ _. (Inr SameList, 0)),
     in_llm = (\<lambda>_ req. Answered (sample_response req)),
     in_execute = (\<lambda>_ _ _. \<lparr>ex_output = [], ex_facts = empty_facts, ex_terminal = False\<rparr>),
     in_deferred = (\<lambda>_. (None, None, None)), in_latency = 0, in_elapsed = 0\<rparr>"

definition sample_runner :: Runner where
  "sample_runner = \<lparr>run_state = new_session ''t'' [text_message ''user'' ''hello''], run_tools = [], run_choice = VNone,
     max_budget = Some 100, pending_step = None, empty_stop_retried = False, required_tool_retried = False,
     tool_allowlist = None, gate_label = None, steering_prev = None, turn_start = None, step_started = False,
     final_prompt = None, sent = []\<rparr>"

end
