(* ===== verification/Run_Frame.thy ===== *)
theory Run_Frame
  imports Run_Logic
begin

text \<open>
  What most steps of the turn driver leave alone: the phase, the counters, the money spent and the
  requests sent.
\<close>

definition ledger :: "Runner \<Rightarrow> SessionPhase \<times> int \<times> bool \<times> int \<times> bool \<times> int \<times> int option \<times> Request list" where
  "ledger r = (let s = run_state r in
     (phase s, step_count s, wind_down_done s, wind_down_attempts s, step_started r, used_tokens s, max_budget r, sent r))"

lemma ledger_eq:
  "ledger r' = ledger r \<longleftrightarrow>
     phase (run_state r') = phase (run_state r) \<and> step_count (run_state r') = step_count (run_state r) \<and>
     wind_down_done (run_state r') = wind_down_done (run_state r) \<and>
     wind_down_attempts (run_state r') = wind_down_attempts (run_state r) \<and> step_started r' = step_started r \<and>
     used_tokens (run_state r') = used_tokens (run_state r) \<and> max_budget r' = max_budget r \<and> sent r' = sent r"
  by (auto simp: ledger_def Let_def)

named_theorems ledger_rules

interpretation lg: run_order "\<lambda>r r'. ledger r' = ledger r"
  by unfold_locales auto

lemma on_turn_ledger [ledger_rules]: "evolves (\<lambda>r r'. ledger r' = ledger r) (on_turn f)"
  unfolding on_turn_def by (rule lg.on_state) (simp add: ledger_eq)

lemma append_to_ledger [ledger_rules]: "evolves (\<lambda>r r'. ledger r' = ledger r) (append_to i m)"
  unfolding append_to_def by (rule lg.on_state) (simp add: ledger_eq append_message_def)

lemma clear_pending_ledger [ledger_rules]: "evolves (\<lambda>r r'. ledger r' = ledger r) clear_pending_step"
  unfolding clear_pending_step_def by (rule lg.update) (simp add: ledger_eq)

lemma raise_ledger [ledger_rules]: "evolves (\<lambda>r r'. ledger r' = ledger r) (raise_if_cancelled b)"
  unfolding raise_if_cancelled_def by (intro lg.steps)

lemma lift_usage_ledger [ledger_rules]: "evolves (\<lambda>r r'. ledger r' = ledger r) (lift_usage u)"
  unfolding lift_usage_def by (intro lg.steps)

lemma reserve_consumed_ledger [ledger_rules]: "evolves (\<lambda>r r'. ledger r' = ledger r) (mark_budget_reserve_consumed c p)"
  unfolding mark_budget_reserve_consumed_def by (rule lg.update) (simp add: ledger_eq split: option.split)

lemma output_limit_ledger [ledger_rules]: "evolves (\<lambda>r r'. ledger r' = ledger r) (request_output_limit c i ms ts)"
  unfolding request_output_limit_def Let_def by (intro lg.steps ledger_rules)

lemma set_gate_ledger [ledger_rules]: "evolves (\<lambda>r r'. ledger r' = ledger r) (set_gate l v)"
  unfolding set_gate_def by (rule lg.update) (simp add: ledger_eq split: prod.split)

lemma fold_last_ledger [ledger_rules]: "evolves (\<lambda>r r'. ledger r' = ledger r) (on_state (fold_last st))"
  by (rule lg.on_state) (simp add: ledger_eq fold_last_def split: option.split)

lemma schemas_ledger [ledger_rules]: "evolves (\<lambda>r r'. ledger r' = ledger r) (build_tool_schemas w c)"
  unfolding build_tool_schemas_def Let_def by (intro lg.steps)

lemma environment_ledger [ledger_rules]: "evolves (\<lambda>r r'. ledger r' = ledger r) (ensure_environment i)"
  unfolding ensure_environment_def by (intro lg.steps)

lemma keep_text_ledger [ledger_rules]: "evolves (\<lambda>r r'. ledger r' = ledger r) (keep_text i rs)"
  unfolding keep_text_def by (intro lg.steps ledger_rules)

lemma append_assistant_ledger [ledger_rules]: "evolves (\<lambda>r r'. ledger r' = ledger r) (append_assistant_message i rs)"
  unfolding append_assistant_message_def by (intro lg.steps ledger_rules)

lemma apply_result_ledger [ledger_rules]: "evolves (\<lambda>r r'. ledger r' = ledger r) (apply_result i p)"
  unfolding apply_result_def
proof (rule lg.on_state)
  fix r :: Runner
  obtain ts t where "snd (apply_to (replicate (length (messages_to_append p)) (in_now i)) MAX_CALL_HASH_WINDOW p (run_state r)) =
      (run_state r)\<lparr>messages := messages (run_state r) @ messages_to_append p, message_timestamps := ts, turn := t\<rparr>"
    using apply_result_eq by blast
  then show "ledger (r\<lparr>run_state := snd (apply_to (replicate (length (messages_to_append p)) (in_now i)) MAX_CALL_HASH_WINDOW p
      (run_state r))\<rparr>) = ledger r" by (simp add: ledger_eq)
qed

lemma record_submission_ledger [ledger_rules]: "evolves (\<lambda>r r'. ledger r' = ledger r) (record_submission p)"
  unfolding record_submission_def by (intro lg.steps lg.on_state) (simp add: ledger_eq)

lemma clear_gate_ledger [ledger_rules]: "evolves (\<lambda>r r'. ledger r' = ledger r) clear_gate"
  unfolding clear_gate_def by (rule lg.update) (simp add: ledger_eq)

lemma drain_rows_ledger [ledger_rules]: "evolves (\<lambda>r r'. ledger r' = ledger r) (drain_rows i)"
  unfolding drain_rows_def by (rule lg.on_state) (simp add: ledger_eq append_messages_eq)

lemma process_on_ledger [ledger_rules]: "evolves (\<lambda>r r'. ledger r' = ledger r) (process_on w x cs)"
  unfolding process_on_def by (intro lg.steps lg.on_state) (simp add: ledger_eq)

lemma on_table_ledger [ledger_rules]: "evolves (\<lambda>r r'. ledger r' = ledger r) (on_table f)"
  unfolding on_table_def by (intro lg.steps lg.on_state) (simp add: ledger_eq)

lemma buffer_rows_ledger [ledger_rules]: "evolves (\<lambda>r r'. ledger r' = ledger r) (buffer_completed_rows order ms)"
  by (induction ms) (auto intro!: lg.steps ledger_rules)

lemma deferred_ledger [ledger_rules]: "evolves (\<lambda>r r'. ledger r' = ledger r) (execute_deferred_tool order tc x)"
  unfolding execute_deferred_tool_def Let_def by (intro lg.steps ledger_rules)

lemma immediate_ledger [ledger_rules]: "evolves (\<lambda>r r'. ledger r' = ledger r) (execute_immediate w order x tc obs)"
  unfolding execute_immediate_def Let_def by (intro lg.steps ledger_rules)

lemma mixed_ledger [ledger_rules]: "evolves (\<lambda>r r'. ledger r' = ledger r) (execute_mixed w c i order n tcs obs cap)"
  by (induction tcs arbitrary: n obs cap) (auto intro!: lg.steps ledger_rules simp del: buffer_completed_rows.simps)

end
