(* ===== verification/Run_Termination.thy ===== *)
theory Run_Termination
  imports Run_Frame
begin

text \<open>
  A turn with a step limit ends: a measure over the phase, the steps left and the wind-down attempts
  left decreases with every \<open>advance\<close>.
\<close>

section \<open>What decides the measure\<close>

definition core :: "Runner \<Rightarrow> SessionPhase \<times> int \<times> bool \<times> int \<times> bool" where
  "core r = (let s = run_state r in (phase s, step_count s, wind_down_done s, wind_down_attempts s, step_started r))"

lemma core_eq:
  "core r' = core r \<longleftrightarrow>
     phase (run_state r') = phase (run_state r) \<and> step_count (run_state r') = step_count (run_state r) \<and>
     wind_down_done (run_state r') = wind_down_done (run_state r) \<and>
     wind_down_attempts (run_state r') = wind_down_attempts (run_state r) \<and> step_started r' = step_started r"
  by (auto simp: core_def Let_def)

interpretation sc: run_order "\<lambda>r r'. core r' = core r"
  by unfold_locales auto

lemma ledger_core: "evolves (\<lambda>r r'. ledger r' = ledger r) m \<Longrightarrow> evolves (\<lambda>r r'. core r' = core r) m"
  by (erule evolves_mono) (simp add: core_eq ledger_eq)

lemmas frame_core [run_rules] = ledger_rules [THEN ledger_core]

lemma add_used_tokens_core:
  "add_used_tokens v s = Inr s' \<Longrightarrow> phase s' = phase s \<and> step_count s' = step_count s \<and>
     wind_down_done s' = wind_down_done s \<and> wind_down_attempts s' = wind_down_attempts s"
  by (auto simp: add_used_tokens_def split: pyval.splits if_splits)

lemma decide_core [run_rules]: "evolves (\<lambda>r r'. core r' = core r) (decide_run_budget c i reason a b)"
  unfolding decide_run_budget_def by (intro sc.steps sc.update run_rules) (simp add: core_eq)

lemma tokens_core [run_rules]: "evolves (\<lambda>r r'. core r' = core r) (try_state (add_used_tokens v))"
  by (rule sc.try_state) (auto simp: core_eq dest: add_used_tokens_core)

lemma prepare_request_core [run_rules]: "evolves (\<lambda>r r'. core r' = core r) (prepare_request_budget c i b ms ts)"
  unfolding prepare_request_budget_def Let_def by (intro sc.steps sc.on_state run_rules) (simp add: core_eq)

lemma charge_core [run_rules]: "evolves (\<lambda>r r'. core r' = core r) (charge_error_usage c p e)"
  unfolding charge_error_usage_def by (intro sc.steps run_rules)

lemma shape_history_core [run_rules]: "evolves (\<lambda>r r'. core r' = core r) (shape_history c i b)"
  unfolding shape_history_def Let_def by (intro sc.steps run_rules)

section \<open>A provider call counts one step\<close>

definition counts_step :: "Runner \<Rightarrow> Runner \<Rightarrow> bool" where
  "counts_step r r' =
     (phase (run_state r') = phase (run_state r) \<and> wind_down_done (run_state r') = wind_down_done (run_state r) \<and>
      wind_down_attempts (run_state r') = wind_down_attempts (run_state r) \<and> (step_started r \<longrightarrow> step_started r') \<and>
      step_count (run_state r') = step_count (run_state r) + (if step_started r' \<and> \<not> step_started r then 1 else 0))"

lemma counts_step_trans:
  assumes "counts_step r1 r2" and "counts_step r2 r3"
  shows "counts_step r1 r3"
proof -
  have add: "c = a + (if z \<and> \<not> x then 1 else 0)"
    if "b = a + (if y \<and> \<not> x then 1 else 0)" "c = b + (if z \<and> \<not> y then 1 else 0)" "x \<longrightarrow> y" "y \<longrightarrow> z"
    for a b c :: int and x y z using that by (cases x; cases y; cases z) simp_all
  show ?thesis using assms add unfolding counts_step_def by metis
qed

interpretation cs: run_order counts_step
  by unfold_locales (simp add: counts_step_def, rule counts_step_trans)

lemma core_counts: "evolves (\<lambda>r r'. core r' = core r) m \<Longrightarrow> evolves counts_step m"
  by (erule evolves_mono) (simp add: core_eq counts_step_def)

lemmas counting = run_rules [THEN core_counts]

lemma start_step_counts: "evolves counts_step start_llm_step"
  unfolding start_llm_step_def by (rule cs.update) (simp add: counts_step_def advance_step_def)

lemma invoke_counts: "evolves counts_step (invoke_llm c i req)"
  unfolding invoke_llm_def
  by (intro cs.steps start_step_counts counting cs.update) (simp add: counts_step_def)

lemma complete_with_counts: "evolves counts_step (complete_with_choice c i b ms ts ch)"
  unfolding complete_with_choice_def by (intro cs.steps invoke_counts counting)

lemma complete_counts: "evolves counts_step (complete c i b ms ts ov)"
  unfolding complete_def Let_def by (intro cs.steps complete_with_counts)

lemma call_counts: "evolves counts_step (call_llm c i ts)"
proof -
  have mark: "evolves counts_step (update (\<lambda>r. r\<lparr>steering_prev := Some (used_tokens (run_state r))\<rparr>))"
    by (rule cs.update) (simp add: counts_step_def)
  show ?thesis unfolding call_llm_def Let_def by (intro cs.steps mark complete_counts counting)
qed

lemma call_started: "ensures step_started (call_llm c i ts)"
proof -
  have "ensures step_started (invoke_llm c i req)" for req
    unfolding ensures_def invoke_llm_def
  proof
    fix r
    have started: "wp start_llm_step (\<lambda>_. step_started) (\<lambda>_ _. True) r"
      by (simp add: start_llm_step_def wp_update)
    show "wp (andthen start_llm_step (andthen (if set_control c then raise_if_cancelled (in_cancelled_late i) else ret ())
       (reading (\<lambda>r. andthen (update (\<lambda>r. r\<lparr>sent := sent r @ [req]\<rparr>))
            (case in_llm i (length (sent r)) req of Answered response \<Rightarrow> ret response
             | Failed e \<Rightarrow> andthen (charge_error_usage c (wind_down_done (run_state r)) e) (throw (Provider e)))))))
       (\<lambda>_. step_started) (\<lambda>_ _. True) r"
      unfolding wp_andthen
      by (rule wp_mono [OF started])
        (auto simp: wp_simps raise_if_cancelled_def wp_True intro: wp_mono [OF wp_True] split: LLMResult.split)
  qed
  then show ?thesis
    unfolding call_llm_def complete_def complete_with_choice_def Let_def by (intro ensures_rules) 
qed

section \<open>Phase by phase\<close>

text \<open>A step that ends by selecting one of the phases \<open>ps\<close> and counts nothing.\<close>

definition moves :: "SessionPhase set \<Rightarrow> Runner \<Rightarrow> Runner \<Rightarrow> bool" where
  "moves ps r r' =
     (phase (run_state r') \<in> ps \<and> step_count (run_state r') = step_count (run_state r) \<and>
      wind_down_done (run_state r') = wind_down_done (run_state r) \<and>
      wind_down_attempts (run_state r') = wind_down_attempts (run_state r))"

definition selects :: "SessionPhase set \<Rightarrow> unit run \<Rightarrow> bool" where
  "selects ps m = (\<forall>r. wp m (\<lambda>_. moves ps r) (\<lambda>_ _. True) r)"

named_theorems select_rules

lemma selectsD: "selects ps m \<Longrightarrow> core r' = core r \<Longrightarrow> wp m (\<lambda>_. moves ps r) (\<lambda>_ _. True) r'"
proof -
  assume m: "selects ps m" and same: "core r' = core r"
  have "moves ps r = moves ps r'" using same by (auto simp: moves_def core_eq fun_eq_iff)
  then show "wp m (\<lambda>_. moves ps r) (\<lambda>_ _. True) r'" using m by (simp add: selects_def)
qed

lemma select_transition [select_rules]: "p \<in> ps \<Longrightarrow> selects ps (transition p reason)"
  by (simp add: selects_def wp_transition moves_def)

lemma select_throw [select_rules]: "selects ps (throw e)"
  by (simp add: selects_def wp_throw)

lemma select_reading [select_rules]: "(\<And>r. selects ps (f r)) \<Longrightarrow> selects ps (reading f)"
  by (simp add: selects_def wp_reading)

lemma select_if [select_rules]: "selects ps m \<Longrightarrow> selects ps k \<Longrightarrow> selects ps (if b then m else k)"
  by simp

lemma select_option [select_rules]:
  "selects ps m \<Longrightarrow> (\<And>y. selects ps (f y)) \<Longrightarrow> selects ps (case x of None \<Rightarrow> m | Some y \<Rightarrow> f y)"
  by (simp split: option.split)

lemma select_pair [select_rules]: "(\<And>a b. selects ps (f a b)) \<Longrightarrow> selects ps (case x of (a, b) \<Rightarrow> f a b)"
  by (simp split: prod.split)

lemma select_rbind [select_rules]:
  assumes "evolves (\<lambda>r r'. core r' = core r) m" and "\<And>a. selects ps (f a)"
  shows "selects ps (rbind m f)"
  unfolding selects_def wp_rbind
proof
  fix r
  show "wp m (\<lambda>a. wp (f a) (\<lambda>_. moves ps r) (\<lambda>_ _. True)) (\<lambda>_ _. True) r"
    using assms by (intro evolves_wp [OF assms(1)]) (auto intro: selectsD)
qed

lemma select_andthen [select_rules]:
  "evolves (\<lambda>r r'. core r' = core r) m \<Longrightarrow> selects ps k \<Longrightarrow> selects ps (andthen m k)"
  unfolding andthen_def by (rule select_rbind)

lemma select_andthen_state [select_rules]:
  "(\<And>r. core (f r) = core r) \<Longrightarrow> selects ps k \<Longrightarrow> selects ps (andthen (update f) k)"
  by (rule select_andthen) (rule sc.update)

lemma select_fail [select_rules]: "selects ps (fail_with t)"
  by (simp add: selects_def fail_with_def wp_andthen wp_throw wp_on_state)

lemma select_stop [select_rules]: "STOPPED \<in> ps \<Longrightarrow> selects ps (stop_precheck i reason msg)"
  unfolding stop_precheck_def by (intro select_rules run_rules)

lemma select_cancelled [select_rules]: "STOPPED \<in> ps \<Longrightarrow> selects ps (stop_for_run_cancellation i)"
  unfolding stop_for_run_cancellation_def by (rule select_stop)

lemma select_overflow [select_rules]: "STOPPED \<in> ps \<Longrightarrow> selects ps (stop_on_context_overflow i)"
  unfolding stop_on_context_overflow_def Let_def by (intro select_rules run_rules)

lemma handling_selects: "selects {STOPPED, DONE, EXECUTING_TOOLS, AUTOSAVING} (handle_pending_response i)"
  unfolding handle_pending_response_def Let_def
  by (intro select_rules sc.steps run_rules) (simp_all add: core_eq)

lemma select_batch: "selects {AUTOSAVING, AWAITING_EVENTS} (execute_batch w i a b ms)"
  unfolding execute_batch_def Let_def by (intro select_rules sc.steps run_rules) simp_all

lemma select_settle [select_rules]: "selects {AUTOSAVING, AWAITING_EVENTS} (settle_batch i ps)"
  unfolding settle_batch_def by (intro select_rules sc.steps run_rules) (simp_all add: core_eq)

lemma executing_selects: "selects {AUTOSAVING, AWAITING_EVENTS} (execute_pending_tools w c i)"
  unfolding execute_pending_tools_def execute_mixed_batch_def Let_def
  by (intro select_rules select_batch sc.steps run_rules) (simp_all add: core_eq)

lemma autosave_selects: "selects {PRECHECK, DONE} (autosave_pending_step i)"
  unfolding autosave_pending_step_def Let_def
  by (intro select_rules sc.steps run_rules sc.on_state) (simp_all add: core_eq)

section \<open>The gate in front of a call\<close>

text \<open>A brake admits a call by spending one of the two wind-down attempts.\<close>

definition spends_attempt :: "Settings \<Rightarrow> Runner \<Rightarrow> Runner \<Rightarrow> bool" where
  "spends_attempt c r r' =
     (set_enforcement c \<and> wind_down_done (run_state r') \<and> (wind_down_done (run_state r) \<longrightarrow> wind_down_attempts (run_state r) < 2) \<and>
      wind_down_attempts (run_state r') = wind_down_attempts (run_state r) + 1)"

definition admits_call :: "World \<Rightarrow> Settings \<Rightarrow> Runner \<Rightarrow> Runner \<Rightarrow> bool" where
  "admits_call w c r r' =
     (step_count (run_state r') = step_count (run_state r) \<and>
      (phase (run_state r') = STOPPED \<or>
       phase (run_state r') = CALLING_LLM \<and>
         (spends_attempt c r r' \<or>
          wind_down_done (run_state r') = wind_down_done (run_state r) \<and>
          wind_down_attempts (run_state r') = wind_down_attempts (run_state r) \<and>
          (\<forall>n. set_max_steps c = Some n \<longrightarrow> step_count (run_state r) < n))))"

lemma admits_call_core: "core r1 = core r \<Longrightarrow> admits_call w c r1 = admits_call w c r"
  by (auto simp: admits_call_def spends_attempt_def core_eq fun_eq_iff)

lemma moves_admits: "moves {STOPPED} r r' \<Longrightarrow> admits_call w c r r'"
  by (simp add: moves_def admits_call_def)

lemma stop_admits: "wp (stop_precheck i t msg) (\<lambda>_. admits_call w c r) (\<lambda>_ _. True) r"
proof -
  have "selects {STOPPED} (stop_precheck i t msg)" by (rule select_stop) simp
  then have "wp (stop_precheck i t msg) (\<lambda>_. moves {STOPPED} r) (\<lambda>_ _. True) r" by (simp add: selects_def)
  then show ?thesis by (rule wp_mono) (simp_all add: moves_admits)
qed

text \<open>The result of the gate: a phase has been selected, or nothing the measure sees has changed.\<close>

definition gate_post :: "World \<Rightarrow> Settings \<Rightarrow> Runner \<Rightarrow> bool \<Rightarrow> Runner \<Rightarrow> bool" where
  "gate_post w c r chosen r' = (if chosen then admits_call w c r r' else core r' = core r)"

lemma gate_post_core: "core r1 = core r \<Longrightarrow> gate_post w c r1 = gate_post w c r"
  by (intro ext) (simp only: gate_post_def admits_call_core [of r1 r])

lemma stop_gate: "wp (stop_precheck i t msg) (\<lambda>_. gate_post w c r True) (\<lambda>_ _. True) r"
  by (rule wp_mono [OF stop_admits]) (simp_all add: gate_post_def)

lemma gate_call:
  "spends_attempt c r r' \<Longrightarrow> phase (run_state r') = CALLING_LLM \<Longrightarrow> step_count (run_state r') = step_count (run_state r) \<Longrightarrow>
   gate_post w c r True r'"
  by (simp add: gate_post_def admits_call_def)

lemma gate_none: "gate_post w c r False r"
  by (simp add: gate_post_def)

lemma brake_admits:
  assumes "set_enforcement c" and "\<not> wind_down_done (run_state r)"
  shows "wp (engage_brake w c i spent) (gate_post w c r) (\<lambda>_ _. True) r"
  unfolding engage_brake_def Let_def wp_simps using assms
  by (auto simp: wp_simps enter_wind_down_def append_to_def stop_gate gate_none spends_attempt_def append_message_def
      intro!: gate_call split: option.split)

lemma gate_admits: "wp (apply_enforcement_gate w c i) (gate_post w c r) (\<lambda>_ _. True) r"
proof (cases "set_enforcement c \<and> \<not> wind_down_done (run_state r)")
  case True
  have brake: "wp (engage_brake w c i spent) (gate_post w c r) (\<lambda>_ _. True) r'" if "core r' = core r" for r' spent
    using brake_admits [of c r' w i spent] True that by (simp add: core_eq gate_post_core [OF that])
  have decided: "wp (decide_run_budget c i ForWindDown 0 1)
      (\<lambda>_ r'. wp (engage_brake w c i (budget_spent c r')) (gate_post w c r) (\<lambda>_ _. True) r') (\<lambda>_ _. True) r"
    by (rule evolves_wp [OF decide_core]) (auto intro: brake)
  show ?thesis
    unfolding apply_enforcement_gate_def Let_def wp_simps using True brake [of r] decided by (simp add: wp_simps)
next
  case False
  then show ?thesis
    unfolding apply_enforcement_gate_def Let_def wp_simps
    by (auto simp: wp_simps append_to_def stop_gate gate_none spends_attempt_def append_message_def intro!: gate_call)
qed

lemma precheck_admits:
  assumes "phase (run_state r) = PRECHECK"
  shows "wp (precheck w c i) (\<lambda>_. admits_call w c r) (\<lambda>_ _. True) r"
proof -
  have limits: "wp (precheck_limits w c i) (\<lambda>_. admits_call w c r) (\<lambda>_ _. True) r'" if "core r' = core r" for r'
  proof -
    have stop: "wp (stop_precheck i t msg) (\<lambda>_. admits_call w c r) (\<lambda>_ _. True) r2" if "core r2 = core r" for t msg r2
      using stop_admits [of i t msg w c r2] by (simp add: admits_call_core [OF that])
    have rest: "wp (reading (\<lambda>r. if (case set_max_steps c of None \<Rightarrow> False | Some n \<Rightarrow> step_count (run_state r) \<ge> n)
         then stop_precheck i (''step limit reached: '' @ int_str (step_count (run_state r)) @ '' steps'') None
         else transition CALLING_LLM None)) (\<lambda>_. admits_call w c r) (\<lambda>_ _. True) r2" if "core r2 = core r" for r2
      using that by (auto simp: wp_simps stop admits_call_def core_eq split: option.splits)
    have "wp (apply_enforcement_gate w c i) (gate_post w c r) (\<lambda>_ _. True) r'"
      using gate_admits [of w c i r'] by (simp add: gate_post_core [OF that])
    then have "wp (rbind (apply_enforcement_gate w c i) (\<lambda>chosen. if chosen then ret () else reading (\<lambda>r.
         if (case set_max_steps c of None \<Rightarrow> False | Some n \<Rightarrow> step_count (run_state r) \<ge> n)
         then stop_precheck i (''step limit reached: '' @ int_str (step_count (run_state r)) @ '' steps'') None
         else transition CALLING_LLM None))) (\<lambda>_. admits_call w c r) (\<lambda>_ _. True) r'"
      unfolding wp_rbind by (rule wp_mono) (auto simp: wp_ret rest gate_post_def split: if_splits)
    then show ?thesis using stop [OF that] by (simp add: precheck_limits_def wp_reading)
  qed
  have cancelled: "wp (stop_for_run_cancellation i) (\<lambda>_. admits_call w c r) (\<lambda>_ _. True) r'" if "core r' = core r" for r'
    using stop_admits [of i _ _ w c r'] by (simp add: stop_for_run_cancellation_def admits_call_core [OF that])
  have decided: "wp (\<lambda>r. case decide_run_budget c i ForPrecheck 0 1 r of
        (Inl RunCancelled, r') \<Rightarrow> stop_for_run_cancellation i r'
      | (Inl e, r') \<Rightarrow> (Inl e, r')
      | (Inr _, r') \<Rightarrow> precheck_limits w c i r') (\<lambda>_. admits_call w c r) (\<lambda>_ _. True) r"
  proof (cases "decide_run_budget c i ForPrecheck 0 1 r")
    case (Pair res r1)
    then have "core r1 = core r" by (rule evolvesD [OF decide_core])
    from cancelled [OF this] limits [OF this] Pair show ?thesis
      unfolding wp_def by (auto split: sum.splits RunExn.splits prod.splits)
  qed
  show ?thesis
    unfolding precheck_def ensure_environment_def wp_andthen
    using stop_admits [of i _ _ w c r] cancelled [of r] decided by (auto simp: wp_simps Let_def)
qed

section \<open>The measure\<close>

lemma accept_selects: "selects {STOPPED, HANDLING_RESPONSE} (accept_response c i rs)"
  unfolding accept_response_def Let_def
  by (intro select_rules sc.steps run_rules sc.on_state)
    (simp_all add: core_eq set_context_tokens_def add_markup_recovered_def)

definition counted_call :: "Runner \<Rightarrow> Runner \<Rightarrow> bool" where
  "counted_call r r' =
     (wind_down_done (run_state r') = wind_down_done (run_state r) \<and>
      wind_down_attempts (run_state r') = wind_down_attempts (run_state r) \<and>
      step_count (run_state r) \<le> step_count (run_state r') \<and> step_count (run_state r') \<le> step_count (run_state r) + 1 \<and>
      (phase (run_state r') = STOPPED \<or>
       phase (run_state r') = HANDLING_RESPONSE \<and> step_count (run_state r') = step_count (run_state r) + 1))"

lemma selects_counted:
  assumes "selects ps m" and "m r1 = (Inr (), r')" and "counts_step r r1" and "\<not> step_started r"
    and "ps = {STOPPED} \<or> ps \<subseteq> {STOPPED, HANDLING_RESPONSE} \<and> step_started r1"
  shows "counted_call r r'"
proof -
  have "moves ps r1 r'" using assms(1,2) by (auto simp: selects_def wp_def dest!: spec [of _ r1])
  then show ?thesis using assms(3-5) by (auto simp: moves_def counts_step_def counted_call_def split: if_splits)
qed

lemma llm_call_counted: "wp (run_llm_call w c i) (\<lambda>_. counted_call r) (\<lambda>_ _. True) r"
proof -
  define r0 where "r0 = r\<lparr>step_started := False\<rparr>"
  have start: "\<not> step_started r0" "counted_call r0 = counted_call r"
    by (simp_all add: r0_def counted_call_def fun_eq_iff)
  have body: "wp (\<lambda>r. case call_llm c i tools r of
            (Inr rs, r') \<Rightarrow> accept_response c i rs r'
          | (Inl RunCancelled, r') \<Rightarrow> stop_for_run_cancellation i r'
          | (Inl (TokenBudgetStop reserved remaining minimum), r') \<Rightarrow>
              stop_precheck i (token_stop_reason reserved remaining minimum) None r'
          | (Inl ContextOverflowStop, r') \<Rightarrow> stop_on_context_overflow i r'
          | (Inl TeamBudgetStop, r') \<Rightarrow> stop_precheck i ''team budget exceeded: aggregate spend reached the global cap'' None r'
          | (Inl e, r') \<Rightarrow> (Inl e, r')) (\<lambda>_. counted_call r) (\<lambda>_ _. True) r1"
    if "core r1 = core r0" for tools r1
  proof (cases "call_llm c i tools r1")
    case (Pair res r2)
    have step: "counts_step r0 r2"
      using evolvesD [OF call_counts Pair] that by (auto simp: counts_step_def core_eq)
    have stop: "counted_call r r'" if "m r2 = (Inr (), r')" "selects {STOPPED} m" for m r'
      using selects_counted [OF that(2,1) step start(1)] start(2) by simp
    have stops: "selects {STOPPED} (stop_for_run_cancellation i)" "selects {STOPPED} (stop_precheck i t msg)"
      "selects {STOPPED} (stop_on_context_overflow i)" for t msg
      by (intro select_rules; simp)+
    have accept: "counted_call r r'" if "res = Inr rs" "accept_response c i rs r2 = (Inr (), r')" for rs r'
      using selects_counted [OF accept_selects that(2) step start(1)] start(2) ensuresD [OF call_started Pair [unfolded that(1)]]
      by simp
    show ?thesis using Pair
      by (auto simp: wp_def split: prod.splits sum.splits RunExn.splits dest!: stop [OF _ stops(1)] stop [OF _ stops(2)]
          stop [OF _ stops(3)] accept)
  qed
  have "evolves (\<lambda>r r'. core r' = core r) (ensure_environment i)" "evolves (\<lambda>r r'. core r' = core r) (build_tool_schemas w c)"
    by (intro run_rules)+
  note keeps = evolves_wp [OF this(1)] evolves_wp [OF this(2)]
  show ?thesis
    unfolding run_llm_call_def wp_andthen wp_update wp_rbind r0_def [symmetric]
    by (rule keeps(1)) (auto intro!: keeps(2) body)
qed

definition steps_left :: "int \<Rightarrow> Runner \<Rightarrow> nat" where
  "steps_left n r = nat (n - step_count (run_state r))"

definition attempts_left :: "Settings \<Rightarrow> Runner \<Rightarrow> nat" where
  "attempts_left c r =
     (if \<not> set_enforcement c then 0 else if wind_down_done (run_state r) then nat (2 - wind_down_attempts (run_state r)) else 2)"

fun phase_rank :: "nat \<Rightarrow> SessionPhase \<Rightarrow> nat" where
  "phase_rank k IDLE = 3"
| "phase_rank k PRECHECK = 2"
| "phase_rank k CALLING_LLM = (if k = 0 then 6 else 0)"
| "phase_rank k HANDLING_RESPONSE = 5"
| "phase_rank k EXECUTING_TOOLS = 4"
| "phase_rank k AUTOSAVING = 3"
| "phase_rank k _ = 0"

definition run_measure :: "Settings \<Rightarrow> int \<Rightarrow> Runner \<Rightarrow> nat" where
  "run_measure c n r =
     6 * steps_left n r + 12 * attempts_left c r + phase_rank (steps_left n r) (phase (run_state r))"

lemma moves_descends:
  assumes "moves ps r r'" and "\<And>p. p \<in> ps \<Longrightarrow> is_terminal p \<or> p = AWAITING_EVENTS \<or> phase_rank k p < phase_rank k (phase (run_state r))"
    and "k = steps_left n r"
  shows "should_suspend r' \<or> run_measure c n r' < run_measure c n r"
  using assms(1) assms(2) [of "phase (run_state r')"] assms(3)
  by (auto simp: moves_def should_suspend_def run_measure_def steps_left_def attempts_left_def)

lemma selects_descends:
  assumes "selects ps m" and "m r = (Inr (), r')"
    and "\<And>p. p \<in> ps \<Longrightarrow> is_terminal p \<or> p = AWAITING_EVENTS \<or> phase_rank (steps_left n r) p < phase_rank (steps_left n r) (phase (run_state r))"
  shows "(should_suspend r' \<or> run_measure c n r' < run_measure c n r) \<and>
         wind_down_attempts (run_state r') = wind_down_attempts (run_state r)"
proof -
  have "moves ps r r'" using assms(1,2) by (auto simp: selects_def wp_def dest!: spec [of _ r])
  then show ?thesis using moves_descends [OF _ assms(3) refl] by (auto simp: moves_def)
qed

lemma wp_outcomeD: "wp m Q (\<lambda>_ _. True) r \<Longrightarrow> m r = (Inr a, r') \<Longrightarrow> Q a r'"
  by (simp add: wp_def)

lemma precheck_descends:
  assumes "set_max_steps c = Some n" and "0 \<le> wind_down_attempts (run_state r)" and "phase (run_state r) = PRECHECK"
    and "admits_call w c r r'"
  shows "0 \<le> wind_down_attempts (run_state r') \<or> phase (run_state r') = STOPPED"
    and "should_suspend r' \<or> run_measure c n r' < run_measure c n r"
proof -
  let ?a = "wind_down_attempts (run_state r)"
  have small: "nat (1 - ?a) \<le> 1" using assms(2) by simp
  have succ: "?a < 2 \<Longrightarrow> nat (2 - ?a) = Suc (nat (1 - ?a))" by simp
  show "0 \<le> wind_down_attempts (run_state r') \<or> phase (run_state r') = STOPPED"
    using assms by (auto simp: admits_call_def spends_attempt_def)
  show "should_suspend r' \<or> run_measure c n r' < run_measure c n r"
    using assms small succ
    by (auto simp: admits_call_def spends_attempt_def should_suspend_def is_terminal_def run_measure_def steps_left_def
      attempts_left_def split: if_splits)
qed

lemma call_descends:
  assumes "counted_call r r'" and "phase (run_state r) = CALLING_LLM"
  shows "should_suspend r' \<or> run_measure c n r' < run_measure c n r"
  using assms by (auto simp: counted_call_def should_suspend_def is_terminal_def run_measure_def steps_left_def attempts_left_def)

lemma advance_descends:
  assumes "set_max_steps c = Some n" and "0 \<le> wind_down_attempts (run_state r)" and "\<not> should_suspend r"
    and "advance w c i r = (Inr (), r')"
  shows "should_suspend r' \<or> 0 \<le> wind_down_attempts (run_state r') \<and> run_measure c n r' < run_measure c n r"
proof -
  let ?p = "phase (run_state r)"
  have step: "should_suspend r' \<or> 0 \<le> wind_down_attempts (run_state r') \<and> run_measure c n r' < run_measure c n r"
    if "selects ps m" "m r = (Inr (), r')" "\<And>p. p \<in> ps \<Longrightarrow> is_terminal p \<or> p = AWAITING_EVENTS \<or> phase_rank k p < phase_rank k ?p"
      "k = steps_left n r" for ps m k
    using selects_descends [OF that(1,2), of n c] that(3,4) assms(2) by auto
  show ?thesis
  proof (cases ?p)
    case IDLE
    then have "transition PRECHECK None r = (Inr (), r')" using assms(4) by (simp add: advance_def reading_def)
    from step [OF select_transition this, of "{PRECHECK}"] IDLE show ?thesis by simp
  next
    case PRECHECK
    then have "precheck w c i r = (Inr (), r')" using assms(4) by (simp add: advance_def reading_def)
    from wp_outcomeD [OF precheck_admits [OF PRECHECK] this] have "admits_call w c r r'" .
    from precheck_descends [OF assms(1,2) PRECHECK this] show ?thesis by (auto simp: should_suspend_def is_terminal_def)
  next
    case CALLING_LLM
    then have "run_llm_call w c i r = (Inr (), r')" using assms(4) by (simp add: advance_def reading_def)
    from wp_outcomeD [OF llm_call_counted this] have "counted_call r r'" .
    from call_descends [OF this CALLING_LLM] this assms(2) show ?thesis by (auto simp: counted_call_def)
  next
    case HANDLING_RESPONSE
    then have "handle_pending_response i r = (Inr (), r')" using assms(4) by (simp add: advance_def reading_def)
    then show ?thesis by (rule step [OF handling_selects _ _ refl]) (auto simp: HANDLING_RESPONSE is_terminal_def)
  next
    case EXECUTING_TOOLS
    then have "execute_pending_tools w c i r = (Inr (), r')" using assms(4) by (simp add: advance_def reading_def)
    then show ?thesis by (rule step [OF executing_selects _ _ refl]) (auto simp: EXECUTING_TOOLS is_terminal_def)
  next
    case AUTOSAVING
    then have "autosave_pending_step i r = (Inr (), r')" using assms(4) by (simp add: advance_def reading_def)
    then show ?thesis by (rule step [OF autosave_selects _ _ refl]) (auto simp: AUTOSAVING is_terminal_def)
  qed (use assms(3) in \<open>auto simp: should_suspend_def is_terminal_def\<close>)
qed

section \<open>The step counter\<close>

text \<open>Every step keeps the counter or, when it calls the provider, raises it by one.\<close>

abbreviation steady :: "Runner \<Rightarrow> Runner \<Rightarrow> bool" where
  "steady r r' \<equiv> step_count (run_state r') = step_count (run_state r)"

interpretation st: run_order steady
  by unfold_locales auto

lemma core_steady: "evolves (\<lambda>r r'. core r' = core r) m \<Longrightarrow> evolves steady m"
  by (erule evolves_mono) (simp add: core_eq)

named_theorems steady_rules
lemmas steadying = run_rules [THEN core_steady]

lemma transition_steady [steady_rules]: "evolves steady (transition p reason)"
  by (rule evolves_by_wp) (simp add: wp_transition)

lemma fail_steady [steady_rules]: "evolves steady (fail_with t)"
  unfolding fail_with_def by (intro st.steps st.on_state) (simp add: fail_def)

lemma stop_steady [steady_rules]: "evolves steady (stop_precheck i t msg)"
  unfolding stop_precheck_def by (intro st.steps steadying steady_rules)

lemma cancelled_steady [steady_rules]: "evolves steady (stop_for_run_cancellation i)"
  unfolding stop_for_run_cancellation_def by (rule stop_steady)

lemma overflow_steady [steady_rules]: "evolves steady (stop_on_context_overflow i)"
  unfolding stop_on_context_overflow_def Let_def by (intro st.steps steadying steady_rules)

lemma wind_down_steady [steady_rules]: "evolves steady (enter_wind_down w c i)"
  unfolding enter_wind_down_def by (intro st.steps st.on_state st.update steadying) (simp_all split: option.split)

lemma brake_steady [steady_rules]: "evolves steady (engage_brake w c i b)"
  unfolding engage_brake_def Let_def by (intro st.steps st.on_state steadying steady_rules) simp

lemma gate_steady [steady_rules]: "evolves steady (apply_enforcement_gate w c i)"
  unfolding apply_enforcement_gate_def Let_def by (intro st.steps st.on_state steadying steady_rules) simp

lemma limits_steady [steady_rules]: "evolves steady (precheck_limits w c i)"
  unfolding precheck_limits_def by (intro st.steps steadying steady_rules)

lemma precheck_steady: "evolves steady (precheck w c i)"
proof -
  have "evolves steady (\<lambda>r. case decide_run_budget c i ForPrecheck 0 1 r of
        (Inl RunCancelled, r') \<Rightarrow> stop_for_run_cancellation i r'
      | (Inl e, r') \<Rightarrow> (Inl e, r')
      | (Inr _, r') \<Rightarrow> precheck_limits w c i r')"
    using decide_core [THEN core_steady, of c i ForPrecheck 0 1] cancelled_steady [of i] limits_steady [of w c i]
    unfolding evolves_def by (auto split: prod.split sum.split RunExn.split dest: fstI) (metis snd_conv)+
  then show ?thesis unfolding precheck_def Let_def by (intro st.steps steadying steady_rules)
qed

lemma handling_steady: "evolves steady (handle_pending_response i)"
  unfolding handle_pending_response_def Let_def
  by (intro st.steps st.update steadying steady_rules) simp_all

lemma settle_steady [steady_rules]: "evolves steady (settle_batch i ps)"
  unfolding settle_batch_def by (intro st.steps st.update steadying steady_rules) simp

lemma executing_steady: "evolves steady (execute_pending_tools w c i)"
  unfolding execute_pending_tools_def execute_mixed_batch_def execute_batch_def Let_def
  by (intro st.steps st.update steadying steady_rules) simp

lemma autosave_steady: "evolves steady (autosave_pending_step i)"
  unfolding autosave_pending_step_def Let_def
  by (intro st.steps st.on_state steadying steady_rules) simp

lemma accept_steady: "evolves steady (accept_response c i rs)"
  unfolding accept_response_def Let_def
  by (intro st.steps st.update st.on_state steadying steady_rules)
    (simp_all add: set_context_tokens_def add_markup_recovered_def)

lemma llm_call_steps:
  "step_count (run_state (snd (run_llm_call w c i r))) \<le> step_count (run_state r) + 1"
proof -
  have body: "wp (\<lambda>r. case call_llm c i tools r of
            (Inr rs, r') \<Rightarrow> accept_response c i rs r'
          | (Inl RunCancelled, r') \<Rightarrow> stop_for_run_cancellation i r'
          | (Inl (TokenBudgetStop reserved remaining minimum), r') \<Rightarrow>
              stop_precheck i (token_stop_reason reserved remaining minimum) None r'
          | (Inl ContextOverflowStop, r') \<Rightarrow> stop_on_context_overflow i r'
          | (Inl TeamBudgetStop, r') \<Rightarrow> stop_precheck i ''team budget exceeded: aggregate spend reached the global cap'' None r'
          | (Inl e, r') \<Rightarrow> (Inl e, r')) (\<lambda>_ r'. step_count (run_state r') \<le> step_count (run_state r) + 1)
              (\<lambda>_ r'. step_count (run_state r') \<le> step_count (run_state r) + 1) r1"
    if "steady r r1" for tools r1
  proof (cases "call_llm c i tools r1")
    case (Pair res r2)
    have "counts_step r1 r2" by (rule evolvesD [OF call_counts Pair])
    then have "step_count (run_state r2) \<le> step_count (run_state r) + 1" using that by (simp add: counts_step_def)
    then have after: "wp m (\<lambda>_ r'. step_count (run_state r') \<le> step_count (run_state r) + 1)
        (\<lambda>_ r'. step_count (run_state r') \<le> step_count (run_state r) + 1) r2" if "evolves steady m" for m :: "unit run"
      by - (rule evolves_wp [OF that], auto)
    show ?thesis
      using Pair after [OF accept_steady] after [OF cancelled_steady] after [OF stop_steady] after [OF overflow_steady]
        \<open>step_count (run_state r2) \<le> step_count (run_state r) + 1\<close>
      unfolding wp_def by (cases res rule: sum.exhaust; cases "projl res") (simp_all split: prod.splits sum.splits)
  qed
  have "evolves steady (ensure_environment i)" "evolves steady (build_tool_schemas w c)" by (intro steadying)+
  note keeps = evolves_wp [OF this(1)] evolves_wp [OF this(2)]
  have "wp (run_llm_call w c i) (\<lambda>_ r'. step_count (run_state r') \<le> step_count (run_state r) + 1)
      (\<lambda>_ r'. step_count (run_state r') \<le> step_count (run_state r) + 1) r"
    unfolding run_llm_call_def wp_andthen wp_update wp_rbind
    by (rule keeps(1)) (auto intro!: keeps(2) body)
  then show ?thesis by (simp only: wp_outcome)
qed

lemma advance_steps:
  "step_count (run_state (snd (advance w c i r))) \<le>
     step_count (run_state r) + (if phase (run_state r) = CALLING_LLM then 1 else 0)"
proof -
  have "snd (m r) = snd (m r)" for m :: "unit run" by simp
  have other: "step_count (run_state (snd (m r))) \<le> step_count (run_state r)" if "evolves steady m" for m :: "unit run"
    using that by (simp add: evolves_def)
  note rules = precheck_steady [of w c i] handling_steady [of i] executing_steady [of w c i] autosave_steady [of i]
  show ?thesis
    using other [OF rules(1)] other [OF rules(2)] other [OF rules(3)] other [OF rules(4)]
      other [OF transition_steady] other [OF fail_steady] llm_call_steps [of w c i r]
    by (cases "phase (run_state r)") (simp_all add: advance_def reading_def)
qed

section \<open>The whole run\<close>

text \<open>The most the step counter can still reach.\<close>

definition step_ceiling :: "Settings \<Rightarrow> int \<Rightarrow> Runner \<Rightarrow> int" where
  "step_ceiling c n r =
     max n (step_count (run_state r) + (if phase (run_state r) = CALLING_LLM then 1 else 0)) + int (attempts_left c r)"

lemma step_below_ceiling: "step_count (run_state r) \<le> step_ceiling c n r"
  by (auto simp: step_ceiling_def max_def)

lemma call_ceiling: "counted_call r r' \<Longrightarrow> phase (run_state r) = CALLING_LLM \<Longrightarrow> step_ceiling c n r' \<le> step_ceiling c n r"
  by (auto simp: counted_call_def step_ceiling_def attempts_left_def)

lemma admit_ceiling:
  assumes "admits_call w c r r'" and "set_max_steps c = Some n" and "phase (run_state r) = PRECHECK"
    and "0 \<le> wind_down_attempts (run_state r)" and "phase (run_state r') \<noteq> STOPPED"
  shows "step_ceiling c n r' \<le> step_ceiling c n r"
  using assms by (auto simp: admits_call_def spends_attempt_def step_ceiling_def attempts_left_def)

lemma selects_ceiling:
  assumes "selects ps m" and "m r = (Inr (), r')" and "CALLING_LLM \<notin> ps"
  shows "step_ceiling c n r' \<le> step_ceiling c n r"
proof -
  have "moves ps r r'" using assms(1,2) by (auto simp: selects_def wp_def dest!: spec [of _ r])
  then show ?thesis using assms(3) by (auto simp: moves_def step_ceiling_def attempts_left_def)
qed

lemma advance_ceiling:
  assumes "set_max_steps c = Some n" and "0 \<le> wind_down_attempts (run_state r)" and "\<not> should_suspend r"
    and "advance w c i r = (Inr (), r')" and "\<not> should_suspend r'"
  shows "step_ceiling c n r' \<le> step_ceiling c n r"
proof (cases "phase (run_state r)")
  case IDLE
  then have "transition PRECHECK None r = (Inr (), r')" using assms(4) by (simp add: advance_def reading_def)
  then show ?thesis using selects_ceiling [OF select_transition, of PRECHECK "{PRECHECK}"] by simp
next
  case PRECHECK
  then have "precheck w c i r = (Inr (), r')" using assms(4) by (simp add: advance_def reading_def)
  from wp_outcomeD [OF precheck_admits [OF PRECHECK] this] show ?thesis
    using assms(1,2,5) PRECHECK by (auto intro!: admit_ceiling simp: should_suspend_def is_terminal_def)
next
  case CALLING_LLM
  then have "run_llm_call w c i r = (Inr (), r')" using assms(4) by (simp add: advance_def reading_def)
  from wp_outcomeD [OF llm_call_counted this] show ?thesis using CALLING_LLM by (rule call_ceiling)
next
  case HANDLING_RESPONSE
  then have "handle_pending_response i r = (Inr (), r')" using assms(4) by (simp add: advance_def reading_def)
  then show ?thesis by (rule selects_ceiling [OF handling_selects]) simp
next
  case EXECUTING_TOOLS
  then have "execute_pending_tools w c i r = (Inr (), r')" using assms(4) by (simp add: advance_def reading_def)
  then show ?thesis by (rule selects_ceiling [OF executing_selects]) simp
next
  case AUTOSAVING
  then have "autosave_pending_step i r = (Inr (), r')" using assms(4) by (simp add: advance_def reading_def)
  then show ?thesis by (rule selects_ceiling [OF autosave_selects]) simp
qed (use assms(3) in \<open>auto simp: should_suspend_def is_terminal_def\<close>)

lemma drive_ends:
  assumes "set_max_steps c = Some n"
  shows "should_suspend r \<or> 0 \<le> wind_down_attempts (run_state r) \<and> run_measure c n r < fuel \<Longrightarrow>
    \<exists>res r'. drive fuel w c ins k r = Some (res, r') \<and> step_count (run_state r') \<le> step_ceiling c n r \<and>
      (res = Inr () \<longrightarrow> should_suspend r')"
proof (induction fuel arbitrary: k r)
  case 0
  then show ?case by (simp add: drive.simps step_below_ceiling)
next
  case (Suc fuel)
  show ?case
  proof (cases "should_suspend r")
    case True
    then show ?thesis by (simp add: drive.simps step_below_ceiling)
  next
    case False
    then have ok: "0 \<le> wind_down_attempts (run_state r)" "run_measure c n r < Suc fuel" using Suc.prems by auto
    obtain res r1 where adv: "advance w c (ins k) r = (res, r1)" by (cases "advance w c (ins k) r")
    have bound: "step_count (run_state r1) \<le> step_ceiling c n r"
      using advance_steps [of w c "ins k" r] adv by (simp add: step_ceiling_def split: if_splits)
    show ?thesis
    proof (cases res)
      case (Inl e)
      then show ?thesis using False adv bound by (simp add: drive.simps)
    next
      case (Inr u)
      then have adv': "advance w c (ins k) r = (Inr (), r1)" using adv by simp
      have less: "should_suspend r1 \<or> 0 \<le> wind_down_attempts (run_state r1) \<and> run_measure c n r1 < fuel"
        using advance_descends [OF assms ok(1) False adv'] ok(2) by auto
      obtain out r2 where rest: "drive fuel w c ins (Suc k) r1 = Some (out, r2)"
        "step_count (run_state r2) \<le> step_ceiling c n r1" "out = Inr () \<longrightarrow> should_suspend r2"
        using Suc.IH [OF less] by blast
      have "step_count (run_state r2) \<le> step_ceiling c n r"
      proof (cases "should_suspend r1")
        case True
        then have "r2 = r1" using rest(1) by (simp add: drive.simps)
        then show ?thesis using bound by simp
      next
        case False
        then show ?thesis using advance_ceiling [OF assms ok(1) \<open>\<not> should_suspend r\<close> adv'] rest(2) by linarith
      qed
      then show ?thesis using False adv' rest by (simp add: drive.simps)
    qed
  qed
qed

text \<open>Entering the loop changes none of the counters.\<close>

definition same_counters :: "Runner \<Rightarrow> Runner \<Rightarrow> bool" where
  "same_counters r r' =
     (step_count (run_state r') = step_count (run_state r) \<and> wind_down_done (run_state r') = wind_down_done (run_state r) \<and>
      wind_down_attempts (run_state r') = wind_down_attempts (run_state r))"

interpretation pc: run_order same_counters
  by unfold_locales (auto simp: same_counters_def)

lemma core_counters: "evolves (\<lambda>r r'. core r' = core r) m \<Longrightarrow> evolves same_counters m"
  by (erule evolves_mono) (simp add: core_eq same_counters_def)

lemma idle_counters: "evolves same_counters (try_state resume_to_idle)"
  by (rule pc.try_state) (auto simp: resume_to_idle_def transition_to_def same_counters_def split: if_splits)

lemma queued_counters:
  "same_counters r (r\<lparr>run_state := consume_queued_external_user_turn now (run_state r)\<rparr>)"
  by (simp add: same_counters_def consume_queued_external_user_turn_def append_message_def split: option.split)

lemma transition_counters: "evolves same_counters (transition p reason)"
  by (rule evolves_by_wp) (simp add: wp_transition same_counters_def)

lemma resume_counters: "evolves same_counters (resume_from_awaiting i)"
  unfolding resume_from_awaiting_def Let_def
  by (intro pc.steps pc.update transition_counters core_counters run_rules)
    (auto simp: same_counters_def begin_turn_def start_active_turn_def consume_queued_external_user_turn_def
      append_message_def Let_def split: option.split)

lemma entry_counters: "evolves same_counters (entry_state i)"
  unfolding entry_state_def Let_def
  by (intro pc.steps pc.on_state idle_counters)
    (auto simp: same_counters_def set_phase_def consume_queued_external_user_turn_def append_message_def split: option.split)

lemma prepare_counters: "evolves same_counters (prepare_turn i)"
  unfolding prepare_turn_def Let_def
  by (intro pc.steps pc.update entry_counters idle_counters resume_counters)
    (simp_all add: same_counters_def begin_turn_def start_active_turn_def Let_def)

lemma start_measure:
  "same_counters r0 r \<Longrightarrow> run_measure c n r < 6 * nat (n - step_count (run_state r0)) + 31 \<or> wind_down_attempts (run_state r0) < 0"
proof -
  assume same: "same_counters r0 r"
  have rank: "phase_rank k p \<le> 6" for k p by (cases p) simp_all
  have "attempts_left c r \<le> 2 \<or> wind_down_attempts (run_state r0) < 0"
    using same by (auto simp: attempts_left_def same_counters_def)
  then show ?thesis
    using same rank [of "steps_left n r" "phase (run_state r)"]
    by (auto simp: run_measure_def same_counters_def steps_left_def)
qed

lemma finish_steps:
  assumes "finish_loop i (res, r) = (out, r')" and "res = Inr () \<longrightarrow> should_suspend r"
  shows "step_count (run_state r') = step_count (run_state r)" and "\<forall>a. out = Inr a \<longrightarrow> should_suspend r'"
proof -
  have clear: "step_count (clear_active_turn s) = step_count s" "phase (clear_active_turn s) = phase s" for s
    by (simp_all add: clear_active_turn_def)
  have failed: "step_count (fail t s) = step_count s" for t s by (simp add: fail_def)
  have stop: "step_count (run_state r2) = step_count (run_state r)" "x = Inr () \<Longrightarrow> should_suspend r2"
    if "stop_for_run_cancellation i r = (x, r2)" for x r2
  proof -
    show "step_count (run_state r2) = step_count (run_state r)" using evolvesD [OF cancelled_steady that] .
    have "selects {STOPPED} (stop_for_run_cancellation i)" by (rule select_cancelled) simp
    then show "should_suspend r2" if "x = Inr ()"
      using \<open>stop_for_run_cancellation i r = (x, r2)\<close> that
      by (auto simp: selects_def wp_def moves_def should_suspend_def is_terminal_def dest!: spec [of _ r])
  qed
  show "step_count (run_state r') = step_count (run_state r)" "\<forall>a. out = Inr a \<longrightarrow> should_suspend r'"
    using assms stop
    by (auto simp: finish_loop_def Let_def clear failed should_suspend_def split: sum.splits RunExn.splits prod.splits if_splits)
qed



end
