(* ===== verification/Run_Budget.thy ===== *)
theory Run_Budget
  imports Run_Frame
begin

text \<open>
  The token budget of a run.  Before every provider request the session reserves the estimated input
  and caps the output with what is left; a provider that keeps to its limit can therefore never take
  the session over its allowance, whatever else happens in the run.
\<close>

section \<open>The allowance\<close>

definition affords :: "Settings \<Rightarrow> int \<Rightarrow> Runner \<Rightarrow> bool" where
  "affords c spend r =
     ((\<forall>b. max_budget r = Some b \<longrightarrow> spend \<le> b) \<and>
      (set_control c \<longrightarrow> (\<forall>h. set_hard_budget c = Some h \<longrightarrow> spend \<le> h)))"

abbreviation solvent :: "Settings \<Rightarrow> Runner \<Rightarrow> bool" where
  "solvent c r \<equiv> affords c (used_tokens (run_state r)) r"

text \<open>A step that keeps a solvent session solvent and never lowers its soft allowance.\<close>

definition keeps_allowance :: "Settings \<Rightarrow> Runner \<Rightarrow> Runner \<Rightarrow> bool" where
  "keeps_allowance c r r' =
     ((solvent c r \<longrightarrow> solvent c r') \<and>
      (\<forall>b. max_budget r = Some b \<longrightarrow> (\<exists>b'. max_budget r' = Some b' \<and> b \<le> b')))"

lemma keeps_allowance_trans: "keeps_allowance c r1 r2 \<Longrightarrow> keeps_allowance c r2 r3 \<Longrightarrow> keeps_allowance c r1 r3"
  unfolding keeps_allowance_def by (meson order_trans)

interpretation ka: run_order "keeps_allowance c" for c
  by unfold_locales (simp add: keeps_allowance_def, rule keeps_allowance_trans)

lemma same_money:
  "used_tokens (run_state r') = used_tokens (run_state r) \<Longrightarrow> max_budget r' = max_budget r \<Longrightarrow> keeps_allowance c r r'"
  by (auto simp: keeps_allowance_def affords_def)

lemma ledger_allowance: "evolves (\<lambda>r r'. ledger r' = ledger r) m \<Longrightarrow> evolves (keeps_allowance c) m"
  by (erule evolves_mono) (simp add: ledger_eq same_money)

named_theorems money_rules
lemmas frame_money [money_rules] = ledger_rules [THEN ledger_allowance]

lemma transition_money [money_rules]: "evolves (keeps_allowance c) (transition p reason)"
  by (rule evolves_by_wp) (simp add: wp_transition same_money)

lemma fail_money [money_rules]: "evolves (keeps_allowance c) (fail_with t)"
  unfolding fail_with_def by (intro ka.steps ka.on_state) (simp add: fail_def same_money)

lemma stop_money [money_rules]: "evolves (keeps_allowance c) (stop_precheck i t msg)"
  unfolding stop_precheck_def by (intro ka.steps money_rules)

lemma cancelled_money [money_rules]: "evolves (keeps_allowance c) (stop_for_run_cancellation i)"
  unfolding stop_for_run_cancellation_def by (rule stop_money)

lemma overflow_money [money_rules]: "evolves (keeps_allowance c) (stop_on_context_overflow i)"
  unfolding stop_on_context_overflow_def Let_def by (intro ka.steps money_rules)

lemma accept_decision_allowance:
  assumes "accept_decision c d r = Some (soft, final)" and "solvent c r"
  shows "affords c (used_tokens (run_state r)) (r\<lparr>max_budget := soft, final_prompt := f\<rparr>)"
    and "max_budget r = Some b \<Longrightarrow> \<exists>b'. soft = Some b' \<and> b \<le> b'"
  using assms
  by (auto simp: accept_decision_def affords_def Let_def split: BudgetDecision.splits pyval.splits if_splits option.splits)

lemma decide_money [money_rules]: "evolves (keeps_allowance c) (decide_run_budget c i reason a b)"
proof -
  have adopt: "keeps_allowance c r (r\<lparr>max_budget := soft, final_prompt := f\<rparr>)"
    if "accept_decision c d r = Some (soft, final)" for d r soft final f
    using accept_decision_allowance [OF that] that
    by (auto simp: keeps_allowance_def accept_decision_def Let_def split: BudgetDecision.splits pyval.splits if_splits option.splits)
  have decided: "evolves (keeps_allowance c) (reading (\<lambda>r. andthen (raise_if_cancelled q)
      (case accept_decision c (d r) r of
         None \<Rightarrow> throw (Raised t)
       | Some (soft, final) \<Rightarrow> update (\<lambda>r. r\<lparr>max_budget := soft,
           final_prompt := (case final of Some t \<Rightarrow> Some t | None \<Rightarrow> final_prompt r)\<rparr>))))" for q d t
    by (rule evolves_by_wp) (auto simp: wp_simps raise_if_cancelled_def adopt ka.R_refl split: option.splits)
  show ?thesis
    unfolding decide_run_budget_def
    by (rule evolves_by_wp)
      (auto simp: wp_simps raise_if_cancelled_def adopt ka.R_refl split: option.splits)
qed

lemma prepare_money [money_rules]: "evolves (keeps_allowance c) (prepare_request_budget c i b ms ts)"
  unfolding prepare_request_budget_def Let_def by (intro ka.steps ka.on_state money_rules) (simp add: same_money)

lemma start_step_money [money_rules]: "evolves (keeps_allowance c) start_llm_step"
  unfolding start_llm_step_def by (rule ka.update) (simp add: same_money advance_step_def)

section \<open>Within one request\<close>

text \<open>The provider charges at most what was reserved for the request and the output it may produce.\<close>

definition charges_within :: "Request \<Rightarrow> LLMUsage \<Rightarrow> bool" where
  "charges_within req u =
     (\<forall>ctx t. normalize_completion_usage u = Inr (ctx, t) \<longrightarrow> t \<le> rq_reserved req + rq_limit req)"

definition honest :: "(Request \<Rightarrow> LLMResult) \<Rightarrow> bool" where
  "honest llm =
     (\<forall>req. 0 \<le> rq_reserved req + rq_limit req \<longrightarrow> (case llm req of
        Answered rs \<Rightarrow> charges_within req (rs_usage rs)
      | Failed e \<Rightarrow> (\<forall>u. err_usage e = Some u \<longrightarrow> charges_within req u)))"

text \<open>Estimates and the least useful output are not negative.\<close>

definition sane :: "Settings \<Rightarrow> bool" where
  "sane c = (0 \<le> minimum_output c \<and> (\<forall>ms ts. 0 \<le> set_estimate c ms ts))"

definition honest_input :: "Input \<Rightarrow> bool" where
  "honest_input i =
     ((\<forall>k. honest (in_llm i k)) \<and> 0 \<le> in_reservations i \<and> (\<forall>b h. snd (in_shape i b h) = 0))"

lemma output_limit_fits:
  assumes "0 \<le> in_reservations i" and "sane c"
  shows "wp (request_output_limit c i ms ts)
     (\<lambda>(limit, reserved, remaining) r'. r' = r \<and> 0 \<le> reserved + limit \<and>
        affords c (used_tokens (run_state r) + (reserved + limit)) r) (\<lambda>_ r'. r' = r) r"
proof -
  have fits: "affords c (used_tokens (run_state r) + x) r"
    if "remaining_budget_tokens c i r = Some rem" "x \<le> rem" for rem x
  proof -
    have lowest: "foldl min b bs \<le> b \<and> (\<forall>y \<in> set bs. foldl min b bs \<le> y)" for b and bs :: "int list"
      by (induction bs arbitrary: b) (simp, metis foldl_Cons min.boundedE set_ConsD)
    have lower: "foldl min b bs \<le> y" if "y \<in> set (b # bs)" for y b and bs :: "int list"
      using that lowest [of b bs] by auto
    show ?thesis using that assms lower
      by (fastforce simp: remaining_budget_tokens_def affords_def Let_def split: list.splits option.splits if_splits)
  qed
  have free: "affords c x r" if "remaining_budget_tokens c i r = None" for x
    using that by (auto simp: remaining_budget_tokens_def affords_def Let_def split: list.splits option.splits if_splits)
  show ?thesis
    using assms(2)
    by (auto simp: request_output_limit_def Let_def wp_simps free sane_def configured_output_def intro!: fits split: option.split)
qed

text \<open>The charge of a usage record is affordable.\<close>

definition affordable :: "Settings \<Rightarrow> LLMUsage \<Rightarrow> Runner \<Rightarrow> bool" where
  "affordable c u r = (\<forall>ctx t. normalize_completion_usage u = Inr (ctx, t) \<longrightarrow> affords c (used_tokens (run_state r) + t) r)"

lemma charged_allowance:
  "affords c (used_tokens (run_state r) + t) r \<Longrightarrow> add_used_tokens (VInt t) (run_state r) = Inr s \<Longrightarrow>
   keeps_allowance c r (r\<lparr>run_state := s\<rparr>)"
  by (auto simp: add_used_tokens_def keeps_allowance_def affords_def split: if_splits)

lemma charge_allowance:
  assumes "\<And>u. err_usage e = Some u \<Longrightarrow> affordable c u r"
  shows "wp (charge_error_usage c p e) (\<lambda>_. keeps_allowance c r) (\<lambda>_. keeps_allowance c r) r"
proof -
  have after: "wp (mark_budget_reserve_consumed c p) (\<lambda>_. keeps_allowance c r) (\<lambda>_. keeps_allowance c r) r'"
    if "keeps_allowance c r r'" for r'
    by (rule evolves_wp [OF frame_money(6)]) (use that in \<open>blast intro: ka.R_trans\<close>)+
  show ?thesis
    using assms
    by (auto simp: charge_error_usage_def wp_simps lift_usage_def ka.R_refl affordable_def
        intro!: after charged_allowance split: option.split sum.split)
qed

lemma invoke_allowance:
  assumes "honest (in_llm i (length (sent r)))" and "affords c (used_tokens (run_state r) + (rq_reserved req + rq_limit req)) r"
    and "0 \<le> rq_reserved req + rq_limit req"
  shows "wp (invoke_llm c i req) (\<lambda>rs r'. keeps_allowance c r r' \<and> affordable c (rs_usage rs) r')
           (\<lambda>_. keeps_allowance c r) r"
proof -
  define r1 where "r1 = (if step_started r then r else r\<lparr>run_state := fst (advance_step (run_state r)), step_started := True\<rparr>)"
  define r2 where "r2 = r1\<lparr>sent := sent r @ [req]\<rparr>"
  have money: "used_tokens (run_state r1) = used_tokens (run_state r)" "max_budget r1 = max_budget r" "sent r1 = sent r"
    by (simp_all add: r1_def advance_step_def)
  have money2: "used_tokens (run_state r2) = used_tokens (run_state r)" "max_budget r2 = max_budget r"
    using money by (simp_all add: r2_def)
  have fits: "affordable c u r2" if "charges_within req u" for u
    using that assms(2) money2 by (fastforce simp: charges_within_def affordable_def affords_def)
  have keep1: "keeps_allowance c r r1" and keep2: "keeps_allowance c r r2" using money money2 by (simp_all add: same_money)
  have result: "wp (case in_llm i (length (sent r)) req of Answered rs \<Rightarrow> ret rs
      | Failed e \<Rightarrow> andthen (charge_error_usage c p e) (throw (Provider e)))
      (\<lambda>rs r'. keeps_allowance c r r' \<and> affordable c (rs_usage rs) r') (\<lambda>_. keeps_allowance c r) r2" for p
  proof (cases "in_llm i (length (sent r)) req")
    case (Answered rs)
    then have "charges_within req (rs_usage rs)" using assms(1,3) by (auto simp: honest_def dest!: spec [of _ req])
    then show ?thesis using Answered keep2 fits by (simp add: wp_ret)
  next
    case (Failed e)
    then have "charges_within req u" if "err_usage e = Some u" for u
      using assms(1,3) that by (auto simp: honest_def dest!: spec [of _ req])
    then have "wp (charge_error_usage c p e) (\<lambda>_. keeps_allowance c r2) (\<lambda>_. keeps_allowance c r2) r2"
      by (intro charge_allowance fits)
    then show ?thesis using Failed keep2
      by (auto simp: wp_andthen wp_throw elim!: wp_mono intro: ka.R_trans)
  qed
  show ?thesis
    using keep1 result
    by (simp add: invoke_llm_def wp_simps start_llm_step_def raise_if_cancelled_def r1_def [symmetric] r2_def [symmetric] money(3))
qed

text \<open>A model call whose answer can be charged.\<close>

definition pays :: "Settings \<Rightarrow> Response run \<Rightarrow> bool" where
  "pays c m = (\<forall>r. wp m (\<lambda>rs r'. keeps_allowance c r r' \<and> affordable c (rs_usage rs) r') (\<lambda>_. keeps_allowance c r) r)"

lemma paysD: "pays c m \<Longrightarrow> wp m (\<lambda>rs r'. keeps_allowance c r r' \<and> affordable c (rs_usage rs) r') (\<lambda>_. keeps_allowance c r) r"
  by (simp add: pays_def)

lemma pays_throw: "pays c (throw e)"
  by (simp add: pays_def wp_throw ka.R_refl)

lemma pays_reading: "(\<And>r. pays c (f r)) \<Longrightarrow> pays c (reading f)"
  by (simp add: pays_def wp_reading)

lemma pays_if: "pays c m \<Longrightarrow> pays c k \<Longrightarrow> pays c (if b then m else k)"
  by simp

lemma pays_pair: "(\<And>a b. pays c (f a b)) \<Longrightarrow> pays c (case x of (a, b) \<Rightarrow> f a b)"
  by (simp split: prod.split)

lemma pays_exn:
  assumes "pays c a" and "\<And>x y z. pays c (b x y z)" and "pays c k" and "pays c d"
    and "\<And>pe. pays c (f pe)" and "\<And>t. pays c (g t)"
  shows "pays c (case e of RunCancelled \<Rightarrow> a | TokenBudgetStop x y z \<Rightarrow> b x y z | ContextOverflowStop \<Rightarrow> k
           | TeamBudgetStop \<Rightarrow> d | Provider pe \<Rightarrow> f pe | Raised t \<Rightarrow> g t)"
  using assms by (cases e) auto

lemma pays_after: "pays c m \<Longrightarrow> keeps_allowance c r0 r \<Longrightarrow>
  wp m (\<lambda>rs r'. keeps_allowance c r0 r' \<and> affordable c (rs_usage rs) r') (\<lambda>_. keeps_allowance c r0) r"
  by (drule paysD, erule wp_mono) (auto intro: ka.R_trans)

lemma pays_rbind: "evolves (keeps_allowance c) m \<Longrightarrow> (\<And>a. pays c (f a)) \<Longrightarrow> pays c (rbind m f)"
  unfolding pays_def [of c "rbind m f"] wp_rbind by (intro allI, rule evolves_wp) (auto intro: pays_after)

lemma pays_andthen: "evolves (keeps_allowance c) m \<Longrightarrow> pays c k \<Longrightarrow> pays c (andthen m k)"
  unfolding andthen_def by (rule pays_rbind)

lemma pays_handle: "pays c m \<Longrightarrow> (\<And>e. pays c (h e)) \<Longrightarrow> pays c (handle m h)"
  unfolding pays_def [of c "handle m h"] wp_handle
  by (intro allI, rule wp_mono, erule paysD) (auto intro: pays_after)

lemmas pays_rules = pays_throw pays_reading pays_if pays_pair pays_exn pays_rbind pays_andthen pays_handle

lemma complete_with_pays:
  assumes "honest_input i" and "sane c"
  shows "pays c (complete_with_choice c i b ms ts ch)"
proof -
  have "0 \<le> in_reservations i" and llm: "honest (in_llm i k)" for k using assms(1) by (simp_all add: honest_input_def)
  note limit = output_limit_fits [OF this(1) assms(2)]
  have "pays c (rbind (request_output_limit c i ms' ts) (\<lambda>(limit, reserved, remaining).
       invoke_llm c i \<lparr>rq_messages = ms', rq_tools = ts, rq_choice = ch, rq_limit = limit,
                        rq_reserved = reserved, rq_remaining = remaining\<rparr>))" for ms'
    unfolding pays_def wp_rbind
    by (intro allI, rule wp_mono [OF limit]) (auto simp: ka.R_refl intro!: invoke_allowance [OF llm])
  then show ?thesis unfolding complete_with_choice_def by (rule pays_rbind [OF prepare_money])
qed

lemma complete_pays: "honest_input i \<Longrightarrow> sane c \<Longrightarrow> pays c (complete c i b ms ts ov)"
  unfolding complete_def Let_def by (intro pays_rules complete_with_pays)

lemma shape_money: "honest_input i \<Longrightarrow> evolves (keeps_allowance c) (shape_history c i b)"
proof -
  assume i: "honest_input i"
  have free: "evolves (keeps_allowance c) (try_state (add_used_tokens (VInt 0)))"
    by (rule ka.try_state) (auto simp: add_used_tokens_def same_money)
  show ?thesis unfolding shape_history_def
  proof (rule ka.reading, rule ka.pair)
    fix history own
    show "evolves (keeps_allowance c) (case in_shape i b history of (outcome, charged) \<Rightarrow>
        andthen (try_state (add_used_tokens (VInt charged))) (case outcome of Inl e \<Rightarrow> throw e
          | Inr SameList \<Rightarrow> ret (history, own) | Inr (FreshList ms) \<Rightarrow> ret (ms, False)))"
      using i free by (cases "in_shape i b history") (auto simp: honest_input_def intro!: ka.steps dest!: spec [of _ b] spec [of _ history])
  qed
qed

lemma call_pays: "honest_input i \<Longrightarrow> sane c \<Longrightarrow> pays c (call_llm c i ts)"
proof -
  assume i: "honest_input i" and s: "sane c"
  have mark: "evolves (keeps_allowance c) (update (\<lambda>r. r\<lparr>steering_prev := Some (used_tokens (run_state r))\<rparr>))"
    by (rule ka.update) (simp add: same_money)
  show ?thesis
    unfolding call_llm_def Let_def
    by (intro pays_rules ka.cond ka.ret mark shape_money complete_pays i s money_rules)
qed

lemma accept_allowance:
  assumes "affordable c (rs_usage rs) r"
  shows "wp (accept_response c i rs) (\<lambda>_. keeps_allowance c r) (\<lambda>_. keeps_allowance c r) r"
proof -
  have settle: "evolves (keeps_allowance c) (andthen (update (\<lambda>r. r\<lparr>final_prompt := None\<rparr>))
     (reading (\<lambda>r. andthen (mark_budget_reserve_consumed c (wind_down_done (run_state r)))
     (andthen (on_state (\<lambda>s. set_context_tokens ctx (add_markup_recovered (lu_markup (rs_usage rs)) s)))
     (reading (\<lambda>r.
        andthen (if exceeds_budget r then decide_run_budget c i AfterResponse 0 1 else ret ())
        (reading (\<lambda>r.
           if exceeds_budget r
           then let reason = ''budget exceeded after model call: '' @ int_str (used_tokens (run_state r)) @ '' tokens used''
                in andthen (keep_text i rs) (andthen (append_to i (text_message ''system'' (stopped_text reason)))
                     (transition STOPPED (Some reason)))
           else if rs_tool_calls rs \<noteq> [] \<and> in_cancelled_late i
           then andthen (keep_text i rs) (stop_for_run_cancellation i)
           else andthen (append_assistant_message i rs)
             (andthen (update (\<lambda>r. r\<lparr>pending_step := Some \<lparr>ps_response = rs, ps_latency = in_latency i\<rparr>\<rparr>))
               (transition HANDLING_RESPONSE None))))))))))" for ctx
    unfolding Let_def
    by (intro ka.steps ka.update ka.on_state money_rules)
      (simp_all add: same_money set_context_tokens_def add_markup_recovered_def)
  show ?thesis
  proof (cases "normalize_completion_usage (rs_usage rs)")
    case (Inl e)
    then show ?thesis by (simp add: accept_response_def wp_rbind lift_usage_def wp_throw ka.R_refl)
  next
    case (Inr p)
    obtain ctx t where p: "p = (ctx, t)" by (cases p)
    then have fits: "affords c (used_tokens (run_state r) + t) r" using assms Inr by (simp add: affordable_def)
    show ?thesis
    proof (cases "add_used_tokens (VInt t) (run_state r)")
      case (Inr s)
      have "keeps_allowance c r (r\<lparr>run_state := s\<rparr>)" by (rule charged_allowance [OF fits Inr])
      then have "wp (m :: unit run) (\<lambda>_. keeps_allowance c r) (\<lambda>_. keeps_allowance c r) (r\<lparr>run_state := s\<rparr>)"
        if "evolves (keeps_allowance c) m" for m
        by - (rule evolves_wp [OF that], auto intro: ka.R_trans)
      from this [OF settle] show ?thesis
        using \<open>normalize_completion_usage (rs_usage rs) = Inr p\<close> Inr
        by (simp only: accept_response_def wp_rbind lift_usage_def p sum.case wp_ret prod.case wp_andthen wp_try_state)
    qed (use Inr p in \<open>simp add: accept_response_def wp_simps lift_usage_def ka.R_refl\<close>)
  qed
qed

section \<open>The whole run\<close>

lemma wind_down_money [money_rules]: "evolves (keeps_allowance c) (enter_wind_down w d i)"
  unfolding enter_wind_down_def
  by (intro ka.steps ka.on_state ka.update money_rules) (simp_all add: same_money split: option.split)

lemma brake_money [money_rules]: "evolves (keeps_allowance c) (engage_brake w d i b)"
  unfolding engage_brake_def Let_def by (intro ka.steps ka.on_state money_rules) (simp add: same_money)

lemma gate_money [money_rules]: "evolves (keeps_allowance c) (apply_enforcement_gate w c i)"
  unfolding apply_enforcement_gate_def Let_def by (intro ka.steps ka.on_state money_rules) (simp add: same_money)

lemma limits_money [money_rules]: "evolves (keeps_allowance c) (precheck_limits w c i)"
  unfolding precheck_limits_def by (intro ka.steps money_rules)

lemma precheck_money: "evolves (keeps_allowance c) (precheck w c i)"
proof -
  have "evolves (keeps_allowance c) (\<lambda>r. case decide_run_budget c i ForPrecheck 0 1 r of
        (Inl RunCancelled, r') \<Rightarrow> stop_for_run_cancellation i r'
      | (Inl e, r') \<Rightarrow> (Inl e, r')
      | (Inr _, r') \<Rightarrow> precheck_limits w c i r')"
    unfolding evolves_def
  proof
    fix r
    obtain res r1 where d: "decide_run_budget c i ForPrecheck 0 1 r = (res, r1)" by (cases "decide_run_budget c i ForPrecheck 0 1 r")
    have one: "keeps_allowance c r r1" by (rule evolvesD [OF decide_money d])
    have two: "keeps_allowance c r (snd (m r1))" if "evolves (keeps_allowance c) m" for m :: "unit run"
      using that one by (auto simp: evolves_def intro: ka.R_trans)
    show "keeps_allowance c r (snd (case decide_run_budget c i ForPrecheck 0 1 r of
        (Inl RunCancelled, r') \<Rightarrow> stop_for_run_cancellation i r'
      | (Inl e, r') \<Rightarrow> (Inl e, r')
      | (Inr _, r') \<Rightarrow> precheck_limits w c i r'))"
      using one two [OF cancelled_money] two [OF limits_money] by (simp add: d split: sum.split RunExn.split)
  qed
  then show ?thesis unfolding precheck_def Let_def by (intro ka.steps money_rules)
qed

lemma llm_call_money:
  assumes "honest_input i" and "sane c"
  shows "evolves (keeps_allowance c) (run_llm_call w c i)"
proof -
  have body: "evolves (keeps_allowance c) (\<lambda>r. case call_llm c i tools r of
            (Inr rs, r') \<Rightarrow> accept_response c i rs r'
          | (Inl RunCancelled, r') \<Rightarrow> stop_for_run_cancellation i r'
          | (Inl (TokenBudgetStop reserved remaining minimum), r') \<Rightarrow>
              stop_precheck i (token_stop_reason reserved remaining minimum) None r'
          | (Inl ContextOverflowStop, r') \<Rightarrow> stop_on_context_overflow i r'
          | (Inl TeamBudgetStop, r') \<Rightarrow> stop_precheck i ''team budget exceeded: aggregate spend reached the global cap'' None r'
          | (Inl e, r') \<Rightarrow> (Inl e, r'))" for tools
    unfolding evolves_def
  proof
    fix r
    obtain res r1 where call: "call_llm c i tools r = (res, r1)" by (cases "call_llm c i tools r")
    note paid = paysD [OF call_pays [OF assms], of tools r]
    have one: "keeps_allowance c r r1" using paid call by (cases res) (simp_all add: wp_def)
    have two: "keeps_allowance c r (snd (m r1))" if "evolves (keeps_allowance c) m" for m :: "unit run"
      using that one by (auto simp: evolves_def intro: ka.R_trans)
    have accept: "keeps_allowance c r (snd (accept_response c i rs r1))" if "res = Inr rs" for rs
    proof -
      have "affordable c (rs_usage rs) r1" using paid call that by (simp add: wp_def)
      from accept_allowance [OF this, of i] one show ?thesis by (auto simp: wp_outcome intro: ka.R_trans)
    qed
    show "keeps_allowance c r (snd (case call_llm c i tools r of
            (Inr rs, r') \<Rightarrow> accept_response c i rs r'
          | (Inl RunCancelled, r') \<Rightarrow> stop_for_run_cancellation i r'
          | (Inl (TokenBudgetStop reserved remaining minimum), r') \<Rightarrow>
              stop_precheck i (token_stop_reason reserved remaining minimum) None r'
          | (Inl ContextOverflowStop, r') \<Rightarrow> stop_on_context_overflow i r'
          | (Inl TeamBudgetStop, r') \<Rightarrow> stop_precheck i ''team budget exceeded: aggregate spend reached the global cap'' None r'
          | (Inl e, r') \<Rightarrow> (Inl e, r')))"
      using one two [OF cancelled_money] two [OF stop_money] two [OF overflow_money] accept
      by (simp add: call split: sum.split RunExn.split)
  qed
  have reset: "evolves (keeps_allowance c) (update (\<lambda>r. r\<lparr>step_started := False\<rparr>))"
    by (rule ka.update) (simp add: same_money)
  show ?thesis unfolding run_llm_call_def by (intro ka.steps reset body money_rules)
qed

lemma handling_money: "evolves (keeps_allowance c) (handle_pending_response i)"
  unfolding handle_pending_response_def Let_def
  by (intro ka.steps ka.update money_rules) (simp_all add: same_money)

lemma executing_money: "evolves (keeps_allowance c) (execute_pending_tools w d i)"
  unfolding execute_pending_tools_def execute_mixed_batch_def execute_batch_def settle_batch_def Let_def
  by (intro ka.steps ka.update money_rules) (simp_all add: same_money)

lemma autosave_money: "evolves (keeps_allowance c) (autosave_pending_step i)"
  unfolding autosave_pending_step_def Let_def
  by (intro ka.steps ka.on_state money_rules) (simp add: same_money)

lemma advance_money: "honest_input i \<Longrightarrow> sane c \<Longrightarrow> evolves (keeps_allowance c) (advance w c i)"
proof -
  assume i: "honest_input i" "sane c"
  have "evolves (keeps_allowance c) (case p of
       IDLE \<Rightarrow> transition PRECHECK None | PRECHECK \<Rightarrow> precheck w c i | CALLING_LLM \<Rightarrow> run_llm_call w c i
     | HANDLING_RESPONSE \<Rightarrow> handle_pending_response i | EXECUTING_TOOLS \<Rightarrow> execute_pending_tools w c i
     | AWAITING_EVENTS \<Rightarrow> fail_with ''advance() called while AWAITING_EVENTS'' | AUTOSAVING \<Rightarrow> autosave_pending_step i
     | _ \<Rightarrow> fail_with ''Cannot advance terminal phase'')" for p
    by (cases p) (simp_all add: transition_money precheck_money llm_call_money [OF i] handling_money executing_money
        fail_money autosave_money)
  then show ?thesis unfolding advance_def by (rule ka.reading)
qed

lemma drive_money:
  assumes "\<And>k. honest_input (ins k)" and "sane c"
  shows "drive fuel w c ins k r = Some (res, r') \<Longrightarrow> keeps_allowance c r r'"
proof (induction fuel arbitrary: k r)
  case 0
  then show ?case by (auto simp: drive.simps ka.R_refl split: if_splits)
next
  case (Suc fuel)
  obtain out r1 where adv: "advance w c (ins k) r = (out, r1)" by (cases "advance w c (ins k) r")
  have one: "keeps_allowance c r r1" by (rule evolvesD [OF advance_money [OF assms] adv])
  show ?case
    using Suc.prems Suc.IH [of "Suc k" r1] one adv
    by (auto simp: drive.simps [of "Suc fuel"] ka.R_refl intro: ka.R_trans split: if_splits sum.splits)
qed

lemma prepare_turn_money: "evolves (keeps_allowance c) (prepare_turn i)"
proof -
  have idle: "evolves (keeps_allowance c) (try_state resume_to_idle)"
    by (rule ka.try_state) (auto simp: resume_to_idle_def transition_to_def same_money split: if_splits)
  show ?thesis
    unfolding prepare_turn_def entry_state_def resume_from_awaiting_def begin_turn_def Let_def
    by (intro ka.steps ka.update ka.on_state idle money_rules)
      (auto intro!: same_money simp: set_phase_def consume_queued_external_user_turn_def append_message_def start_active_turn_def
        split: option.split)
qed

lemma finish_money: "finish_loop i (res, r) = (out, r') \<Longrightarrow> keeps_allowance c r r'"
proof -
  have clear: "keeps_allowance c r (r2\<lparr>run_state := clear_active_turn (run_state r2)\<rparr>)" if "keeps_allowance c r r2" for r2
    by (rule ka.R_trans [OF that], rule same_money) (simp_all add: clear_active_turn_def)
  have stop: "stop_for_run_cancellation i r = (x, r2) \<Longrightarrow> keeps_allowance c r r2" for x r2
    by (rule evolvesD [OF cancelled_money])
  show "finish_loop i (res, r) = (out, r') \<Longrightarrow> keeps_allowance c r r'"
    by (auto simp: finish_loop_def Let_def ka.R_refl fail_def intro: same_money clear stop
        split: sum.splits RunExn.splits prod.splits if_splits)
qed


lemma sample_run:
  "map_option (\<lambda>(outcome, r). (used_tokens (run_state r), phase (run_state r) = SessionPhase.DONE))
     (run_loop 12 sample_world sample_settings False (\<lambda>_. sample_input) sample_runner) = Some (90, True)"
  by code_simp

lemma sample_input_honest: "honest_input sample_input"
  by (simp add: honest_input_def sample_input_def honest_def sample_response_def charges_within_def
      normalize_completion_usage_def nonnegative_usage_int_def bnd_def)


end
