(* ===== verification/Run_Protocol.thy ===== *)
theory Run_Protocol
  imports Shaping Run_Frame
begin

text \<open>
  The transcript of a session: between steps every assistant message with tool calls is followed by
  exactly one result per call, except while the batch is being executed or waits for deferred work.
\<close>

section \<open>Paired transcripts\<close>

definition paired :: "message list \<Rightarrow> bool" where
  "paired ms = list_all span_is_safe_to_compact (groups ms)"

lemma paired_malformed: "paired ms \<longleftrightarrow> malformed ms = []"
  by (auto simp: paired_def malformed_def list_all_iff filter_empty_conv)

lemma paired_Nil [simp]: "paired []"
  by (simp add: paired_def)

lemma paired_skel: "map skel ms = map skel ms' \<Longrightarrow> paired ms = paired ms'"
  using skel_malformed by (metis paired_malformed)

definition plain :: "message \<Rightarrow> bool" where
  "plain m = (\<not> is_tool_msg m \<and> \<not> is_leader m)"

lemma groups_snoc:
  assumes "\<not> is_tool_msg (hd g)" and "group_ok g"
  shows "groups (ms @ g) = groups ms @ [g]"
proof -
  have "chained (groups ms @ [g])"
    using assms by (simp add: chained_append chained_groups tool_head_def)
  from groups_concat [OF this] show ?thesis by simp
qed

lemma paired_plain: "paired ms \<Longrightarrow> plain m \<Longrightarrow> paired (ms @ [m])"
  using groups_snoc [of "[m]" ms] by (simp add: paired_def plain_def group_ok_def span_is_safe_to_compact_def)

lemma paired_exchange:
  assumes "paired ms" and "is_leader a" and "ids_ok (call_ids a)" and "call_ids a \<noteq> []"
    and "list_all is_tool_msg rs" and "distinct (result_ids rs)" and "set (result_ids rs) = set (call_ids a)"
  shows "paired (ms @ a # rs)"
proof -
  have rs: "filter is_tool_msg rs = rs" using assms(5) by (simp add: list_all_iff filter_id_conv)
  have "ids_ok (result_ids rs)" using assms(3,6,7) by (simp add: ids_ok_def list_all_iff)
  then have "span_is_safe_to_compact (a # rs)"
    using assms(2-4,7) leader_not_tool [OF assms(2)]
    by (simp add: span_is_safe_to_compact_def is_complete_tool_exchange_def rs)
  then show ?thesis
    using groups_snoc [of "a # rs" ms] assms(1,2,5) leader_not_tool [OF assms(2)] by (simp add: paired_def group_ok_def)
qed

lemma text_plain [simp]: "role \<noteq> ''tool'' \<Longrightarrow> plain (text_message role t)"
  by (simp add: plain_def text_message_def is_tool_msg_def is_leader_def get_def)

lemma plain_answer_plain [simp]: "plain (plain_answer rs)"
  by (simp add: plain_def plain_answer_def is_tool_msg_def is_leader_def get_def)

lemma placeholder_plain [simp]: "plain placeholder_message"
  by (simp add: plain_def placeholder_message_def is_tool_msg_def is_leader_def get_def)

lemma append_plains: "paired ms \<Longrightarrow> list_all plain xs \<Longrightarrow> paired (ms @ xs)"
proof (induction xs rule: rev_induct)
  case (snoc x xs)
  then show ?case using paired_plain [of "ms @ xs" x] by simp
qed simp

section \<open>The assistant message of a response\<close>

abbreviation response_ids :: "Response \<Rightarrow> pyval list" where
  "response_ids rs \<equiv> batch_ids (rs_tool_calls rs)"

lemma assistant_role: "get (assistant_message rs) ''role'' = VStr ''assistant''"
  by (simp add: assistant_message_def get_def)

lemma assistant_calls:
  "get (assistant_message rs) ''tool_calls'' =
     (if rs_tool_calls rs = [] then VNone else VList (map VDict (rs_tool_calls rs)))"
  by (simp add: assistant_message_def get_def)

lemma assistant_ids: "rs_tool_calls rs \<noteq> [] \<Longrightarrow> call_ids (assistant_message rs) = response_ids rs"
  by (simp add: call_ids_def calls_of_def assistant_calls as_dict_def comp_def)

lemma assistant_leader: "is_leader (assistant_message rs) = (rs_tool_calls rs \<noteq> [])"
  by (simp add: is_leader_def assistant_role assistant_calls)

lemma assistant_not_tool [simp]: "\<not> is_tool_msg (assistant_message rs)"
  by (simp add: is_tool_msg_def assistant_role)

lemma answered_batch:
  assumes "paired ms" and "ids_ok (response_ids rs)" and "rs_tool_calls rs \<noteq> []"
    and "list_all is_tool_msg xs" and "distinct (result_ids xs)" and "set (result_ids xs) = set (response_ids rs)"
  shows "paired (ms @ assistant_message rs # xs)"
  using assms by (intro paired_exchange) (simp_all add: assistant_leader assistant_ids)

lemma answers_ids: "list_all2 answers calls ms \<Longrightarrow> result_ids ms = batch_ids calls \<and> list_all is_tool_msg ms"
  by (induction rule: list_all2_induct) (auto simp: result_ids_def answers_def tool_msg_def get_def is_tool_msg_def)

section \<open>What most steps leave alone\<close>

definition scene :: "Runner \<Rightarrow> SessionPhase \<times> message list \<times> PendingEventTable \<times> pyval option \<times> Request list" where
  "scene r = (let s = run_state r in (phase s, messages s, pending_events s, anthropic_history s, sent r))"

lemma scene_eq:
  "scene r' = scene r \<longleftrightarrow>
     phase (run_state r') = phase (run_state r) \<and> messages (run_state r') = messages (run_state r) \<and>
     pending_events (run_state r') = pending_events (run_state r) \<and>
     anthropic_history (run_state r') = anthropic_history (run_state r) \<and> sent r' = sent r"
  by (auto simp: scene_def Let_def)

interpretation sn: run_order "\<lambda>r r'. scene r' = scene r"
  by unfold_locales auto

named_theorems scene_rules

lemma on_turn_scene [scene_rules]: "evolves (\<lambda>r r'. scene r' = scene r) (on_turn f)"
  unfolding on_turn_def by (rule sn.on_state) (simp add: scene_eq)

lemma clear_pending_scene [scene_rules]: "evolves (\<lambda>r r'. scene r' = scene r) clear_pending_step"
  unfolding clear_pending_step_def by (rule sn.update) (simp add: scene_eq)

lemma raise_scene [scene_rules]: "evolves (\<lambda>r r'. scene r' = scene r) (raise_if_cancelled b)"
  unfolding raise_if_cancelled_def by (intro sn.steps)

lemma decide_scene [scene_rules]: "evolves (\<lambda>r r'. scene r' = scene r) (decide_run_budget c i reason a b)"
  unfolding decide_run_budget_def by (intro sn.steps sn.update scene_rules) (simp add: scene_eq)

lemma tokens_scene [scene_rules]: "evolves (\<lambda>r r'. scene r' = scene r) (try_state (add_used_tokens v))"
  by (rule sn.try_state) (auto simp: scene_eq add_used_tokens_def split: pyval.splits if_splits)

lemma lift_usage_scene [scene_rules]: "evolves (\<lambda>r r'. scene r' = scene r) (lift_usage u)"
  unfolding lift_usage_def by (intro sn.steps)

lemma reserve_consumed_scene [scene_rules]: "evolves (\<lambda>r r'. scene r' = scene r) (mark_budget_reserve_consumed c p)"
  unfolding mark_budget_reserve_consumed_def by (rule sn.update) (simp add: scene_eq split: option.split)

lemma output_limit_scene [scene_rules]: "evolves (\<lambda>r r'. scene r' = scene r) (request_output_limit c i ms ts)"
  unfolding request_output_limit_def Let_def by (intro sn.steps)

lemma charge_scene [scene_rules]: "evolves (\<lambda>r r'. scene r' = scene r) (charge_error_usage c p e)"
  unfolding charge_error_usage_def by (intro sn.steps scene_rules)

lemma set_gate_scene [scene_rules]: "evolves (\<lambda>r r'. scene r' = scene r) (set_gate l v)"
  unfolding set_gate_def by (rule sn.update) (simp add: scene_eq split: prod.split)

lemma schemas_scene [scene_rules]: "evolves (\<lambda>r r'. scene r' = scene r) (build_tool_schemas w c)"
  unfolding build_tool_schemas_def Let_def by (intro sn.steps)

lemma environment_scene [scene_rules]: "evolves (\<lambda>r r'. scene r' = scene r) (ensure_environment i)"
  unfolding ensure_environment_def by (intro sn.steps)

lemma record_submission_scene [scene_rules]: "evolves (\<lambda>r r'. scene r' = scene r) (record_submission p)"
  unfolding record_submission_def by (intro sn.steps sn.on_state) (simp add: scene_eq)

lemma clear_gate_scene [scene_rules]: "evolves (\<lambda>r r'. scene r' = scene r) clear_gate"
  unfolding clear_gate_def by (rule sn.update) (simp add: scene_eq)

lemma process_on_scene [scene_rules]: "evolves (\<lambda>r r'. scene r' = scene r) (process_on w x cs)"
  unfolding process_on_def by (intro sn.steps sn.on_state) (simp add: scene_eq)

lemma start_step_scene [scene_rules]: "evolves (\<lambda>r r'. scene r' = scene r) start_llm_step"
  unfolding start_llm_step_def by (rule sn.update) (simp add: scene_eq advance_step_def)

section \<open>Closed sessions\<close>

text \<open>No exchange is open, and every request so far was well paired.\<close>

definition closed_in :: "SessionPhase \<Rightarrow> Runner \<Rightarrow> bool" where
  "closed_in p r =
     (phase (run_state r) = p \<and> paired (messages (run_state r)) \<and> pending_events (run_state r) = [] \<and>
      anthropic_history (run_state r) = None \<and> list_all (\<lambda>q. paired (rq_messages q)) (sent r))"

lemma closed_scene: "scene r' = scene r \<Longrightarrow> closed_in p r \<Longrightarrow> closed_in p r'"
  by (simp add: scene_eq closed_in_def)

lemma scene_holds: "evolves (\<lambda>r r'. scene r' = scene r) m \<Longrightarrow> holds (closed_in p) (\<lambda>_. True) m"
  by (erule holds_evolves) (rule closed_scene)

named_theorems closed_rules
lemmas closed_frame [closed_rules] = scene_rules [THEN scene_holds]

lemma append_closed [closed_rules]: "plain m \<Longrightarrow> holds (closed_in p) (\<lambda>_. True) (append_to i m)"
  unfolding append_to_def by (rule hoare_on_state) (simp add: closed_in_def append_message_def paired_plain)

lemma keep_text_closed [closed_rules]: "holds (closed_in p) (\<lambda>_. True) (keep_text i rs)"
  unfolding keep_text_def by (intro hoare_rules closed_rules) simp_all

lemma fold_steering_skel: "skel (fold_steering m t) = skel m"
  by (simp add: fold_steering_def)

text \<open>What the surroundings are trusted with: usable call ids, and shapers that keep exchanges together.\<close>

definition protocol_input :: "Input \<Rightarrow> bool" where
  "protocol_input i =
     ((\<forall>k q rs. in_llm i k q = Answered rs \<longrightarrow> ids_ok (response_ids rs)) \<and>
      (\<forall>b ms ms' t. in_shape i b ms = (Inr (FreshList ms'), t) \<and> malformed ms = [] \<longrightarrow> malformed ms' = []))"

lemma final_prompt_paired: "paired ms \<Longrightarrow> paired (append_final_prompt t ms)"
  by (simp add: append_final_prompt_def Let_def paired_plain split: option.split)

lemma prepare_closed: "paired ms \<Longrightarrow> holds (closed_in p) paired (prepare_request_budget c i b ms ts)"
  unfolding prepare_request_budget_def Let_def
proof (rule hoare_if, rule hoare_ret, simp, intro hoare_andthen closed_rules holds_reading)
  fix r :: Runner
  let ?ms = "append_final_prompt (final_prompt r) ms"
  assume "paired ms"
  then have ms: "paired ?ms" by (rule final_prompt_paired)
  show "holds (closed_in p) (\<lambda>_. True) (if b then on_state (\<lambda>s. s\<lparr>messages := ?ms\<rparr>) else ret ())"
    using ms by (intro hoare_rules) (simp_all add: closed_in_def)
  show "holds (closed_in p) paired (ret ?ms)" using ms by (intro hoare_ret) simp
qed

lemma invoke_closed:
  assumes "protocol_input i" and "paired (rq_messages req)"
  shows "holds (closed_in p) (\<lambda>rs. ids_ok (response_ids rs)) (invoke_llm c i req)"
proof -
  have send: "holds (closed_in p) (\<lambda>_. True) (update (\<lambda>r. r\<lparr>sent := sent r @ [req]\<rparr>))"
    using assms(2) by (intro hoare_update) (simp add: closed_in_def)
  have result: "holds (closed_in p) (\<lambda>rs. ids_ok (response_ids rs)) (case in_llm i k req of Answered rs \<Rightarrow> ret rs
      | Failed e \<Rightarrow> andthen (charge_error_usage c d e) (throw (Provider e)))" for k d
  proof (cases "in_llm i k req")
    case (Answered rs)
    then have "ids_ok (response_ids rs)" using assms(1) unfolding protocol_input_def by blast
    then show ?thesis using Answered by (simp add: hoare_ret)
  qed (auto intro!: hoare_andthen closed_rules hoare_throw)
  show ?thesis unfolding invoke_llm_def
    by (intro hoare_andthen holds_reading send result closed_rules hoare_if hoare_ret) simp_all
qed

lemma complete_with_closed:
  assumes "protocol_input i" and "paired ms"
  shows "holds (closed_in p) (\<lambda>rs. ids_ok (response_ids rs)) (complete_with_choice c i b ms ts ch)"
  unfolding complete_with_choice_def
  using assms
  by (intro hoare_rbind [OF prepare_closed] hoare_rbind [OF scene_holds [OF output_limit_scene]] hoare_pair invoke_closed) simp_all

lemma complete_closed:
  assumes "protocol_input i" and "paired ms"
  shows "holds (closed_in p) (\<lambda>rs. ids_ok (response_ids rs)) (complete c i b ms ts ov)"
  unfolding complete_def Let_def
  using assms
  by (intro holds_reading holds_handle complete_with_closed hoare_exn hoare_if hoare_throw)
    (simp_all add: final_prompt_paired)

lemma shape_closed:
  assumes "protocol_input i"
  shows "holds (closed_in p) (\<lambda>(view, shared). paired view) (shape_history c i b)"
  unfolding shape_history_def
proof (intro hoare_reading)
  fix r
  assume closed: "closed_in p r"
  then have hist: "history_input (run_state r) = (messages (run_state r), True)" and own: "malformed (messages (run_state r)) = []"
    by (simp_all add: history_input_def closed_in_def paired_malformed)
  obtain outcome charged where shape: "in_shape i b (messages (run_state r)) = (outcome, charged)"
    by (cases "in_shape i b (messages (run_state r))")
  have "paired ms" if "outcome = Inr (FreshList ms)" for ms
    using assms shape own that unfolding protocol_input_def paired_malformed by blast
  then have "holds (closed_in p) (\<lambda>(view, shared). paired view) (andthen (try_state (add_used_tokens (VInt charged)))
      (case outcome of Inl e \<Rightarrow> throw e | Inr SameList \<Rightarrow> ret (messages (run_state r), True) | Inr (FreshList ms) \<Rightarrow> ret (ms, False)))"
    using own
    by (intro hoare_andthen closed_frame)
      (auto simp: paired_malformed intro!: hoare_throw hoare_ret split: sum.split ShapedList.split)
  then show "hoare (\<lambda>r'. r' = r) (case history_input (run_state r) of (history, own) \<Rightarrow>
      (case in_shape i b history of (outcome, charged) \<Rightarrow> andthen (try_state (add_used_tokens (VInt charged)))
         (case outcome of Inl e \<Rightarrow> throw e | Inr SameList \<Rightarrow> ret (history, own) | Inr (FreshList ms) \<Rightarrow> ret (ms, False))))
      (\<lambda>a r. closed_in p r \<and> (case a of (view, shared) \<Rightarrow> paired view)) (\<lambda>_. closed_in p)"
    using closed by (auto simp: hist shape elim: hoare_pre)
qed

lemma steering_plain:
  assumes "build_steering_block si = (Some m, override, level)"
  shows "plain m"
  using assms
  by (auto simp: build_steering_block_def plain_def is_tool_msg_def is_leader_def get_def Let_def split: prod.splits if_splits)

lemma fold_closed:
  "closed_in p r \<Longrightarrow> messages (run_state r) \<noteq> [] \<Longrightarrow> closed_in p (r\<lparr>run_state := fold_last st (run_state r)\<rparr>)"
proof (cases st)
  case (Some m)
  assume closed: "closed_in p r" and some: "messages (run_state r) \<noteq> []"
  let ?ms = "messages (run_state r)"
  obtain xs x where "?ms = xs @ [x]" using some by (cases ?ms rule: rev_exhaust) auto
  then have "map skel (butlast ?ms @ [fold_steering (last ?ms) t]) = map skel ?ms" for t
    by (simp add: fold_steering_skel)
  then have "paired (butlast ?ms @ [fold_steering (last ?ms) t]) = paired ?ms" for t by (rule paired_skel)
  then show ?thesis using closed Some by (simp add: closed_in_def fold_last_def)
qed (simp add: fold_last_def)

lemma call_closed:
  assumes "protocol_input i"
  shows "holds (closed_in p) (\<lambda>rs. ids_ok (response_ids rs)) (call_llm c i ts)"
  unfolding call_llm_def
proof (rule hoare_reading)
  fix r0
  assume closed: "closed_in p r0"
  obtain steering override level where block: "build_steering_block (steering_input c r0) = (steering, override, level)"
    by (cases "build_steering_block (steering_input c r0)") 
  define persisted where "persisted = steering_persists steering (run_state r0)"
  define extra where "extra = (if persisted then [] else case steering of Some m \<Rightarrow> [m] | None \<Rightarrow> [])"
  have plains: "list_all plain extra"
    using steering_plain block by (auto simp: extra_def split: option.split)
  let ?pre = "\<lambda>r. closed_in p r \<and> (persisted \<longrightarrow> messages (run_state r) \<noteq> [])"
  have ask: "holds (closed_in p) (\<lambda>rs. ids_ok (response_ids rs)) (complete c i b (view @ extra) tools override)"
    if "paired view" for b view tools
    using assms by (intro complete_closed append_plains [OF that plains])
  have retry: "holds (closed_in p) (\<lambda>rs. ids_ok (response_ids rs)) (rbind (shape_history c i True) (\<lambda>(forced, shared').
       handle (complete c i shared' forced tools override) (\<lambda>e'. case e' of
            Provider pe' \<Rightarrow> if err_overflow pe' then throw ContextOverflowStop else throw e' | _ \<Rightarrow> throw e')))" for tools
    using assms
    by (intro hoare_rbind [OF shape_closed] hoare_pair holds_handle complete_closed hoare_exn hoare_if hoare_throw) auto
  have call: "holds (closed_in p) (\<lambda>rs. ids_ok (response_ids rs)) (rbind (shape_history c i False) (\<lambda>(view, shared).
       andthen (set_gate level override)
        (handle (complete c i (shared \<and> extra = []) (view @ extra) tools override) (\<lambda>e. case e of
           Provider pe \<Rightarrow>
             if \<not> err_overflow pe then throw e
             else rbind (shape_history c i True) (\<lambda>(forced, shared').
               handle (complete c i shared' forced tools override) (\<lambda>e'. case e' of
                 Provider pe' \<Rightarrow> if err_overflow pe' then throw ContextOverflowStop else throw e' | _ \<Rightarrow> throw e'))
         | _ \<Rightarrow> throw e))))" for tools
    using assms
    by (intro hoare_rbind [OF shape_closed] hoare_pair hoare_andthen closed_rules holds_handle ask retry hoare_exn hoare_if hoare_throw)
      auto
  have fold: "hoare ?pre (if persisted then on_state (fold_last steering) else ret ()) (\<lambda>_. closed_in p) (\<lambda>_. closed_in p)"
    by (intro hoare_if hoare_on_state hoare_ret) (auto intro: fold_closed)
  have "hoare ?pre (andthen (update (\<lambda>r. r\<lparr>steering_prev := Some (used_tokens (run_state r))\<rparr>))
      (andthen (if persisted then on_state (fold_last steering) else ret ()) m))
      (\<lambda>rs r. closed_in p r \<and> ids_ok (response_ids rs)) (\<lambda>_. closed_in p)"
    if "holds (closed_in p) (\<lambda>rs. ids_ok (response_ids rs)) m" for m
  proof (rule hoare_seq [OF _ hoare_seq [OF fold that]])
    show "hoare ?pre (update (\<lambda>r. r\<lparr>steering_prev := Some (used_tokens (run_state r))\<rparr>)) (\<lambda>_. ?pre) (\<lambda>_. closed_in p)"
      by (rule hoare_update) (simp add: closed_in_def)
  qed
  from this [OF call] show "hoare (\<lambda>r'. r' = r0) (case build_steering_block (steering_input c r0) of
       (steering, override, level) \<Rightarrow>
         let persisted = steering_persists steering (run_state r0)
         in andthen (update (\<lambda>r. r\<lparr>steering_prev := Some (used_tokens (run_state r))\<rparr>))
              (andthen (if persisted then on_state (fold_last steering) else ret ())
                (rbind (shape_history c i False) (\<lambda>(view, shared).
                   let extra = (if persisted then [] else case steering of Some m \<Rightarrow> [m] | None \<Rightarrow> []);
                       request = view @ extra;
                       tools' = narrowed_tools r0 level override ts
                   in andthen (set_gate level override)
                        (handle (complete c i (shared \<and> extra = []) request tools' override) (\<lambda>e.
                           case e of
                             Provider pe \<Rightarrow>
                               if \<not> err_overflow pe then throw e
                               else rbind (shape_history c i True) (\<lambda>(forced, shared').
                                 handle (complete c i shared' forced tools' override) (\<lambda>e'.
                                   case e' of
                                     Provider pe' \<Rightarrow> if err_overflow pe' then throw ContextOverflowStop else throw e'
                                   | _ \<Rightarrow> throw e'))
                           | _ \<Rightarrow> throw e))))))
      (\<lambda>rs r. closed_in p r \<and> ids_ok (response_ids rs)) (\<lambda>_. closed_in p)"
    unfolding block prod.case Let_def persisted_def [symmetric] extra_def [symmetric]
    by (rule hoare_pre) (use closed in \<open>auto simp: persisted_def steering_persists_def\<close>)
qed

section \<open>Phase by phase\<close>

text \<open>The last message opens an exchange: its calls are unanswered, those in \<open>ids\<close> have a row.\<close>

definition opened_in :: "SessionPhase \<Rightarrow> Response \<Rightarrow> pyval set \<Rightarrow> Runner \<Rightarrow> bool" where
  "opened_in p rs ids r =
     (phase (run_state r) = p \<and> rs_tool_calls rs \<noteq> [] \<and> ids_ok (response_ids rs) \<and>
      (\<exists>h. messages (run_state r) = h @ [assistant_message rs] \<and> paired h) \<and>
      table_ok (pending_events (run_state r)) \<and> VStr ` keys (pending_events (run_state r)) = ids \<and>
      anthropic_history (run_state r) = None \<and> list_all (\<lambda>q. paired (rq_messages q)) (sent r))"

text \<open>The open exchange has one row per call in the table of pending results.\<close>

definition waiting :: "Runner \<Rightarrow> bool" where
  "waiting r =
     (\<exists>h a. messages (run_state r) = h @ [a] \<and> paired h \<and> is_leader a \<and> ids_ok (call_ids a) \<and> call_ids a \<noteq> [] \<and>
        table_ok (pending_events (run_state r)) \<and> VStr ` keys (pending_events (run_state r)) = set (call_ids a) \<and>
        anthropic_history (run_state r) = None \<and> list_all (\<lambda>q. paired (rq_messages q)) (sent r))"

definition run_inv :: "Runner \<Rightarrow> bool" where
  "run_inv r =
     (case phase (run_state r) of
        HANDLING_RESPONSE \<Rightarrow> (\<exists>ps. pending_step r = Some ps \<and>
          (if \<not> truncated (ps_response ps) \<and> rs_tool_calls (ps_response ps) \<noteq> []
           then opened_in HANDLING_RESPONSE (ps_response ps) {} r else closed_in HANDLING_RESPONSE r))
      | EXECUTING_TOOLS \<Rightarrow> (\<exists>ps. pending_step r = Some ps \<and> opened_in EXECUTING_TOOLS (ps_response ps) {} r)
      | AWAITING_EVENTS \<Rightarrow> waiting r \<or> closed_in AWAITING_EVENTS r
      | p \<Rightarrow> closed_in p r)"

lemma closed_inv:
  "closed_in p r \<Longrightarrow> p \<noteq> HANDLING_RESPONSE \<Longrightarrow> p \<noteq> EXECUTING_TOOLS \<Longrightarrow> run_inv r"
  by (cases p) (auto simp: run_inv_def closed_in_def)

lemma transition_closed:
  "hoare (closed_in p) (transition q reason) (\<lambda>_. closed_in q) (\<lambda>e r. closed_in p r \<and> e \<noteq> RunCancelled)"
  by (simp add: hoare_def wp_transition closed_in_def)

lemma stop_closed:
  "hoare (closed_in p) (stop_precheck i t msg) (\<lambda>_. closed_in STOPPED) (\<lambda>_. closed_in p)"
  unfolding stop_precheck_def
  by (intro hoare_andthen append_closed hoare_post [OF transition_closed]) simp_all

lemma cancelled_closed:
  "hoare (closed_in p) (stop_for_run_cancellation i) (\<lambda>_. closed_in STOPPED) (\<lambda>_. closed_in p)"
  unfolding stop_for_run_cancellation_def by (rule stop_closed)

lemma overflow_closed:
  "hoare (closed_in p) (stop_on_context_overflow i) (\<lambda>_. closed_in STOPPED) (\<lambda>_. closed_in p)"
  unfolding stop_on_context_overflow_def Let_def
  by (intro hoare_andthen closed_rules hoare_post [OF transition_closed]) simp_all

abbreviation gated :: "Runner \<Rightarrow> bool" where
  "gated r \<equiv> closed_in STOPPED r \<or> closed_in CALLING_LLM r"

lemma wind_down_closed: "holds (closed_in p) (\<lambda>_. True) (enter_wind_down w c i)"
  unfolding enter_wind_down_def
  by (intro hoare_andthen closed_rules hoare_on_state hoare_update) (simp_all add: closed_in_def split: option.split)

lemma stop_gated: "hoare (closed_in PRECHECK) (stop_precheck i t m) (\<lambda>_. gated) (\<lambda>_. closed_in PRECHECK)"
  by (rule hoare_post [OF stop_closed]) simp_all

lemma call_gated: "hoare (closed_in PRECHECK) (transition CALLING_LLM None) (\<lambda>_. gated) (\<lambda>_. closed_in PRECHECK)"
  by (rule hoare_post [OF transition_closed]) simp_all

text \<open>The ways a gate chooses the next phase.\<close>

abbreviation chosen_post :: "bool \<Rightarrow> Runner \<Rightarrow> bool" where
  "chosen_post b r \<equiv> (if b then gated r else closed_in PRECHECK r)"

lemma choose_call:
  "hoare (closed_in PRECHECK) (andthen (transition CALLING_LLM None) (ret True)) chosen_post (\<lambda>_. closed_in PRECHECK)"
  by (rule hoare_seq [OF call_gated]) (simp add: hoare_ret)

lemma choose_stop:
  "hoare (closed_in PRECHECK) (andthen (stop_precheck i t m) (ret True)) chosen_post (\<lambda>_. closed_in PRECHECK)"
  by (rule hoare_seq [OF stop_gated]) (simp add: hoare_ret)

lemma choose_none: "hoare (closed_in PRECHECK) (ret False) chosen_post (\<lambda>_. closed_in PRECHECK)"
  by (rule hoare_ret) simp

lemmas choose = choose_call choose_stop choose_none

lemma brake_closed: "hoare (closed_in PRECHECK) (engage_brake w c i b) chosen_post (\<lambda>_. closed_in PRECHECK)"
proof -
  have mark: "holds (closed_in PRECHECK) (\<lambda>_. True) (if b then on_state (\<lambda>s. s\<lparr>budget_reserve_consumed := True\<rparr>) else ret ())"
    by (intro hoare_if hoare_on_state hoare_ret) (simp_all add: closed_in_def)
  have "hoare (closed_in PRECHECK)
      (andthen (if b then on_state (\<lambda>s. s\<lparr>budget_reserve_consumed := True\<rparr>) else ret ())
        (andthen (enter_wind_down w c i) (andthen (transition CALLING_LLM None) (ret True))))
      chosen_post (\<lambda>_. closed_in PRECHECK)"
    by (intro hoare_andthen [OF mark] hoare_andthen [OF wind_down_closed] choose_call) simp_all
  then show ?thesis
    unfolding engage_brake_def Let_def by (intro holds_reading hoare_if choose)
qed

lemma gate_closed: "hoare (closed_in PRECHECK) (apply_enforcement_gate w c i) chosen_post (\<lambda>_. closed_in PRECHECK)"
proof -
  have mark: "holds (closed_in PRECHECK) (\<lambda>_. True) (on_state (\<lambda>s. s\<lparr>wind_down_attempts := wind_down_attempts s + 1\<rparr>))"
    by (intro hoare_on_state) (simp add: closed_in_def)
  have retry: "hoare (closed_in PRECHECK) (andthen (on_state (\<lambda>s. s\<lparr>wind_down_attempts := wind_down_attempts s + 1\<rparr>))
      (andthen (append_to i (text_message ''system'' WIND_DOWN_RETRY)) (andthen (transition CALLING_LLM None) (ret True))))
      chosen_post (\<lambda>_. closed_in PRECHECK)"
    by (intro hoare_andthen [OF mark] hoare_andthen [OF append_closed] choose_call) simp_all
  have brake: "hoare (closed_in PRECHECK) (andthen (decide_run_budget c i ForWindDown 0 1)
      (reading (\<lambda>r'. engage_brake w c i (budget_spent c r')))) chosen_post (\<lambda>_. closed_in PRECHECK)"
    by (intro hoare_andthen [OF scene_holds [OF decide_scene]] holds_reading brake_closed) simp_all
  show ?thesis
    unfolding apply_enforcement_gate_def Let_def by (intro holds_reading hoare_if choose retry brake brake_closed)
qed

lemma limits_closed: "hoare (closed_in PRECHECK) (precheck_limits w c i) (\<lambda>_. gated) (\<lambda>_. closed_in PRECHECK)"
proof -
  have rest: "hoare (chosen_post b) (if b then ret () else reading (\<lambda>r.
         if (case set_max_steps c of None \<Rightarrow> False | Some n \<Rightarrow> step_count (run_state r) \<ge> n)
         then stop_precheck i (''step limit reached: '' @ int_str (step_count (run_state r)) @ '' steps'') None
         else transition CALLING_LLM None)) (\<lambda>_. gated) (\<lambda>_. closed_in PRECHECK)" for b
    by (cases b) (auto intro!: hoare_ret holds_reading stop_gated call_gated)
  have gate: "hoare (closed_in PRECHECK) (rbind (apply_enforcement_gate w c i) (\<lambda>b. if b then ret () else reading (\<lambda>r.
         if (case set_max_steps c of None \<Rightarrow> False | Some n \<Rightarrow> step_count (run_state r) \<ge> n)
         then stop_precheck i (''step limit reached: '' @ int_str (step_count (run_state r)) @ '' steps'') None
         else transition CALLING_LLM None))) (\<lambda>_. gated) (\<lambda>_. closed_in PRECHECK)"
    by (rule hoare_bind [OF gate_closed rest])
  show ?thesis
    unfolding precheck_limits_def by (intro holds_reading hoare_if stop_gated gate)
qed

lemma precheck_closed: "hoare (closed_in PRECHECK) (precheck w c i) (\<lambda>_. gated) (\<lambda>_. closed_in PRECHECK)"
proof -
  have cancel: "hoare (closed_in PRECHECK) (stop_for_run_cancellation i) (\<lambda>_. gated) (\<lambda>_. closed_in PRECHECK)"
    unfolding stop_for_run_cancellation_def by (rule stop_gated)
  have limits: "hoare (closed_in PRECHECK) (\<lambda>r. case decide_run_budget c i ForPrecheck 0 1 r of
      (Inl RunCancelled, r') \<Rightarrow> stop_for_run_cancellation i r'
    | (Inl e, r') \<Rightarrow> (Inl e, r')
    | (Inr _, r') \<Rightarrow> precheck_limits w c i r') (\<lambda>_. gated) (\<lambda>_. closed_in PRECHECK)"
    unfolding hoare_def
  proof (intro allI impI)
    fix r
    assume P: "closed_in PRECHECK r"
    obtain res r' where d: "decide_run_budget c i ForPrecheck 0 1 r = (res, r')" by fastforce
    have "closed_in PRECHECK r'" using closed_scene [OF evolvesD [OF decide_scene d] P] .
    then show "wp (\<lambda>r. case decide_run_budget c i ForPrecheck 0 1 r of
      (Inl RunCancelled, r') \<Rightarrow> stop_for_run_cancellation i r'
    | (Inl e, r') \<Rightarrow> (Inl e, r')
    | (Inr _, r') \<Rightarrow> precheck_limits w c i r') (\<lambda>_. gated) (\<lambda>_. closed_in PRECHECK) r"
      using hoareD [OF cancel, of r'] hoareD [OF limits_closed, of r']
      by (auto simp: wp_def d split: sum.split RunExn.split prod.split)
  qed
  show ?thesis
    unfolding precheck_def Let_def
    by (intro hoare_andthen [OF scene_holds [OF environment_scene]] hoare_if holds_reading cancel stop_gated limits) simp_all
qed

section \<open>The response is taken over\<close>

abbreviation closed :: "Runner \<Rightarrow> bool" where
  "closed r \<equiv> closed_in (phase (run_state r)) r"

lemma closed_any: "closed_in p r \<Longrightarrow> closed r"
  by (simp add: closed_in_def)

lemma stop_inv: "hoare (closed_in p) (stop_precheck i t m) (\<lambda>_. run_inv) (\<lambda>_. closed)"
  by (rule hoare_post [OF stop_closed]) (auto intro: closed_inv closed_any)

lemma cancel_inv: "hoare (closed_in p) (stop_for_run_cancellation i) (\<lambda>_. run_inv) (\<lambda>_. closed)"
  unfolding stop_for_run_cancellation_def by (rule stop_inv)

lemma open_response:
  assumes "ids_ok (response_ids rs)"
  shows "hoare (closed_in CALLING_LLM)
    (andthen (append_assistant_message i rs)
      (andthen (update (\<lambda>r. r\<lparr>pending_step := Some \<lparr>ps_response = rs, ps_latency = in_latency i\<rparr>\<rparr>))
        (transition HANDLING_RESPONSE None))) (\<lambda>_. run_inv) (\<lambda>_. closed)"
proof -
  have "paired (h @ [assistant_message rs])" if "paired h" "rs_tool_calls rs = []" for h
    using that by (simp add: paired_plain plain_def assistant_leader)
  then show ?thesis
    using assms unfolding hoare_def append_assistant_message_def append_to_def
    by (auto simp: wp_simps closed_in_def run_inv_def opened_in_def append_message_def paired_plain)
qed

lemma accept_closed:
  assumes "ids_ok (response_ids rs)"
  shows "hoare (closed_in CALLING_LLM) (accept_response c i rs) (\<lambda>_. run_inv) (\<lambda>_. closed)"
proof -
  have prompt: "holds (closed_in CALLING_LLM) (\<lambda>_. True) (update (\<lambda>r. r\<lparr>final_prompt := None\<rparr>))"
    by (rule hoare_update) (simp add: closed_in_def)
  have tokens: "holds (closed_in CALLING_LLM) (\<lambda>_. True)
      (on_state (\<lambda>s. set_context_tokens k (add_markup_recovered m s)))" for k m
    by (rule hoare_on_state) (simp add: closed_in_def set_context_tokens_def add_markup_recovered_def)
  have review: "holds (closed_in CALLING_LLM) (\<lambda>_. True) (if b then decide_run_budget c i AfterResponse 0 1 else ret ())" for b
    by (intro hoare_if closed_rules hoare_ret) simp
  have stop: "hoare (closed_in CALLING_LLM) (andthen (keep_text i rs) (andthen (append_to i (text_message ''system'' t))
      (transition STOPPED reason))) (\<lambda>_. run_inv) (\<lambda>_. closed)" for t reason
    by (intro hoare_andthen closed_rules hoare_post [OF transition_closed]) (auto intro: closed_inv closed_any)
  have cancel: "hoare (closed_in CALLING_LLM) (andthen (keep_text i rs) (stop_for_run_cancellation i))
      (\<lambda>_. run_inv) (\<lambda>_. closed)"
    by (intro hoare_andthen closed_rules cancel_inv) (auto intro: closed_any)
  show ?thesis
    unfolding accept_response_def Let_def
    by (intro hoare_rbind [OF scene_holds [OF lift_usage_scene]] hoare_pair hoare_andthen [OF prompt] hoare_andthen [OF tokens]
          hoare_andthen [OF review] hoare_andthen [OF scene_holds [OF tokens_scene]]
          hoare_andthen [OF scene_holds [OF reserve_consumed_scene]] holds_reading hoare_if stop cancel open_response assms)
      (auto intro: closed_any)
qed

lemma call_phase:
  assumes "protocol_input i"
  shows "hoare (closed_in CALLING_LLM) (run_llm_call w c i) (\<lambda>_. run_inv) (\<lambda>_. closed)"
proof -
  have started: "holds (closed_in CALLING_LLM) (\<lambda>_. True) (update (\<lambda>r. r\<lparr>step_started := False\<rparr>))"
    by (rule hoare_update) (simp add: closed_in_def)
  have overflow: "hoare (closed_in CALLING_LLM) (stop_on_context_overflow i) (\<lambda>_. run_inv) (\<lambda>_. closed)"
    by (rule hoare_post [OF overflow_closed]) (auto intro: closed_inv closed_any)
  have call: "hoare (closed_in CALLING_LLM) (\<lambda>r. case call_llm c i tools r of
            (Inr rs, r') \<Rightarrow> accept_response c i rs r'
          | (Inl RunCancelled, r') \<Rightarrow> stop_for_run_cancellation i r'
          | (Inl (TokenBudgetStop reserved remaining minimum), r') \<Rightarrow>
              stop_precheck i (token_stop_reason reserved remaining minimum) None r'
          | (Inl ContextOverflowStop, r') \<Rightarrow> stop_on_context_overflow i r'
          | (Inl TeamBudgetStop, r') \<Rightarrow> stop_precheck i ''team budget exceeded: aggregate spend reached the global cap'' None r'
          | (Inl e, r') \<Rightarrow> (Inl e, r')) (\<lambda>_. run_inv) (\<lambda>_. closed)" for tools
    unfolding hoare_def
  proof (intro allI impI)
    fix r
    assume P: "closed_in CALLING_LLM r"
    obtain res r' where m: "call_llm c i tools r = (res, r')" by fastforce
    note post = hoareD [OF call_closed [OF assms] P, of c tools, unfolded wp_def m]
    show "wp (\<lambda>r. case call_llm c i tools r of
            (Inr rs, r') \<Rightarrow> accept_response c i rs r'
          | (Inl RunCancelled, r') \<Rightarrow> stop_for_run_cancellation i r'
          | (Inl (TokenBudgetStop reserved remaining minimum), r') \<Rightarrow>
              stop_precheck i (token_stop_reason reserved remaining minimum) None r'
          | (Inl ContextOverflowStop, r') \<Rightarrow> stop_on_context_overflow i r'
          | (Inl TeamBudgetStop, r') \<Rightarrow> stop_precheck i ''team budget exceeded: aggregate spend reached the global cap'' None r'
          | (Inl e, r') \<Rightarrow> (Inl e, r')) (\<lambda>_. run_inv) (\<lambda>_. closed) r"
    proof (cases res)
      case (Inl e)
      then have "closed_in CALLING_LLM r'" using post by simp
      note this' = hoareD [OF cancel_inv this, of i] hoareD [OF stop_inv this, of i] hoareD [OF overflow this] closed_any [OF this]
      show ?thesis using this' by (cases e) (simp_all add: wp_def m Inl)
    next
      case (Inr rs)
      then have "ids_ok (response_ids rs)" and "closed_in CALLING_LLM r'" using post by simp_all
      then show ?thesis using hoareD [OF accept_closed, of rs r' c i] by (simp add: wp_def m Inr)
    qed
  qed
  show ?thesis
    unfolding run_llm_call_def
    by (intro hoare_andthen [OF started] hoare_andthen [OF scene_holds [OF environment_scene]]
          hoare_rbind [OF scene_holds [OF schemas_scene]] call) (auto intro: closed_any)
qed

section \<open>The response is handled\<close>

lemma move_inv:
  "q \<noteq> HANDLING_RESPONSE \<Longrightarrow> q \<noteq> EXECUTING_TOOLS \<Longrightarrow> hoare (closed_in p) (transition q reason) (\<lambda>_. run_inv) (\<lambda>_. closed)"
  by (rule hoare_post [OF transition_closed]) (auto intro: closed_inv closed_any)

lemma flags_closed:
  "holds (closed_in p) (\<lambda>_. True) (update (\<lambda>r. r\<lparr>required_tool_retried := True\<rparr>))"
  "holds (closed_in p) (\<lambda>_. True) (update (\<lambda>r. r\<lparr>empty_stop_retried := True\<rparr>))"
  by (rule hoare_update, simp add: closed_in_def)+

lemma placeholder_closed: "holds (closed_in p) (\<lambda>_. True) (if b then ret () else append_to i placeholder_message)"
  "holds (closed_in p) (\<lambda>_. True) (if b then append_to i placeholder_message else ret ())"
  by (intro hoare_if hoare_ret closed_rules; simp)+

lemma handle_phase:
  "hoare (\<lambda>r. phase (run_state r) = HANDLING_RESPONSE \<and> run_inv r) (handle_pending_response i) (\<lambda>_. run_inv) (\<lambda>_. closed)"
  unfolding handle_pending_response_def
proof (rule hoare_reading)
  fix r
  assume P: "phase (run_state r) = HANDLING_RESPONSE \<and> run_inv r"
  then obtain ps where ps: "pending_step r = Some ps" by (auto simp: run_inv_def)
  let ?rs = "ps_response ps"
  show "hoare (\<lambda>r'. r' = r) (case pending_step r of
       None \<Rightarrow> fail_with ''Cannot handle assistant response before calling LLM''
     | Some ps \<Rightarrow>
         let rs = ps_response ps
         in if truncated rs
            then andthen (append_to i (text_message ''system''
                   ''[Output truncated by the provider. Partial response preserved; session stopped.]''))
                   (andthen clear_pending_step
                     (transition STOPPED (Some ''output truncated: provider reached its generation limit'')))
            else if rs_tool_calls rs \<noteq> [] then transition EXECUTING_TOOLS None
            else if tool_allowlist r \<notin> {None, Some []} \<and> plain_stop rs
            then if \<not> required_tool_retried r
                 then andthen (update (\<lambda>r. r\<lparr>required_tool_retried := True\<rparr>))
                   (andthen (if has_content rs then ret () else append_to i placeholder_message)
                     (andthen (append_to i (text_message ''user'' REQUIRED_TOOL_RETRY_NUDGE)) (transition AUTOSAVING None)))
                 else andthen clear_pending_step (transition STOPPED (Some ''required tool was not called after correction''))
            else if \<not> has_content rs \<and> plain_stop rs \<and> \<not> empty_stop_retried r
            then andthen (update (\<lambda>r. r\<lparr>empty_stop_retried := True\<rparr>))
                   (andthen (if messages (run_state r) \<noteq> [] \<and>
                                get (last (messages (run_state r))) ''role'' \<in> {VStr ''user'', VStr ''tool''}
                             then append_to i placeholder_message else ret ())
                     (andthen (append_to i (text_message ''user'' EMPTY_STOP_NUDGE)) (transition AUTOSAVING None)))
            else andthen clear_pending_step (transition DONE (Some ''completed''))) (\<lambda>_. run_inv) (\<lambda>_. closed)"
  proof (cases "\<not> truncated ?rs \<and> rs_tool_calls ?rs \<noteq> []")
    case True
    then have "opened_in HANDLING_RESPONSE ?rs {} r" using P ps by (auto simp: run_inv_def)
    then have "wp (transition EXECUTING_TOOLS None) (\<lambda>_. run_inv) (\<lambda>_. closed) r"
      using ps by (simp add: wp_transition opened_in_def run_inv_def)
    then show ?thesis using True by (simp add: hoare_def ps)
  next
    case False
    then have "closed_in HANDLING_RESPONSE r" using P ps by (auto simp: run_inv_def)
    then have pre: "r' = r \<Longrightarrow> closed_in HANDLING_RESPONSE r'" for r' by simp
    show ?thesis
      unfolding ps option.case Let_def
      apply (rule hoare_pre [where P = "closed_in HANDLING_RESPONSE", OF _ pre])
       apply (intro hoare_if hoare_andthen hoare_ret closed_rules flags_closed placeholder_closed move_inv)
      using False by (auto intro: closed_any)
  qed
qed

section \<open>Ids of a batch\<close>

lemma tool_msg_ids [simp]: "result_ids (map (\<lambda>tc. tool_msg (get tc ''id'') (f tc)) calls) = batch_ids calls"
  by (simp add: result_ids_def tool_msg_def get_def comp_def)

lemma tool_msg_tool [simp]: "is_tool_msg (tool_msg a b)"
  by (simp add: is_tool_msg_def tool_msg_def get_def)

lemma tool_msg_id [simp]: "get (tool_msg a b) ''tool_call_id'' = a"
  by (simp add: tool_msg_def get_def)

lemma result_ids_append [simp]: "result_ids (xs @ ys) = result_ids xs @ result_ids ys"
  by (simp add: result_ids_def)

lemma usable_str: "usable_id i \<Longrightarrow> is_str i"
  by (simp add: usable_id_def)

lemma ids_ok_str: "ids_ok ids \<Longrightarrow> i \<in> set ids \<Longrightarrow> is_str i"
  by (auto simp: ids_ok_def list_all_iff usable_str)

text \<open>Ordering the result messages puts one message per call, in the order of the calls.\<close>

lemma ordered_answers:
  assumes "list_all (\<lambda>tc. is_str (get tc ''id'')) calls" and "set (result_ids ms) = set (batch_ids calls)"
    and "list_all is_tool_msg ms"
  shows "result_ids (ordered_tool_messages calls ms) = batch_ids calls \<and> list_all is_tool_msg (ordered_tool_messages calls ms)"
proof -
  let ?pick = "\<lambda>tc. find (\<lambda>m. is_str (get m ''tool_call_id'') \<and> get m ''tool_call_id'' = get tc ''id'') (rev ms)"
  have all_str: "is_str (get m ''tool_call_id'')" if "m \<in> set ms" for m
  proof -
    have "get m ''tool_call_id'' \<in> set (result_ids ms)" using that by (simp add: result_ids_def)
    then show ?thesis using assms(1,2) by (auto simp: list_all_iff)
  qed
  then have rest: "filter (\<lambda>m. \<not> is_str (get m ''tool_call_id'')) ms = []" by (simp add: filter_empty_conv)
  have pick: "\<exists>m. ?pick tc = Some m \<and> m \<in> set ms \<and> get m ''tool_call_id'' = get tc ''id''" if tc: "tc \<in> set calls" for tc
  proof (cases "?pick tc")
    case None
    have "get tc ''id'' \<in> set (result_ids ms)" using tc assms(2) by simp
    then obtain m where "m \<in> set ms" "get m ''tool_call_id'' = get tc ''id''" by (auto simp: result_ids_def)
    then show ?thesis using None all_str by (auto simp only: find_None_iff set_rev)
  next
    case (Some m)
    then obtain k where "k < length (rev ms)" "m = rev ms ! k" "get m ''tool_call_id'' = get tc ''id''"
      by (auto simp only: find_Some_iff)
    then show ?thesis using Some nth_mem [of k "rev ms"] by simp
  qed
  have "result_ids (List.map_filter ?pick cs) = batch_ids cs \<and> list_all is_tool_msg (List.map_filter ?pick cs)"
    if "set cs \<subseteq> set calls" for cs
    using that
  proof (induction cs)
    case (Cons tc cs)
    then obtain m where m: "?pick tc = Some m" "m \<in> set ms" "get m ''tool_call_id'' = get tc ''id''" using pick by auto
    then have "is_tool_msg m" using assms(3) by (simp add: list_all_iff)
    then show ?case using Cons m by (simp add: map_filter_simps result_ids_def)
  qed (simp add: map_filter_simps result_ids_def)
  then show ?thesis using rest by (simp add: ordered_tool_messages_def)
qed

text \<open>The allowlist splits the calls into those that run and those that are answered at once.\<close>

lemma allowlist_split:
  assumes "apply_pending_tool_allowlist w r calls = (kept, blocked)"
  shows "set (batch_ids kept) \<union> set (result_ids blocked) = set (batch_ids calls)" and "list_all is_tool_msg blocked"
    and "distinct (batch_ids calls) \<Longrightarrow> distinct (batch_ids kept) \<and> distinct (result_ids blocked) \<and>
           set (batch_ids kept) \<inter> set (result_ids blocked) = {}"
    and "set kept \<subseteq> set calls"
proof -
  obtain ok reply where kept: "kept = filter ok calls"
    and blocked: "blocked = map (\<lambda>tc. tool_msg (get tc ''id'') (reply tc)) (filter (\<lambda>tc. \<not> ok tc) calls)"
  proof (cases "tool_allowlist r")
    case None
    then show thesis using assms that [of "\<lambda>_. True"] by (simp add: apply_pending_tool_allowlist_def)
  next
    case (Some names)
    then show thesis
      using assms that [of "\<lambda>tc. call_name tc \<in> VStr ` set names"
          "blocked_text w names (or_default (gate_label r) ''hard tool gate'')"]
      by (auto simp: apply_pending_tool_allowlist_def Let_def)
  qed
  show "set kept \<subseteq> set calls" "list_all is_tool_msg blocked"
    by (auto simp: kept blocked list_all_iff)
  show "set (batch_ids kept) \<union> set (result_ids blocked) = set (batch_ids calls)"
    by (auto simp: kept blocked tool_msg_ids)
  assume d: "distinct (batch_ids calls)"
  then have "inj_on (\<lambda>tc. get tc ''id'') (set calls)" by (simp add: distinct_map)
  then show "distinct (batch_ids kept) \<and> distinct (result_ids blocked) \<and> set (batch_ids kept) \<inter> set (result_ids blocked) = {}"
    using d by (auto simp: kept blocked tool_msg_ids distinct_map_filter dest: inj_onD)
qed

section \<open>An ordinary batch\<close>

lemma opened_waiting: "opened_in p rs (set (response_ids rs)) r \<Longrightarrow> waiting r \<and> phase (run_state r) = p"
  by (auto simp: opened_in_def waiting_def assistant_leader assistant_ids)

lemma opened_scene: "scene r' = scene r \<Longrightarrow> opened_in p rs ids r \<Longrightarrow> opened_in p rs ids r'"
  by (simp add: scene_eq opened_in_def)

lemma scene_opened: "evolves (\<lambda>r r'. scene r' = scene r) m \<Longrightarrow> holds (opened_in p rs ids) (\<lambda>_. True) m"
  by (erule holds_evolves) (rule opened_scene)

text \<open>A result with one message per call closes the exchange.\<close>

lemma apply_closes:
  assumes "list_all is_tool_msg (messages_to_append p)" and "distinct (result_ids (messages_to_append p))"
    and "set (result_ids (messages_to_append p)) = set (response_ids rs)"
  shows "hoare (opened_in q rs {}) (apply_result i p) (\<lambda>_. closed_in q) E"
  unfolding apply_result_def
proof (rule hoare_on_state)
  fix r
  assume opn: "opened_in q rs {} r"
  obtain ts t where applied: "snd (apply_to (replicate (length (messages_to_append p)) (in_now i)) MAX_CALL_HASH_WINDOW p (run_state r)) =
      (run_state r)\<lparr>messages := messages (run_state r) @ messages_to_append p, message_timestamps := ts, turn := t\<rparr>"
    using apply_result_eq by blast
  from opn obtain h where "messages (run_state r) = h @ [assistant_message rs]" "paired h"
    by (auto simp: opened_in_def)
  with opn assms have "paired (messages (run_state r) @ messages_to_append p)"
    by (auto simp: opened_in_def intro!: answered_batch)
  then show "closed_in q (r\<lparr>run_state := snd (apply_to (replicate (length (messages_to_append p)) (in_now i)) MAX_CALL_HASH_WINDOW p
      (run_state r))\<rparr>)"
    using opn unfolding applied by (simp add: closed_in_def opened_in_def)
qed

lemma answers_closes:
  assumes "list_all2 answers (rs_tool_calls rs) (messages_to_append p)" and "ids_ok (response_ids rs)"
  shows "hoare (opened_in q rs {}) (apply_result i p) (\<lambda>_. closed_in q) E"
  using answers_ids [OF assms(1)] assms(2) by (intro apply_closes) (simp_all add: ids_ok_def)

lemma str_calls: "ids_ok (batch_ids calls) \<Longrightarrow> list_all (\<lambda>tc. is_str (get tc ''id'')) calls"
  by (auto simp: ids_ok_def list_all_iff usable_str)

lemma process_answers:
  assumes "list_all (\<lambda>tc. is_str (get tc ''id'')) calls"
  shows "hoare (opened_in p rs ids) (process_on w x calls)
    (\<lambda>res r. opened_in p rs ids r \<and> list_all2 answers calls (messages_to_append res)) E"
  unfolding process_on_def
proof (rule holds_reading)
  fix r
  obtain res t sub where run: "tool_process w (run_tools r) x calls (run_state r) = (res, t, sub)"
    by (cases "tool_process w (run_tools r) x calls (run_state r)") auto
  have "list_all2 answers calls (messages_to_append res)"
    using tool_process_answers [OF assms, of w "run_tools r" x "run_state r"] by (simp add: run)
  then show "hoare (opened_in p rs ids)
     (case tool_process w (run_tools r) x calls (run_state r) of
       (result, t, submitted) \<Rightarrow> andthen (on_state (\<lambda>s. s\<lparr>turn := t, submitted_summary := submitted\<rparr>)) (ret result))
     (\<lambda>res r. opened_in p rs ids r \<and> list_all2 answers calls (messages_to_append res)) E"
    unfolding run by (simp add: hoare_def wp_simps opened_in_def)
qed

lemma kept_calls:
  assumes "apply_pending_tool_allowlist w r calls = (kept, blocked)" and "ids_ok (batch_ids calls)"
  shows "list_all (\<lambda>tc. is_str (get tc ''id'')) kept" and "distinct (batch_ids kept)" and "distinct (result_ids blocked)"
    and "set (batch_ids kept) \<inter> set (result_ids blocked) = {}"
    and "set (batch_ids kept) \<union> set (result_ids blocked) = set (batch_ids calls)" and "list_all is_tool_msg blocked"
    and "\<forall>i \<in> set (result_ids blocked). is_str i"
proof -
  show "set (batch_ids kept) \<union> set (result_ids blocked) = set (batch_ids calls)" and "list_all is_tool_msg blocked"
    by (rule allowlist_split [OF assms(1)])+
  then show "\<forall>i \<in> set (result_ids blocked). is_str i" using assms(2) by (blast intro: ids_ok_str)
  have "distinct (batch_ids calls)" using assms(2) by (simp add: ids_ok_def)
  then show "distinct (batch_ids kept)" and "distinct (result_ids blocked)" and "set (batch_ids kept) \<inter> set (result_ids blocked) = {}"
    using allowlist_split(3) [OF assms(1)] by simp_all
  show "list_all (\<lambda>tc. is_str (get tc ''id'')) kept"
    using allowlist_split(4) [OF assms(1)] str_calls [OF assms(2)] by (auto simp: list_all_iff)
qed

lemma finish_batch:
  "hoare (closed_in EXECUTING_TOOLS) (andthen (record_submission p) (andthen clear_gate (transition AUTOSAVING None)))
     (\<lambda>_. run_inv) (\<lambda>_. closed)"
  by (intro hoare_andthen closed_rules move_inv) (auto intro: closed_any)

lemma batch_phase:
  assumes split: "apply_pending_tool_allowlist w r0 (rs_tool_calls rs) = (kept, blocked)"
    and ids: "ids_ok (response_ids rs)"
  shows "hoare (opened_in EXECUTING_TOOLS rs {}) (execute_batch w i (rs_tool_calls rs) kept blocked) (\<lambda>_. run_inv) (\<lambda>_. closed)"
proof -
  let ?A = "\<lambda>res. list_all2 answers kept (messages_to_append res)"
  note k = kept_calls [OF split ids]
  have run: "hoare (opened_in EXECUTING_TOOLS rs {}) (if kept \<noteq> [] then process_on w (in_execute i) kept else ret empty_result)
      (\<lambda>res r. opened_in EXECUTING_TOOLS rs {} r \<and> ?A res) (\<lambda>_. closed)"
    using k(1) by (intro hoare_if process_answers hoare_ret) (simp_all add: empty_result_def)
  have rest: "hoare (\<lambda>r. opened_in EXECUTING_TOOLS rs {} r \<and> ?A result)
      (let p = result\<lparr>messages_to_append := ordered_tool_messages (rs_tool_calls rs) (messages_to_append result @ blocked)\<rparr>
       in andthen (apply_result i p) (andthen (record_submission p) (andthen clear_gate (transition AUTOSAVING None))))
      (\<lambda>_. run_inv) (\<lambda>_. closed)" for result
  proof (cases "?A result")
    case True
    let ?p = "result\<lparr>messages_to_append := ordered_tool_messages (rs_tool_calls rs) (messages_to_append result @ blocked)\<rparr>"
    have "result_ids (messages_to_append ?p) = response_ids rs \<and> list_all is_tool_msg (messages_to_append ?p)"
      using ordered_answers [OF str_calls [OF ids], of "messages_to_append result @ blocked"] answers_ids [OF True] k(5,6)
      by simp
    then have "hoare (opened_in EXECUTING_TOOLS rs {}) (apply_result i ?p) (\<lambda>_. closed_in EXECUTING_TOOLS) (\<lambda>_. closed)"
      using ids by (intro apply_closes) (simp_all add: ids_ok_def)
    from hoare_seq [OF this finish_batch] show ?thesis
      unfolding Let_def by (rule hoare_pre) simp
  qed (simp add: hoare_def)
  show ?thesis
    unfolding execute_batch_def by (rule hoare_bind [OF run rest])
qed

section \<open>A batch with deferred work\<close>

text \<open>Every call gets a row: buffered at once, or opened for the work that runs elsewhere.\<close>

definition opened_with :: "SessionPhase \<Rightarrow> Response \<Rightarrow> (PendingEventTable \<Rightarrow> bool) \<Rightarrow> Runner \<Rightarrow> bool" where
  "opened_with p rs T r =
     (phase (run_state r) = p \<and> rs_tool_calls rs \<noteq> [] \<and> ids_ok (response_ids rs) \<and>
      (\<exists>h. messages (run_state r) = h @ [assistant_message rs] \<and> paired h) \<and> T (pending_events (run_state r)) \<and>
      anthropic_history (run_state r) = None \<and> list_all (\<lambda>q. paired (rq_messages q)) (sent r))"

abbreviation rows_for :: "pyval set \<Rightarrow> PendingEventTable \<Rightarrow> bool" where
  "rows_for ids t \<equiv> table_ok t \<and> VStr ` keys t = ids"

lemma opened_with: "opened_in p rs ids = opened_with p rs (rows_for ids)"
  by (rule ext) (simp only: opened_in_def opened_with_def conj_assoc)

lemma table_step:
  assumes "\<And>t. T t \<Longrightarrow> \<exists>t'. f t = Inr t' \<and> T' t'"
  shows "hoare (opened_with p rs T) (on_table f) (\<lambda>_. opened_with p rs T') E"
  unfolding on_table_def
proof (rule hoare_reading)
  fix r
  assume P: "opened_with p rs T r"
  then have "T (pending_events (run_state r))" by (simp add: opened_with_def)
  then obtain t' where t': "f (pending_events (run_state r)) = Inr t'" "T' t'"
    using assms by blast
  show "hoare (\<lambda>r'. r' = r) (case f (pending_events (run_state r)) of
     Inl _ \<Rightarrow> throw (Raised ''pending row'')
   | Inr t \<Rightarrow> on_state (\<lambda>s. s\<lparr>pending_events := t\<rparr>)) (\<lambda>_. opened_with p rs T') E"
    using P t' by (simp add: hoare_def wp_simps opened_with_def)
qed

lemma fresh_add:
  assumes "table_ok t" and "tool_call_id row \<notin> keys t"
  shows "\<exists>t'. add t row = Inr t' \<and> table_ok t' \<and> keys t' = insert (tool_call_id row) (keys t)"
  using assms add_table_ok add_keys by (metis add_def)

lemma str_id: "is_str v \<Longrightarrow> VStr (str_of v) = v"
  by (cases v) (simp_all add: is_str_def str_of_def)

lemma fresh_str: "is_str v \<Longrightarrow> v \<notin> ids \<Longrightarrow> VStr ` keys t = ids \<Longrightarrow> str_of v \<notin> keys t"
  using str_id by (metis image_eqI)

lemma buffer_row_opened:
  assumes "is_str (get m ''tool_call_id'')" and "get m ''tool_call_id'' \<notin> ids"
  shows "hoare (opened_in p rs ids) (on_table (buffer_completed_row order m))
    (\<lambda>_. opened_in p rs (insert (get m ''tool_call_id'') ids)) E"
  unfolding opened_with
proof (rule table_step)
  fix t :: PendingEventTable
  let ?cid = "str_of (get m ''tool_call_id'')"
  assume "rows_for ids t"
  then have t: "table_ok t" "VStr ` keys t = ids" by simp_all
  then have fresh: "?cid \<notin> keys t" using fresh_str [OF assms] by blast
  then have "map_of t ?cid = None" by (simp add: map_of_eq_None_iff)
  then show "\<exists>t'. buffer_completed_row order m t = Inr t' \<and> rows_for (insert (get m ''tool_call_id'') ids) t'"
    using fresh_add [OF t(1), of "new_row ?cid IMMEDIATE (order ?cid) RowStatus.DONE (Some (str_of (get m ''content'')))"]
      fresh t(2) str_id [OF assms(1)]
    by (auto simp: buffer_completed_row_def Let_def new_row_def)
qed

lemma buffer_rows_opened:
  assumes "\<forall>i \<in> set (result_ids ms). is_str i" and "distinct (result_ids ms)" and "set (result_ids ms) \<inter> ids = {}"
  shows "hoare (opened_in p rs ids) (buffer_completed_rows order ms) (\<lambda>_. opened_in p rs (ids \<union> set (result_ids ms))) E"
  using assms
proof (induction ms arbitrary: ids)
  case (Cons m ms)
  let ?i = "get m ''tool_call_id''"
  have first: "hoare (opened_in p rs ids) (on_table (buffer_completed_row order m)) (\<lambda>_. opened_in p rs (insert ?i ids)) E"
    using Cons.prems by (intro buffer_row_opened) (simp_all add: result_ids_def)
  have "hoare (opened_in p rs (insert ?i ids)) (buffer_completed_rows order ms)
      (\<lambda>_. opened_in p rs (insert ?i ids \<union> set (result_ids ms))) E"
    using Cons.prems by (intro Cons.IH) (auto simp: result_ids_def)
  then have "hoare (opened_in p rs ids) (buffer_completed_rows order (m # ms))
      (\<lambda>_. opened_in p rs (insert ?i ids \<union> set (result_ids ms))) E"
    unfolding buffer_completed_rows.simps by (rule hoare_seq [OF first])
  moreover have "insert ?i ids \<union> set (result_ids ms) = ids \<union> set (result_ids (m # ms))" by (simp add: result_ids_def)
  ultimately show ?case by simp
qed (simp add: hoare_ret result_ids_def)

lemma fill_keys_set: "fill t cid r st f e = Inr t' \<Longrightarrow> keys t' = keys t"
  using fill_keys by (metis list.set_map)

lemma fill_row: "fill t cid r st f e = Inr t' \<Longrightarrow> \<exists>row. map_of t' cid = Some row"
  by (auto simp: fill_def update_conv split: option.splits if_splits)

lemma deferred_opened:
  assumes "is_str (get tc ''id'')" and "get tc ''id'' \<notin> ids"
  shows "hoare (opened_in p rs ids) (execute_deferred_tool order tc outcome) (\<lambda>_. opened_in p rs (insert (get tc ''id'') ids)) E"
proof -
  let ?cid = "str_of (get tc ''id'')"
  obtain done' ref error where o: "outcome = (done', ref, error)" by (cases outcome)
  define J where "J = (\<lambda>t. \<exists>row. map_of t ?cid = Some row \<and> table_ok t \<and> VStr ` keys t = insert (get tc ''id'') ids)"
  have add: "\<exists>t'. add t (new_row ?cid CHILD_AGENT (order ?cid) PENDING None) = Inr t' \<and> J t' \<and>
      (\<forall>row. map_of t' ?cid = Some row \<longrightarrow> row_status row = PENDING)"
    if "table_ok t" "VStr ` keys t = ids" for t
  proof -
    have "?cid \<notin> keys t" using fresh_str [OF assms that(2)] .
    then show ?thesis
      using fresh_add [OF that(1), of "new_row ?cid CHILD_AGENT (order ?cid) PENDING None"] that(2) str_id [OF assms(1)]
      by (auto simp: J_def new_row_def add_def update_conv)
  qed
  have keep: "J t \<Longrightarrow> fill t ?cid x st None y = Inr t' \<Longrightarrow> J t'" for t t' x st y
    using fill_table_ok fill_keys_set fill_row by (fastforce simp: J_def)
  have early: "\<exists>t'. early_completion ?cid done' t = Inr t' \<and> J t'"
    if J: "J t" and pend: "\<forall>row. map_of t ?cid = Some row \<longrightarrow> row_status row = PENDING" for t
  proof (cases done')
    case None
    then show ?thesis using J by (simp add: early_completion_def)
  next
    case (Some d)
    obtain st x where d: "d = (st, x)" by (cases d)
    obtain row where "map_of t ?cid = Some row" "row_status row = PENDING" using J pend unfolding J_def by blast
    then obtain t' where "fill t ?cid x st None None = Inr t'" using fill_ok_iff [of t ?cid x st None None] by blast
    then show ?thesis using keep [OF J] by (simp add: early_completion_def Some d)
  qed
  have final: "\<exists>t'. record_deferred_result ?cid ref error t = Inr t' \<and> J t'" if J: "J t" for t
  proof -
    obtain row where row: "map_of t ?cid = Some row" using J by (auto simp: J_def)
    have same: "J (AList.update ?cid (row\<lparr>row_ref := x\<rparr>) t)" for x
    proof -
      have "keys (AList.update ?cid (row\<lparr>row_ref := x\<rparr>) t) = keys t"
        using map_of_some_keys [OF row] by (simp only: keys_update insert_absorb)
      moreover have "table_ok (AList.update ?cid (row\<lparr>row_ref := x\<rparr>) t)"
        using J map_of_SomeD [OF row] by (auto simp: J_def table_ok_def list_all_iff set_update_dict)
      ultimately show ?thesis using J by (simp only: J_def) (simp add: update_conv)
    qed
    show ?thesis
    proof (cases ref)
      case None
      show ?thesis
      proof (cases "row_status row = PENDING")
        case True
        then obtain t' where "fill t ?cid (failed_text error) FAILED None (Some (failed_text error)) = Inr t'"
          using fill_ok_iff [of t ?cid _ FAILED None] row by blast
        then show ?thesis using True keep [OF J] by (simp add: record_deferred_result_def row None)
      qed (simp add: record_deferred_result_def row None J)
    qed (simp add: record_deferred_result_def row same)
  qed
  define N where "N = (\<lambda>t. J t \<and> (\<forall>row. map_of t ?cid = Some row \<longrightarrow> row_status row = PENDING))"
  have "hoare (opened_with p rs (rows_for ids)) (execute_deferred_tool order tc outcome) (\<lambda>_. opened_with p rs J) E"
    unfolding execute_deferred_tool_def Let_def o prod.case
  proof (rule hoare_seq [OF table_step hoare_seq [OF table_step table_step]])
    show "\<exists>t'. add t (new_row ?cid CHILD_AGENT (order ?cid) PENDING None) = Inr t' \<and> N t'" if "rows_for ids t" for t
      using add that unfolding N_def by blast
    show "\<exists>t'. early_completion ?cid done' t = Inr t' \<and> J t'" if "N t" for t
      using early that unfolding N_def by blast
  qed (rule final)
  then show ?thesis
    unfolding opened_with
  proof (rule hoare_post)
    show "opened_with p rs (rows_for (insert (get tc ''id'') ids)) r" if "opened_with p rs J r" for r
      using that unfolding opened_with_def J_def by blast
  qed
qed

lemma immediate_opened:
  assumes "is_str (get tc ''id'')" and "get tc ''id'' \<notin> ids"
  shows "hoare (opened_in p rs ids) (execute_immediate w order x tc obs) (\<lambda>_. opened_in p rs (insert (get tc ''id'') ids)) (\<lambda>_ _. False)"
proof -
  have on_turn: "hoare (opened_in p rs ids') (on_turn f) (\<lambda>_. opened_in p rs ids') E" for ids' f E
    unfolding on_turn_def by (rule hoare_on_state) (simp add: opened_in_def)
  have submit: "hoare (opened_in p rs ids') (record_submission q) (\<lambda>_. opened_in p rs ids') E" for ids' q E
    unfolding record_submission_def by (intro hoare_if hoare_on_state hoare_ret) (simp_all add: opened_in_def)
  have buffer: "hoare (opened_in p rs ids) (buffer_completed_rows order (messages_to_append res))
      (\<lambda>_. opened_in p rs (insert (get tc ''id'') ids)) E" if "list_all2 answers [tc] (messages_to_append res)" for res E
  proof -
    have "result_ids (messages_to_append res) = [get tc ''id'']" using answers_ids [OF that] by simp
    then show ?thesis using assms buffer_rows_opened [of "messages_to_append res" ids p rs order E] by simp
  qed
  have rest: "hoare (\<lambda>r. opened_in p rs ids r \<and> list_all2 answers [tc] (messages_to_append res))
      (andthen (on_turn (\<lambda>t. snd (apply_hashes_to MAX_CALL_HASH_WINDOW res t)))
       (andthen (on_turn (\<lambda>t. snd (apply_read_write_counter_to res t)))
       (andthen (buffer_completed_rows order (messages_to_append res))
         (let obs' = merge_observations obs res
          in andthen (on_turn (\<lambda>t. fst (apply_completed_prefix_progress obs' t)))
             (andthen (record_submission res) (ret (obs', terminal_capture_accepted res)))))))
      (\<lambda>_. opened_in p rs (insert (get tc ''id'') ids)) (\<lambda>_ _. False)" for res
  proof (cases "list_all2 answers [tc] (messages_to_append res)")
    case True
    then show ?thesis
      unfolding Let_def
      by (intro hoare_pre [where P = "opened_in p rs ids", OF hoare_seq [OF on_turn hoare_seq [OF on_turn hoare_seq [OF buffer
            hoare_seq [OF on_turn hoare_seq [OF submit hoare_ret]]]]]]) simp_all
  qed (simp add: hoare_def)
  show ?thesis
    unfolding execute_immediate_def using assms(1) by (intro hoare_bind [OF process_answers rest]) simp
qed

lemma mixed_opened:
  assumes "list_all (\<lambda>tc. is_str (get tc ''id'')) tcs" and "distinct (batch_ids tcs)" and "set (batch_ids tcs) \<inter> ids = {}"
  shows "hoare (opened_in p rs ids) (execute_mixed w c i order n tcs obs cap) (\<lambda>_. opened_in p rs (ids \<union> set (batch_ids tcs)))
    (\<lambda>_ _. False)"
  using assms
proof (induction tcs arbitrary: n obs cap ids)
  case (Cons tc tcs)
  let ?i = "get tc ''id''"
  have step: "is_str ?i" "?i \<notin> ids" using Cons.prems by auto
  have ids: "insert ?i ids \<union> set (batch_ids tcs) = ids \<union> set (batch_ids (tc # tcs))" by simp
  have next': "hoare (opened_in p rs (insert ?i ids)) (execute_mixed w c i order (Suc n) tcs obs' cap')
      (\<lambda>_. opened_in p rs (ids \<union> set (batch_ids (tc # tcs)))) (\<lambda>_ _. False)" for obs' cap'
    unfolding ids [symmetric] using Cons.prems by (intro Cons.IH) auto
  have skip: "hoare (opened_in p rs ids) (buffer_completed_rows order [tool_msg ?i TERMINAL_CAPTURE_SKIP_MESSAGE])
      (\<lambda>_. opened_in p rs (insert ?i ids)) (\<lambda>_ _. False)"
    using buffer_rows_opened [of "[tool_msg ?i TERMINAL_CAPTURE_SKIP_MESSAGE]" ids p rs order] step
    by (simp add: result_ids_def)
  show ?case
    unfolding execute_mixed.simps
    by (intro hoare_if hoare_seq [OF skip next'] hoare_seq [OF deferred_opened [OF step] next']
        hoare_bind [OF immediate_opened [OF step]] hoare_pair next')
qed (simp add: hoare_ret)

lemma drain_closed: "hoare (\<lambda>r. waiting r \<and> phase (run_state r) = p) (drain_rows i) (\<lambda>_. closed_in p) E"
  unfolding drain_rows_def
proof (rule hoare_on_state)
  fix r
  assume "waiting r \<and> phase (run_state r) = p"
  then obtain h a where w: "messages (run_state r) = h @ [a]" "paired h" "is_leader a" "ids_ok (call_ids a)" "call_ids a \<noteq> []"
    "table_ok (pending_events (run_state r))" "VStr ` keys (pending_events (run_state r)) = set (call_ids a)"
    "anthropic_history (run_state r) = None" "list_all (\<lambda>q. paired (rq_messages q)) (sent r)" "phase (run_state r) = p"
    unfolding waiting_def by blast
  let ?t = "pending_events (run_state r)" and ?rows = "map row_dict (ordered_results (pending_events (run_state r)))"
  have ids: "result_ids ?rows = map VStr (map tm_call_id (ordered_results ?t))"
    by (simp add: result_ids_def row_dict_def)
  have m: "mset (map tm_call_id (ordered_results ?t)) = mset (map fst ?t)" using w(6) by (rule ordered_results_ids)
  have "distinct (map fst ?t)" using w(6) by (simp add: table_ok_def)
  then have "distinct (map tm_call_id (ordered_results ?t))" using mset_eq_imp_distinct_iff [OF m] by blast
  then have d: "distinct (result_ids ?rows)" unfolding ids by (simp only: distinct_map) (auto simp: inj_on_def)
  have "set (map tm_call_id (ordered_results ?t)) = keys ?t" using mset_eq_setD [OF m] by simp
  then have "set (result_ids ?rows) = VStr ` keys ?t" unfolding ids by (simp only: list.set_map)
  then have "paired (h @ a # ?rows)"
    using w d by (intro paired_exchange) (simp_all add: list_all_iff row_dict_def)
  then show "closed_in p (r\<lparr>run_state := (foldl (\<lambda>s m. append_message (in_now i) m s) (run_state r) ?rows)
       \<lparr>pending_events := clear (pending_events (run_state r))\<rparr>\<rparr>)"
    using w by (simp add: append_messages_eq closed_in_def clear_def)
qed

lemma settle_inv:
  "hoare (opened_in EXECUTING_TOOLS rs (set (response_ids rs))) (settle_batch i ps) (\<lambda>_. run_inv) (\<lambda>_. closed)"
proof -
  have wait: "hoare (opened_in EXECUTING_TOOLS rs (set (response_ids rs)))
      (andthen (update (\<lambda>r. r\<lparr>pending_step := None,
                run_state := (run_state r)\<lparr>pending_step_latency := Some (max (ps_latency ps) (in_elapsed i))\<rparr>\<rparr>))
            (transition AWAITING_EVENTS None)) (\<lambda>_. run_inv) (\<lambda>_. closed)"
    unfolding hoare_def
  proof (intro allI impI)
    fix r
    assume "opened_in EXECUTING_TOOLS rs (set (response_ids rs)) r"
    then have "waiting r" and "phase (run_state r) = EXECUTING_TOOLS" using opened_waiting by blast+
    then show "wp (andthen (update (\<lambda>r. r\<lparr>pending_step := None,
                run_state := (run_state r)\<lparr>pending_step_latency := Some (max (ps_latency ps) (in_elapsed i))\<rparr>\<rparr>))
            (transition AWAITING_EVENTS None)) (\<lambda>_. run_inv) (\<lambda>_. closed) r"
      by (simp add: wp_simps run_inv_def waiting_def)
  qed
  have drain: "hoare (opened_in EXECUTING_TOOLS rs (set (response_ids rs))) (andthen (drain_rows i) (transition AUTOSAVING None))
      (\<lambda>_. run_inv) (\<lambda>_. closed)"
    by (rule hoare_pre [OF hoare_seq [OF drain_closed [where p = EXECUTING_TOOLS] move_inv]], simp, simp) (rule opened_waiting)
  show ?thesis unfolding settle_batch_def by (intro holds_reading hoare_if drain wait)
qed

lemma mixed_phase:
  assumes split: "apply_pending_tool_allowlist w r0 (rs_tool_calls rs) = (kept, blocked)"
    and ids: "ids_ok (response_ids rs)"
  shows "hoare (opened_in EXECUTING_TOOLS rs {}) (execute_mixed_batch w c i ps (rs_tool_calls rs) kept blocked) (\<lambda>_. run_inv)
     (\<lambda>_. closed)"
proof -
  let ?order = "call_order (rs_tool_calls rs)"
  note k = kept_calls [OF split ids]
  have first: "hoare (opened_in EXECUTING_TOOLS rs {}) (buffer_completed_rows ?order blocked)
      (\<lambda>_. opened_in EXECUTING_TOOLS rs (set (result_ids blocked))) (\<lambda>_. closed)"
    using buffer_rows_opened [of blocked "{}"] k by simp
  have all: "set (result_ids blocked) \<union> set (batch_ids kept) = set (response_ids rs)" using k(5) by (simp add: Un_commute)
  have run: "hoare (opened_in EXECUTING_TOOLS rs (set (result_ids blocked))) (execute_mixed w c i ?order 0 kept obs False)
      (\<lambda>_. opened_in EXECUTING_TOOLS rs (set (response_ids rs))) (\<lambda>_. closed)" for obs
    unfolding all [symmetric] using k by (intro hoare_post [OF mixed_opened]) auto
  have evidence: "hoare (opened_in EXECUTING_TOOLS rs ids') (on_turn f) (\<lambda>_. opened_in EXECUTING_TOOLS rs ids') E" for ids' f E
    unfolding on_turn_def by (rule hoare_on_state) (simp add: opened_in_def)
  have gate: "hoare (opened_in EXECUTING_TOOLS rs ids') clear_gate (\<lambda>_. opened_in EXECUTING_TOOLS rs ids') E" for ids' E
    unfolding clear_gate_def by (rule hoare_update) (simp add: opened_in_def)
  show ?thesis
    unfolding execute_mixed_batch_def Let_def
    by (intro hoare_seq [OF first] holds_reading hoare_bind [OF run] hoare_seq [OF evidence] hoare_seq [OF gate] settle_inv)
qed

lemma reject_phase:
  assumes "ids_ok (response_ids rs)"
  shows "hoare (opened_in EXECUTING_TOOLS rs {}) (andthen (apply_result i (preflight_rejection_result (rs_tool_calls rs) errors))
     (andthen clear_gate (transition AUTOSAVING None))) (\<lambda>_. run_inv) (\<lambda>_. closed)"
proof -
  have tail: "hoare (closed_in EXECUTING_TOOLS) (andthen clear_gate (transition AUTOSAVING None)) (\<lambda>_. run_inv) (\<lambda>_. closed)"
    by (intro hoare_andthen closed_rules move_inv) (auto intro: closed_any)
  show ?thesis
    by (rule hoare_seq [OF answers_closes [OF rejection_answers [OF str_calls [OF assms]] assms] tail])
qed

lemma tools_phase:
  "hoare (\<lambda>r. phase (run_state r) = EXECUTING_TOOLS \<and> run_inv r) (execute_pending_tools w c i) (\<lambda>_. run_inv) (\<lambda>_. closed)"
  unfolding execute_pending_tools_def
proof (rule hoare_reading)
  fix r
  assume "phase (run_state r) = EXECUTING_TOOLS \<and> run_inv r"
  then obtain ps where ps: "pending_step r = Some ps" and opn: "opened_in EXECUTING_TOOLS (ps_response ps) {} r"
    by (auto simp: run_inv_def)
  let ?rs = "ps_response ps"
  have ids: "ids_ok (response_ids ?rs)" using opn by (simp add: opened_in_def)
  have flag: "hoare (opened_in EXECUTING_TOOLS ?rs {}) (update (\<lambda>r. if b then r\<lparr>required_tool_retried := False\<rparr> else r))
      (\<lambda>_. opened_in EXECUTING_TOOLS ?rs {}) E" for b E
    by (rule hoare_update) (simp add: opened_in_def)
  have batch: "hoare (opened_in EXECUTING_TOOLS ?rs {}) (case apply_pending_tool_allowlist w r (rs_tool_calls ?rs) of
                   (kept, blocked_messages) \<Rightarrow>
                     andthen (update (\<lambda>r. if kept \<noteq> [] then r\<lparr>required_tool_retried := False\<rparr> else r))
                       (if snd (split_tool_calls w c kept) = [] then execute_batch w i (rs_tool_calls ?rs) kept blocked_messages
                        else execute_mixed_batch w c i ps (rs_tool_calls ?rs) kept blocked_messages)) (\<lambda>_. run_inv) (\<lambda>_. closed)"
    using ids by (intro hoare_pair hoare_seq [OF flag] hoare_if batch_phase mixed_phase)
  have "hoare (opened_in EXECUTING_TOOLS ?rs {}) (case pending_step r of
       None \<Rightarrow> fail_with ''Cannot execute tools before calling LLM''
     | Some ps \<Rightarrow>
         let original = rs_tool_calls (ps_response ps);
             errors = preflight_tool_batch w (run_tools r) original
         in if list_ex (\<lambda>e. e \<noteq> []) errors
            then andthen (apply_result i (preflight_rejection_result original errors))
                   (andthen clear_gate (transition AUTOSAVING None))
            else case apply_pending_tool_allowlist w r original of
                   (kept, blocked_messages) \<Rightarrow>
                     andthen (update (\<lambda>r. if kept \<noteq> [] then r\<lparr>required_tool_retried := False\<rparr> else r))
                       (if snd (split_tool_calls w c kept) = [] then execute_batch w i original kept blocked_messages
                        else execute_mixed_batch w c i ps original kept blocked_messages)) (\<lambda>_. run_inv) (\<lambda>_. closed)"
    unfolding ps option.case Let_def by (intro hoare_if reject_phase ids batch)
  then show "hoare (\<lambda>r'. r' = r) (case pending_step r of
       None \<Rightarrow> fail_with ''Cannot execute tools before calling LLM''
     | Some ps \<Rightarrow>
         let original = rs_tool_calls (ps_response ps);
             errors = preflight_tool_batch w (run_tools r) original
         in if list_ex (\<lambda>e. e \<noteq> []) errors
            then andthen (apply_result i (preflight_rejection_result original errors))
                   (andthen clear_gate (transition AUTOSAVING None))
            else case apply_pending_tool_allowlist w r original of
                   (kept, blocked_messages) \<Rightarrow>
                     andthen (update (\<lambda>r. if kept \<noteq> [] then r\<lparr>required_tool_retried := False\<rparr> else r))
                       (if snd (split_tool_calls w c kept) = [] then execute_batch w i original kept blocked_messages
                        else execute_mixed_batch w c i ps original kept blocked_messages)) (\<lambda>_. run_inv) (\<lambda>_. closed)"
    by (rule hoare_pre) (use opn in simp)
qed

section \<open>A step\<close>

lemma autosave_phase: "hoare (closed_in AUTOSAVING) (autosave_pending_step i) (\<lambda>_. run_inv) (\<lambda>_. closed)"
proof -
  have forget: "holds (closed_in p) (\<lambda>_. True) (on_state (\<lambda>s. s\<lparr>submitted_summary := None\<rparr>))" for p
    by (rule hoare_on_state) (simp add: closed_in_def)
  have report: "holds (closed_in AUTOSAVING) (\<lambda>_. True)
      (case x of None \<Rightarrow> ret () | Some t \<Rightarrow> append_to i (text_message ''assistant'' t))" for x
    by (intro hoare_option hoare_ret closed_rules) simp_all
  show ?thesis
    unfolding autosave_pending_step_def Let_def
    by (intro holds_reading hoare_andthen [OF report] hoare_andthen [OF scene_holds [OF clear_pending_scene]]
          hoare_andthen [OF scene_holds [OF environment_scene]] hoare_if hoare_andthen [OF forget] move_inv)
      (auto intro: closed_any)
qed

lemma fail_closed: "hoare closed (fail_with t) (\<lambda>_. run_inv) (\<lambda>_. closed)"
  unfolding fail_with_def by (simp add: hoare_def wp_simps closed_in_def fail_def)

lemma advance_inv:
  assumes "protocol_input i" and "run_inv r" and "\<not> should_suspend r"
  shows "wp (advance w c i) (\<lambda>_. run_inv) (\<lambda>_. closed) r"
proof -
  have phases: "closed_in (phase (run_state r)) r" if "phase (run_state r) \<in> {IDLE, PRECHECK, CALLING_LLM, AUTOSAVING}"
    using assms(2) that by (auto simp: run_inv_def)
  have checked: "hoare (closed_in PRECHECK) (precheck w c i) (\<lambda>_. run_inv) (\<lambda>_. closed)"
    by (rule hoare_post [OF precheck_closed]) (auto intro: closed_inv closed_any)
  have "is_terminal (phase (run_state r)) = False" "phase (run_state r) \<noteq> AWAITING_EVENTS"
    using assms(3) by (simp_all add: should_suspend_def)
  then show ?thesis
    using phases assms(2) hoareD [OF checked, of r] hoareD [OF call_phase [OF assms(1)], of r] hoareD [OF handle_phase, of r]
      hoareD [OF tools_phase, of r] hoareD [OF autosave_phase, of r] hoareD [OF move_inv, of PRECHECK IDLE r None]
    by (cases "phase (run_state r)") (simp_all add: advance_def wp_reading is_terminal_def)
qed

section \<open>A turn\<close>

text \<open>Between turns nothing is open, or the session waits for deferred results.\<close>

definition ready :: "Runner \<Rightarrow> bool" where
  "ready r =
     (phase (run_state r) \<in> {IDLE, DONE, ERROR, STOPPED} \<and> closed r \<or>
      phase (run_state r) = AWAITING_EVENTS \<and> (closed r \<or> waiting r))"

text \<open>A restored session may have its table of pending rows without the phase that waits for it.\<close>

definition at_rest :: "Runner \<Rightarrow> bool" where
  "at_rest r = (phase (run_state r) \<in> {IDLE, DONE, ERROR, STOPPED, AWAITING_EVENTS} \<and> (closed r \<or> waiting r))"

lemma resume_closed:
  "hoare (closed_in p) (try_state resume_to_idle) (\<lambda>_. closed_in (if is_terminal p then IDLE else p)) E"
  unfolding hoare_def
proof (intro allI impI)
  fix r
  assume "closed_in p r"
  moreover obtain tr where "resume_to_idle (run_state r) = Inr ((run_state r)\<lparr>phase :=
      (if is_terminal (phase (run_state r)) then IDLE else phase (run_state r)), terminal_reason := tr\<rparr>)"
    using resume_to_idle_Inr by blast
  ultimately show "wp (try_state resume_to_idle) (\<lambda>_. closed_in (if is_terminal p then IDLE else p)) E r"
    by (simp add: wp_try_state closed_in_def)
qed

lemma waiting_rows: "waiting r \<Longrightarrow> pending_events (run_state r) \<noteq> []"
  by (auto simp: waiting_def)

lemma restore_waiting:
  "hoare waiting (andthen (try_state resume_to_idle) (on_state (set_phase AWAITING_EVENTS))) (\<lambda>_. ready) E"
  unfolding hoare_def
proof (intro allI impI)
  fix r
  assume "waiting r"
  moreover obtain tr where "resume_to_idle (run_state r) = Inr ((run_state r)\<lparr>phase :=
      (if is_terminal (phase (run_state r)) then IDLE else phase (run_state r)), terminal_reason := tr\<rparr>)"
    using resume_to_idle_Inr by blast
  ultimately show "wp (andthen (try_state resume_to_idle) (on_state (set_phase AWAITING_EVENTS))) (\<lambda>_. ready) E r"
    by (simp add: wp_andthen wp_try_state wp_on_state set_phase_def ready_def waiting_def)
qed

lemma consume_closed:
  "closed_in p r \<Longrightarrow> closed_in p (r\<lparr>run_state := consume_queued_external_user_turn n (run_state r)\<rparr>)"
  by (auto simp: closed_in_def consume_queued_external_user_turn_def append_message_def paired_plain plain_def is_tool_msg_def
      is_leader_def get_def split: option.split)

lemma entry_ready: "hoare at_rest (entry_state i) (\<lambda>_. ready) E"
proof -
  have first: "hoare at_rest (reading (\<lambda>r. let s = run_state r in
        if \<not> is_empty (pending_events s) \<and> (phase s = IDLE \<or> is_terminal (phase s))
        then andthen (try_state resume_to_idle) (on_state (set_phase AWAITING_EVENTS)) else ret ())) (\<lambda>_. ready) E"
    unfolding Let_def
  proof (intro hoare_reading hoare_if)
    fix r
    assume r: "at_rest r" and "\<not> is_empty (pending_events (run_state r)) \<and> (phase (run_state r) = IDLE \<or> is_terminal (phase (run_state r)))"
    then have "waiting r" by (auto simp: at_rest_def closed_in_def is_empty_def)
    then show "hoare (\<lambda>r'. r' = r) (andthen (try_state resume_to_idle) (on_state (set_phase AWAITING_EVENTS))) (\<lambda>_. ready) E"
      by (intro hoare_pre [OF restore_waiting]) simp
  next
    fix r
    assume "at_rest r" and "\<not> (\<not> is_empty (pending_events (run_state r)) \<and> (phase (run_state r) = IDLE \<or> is_terminal (phase (run_state r))))"
    then have "ready r" using waiting_rows [of r] by (auto simp: at_rest_def ready_def is_empty_def is_terminal_def)
    then show "hoare (\<lambda>r'. r' = r) (ret ()) (\<lambda>_. ready) E" by (intro hoare_ret) simp
  qed
  have second: "hoare ready (reading (\<lambda>r. let s = run_state r in
        if pending_external_user_turn s \<noteq> None \<and> is_terminal (phase s) then try_state resume_to_idle else ret ())) (\<lambda>_. ready) E"
    unfolding Let_def
  proof (intro hoare_reading hoare_if)
    fix r
    assume "ready r" and "pending_external_user_turn (run_state r) \<noteq> None \<and> is_terminal (phase (run_state r))"
    then have t: "closed r" "is_terminal (phase (run_state r))" by (auto simp: ready_def is_terminal_def)
    show "hoare (\<lambda>r'. r' = r) (try_state resume_to_idle) (\<lambda>_. ready) E"
      by (rule hoare_pre [OF hoare_post [OF resume_closed [of "phase (run_state r)"]]]) (use t in \<open>auto simp: ready_def closed_in_def\<close>)
  qed (auto intro: hoare_ret)
  have third: "hoare ready (on_state (\<lambda>s. if phase s = IDLE then consume_queued_external_user_turn (in_now i) s else s)) (\<lambda>_. ready) E"
  proof (rule hoare_on_state)
    fix r
    assume r: "ready r"
    show "ready (r\<lparr>run_state := (if phase (run_state r) = IDLE then consume_queued_external_user_turn (in_now i) (run_state r)
        else run_state r)\<rparr>)"
    proof (cases "phase (run_state r) = IDLE")
      case True
      then have "closed_in IDLE r" using r by (simp add: ready_def)
      from consume_closed [OF this] show ?thesis using True by (simp add: ready_def closed_in_def)
    qed (use r in simp)
  qed
  show ?thesis
    unfolding entry_state_def by (rule hoare_seq [OF first hoare_seq [OF second third]])
qed

lemma begin_scene: "scene (begin_turn r) = scene r"
  by (simp add: begin_turn_def scene_eq Let_def start_active_turn_def)

lemma await_inv:
  "hoare (\<lambda>r. phase (run_state r) = AWAITING_EVENTS \<and> (closed r \<or> waiting r)) (resume_from_awaiting i) (\<lambda>_. run_inv) (\<lambda>_. closed)"
  unfolding resume_from_awaiting_def
proof (intro hoare_reading hoare_if)
  fix r
  assume P: "phase (run_state r) = AWAITING_EVENTS \<and> (closed r \<or> waiting r)"
  then show "hoare (\<lambda>r'. r' = r) (ret ()) (\<lambda>_. run_inv) (\<lambda>_. closed)"
    by (intro hoare_ret) (auto simp: run_inv_def)
  assume "\<not> \<not> is_complete (pending_events (run_state r))"
  then have w: "waiting r \<and> phase (run_state r) = AWAITING_EVENTS" using P by (auto simp: closed_in_def is_complete_def)
  have turn: "hoare (closed_in AWAITING_EVENTS) (update (\<lambda>r.
            if pending_external_user_turn (run_state r) \<noteq> None
            then let r1 = begin_turn (r\<lparr>run_state := consume_queued_external_user_turn (in_now i) (run_state r)\<rparr>)
                 in r1\<lparr>empty_stop_retried := False, run_state := (run_state r1)\<lparr>submitted_summary := None\<rparr>\<rparr>
            else r)) (\<lambda>_. closed_in AWAITING_EVENTS) (\<lambda>_. closed)"
  proof (rule hoare_update)
    fix r
    assume c: "closed_in AWAITING_EVENTS r"
    let ?r = "begin_turn (r\<lparr>run_state := consume_queued_external_user_turn (in_now i) (run_state r)\<rparr>)"
    have "closed_in AWAITING_EVENTS ?r" using closed_scene [OF begin_scene consume_closed [OF c]] .
    then show "closed_in AWAITING_EVENTS (if pending_external_user_turn (run_state r) \<noteq> None
            then let r1 = ?r in r1\<lparr>empty_stop_retried := False, run_state := (run_state r1)\<lparr>submitted_summary := None\<rparr>\<rparr> else r)"
      using c by (simp add: Let_def closed_in_def)
  qed
  show "hoare (\<lambda>r'. r' = r) (andthen (drain_rows i) (andthen (update (\<lambda>r.
            if pending_external_user_turn (run_state r) \<noteq> None
            then let r1 = begin_turn (r\<lparr>run_state := consume_queued_external_user_turn (in_now i) (run_state r)\<rparr>)
                 in r1\<lparr>empty_stop_retried := False, run_state := (run_state r1)\<lparr>submitted_summary := None\<rparr>\<rparr>
            else r))
          (transition AUTOSAVING None))) (\<lambda>_. run_inv) (\<lambda>_. closed)"
    by (rule hoare_pre [OF hoare_seq [OF drain_closed hoare_seq [OF turn move_inv]]], simp, simp) (use w in simp)
qed

lemma prepare_inv: "hoare at_rest (prepare_turn i) (\<lambda>_. run_inv) (\<lambda>_. closed)"
  unfolding prepare_turn_def Let_def
proof (rule hoare_seq [OF entry_ready hoare_reading])
  fix r
  assume r: "ready r"
  let ?entry = "phase (run_state r)"
  have start: "hoare (\<lambda>r'. r' = r) (update (\<lambda>r.
           if ?entry = AWAITING_EVENTS then r\<lparr>turn_start := active_turn_start_message_index (run_state r)\<rparr>
           else if ?entry = DONE
           then r\<lparr>turn_start := Some (case completed_turn_start_message_index (run_state r) of Some n \<Rightarrow> n | None \<Rightarrow> 0)\<rparr>
           else begin_turn r)) (\<lambda>_ r'. ready r' \<and> phase (run_state r') = ?entry) (\<lambda>_. closed)"
    by (rule hoare_update)
      (use r in \<open>auto simp: ready_def closed_in_def waiting_def begin_turn_def Let_def start_active_turn_def\<close>)
  have resume: "hoare (closed_in IDLE) (update (\<lambda>r. r\<lparr>empty_stop_retried := False, run_state := (run_state r)\<lparr>submitted_summary := None\<rparr>\<rparr>))
      (\<lambda>_. run_inv) (\<lambda>_. closed)"
    by (rule hoare_update) (simp add: closed_in_def run_inv_def)
  have rest: "hoare (\<lambda>r'. ready r' \<and> phase (run_state r') = ?entry)
     (if ?entry = AWAITING_EVENTS then resume_from_awaiting i
      else if ?entry = DONE then ret ()
      else andthen (try_state resume_to_idle)
            (update (\<lambda>r. r\<lparr>empty_stop_retried := False, run_state := (run_state r)\<lparr>submitted_summary := None\<rparr>\<rparr>)))
     (\<lambda>_. run_inv) (\<lambda>_. closed)"
  proof (intro hoare_if)
    show "hoare (\<lambda>r'. ready r' \<and> phase (run_state r') = ?entry) (resume_from_awaiting i) (\<lambda>_. run_inv) (\<lambda>_. closed)"
      if "?entry = AWAITING_EVENTS"
      by (rule hoare_pre [OF await_inv]) (use that in \<open>auto simp: ready_def\<close>)
    show "hoare (\<lambda>r'. ready r' \<and> phase (run_state r') = ?entry) (ret ()) (\<lambda>_. run_inv) (\<lambda>_. closed)" if "?entry = DONE"
      by (rule hoare_ret) (use that in \<open>auto simp: ready_def run_inv_def\<close>)
    assume other: "?entry \<noteq> AWAITING_EVENTS" "?entry \<noteq> DONE"
    then have idle: "(if is_terminal ?entry then IDLE else ?entry) = IDLE" using r by (auto simp: ready_def is_terminal_def)
    show "hoare (\<lambda>r'. ready r' \<and> phase (run_state r') = ?entry) (andthen (try_state resume_to_idle)
            (update (\<lambda>r. r\<lparr>empty_stop_retried := False, run_state := (run_state r)\<lparr>submitted_summary := None\<rparr>\<rparr>)))
        (\<lambda>_. run_inv) (\<lambda>_. closed)"
      by (rule hoare_pre [OF hoare_seq [OF resume_closed [of ?entry, unfolded idle] resume]]) (use other in \<open>auto simp: ready_def\<close>)
  qed
  show "hoare (\<lambda>r'. r' = r) (andthen (update (\<lambda>r.
           if ?entry = AWAITING_EVENTS then r\<lparr>turn_start := active_turn_start_message_index (run_state r)\<rparr>
           else if ?entry = DONE
           then r\<lparr>turn_start := Some (case completed_turn_start_message_index (run_state r) of Some n \<Rightarrow> n | None \<Rightarrow> 0)\<rparr>
           else begin_turn r))
     (if ?entry = AWAITING_EVENTS then resume_from_awaiting i
      else if ?entry = DONE then ret ()
      else andthen (try_state resume_to_idle)
            (update (\<lambda>r. r\<lparr>empty_stop_retried := False, run_state := (run_state r)\<lparr>submitted_summary := None\<rparr>\<rparr>))))
     (\<lambda>_. run_inv) (\<lambda>_. closed)"
    by (rule hoare_seq [OF start rest])
qed

lemma drive_inv:
  assumes "\<forall>k. protocol_input (ins k)"
  shows "run_inv r \<Longrightarrow> drive fuel w c ins k r = Some (res, r') \<Longrightarrow>
    (case res of Inr _ \<Rightarrow> run_inv r' \<and> should_suspend r' | Inl _ \<Rightarrow> closed r')"
proof (induction fuel arbitrary: k r)
  case 0
  then show ?case by (auto simp: drive.simps [of 0] split: if_splits)
next
  case (Suc fuel)
  show ?case
  proof (cases "should_suspend r")
    case True
    then show ?thesis using Suc.prems by (auto simp: drive.simps [of "Suc fuel"])
  next
    case False
    have "protocol_input (ins k)" using assms by blast
    then have step: "wp (advance w c (ins k)) (\<lambda>_. run_inv) (\<lambda>_. closed) r" using Suc.prems(1) False by (rule advance_inv)
    obtain res1 r1 where adv: "advance w c (ins k) r = (res1, r1)" by fastforce
    show ?thesis
    proof (cases res1)
      case (Inl e)
      then show ?thesis using Suc.prems(2) False adv step by (auto simp: drive.simps [of "Suc fuel"] wp_def)
    next
      case (Inr u)
      then have "run_inv r1" and "drive fuel w c ins (Suc k) r1 = Some (res, r')"
        using Suc.prems(2) False adv step by (simp_all add: drive.simps [of "Suc fuel"] wp_def)
      then show ?thesis by (rule Suc.IH)
    qed
  qed
qed

abbreviation settled :: "Runner \<Rightarrow> bool" where
  "settled r \<equiv> closed r \<or> phase (run_state r) = AWAITING_EVENTS \<and> waiting r"

lemma inv_settled: "run_inv r \<Longrightarrow> should_suspend r \<Longrightarrow> settled r"
  by (auto simp: run_inv_def should_suspend_def is_terminal_def)

lemma finish_loop_settled:
  assumes "case res of Inr _ \<Rightarrow> run_inv r \<and> should_suspend r | Inl _ \<Rightarrow> closed r"
  shows "settled (snd (finish_loop i (res, r)))"
proof (cases res)
  case (Inr u)
  then show ?thesis
    using assms inv_settled [of r]
    by (auto simp: finish_loop_def Let_def closed_in_def waiting_def clear_active_turn_def is_terminal_def)
next
  case (Inl e)
  then have c: "closed_in (phase (run_state r)) r" using assms by simp
  obtain res1 r1 where stop: "stop_for_run_cancellation i r = (res1, r1)" by fastforce
  have "closed r1" using hoareD [OF cancelled_closed c, of i] by (auto simp: wp_def stop closed_any split: sum.splits)
  then show ?thesis
    using Inl c stop
    by (cases e) (auto simp: finish_loop_def Let_def closed_in_def clear_active_turn_def fail_def split: sum.split)
qed

text \<open>
  C1. The transcript keeps its tool protocol through a whole turn.  The session starts at rest: nothing
  is open, or its last message carries calls for which exactly the pending rows are kept.  As long as
  the model's calls have usable, distinct ids and the shapers keep exchanges together, then however the
  turn ends - an answer, a stop, a cancellation, an error, or waiting for deferred results - either
  every assistant message with tool calls is followed by exactly one result per call and no row is
  left, or the session waits in AWAITING_EVENTS with one row for each open call; and every request
  that was sent to the provider was well paired.
\<close>

theorem transcript_stays_paired:
  assumes "\<forall>k. protocol_input (ins k)" and "at_rest r" and "run_loop fuel w c False ins r = Some (res, r')"
  shows "list_all (\<lambda>q. paired (rq_messages q)) (sent r') \<and>
    (phase (run_state r') = AWAITING_EVENTS \<and> waiting r' \<or>
     paired (messages (run_state r')) \<and> pending_events (run_state r') = [])"
proof -
  obtain res1 r1 where prep: "prepare_turn (ins 0) r = (res1, r1)" by fastforce
  have p: "wp (prepare_turn (ins 0)) (\<lambda>_. run_inv) (\<lambda>_. closed) r" by (rule hoareD [OF prepare_inv assms(2)])
  have "settled r'"
  proof (cases res1)
    case (Inl e)
    have "closed r1" using p by (simp add: wp_def prep Inl)
    then have "settled (snd (finish_loop (ins 0) (Inl e, r1)))" by (intro finish_loop_settled) simp
    then show ?thesis using assms(3) by (auto simp: run_loop_def prep Inl)
  next
    case (Inr u)
    have "run_inv r1" using p by (simp add: wp_def prep Inr)
    moreover obtain out r2 where d: "drive fuel w c ins 1 r1 = Some (out, r2)" and f: "finish_loop (ins 0) (out, r2) = (res, r')"
      using assms(3) by (auto simp: run_loop_def prep Inr)
    ultimately have "case out of Inr _ \<Rightarrow> run_inv r2 \<and> should_suspend r2 | Inl _ \<Rightarrow> closed r2"
      using drive_inv [OF assms(1)] by blast
    then have "settled (snd (finish_loop (ins 0) (out, r2)))" by (rule finish_loop_settled)
    then show ?thesis by (simp add: f)
  qed
  then show ?thesis by (auto simp: closed_in_def waiting_def)
qed

text \<open>A model that first calls a tool the session does not have, and then answers.\<close>

definition calling_response :: Response where
  "calling_response = (sample_response \<lparr>rq_messages = [], rq_tools = None, rq_choice = VNone, rq_limit = 0, rq_reserved = 0,
       rq_remaining = None\<rparr>)
     \<lparr>rs_content := VStr [], rs_tool_calls := [[(''id'', VStr ''c1''), (''type'', VStr ''function''),
        (''function'', VDict [(''name'', VStr ''grep''), (''arguments'', VStr ''{}'')])]]\<rparr>"

definition calling_input :: Input where
  "calling_input = sample_input\<lparr>in_llm := \<lambda>k req. Answered (if k = 0 then calling_response else sample_response req)\<rparr>"

lemma calling_run:
  "map_option (\<lambda>(_, r). map (\<lambda>m. get m ''role'') (messages (run_state r)))
     (run_loop 16 sample_world sample_settings False (\<lambda>_. calling_input) sample_runner) =
   Some [VStr ''user'', VStr ''assistant'', VStr ''tool'', VStr ''assistant'']"
  by code_simp

lemma calling_input_ok: "protocol_input calling_input"
  by (simp add: protocol_input_def calling_input_def calling_response_def sample_input_def sample_response_def ids_ok_def
      usable_id_def get_def is_str_def)

lemma sample_at_rest: "at_rest sample_runner"
proof -
  have "paired ([] @ [text_message ''user'' ''hello''])" by (intro paired_plain) simp_all
  then show ?thesis
    by (simp add: at_rest_def closed_in_def sample_runner_def new_session_def align_timestamps_def)
qed

theorem transcript_stays_paired_witness:
  "\<exists>res r'. run_loop 16 sample_world sample_settings False (\<lambda>_. calling_input) sample_runner = Some (res, r') \<and>
     map (\<lambda>m. get m ''role'') (messages (run_state r')) = [VStr ''user'', VStr ''assistant'', VStr ''tool'', VStr ''assistant''] \<and>
     list_all (\<lambda>q. paired (rq_messages q)) (sent r')"
proof -
  obtain res r' where run: "run_loop 16 sample_world sample_settings False (\<lambda>_. calling_input) sample_runner = Some (res, r')"
    and roles: "map (\<lambda>m. get m ''role'') (messages (run_state r')) = [VStr ''user'', VStr ''assistant'', VStr ''tool'', VStr ''assistant'']"
    using calling_run by auto
  have "list_all (\<lambda>q. paired (rq_messages q)) (sent r') \<and>
    (phase (run_state r') = AWAITING_EVENTS \<and> waiting r' \<or>
     paired (messages (run_state r')) \<and> pending_events (run_state r') = [])"
    by (rule transcript_stays_paired [OF _ sample_at_rest run]) (simp add: calling_input_ok)
  then have "list_all (\<lambda>q. paired (rq_messages q)) (sent r')" by (rule conjunct1)
  with roles have "run_loop 16 sample_world sample_settings False (\<lambda>_. calling_input) sample_runner = Some (res, r') \<and>
     map (\<lambda>m. get m ''role'') (messages (run_state r')) = [VStr ''user'', VStr ''assistant'', VStr ''tool'', VStr ''assistant''] \<and>
     list_all (\<lambda>q. paired (rq_messages q)) (sent r')" using run by (intro conjI)
  then show ?thesis by (intro exI)
qed

end
