(* ===== verification/Session_Snapshot.thy ===== *)
theory Session_Snapshot
  imports Session_State "HOL-Library.List_Lexorder" "HOL-Library.Char_ord"
begin

text \<open>
  Saving and restoring a session (\<open>application/session_snapshot.py\<close>, \<open>restore\<close>, \<open>_snapshot_for_save\<close>
  and the closing of interrupted tool calls in \<open>application/session.py\<close>).

  A snapshot is any JSON value: everything read from it is checked, and the checks are what keeps a
  restored session usable.  \<open>str\<close> of a value that is not a string and \<open>float\<close> of a string are
  arguments (\<open>Host\<close>).  A stored row keeps whatever is stored as its \<open>ref\<close> and its times; the rows of
  the model have the types that a save writes, and anything else is read as \<open>None\<close>, which no step
  looks at.  Writing files, the autosave cursors and the reset of the runner are not modelled.
\<close>

section \<open>Reading numbers\<close>

record Host =
  host_str :: "pyval \<Rightarrow> string"
  host_float :: "string \<Rightarrow> pyfloat option"

definition text_of :: "Host \<Rightarrow> pyval \<Rightarrow> string" where
  "text_of h v = (case v of VStr s \<Rightarrow> s | _ \<Rightarrow> host_str h v)"

definition digit :: "char \<Rightarrow> bool" where
  "digit c = (48 \<le> code c \<and> code c \<le> 57)"

text \<open>Digits with single underscores between them.\<close>

fun digits_ok :: "bool \<Rightarrow> string \<Rightarrow> bool" where
  "digits_ok after_digit [] = after_digit"
| "digits_ok after_digit (c # cs) =
     (if digit c then digits_ok True cs else c = CHR ''_'' \<and> after_digit \<and> digits_ok False cs)"

definition digits_value :: "string \<Rightarrow> int" where
  "digits_value s = foldl (\<lambda>n c. 10 * n + int (code c) - 48) 0 (filter digit s)"

text \<open>\<open>int(s)\<close>; Python refuses more than 4300 digits.\<close>

definition int_of_string :: "string \<Rightarrow> int option" where
  "int_of_string s =
     (let t = py_strip s;
          (negative, ds) = (case t of c # cs \<Rightarrow> if c = CHR ''-'' then (True, cs) else if c = CHR ''+'' then (False, cs) else (False, t)
                            | [] \<Rightarrow> (False, []))
      in if digits_ok False ds \<and> length (filter digit ds) \<le> 4300
         then Some (if negative then - digits_value ds else digits_value ds) else None)"

text \<open>\<open>int(v)\<close>, \<open>None\<close> where it raises.\<close>

definition int_of :: "pyval \<Rightarrow> int option" where
  "int_of v =
     (case v of
        VInt i \<Rightarrow> Some i
      | VBool b \<Rightarrow> Some (if b then 1 else 0)
      | VFloat (Fin r) \<Rightarrow> Some (if 0 \<le> r then \<lfloor>r\<rfloor> else \<lceil>r\<rceil>)
      | VStr s \<Rightarrow> int_of_string s
      | _ \<Rightarrow> None)"

definition snapshot_nonnegative_int :: "pyval \<Rightarrow> int" where
  "snapshot_nonnegative_int v = (case int_of v of Some i \<Rightarrow> max 0 i | None \<Rightarrow> 0)"

definition snapshot_int :: "pyval \<Rightarrow> int \<Rightarrow> int" where
  "snapshot_int v dflt = (case int_of v of Some i \<Rightarrow> i | None \<Rightarrow> dflt)"

definition finite_nonnegative :: "pyfloat \<Rightarrow> rat option" where
  "finite_nonnegative f = (case f of Fin r \<Rightarrow> if 0 \<le> r then Some r else None | _ \<Rightarrow> None)"

definition snapshot_nonnegative_float :: "Host \<Rightarrow> pyval \<Rightarrow> rat option" where
  "snapshot_nonnegative_float h v =
     (case v of
        VInt i \<Rightarrow> (case float_of_int i of Some r \<Rightarrow> finite_nonnegative (Fin r) | None \<Rightarrow> None)
      | VFloat f \<Rightarrow> finite_nonnegative f
      | VStr s \<Rightarrow> (case host_float h s of Some f \<Rightarrow> finite_nonnegative f | None \<Rightarrow> None)
      | _ \<Rightarrow> None)"

section \<open>Phases, turns and rows\<close>

fun phase_str :: "SessionPhase \<Rightarrow> string" where
  "phase_str IDLE = ''idle''"
| "phase_str PRECHECK = ''precheck''"
| "phase_str CALLING_LLM = ''calling_llm''"
| "phase_str HANDLING_RESPONSE = ''handling_response''"
| "phase_str EXECUTING_TOOLS = ''executing_tools''"
| "phase_str AWAITING_EVENTS = ''awaiting_events''"
| "phase_str AUTOSAVING = ''autosaving''"
| "phase_str DONE = ''done''"
| "phase_str STOPPED = ''stopped''"
| "phase_str ERROR = ''error''"

abbreviation PHASES :: "SessionPhase list" where
  "PHASES \<equiv> [IDLE, PRECHECK, CALLING_LLM, HANDLING_RESPONSE, EXECUTING_TOOLS, AWAITING_EVENTS, AUTOSAVING, DONE, STOPPED, ERROR]"

definition LEGACY_TERMINAL_PHASES :: "string list" where
  "LEGACY_TERMINAL_PHASES = [''cancelled'', ''budget_exceeded'', ''step_limit_exceeded'', ''context_overflow'']"

definition restore_phase :: "Host \<Rightarrow> pyval \<Rightarrow> SessionPhase" where
  "restore_phase h raw =
     (let v = text_of h raw
      in if v \<in> set LEGACY_TERMINAL_PHASES then STOPPED
         else if v = ''scheduled'' then IDLE
         else case find (\<lambda>p. phase_str p = v) PHASES of Some p \<Rightarrow> p | None \<Rightarrow> IDLE)"

definition restore_anthropic_history :: "pyval \<Rightarrow> message list \<Rightarrow> pyval option" where
  "restore_anthropic_history v ms =
     (case v of
        VDict d \<Rightarrow>
          (case (get d ''source_count'', get d ''messages'', get d ''tools'') of
             (VInt n, VList view, tools) \<Rightarrow>
               if 0 \<le> n \<and> n \<le> int (length ms) \<and> list_all is_dict view \<and>
                  (tools = VNone \<or> (case tools of VList ts \<Rightarrow> list_all is_dict ts | _ \<Rightarrow> False))
               then Some (VDict [(''messages'', VList view), (''source_count'', VInt n), (''tools'', tools)]) else None
           | _ \<Rightarrow> None)
      | _ \<Rightarrow> None)"

definition restore_queued_external_user_turn :: "pyval \<Rightarrow> message list \<Rightarrow> message option" where
  "restore_queued_external_user_turn v ms =
     (case v of
        VDict d \<Rightarrow>
          if get d ''status'' \<noteq> VStr ''queued'' then None
          else (case (get d ''content'', get d ''turn_id'') of
                  (VStr content, VStr turn_id) \<Rightarrow>
                    if turn_id = [] then None
                    else let turn = [(''turn_id'', VStr turn_id), (''status'', VStr ''queued''), (''content'', VStr content)]
                         in (case get d ''message_index'' of
                               VNone \<Rightarrow> Some turn
                             | VInt i \<Rightarrow>
                                 if 0 \<le> i \<and> i < int (length ms) \<and> get (ms ! nat i) ''role'' = VStr ''user'' \<and>
                                    get (ms ! nat i) ''content'' = VStr content
                                 then Some (turn @ [(''message_index'', VInt i)]) else None
                             | _ \<Rightarrow> None)
                | _ \<Rightarrow> None)
      | _ \<Rightarrow> None)"

definition restore_active_turn_start :: "pyval \<Rightarrow> message list \<Rightarrow> int option" where
  "restore_active_turn_start v ms =
     (case v of VInt i \<Rightarrow> if 0 \<le> i \<and> i \<le> int (length ms) then Some i else None | _ \<Rightarrow> None)"

fun kind_value :: "RowKind \<Rightarrow> string" where
  "kind_value IMMEDIATE = ''immediate''"
| "kind_value CHILD_AGENT = ''child_agent''"

fun status_value :: "RowStatus \<Rightarrow> string" where
  "status_value PENDING = ''pending''"
| "status_value RowStatus.DONE = ''done''"
| "status_value FAILED = ''failed''"

definition opt_val :: "('a \<Rightarrow> pyval) \<Rightarrow> 'a option \<Rightarrow> pyval" where
  "opt_val f x = (case x of None \<Rightarrow> VNone | Some a \<Rightarrow> f a)"

definition ref_value :: "RowRef \<Rightarrow> pyval" where
  "ref_value r = (case r of RefInt i \<Rightarrow> VInt i | RefStr s \<Rightarrow> VStr s)"

definition ref_of :: "pyval \<Rightarrow> RowRef option" where
  "ref_of v = (case v of VInt i \<Rightarrow> Some (RefInt i) | VStr s \<Rightarrow> Some (RefStr s) | _ \<Rightarrow> None)"

definition time_of :: "pyval \<Rightarrow> rat option" where
  "time_of v = (case v of VFloat (Fin r) \<Rightarrow> Some r | _ \<Rightarrow> None)"

definition serialize_pending_row :: "PendingRow \<Rightarrow> message" where
  "serialize_pending_row row =
     [(''tool_call_id'', VStr (tool_call_id row)), (''kind'', VStr (kind_value (row_kind row))), (''order'', VInt (row_order row)),
      (''ref'', opt_val ref_value (row_ref row)), (''status'', VStr (status_value (row_status row))),
      (''result'', opt_val VStr (row_result row)), (''error'', opt_val VStr (row_error row)),
      (''started_at'', opt_val (\<lambda>r. VFloat (Fin r)) (row_started_at row)),
      (''finished_at'', opt_val (\<lambda>r. VFloat (Fin r)) (row_finished_at row))]"

definition RESTORE_INTERRUPTED :: string where
  "RESTORE_INTERRUPTED = ''deferred child interrupted by session restore''"

definition restore_pending_row :: "Host \<Rightarrow> pyval \<Rightarrow> PendingRow option" where
  "restore_pending_row h v =
     (case v of
        VDict d \<Rightarrow>
          if ''tool_call_id'' \<notin> keys d \<or> ''kind'' \<notin> keys d \<or> ''order'' \<notin> keys d then None
          else
            (let kind = text_of h (get d ''kind''); status = text_of h (get_or d ''status'' (VStr ''pending''))
             in case (find (\<lambda>k. kind_value k = kind) [IMMEDIATE, CHILD_AGENT],
                      find (\<lambda>st. status_value st = status) [PENDING, RowStatus.DONE, FAILED], int_of (get d ''order'')) of
                  (Some k, Some st, Some i) \<Rightarrow>
                    (let lost = (st = PENDING);
                         error = (if lost then VStr RESTORE_INTERRUPTED else get d ''error'');
                         result = (if lost then VStr RESTORE_INTERRUPTED else get d ''result'');
                         as_text = (\<lambda>x. if x = VNone then None else Some (text_of h x))
                     in Some \<lparr>tool_call_id = text_of h (get d ''tool_call_id''), row_kind = k, row_order = i,
                          row_ref = ref_of (get d ''ref''), row_status = (if lost then FAILED else st),
                          row_result = as_text result, row_error = as_text error,
                          row_started_at = time_of (get d ''started_at''),
                          row_finished_at = (if lost then None else time_of (get d ''finished_at''))\<rparr>)
                | _ \<Rightarrow> None)
      | _ \<Rightarrow> None)"

section \<open>Tool calls without a result\<close>

definition dict_of :: "pyval \<Rightarrow> message" where
  "dict_of v = (case v of VDict d \<Rightarrow> d | _ \<Rightarrow> [])"

definition list_of :: "pyval \<Rightarrow> pyval list" where
  "list_of v = (case v of VList xs \<Rightarrow> xs | _ \<Rightarrow> [])"

definition message_call_ids :: "Host \<Rightarrow> message \<Rightarrow> string list" where
  "message_call_ids h m =
     (case get m ''tool_calls'' of
        VList calls \<Rightarrow> map (\<lambda>c. text_of h (get (dict_of c) ''id'')) (filter (\<lambda>c. is_dict c \<and> truthy (get (dict_of c) ''id'')) calls)
      | _ \<Rightarrow> [])"

definition open_step :: "Host \<Rightarrow> string list \<Rightarrow> message \<Rightarrow> string list" where
  "open_step h ids m =
     (if get m ''role'' = VStr ''tool''
      then if get m ''tool_call_id'' = VNone then ids else remove1 (text_of h (get m ''tool_call_id'')) ids
      else if get m ''role'' = VStr ''assistant'' then ids @ message_call_ids h m else ids)"

definition open_tool_call_ids :: "Host \<Rightarrow> message list \<Rightarrow> string list" where
  "open_tool_call_ids h ms = foldl (open_step h) [] ms"

datatype RestoreError = RowRefused PendingRowError | LoopRefused SnapshotError

definition lift_row :: "PendingRowError + 'a \<Rightarrow> RestoreError + 'a" where
  "lift_row x = (case x of Inl e \<Rightarrow> Inl (RowRefused e) | Inr a \<Rightarrow> Inr a)"

definition MISSING_CHILD :: string where
  "MISSING_CHILD = ''deferred child state missing during session restore''"

definition failed_row :: "RowKind \<Rightarrow> string \<Rightarrow> int \<Rightarrow> string \<Rightarrow> PendingRow" where
  "failed_row k cid i t =
     \<lparr>tool_call_id = cid, row_kind = k, row_order = i, row_ref = None, row_status = FAILED, row_result = Some t,
      row_error = Some t, row_started_at = None, row_finished_at = None\<rparr>"

fun add_missing :: "string set \<Rightarrow> (nat \<times> string) list \<Rightarrow> PendingEventTable \<Rightarrow> PendingRowError + PendingEventTable" where
  "add_missing existing [] t = Inr t"
| "add_missing existing ((i, cid) # rest) t =
     (if cid \<in> existing then add_missing existing rest t
      else bnd (add t (failed_row CHILD_AGENT cid (int i) MISSING_CHILD)) (add_missing existing rest))"

definition complete_missing_pending_rows :: "Host \<Rightarrow> SessionState \<Rightarrow> RestoreError + SessionState" where
  "complete_missing_pending_rows h s =
     bnd (lift_row (add_missing (keys (pending_events s)) (List.enumerate 0 (open_tool_call_ids h (messages s))) (pending_events s)))
       (\<lambda>t. Inr (s\<lparr>pending_events := t\<rparr>))"

definition INTERRUPTED_BY_RESTORE :: string where
  "INTERRUPTED_BY_RESTORE = ''Tool execution interrupted by session restore.''"

text \<open>Results that were recorded before the interruption; a later one for the same call wins.\<close>

definition receipts_of :: "pyval \<Rightarrow> (string \<times> string) list" where
  "receipts_of v =
     rev (map (\<lambda>d. (case get d ''tool_call_id'' of VStr i \<Rightarrow> i | _ \<Rightarrow> [], case get d ''content'' of VStr t \<Rightarrow> t | _ \<Rightarrow> []))
       (filter (\<lambda>d. is_str (get d ''tool_call_id'') \<and> is_str (get d ''content'')) (map dict_of (filter is_dict (list_of v)))))"

definition tool_result :: "string \<Rightarrow> string \<Rightarrow> message" where
  "tool_result cid t = [(''role'', VStr ''tool''), (''tool_call_id'', VStr cid), (''content'', VStr t)]"

fun append_restore_loop ::
  "string \<Rightarrow> string \<Rightarrow> string set option \<Rightarrow> (string \<times> string) list \<Rightarrow> (nat \<times> string) list \<Rightarrow> SessionState \<Rightarrow> RestoreError + SessionState" where
  "append_restore_loop now content exclude receipts [] s = Inr s"
| "append_restore_loop now content exclude receipts ((i, cid) # rest) s =
     (case exclude of
        Some xs \<Rightarrow>
          if cid \<in> xs then append_restore_loop now content exclude receipts rest s
          else if \<not> is_empty (pending_events s)
          then bnd (lift_row (add (pending_events s)
                 (case map_of receipts cid of
                    Some t \<Rightarrow> (failed_row IMMEDIATE cid (int i) t)\<lparr>row_status := RowStatus.DONE, row_error := None\<rparr>
                  | None \<Rightarrow> failed_row IMMEDIATE cid (int i) content)))
                 (\<lambda>t. append_restore_loop now content exclude receipts rest (s\<lparr>pending_events := t\<rparr>))
          else append_restore_loop now content exclude receipts rest
                 (append_message now (tool_result cid (case map_of receipts cid of Some t \<Rightarrow> t | None \<Rightarrow> content)) s)
      | None \<Rightarrow> append_restore_loop now content exclude receipts rest
                 (append_message now (tool_result cid (case map_of receipts cid of Some t \<Rightarrow> t | None \<Rightarrow> content)) s))"

definition append_restore_results ::
  "Host \<Rightarrow> string \<Rightarrow> string \<Rightarrow> string set option \<Rightarrow> pyval \<Rightarrow> SessionState \<Rightarrow> RestoreError + SessionState" where
  "append_restore_results h now content exclude completed s =
     append_restore_loop now content exclude (receipts_of completed) (List.enumerate 0 (open_tool_call_ids h (messages s))) s"

section \<open>Restoring\<close>

text \<open>\<open>messages[-1] != answer\<close> for dicts.\<close>

definition same_text_message :: "message \<Rightarrow> string \<Rightarrow> bool" where
  "same_text_message m t =
     (keys m = {''role'', ''content''} \<and> get m ''role'' = VStr ''assistant'' \<and> get m ''content'' = VStr t)"

definition close_interrupted :: "Host \<Rightarrow> string \<Rightarrow> message \<Rightarrow> SessionState \<Rightarrow> RestoreError + SessionState" where
  "close_interrupted h now raw s =
     bnd (if is_empty (pending_events s) then Inr s
          else append_restore_results h now INTERRUPTED_BY_RESTORE (Some (keys (pending_events s))) (get raw ''loop_checkpoint_results'') s)
       (\<lambda>s1. let opened = set (open_tool_call_ids h (messages s1));
                s2 = foldl (\<lambda>s m. if tm_call_id m \<in> opened then append_message now (tool_result (tm_call_id m) (tm_content m)) s else s)
                       s1 (ordered_results (pending_events s1))
            in bnd (append_restore_results h now INTERRUPTED_BY_RESTORE None (get raw ''loop_checkpoint_results'') s2)
                 (\<lambda>s3. Inr (s3\<lparr>pending_events := clear (pending_events s3)\<rparr>)))"

definition settle_interrupted ::
  "Host \<Rightarrow> string \<Rightarrow> message \<Rightarrow> SessionPhase \<Rightarrow> int option \<Rightarrow> SessionState \<Rightarrow> RestoreError + SessionState" where
  "settle_interrupted h now raw p start s =
     bnd (if p = AWAITING_EVENTS then complete_missing_pending_rows h s else Inr s) (\<lambda>s0.
     let s1 = set_phase (if p = AWAITING_EVENTS \<or> is_terminal p then p else IDLE) s0;
         s2 = (if phase s1 = AWAITING_EVENTS then s1\<lparr>active_turn_start_message_index := start\<rparr> else s1)
     in bnd (if p \<noteq> AWAITING_EVENTS then close_interrupted h now raw s2 else Inr s2) (\<lambda>s3.
        if phase s3 = AWAITING_EVENTS \<and> is_empty (pending_events s3)
        then append_restore_results h now INTERRUPTED_BY_RESTORE None VNone (set_phase IDLE s3) else Inr s3))"

text \<open>An accepted submission survives an interruption while its tools or its autosave ran.\<close>

definition keep_submission :: "string \<Rightarrow> SessionPhase \<Rightarrow> string option \<Rightarrow> SessionState \<Rightarrow> SessionState" where
  "keep_submission now p submitted s =
     (case submitted of
        Some t \<Rightarrow>
          if p = EXECUTING_TOOLS \<or> p = AUTOSAVING
          then (mark_done (if messages s = [] \<or> \<not> same_text_message (last (messages s)) t
                  then append_message now [(''role'', VStr ''assistant''), (''content'', VStr t)] s else s))
                 \<lparr>terminal_reason := Some ''submitted''\<rparr>
          else s
      | None \<Rightarrow> s)"

definition finish_restore :: "Host \<Rightarrow> string \<Rightarrow> message \<Rightarrow> SessionPhase \<Rightarrow> int option \<Rightarrow> SessionState \<Rightarrow> SessionState" where
  "finish_restore h now raw p start s =
     (let submitted = (case get raw ''submitted_summary'' of VStr t \<Rightarrow> Some t | _ \<Rightarrow> None);
          s1 = s\<lparr>pending_step_latency := (if phase s = AWAITING_EVENTS
                       then snapshot_nonnegative_float h (get raw ''pending_step_latency'') else None),
                 submitted_summary := (if phase s = AWAITING_EVENTS then submitted else None),
                 terminal_reason := (if is_terminal (phase s) \<and> get raw ''terminal_reason'' \<noteq> VNone
                       then Some (text_of h (get raw ''terminal_reason'')) else None)\<rparr>;
          s2 = keep_submission now p submitted s1
      in if phase s2 = DONE
         then s2\<lparr>completed_turn_start_message_index :=
                (case restore_active_turn_start (get raw ''completed_turn_start_message_index'') (messages s2) of
                   Some i \<Rightarrow> Some i | None \<Rightarrow> start)\<rparr>
         else s2)"

text \<open>Completing the missing rows leaves the messages alone, so their number may be taken before it.\<close>

definition normalize_interrupted ::
  "Host \<Rightarrow> string \<Rightarrow> message \<Rightarrow> int option \<Rightarrow> SessionState \<Rightarrow> RestoreError + SessionState" where
  "normalize_interrupted h now raw turn_start s =
     (let p = restore_phase h (get_or raw ''phase'' (VStr ''idle''));
          start = (if p = AWAITING_EVENTS \<and> turn_start = None then Some (int (length (messages s))) else turn_start)
      in bnd (settle_interrupted h now raw p start s) (\<lambda>s'. Inr (finish_restore h now raw p start s')))"

definition restore_turn :: "Host \<Rightarrow> message \<Rightarrow> RestoreError + TurnEnforcementState" where
  "restore_turn h raw =
     (let strs = (\<lambda>v. map (text_of h) (list_of v));
          hashes = strs (get raw ''recent_call_hashes'');
          blocked = snapshot_nonnegative_int (get raw ''loop_blocked_since_progress'')
      in (case from_dict (get raw ''loop_state'') (VInt blocked) (Some (set hashes)) of
            Inl e \<Rightarrow> Inl (LoopRefused e)
          | Inr loops \<Rightarrow> Inr
              \<lparr>recent_call_hashes = hashes, loop_state = loops,
               write_effect_unknown = (get raw ''write_effect_unknown'' = VBool True),
               last_progress_unknown = (get raw ''last_progress_unknown'' = VBool True),
               reads_since_last_edit = snapshot_nonnegative_int (get raw ''reads_since_last_edit''),
               has_landed_write = truthy (get_or raw ''has_landed_write'' (VBool False)),
               low_yield_since_progress = snapshot_nonnegative_int (get raw ''low_yield_since_progress''),
               distinct_evidence_count = snapshot_nonnegative_int (get raw ''distinct_evidence_count''),
               seen_result_hashes = set (strs (get raw ''seen_result_hashes'')),
               scout_ledger = map dict_of (filter is_dict (list_of (get raw ''scout_ledger''))),
               steps_since_progress = snapshot_nonnegative_int (get raw ''steps_since_progress''),
               loop_blocked_since_progress = blocked\<rparr>))"

fun restore_rows :: "Host \<Rightarrow> pyval list \<Rightarrow> PendingEventTable \<Rightarrow> PendingRowError + PendingEventTable" where
  "restore_rows h [] t = Inr t"
| "restore_rows h (v # vs) t =
     (case restore_pending_row h v of
        None \<Rightarrow> restore_rows h vs t
      | Some row \<Rightarrow> bnd (add t row) (restore_rows h vs))"

text \<open>\<open>ms\<close> is the message list of the snapshot, which the store has read as dicts; \<open>old\<close> is the agent id so far.\<close>

definition restored_base :: "string \<Rightarrow> int \<Rightarrow> message list \<Rightarrow> message \<Rightarrow> SessionState" where
  "restored_base now old ms snap =
     (replace_messages now (map (\<lambda>m. (None, m)) ms) ((new_session now [])\<lparr>aid := snapshot_int (get snap ''aid'') old\<rparr>))
       \<lparr>pending_user_messages := map dict_of (filter is_dict (list_of (get snap ''pending_messages'')))\<rparr>"

definition restore_fields :: "Host \<Rightarrow> message \<Rightarrow> SessionState \<Rightarrow> RestoreError + SessionState" where
  "restore_fields h raw s =
     bnd (restore_turn h raw) (\<lambda>t.
     bnd (lift_row (restore_rows h (list_of (get_or raw ''pending_events'' (VList []))) [])) (\<lambda>rows.
     let wound = truthy (get_or raw ''wind_down_done'' (VBool False))
     in Inr (s\<lparr>pending_external_user_turn := restore_queued_external_user_turn (get raw ''pending_external_user_turn'') (messages s),
               anthropic_history := restore_anthropic_history (get raw ''anthropic_history'') (messages s),
               used_tokens := snapshot_nonnegative_int (get raw ''used_tokens''),
               context_tokens := snapshot_nonnegative_int (get raw ''context_tokens''),
               step_count := snapshot_nonnegative_int (get raw ''step_count''),
               markup_recovered := snapshot_nonnegative_int (get raw ''markup_recovered''),
               turn := t, wind_down_done := wound,
               wind_down_attempts := (if ''wind_down_attempts'' \<in> keys raw
                 then snapshot_nonnegative_int (get raw ''wind_down_attempts'') else if wound then 2 else 0),
               wind_down_token_mark := snapshot_nonnegative_int (get raw ''wind_down_token_mark''),
               budget_reserve_consumed := truthy (get_or raw ''budget_reserve_consumed'' (VBool wound)),
               pending_events := rows\<rparr>)))"

definition restore :: "Host \<Rightarrow> string \<Rightarrow> int \<Rightarrow> message list \<Rightarrow> message \<Rightarrow> RestoreError + SessionState" where
  "restore h now old ms snap =
     (let base = restored_base now old ms snap
      in case get snap ''session_state'' of
           VDict raw \<Rightarrow>
             bnd (restore_fields h raw base)
               (normalize_interrupted h now raw (restore_active_turn_start (get raw ''active_turn_start_message_index'') (messages base)))
         | _ \<Rightarrow> append_restore_results h now INTERRUPTED_BY_RESTORE None VNone base)"

section \<open>Saving\<close>

text \<open>Results of the current step that reached a checkpoint before their batch was complete.\<close>

record Receipts =
  rc_step :: int
  rc_prefix :: "message list"
  rc_results :: "message list"

definition completed_tool_results :: "Receipts \<Rightarrow> SessionState \<Rightarrow> message list" where
  "completed_tool_results rc s =
     (if step_count s = rc_step rc \<and> phase s \<noteq> AUTOSAVING \<and> phase s \<noteq> AWAITING_EVENTS then rc_prefix rc @ rc_results rc else [])"

definition saved_receipts :: "Receipts \<Rightarrow> SessionState \<Rightarrow> message list" where
  "saved_receipts rc s =
     (if step_count s \<noteq> rc_step rc \<or> phase s = AUTOSAVING \<or> phase s = AWAITING_EVENTS \<or> phase s = DONE then []
      else rc_prefix rc @ rc_results rc)"

definition saved_state :: "Receipts \<Rightarrow> SessionState \<Rightarrow> message" where
  "saved_state rc s =
     (let t = turn s; receipts = saved_receipts rc s in
     [(''used_tokens'', VInt (used_tokens s)), (''context_tokens'', VInt (context_tokens s)), (''step_count'', VInt (step_count s)),
      (''markup_recovered'', VInt (markup_recovered s)),
      (''recent_call_hashes'', VList (map VStr (recent_call_hashes t))),
      (''reads_since_last_edit'', VInt (reads_since_last_edit t)), (''has_landed_write'', VBool (has_landed_write t)),
      (''low_yield_since_progress'', VInt (low_yield_since_progress t)),
      (''distinct_evidence_count'', VInt (distinct_evidence_count t)),
      (''seen_result_hashes'', VList (map VStr (sorted_list_of_set (seen_result_hashes t)))),
      (''scout_ledger'', VList (map VDict (scout_ledger t))), (''steps_since_progress'', VInt (steps_since_progress t)),
      (''wind_down_done'', VBool (wind_down_done s)), (''wind_down_attempts'', VInt (wind_down_attempts s)),
      (''wind_down_token_mark'', VInt (wind_down_token_mark s)), (''budget_reserve_consumed'', VBool (budget_reserve_consumed s)),
      (''loop_blocked_since_progress'', VInt (loop_blocked_since_progress t)), (''loop_state'', to_dict (loop_state t)),
      (''write_effect_unknown'', VBool (write_effect_unknown t)), (''last_progress_unknown'', VBool (last_progress_unknown t)),
      (''phase'', VStr (phase_str (phase s))), (''terminal_reason'', opt_val VStr (terminal_reason s)),
      (''pending_events'', VList (map (\<lambda>(_, row). VDict (serialize_pending_row row)) (pending_events s))),
      (''pending_external_user_turn'', opt_val VDict (pending_external_user_turn s)),
      (''active_turn_start_message_index'', opt_val VInt (active_turn_start_message_index s)),
      (''completed_turn_start_message_index'', opt_val VInt (completed_turn_start_message_index s)),
      (''pending_step_latency'', opt_val (\<lambda>r. VFloat (Fin r)) (pending_step_latency s)),
      (''submitted_summary'', opt_val VStr (submitted_summary s)),
      (''anthropic_history'', opt_val id (anthropic_history s))] @
     (if receipts \<noteq> [] then [(''loop_checkpoint_results'', VList (map VDict receipts))] else []))"

definition snapshot_for_save :: "string \<Rightarrow> Receipts \<Rightarrow> string \<Rightarrow> pyval \<Rightarrow> string option \<Rightarrow> SessionState \<Rightarrow> message list \<times> message" where
  "snapshot_for_save now rc role model run_id s =
     (case enriched_messages now s (VInt 0) of
        Inl _ \<Rightarrow> ([], [])
      | Inr (_, ms) \<Rightarrow> (ms,
          [(''snapshot_version'', VInt 1), (''aid'', VInt (aid s)), (''role'', VStr role), (''model'', model),
           (''session_state'', VDict (saved_state rc s))] @
          (case run_id of Some r \<Rightarrow> [(''run_id'', VStr r)] | None \<Rightarrow> []) @
          (if pending_user_messages s \<noteq> []
           then [(''pending_messages'', VList (map VDict (enriched_pending_user_messages s)))] else [])))"

section \<open>An interrupted turn\<close>

definition CANCELLED_CONTENT :: string where
  "CANCELLED_CONTENT = ''Tool execution interrupted by session cancellation. The execution outcome is unknown.''"

definition FAILED_CONTENT :: string where
  "FAILED_CONTENT = ''Tool execution interrupted because the session failed before its result was recorded.''"

text \<open>Cancellation of the task that runs the turn.\<close>

definition cancelled_turn :: "Host \<Rightarrow> string \<Rightarrow> Receipts \<Rightarrow> SessionState \<Rightarrow> RestoreError + SessionState" where
  "cancelled_turn h now rc s =
     (let s1 = (if is_terminal (phase s) then s else cancel None s)
      in append_restore_results h now CANCELLED_CONTENT (Some (keys (pending_events s1)))
           (VList (map VDict (completed_tool_results rc s1))) s1)"

definition release_interrupted_loop_owners :: "string set \<Rightarrow> SessionState \<Rightarrow> SessionState" where
  "release_interrupted_loop_owners ids s =
     s\<lparr>turn := (turn s)\<lparr>loop_state := (loop_state (turn s))\<lparr>operations :=
         map (\<lambda>(k, op). (k, case inflight_tool_call_id op of
                Some i \<Rightarrow> if i \<in> ids then op\<lparr>inflight_tool_call_id := None\<rparr> else op
              | None \<Rightarrow> op)) (operations (loop_state (turn s)))\<rparr>\<rparr>\<rparr>"

text \<open>Any other exception that leaves the driver; a failure to close is only noted on that exception.\<close>

definition close_failed_tool_exchange :: "Host \<Rightarrow> string \<Rightarrow> Receipts \<Rightarrow> SessionState \<Rightarrow> RestoreError + SessionState" where
  "close_failed_tool_exchange h now rc s =
     (let completed = completed_tool_results rc s;
          receipt_ids = (\<lambda>d. get d ''tool_call_id'') ` set (filter (\<lambda>d. is_str (get d ''tool_call_id'')) completed);
          rows = keys (pending_events s);
          interrupted = {i \<in> set (open_tool_call_ids h (messages s)). VStr i \<notin> receipt_ids \<and> i \<notin> rows}
      in append_restore_results h now FAILED_CONTENT (Some rows) (VList (map VDict completed))
           (release_interrupted_loop_owners interrupted s))"

section \<open>What appending results does\<close>

lemma open_snoc [simp]: "open_tool_call_ids h (ms @ [m]) = open_step h (open_tool_call_ids h ms) m"
  by (simp add: open_tool_call_ids_def)

lemma open_step_result [simp]: "open_step h ids (tool_result cid t) = remove1 cid ids"
  by (simp add: open_step_def tool_result_def get_def text_of_def)

lemma foldl_remove1: "foldl (\<lambda>ids c. remove1 c ids) xs xs = []"
proof -
  have "foldl (\<lambda>ids c. remove1 c ids) (xs @ ys) xs = ys" for ys :: "'a list"
    by (induction xs arbitrary: ys) simp_all
  from this [of "[]"] show ?thesis by simp
qed

text \<open>Without an exclusion every open call gets a message and nothing else changes.\<close>

lemma close_all:
  "\<exists>rs ts. append_restore_loop now content None receipts calls s =
      Inr (s\<lparr>messages := messages s @ map2 (\<lambda>(i, c) t. tool_result c t) calls rs, message_timestamps := ts\<rparr>) \<and> length rs = length calls"
proof (induction calls arbitrary: s)
  case Nil
  show ?case by (rule exI [of _ "[]"], rule exI [of _ "message_timestamps s"]) simp
next
  case (Cons c calls)
  obtain i cid where c: "c = (i, cid)" by (cases c)
  let ?t = "case map_of receipts cid of Some t \<Rightarrow> t | None \<Rightarrow> content"
  let ?s = "append_message now (tool_result cid ?t) s"
  obtain rs ts where "append_restore_loop now content None receipts calls ?s =
      Inr (?s\<lparr>messages := messages ?s @ map2 (\<lambda>(i, c) t. tool_result c t) calls rs, message_timestamps := ts\<rparr>)" "length rs = length calls"
    using Cons.IH by blast
  then have "append_restore_loop now content None receipts (c # calls) s =
      Inr (s\<lparr>messages := messages s @ map2 (\<lambda>(i, c) t. tool_result c t) (c # calls) (?t # rs), message_timestamps := ts\<rparr>)"
    by (simp add: c append_message_def)
  then show ?case using \<open>length rs = length calls\<close> by (metis length_Cons)
qed

lemma open_after_results:
  "length rs = length calls \<Longrightarrow>
   open_tool_call_ids h (ms @ map2 (\<lambda>(i, c) t. tool_result c t) calls rs) =
     foldl (\<lambda>ids c. remove1 c ids) (open_tool_call_ids h ms) (map snd calls)"
proof (induction calls rs arbitrary: ms rule: list_induct2')
  case (4 c calls t rs)
  obtain i cid where c: "c = (i, cid)" by (cases c)
  have "open_tool_call_ids h ((ms @ [tool_result cid t]) @ map2 (\<lambda>(i, c) t. tool_result c t) calls rs) =
      foldl (\<lambda>ids c. remove1 c ids) (open_tool_call_ids h (ms @ [tool_result cid t])) (map snd calls)"
    using 4 by (intro "4.IH") simp
  then show ?case by (simp add: c)
qed simp_all

lemma append_all_closes:
  obtains rs ts where "append_restore_results h now content None completed s =
      Inr (s\<lparr>messages := messages s @ map2 (\<lambda>(i, c) t. tool_result c t) (List.enumerate 0 (open_tool_call_ids h (messages s))) rs,
             message_timestamps := ts\<rparr>)"
    and "length rs = length (open_tool_call_ids h (messages s))"
    and "open_tool_call_ids h (messages s @ map2 (\<lambda>(i, c) t. tool_result c t) (List.enumerate 0 (open_tool_call_ids h (messages s))) rs) = []"
proof -
  let ?calls = "List.enumerate 0 (open_tool_call_ids h (messages s))"
  obtain rs ts where loop: "append_restore_loop now content None (receipts_of completed) ?calls s =
      Inr (s\<lparr>messages := messages s @ map2 (\<lambda>(i, c) t. tool_result c t) ?calls rs, message_timestamps := ts\<rparr>)"
    and len: "length rs = length ?calls" using close_all by blast
  show thesis
  proof
    show "append_restore_results h now content None completed s =
        Inr (s\<lparr>messages := messages s @ map2 (\<lambda>(i, c) t. tool_result c t) ?calls rs, message_timestamps := ts\<rparr>)"
      using loop by (simp add: append_restore_results_def)
    show "length rs = length (open_tool_call_ids h (messages s))" using len by simp
    show "open_tool_call_ids h (messages s @ map2 (\<lambda>(i, c) t. tool_result c t) ?calls rs) = []"
      using open_after_results [OF len, of h "messages s"] by (simp add: foldl_remove1)
  qed
qed

section \<open>A restored session can go on\<close>

text \<open>Nothing pends and no call is open, or the session waits for rows that all have a result.\<close>

definition resumable :: "Host \<Rightarrow> SessionState \<Rightarrow> bool" where
  "resumable h s =
     (if phase s = AWAITING_EVENTS
      then is_complete (pending_events s) \<and> set (open_tool_call_ids h (messages s)) \<subseteq> keys (pending_events s)
      else (phase s = IDLE \<or> is_terminal (phase s)) \<and> pending_events s = [] \<and> open_tool_call_ids h (messages s) = [])"

abbreviation no_pending :: "PendingEventTable \<Rightarrow> bool" where
  "no_pending t \<equiv> list_all (\<lambda>(_, row). row_status row \<noteq> PENDING) t"

lemma add_no_pending: "no_pending t \<Longrightarrow> add t row = Inr t' \<Longrightarrow> row_status row \<noteq> PENDING \<Longrightarrow> no_pending t'"
  by (auto simp: add_def list_all_iff update_new split: if_splits)

lemma restore_row_settled: "restore_pending_row h v = Some row \<Longrightarrow> row_status row \<noteq> PENDING"
  by (auto simp: restore_pending_row_def Let_def split: pyval.splits option.splits if_splits)

lemma restore_rows_settled: "restore_rows h vs t = Inr t' \<Longrightarrow> no_pending t \<Longrightarrow> no_pending t'"
proof (induction vs arbitrary: t)
  case (Cons v vs)
  show ?case
  proof (cases "restore_pending_row h v")
    case None
    then show ?thesis using Cons by simp
  next
    case (Some row)
    then obtain t1 where t1: "add t row = Inr t1" "restore_rows h vs t1 = Inr t'" using Cons.prems(1) by (auto simp: bnd_Inr_iff)
    then show ?thesis using Cons.IH Cons.prems(2) add_no_pending restore_row_settled [OF Some] by blast
  qed
qed simp

lemma add_missing_settled:
  "add_missing xs calls t = Inr t' \<Longrightarrow> no_pending t \<Longrightarrow>
   no_pending t' \<and> keys t \<subseteq> keys t' \<and> (\<forall>c \<in> snd ` set calls. c \<notin> xs \<longrightarrow> c \<in> keys t')"
proof (induction xs calls t rule: add_missing.induct)
  case (2 xs i cid rest t)
  show ?case
  proof (cases "cid \<in> xs")
    case True
    then show ?thesis using 2 by auto
  next
    case False
    then obtain t1 where t1: "add t (failed_row CHILD_AGENT cid (int i) MISSING_CHILD) = Inr t1" "add_missing xs rest t1 = Inr t'"
      using "2.prems"(1) by (auto simp: bnd_Inr_iff)
    have k: "keys t1 = insert cid (keys t)" using add_keys [OF t1(1)] by (simp add: failed_row_def)
    have "no_pending t1" using add_no_pending [OF "2.prems"(2) t1(1)] by (simp add: failed_row_def)
    then have "no_pending t' \<and> keys t1 \<subseteq> keys t' \<and> (\<forall>c \<in> snd ` set rest. c \<notin> xs \<longrightarrow> c \<in> keys t')"
      using "2.IH"(2) [OF False t1(2)] by blast
    then show ?thesis using k by auto
  qed
qed auto

lemma close_interrupted_closes:
  assumes "close_interrupted h now raw s = Inr s'"
  shows "pending_events s' = [] \<and> open_tool_call_ids h (messages s') = []"
proof -
  obtain s2 s3 where "append_restore_results h now INTERRUPTED_BY_RESTORE None (get raw ''loop_checkpoint_results'') s2 = Inr s3"
    and s': "s' = s3\<lparr>pending_events := clear (pending_events s3)\<rparr>"
    using assms by (auto simp: close_interrupted_def bnd_Inr_iff Let_def)
  moreover obtain rs ts where "append_restore_results h now INTERRUPTED_BY_RESTORE None (get raw ''loop_checkpoint_results'') s2 =
      Inr (s2\<lparr>messages := messages s2 @ map2 (\<lambda>(i, c) t. tool_result c t) (List.enumerate 0 (open_tool_call_ids h (messages s2))) rs,
             message_timestamps := ts\<rparr>)"
    "open_tool_call_ids h (messages s2 @ map2 (\<lambda>(i, c) t. tool_result c t) (List.enumerate 0 (open_tool_call_ids h (messages s2))) rs) = []"
    by (rule append_all_closes)
  ultimately show ?thesis by (auto simp: clear_def)
qed

lemma open_answer [simp]: "open_step h ids [(''role'', VStr ''assistant''), (''content'', VStr t)] = ids"
  by (simp add: open_step_def get_def message_call_ids_def)

lemma resumable_cong:
  "phase s' = phase s \<Longrightarrow> messages s' = messages s \<Longrightarrow> pending_events s' = pending_events s \<Longrightarrow> resumable h s' = resumable h s"
  by (simp add: resumable_def)

lemma keep_resumable:
  "resumable h s \<Longrightarrow> phase s = AWAITING_EVENTS \<longrightarrow> p = AWAITING_EVENTS \<Longrightarrow> resumable h (keep_submission now p t s)"
  by (auto simp: keep_submission_def resumable_def mark_done_def append_message_def is_terminal_def split: option.split)

lemma finish_resumable:
  assumes "resumable h s" and "phase s = AWAITING_EVENTS \<longrightarrow> p = AWAITING_EVENTS"
  shows "resumable h (finish_restore h now raw p start s)"
proof -
  have keep: "resumable h (keep_submission now p t (s\<lparr>pending_step_latency := x, submitted_summary := y, terminal_reason := z\<rparr>))"
    for t x y z
    using assms by (intro keep_resumable) (simp_all add: resumable_cong [of "s\<lparr>pending_step_latency := x, submitted_summary := y, terminal_reason := z\<rparr>" s])
  show ?thesis
    unfolding finish_restore_def Let_def
    by (rule if_split [THEN iffD2]) (auto simp: keep intro!: resumable_cong [THEN iffD2, OF _ _ _ keep])
qed

lemma append_all_resumable:
  assumes "append_restore_results h now content None completed s = Inr s'" and "pending_events s = []"
    and "phase s = IDLE \<or> is_terminal (phase s)"
  shows "resumable h s' \<and> phase s' = phase s"
proof (rule append_all_closes [of h now content completed s])
  fix rs ts
  assume "append_restore_results h now content None completed s =
      Inr (s\<lparr>messages := messages s @ map2 (\<lambda>(i, c) t. tool_result c t) (List.enumerate 0 (open_tool_call_ids h (messages s))) rs,
             message_timestamps := ts\<rparr>)"
    and "open_tool_call_ids h (messages s @ map2 (\<lambda>(i, c) t. tool_result c t) (List.enumerate 0 (open_tool_call_ids h (messages s))) rs) = []"
  then show ?thesis using assms by (auto simp: resumable_def is_terminal_def)
qed

lemma append_loop_phase:
  "append_restore_loop now content xs receipts calls s = Inr s' \<Longrightarrow> phase s' = phase s"
  by (induction now content xs receipts calls s arbitrary: s' rule: append_restore_loop.induct)
    (auto simp: append_message_def bnd_Inr_iff split: option.splits if_splits)

lemma fold_results_phase:
  "phase (foldl (\<lambda>s m. if tm_call_id m \<in> xs then append_message now (tool_result (tm_call_id m) (tm_content m)) s else s) s ms) = phase s"
  by (induction ms arbitrary: s) (simp_all add: append_message_def)

lemma close_interrupted_phase: "close_interrupted h now raw s = Inr s' \<Longrightarrow> phase s' = phase s"
  by (auto simp: close_interrupted_def bnd_Inr_iff Let_def append_restore_results_def fold_results_phase
      dest!: append_loop_phase split: if_splits)

lemma settle_awaiting:
  assumes "settle_interrupted h now raw AWAITING_EVENTS start s = Inr s'" and "no_pending (pending_events s)"
  shows "resumable h s'"
proof -
  obtain s0 where s0: "complete_missing_pending_rows h s = Inr s0"
    using assms(1) by (auto simp: settle_interrupted_def bnd_Inr_iff)
  then obtain t where t: "add_missing (keys (pending_events s)) (List.enumerate 0 (open_tool_call_ids h (messages s))) (pending_events s) = Inr t"
    and s0': "s0 = s\<lparr>pending_events := t\<rparr>"
    by (auto simp: complete_missing_pending_rows_def bnd_Inr_iff lift_row_def split: sum.splits)
  have rows: "no_pending t" using add_missing_settled [OF t assms(2)] by blast
  have cover: "set (open_tool_call_ids h (messages s)) \<subseteq> keys t"
  proof
    fix c
    assume "c \<in> set (open_tool_call_ids h (messages s))"
    then have "c \<in> snd ` set (List.enumerate 0 (open_tool_call_ids h (messages s)))" by (metis list.set_map map_snd_enumerate)
    then show "c \<in> keys t" using add_missing_settled [OF t assms(2)] by blast
  qed
  let ?s1 = "s\<lparr>pending_events := t, phase := AWAITING_EVENTS, active_turn_start_message_index := start\<rparr>"
  have settle: "(if is_empty t then append_restore_results h now INTERRUPTED_BY_RESTORE None VNone (set_phase IDLE ?s1) else Inr ?s1) = Inr s'"
    using assms(1) s0 by (simp add: settle_interrupted_def bnd_Inr_iff set_phase_def s0' Let_def split: if_splits)
  show ?thesis
  proof (cases "is_empty t")
    case True
    then have closing: "append_restore_results h now INTERRUPTED_BY_RESTORE None VNone (set_phase IDLE ?s1) = Inr s'"
      using settle by simp
    from True show ?thesis using append_all_resumable [OF closing] by (simp add: is_empty_def set_phase_def)
  next
    case False
    then have "s' = ?s1" using settle by simp
    then show ?thesis using rows cover False by (simp add: resumable_def is_complete_def is_empty_def)
  qed
qed

lemma settle_resumable:
  assumes "settle_interrupted h now raw p start s = Inr s'" and "no_pending (pending_events s)"
  shows "resumable h s' \<and> (phase s' = AWAITING_EVENTS \<longrightarrow> p = AWAITING_EVENTS)"
proof (cases "p = AWAITING_EVENTS")
  case True
  then show ?thesis using settle_awaiting assms by blast
next
  case False
  define s1 where "s1 = set_phase (if is_terminal p then p else IDLE) s"
  have ph: "phase s1 = IDLE \<or> is_terminal (phase s1)" "phase s1 \<noteq> AWAITING_EVENTS"
    using False by (auto simp: s1_def set_phase_def)
  have "close_interrupted h now raw s1 = Inr s'"
  proof -
    obtain s3 where s3: "close_interrupted h now raw s1 = Inr s3"
      and s': "(if phase s3 = AWAITING_EVENTS \<and> is_empty (pending_events s3)
         then append_restore_results h now INTERRUPTED_BY_RESTORE None VNone (set_phase IDLE s3) else Inr s3) = Inr s'"
      using assms(1) False ph(2) by (auto simp: settle_interrupted_def bnd_Inr_iff s1_def Let_def)
    then show ?thesis using close_interrupted_phase [OF s3] ph(2) by simp
  qed
  from close_interrupted_closes [OF this] close_interrupted_phase [OF this] show ?thesis
    using ph False by (simp add: resumable_def)
qed

lemma restore_is_resumable: "restore h now old ms snap = Inr s \<Longrightarrow> resumable h s"
proof -
  assume r: "restore h now old ms snap = Inr s"
  have base: "pending_events (restored_base now old ms snap) = []" "phase (restored_base now old ms snap) = IDLE"
    by (simp_all add: restored_base_def replace_messages_def new_session_def align_timestamps_def Let_def)
  show ?thesis
  proof (cases "is_dict (get snap ''session_state'')")
    case False
    then have "append_restore_results h now INTERRUPTED_BY_RESTORE None VNone (restored_base now old ms snap) = Inr s"
      using r by (auto simp: restore_def Let_def split: pyval.splits)
    then show ?thesis using append_all_resumable base by blast
  next
    case True
    then obtain raw where raw: "get snap ''session_state'' = VDict raw" by (auto simp: is_dict_conv)
    let ?start = "restore_active_turn_start (get raw ''active_turn_start_message_index'') (messages (restored_base now old ms snap))"
    obtain s1 where s1: "restore_fields h raw (restored_base now old ms snap) = Inr s1" "normalize_interrupted h now raw ?start s1 = Inr s"
      using r by (auto simp: restore_def raw bnd_Inr_iff Let_def)
    obtain rows where rows: "restore_rows h (list_of (get_or raw ''pending_events'' (VList []))) [] = Inr rows" "pending_events s1 = rows"
      using s1(1) by (auto simp: restore_fields_def bnd_Inr_iff lift_row_def Let_def split: sum.splits)
    have "no_pending (pending_events s1)" using restore_rows_settled [OF rows(1)] rows(2) by simp
    then show ?thesis
      using s1(2) settle_resumable finish_resumable by (fastforce simp: normalize_interrupted_def Let_def bnd_Inr_iff)
  qed
qed

text \<open>
  C30. A restored session can always go on, whatever the snapshot holds.  If a restore succeeds, the
  session is either at rest - idle or ended, no row pending, every tool call of its transcript answered -
  or it waits in AWAITING_EVENTS, and then every open call has a row and every row has its result, so
  the next run resumes instead of waiting for work that no longer exists.
\<close>

theorem restored_session_resumes:
  assumes "restore h now old ms snap = Inr s"
  shows "if phase s = AWAITING_EVENTS
    then is_complete (pending_events s) \<and> set (open_tool_call_ids h (messages s)) \<subseteq> keys (pending_events s)
    else (phase s = IDLE \<or> is_terminal (phase s)) \<and> pending_events s = [] \<and> open_tool_call_ids h (messages s) = []"
  using restore_is_resumable [OF assms] by (simp add: resumable_def)

text \<open>A snapshot of a batch that was running when the process died.\<close>

definition demo_host :: Host where
  "demo_host = \<lparr>host_str = (\<lambda>_. ''?''), host_float = (\<lambda>_. None)\<rparr>"

definition demo_messages :: "message list" where
  "demo_messages =
     [[(''role'', VStr ''user''), (''content'', VStr ''go'')],
      [(''role'', VStr ''assistant''), (''tool_calls'', VList [VDict [(''id'', VStr ''c1'')], VDict [(''id'', VStr ''c2'')]])]]"

definition demo_snapshot :: message where
  "demo_snapshot = [(''session_state'', VDict [(''phase'', VStr ''awaiting_events''),
     (''pending_events'', VList [VDict [(''tool_call_id'', VStr ''c1''), (''kind'', VStr ''child_agent''), (''order'', VInt 0)]])])]"

lemma demo_restore:
  "(case restore demo_host ''t'' 0 demo_messages demo_snapshot of
      Inr s \<Rightarrow> phase s = AWAITING_EVENTS \<and> map fst (pending_events s) = [''c1'', ''c2''] | Inl _ \<Rightarrow> False)"
  by code_simp

theorem restored_session_resumes_witness:
  "\<exists>s. restore demo_host ''t'' 0 demo_messages demo_snapshot = Inr s \<and> is_complete (pending_events s)"
proof -
  obtain s where s: "restore demo_host ''t'' 0 demo_messages demo_snapshot = Inr s" "phase s = AWAITING_EVENTS"
    using demo_restore by (auto split: sum.splits)
  from restored_session_resumes [OF s(1)] s show ?thesis by simp
qed

section \<open>Saving and restoring a session at rest\<close>

definition history_ok :: "SessionState \<Rightarrow> bool" where
  "history_ok s =
     (anthropic_history s = None \<or>
      (\<exists>view n tools. anthropic_history s = Some (VDict [(''messages'', VList view), (''source_count'', VInt n), (''tools'', tools)]) \<and>
         0 \<le> n \<and> n \<le> int (length (messages s)) \<and> list_all is_dict view \<and>
         (tools = VNone \<or> (\<exists>ts. tools = VList ts \<and> list_all is_dict ts))))"

definition queue_ok :: "SessionState \<Rightarrow> bool" where
  "queue_ok s =
     (pending_external_user_turn s = None \<or>
      (\<exists>i c more. pending_external_user_turn s = Some ([(''turn_id'', VStr i), (''status'', VStr ''queued''), (''content'', VStr c)] @ more) \<and>
         i \<noteq> [] \<and>
         (more = [] \<or> (\<exists>k. more = [(''message_index'', VInt k)] \<and> 0 \<le> k \<and> k < int (length (messages s)) \<and>
            get (messages s ! nat k) ''role'' = VStr ''user'' \<and> get (messages s ! nat k) ''content'' = VStr c))))"

definition turn_ok :: "TurnEnforcementState \<Rightarrow> bool" where
  "turn_ok t =
     (loop_ok (loop_state t) \<and>
      (\<forall>(k, op) \<in> set (operations (loop_state t)). k \<in> set (recent_call_hashes t) \<or> inflight_tool_call_id op \<noteq> None) \<and>
      finite (seen_result_hashes t) \<and> 0 \<le> reads_since_last_edit t \<and> 0 \<le> low_yield_since_progress t \<and>
      0 \<le> distinct_evidence_count t \<and> 0 \<le> steps_since_progress t \<and> 0 \<le> loop_blocked_since_progress t)"

text \<open>A session between two turns.\<close>

definition resting :: "Host \<Rightarrow> SessionState \<Rightarrow> bool" where
  "resting h s =
     ((phase s = IDLE \<and> terminal_reason s = None \<or> is_terminal (phase s)) \<and>
      length (message_timestamps s) = length (messages s) \<and> list_all (\<lambda>m. dict_ok m \<and> ''timestamp'' \<notin> keys m) (messages s) \<and>
      open_tool_call_ids h (messages s) = [] \<and> pending_events s = [] \<and> turn_ok (turn s) \<and> history_ok s \<and> queue_ok s \<and>
      0 \<le> used_tokens s \<and> 0 \<le> context_tokens s \<and> 0 \<le> step_count s \<and> 0 \<le> markup_recovered s \<and>
      0 \<le> wind_down_attempts s \<and> 0 \<le> wind_down_token_mark s \<and>
      active_turn_start_message_index s = None \<and> pending_step_latency s = None \<and> submitted_summary s = None \<and>
      (case completed_turn_start_message_index s of None \<Rightarrow> True
       | Some i \<Rightarrow> phase s = DONE \<and> 0 \<le> i \<and> i \<le> int (length (messages s))))"

lemma saved_fields:
  "get (saved_state rc s) ''used_tokens'' = VInt (used_tokens s)"
  "get (saved_state rc s) ''context_tokens'' = VInt (context_tokens s)"
  "get (saved_state rc s) ''step_count'' = VInt (step_count s)"
  "get (saved_state rc s) ''markup_recovered'' = VInt (markup_recovered s)"
  "get (saved_state rc s) ''recent_call_hashes'' = VList (map VStr (recent_call_hashes (turn s)))"
  "get (saved_state rc s) ''reads_since_last_edit'' = VInt (reads_since_last_edit (turn s))"
  "get_or (saved_state rc s) ''has_landed_write'' v = VBool (has_landed_write (turn s))"
  "get (saved_state rc s) ''low_yield_since_progress'' = VInt (low_yield_since_progress (turn s))"
  "get (saved_state rc s) ''distinct_evidence_count'' = VInt (distinct_evidence_count (turn s))"
  "get (saved_state rc s) ''seen_result_hashes'' = VList (map VStr (sorted_list_of_set (seen_result_hashes (turn s))))"
  "get (saved_state rc s) ''scout_ledger'' = VList (map VDict (scout_ledger (turn s)))"
  "get (saved_state rc s) ''steps_since_progress'' = VInt (steps_since_progress (turn s))"
  "get_or (saved_state rc s) ''wind_down_done'' v = VBool (wind_down_done s)"
  "get (saved_state rc s) ''wind_down_attempts'' = VInt (wind_down_attempts s)"
  "''wind_down_attempts'' \<in> keys (saved_state rc s)"
  "get (saved_state rc s) ''wind_down_token_mark'' = VInt (wind_down_token_mark s)"
  "get_or (saved_state rc s) ''budget_reserve_consumed'' v = VBool (budget_reserve_consumed s)"
  "get (saved_state rc s) ''loop_blocked_since_progress'' = VInt (loop_blocked_since_progress (turn s))"
  "get (saved_state rc s) ''loop_state'' = to_dict (loop_state (turn s))"
  "get (saved_state rc s) ''write_effect_unknown'' = VBool (write_effect_unknown (turn s))"
  "get (saved_state rc s) ''last_progress_unknown'' = VBool (last_progress_unknown (turn s))"
  "get_or (saved_state rc s) ''phase'' v = VStr (phase_str (phase s))"
  "get (saved_state rc s) ''terminal_reason'' = opt_val VStr (terminal_reason s)"
  "get_or (saved_state rc s) ''pending_events'' v = VList (map (\<lambda>(_, row). VDict (serialize_pending_row row)) (pending_events s))"
  "get (saved_state rc s) ''pending_external_user_turn'' = opt_val VDict (pending_external_user_turn s)"
  "get (saved_state rc s) ''active_turn_start_message_index'' = opt_val VInt (active_turn_start_message_index s)"
  "get (saved_state rc s) ''completed_turn_start_message_index'' = opt_val VInt (completed_turn_start_message_index s)"
  "get (saved_state rc s) ''pending_step_latency'' = opt_val (\<lambda>r. VFloat (Fin r)) (pending_step_latency s)"
  "get (saved_state rc s) ''submitted_summary'' = opt_val VStr (submitted_summary s)"
  "get (saved_state rc s) ''anthropic_history'' = opt_val id (anthropic_history s)"
  by (simp_all add: saved_state_def Let_def get_def get_or_def)

lemma saved_receipts_field: "list_of (get (saved_state rc s) ''loop_checkpoint_results'') = map VDict (saved_receipts rc s)"
  by (simp add: saved_state_def Let_def get_def list_of_def)

lemma restore_phase_str: "restore_phase h (VStr (phase_str p)) = p"
  by (cases p) (simp_all add: restore_phase_def text_of_def LEGACY_TERMINAL_PHASES_def Let_def)

lemma restore_active_operations:
  "(\<forall>(k, op) \<in> set ops. k \<in> ks \<or> inflight_tool_call_id op \<noteq> None) \<Longrightarrow>
   restore_operations (Some ks) e (map (\<lambda>(k, op). (k, operation_to_dict op)) ops) acc =
   restore_operations None e (map (\<lambda>(k, op). (k, operation_to_dict op)) ops) acc"
proof (induction ops arbitrary: acc)
  case (Cons p ops)
  obtain k op where p: "p = (k, op)" by (cases p)
  have "is_str (get v ''inflight_tool_call_id'') = (inflight_tool_call_id op \<noteq> None)" if "operation_to_dict op = VDict v" for v
    using that by (auto simp: operation_to_dict_def get_def opt_str_def split: option.splits)
  then show ?case
    using Cons by (auto simp: p Let_def split: pyval.splits option.splits)
qed simp

lemma restore_loops:
  assumes "loop_ok l" and "\<forall>(k, op) \<in> set (operations l). k \<in> ks \<or> inflight_tool_call_id op \<noteq> None"
  shows "from_dict (to_dict l) legacy (Some ks) = Inr l"
proof -
  have "restore_operations None (edit_seq l) (map (\<lambda>(k, op). (k, operation_to_dict op)) (operations l)) [] = Inr (operations l)"
    using assms(1) restore_roundtrip [of "[]" "operations l" "edit_seq l"] by (simp add: loop_ok_def ops_ok_def)
  then show ?thesis
    using assms restore_active_operations [OF assms(2)]
    by (auto simp: from_dict_def to_dict_def loop_ok_def get_def nonnegative_int_def)
qed

lemma text_of_str [simp]: "text_of h (VStr t) = t"
  by (simp add: text_of_def)

lemma list_of_simps [simp]: "list_of (VList xs) = xs"
  by (simp add: list_of_def)

lemma nonneg_saved [simp]: "0 \<le> i \<Longrightarrow> snapshot_nonnegative_int (VInt i) = i"
  by (simp add: snapshot_nonnegative_int_def int_of_def)

lemma saved_dicts [simp]: "map dict_of (filter is_dict (map VDict ds)) = ds"
  by (induction ds) (simp_all add: dict_of_def)

lemma restore_saved_turn:
  assumes "turn_ok (turn s)"
  shows "restore_turn h (saved_state rc s) = Inr (turn s)"
proof -
  have loops: "from_dict (to_dict (loop_state (turn s))) legacy (Some (set (recent_call_hashes (turn s)))) = Inr (loop_state (turn s))" for legacy
    using assms by (intro restore_loops) (simp_all add: turn_ok_def)
  have "map (text_of h) (map VStr xs) = xs" for xs by (simp add: comp_def)
  then show ?thesis
    using assms by (simp add: restore_turn_def saved_fields Let_def loops turn_ok_def comp_def dict_of_def)
qed

lemma delete_added: "k \<notin> keys m \<Longrightarrow> AList.delete k (m @ [(k, v)]) = m"
  by (auto simp: AList.delete_eq filter_id_conv image_iff)

lemma restore_stamped:
  assumes "length (message_timestamps s) = length (messages s)" and "list_all (\<lambda>m. dict_ok m \<and> ''timestamp'' \<notin> keys m) (messages s)"
    and "snapshot_for_save now rc role model rid s = (ms, snap)"
  shows "restored_base now' old ms snap = (new_session now' [])\<lparr>aid := aid s, messages := messages s,
     message_timestamps := message_timestamps s, pending_user_messages := pending_user_messages s\<rparr>"
proof -
  have stamp: "AList.delete ''timestamp'' (AList.update ''timestamp'' ts m) = m \<and> get (AList.update ''timestamp'' ts m) ''timestamp'' = ts"
    if "m \<in> set (messages s)" for m ts
  proof -
    have "''timestamp'' \<notin> keys m" using assms(2) that by (simp add: list_all_iff)
    then show ?thesis by (simp add: update_new delete_added get_def map_of_none_keys [symmetric] map_add_def)
  qed
  have ms: "ms = map (\<lambda>(m, ts). AList.update ''timestamp'' ts m) (zip (messages s) (message_timestamps s))"
    and aid: "get snap ''aid'' = VInt (aid s)"
    and queued: "list_of (get snap ''pending_messages'') = map VDict (pending_user_messages s)"
    using assms(1,3)
    by (auto simp: snapshot_for_save_def enriched_messages_def align_timestamps_def get_def list_of_def enriched_pending_user_messages_def
        split: option.splits if_splits)
  have rebuilt: "map (\<lambda>x. AList.delete ''timestamp'' (AList.update ''timestamp'' (snd x) (fst x))) (zip (messages s) (message_timestamps s)) = messages s"
    "map (\<lambda>x. get (AList.update ''timestamp'' (snd x) (fst x)) ''timestamp'') (zip (messages s) (message_timestamps s)) = message_timestamps s"
    using assms(1) stamp by (auto intro!: nth_equalityI)
  show ?thesis
    using rebuilt aid queued
    by (simp add: restored_base_def replace_messages_def ms Let_def comp_def case_prod_beta new_session_def align_timestamps_def
        snapshot_int_def int_of_def dict_of_def)
qed

lemma restore_saved_history: "history_ok s \<Longrightarrow> restore_anthropic_history (opt_val id (anthropic_history s)) (messages s) = anthropic_history s"
  by (auto simp: history_ok_def restore_anthropic_history_def opt_val_def get_def)

lemma restore_saved_queue:
  "queue_ok s \<Longrightarrow> restore_queued_external_user_turn (opt_val VDict (pending_external_user_turn s)) (messages s) = pending_external_user_turn s"
  by (auto simp: queue_ok_def restore_queued_external_user_turn_def opt_val_def get_def)

lemma settle_at_rest:
  assumes "p = IDLE \<or> is_terminal p" and "pending_events s = []" and "open_tool_call_ids h (messages s) = []"
  shows "settle_interrupted h now raw p start s = Inr (s\<lparr>phase := p\<rparr>)"
proof -
  have "p \<noteq> AWAITING_EVENTS" "(if is_terminal p then p else IDLE) = p" using assms(1) by (auto simp: is_terminal_def)
  then show ?thesis
    using assms
    by (simp add: settle_interrupted_def set_phase_def close_interrupted_def is_empty_def append_restore_results_def ordered_results_def
        clear_def Let_def)
qed

text \<open>
  C31. Saving and restoring a session between two turns loses nothing: messages, timestamps, counters,
  the enforcement window with its permissions and owners, the reported outcome, queued messages and the
  provider view all come back, whatever the process that restores had before.
\<close>

theorem snapshot_roundtrip:
  assumes "resting h s" and "snapshot_for_save now rc role model run_id s = (ms, snap)"
  shows "restore h now' old ms snap = Inr s"
proof -
  note r = assms(1) [unfolded resting_def]
  let ?raw = "saved_state rc s"
  have raw: "get snap ''session_state'' = VDict ?raw"
    using assms(2) r by (auto simp: snapshot_for_save_def enriched_messages_def align_timestamps_def get_def split: option.splits)
  have base: "restored_base now' old ms snap = (new_session now' [])\<lparr>aid := aid s, messages := messages s,
     message_timestamps := message_timestamps s, pending_user_messages := pending_user_messages s\<rparr>"
    using restore_stamped [OF _ _ assms(2)] r by blast
  let ?s1 = "s\<lparr>phase := IDLE, terminal_reason := None, completed_turn_start_message_index := None\<rparr>"
  have fields: "restore_fields h ?raw (restored_base now' old ms snap) = Inr ?s1"
    unfolding base restore_fields_def
    using r by (simp add: restore_saved_turn saved_fields Let_def lift_row_def restore_saved_history restore_saved_queue
        new_session_def align_timestamps_def)
  have start: "restore_active_turn_start (get ?raw ''active_turn_start_message_index'') (messages (restored_base now' old ms snap)) = None"
    using r by (simp add: saved_fields opt_val_def restore_active_turn_start_def)
  have awake: "phase s \<noteq> AWAITING_EVENTS" using r by (auto simp: is_terminal_def)
  have settle: "settle_interrupted h now' ?raw (phase s) None ?s1 = Inr (?s1\<lparr>phase := phase s\<rparr>)"
    using r by (intro settle_at_rest) auto
  have no_submission: "(case get ?raw ''submitted_summary'' of VStr t \<Rightarrow> Some t | _ \<Rightarrow> None) = None"
    using r by (simp add: saved_fields opt_val_def)
  have reason: "(if is_terminal (phase s) \<and> get ?raw ''terminal_reason'' \<noteq> VNone
      then Some (text_of h (get ?raw ''terminal_reason'')) else None) = terminal_reason s"
    using r by (cases "terminal_reason s") (auto simp: saved_fields opt_val_def is_terminal_def)
  have turn_start: "(case restore_active_turn_start (get ?raw ''completed_turn_start_message_index'') (messages s) of
      Some i \<Rightarrow> Some i | None \<Rightarrow> None) = completed_turn_start_message_index s"
    using r by (auto simp: saved_fields opt_val_def restore_active_turn_start_def split: option.splits)
  have finish: "finish_restore h now' ?raw (phase s) None (s\<lparr>terminal_reason := None, completed_turn_start_message_index := None\<rparr>) = s"
    using r awake turn_start
    by (auto simp: finish_restore_def Let_def no_submission keep_submission_def reason split: option.splits
        intro!: SessionState.equality)
  show ?thesis
    using awake
    by (simp add: restore_def raw Let_def fields normalize_interrupted_def saved_fields restore_phase_str
        start [unfolded saved_fields] settle finish)
qed

text \<open>A finished session.\<close>

definition demo_session :: SessionState where
  "demo_session = (append_message ''t2'' [(''role'', VStr ''assistant''), (''content'', VStr ''done'')]
     (new_session ''t1'' [[(''role'', VStr ''user''), (''content'', VStr ''go'')]]))
     \<lparr>used_tokens := 90, step_count := 1, phase := DONE, terminal_reason := Some ''completed'',
      completed_turn_start_message_index := Some 1\<rparr>"

lemma demo_resting: "resting demo_host demo_session"
  by (simp add: resting_def demo_session_def new_session_def align_timestamps_def append_message_def is_terminal_def turn_ok_def
      fresh_turn_def empty_loops_def history_ok_def queue_ok_def open_tool_call_ids_def open_step_def message_call_ids_def get_def
      loop_ok_def ops_ok_def)

theorem snapshot_roundtrip_witness:
  "\<exists>ms snap. snapshot_for_save ''t'' \<lparr>rc_step = 0, rc_prefix = [], rc_results = []\<rparr> ''agent'' VNone None demo_session = (ms, snap) \<and>
     restore demo_host ''u'' 7 ms snap = Inr demo_session"
proof -
  obtain ms snap where saved: "snapshot_for_save ''t'' \<lparr>rc_step = 0, rc_prefix = [], rc_results = []\<rparr> ''agent'' VNone None demo_session = (ms, snap)"
    by fastforce
  from snapshot_roundtrip [OF demo_resting saved] saved show ?thesis by blast
qed

end
