(* ===== verification/Session_Recovery.thy ===== *)
theory Session_Recovery
  imports Session_Snapshot Run_Protocol "HOL-Library.Sublist"
begin

text \<open>
  Interrupted turns.  A turn that is cancelled, that fails, or whose process dies while a batch runs
  leaves tool calls without results.  The lemmas show that closing the exchange, or restoring a
  snapshot taken at any such moment, gives a session from which the turn driver may start again.
\<close>

section \<open>Open calls of a well-paired transcript\<close>

lemma dict_of_as_dict: "dict_of = as_dict"
  by (rule ext) (simp add: dict_of_def as_dict_def)

lemma usable_text: "usable_id v \<Longrightarrow> VStr (text_of h v) = v \<and> truthy v"
  by (cases v) (auto simp: usable_id_def is_str_def text_of_def)

lemma usable_dict: "usable_id (get (as_dict c) k) \<Longrightarrow> is_dict c"
  by (cases c) (auto simp: usable_id_def is_str_def as_dict_def get_def is_dict_def)

lemma message_ids:
  assumes "list_all usable_id (call_ids m)"
  shows "map VStr (message_call_ids h m) = call_ids m"
proof (cases "get m ''tool_calls''")
  case (VList calls)
  then have ids: "call_ids m = map (\<lambda>c. get (as_dict c) ''id'') calls" by (simp add: call_ids_def calls_of_def comp_def)
  then have ok: "usable_id (get (as_dict c) ''id'')" if "c \<in> set calls" for c using assms that by (simp add: list_all_iff)
  then have "filter (\<lambda>c. is_dict c \<and> truthy (get (dict_of c) ''id'')) calls = calls"
    using usable_dict usable_text by (fastforce simp: filter_id_conv dict_of_as_dict)
  then show ?thesis using ok usable_text by (auto simp: message_call_ids_def VList ids dict_of_as_dict)
qed (simp_all add: message_call_ids_def call_ids_def calls_of_def)

lemma open_append: "open_tool_call_ids h (xs @ ys) = foldl (open_step h) (open_tool_call_ids h xs) ys"
  by (simp add: open_tool_call_ids_def)

lemma foldl_remove_all:
  assumes "distinct ids" and "distinct xs" and "set xs = set ids"
  shows "foldl (\<lambda>ids c. remove1 c ids) ids xs = []"
proof -
  have "set (foldl (\<lambda>ids c. remove1 c ids) ids xs) = set ids - set xs" if "distinct ids" for ids
    using that by (induction xs arbitrary: ids) (auto simp: distinct_remove1)
  then have "set (foldl (\<lambda>ids c. remove1 c ids) ids xs) = {}" using assms by simp
  then show ?thesis by simp
qed

lemma open_results:
  assumes "list_all is_tool_msg rs" and "list_all usable_id (result_ids rs)"
  shows "foldl (open_step h) ids rs = foldl (\<lambda>ids c. remove1 c ids) ids (map (\<lambda>r. text_of h (get r ''tool_call_id'')) rs)"
  using assms
proof (induction rs arbitrary: ids)
  case (Cons r rs)
  have "get r ''tool_call_id'' \<noteq> VNone" using Cons.prems(2) by (auto simp: result_ids_def usable_id_def is_str_def)
  then show ?case using Cons by (simp add: open_step_def is_tool_msg_def result_ids_def)
qed simp

lemma open_exchange:
  assumes "is_leader m" and "list_all is_tool_msg rs" and "ids_ok (call_ids m)" and "ids_ok (result_ids rs)"
    and "set (call_ids m) = set (result_ids rs)"
  shows "foldl (open_step h) [] (m # rs) = []"
proof -
  let ?texts = "map (\<lambda>r. text_of h (get r ''tool_call_id'')) rs"
  have calls: "map VStr (message_call_ids h m) = call_ids m" using assms(3) by (intro message_ids) (simp add: ids_ok_def)
  have results: "map VStr ?texts = result_ids rs"
    using assms(4) usable_text by (auto simp: ids_ok_def result_ids_def list_all_iff)
  have "distinct (map VStr (message_call_ids h m))" "distinct (map VStr ?texts)" using assms(3,4) calls results by (simp_all add: ids_ok_def)
  then have d: "distinct (message_call_ids h m)" "distinct ?texts" by (simp_all only: distinct_map)
  have "VStr ` set (message_call_ids h m) = VStr ` set ?texts"
    using assms(5) calls results by (metis list.set_map)
  moreover have "inj VStr" by (simp add: inj_def)
  ultimately have "set ?texts = set (message_call_ids h m)" by (metis inj_image_eq_iff)
  then have done_ids: "foldl (\<lambda>ids c. remove1 c ids) (message_call_ids h m) ?texts = []" by (rule foldl_remove_all [OF d])
  have "get m ''role'' = VStr ''assistant''" using assms(1) by (simp add: is_leader_def)
  then have "open_step h [] m = message_call_ids h m" by (simp add: open_step_def)
  moreover have "foldl (open_step h) (message_call_ids h m) rs = foldl (\<lambda>ids c. remove1 c ids) (message_call_ids h m) ?texts"
    using assms(4) by (intro open_results [OF assms(2)]) (simp add: ids_ok_def)
  ultimately show ?thesis using done_ids by simp
qed

lemma open_group:
  assumes "span_is_safe_to_compact g" and "group_ok g"
  shows "foldl (open_step h) [] g = []"
proof (cases g)
  case (Cons m rs)
  have safe: "\<not> is_tool_msg m" "is_leader m \<longrightarrow> is_complete_tool_exchange g"
    using assms(1) by (auto simp: span_is_safe_to_compact_def Cons split: if_splits)
  show ?thesis
  proof (cases "is_leader m")
    case True
    then have rs: "list_all is_tool_msg rs" using assms(2) by (simp add: group_ok_def Cons)
    then have "filter is_tool_msg rs = rs" by (simp add: list_all_iff filter_id_conv)
    then show ?thesis
      using safe(2) True open_exchange [OF True rs, of h] by (simp add: is_complete_tool_exchange_def Cons Let_def)
  next
    case False
    then have "rs = []" using assms(2) by (simp add: group_ok_def Cons)
    moreover have "open_step h [] m = []"
      using False safe(1) by (auto simp: open_step_def is_tool_msg_def is_leader_def message_call_ids_def split: pyval.splits)
    ultimately show ?thesis by (simp add: Cons)
  qed
qed simp

lemma open_paired: "paired ms \<Longrightarrow> open_tool_call_ids h ms = []"
proof -
  assume p: "paired ms"
  have "chained gs \<Longrightarrow> list_all span_is_safe_to_compact gs \<Longrightarrow> foldl (open_step h) [] (concat gs) = []" for gs
    by (induction gs) (auto simp: open_group)
  from this [OF chained_groups p [unfolded paired_def]] show ?thesis by (simp add: open_tool_call_ids_def concat_groups)
qed

section \<open>Interrupted sessions\<close>

text \<open>The last message is \<open>a\<close>, its calls are open, and the rows stand for some of them.\<close>

definition unsettled :: "message list \<Rightarrow> message \<Rightarrow> SessionState \<Rightarrow> bool" where
  "unsettled h a s =
     (messages s = h @ [a] \<and> paired h \<and> is_leader a \<and> ids_ok (call_ids a) \<and> call_ids a \<noteq> [] \<and> table_ok (pending_events s) \<and>
      VStr ` keys (pending_events s) \<subseteq> set (call_ids a) \<and> anthropic_history s = None)"

definition settled_state :: "SessionState \<Rightarrow> bool" where
  "settled_state s = (paired (messages s) \<and> pending_events s = [] \<and> anthropic_history s = None)"

definition waiting_state :: "SessionState \<Rightarrow> bool" where
  "waiting_state s = (\<exists>h a. unsettled h a s \<and> VStr ` keys (pending_events s) = set (call_ids a))"

text \<open>Any moment of a turn, and a moment from which a turn may start.\<close>

definition suspended :: "SessionState \<Rightarrow> bool" where
  "suspended s = (settled_state s \<or> (\<exists>h a. unsettled h a s))"

definition startable :: "SessionState \<Rightarrow> bool" where
  "startable s = (phase s \<in> {IDLE, DONE, ERROR, STOPPED, AWAITING_EVENTS} \<and> (settled_state s \<or> waiting_state s))"

lemma startable_at_rest:
  "startable (run_state r) \<Longrightarrow> list_all (\<lambda>q. paired (rq_messages q)) (sent r) \<Longrightarrow> at_rest r"
  by (auto simp: startable_def at_rest_def settled_state_def waiting_state_def unsettled_def closed_in_def waiting_def)

lemma unsettled_open:
  assumes "unsettled h a s"
  shows "open_tool_call_ids H (messages s) = message_call_ids H a" and "map VStr (message_call_ids H a) = call_ids a"
    and "distinct (message_call_ids H a)"
proof -
  have u: "messages s = h @ [a]" "paired h" "is_leader a" "ids_ok (call_ids a)" using assms by (simp_all add: unsettled_def)
  show ids: "map VStr (message_call_ids H a) = call_ids a" using u(4) by (intro message_ids) (simp add: ids_ok_def)
  have "distinct (map VStr (message_call_ids H a))" unfolding ids using u(4) by (simp add: ids_ok_def)
  then show "distinct (message_call_ids H a)" by (simp only: distinct_map)
  have "get a ''role'' = VStr ''assistant''" using u(3) by (simp add: is_leader_def)
  then show "open_tool_call_ids H (messages s) = message_call_ids H a"
    using open_paired [OF u(2), of H] by (simp add: u(1) open_step_def)
qed

text \<open>One result per call closes the exchange.\<close>

lemma results_close:
  assumes "unsettled h a s" and "list_all is_tool_msg rs" and "result_ids rs = map VStr cs" and "distinct cs"
    and "set cs = set (message_call_ids H a)"
  shows "paired (messages s @ rs)"
proof -
  have "set (result_ids rs) = VStr ` set (message_call_ids H a)" using assms(3,5) by simp
  also have "\<dots> = set (call_ids a)" using unsettled_open(2) [OF assms(1)] by (metis list.set_map)
  finally have ids: "set (result_ids rs) = set (call_ids a)" .
  have "distinct (result_ids rs)" unfolding assms(3) using assms(4) by (simp add: distinct_map inj_on_def)
  then have "paired (h @ a # rs)"
    using assms(1,2) ids by (intro paired_exchange) (simp_all add: unsettled_def)
  then show ?thesis using assms(1) by (simp add: unsettled_def)
qed

lemma tool_result_simps [simp]: "is_tool_msg (tool_result c t)" "get (tool_result c t) ''tool_call_id'' = VStr c"
  by (simp_all add: tool_result_def is_tool_msg_def get_def)

lemma enumerated_results:
  assumes "length rs = length cs"
  shows "list_all is_tool_msg (map2 (\<lambda>(i, c) t. tool_result c t) (List.enumerate k cs) rs) \<and>
    result_ids (map2 (\<lambda>(i, c) t. tool_result c t) (List.enumerate k cs) rs) = map VStr cs"
  using assms by (induction cs rs arbitrary: k rule: list_induct2') (auto simp: result_ids_def)

lemma append_all_settles:
  assumes "suspended s" and "append_restore_results H now content None completed s = Inr s'" and "pending_events s = []"
  shows "settled_state s' \<and> phase s' = phase s"
proof (rule append_all_closes [of H now content completed s])
  fix rs ts
  assume app: "append_restore_results H now content None completed s =
      Inr (s\<lparr>messages := messages s @ map2 (\<lambda>(i, c) t. tool_result c t) (List.enumerate 0 (open_tool_call_ids H (messages s))) rs,
             message_timestamps := ts\<rparr>)"
    and len: "length rs = length (open_tool_call_ids H (messages s))"
  have "paired (messages s @ map2 (\<lambda>(i, c) t. tool_result c t) (List.enumerate 0 (open_tool_call_ids H (messages s))) rs)"
  proof (cases "settled_state s")
    case True
    then show ?thesis using open_paired [of "messages s" H] by (simp add: settled_state_def)
  next
    case False
    then obtain h a where u: "unsettled h a s" using assms(1) by (auto simp: suspended_def)
    show ?thesis
      using enumerated_results [OF len, of 0] unsettled_open [OF u, of H] by (intro results_close [OF u, where H = H]) simp_all
  qed
  then show ?thesis
    using app assms by (auto simp: settled_state_def suspended_def unsettled_def)
qed

lemma append_all_ok: "\<exists>s'. append_restore_results H now content None completed s = Inr s'"
  by (rule append_all_closes [of H now content completed s]) blast

text \<open>Excluding nothing while no row is kept is the same as appending everything.\<close>

lemma exclude_none:
  "pending_events s = [] \<Longrightarrow>
   append_restore_loop now content (Some {}) receipts calls s = append_restore_loop now content None receipts calls s"
  by (induction calls arbitrary: s) (auto simp: is_empty_def append_message_def)

lemma add_rows:
  assumes "table_ok (pending_events s)" and "pending_events s \<noteq> []" and "distinct (map snd calls)"
    and "\<forall>c \<in> snd ` set calls. c \<in> xs \<or> c \<notin> keys (pending_events s)" and "xs \<subseteq> keys (pending_events s)"
  shows "\<exists>t. append_restore_loop now content (Some xs) receipts calls s = Inr (s\<lparr>pending_events := t\<rparr>) \<and> table_ok t \<and>
    keys t = keys (pending_events s) \<union> snd ` set calls \<and> (no_pending (pending_events s) \<longrightarrow> no_pending t)"
  using assms
proof (induction calls arbitrary: s)
  case Nil
  then show ?case by (intro exI [of _ "pending_events s"]) simp
next
  case (Cons p calls)
  obtain i c where p: "p = (i, c)" by (cases p)
  show ?case
  proof (cases "c \<in> xs")
    case True
    then obtain t where t: "append_restore_loop now content (Some xs) receipts calls s = Inr (s\<lparr>pending_events := t\<rparr>)" "table_ok t"
      "keys t = keys (pending_events s) \<union> snd ` set calls" "no_pending (pending_events s) \<longrightarrow> no_pending t"
      using Cons.IH [of s] Cons.prems by (auto simp: p)
    have same: "keys (pending_events s) \<union> snd ` set calls = keys (pending_events s) \<union> snd ` set (p # calls)"
    proof -
      have "c \<in> keys (pending_events s)" using True Cons.prems(5) by blast
      then show ?thesis unfolding p list.set image_insert snd_conv by blast
    qed
    have "append_restore_loop now content (Some xs) receipts (p # calls) s = Inr (s\<lparr>pending_events := t\<rparr>)"
      using True t(1) by (simp add: p)
    then show ?thesis using t(2,4) t(3) [unfolded same] by blast
  next
    case False
    let ?row = "case map_of receipts c of
                    Some t \<Rightarrow> (failed_row IMMEDIATE c (int i) t)\<lparr>row_status := RowStatus.DONE, row_error := None\<rparr>
                  | None \<Rightarrow> failed_row IMMEDIATE c (int i) content"
    have row: "tool_call_id ?row = c" "row_status ?row \<noteq> PENDING" by (simp_all add: failed_row_def split: option.split)
    have fresh: "c \<notin> keys (pending_events s)" using Cons.prems(4) False by (simp add: p)
    then obtain t1 where t1: "add (pending_events s) ?row = Inr t1" "table_ok t1" "keys t1 = insert c (keys (pending_events s))"
      using fresh_add [OF Cons.prems(1), of ?row] row(1) by metis
    have ne: "t1 \<noteq> []" using t1(3) by auto
    have rest: "\<forall>d \<in> snd ` set calls. d \<in> xs \<or> d \<notin> keys t1"
    proof
      fix d
      assume d: "d \<in> snd ` set calls"
      then have "d \<noteq> c" using Cons.prems(3) by (auto simp: p)
      moreover have "d \<in> xs \<or> d \<notin> keys (pending_events s)" using d Cons.prems(4) by auto
      ultimately show "d \<in> xs \<or> d \<notin> keys t1" unfolding t1(3) by blast
    qed
    have "xs \<subseteq> keys t1" using Cons.prems(5) t1(3) by blast
    then obtain t where t: "append_restore_loop now content (Some xs) receipts calls (s\<lparr>pending_events := t1\<rparr>) = Inr (s\<lparr>pending_events := t\<rparr>)"
      "table_ok t" "keys t = keys t1 \<union> snd ` set calls" "no_pending t1 \<longrightarrow> no_pending t"
      using Cons.IH [of "s\<lparr>pending_events := t1\<rparr>"] Cons.prems(3) t1(2) ne rest by auto
    have "no_pending (pending_events s) \<longrightarrow> no_pending t" using t(4) add_no_pending [OF _ t1(1) row(2)] by blast
    moreover have "append_restore_loop now content (Some xs) receipts (p # calls) s = Inr (s\<lparr>pending_events := t\<rparr>)"
      using False Cons.prems(2) t1(1) t(1) by (simp add: p is_empty_def lift_row_def)
    moreover have "keys t = keys (pending_events s) \<union> snd ` set (p # calls)" unfolding t(3) t1(3) by (auto simp: p simp del: set_map)
    ultimately show ?thesis using t(2) by blast
  qed
qed

text \<open>Closing around the kept rows: the open calls without a row get one, or all get a message.\<close>

lemma close_excluding:
  assumes "suspended s"
  obtains s' where "append_restore_results H now content (Some (keys (pending_events s))) completed s = Inr s'"
    and "phase s' = phase s" and "settled_state s' \<or> (\<exists>h a. unsettled h a s' \<and> unsettled h a s \<and>
           VStr ` keys (pending_events s') = set (call_ids a) \<and> keys (pending_events s') = set (message_call_ids H a))"
proof (cases "settled_state s")
  case True
  then have "append_restore_results H now content (Some (keys (pending_events s))) completed s = Inr s"
    using open_paired [of "messages s" H] by (simp add: append_restore_results_def settled_state_def)
  then show thesis using that [of s] True by simp
next
  case False
  then obtain h a where u: "unsettled h a s" using assms by (auto simp: suspended_def)
  note ids = unsettled_open [OF u, of H]
  show thesis
  proof (cases "pending_events s = []")
    case True
    then have same: "append_restore_results H now content (Some (keys (pending_events s))) completed s =
        append_restore_results H now content None completed s"
      by (simp add: append_restore_results_def exclude_none)
    obtain s' where s': "append_restore_results H now content None completed s = Inr s'" using append_all_ok by blast
    from append_all_settles [OF assms s' True] show thesis using that [of s'] s' same by simp
  next
    case False
    let ?calls = "List.enumerate 0 (open_tool_call_ids H (messages s))"
    have names: "map snd ?calls = message_call_ids H a" by (simp add: ids(1))
    have calls: "snd ` set ?calls = set (message_call_ids H a)" by (metis names list.set_map)
    have table: "table_ok (pending_events s)" using u by (simp add: unsettled_def)
    have distinct: "distinct (map snd ?calls)" unfolding names by (rule ids(3))
    have either: "\<forall>c \<in> snd ` set ?calls. c \<in> keys (pending_events s) \<or> c \<notin> keys (pending_events s)" by blast
    obtain t where t: "append_restore_loop now content (Some (keys (pending_events s))) (receipts_of completed) ?calls s =
        Inr (s\<lparr>pending_events := t\<rparr>)" "table_ok t" "keys t = keys (pending_events s) \<union> snd ` set ?calls"
      using add_rows [OF table False distinct either subset_refl] by blast
    have sub: "VStr ` keys (pending_events s) \<subseteq> VStr ` set (message_call_ids H a)"
      using u ids(2) unfolding unsettled_def by (metis list.set_map)
    then have "keys (pending_events s) \<subseteq> set (message_call_ids H a)" by (auto simp del: set_map)
    then have keys': "keys t = set (message_call_ids H a)" unfolding t(3) calls by blast
    then have all: "VStr ` keys t = set (call_ids a)" using ids(2) by (metis list.set_map)
    let ?s = "s\<lparr>pending_events := t\<rparr>"
    have "unsettled h a ?s" using u t(2) all unfolding unsettled_def by simp
    then show thesis
      using that [of ?s] t(1) u all keys' by (auto simp: append_restore_results_def)
  qed
qed

definition idle_or_ended :: "SessionPhase \<Rightarrow> bool" where
  "idle_or_ended p = (p = IDLE \<or> is_terminal p)"

lemma excluded_startable:
  assumes "suspended s" and "idle_or_ended (phase s)"
  shows "\<exists>s'. append_restore_results H now content (Some (keys (pending_events s))) completed s = Inr s' \<and> startable s'"
proof (rule close_excluding [OF assms(1), of H now content completed])
  fix s'
  assume "append_restore_results H now content (Some (keys (pending_events s))) completed s = Inr s'" and "phase s' = phase s"
    and "settled_state s' \<or> (\<exists>h a. unsettled h a s' \<and> unsettled h a s \<and>
           VStr ` keys (pending_events s') = set (call_ids a) \<and> keys (pending_events s') = set (message_call_ids H a))"
  then show ?thesis
    using assms(2) by (auto simp: startable_def waiting_state_def idle_or_ended_def is_terminal_def)
qed

text \<open>
  C5. An interrupted turn does not break the session.  Take the session at any moment of a turn - all
  exchanges closed, or the last message's calls open with rows for some of them.  If the task is
  cancelled, or if the turn has failed, closing the open calls succeeds, and from the session that is
  left the turn driver may start again: either every call is answered and nothing pends, or exactly the
  open calls have rows.
\<close>

theorem interrupted_turn_startable:
  assumes "suspended s"
  shows "(\<exists>s'. cancelled_turn H now rc s = Inr s' \<and> startable s') \<and>
    (is_terminal (phase s) \<longrightarrow> (\<exists>s'. close_failed_tool_exchange H now rc s = Inr s' \<and> startable s'))"
proof -
  let ?s1 = "if is_terminal (phase s) then s else cancel None s"
  have "suspended ?s1" and "idle_or_ended (phase ?s1)"
    using assms by (auto simp: suspended_def settled_state_def unsettled_def cancel_def idle_or_ended_def is_terminal_def)
  then have "\<exists>s'. cancelled_turn H now rc s = Inr s' \<and> startable s'"
    unfolding cancelled_turn_def Let_def by (rule excluded_startable)
  moreover have "\<exists>s'. close_failed_tool_exchange H now rc s = Inr s' \<and> startable s'" if ended: "is_terminal (phase s)"
  proof -
    have "suspended (release_interrupted_loop_owners ids s)" "idle_or_ended (phase (release_interrupted_loop_owners ids s))"
      "keys (pending_events (release_interrupted_loop_owners ids s)) = keys (pending_events s)" for ids
      using assms ended
      by (auto simp: suspended_def settled_state_def unsettled_def release_interrupted_loop_owners_def idle_or_ended_def)
    note ok = this
    show ?thesis
      unfolding close_failed_tool_exchange_def Let_def
      by (subst ok(3) [symmetric]) (rule excluded_startable [OF ok(1,2)])
  qed
  ultimately show ?thesis by blast
qed

section \<open>Restoring a session that was cut off\<close>

lemma restore_row_saved:
  "\<exists>row'. restore_pending_row H (VDict (serialize_pending_row row)) = Some row' \<and> tool_call_id row' = tool_call_id row"
  by (cases "row_kind row"; cases "row_status row")
    (simp_all add: restore_pending_row_def serialize_pending_row_def get_def get_or_def int_of_def Let_def)

lemma restore_rows_saved:
  assumes "table_ok acc" and "dict_ok (acc @ t)" and "list_all (\<lambda>(k, row). tool_call_id row = k) t"
  shows "\<exists>t'. restore_rows H (map (\<lambda>(_, row). VDict (serialize_pending_row row)) t) acc = Inr t' \<and> table_ok t' \<and>
    keys t' = keys acc \<union> keys t"
  using assms
proof (induction t arbitrary: acc)
  case (Cons p t)
  obtain k row where p: "p = (k, row)" by (cases p)
  obtain row' where row': "restore_pending_row H (VDict (serialize_pending_row row)) = Some row'" "tool_call_id row' = k"
    using restore_row_saved [of H row] Cons.prems(3) by (auto simp: p)
  have "tool_call_id row' \<notin> keys acc" using Cons.prems(2) row'(2) by (auto simp: p)
  then obtain acc' where acc': "add acc row' = Inr acc'" "table_ok acc'" "keys acc' = insert k (keys acc)"
    using fresh_add [OF Cons.prems(1)] row'(2) by metis
  have new: "acc' = acc @ [(k, row')]"
    using acc'(1) row'(2) \<open>tool_call_id row' \<notin> keys acc\<close> by (auto simp: add_def update_new)
  have "dict_ok (acc' @ t)" using Cons.prems(2) by (simp add: new p)
  then obtain t' where t': "restore_rows H (map (\<lambda>(_, row). VDict (serialize_pending_row row)) t) acc' = Inr t'" "table_ok t'"
    "keys t' = keys acc' \<union> keys t"
    using Cons.IH [OF acc'(2)] Cons.prems(3) by auto
  have "keys t' = keys acc \<union> keys (p # t)" unfolding t'(3) acc'(3) p list.set image_insert fst_conv by blast
  moreover have "restore_rows H (map (\<lambda>(_, row). VDict (serialize_pending_row row)) (p # t)) acc = Inr t'"
    using row'(1) acc'(1) t'(1) by (simp add: p)
  ultimately show ?case using t'(2) by blast
qed simp

lemma saved_operations_ok:
  "length acc + length ops \<le> MAX_OPERATIONS \<Longrightarrow>
   \<exists>l. restore_operations active e (map (\<lambda>(k, op). (k, operation_to_dict op)) ops) acc = Inr l"
proof (induction ops arbitrary: acc)
  case (Cons p ops)
  obtain k op where p: "p = (k, op)" by (cases p)
  obtain v where v: "operation_to_dict op = VDict v" by (simp add: operation_to_dict_def)
  have "length (AList.update k x acc) + length ops \<le> MAX_OPERATIONS" for x
    using Cons.prems by (cases "k \<in> keys acc") (simp_all add: length_update_old update_new)
  then have "\<exists>l. restore_operations active e (map (\<lambda>(k, op). (k, operation_to_dict op)) ops) (AList.update k x acc) = Inr l" for x
    by (rule Cons.IH)
  moreover have "\<exists>l. restore_operations active e (map (\<lambda>(k, op). (k, operation_to_dict op)) ops) acc = Inr l"
    using Cons.prems by (intro Cons.IH) simp
  ultimately show ?case using Cons.prems by (simp add: p v Let_def split: option.split)
qed simp

text \<open>What a save must find: aligned timestamps, and at most as many operations as the gate keeps.\<close>

definition savable :: "SessionState \<Rightarrow> bool" where
  "savable s =
     (length (message_timestamps s) = length (messages s) \<and> list_all (\<lambda>m. dict_ok m \<and> ''timestamp'' \<notin> keys m) (messages s) \<and>
      length (operations (loop_state (turn s))) \<le> MAX_OPERATIONS)"

lemma restored_fields:
  assumes "savable s" and "suspended s" and "messages b = messages s"
  shows "\<exists>s1. restore_fields H (saved_state rc s) b = Inr s1 \<and> messages s1 = messages s \<and> suspended s1 \<and> no_pending (pending_events s1)"
proof -
  have table: "table_ok (pending_events s)" using assms(2) by (auto simp: suspended_def settled_state_def unsettled_def)
  obtain t where t: "restore_rows H (map (\<lambda>(_, row). VDict (serialize_pending_row row)) (pending_events s)) [] = Inr t" "table_ok t"
    "keys t = keys (pending_events s)"
    using restore_rows_saved [of "[]" "pending_events s" H] table by (auto simp: table_ok_def)
  have settled: "no_pending t" using restore_rows_settled [OF t(1)] by simp
  obtain u where u: "restore_turn H (saved_state rc s) = Inr u"
  proof -
    let ?l = "loop_state (turn s)" and ?ks = "Some (set (recent_call_hashes (turn s)))"
    obtain l where "restore_operations ?ks (nonnegative_int (VInt (edit_seq ?l)) 0) (map (\<lambda>(k, op). (k, operation_to_dict op)) (operations ?l)) [] = Inr l"
      using assms(1) saved_operations_ok [of "[]" "operations ?l" ?ks] by (auto simp: savable_def)
    then have "\<exists>l. from_dict (to_dict ?l) v ?ks = Inr l" for v by (simp add: from_dict_def to_dict_def get_def Let_def)
    then obtain l where "from_dict (to_dict ?l) (VInt (snapshot_nonnegative_int (VInt (loop_blocked_since_progress (turn s))))) ?ks = Inr l"
      by blast
    then show thesis using that by (simp add: restore_turn_def saved_fields Let_def)
  qed
  have history: "anthropic_history s = None" using assms(2) by (auto simp: suspended_def settled_state_def unsettled_def)
  have noh: "restore_anthropic_history VNone ms = None" for ms by (simp add: restore_anthropic_history_def)
  obtain s1 where s1: "restore_fields H (saved_state rc s) b = Inr s1" "messages s1 = messages s" "pending_events s1 = t"
    "anthropic_history s1 = None"
    by (simp add: restore_fields_def u saved_fields t(1) lift_row_def Let_def history opt_val_def noh assms(3))
  have "suspended s1"
  proof (cases "settled_state s")
    case True
    then have "keys t = {}" using t(3) by (simp add: settled_state_def)
    then have "t = []" by simp
    then show ?thesis using True s1(2-4) by (simp add: suspended_def settled_state_def)
  next
    case False
    then obtain h a where "unsettled h a s" using assms(2) by (auto simp: suspended_def)
    then have "unsettled h a s1" using s1(2-4) t(2,3) unfolding unsettled_def by metis
    then show ?thesis by (auto simp: suspended_def)
  qed
  then show ?thesis using s1 settled by blast
qed

lemma fold_results_eq:
  assumes "\<forall>m \<in> set ms. tm_call_id m \<in> xs"
  shows "\<exists>ts. foldl (\<lambda>s m. if tm_call_id m \<in> xs then append_message now (tool_result (tm_call_id m) (tm_content m)) s else s) s ms =
    s\<lparr>messages := messages s @ map (\<lambda>m. tool_result (tm_call_id m) (tm_content m)) ms, message_timestamps := ts\<rparr>"
  using assms
proof (induction ms arbitrary: s)
  case Nil
  then show ?case by (intro exI [of _ "message_timestamps s"]) simp
next
  case (Cons m ms)
  let ?s = "append_message now (tool_result (tm_call_id m) (tm_content m)) s"
  obtain ts where "foldl (\<lambda>s m. if tm_call_id m \<in> xs then append_message now (tool_result (tm_call_id m) (tm_content m)) s else s) ?s ms =
      ?s\<lparr>messages := messages ?s @ map (\<lambda>m. tool_result (tm_call_id m) (tm_content m)) ms, message_timestamps := ts\<rparr>"
    using Cons.IH [of ?s] Cons.prems by auto
  then show ?case using Cons.prems by (intro exI [of _ ts]) (simp add: append_message_def)
qed

text \<open>A drained table answers exactly the calls it has rows for.\<close>

lemma drained_ids:
  assumes "table_ok t"
  shows "distinct (map tm_call_id (ordered_results t)) \<and> set (map tm_call_id (ordered_results t)) = keys t"
proof -
  have m: "mset (map tm_call_id (ordered_results t)) = mset (map fst t)" using assms by (rule ordered_results_ids)
  have "distinct (map fst t)" using assms by (simp add: table_ok_def)
  then show ?thesis using mset_eq_imp_distinct_iff [OF m] mset_eq_setD [OF m] by simp
qed

lemma close_interrupted_settles:
  assumes "suspended s"
  obtains s' where "close_interrupted H now raw s = Inr s'" and "settled_state s'" and "phase s' = phase s"
proof -
  define closing where "closing = (\<lambda>s1. let opened = set (open_tool_call_ids H (messages s1));
                s2 = foldl (\<lambda>s m. if tm_call_id m \<in> opened then append_message now (tool_result (tm_call_id m) (tm_content m)) s else s)
                       s1 (ordered_results (pending_events s1))
            in bnd (append_restore_results H now INTERRUPTED_BY_RESTORE None (get raw ''loop_checkpoint_results'') s2)
                 (\<lambda>s3. Inr (s3\<lparr>pending_events := clear (pending_events s3)\<rparr>)))"
  have close: "\<exists>s'. closing s1 = Inr s' \<and> settled_state s' \<and> phase s' = phase s1" if s1: "suspended s1" "pending_events s1 = []" for s1
  proof -
    obtain s' where s': "append_restore_results H now INTERRUPTED_BY_RESTORE None (get raw ''loop_checkpoint_results'') s1 = Inr s'"
      using append_all_ok by blast
    from append_all_settles [OF s1(1) s' s1(2)] show ?thesis
      using s' s1(2) by (auto simp: closing_def ordered_results_def settled_state_def clear_def)
  qed
  have drain: "\<exists>s'. closing s1 = Inr s' \<and> settled_state s' \<and> phase s' = phase s1"
    if u: "unsettled h a s1" and full: "keys (pending_events s1) = set (message_call_ids H a)" for h a s1
  proof -
    let ?ms = "ordered_results (pending_events s1)"
    have ids: "distinct (map tm_call_id ?ms)" "set (map tm_call_id ?ms) = set (message_call_ids H a)"
      using drained_ids [of "pending_events s1"] u full by (simp_all add: unsettled_def)
    have opened: "open_tool_call_ids H (messages s1) = message_call_ids H a" by (rule unsettled_open(1) [OF u])
    have known: "\<forall>m \<in> set ?ms. tm_call_id m \<in> set (message_call_ids H a)"
    proof
      fix m
      assume "m \<in> set ?ms"
      then have "tm_call_id m \<in> set (map tm_call_id ?ms)" by simp
      then show "tm_call_id m \<in> set (message_call_ids H a)" unfolding ids(2) .
    qed
    obtain ts where fold: "foldl (\<lambda>s m. if tm_call_id m \<in> set (open_tool_call_ids H (messages s1))
          then append_message now (tool_result (tm_call_id m) (tm_content m)) s else s) s1 ?ms =
        s1\<lparr>messages := messages s1 @ map (\<lambda>m. tool_result (tm_call_id m) (tm_content m)) ?ms, message_timestamps := ts\<rparr>"
      using fold_results_eq [OF known] unfolding opened by blast
    let ?s2 = "s1\<lparr>messages := messages s1 @ map (\<lambda>m. tool_result (tm_call_id m) (tm_content m)) ?ms, message_timestamps := ts\<rparr>"
    have "result_ids (map (\<lambda>m. tool_result (tm_call_id m) (tm_content m)) ?ms) = map VStr (map tm_call_id ?ms)"
      by (simp add: result_ids_def)
    then have p: "paired (messages ?s2)"
      using results_close [OF u, of "map (\<lambda>m. tool_result (tm_call_id m) (tm_content m)) ?ms" "map tm_call_id ?ms" H] ids
      by (simp add: list_all_iff)
    have "append_restore_results H now INTERRUPTED_BY_RESTORE None (get raw ''loop_checkpoint_results'') ?s2 = Inr ?s2"
      using open_paired [OF p, of H] by (simp add: append_restore_results_def)
    then have "closing s1 = Inr (?s2\<lparr>pending_events := []\<rparr>)"
      by (simp add: closing_def Let_def fold clear_def)
    then show ?thesis using p u by (auto simp: settled_state_def unsettled_def)
  qed
  show thesis
  proof (cases "pending_events s = []")
    case True
    then have "close_interrupted H now raw s = closing s" by (simp add: close_interrupted_def closing_def is_empty_def)
    then show thesis using close [OF assms True] that by metis
  next
    case False
    obtain s1 where s1: "append_restore_results H now INTERRUPTED_BY_RESTORE (Some (keys (pending_events s))) (get raw ''loop_checkpoint_results'') s = Inr s1"
      "phase s1 = phase s" "settled_state s1 \<or> (\<exists>h a. unsettled h a s1 \<and> unsettled h a s \<and>
           VStr ` keys (pending_events s1) = set (call_ids a) \<and> keys (pending_events s1) = set (message_call_ids H a))"
      using close_excluding [OF assms] by metis
    have "close_interrupted H now raw s = closing s1" using False s1(1) by (simp add: close_interrupted_def closing_def is_empty_def)
    moreover have "\<exists>s'. closing s1 = Inr s' \<and> settled_state s' \<and> phase s' = phase s1"
      using s1(3) close [of s1] drain by (auto simp: settled_state_def suspended_def)
    ultimately show thesis using that s1(2) by metis
  qed
qed

lemma add_missing_ok:
  assumes "table_ok t" and "distinct (map snd calls)" and "\<forall>c \<in> snd ` set calls. c \<in> xs \<or> c \<notin> keys t" and "xs \<subseteq> keys t"
  shows "\<exists>t'. add_missing xs calls t = Inr t' \<and> table_ok t' \<and> keys t' = keys t \<union> snd ` set calls"
  using assms
proof (induction xs calls t rule: add_missing.induct)
  case (2 xs i c calls t)
  show ?case
  proof (cases "c \<in> xs")
    case True
    then obtain t' where t': "add_missing xs calls t = Inr t'" "table_ok t'" "keys t' = keys t \<union> snd ` set calls"
      using "2.IH"(1) "2.prems" by auto
    have "c \<in> keys t" using True "2.prems"(4) by blast
    then have "keys t' = keys t \<union> snd ` set ((i, c) # calls)" unfolding t'(3) list.set image_insert snd_conv by blast
    then show ?thesis using True t'(1,2) by simp
  next
    case False
    let ?row = "failed_row CHILD_AGENT c (int i) MISSING_CHILD"
    have row: "tool_call_id ?row = c" by (simp add: failed_row_def)
    have "c \<notin> keys t" using False "2.prems"(3) by simp
    then obtain t1 where t1: "add t ?row = Inr t1" "table_ok t1" "keys t1 = insert c (keys t)"
      using fresh_add [OF "2.prems"(1), of ?row] row by metis
    have rest: "\<forall>d \<in> snd ` set calls. d \<in> xs \<or> d \<notin> keys t1"
    proof
      fix d
      assume d: "d \<in> snd ` set calls"
      then have "d \<noteq> c" using "2.prems"(2) by auto
      moreover have "d \<in> xs \<or> d \<notin> keys t" using d "2.prems"(3) by auto
      ultimately show "d \<in> xs \<or> d \<notin> keys t1" unfolding t1(3) by blast
    qed
    have sub: "xs \<subseteq> keys t1" using "2.prems"(4) t1(3) by blast
    have distinct: "distinct (map snd calls)" using "2.prems"(2) by simp
    from "2.IH"(2) [OF False t1(2) distinct rest sub]
    obtain t' where t': "add_missing xs calls t1 = Inr t'" "table_ok t'" "keys t' = keys t1 \<union> snd ` set calls" by blast
    have "keys t' = keys t \<union> snd ` set ((i, c) # calls)" unfolding t'(3) t1(3) list.set image_insert snd_conv by blast
    then show ?thesis using False t1(1) t'(1,2) by simp
  qed
qed simp

lemma complete_rows:
  assumes "suspended s"
  obtains t where "complete_missing_pending_rows H s = Inr (s\<lparr>pending_events := t\<rparr>)"
    and "settled_state s \<and> t = [] \<or> (\<exists>h a. unsettled h a (s\<lparr>pending_events := t\<rparr>) \<and> VStr ` keys t = set (call_ids a))"
proof (cases "settled_state s")
  case True
  then show thesis
    using that [of "[]"] open_paired [of "messages s" H]
    by (simp add: complete_missing_pending_rows_def settled_state_def lift_row_def)
next
  case False
  then obtain h a where u: "unsettled h a s" using assms by (auto simp: suspended_def)
  note ids = unsettled_open [OF u, of H]
  let ?calls = "List.enumerate 0 (open_tool_call_ids H (messages s))"
  have names: "map snd ?calls = message_call_ids H a" by (simp add: ids(1))
  have calls: "snd ` set ?calls = set (message_call_ids H a)" by (metis names list.set_map)
  have table: "table_ok (pending_events s)" using u by (simp add: unsettled_def)
  have distinct: "distinct (map snd ?calls)" unfolding names by (rule ids(3))
  have either: "\<forall>c \<in> snd ` set ?calls. c \<in> keys (pending_events s) \<or> c \<notin> keys (pending_events s)" by blast
  obtain t where t: "add_missing (keys (pending_events s)) ?calls (pending_events s) = Inr t" "table_ok t"
    "keys t = keys (pending_events s) \<union> snd ` set ?calls"
    using add_missing_ok [OF table distinct either subset_refl] by blast
  have sub: "VStr ` keys (pending_events s) \<subseteq> VStr ` set (message_call_ids H a)"
    using u ids(2) unfolding unsettled_def by (metis list.set_map)
  then have "keys (pending_events s) \<subseteq> set (message_call_ids H a)" by (auto simp del: set_map)
  then have "keys t = set (message_call_ids H a)" unfolding t(3) calls by blast
  then have all: "VStr ` keys t = set (call_ids a)" using ids(2) by (metis list.set_map)
  then have "unsettled h a (s\<lparr>pending_events := t\<rparr>)" using u t(2) unfolding unsettled_def by simp
  then show thesis
    using that [of t] all t(1) by (auto simp: complete_missing_pending_rows_def lift_row_def)
qed

lemma settle_startable:
  assumes "suspended s"
  shows "\<exists>s'. settle_interrupted H now raw p start s = Inr s' \<and> (settled_state s' \<and> phase s' \<in> {IDLE, DONE, ERROR, STOPPED} \<or>
      waiting_state s' \<and> phase s' = AWAITING_EVENTS \<and> p = AWAITING_EVENTS)"
proof (cases "p = AWAITING_EVENTS")
  case True
  obtain t where t: "complete_missing_pending_rows H s = Inr (s\<lparr>pending_events := t\<rparr>)"
    "settled_state s \<and> t = [] \<or> (\<exists>h a. unsettled h a (s\<lparr>pending_events := t\<rparr>) \<and> VStr ` keys t = set (call_ids a))"
    by (rule complete_rows [OF assms])
  let ?s1 = "s\<lparr>pending_events := t, phase := AWAITING_EVENTS, active_turn_start_message_index := start\<rparr>"
  have settle: "settle_interrupted H now raw p start s =
      (if t = [] then append_restore_results H now INTERRUPTED_BY_RESTORE None VNone (set_phase IDLE ?s1) else Inr ?s1)"
    using True t(1) by (simp add: settle_interrupted_def set_phase_def is_empty_def Let_def)
  show ?thesis
  proof (cases "t = []")
    case empty: True
    have "settled_state s" using t(2) empty by (auto simp: unsettled_def)
    then have closed: "suspended (set_phase IDLE ?s1)" "pending_events (set_phase IDLE ?s1) = []" "phase (set_phase IDLE ?s1) = IDLE"
      using empty by (simp_all add: suspended_def settled_state_def set_phase_def)
    obtain s' where s': "append_restore_results H now INTERRUPTED_BY_RESTORE None VNone (set_phase IDLE ?s1) = Inr s'"
      using append_all_ok by blast
    from append_all_settles [OF closed(1) s' closed(2)] have "settled_state s' \<and> phase s' = IDLE" using closed(3) by simp
    then show ?thesis using s' settle empty by (intro exI [of _ s']) simp
  next
    case False
    then obtain h a where "unsettled h a (s\<lparr>pending_events := t\<rparr>)" "VStr ` keys t = set (call_ids a)" using t(2) by blast
    then have w: "waiting_state ?s1" by (auto simp: waiting_state_def unsettled_def)
    have "settle_interrupted H now raw p start s = Inr ?s1" using False by (simp add: settle)
    then show ?thesis using w True by (intro exI [of _ ?s1]) simp
  qed
next
  case False
  let ?s1 = "set_phase (if is_terminal p then p else IDLE) s"
  have "suspended ?s1" using assms by (simp add: suspended_def settled_state_def unsettled_def set_phase_def)
  then obtain s' where s': "close_interrupted H now raw ?s1 = Inr s'" "settled_state s'" "phase s' = phase ?s1"
    by (rule close_interrupted_settles)
  have "phase s' \<noteq> AWAITING_EVENTS" using False s'(3) by (simp add: set_phase_def)
  then have "settle_interrupted H now raw p start s = Inr s'"
    using False s'(1) by (simp add: settle_interrupted_def set_phase_def Let_def split: if_splits)
  then show ?thesis
    using s'(2,3) False by (auto simp: set_phase_def is_terminal_def)
qed

lemma finish_frame:
  assumes "phase s = AWAITING_EVENTS \<longrightarrow> p = AWAITING_EVENTS" and "startable s" and "settled_state s \<or> phase s = AWAITING_EVENTS"
  shows "startable (finish_restore H now raw p start s)"
proof -
  have same: "startable s'" if "phase s' = phase s" "messages s' = messages s" "pending_events s' = pending_events s"
    "anthropic_history s' = anthropic_history s" for s'
    using assms(2) that by (simp add: startable_def settled_state_def waiting_state_def unsettled_def)
  have answer: "plain [(''role'', VStr ''assistant''), (''content'', VStr x)]" for x
    by (simp add: plain_def is_tool_msg_def is_leader_def get_def)
  have keep: "startable (keep_submission now p t s')"
    if s': "phase s' = phase s" "messages s' = messages s" "pending_events s' = pending_events s" "anthropic_history s' = anthropic_history s" for t s'
  proof (cases "t = None \<or> p \<noteq> EXECUTING_TOOLS \<and> p \<noteq> AUTOSAVING")
    case True
    then show ?thesis using same [OF s'] by (auto simp: keep_submission_def split: option.split)
  next
    case False
    then have "settled_state s'" using assms(1,3) s' by (auto simp: settled_state_def)
    then show ?thesis
      using False
      by (auto simp: keep_submission_def startable_def settled_state_def mark_done_def append_message_def paired_plain [OF _ answer])
  qed
  have "startable (if phase s2 = DONE then s2\<lparr>completed_turn_start_message_index := i\<rparr> else s2)" if "startable s2" for s2 i
    using that by (auto simp: startable_def settled_state_def waiting_state_def unsettled_def)
  then show ?thesis unfolding finish_restore_def Let_def by (simp add: keep)
qed

text \<open>No step of a restore takes a message away.\<close>

lemma append_keeps [simp]: "prefix (messages s) (messages (append_message now m s))"
  by (simp add: append_message_def)

lemma loop_keeps: "append_restore_loop now content exclude receipts calls s = Inr s' \<Longrightarrow> prefix (messages s) (messages s')"
proof (induction calls arbitrary: s)
  case (Cons p calls)
  obtain i c where p: "p = (i, c)" by (cases p)
  have step: "prefix (messages s) (messages s')"
    if "append_restore_loop now content exclude receipts calls (append_message now m s) = Inr s'" for m
    using Cons.IH [OF that] append_keeps prefix_order.trans by blast
  show ?case
    using Cons.prems Cons.IH step
    by (fastforce simp: p bnd_Inr_iff split: option.splits if_splits)
qed simp

lemma results_keep: "append_restore_results H now content exclude completed s = Inr s' \<Longrightarrow> prefix (messages s) (messages s')"
  unfolding append_restore_results_def by (rule loop_keeps)

lemma fold_keeps: "prefix (messages s) (messages (foldl (\<lambda>s m. if P m then append_message now (f m) s else s) s ms))"
proof (induction ms arbitrary: s)
  case (Cons m ms)
  show ?case
  proof (cases "P m")
    case True
    have "prefix (messages s) (messages (append_message now (f m) s))" by simp
    then show ?thesis using Cons.IH [of "append_message now (f m) s"] True prefix_order.trans by fastforce
  next
    case False
    then show ?thesis using Cons.IH [of s] by simp
  qed
qed simp

lemma close_keeps: "close_interrupted H now raw s = Inr s' \<Longrightarrow> prefix (messages s) (messages s')"
proof -
  assume close: "close_interrupted H now raw s = Inr s'"
  obtain s1 where s1: "(if is_empty (pending_events s) then Inr s
        else append_restore_results H now INTERRUPTED_BY_RESTORE (Some (keys (pending_events s))) (get raw ''loop_checkpoint_results'') s) = Inr s1"
    and rest: "(let opened = set (open_tool_call_ids H (messages s1));
         s2 = foldl (\<lambda>s m. if tm_call_id m \<in> opened then append_message now (tool_result (tm_call_id m) (tm_content m)) s else s)
                s1 (ordered_results (pending_events s1))
     in bnd (append_restore_results H now INTERRUPTED_BY_RESTORE None (get raw ''loop_checkpoint_results'') s2)
          (\<lambda>s3. Inr (s3\<lparr>pending_events := clear (pending_events s3)\<rparr>))) = Inr s'"
    using close unfolding close_interrupted_def bnd_Inr_iff by blast
  have first: "prefix (messages s) (messages s1)" using s1 by (cases "is_empty (pending_events s)") (auto intro: results_keep)
  define s2 where "s2 = foldl (\<lambda>s m. if tm_call_id m \<in> set (open_tool_call_ids H (messages s1))
    then append_message now (tool_result (tm_call_id m) (tm_content m)) s else s) s1 (ordered_results (pending_events s1))"
  have second: "prefix (messages s1) (messages s2)" unfolding s2_def by (rule fold_keeps)
  obtain s3 where s3: "append_restore_results H now INTERRUPTED_BY_RESTORE None (get raw ''loop_checkpoint_results'') s2 = Inr s3"
    "messages s' = messages s3"
    using rest unfolding Let_def s2_def [symmetric] bnd_Inr_iff by auto
  show ?thesis using prefix_order.trans [OF prefix_order.trans [OF first second] results_keep [OF s3(1)]] s3(2) by simp
qed

lemma settle_keeps: "settle_interrupted H now raw p start s = Inr s' \<Longrightarrow> prefix (messages s) (messages s')"
proof -
  assume settle: "settle_interrupted H now raw p start s = Inr s'"
  obtain s0 where s0: "(if p = AWAITING_EVENTS then complete_missing_pending_rows H s else Inr s) = Inr s0"
    and rest: "(let s1 = set_phase (if p = AWAITING_EVENTS \<or> is_terminal p then p else IDLE) s0;
         s2 = (if phase s1 = AWAITING_EVENTS then s1\<lparr>active_turn_start_message_index := start\<rparr> else s1)
     in bnd (if p \<noteq> AWAITING_EVENTS then close_interrupted H now raw s2 else Inr s2) (\<lambda>s3.
        if phase s3 = AWAITING_EVENTS \<and> is_empty (pending_events s3)
        then append_restore_results H now INTERRUPTED_BY_RESTORE None VNone (set_phase IDLE s3) else Inr s3)) = Inr s'"
    using settle unfolding settle_interrupted_def bnd_Inr_iff by blast
  have first: "messages s0 = messages s"
    using s0 by (auto simp: complete_missing_pending_rows_def bnd_Inr_iff split: if_splits)
  define s2 where "s2 = (let s1 = set_phase (if p = AWAITING_EVENTS \<or> is_terminal p then p else IDLE) s0
    in if phase s1 = AWAITING_EVENTS then s1\<lparr>active_turn_start_message_index := start\<rparr> else s1)"
  have second: "messages s2 = messages s0" by (simp add: s2_def set_phase_def Let_def)
  obtain s3 where s3: "(if p \<noteq> AWAITING_EVENTS then close_interrupted H now raw s2 else Inr s2) = Inr s3"
    "(if phase s3 = AWAITING_EVENTS \<and> is_empty (pending_events s3)
        then append_restore_results H now INTERRUPTED_BY_RESTORE None VNone (set_phase IDLE s3) else Inr s3) = Inr s'"
    using rest unfolding s2_def Let_def bnd_Inr_iff by blast
  have third: "prefix (messages s2) (messages s3)"
    using s3(1) by (cases "p \<noteq> AWAITING_EVENTS") (auto intro: close_keeps)
  have idle: "messages (set_phase IDLE s3) = messages s3" by (simp add: set_phase_def)
  have "prefix (messages s3) (messages s')"
  proof (cases "phase s3 = AWAITING_EVENTS \<and> is_empty (pending_events s3)")
    case True
    then show ?thesis using s3(2) results_keep [of H now' _ None VNone "set_phase IDLE s3" s'] results_keep idle by fastforce
  next
    case False
    then have "s3 = s'" using s3(2) by (simp split: if_splits)
    then show ?thesis by simp
  qed
  then show ?thesis using prefix_order.trans [OF third] unfolding first [symmetric] second [symmetric] by blast
qed

lemma finish_keeps: "prefix (messages s) (messages (finish_restore H now raw p start s))"
proof -
  have "prefix (messages s) (messages (keep_submission now p t x))" if "messages x = messages s" for t x
    using that by (simp add: keep_submission_def mark_done_def append_message_def split: option.split)
  then show ?thesis unfolding finish_restore_def Let_def by simp
qed

text \<open>
  C4. A session that dies at any moment comes back usable.  Take any moment of a turn, save it, and
  restore the snapshot in a new process: the restore succeeds, the transcript keeps all its messages, and
  from the restored session the turn driver may start: every call is answered and nothing pends, or the
  session waits with exactly one row per open call.
\<close>

theorem crash_recovery:
  assumes "savable s" and "suspended s" and "snapshot_for_save now rc role model run_id s = (ms, snap)"
  shows "\<exists>s'. restore H now' old ms snap = Inr s' \<and> startable s' \<and> prefix (messages s) (messages s')"
proof -
  let ?raw = "saved_state rc s"
  let ?b = "restored_base now' old ms snap"
  let ?start = "restore_active_turn_start (get ?raw ''active_turn_start_message_index'') (messages ?b)"
  have "messages ?b = messages s"
    using restore_stamped [OF _ _ assms(3)] assms(1) by (simp add: savable_def)
  then obtain s1 where s1: "restore_fields H ?raw ?b = Inr s1" "messages s1 = messages s" "suspended s1"
    using restored_fields [OF assms(1,2)] by blast
  let ?p = "restore_phase H (get_or ?raw ''phase'' (VStr ''idle''))"
  obtain st where normalize: "normalize_interrupted H now' ?raw ?start s1 =
      bnd (settle_interrupted H now' ?raw ?p st s1) (\<lambda>s'. Inr (finish_restore H now' ?raw ?p st s'))"
    by (simp add: normalize_interrupted_def Let_def)
  obtain s2 where s2: "settle_interrupted H now' ?raw ?p st s1 = Inr s2"
    "settled_state s2 \<and> phase s2 \<in> {IDLE, DONE, ERROR, STOPPED} \<or> waiting_state s2 \<and> phase s2 = AWAITING_EVENTS \<and> ?p = AWAITING_EVENTS"
    using settle_startable [OF s1(3)] by blast
  let ?s3 = "finish_restore H now' ?raw ?p st s2"
  have "get snap ''session_state'' = VDict ?raw"
    using assms(1,3) by (auto simp: savable_def snapshot_for_save_def enriched_messages_def align_timestamps_def get_def split: option.splits)
  then have restored: "restore H now' old ms snap = Inr ?s3" using s1(1) s2(1) normalize by (simp add: restore_def Let_def)
  have "startable ?s3"
    using s2(2) by (intro finish_frame) (auto simp: startable_def)
  moreover have "prefix (messages s) (messages ?s3)"
    using settle_keeps [OF s2(1)] finish_keeps s1(2) prefix_order.trans by metis
  ultimately show ?thesis using restored by blast
qed

text \<open>A batch of two calls: the first has a row, then the process dies.\<close>

definition running_batch :: SessionState where
  "running_batch = (append_message ''t2'' [(''role'', VStr ''assistant''),
       (''tool_calls'', VList [VDict [(''id'', VStr ''c1'')], VDict [(''id'', VStr ''c2'')]])]
     (new_session ''t1'' [[(''role'', VStr ''user''), (''content'', VStr ''go'')]]))
     \<lparr>phase := EXECUTING_TOOLS, step_count := 1,
      pending_events := [(''c1'', (failed_row IMMEDIATE ''c1'' 0 ''x'')\<lparr>row_status := PENDING, row_result := None, row_error := None\<rparr>)]\<rparr>"

lemma running_suspended: "suspended running_batch"
proof -
  have "paired ([] @ [[(''role'', VStr ''user''), (''content'', VStr ''go'')]])"
    by (rule paired_plain) (simp_all add: plain_def is_tool_msg_def is_leader_def get_def)
  then have "unsettled [[(''role'', VStr ''user''), (''content'', VStr ''go'')]] [(''role'', VStr ''assistant''),
       (''tool_calls'', VList [VDict [(''id'', VStr ''c1'')], VDict [(''id'', VStr ''c2'')]])] running_batch"
    by (simp add: unsettled_def running_batch_def append_message_def new_session_def align_timestamps_def is_leader_def get_def call_ids_def
        calls_of_def ids_ok_def usable_id_def is_str_def as_dict_def table_ok_def failed_row_def)
  then show ?thesis by (auto simp: suspended_def)
qed

theorem interrupted_turn_startable_witness:
  "\<exists>s'. cancelled_turn demo_host ''t3'' \<lparr>rc_step = 0, rc_prefix = [], rc_results = []\<rparr> running_batch = Inr s' \<and> startable s'"
  by (rule conjunct1 [OF interrupted_turn_startable [OF running_suspended]])

lemma running_savable: "savable running_batch"
  by (simp add: savable_def running_batch_def append_message_def new_session_def align_timestamps_def fresh_turn_def empty_loops_def)

theorem crash_recovery_witness:
  "\<exists>ms snap s'. snapshot_for_save ''t3'' \<lparr>rc_step = 0, rc_prefix = [], rc_results = []\<rparr> ''agent'' VNone None running_batch = (ms, snap) \<and>
     restore demo_host ''t4'' 7 ms snap = Inr s' \<and> startable s' \<and> prefix (messages running_batch) (messages s')"
proof -
  obtain ms snap where saved: "snapshot_for_save ''t3'' \<lparr>rc_step = 0, rc_prefix = [], rc_results = []\<rparr> ''agent'' VNone None running_batch = (ms, snap)"
    by fastforce
  from crash_recovery [OF running_savable running_suspended saved] saved show ?thesis by blast
qed

end
