(* ===== verification/Responses_Input.thy ===== *)
theory Responses_Input
  imports Run_Protocol
begin

text \<open>
  Chat history as Responses input (\<open>adapters/llm/responses_messages.py\<close> and
  \<open>normalize_text_content\<close> of \<open>adapters/llm/tool_contracts.py\<close>).  The provider rejects a request in
  which a tool output has no earlier call or an id occurs twice; the conversion raises first.
  The canonical form of JSON text (\<open>json.dumps(json.loads(s), sort_keys=True)\<close>) is the argument
  \<open>canon\<close>, \<open>None\<close> when \<open>s\<close> is no JSON.
\<close>

section \<open>Content\<close>

datatype InputError = ValueErr | ProtocolErr | TypeErr

text \<open>A comprehension whose body may raise.\<close>

fun each :: "('a \<Rightarrow> 'e + 'b) \<Rightarrow> 'a list \<Rightarrow> 'e + 'b list" where
  "each f [] = Inr []"
| "each f (x # xs) = bnd (f x) (\<lambda>y. bnd (each f xs) (\<lambda>ys. Inr (y # ys)))"

fun each_step :: "('a \<Rightarrow> 's \<Rightarrow> 'e + 's) \<Rightarrow> 'a list \<Rightarrow> 's \<Rightarrow> 'e + 's" where
  "each_step f [] s = Inr s"
| "each_step f (x # xs) s = bnd (f x s) (each_step f xs)"

text \<open>Membership in a frozenset; a list or a dict has no hash.\<close>

definition in_set :: "pyval \<Rightarrow> pyval list \<Rightarrow> InputError + bool" where
  "in_set v xs = (if is_list v \<or> is_dict v then Inl TypeErr else Inr (v \<in> set xs))"

definition text_block :: "pyval \<Rightarrow> InputError + string" where
  "text_block part =
     (case part of
        VStr t \<Rightarrow> Inr t
      | VDict d \<Rightarrow>
          bnd (in_set (get d ''type'') [VNone, VStr ''text'', VStr ''input_text'', VStr ''output_text''])
            (\<lambda>ok. if ok then (case get d ''text'' of VStr t \<Rightarrow> Inr t | _ \<Rightarrow> Inl ValueErr) else Inl ValueErr)
      | _ \<Rightarrow> Inl ValueErr)"

definition normalize_text_content :: "pyval \<Rightarrow> InputError + string" where
  "normalize_text_content content =
     (case content of
        VNone \<Rightarrow> Inr []
      | VStr t \<Rightarrow> Inr t
      | VList parts \<Rightarrow> bnd (each text_block parts) (\<lambda>ts. Inr (py_join [CHR 0x0A] ts))
      | _ \<Rightarrow> Inl ValueErr)"

definition message_text :: "pyval \<Rightarrow> InputError + string" where
  "message_text content =
     (case normalize_text_content content of Inl ValueErr \<Rightarrow> Inl ProtocolErr | Inl e \<Rightarrow> Inl e | Inr t \<Rightarrow> Inr t)"

definition input_text :: "string \<Rightarrow> pyval" where
  "input_text t = VDict [(''type'', VStr ''input_text''), (''text'', VStr t)]"

definition image_part :: "pyval \<Rightarrow> InputError + pyval" where
  "image_part picture =
     (let url = (case picture of VStr _ \<Rightarrow> picture | VDict d \<Rightarrow> get d ''url'' | _ \<Rightarrow> VNone);
          detail = (case picture of VDict d \<Rightarrow> get d ''detail'' | _ \<Rightarrow> VNone)
      in if \<not> is_str url \<or> \<not> truthy url then Inl ProtocolErr
         else Inr (VDict ([(''type'', VStr ''input_image''), (''image_url'', url)] @
                          (if detail \<noteq> VNone then [(''detail'', detail)] else []))))"

definition content_part :: "pyval \<Rightarrow> InputError + pyval" where
  "content_part part =
     (case part of
        VStr t \<Rightarrow> Inr (input_text t)
      | VDict d \<Rightarrow>
          bnd (in_set (get d ''type'') [VStr ''text'', VStr ''input_text'', VStr ''output_text'']) (\<lambda>textual.
          case (textual, get d ''text'') of
            (True, VStr t) \<Rightarrow> Inr (input_text t)
          | _ \<Rightarrow> if get d ''type'' = VStr ''image_url'' then image_part (get d ''image_url'') else Inl ProtocolErr)
      | _ \<Rightarrow> Inl ProtocolErr)"

definition message_content_parts :: "pyval \<Rightarrow> InputError + pyval" where
  "message_content_parts content =
     (case content of
        VList parts \<Rightarrow> bnd (each content_part parts) (\<lambda>ps. Inr (VList ps))
      | _ \<Rightarrow> bnd (message_text content) (\<lambda>t. Inr (VStr t)))"

section \<open>Function calls and replayed items\<close>

type_synonym canonical = "string \<Rightarrow> string option"

definition function_call_identity :: "canonical \<Rightarrow> pyval \<Rightarrow> pyval \<Rightarrow> pyval \<Rightarrow> InputError + (string \<times> string \<times> string)" where
  "function_call_identity canon call_id name arguments =
     (case (call_id, name, arguments) of
        (VStr c, VStr n, VStr a) \<Rightarrow>
          if c = [] \<or> n = [] then Inl ProtocolErr
          else (case canon a of None \<Rightarrow> Inl ProtocolErr | Some js \<Rightarrow> Inr (c, n, js))
      | _ \<Rightarrow> Inl ProtocolErr)"

definition OUTPUT_ITEM_TYPES :: "pyval list" where
  "OUTPUT_ITEM_TYPES = [VStr ''message'', VStr ''reasoning'', VStr ''function_call'']"

function to_plain_data :: "pyval \<Rightarrow> pyval" where
  "to_plain_data (VDict d) = VDict (map (\<lambda>(k, v). (k, to_plain_data v)) (filter (\<lambda>(k, v). v \<noteq> VNone) d))"
| "to_plain_data (VList xs) = VList (map to_plain_data xs)"
| "to_plain_data VNone = VNone"
| "to_plain_data (VBool b) = VBool b"
| "to_plain_data (VInt i) = VInt i"
| "to_plain_data (VFloat f) = VFloat f"
| "to_plain_data (VStr s) = VStr s"
  by pat_completeness auto
termination
  by (relation "measure size") (auto simp: size_list_entry [simplified] dest: size_dict_entry)

definition validated_item :: "pyval \<Rightarrow> InputError + message" where
  "validated_item raw =
     (case to_plain_data raw of
        VDict item \<Rightarrow> bnd (in_set (get item ''type'') OUTPUT_ITEM_TYPES) (\<lambda>ok. if ok then Inr item else Inl ProtocolErr)
      | _ \<Rightarrow> Inl ProtocolErr)"

definition validated_response_items :: "pyval \<Rightarrow> InputError + message list" where
  "validated_response_items v = (case v of VList raws \<Rightarrow> each validated_item raws | _ \<Rightarrow> Inl ProtocolErr)"

text \<open>\<open>for x in v or ()\<close>.\<close>

definition iterate :: "pyval \<Rightarrow> InputError + pyval list" where
  "iterate v =
     (if \<not> truthy v then Inr []
      else case v of
             VList xs \<Rightarrow> Inr xs
           | VStr s \<Rightarrow> Inr (map (\<lambda>c. VStr [c]) s)
           | VDict d \<Rightarrow> Inr (map (\<lambda>(k, _). VStr k) d)
           | _ \<Rightarrow> Inl TypeErr)"

definition arguments_or_empty :: "message \<Rightarrow> pyval" where
  "arguments_or_empty f = (if truthy (get f ''arguments'') then get f ''arguments'' else VStr ''{}'')"

definition legacy_identity :: "canonical \<Rightarrow> pyval \<Rightarrow> InputError + (string \<times> string \<times> string)" where
  "legacy_identity canon call =
     (case call of
        VDict c \<Rightarrow>
          (case get c ''function'' of
             VDict f \<Rightarrow> function_call_identity canon (get c ''id'') (get f ''name'') (arguments_or_empty f)
           | _ \<Rightarrow> Inl ProtocolErr)
      | _ \<Rightarrow> Inl ProtocolErr)"

definition is_function_call :: "message \<Rightarrow> bool" where
  "is_function_call item = (get item ''type'' = VStr ''function_call'')"

definition item_identity :: "canonical \<Rightarrow> message \<Rightarrow> InputError + (string \<times> string \<times> string)" where
  "item_identity canon item = function_call_identity canon (get item ''call_id'') (get item ''name'') (get item ''arguments'')"

definition verify_replay_tool_calls :: "canonical \<Rightarrow> message \<Rightarrow> message list \<Rightarrow> InputError + unit" where
  "verify_replay_tool_calls canon m items =
     (if ''tool_calls'' \<notin> keys m then Inr ()
      else bnd (bnd (iterate (get m ''tool_calls'')) (each (legacy_identity canon))) (\<lambda>legacy.
           bnd (each (item_identity canon) (filter is_function_call items)) (\<lambda>replayed.
           if legacy = replayed then Inr () else Inl ProtocolErr)))"

section \<open>The conversion\<close>

record InputState =
  in_instructions :: "string list"
  in_items :: "message list"
  in_calls :: "string set"
  in_answered :: "string set"

definition register_call :: "pyval \<Rightarrow> InputState \<Rightarrow> InputError + InputState" where
  "register_call call_id s =
     (case call_id of
        VStr c \<Rightarrow> if c = [] \<or> c \<in> in_calls s then Inl ProtocolErr else Inr (s\<lparr>in_calls := insert c (in_calls s)\<rparr>)
      | _ \<Rightarrow> Inl ProtocolErr)"

definition system_message :: "message \<Rightarrow> InputState \<Rightarrow> InputError + InputState" where
  "system_message m s =
     bnd (message_text (get m ''content'')) (\<lambda>t. Inr
       (if t = [] then s
        else if truthy (get m ''compacted'')
        then s\<lparr>in_items := in_items s @ [[(''role'', VStr ''user''), (''content'', VStr t)]]\<rparr>
        else s\<lparr>in_instructions := in_instructions s @ [t]\<rparr>))"

definition tool_message :: "bool \<Rightarrow> message \<Rightarrow> InputState \<Rightarrow> InputError + InputState" where
  "tool_message allow m s =
     (case get m ''tool_call_id'' of
        VStr c \<Rightarrow>
          if c = [] then Inl ProtocolErr
          else if c \<notin> in_calls s \<and> \<not> allow then Inl ProtocolErr
          else if c \<in> in_answered s then Inl ProtocolErr
          else bnd (message_text (get m ''content'')) (\<lambda>t. Inr
                 (s\<lparr>in_answered := insert c (in_answered s),
                    in_items := in_items s @
                      [[(''type'', VStr ''function_call_output''), (''call_id'', VStr c), (''output'', VStr t)]]\<rparr>))
      | _ \<Rightarrow> Inl ProtocolErr)"

definition replay_message :: "canonical \<Rightarrow> message \<Rightarrow> InputState \<Rightarrow> InputError + InputState" where
  "replay_message canon m s =
     bnd (validated_response_items (get m ''response_items'')) (\<lambda>items.
     bnd (verify_replay_tool_calls canon m items) (\<lambda>_.
     bnd (each_step (\<lambda>item. register_call (get item ''call_id'')) (filter is_function_call items) s) (\<lambda>s'. Inr
       (s'\<lparr>in_items := in_items s' @ items\<rparr>))))"

definition legacy_call :: "pyval \<Rightarrow> InputState \<Rightarrow> InputError + InputState" where
  "legacy_call call s =
     (case call of
        VDict c \<Rightarrow>
          (case get c ''function'' of
             VDict f \<Rightarrow> bnd (register_call (get c ''id'') s) (\<lambda>s'. Inr
               (s'\<lparr>in_items := in_items s' @
                  [[(''type'', VStr ''function_call''), (''call_id'', get c ''id''), (''name'', get f ''name''),
                    (''arguments'', arguments_or_empty f)]]\<rparr>))
           | _ \<Rightarrow> Inl ProtocolErr)
      | _ \<Rightarrow> Inl ProtocolErr)"

definition phase_field :: "message \<Rightarrow> InputError + message" where
  "phase_field m =
     (if get m ''role'' = VStr ''assistant'' \<and> get m ''phase'' \<noteq> VNone
      then bnd (in_set (get m ''phase'') [VStr ''commentary'', VStr ''final_answer''])
             (\<lambda>ok. if ok then Inr [(''phase'', get m ''phase'')] else Inl ProtocolErr)
      else Inr [])"

definition content_item :: "message \<Rightarrow> InputState \<Rightarrow> InputError + InputState" where
  "content_item m s =
     bnd (message_content_parts (get m ''content'')) (\<lambda>content.
       if truthy content
       then bnd (phase_field m) (\<lambda>p. Inr
              (s\<lparr>in_items := in_items s @ [[(''role'', get m ''role''), (''content'', content)] @ p]\<rparr>))
       else Inr s)"

definition chat_message :: "message \<Rightarrow> InputState \<Rightarrow> InputError + InputState" where
  "chat_message m s =
     bnd (in_set (get m ''role'') [VStr ''user'', VStr ''assistant'', VStr ''developer'']) (\<lambda>ok.
       if \<not> ok then Inl ProtocolErr
       else bnd (content_item m s) (\<lambda>s1.
            bnd (iterate (get m ''tool_calls'')) (\<lambda>calls. each_step legacy_call calls s1)))"

definition convert_message :: "canonical \<Rightarrow> bool \<Rightarrow> message \<Rightarrow> InputState \<Rightarrow> InputError + InputState" where
  "convert_message canon allow m s =
     (if get m ''role'' = VStr ''system'' then system_message m s
      else if get m ''role'' = VStr ''tool'' then tool_message allow m s
      else if get m ''response_items'' \<noteq> VNone then replay_message canon m s
      else chat_message m s)"

definition input_start :: InputState where
  "input_start = \<lparr>in_instructions = [], in_items = [], in_calls = {}, in_answered = {}\<rparr>"

definition messages_to_input :: "canonical \<Rightarrow> bool \<Rightarrow> message list \<Rightarrow> InputError + (string option \<times> message list)" where
  "messages_to_input canon allow ms =
     bnd (each_step (convert_message canon allow) ms input_start) (\<lambda>s. Inr
       (let t = py_join [CHR 0x0A, CHR 0x0A] (in_instructions s) in if t = [] then None else Some t, in_items s))"

section \<open>What an accepted history looks like\<close>

definition is_output :: "message \<Rightarrow> bool" where
  "is_output item = (get item ''type'' = VStr ''function_call_output'')"

definition calls_in :: "message list \<Rightarrow> pyval list" where
  "calls_in items = map (\<lambda>i. get i ''call_id'') (filter is_function_call items)"

definition outputs_in :: "message list \<Rightarrow> pyval list" where
  "outputs_in items = map (\<lambda>i. get i ''call_id'') (filter is_output items)"

lemma io_append [simp]: "calls_in (xs @ ys) = calls_in xs @ calls_in ys" "outputs_in (xs @ ys) = outputs_in xs @ outputs_in ys"
  by (simp_all add: calls_in_def outputs_in_def)

lemma io_Nil [simp]: "calls_in [] = []" "outputs_in [] = []"
  by (simp_all add: calls_in_def outputs_in_def)

text \<open>Every output follows its call.\<close>

definition outputs_follow :: "message list \<Rightarrow> bool" where
  "outputs_follow items = (\<forall>xs i ys. items = xs @ i # ys \<longrightarrow> is_output i \<longrightarrow> get i ''call_id'' \<in> set (calls_in xs))"

lemma outputs_follow_snoc:
  "outputs_follow (xs @ [i]) \<longleftrightarrow> outputs_follow xs \<and> (is_output i \<longrightarrow> get i ''call_id'' \<in> set (calls_in xs))"
proof
  assume f: "outputs_follow (xs @ [i])"
  have "is_output i \<longrightarrow> get i ''call_id'' \<in> set (calls_in xs)"
    using f [unfolded outputs_follow_def, rule_format, of xs i "[]"] by simp
  moreover have "get j ''call_id'' \<in> set (calls_in as)" if "xs = as @ j # bs" "is_output j" for as j bs
    using f [unfolded outputs_follow_def, rule_format, of as j "bs @ [i]"] that by simp
  ultimately show "outputs_follow xs \<and> (is_output i \<longrightarrow> get i ''call_id'' \<in> set (calls_in xs))"
    unfolding outputs_follow_def by blast
next
  assume f: "outputs_follow xs \<and> (is_output i \<longrightarrow> get i ''call_id'' \<in> set (calls_in xs))"
  show "outputs_follow (xs @ [i])"
    unfolding outputs_follow_def
  proof (intro allI impI)
    fix as j bs
    assume e: "xs @ [i] = as @ j # bs" and j: "is_output j"
    show "get j ''call_id'' \<in> set (calls_in as)"
    proof (cases bs rule: rev_cases)
      case Nil
      then show ?thesis using e f j by simp
    next
      case (snoc bs' b)
      then have "xs = as @ j # bs'" using e by simp
      then show ?thesis using f j unfolding outputs_follow_def by blast
    qed
  qed
qed

lemma outputs_follow_append: "outputs_follow xs \<Longrightarrow> outputs_in ys = [] \<Longrightarrow> outputs_follow (xs @ ys)"
proof (induction ys rule: rev_induct)
  case (snoc y ys)
  then have "outputs_follow (xs @ ys)" "\<not> is_output y" by (auto simp: outputs_in_def split: if_splits)
  then show ?case using outputs_follow_snoc [of "xs @ ys" y] by simp
qed simp

definition input_ok :: "bool \<Rightarrow> InputState \<Rightarrow> bool" where
  "input_ok allow s =
     (distinct (calls_in (in_items s)) \<and> set (calls_in (in_items s)) = VStr ` in_calls s \<and>
      distinct (outputs_in (in_items s)) \<and> set (outputs_in (in_items s)) = VStr ` in_answered s \<and>
      (\<not> allow \<longrightarrow> outputs_follow (in_items s)))"

lemma each_step_keeps:
  assumes "each_step f xs s = Inr s'" and "I s" and "\<And>x s s'. x \<in> set xs \<Longrightarrow> I s \<Longrightarrow> f x s = Inr s' \<Longrightarrow> I s'"
  shows "I s'"
  using assms
proof (induction xs arbitrary: s)
  case (Cons x xs)
  then obtain s1 where s1: "f x s = Inr s1" "each_step f xs s1 = Inr s'" by (auto simp: bnd_Inr_iff)
  have "I s1" using Cons.prems(3) [OF _ Cons.prems(2) s1(1)] by simp
  show ?case
  proof (rule Cons.IH [OF s1(2) \<open>I s1\<close>])
    fix y t t'
    assume "y \<in> set xs" and t: "I t" "f y t = Inr t'"
    then have "y \<in> set (x # xs)" by simp
    then show "I t'" using t by (rule Cons.prems(3))
  qed
qed simp

lemma register_iff:
  "register_call v s = Inr s' \<longleftrightarrow> (\<exists>c. v = VStr c \<and> c \<noteq> [] \<and> c \<notin> in_calls s \<and> s' = s\<lparr>in_calls := insert c (in_calls s)\<rparr>)"
  by (auto simp: register_call_def split: pyval.splits)

lemma register_all:
  assumes "each_step (\<lambda>item. register_call (get item ''call_id'')) items s = Inr s'"
  shows "\<exists>cs. map (\<lambda>i. get i ''call_id'') items = map VStr cs \<and> distinct cs \<and> set cs \<inter> in_calls s = {} \<and>
    s' = s\<lparr>in_calls := set cs \<union> in_calls s\<rparr>"
  using assms
proof (induction items arbitrary: s)
  case Nil
  then show ?case by (intro exI [of _ "[]"]) simp
next
  case (Cons item items)
  obtain c where c: "get item ''call_id'' = VStr c" "c \<notin> in_calls s"
    and rest: "each_step (\<lambda>item. register_call (get item ''call_id'')) items (s\<lparr>in_calls := insert c (in_calls s)\<rparr>) = Inr s'"
    using Cons.prems by (auto simp: bnd_Inr_iff register_iff)
  obtain cs where cs: "map (\<lambda>i. get i ''call_id'') items = map VStr cs" "distinct cs" "set cs \<inter> insert c (in_calls s) = {}"
    "s' = s\<lparr>in_calls := set cs \<union> insert c (in_calls s)\<rparr>"
    using Cons.IH [OF rest] by auto
  show ?case using c cs by (intro exI [of _ "c # cs"]) auto
qed

lemma VStr_image [simp]: "VStr c \<in> VStr ` A \<longleftrightarrow> c \<in> A"
  by auto

lemma plain_item_types:
  "\<not> is_function_call [(''role'', r), (''content'', c)]" "\<not> is_output [(''role'', r), (''content'', c)]"
  "\<not> is_function_call ([(''role'', r), (''content'', c)] @ [(''phase'', p)])" "\<not> is_output ([(''role'', r), (''content'', c)] @ [(''phase'', p)])"
  by (simp_all add: is_function_call_def is_output_def get_def)

lemma io_single:
  "calls_in [i] = (if is_function_call i then [get i ''call_id''] else [])"
  "outputs_in [i] = (if is_output i then [get i ''call_id''] else [])"
  by (simp_all add: calls_in_def outputs_in_def)

text \<open>An item that is neither a call nor an output changes nothing.\<close>

lemma input_ok_neutral:
  "input_ok allow s \<Longrightarrow> \<not> is_function_call i \<Longrightarrow> \<not> is_output i \<Longrightarrow> input_ok allow (s\<lparr>in_items := in_items s @ [i]\<rparr>)"
  using outputs_follow_append [of "in_items s" "[i]"] by (auto simp: input_ok_def io_single)

lemma system_ok: "input_ok allow s \<Longrightarrow> system_message m s = Inr s' \<Longrightarrow> input_ok allow s'"
proof -
  assume ok: "input_ok allow s" and conv: "system_message m s = Inr s'"
  obtain t where "s' = s \<or> s' = s\<lparr>in_items := in_items s @ [[(''role'', VStr ''user''), (''content'', VStr t)]]\<rparr> \<or>
      s' = s\<lparr>in_instructions := in_instructions s @ [t]\<rparr>"
    using conv by (auto simp: system_message_def bnd_Inr_iff split: if_splits)
  moreover have "input_ok allow (s\<lparr>in_items := in_items s @ [[(''role'', VStr ''user''), (''content'', VStr t)]]\<rparr>)"
    using ok by (rule input_ok_neutral) (rule plain_item_types)+
  moreover have "input_ok allow (s\<lparr>in_instructions := in_instructions s @ [t]\<rparr>)" using ok by (simp add: input_ok_def)
  ultimately show "input_ok allow s'" using ok by blast
qed

lemma tool_ok: "input_ok allow s \<Longrightarrow> tool_message allow m s = Inr s' \<Longrightarrow> input_ok allow s'"
proof -
  assume ok: "input_ok allow s" and conv: "tool_message allow m s = Inr s'"
  obtain c t where c: "c \<in> in_calls s \<or> allow" "c \<notin> in_answered s"
    "s' = s\<lparr>in_answered := insert c (in_answered s),
       in_items := in_items s @ [[(''type'', VStr ''function_call_output''), (''call_id'', VStr c), (''output'', VStr t)]]\<rparr>"
    using conv by (auto simp: tool_message_def bnd_Inr_iff split: pyval.splits if_splits)
  have item: "is_output [(''type'', VStr ''function_call_output''), (''call_id'', VStr c), (''output'', VStr t)]"
    "\<not> is_function_call [(''type'', VStr ''function_call_output''), (''call_id'', VStr c), (''output'', VStr t)]"
    "get [(''type'', VStr ''function_call_output''), (''call_id'', VStr c), (''output'', VStr t)] ''call_id'' = VStr c"
    by (simp_all add: is_output_def is_function_call_def get_def)
  show ?thesis using ok c by (auto simp: input_ok_def io_single item outputs_follow_snoc)
qed

lemma validated_types:
  "validated_item raw = Inr item \<Longrightarrow> get item ''type'' \<in> set OUTPUT_ITEM_TYPES"
  by (auto simp: validated_item_def bnd_Inr_iff in_set_def split: pyval.splits if_splits)

lemma each_members: "each f xs = Inr ys \<Longrightarrow> list_all2 (\<lambda>x y. f x = Inr y) xs ys"
  by (induction xs arbitrary: ys) (auto simp: bnd_Inr_iff)

lemma validated_all: "validated_response_items v = Inr items \<Longrightarrow> \<forall>i \<in> set items. get i ''type'' \<in> set OUTPUT_ITEM_TYPES"
proof -
  assume ok: "validated_response_items v = Inr items"
  then obtain raws where "each validated_item raws = Inr items" by (auto simp: validated_response_items_def split: pyval.splits)
  then have "list_all2 (\<lambda>x y. validated_item x = Inr y) raws items" by (rule each_members)
  then show ?thesis using validated_types by (fastforce simp: list_all2_conv_all_nth in_set_conv_nth)
qed

lemma validated_no_outputs: "validated_response_items v = Inr items \<Longrightarrow> outputs_in items = []"
  using validated_all [of v items] by (auto simp: outputs_in_def filter_empty_conv is_output_def OUTPUT_ITEM_TYPES_def)

lemma replay_ok: "input_ok allow s \<Longrightarrow> replay_message canon m s = Inr s' \<Longrightarrow> input_ok allow s'"
proof -
  assume ok: "input_ok allow s" and conv: "replay_message canon m s = Inr s'"
  obtain items s1 where items: "validated_response_items (get m ''response_items'') = Inr items"
    and reg: "each_step (\<lambda>item. register_call (get item ''call_id'')) (filter is_function_call items) s = Inr s1"
    and s': "s' = s1\<lparr>in_items := in_items s1 @ items\<rparr>"
    using conv by (auto simp: replay_message_def bnd_Inr_iff)
  obtain cs where cs: "calls_in items = map VStr cs" "distinct cs" "set cs \<inter> in_calls s = {}" "s1 = s\<lparr>in_calls := set cs \<union> in_calls s\<rparr>"
    using register_all [OF reg] unfolding calls_in_def by blast
  have "distinct (map VStr cs)" using cs(2) by (simp add: distinct_map inj_on_def)
  then show ?thesis
    using ok cs validated_no_outputs [OF items] outputs_follow_append [of "in_items s" items]
    by (auto simp: input_ok_def s')
qed

lemma content_item_ok: "input_ok allow s \<Longrightarrow> content_item m s = Inr s' \<Longrightarrow> input_ok allow s'"
proof -
  assume ok: "input_ok allow s" and conv: "content_item m s = Inr s'"
  have "s' = s \<or> (\<exists>c p. phase_field m = Inr p \<and> s' = s\<lparr>in_items := in_items s @ [[(''role'', get m ''role''), (''content'', c)] @ p]\<rparr>)"
    using conv by (auto simp: content_item_def bnd_Inr_iff split: if_splits)
  moreover have "p = [] \<or> (\<exists>v. p = [(''phase'', v)])" if "phase_field m = Inr p" for p
    using that by (auto simp: phase_field_def bnd_Inr_iff split: if_splits)
  ultimately show ?thesis
    using ok input_ok_neutral [OF ok plain_item_types(1,2)] input_ok_neutral [OF ok plain_item_types(3,4)] by fastforce
qed

lemma legacy_call_ok: "input_ok allow s \<Longrightarrow> legacy_call call s = Inr s' \<Longrightarrow> input_ok allow s'"
proof -
  assume ok: "input_ok allow s" and conv: "legacy_call call s = Inr s'"
  obtain c n a where c: "c \<notin> in_calls s"
    and s': "s' = s\<lparr>in_calls := insert c (in_calls s), in_items := in_items s @
        [[(''type'', VStr ''function_call''), (''call_id'', VStr c), (''name'', n), (''arguments'', a)]]\<rparr>"
    using conv by (auto simp: legacy_call_def register_call_def bnd_Inr_iff split: pyval.splits if_splits)
  have item: "is_function_call [(''type'', VStr ''function_call''), (''call_id'', VStr c), (''name'', n), (''arguments'', a)]"
    "\<not> is_output [(''type'', VStr ''function_call''), (''call_id'', VStr c), (''name'', n), (''arguments'', a)]"
    "get [(''type'', VStr ''function_call''), (''call_id'', VStr c), (''name'', n), (''arguments'', a)] ''call_id'' = VStr c"
    by (simp_all add: is_output_def is_function_call_def get_def)
  show ?thesis using ok c by (auto simp: input_ok_def io_single item outputs_follow_snoc s')
qed

lemma chat_ok: "input_ok allow s \<Longrightarrow> chat_message m s = Inr s' \<Longrightarrow> input_ok allow s'"
proof -
  assume ok: "input_ok allow s" and conv: "chat_message m s = Inr s'"
  obtain s1 calls where s1: "content_item m s = Inr s1" and calls: "each_step legacy_call calls s1 = Inr s'"
    using conv by (auto simp: chat_message_def bnd_Inr_iff split: if_splits)
  show ?thesis using calls content_item_ok [OF ok s1] legacy_call_ok by (rule each_step_keeps)
qed

lemma convert_ok: "input_ok allow s \<Longrightarrow> convert_message canon allow m s = Inr s' \<Longrightarrow> input_ok allow s'"
  unfolding convert_message_def by (simp only: split: if_splits) (erule (1) system_ok tool_ok replay_ok chat_ok)+

text \<open>
  C9. A request that is sent to the Responses endpoint is closed: whatever history was converted, in the
  input items each function call has an id of its own, each id has at most one output, and every output
  comes after the call it answers.
\<close>

theorem input_is_closed:
  assumes "messages_to_input canon False ms = Inr (instructions, items)"
  shows "distinct (calls_in items) \<and> distinct (outputs_in items) \<and>
    (\<forall>xs i ys. items = xs @ i # ys \<longrightarrow> is_output i \<longrightarrow> get i ''call_id'' \<in> set (calls_in xs))"
proof -
  obtain s where s: "each_step (convert_message canon False) ms input_start = Inr s" "items = in_items s"
    using assms by (auto simp: messages_to_input_def bnd_Inr_iff)
  have "input_ok False input_start" by (simp add: input_ok_def input_start_def outputs_follow_def)
  with s(1) have "input_ok False s" by (rule each_step_keeps) (rule convert_ok)
  then show ?thesis by (simp add: input_ok_def outputs_follow_def s(2))
qed

definition sample_canon :: canonical where
  "sample_canon s = (if s = ''{}'' then Some ''{}'' else None)"

definition sample_call :: pyval where
  "sample_call = VDict [(''id'', VStr ''c1''), (''function'', VDict [(''name'', VStr ''ls''), (''arguments'', VStr ''{}'')])]"

definition sample_history :: "message list" where
  "sample_history =
     [[(''role'', VStr ''system''), (''content'', VStr ''be brief'')],
      [(''role'', VStr ''user''), (''content'', VStr ''list'')],
      [(''role'', VStr ''assistant''), (''tool_calls'', VList [sample_call]),
       (''response_items'', VList [VDict [(''type'', VStr ''reasoning''), (''summary'', VNone)],
          VDict [(''type'', VStr ''function_call''), (''call_id'', VStr ''c1''), (''name'', VStr ''ls''), (''arguments'', VStr ''{}'')]])],
      [(''role'', VStr ''tool''), (''tool_call_id'', VStr ''c1''), (''content'', VStr ''a.py'')]]"

definition sample_items :: "message list" where
  "sample_items =
     [[(''role'', VStr ''user''), (''content'', VStr ''list'')],
      [(''type'', VStr ''reasoning'')],
      [(''type'', VStr ''function_call''), (''call_id'', VStr ''c1''), (''name'', VStr ''ls''), (''arguments'', VStr ''{}'')],
      [(''type'', VStr ''function_call_output''), (''call_id'', VStr ''c1''), (''output'', VStr ''a.py'')]]"

lemma sample_input: "messages_to_input sample_canon False sample_history = Inr (Some ''be brief'', sample_items)"
  by code_simp

theorem input_is_closed_witness:
  "distinct (calls_in sample_items) \<and> distinct (outputs_in sample_items) \<and>
   get (last sample_items) ''call_id'' \<in> set (calls_in (butlast sample_items))"
proof -
  have "sample_items = butlast sample_items @ last sample_items # []" "is_output (last sample_items)"
    by (simp_all add: sample_items_def is_output_def get_def)
  then show ?thesis using input_is_closed [OF sample_input] by blast
qed

section \<open>Message by message\<close>

text \<open>Converting a message after a history adds what converting it alone yields.\<close>

definition join :: "InputState \<Rightarrow> InputState \<Rightarrow> InputState" where
  "join s t =
     \<lparr>in_instructions = in_instructions s @ in_instructions t, in_items = in_items s @ in_items t,
      in_calls = in_calls s \<union> in_calls t, in_answered = in_answered s \<union> in_answered t\<rparr>"

lemma join_simps [simp]:
  "in_instructions (join s t) = in_instructions s @ in_instructions t" "in_items (join s t) = in_items s @ in_items t"
  "in_calls (join s t) = in_calls s \<union> in_calls t" "in_answered (join s t) = in_answered s \<union> in_answered t"
  by (simp_all add: join_def)

lemma join_start [simp]: "join s input_start = s"
  by (simp add: join_def input_start_def)

lemma register_join:
  "register_call v t0 = Inr t \<Longrightarrow> in_calls s \<inter> in_calls t = {} \<Longrightarrow> register_call v (join s t0) = Inr (join s t)"
  by (auto simp: register_iff join_def)

lemma register_grows: "register_call v t0 = Inr t \<Longrightarrow> in_calls t0 \<subseteq> in_calls t"
  by (auto simp: register_iff)

lemma legacy_grows: "legacy_call c t0 = Inr t \<Longrightarrow> in_calls t0 \<subseteq> in_calls t"
  by (auto simp: legacy_call_def bnd_Inr_iff register_iff split: pyval.splits)

lemma legacy_join:
  "legacy_call c t0 = Inr t \<Longrightarrow> in_calls s \<inter> in_calls t = {} \<Longrightarrow> legacy_call c (join s t0) = Inr (join s t)"
  by (auto simp: legacy_call_def bnd_Inr_iff register_iff join_def split: pyval.splits)

lemma each_grows:
  assumes "\<And>x t0 t. f x t0 = Inr t \<Longrightarrow> in_calls t0 \<subseteq> in_calls t" and "each_step f xs t0 = Inr t"
  shows "in_calls t0 \<subseteq> in_calls t"
  using assms(2)
proof (induction xs arbitrary: t0)
  case (Cons x xs)
  then obtain t1 where t1: "f x t0 = Inr t1" "each_step f xs t1 = Inr t" by (auto simp: bnd_Inr_iff)
  show ?case using assms(1) [OF t1(1)] Cons.IH [OF t1(2)] by blast
qed simp

lemma each_join:
  assumes "\<And>x t0 t. f x t0 = Inr t \<Longrightarrow> in_calls t0 \<subseteq> in_calls t"
    and "\<And>x t0 t. f x t0 = Inr t \<Longrightarrow> in_calls s \<inter> in_calls t = {} \<Longrightarrow> f x (join s t0) = Inr (join s t)"
    and "each_step f xs t0 = Inr t" and "in_calls s \<inter> in_calls t = {}"
  shows "each_step f xs (join s t0) = Inr (join s t)"
  using assms(3)
proof (induction xs arbitrary: t0)
  case (Cons x xs)
  then obtain t1 where t1: "f x t0 = Inr t1" "each_step f xs t1 = Inr t" by (auto simp: bnd_Inr_iff)
  have sub: "in_calls t1 \<subseteq> in_calls t" using assms(1) t1(2) by (rule each_grows)
  have "in_calls s \<inter> in_calls t1 = {}" using sub assms(4) by blast
  from assms(2) [OF t1(1) this] have "each_step f (x # xs) (join s t0) = each_step f xs (join s t1)" by simp
  also have "\<dots> = Inr (join s t)" by (rule Cons.IH [OF t1(2)])
  finally show ?case .
qed simp

lemma content_join: "content_item m t0 = Inr t \<Longrightarrow> content_item m (join s t0) = Inr (join s t) \<and> in_calls t = in_calls t0"
proof -
  assume conv: "content_item m t0 = Inr t"
  then obtain c where c: "message_content_parts (get m ''content'') = Inr c" by (auto simp: content_item_def bnd_Inr_iff)
  show ?thesis
  proof (cases "truthy c")
    case True
    then obtain p where p: "phase_field m = Inr p" using conv c by (auto simp: content_item_def bnd_Inr_iff)
    have "t = t0\<lparr>in_items := in_items t0 @ [[(''role'', get m ''role''), (''content'', c)] @ p]\<rparr>"
      using conv c True p by (simp add: content_item_def)
    then show ?thesis using c True p by (simp add: content_item_def join_def)
  next
    case False
    then show ?thesis using conv c by (simp add: content_item_def)
  qed
qed

definition alone :: "canonical \<Rightarrow> message \<Rightarrow> InputError + InputState" where
  "alone canon m = convert_message canon True m input_start"

lemma convert_join:
  assumes "alone canon m = Inr t" and "in_calls s \<inter> in_calls t = {}" and "in_answered s \<inter> in_answered t = {}"
    and "in_answered t \<subseteq> in_calls s"
  shows "convert_message canon allow m s = Inr (join s t)"
proof -
  consider (system) "get m ''role'' = VStr ''system''" | (tool) "get m ''role'' = VStr ''tool''"
    | (replay) "get m ''role'' \<noteq> VStr ''system''" "get m ''role'' \<noteq> VStr ''tool''" "get m ''response_items'' \<noteq> VNone"
    | (chat) "get m ''role'' \<noteq> VStr ''system''" "get m ''role'' \<noteq> VStr ''tool''" "get m ''response_items'' = VNone"
    by blast
  then show ?thesis
  proof cases
    case system
    then obtain x where x: "message_text (get m ''content'') = Inr x"
      using assms(1) by (auto simp: alone_def convert_message_def system_message_def bnd_Inr_iff)
    then have "t = (if x = [] then input_start else if truthy (get m ''compacted'')
        then input_start\<lparr>in_items := [[(''role'', VStr ''user''), (''content'', VStr x)]]\<rparr> else input_start\<lparr>in_instructions := [x]\<rparr>)"
      using assms(1) system by (auto simp: alone_def convert_message_def system_message_def input_start_def)
    then show ?thesis using system x by (simp add: convert_message_def system_message_def join_def input_start_def)
  next
    case tool
    then obtain c x where c: "get m ''tool_call_id'' = VStr c" "c \<noteq> []" and x: "message_text (get m ''content'') = Inr x"
      using assms(1) by (auto simp: alone_def convert_message_def tool_message_def bnd_Inr_iff split: pyval.splits if_splits)
    then have t: "t = input_start\<lparr>in_answered := {c},
        in_items := [[(''type'', VStr ''function_call_output''), (''call_id'', VStr c), (''output'', VStr x)]]\<rparr>"
      using assms(1) tool by (simp add: alone_def convert_message_def tool_message_def input_start_def)
    have "c \<notin> in_answered s" "c \<in> in_calls s" using assms(3,4) t by auto
    then show ?thesis using tool c x by (simp add: convert_message_def tool_message_def join_def t input_start_def)
  next
    case replay
    then obtain items t1 where ok: "validated_response_items (get m ''response_items'') = Inr items"
      "verify_replay_tool_calls canon m items = Inr ()"
      and reg: "each_step (\<lambda>item. register_call (get item ''call_id'')) (filter is_function_call items) input_start = Inr t1"
      and t: "t = t1\<lparr>in_items := in_items t1 @ items\<rparr>"
      using assms(1) by (auto simp: alone_def convert_message_def replay_message_def bnd_Inr_iff)
    have dis: "in_calls s \<inter> in_calls t1 = {}" using assms(2) t by simp
    from each_join [OF register_grows register_join reg dis]
    have "each_step (\<lambda>item. register_call (get item ''call_id'')) (filter is_function_call items) s = Inr (join s t1)" by simp
    then show ?thesis using replay ok by (simp add: convert_message_def replay_message_def t join_def)
  next
    case chat
    then obtain t1 calls where role: "in_set (get m ''role'') [VStr ''user'', VStr ''assistant'', VStr ''developer''] = Inr True"
      and t1: "content_item m input_start = Inr t1" and calls: "iterate (get m ''tool_calls'') = Inr calls"
      and t: "each_step legacy_call calls t1 = Inr t"
      using assms(1) by (auto simp: alone_def convert_message_def chat_message_def bnd_Inr_iff split: if_splits)
    have "content_item m s = Inr (join s t1)" using content_join [OF t1, of s] by simp
    moreover have "each_step legacy_call calls (join s t1) = Inr (join s t)"
      using legacy_grows legacy_join t assms(2) by (rule each_join)
    ultimately show ?thesis using chat role calls by (simp add: convert_message_def chat_message_def)
  qed
qed

lemma alone_ok: "alone canon m = Inr t \<Longrightarrow> input_ok True t"
  unfolding alone_def by (rule convert_ok) (simp_all add: input_ok_def input_start_def)

lemma alone_tool:
  assumes "alone canon m = Inr t" and "is_tool_msg m"
  obtains c where "get m ''tool_call_id'' = VStr c" and "in_calls t = {}" and "in_answered t = {c}"
  using assms that
  by (auto simp: alone_def convert_message_def is_tool_msg_def tool_message_def bnd_Inr_iff input_start_def split: pyval.splits if_splits)

lemma legacy_answered: "legacy_call c t0 = Inr t \<Longrightarrow> in_answered t = in_answered t0"
  by (auto simp: legacy_call_def bnd_Inr_iff register_iff split: pyval.splits)

lemma content_answered: "content_item m t0 = Inr t \<Longrightarrow> in_answered t = in_answered t0"
  by (auto simp: content_item_def bnd_Inr_iff split: if_splits)

lemma alone_other:
  assumes "alone canon m = Inr t" and "\<not> is_tool_msg m"
  shows "in_answered t = {}"
proof -
  have start: "in_answered input_start = {}" by (simp add: input_start_def)
  have "in_answered t = {}" if chat: "chat_message m input_start = Inr t"
  proof -
    obtain t1 calls where t1: "content_item m input_start = Inr t1" and calls: "each_step legacy_call calls t1 = Inr t"
      using chat by (auto simp: chat_message_def bnd_Inr_iff split: if_splits)
    have "in_answered t1 = {}" using content_answered [OF t1] start by simp
    with calls show ?thesis by (rule each_step_keeps) (simp add: legacy_answered)
  qed
  moreover have "in_answered t = {}" if replay: "replay_message canon m input_start = Inr t"
  proof -
    obtain items t1 where reg: "each_step (\<lambda>item. register_call (get item ''call_id'')) (filter is_function_call items) input_start = Inr t1"
      and t: "t = t1\<lparr>in_items := in_items t1 @ items\<rparr>"
      using replay by (auto simp: replay_message_def bnd_Inr_iff)
    show ?thesis using register_all [OF reg] start t by auto
  qed
  moreover have "in_answered t = {}" if "system_message m input_start = Inr t"
    using that start by (auto simp: system_message_def bnd_Inr_iff split: if_splits)
  ultimately show ?thesis using assms by (auto simp: alone_def convert_message_def is_tool_msg_def split: if_splits)
qed

lemma legacy_ids:
  "each_step legacy_call calls t0 = Inr t \<Longrightarrow> c \<in> set calls \<Longrightarrow> is_dict c \<and> get (as_dict c) ''id'' \<in> VStr ` in_calls t"
proof (induction calls arbitrary: t0)
  case (Cons d calls)
  then obtain t1 where t1: "legacy_call d t0 = Inr t1" "each_step legacy_call calls t1 = Inr t" by (auto simp: bnd_Inr_iff)
  show ?case
  proof (cases "c \<in> set calls")
    case True
    then show ?thesis by (rule Cons.IH [OF t1(2)])
  next
    case False
    then have c: "c = d" using Cons.prems(2) by simp
    have "is_dict d \<and> get (as_dict d) ''id'' \<in> VStr ` in_calls t1"
      using t1(1) by (auto simp: legacy_call_def bnd_Inr_iff register_iff as_dict_def split: pyval.splits)
    moreover have "in_calls t1 \<subseteq> in_calls t" using legacy_grows t1(2) by (rule each_grows)
    ultimately show ?thesis unfolding c by blast
  qed
qed simp

lemma identity_id: "function_call_identity canon i n a = Inr q \<Longrightarrow> i = VStr (fst q)"
  by (auto simp: function_call_identity_def split: pyval.splits if_splits option.splits)

lemma legacy_identity_id: "legacy_identity canon c = Inr q \<Longrightarrow> is_dict c \<and> get (as_dict c) ''id'' = VStr (fst q)"
  by (auto simp: legacy_identity_def as_dict_def split: pyval.splits dest: identity_id)

lemma each_image: "each f xs = Inr ys \<Longrightarrow> x \<in> set xs \<Longrightarrow> \<exists>y \<in> set ys. f x = Inr y"
  by (induction xs arbitrary: ys) (auto simp: bnd_Inr_iff)

lemma each_origin: "each f xs = Inr ys \<Longrightarrow> y \<in> set ys \<Longrightarrow> \<exists>x \<in> set xs. f x = Inr y"
  by (induction xs arbitrary: ys) (auto simp: bnd_Inr_iff)

text \<open>The ids of an assistant message's tool calls are the ids it registers, also when items are replayed.\<close>

lemma leader_registers:
  assumes "alone canon a = Inr t" and "is_leader a"
  shows "set (call_ids a) \<subseteq> VStr ` in_calls t"
proof -
  have role: "get a ''role'' = VStr ''assistant''" and calls: "truthy (get a ''tool_calls'')" using assms(2) by (simp_all add: is_leader_def)
  have ids: "set (call_ids a) \<subseteq> VStr ` in_calls t"
    if it: "iterate (get a ''tool_calls'') = Inr cs" and all: "\<And>c. c \<in> set cs \<Longrightarrow> is_dict c \<and> get (as_dict c) ''id'' \<in> VStr ` in_calls t" for cs
  proof (cases "get a ''tool_calls''")
    case (VList xs)
    then have "cs = xs" using it calls by (simp add: iterate_def)
    then show ?thesis using all by (auto simp: call_ids_def calls_of_def VList)
  qed (simp_all add: call_ids_def calls_of_def)
  have conv: "convert_message canon True a input_start = Inr t" using assms(1) by (simp add: alone_def)
  show ?thesis
  proof (cases "get a ''response_items'' = VNone")
    case True
    then obtain t1 cs where "iterate (get a ''tool_calls'') = Inr cs" "each_step legacy_call cs t1 = Inr t"
      using conv role by (auto simp: convert_message_def chat_message_def bnd_Inr_iff split: if_splits)
    then show ?thesis using ids legacy_ids by blast
  next
    case False
    then obtain items t1 where ver: "verify_replay_tool_calls canon a items = Inr ()"
      and reg: "each_step (\<lambda>item. register_call (get item ''call_id'')) (filter is_function_call items) input_start = Inr t1"
      and t: "t = t1\<lparr>in_items := in_items t1 @ items\<rparr>"
      using conv role by (auto simp: convert_message_def replay_message_def bnd_Inr_iff)
    have "''tool_calls'' \<in> keys a"
      using calls by (cases "map_of a ''tool_calls''") (auto simp: get_def dest: map_of_some_keys)
    then obtain cs qs where cs: "iterate (get a ''tool_calls'') = Inr cs" "each (legacy_identity canon) cs = Inr qs"
      "each (item_identity canon) (filter is_function_call items) = Inr qs"
      using ver by (auto simp: verify_replay_tool_calls_def bnd_Inr_iff split: if_splits)
    obtain ns where ns: "map (\<lambda>i. get i ''call_id'') (filter is_function_call items) = map VStr ns" "in_calls t = set ns"
      using register_all [OF reg] t by (auto simp: input_start_def)
    have "is_dict c \<and> get (as_dict c) ''id'' \<in> VStr ` in_calls t" if c: "c \<in> set cs" for c
    proof -
      obtain q where q: "q \<in> set qs" "legacy_identity canon c = Inr q" using each_image [OF cs(2) c] by blast
      obtain i where i: "i \<in> set (filter is_function_call items)" "item_identity canon i = Inr q" using each_origin [OF cs(3) q(1)] by blast
      have "VStr (fst q) \<in> set (map (\<lambda>i. get i ''call_id'') (filter is_function_call items))"
        using i identity_id [OF i(2) [unfolded item_identity_def]] by force
      then have "VStr (fst q) \<in> VStr ` in_calls t" unfolding ns by simp
      then show ?thesis using legacy_identity_id [OF q(2)] by simp
    qed
    then show ?thesis using ids [OF cs(1)] by blast
  qed
qed

definition fragment :: "canonical \<Rightarrow> message \<Rightarrow> message list" where
  "fragment canon m = (case alone canon m of Inr t \<Rightarrow> in_items t | Inl _ \<Rightarrow> [])"

definition sent_calls :: "canonical \<Rightarrow> message \<Rightarrow> pyval list" where
  "sent_calls canon m = calls_in (fragment canon m)"

definition presentable :: "canonical \<Rightarrow> message \<Rightarrow> bool" where
  "presentable canon m = (\<exists>r. messages_to_input canon True [m] = Inr r)"

lemma presentable_alone: "presentable canon m \<longleftrightarrow> (\<exists>t. alone canon m = Inr t)"
  by (auto simp: presentable_def alone_def messages_to_input_def bnd_Inr_iff)

lemma sent_alone: "alone canon m = Inr t \<Longrightarrow> set (sent_calls canon m) = VStr ` in_calls t \<and> fragment canon m = in_items t"
  using alone_ok [of canon m t] by (simp add: sent_calls_def fragment_def input_ok_def)

lemma each_step_append: "each_step f (xs @ ys) s = bnd (each_step f xs s) (each_step f ys)"
proof (induction xs arbitrary: s)
  case (Cons x xs)
  then show ?case by (cases "f x s") simp_all
qed simp

lemma results_converted:
  assumes "list_all is_tool_msg rs" and "list_all (presentable canon) rs" and "set (result_ids rs) \<subseteq> VStr ` in_calls s"
    and "distinct (result_ids rs)" and "set (result_ids rs) \<inter> VStr ` in_answered s = {}"
  shows "\<exists>s'. each_step (convert_message canon False) rs s = Inr s' \<and> in_calls s' = in_calls s \<and>
    VStr ` in_answered s' = VStr ` in_answered s \<union> set (result_ids rs) \<and> in_items s' = in_items s @ concat (map (fragment canon) rs)"
  using assms
proof (induction rs arbitrary: s)
  case Nil
  then show ?case by (simp add: result_ids_def)
next
  case (Cons r rs)
  obtain t where t: "alone canon r = Inr t" using Cons.prems(2) by (auto simp: presentable_alone)
  obtain c where c: "get r ''tool_call_id'' = VStr c" "in_calls t = {}" "in_answered t = {c}"
    using Cons.prems(1) by (auto intro: alone_tool [OF t])
  have ids: "result_ids (r # rs) = VStr c # result_ids rs" using c(1) by (simp add: result_ids_def)
  have "c \<in> in_calls s" "c \<notin> in_answered s" using Cons.prems(3,5) by (auto simp: ids)
  then have step: "convert_message canon False r s = Inr (join s t)" using c by (intro convert_join [OF t]) auto
  have "list_all is_tool_msg rs" "list_all (presentable canon) rs" "set (result_ids rs) \<subseteq> VStr ` in_calls (join s t)"
    "distinct (result_ids rs)" "set (result_ids rs) \<inter> VStr ` in_answered (join s t) = {}"
    using Cons.prems c by (auto simp: ids)
  from Cons.IH [OF this] obtain s' where s': "each_step (convert_message canon False) rs (join s t) = Inr s'"
    "in_calls s' = in_calls (join s t)" "VStr ` in_answered s' = VStr ` in_answered (join s t) \<union> set (result_ids rs)"
    "in_items s' = in_items (join s t) @ concat (map (fragment canon) rs)"
    by blast
  have "VStr ` in_answered s' = VStr ` in_answered s \<union> set (result_ids (r # rs))"
    using s'(3) c(3) unfolding ids by auto
  moreover have "in_items s' = in_items s @ concat (map (fragment canon) (r # rs))"
    using s'(4) sent_alone [OF t] by simp
  moreover have "each_step (convert_message canon False) (r # rs) s = Inr s'" using step s'(1) by simp
  moreover have "in_calls s' = in_calls s" using s'(2) c(2) by simp
  ultimately show ?case by blast
qed

lemma tool_sends_nothing: "presentable canon m \<Longrightarrow> is_tool_msg m \<Longrightarrow> sent_calls canon m = []"
proof -
  assume "presentable canon m" and tool: "is_tool_msg m"
  then obtain t where t: "alone canon m = Inr t" by (auto simp: presentable_alone)
  have "in_calls t = {}" using tool by (auto intro: alone_tool [OF t])
  then show ?thesis using sent_alone [OF t] by simp
qed

lemma group_converted:
  assumes "group_ok g" and "span_is_safe_to_compact g" and "list_all (presentable canon) g"
    and "set (concat (map (sent_calls canon) g)) \<inter> VStr ` in_calls s = {}" and "in_answered s \<subseteq> in_calls s"
  shows "\<exists>s'. each_step (convert_message canon False) g s = Inr s' \<and>
    VStr ` in_calls s' = VStr ` in_calls s \<union> set (concat (map (sent_calls canon) g)) \<and> in_answered s' \<subseteq> in_calls s' \<and>
    in_items s' = in_items s @ concat (map (fragment canon) g)"
proof (cases g)
  case Nil
  then show ?thesis using assms(1) by (simp add: group_ok_def)
next
  case (Cons m rs)
  obtain t where t: "alone canon m = Inr t" using assms(3) by (auto simp: Cons presentable_alone)
  have not_tool: "\<not> is_tool_msg m" and complete: "is_leader m \<longrightarrow> is_complete_tool_exchange g"
    using assms(2) by (auto simp: span_is_safe_to_compact_def Cons split: if_splits)
  have none: "in_answered t = {}" by (rule alone_other [OF t not_tool])
  have new: "in_calls s \<inter> in_calls t = {}" using assms(4) sent_alone [OF t] by (auto simp: Cons)
  then have step: "convert_message canon False m s = Inr (join s t)" by (intro convert_join [OF t]) (simp_all add: none)
  show ?thesis
  proof (cases "is_leader m")
    case True
    then have rs: "list_all is_tool_msg rs" using assms(1) by (simp add: group_ok_def Cons)
    then have "filter is_tool_msg rs = rs" by (simp add: list_all_iff filter_id_conv)
    then have ids: "ids_ok (result_ids rs)" "set (result_ids rs) = set (call_ids m)"
      using complete True by (auto simp: is_complete_tool_exchange_def Cons Let_def)
    have known: "set (result_ids rs) \<subseteq> VStr ` in_calls t" using leader_registers [OF t True] ids(2) by simp
    have "set (result_ids rs) \<subseteq> VStr ` in_calls (join s t)" "distinct (result_ids rs)"
      "set (result_ids rs) \<inter> VStr ` in_answered (join s t) = {}" "list_all (presentable canon) rs"
      using known ids(1) new none assms(3,5) by (auto simp: ids_ok_def Cons)
    from results_converted [OF rs this(4) this(1-3)] obtain s' where s': "each_step (convert_message canon False) rs (join s t) = Inr s'"
      "in_calls s' = in_calls (join s t)" "VStr ` in_answered s' = VStr ` in_answered (join s t) \<union> set (result_ids rs)"
      "in_items s' = in_items (join s t) @ concat (map (fragment canon) rs)"
      by blast
    have silent: "concat (map (sent_calls canon) rs) = []"
      using rs assms(3) tool_sends_nothing by (auto simp: Cons list_all_iff)
    have "VStr ` in_calls s' = VStr ` in_calls s \<union> set (concat (map (sent_calls canon) g))"
      using s'(2) sent_alone [OF t] silent by (simp add: Cons image_Un)
    moreover have "VStr ` in_answered s' \<subseteq> VStr ` in_calls s'"
      using s'(2,3) none known assms(5) by auto
    then have "in_answered s' \<subseteq> in_calls s'" by auto
    moreover have "in_items s' = in_items s @ concat (map (fragment canon) g)" using s'(4) sent_alone [OF t] by (simp add: Cons)
    moreover have "each_step (convert_message canon False) g s = Inr s'" using step s'(1) by (simp add: Cons)
    ultimately show ?thesis by blast
  next
    case False
    then have "rs = []" using assms(1) by (simp add: group_ok_def Cons)
    then show ?thesis using step sent_alone [OF t] none assms(5) by (auto simp: Cons image_Un)
  qed
qed

lemma groups_converted:
  assumes "chained gs" and "list_all span_is_safe_to_compact gs" and "list_all (presentable canon) (concat gs)"
    and "distinct (concat (map (sent_calls canon) (concat gs)))"
    and "set (concat (map (sent_calls canon) (concat gs))) \<inter> VStr ` in_calls s = {}" and "in_answered s \<subseteq> in_calls s"
  shows "\<exists>s'. each_step (convert_message canon False) (concat gs) s = Inr s' \<and>
    in_items s' = in_items s @ concat (map (fragment canon) (concat gs))"
  using assms
proof (induction gs arbitrary: s)
  case Nil
  then show ?case by simp
next
  case (Cons g gs)
  have g: "group_ok g" "span_is_safe_to_compact g" "list_all (presentable canon) g"
    "set (concat (map (sent_calls canon) g)) \<inter> VStr ` in_calls s = {}"
    using Cons.prems by auto
  obtain s1 where s1: "each_step (convert_message canon False) g s = Inr s1"
    "VStr ` in_calls s1 = VStr ` in_calls s \<union> set (concat (map (sent_calls canon) g))" "in_answered s1 \<subseteq> in_calls s1"
    "in_items s1 = in_items s @ concat (map (fragment canon) g)"
    using group_converted [OF g Cons.prems(6)] by blast
  have rest: "chained gs" "list_all span_is_safe_to_compact gs" "list_all (presentable canon) (concat gs)"
    "distinct (concat (map (sent_calls canon) (concat gs)))"
    using Cons.prems(1-4) by simp_all
  have "set (concat (map (sent_calls canon) (concat gs))) \<inter> set (concat (map (sent_calls canon) g)) = {}"
    using Cons.prems(4) by auto
  moreover have "set (concat (map (sent_calls canon) (concat gs))) \<inter> VStr ` in_calls s = {}" using Cons.prems(5) by auto
  ultimately have "set (concat (map (sent_calls canon) (concat gs))) \<inter> VStr ` in_calls s1 = {}" unfolding s1(2) by blast
  from Cons.IH [OF rest this s1(3)] show ?case using s1(1,4) by (auto simp: each_step_append)
qed

text \<open>
  C10. What the session sends is what the Responses endpoint accepts.  Take a transcript whose tool
  exchanges are paired, as the turn driver keeps it, whose messages can each be converted on their own,
  as the token estimate converts them, and in which no call id is used twice.  Then the whole transcript
  converts, no call and no output is refused, and its input items are those of the messages, one after
  the other, so an estimate summed over the messages counts every item that is sent.
\<close>

theorem paired_history_accepted:
  assumes "paired ms" and "list_all (presentable canon) ms" and "distinct (concat (map (sent_calls canon) ms))"
  shows "\<exists>instructions. messages_to_input canon False ms = Inr (instructions, concat (map (fragment canon) ms))"
proof -
  have "list_all span_is_safe_to_compact (groups ms)" using assms(1) by (simp add: paired_def)
  from groups_converted [OF chained_groups this, of canon input_start]
  obtain s where "each_step (convert_message canon False) ms input_start = Inr s" "in_items s = concat (map (fragment canon) ms)"
    using assms(2,3) by (auto simp: input_start_def)
  then show ?thesis by (simp add: messages_to_input_def)
qed

lemma sample_paired: "paired sample_history"
proof -
  have "paired ([] @ [[(''role'', VStr ''system''), (''content'', VStr ''be brief'')]])"
    by (rule paired_plain) (simp_all add: plain_def is_tool_msg_def is_leader_def get_def)
  then have "paired (([] @ [[(''role'', VStr ''system''), (''content'', VStr ''be brief'')]]) @ [[(''role'', VStr ''user''), (''content'', VStr ''list'')]])"
    by (rule paired_plain) (simp_all add: plain_def is_tool_msg_def is_leader_def get_def)
  from paired_exchange [OF this, of "sample_history ! 2" "[sample_history ! 3]"] show ?thesis
    by (simp add: sample_history_def sample_call_def is_leader_def is_tool_msg_def get_def ids_ok_def call_ids_def calls_of_def as_dict_def
        usable_id_def result_ids_def)
qed

lemma sample_presentable: "list_all (presentable sample_canon) sample_history \<and> distinct (concat (map (sent_calls sample_canon) sample_history))"
proof
  have "list_all (\<lambda>m. case messages_to_input sample_canon True [m] of Inr _ \<Rightarrow> True | Inl _ \<Rightarrow> False) sample_history"
    by code_simp
  then show "list_all (presentable sample_canon) sample_history"
    by (rule list.pred_mono_strong) (simp add: presentable_def split: sum.splits)
  show "distinct (concat (map (sent_calls sample_canon) sample_history))" by code_simp
qed

theorem paired_history_accepted_witness:
  "\<exists>instructions. messages_to_input sample_canon False sample_history =
     Inr (instructions, concat (map (fragment sample_canon) sample_history))"
  using paired_history_accepted [OF sample_paired] sample_presentable by blast

text \<open>
  Ids must not return: a transcript in which a later turn uses the id of an earlier one is paired, and the
  session closes its open calls by position, but the conversion refuses it, and with it every later
  request of that session.
\<close>

definition reused_id_history :: "message list" where
  "reused_id_history =
     [[(''role'', VStr ''assistant''), (''tool_calls'', VList [sample_call])],
      [(''role'', VStr ''tool''), (''tool_call_id'', VStr ''c1''), (''content'', VStr ''x'')],
      [(''role'', VStr ''assistant''), (''tool_calls'', VList [sample_call])],
      [(''role'', VStr ''tool''), (''tool_call_id'', VStr ''c1''), (''content'', VStr ''y'')]]"

lemma each_step_stuck: "each_step f xs s = Inl e \<Longrightarrow> each_step f (xs @ ys) s = Inl e"
  by (simp add: each_step_append)

lemma reused_id_refused: "paired reused_id_history \<and> messages_to_input canon False (reused_id_history @ later) = Inl ProtocolErr"
proof
  have one: "paired (ms @ [[(''role'', VStr ''assistant''), (''tool_calls'', VList [sample_call])],
      [(''role'', VStr ''tool''), (''tool_call_id'', VStr ''c1''), (''content'', VStr t)]])" if "paired ms" for ms t
    using that
    by (intro paired_exchange) (simp_all add: sample_call_def is_leader_def is_tool_msg_def get_def ids_ok_def call_ids_def calls_of_def
        as_dict_def usable_id_def result_ids_def)
  from one [OF one [OF paired_Nil]] show "paired reused_id_history" by (simp add: reused_id_history_def)
  have "each_step (convert_message canon False) reused_id_history input_start = Inl ProtocolErr"
    by (simp add: reused_id_history_def sample_call_def convert_message_def chat_message_def tool_message_def content_item_def
        message_content_parts_def message_text_def normalize_text_content_def in_set_def legacy_call_def register_call_def
        arguments_or_empty_def iterate_def get_def input_start_def)
  then show "messages_to_input canon False (reused_id_history @ later) = Inl ProtocolErr"
    unfolding messages_to_input_def by (subst each_step_stuck) simp_all
qed

end
