(* ===== verification/Responses_Stream.thy ===== *)
theory Responses_Stream
  imports Responses_Input
begin

text \<open>
  Native Responses output (\<open>adapters/llm/responses_provider.py\<close>, \<open>_responses_output.py\<close> and
  \<open>responses_structured.py\<close>): the events of a stream, the terminal response, their reconciliation and
  the response the session stores.  An SDK object is the dict of its attributes.  A stream is the list of
  its events; that it ends, or that no event arrives in time, is the end of the list.  The projection of
  reported usage is an argument.
\<close>

section \<open>Errors\<close>

datatype StreamError =
    Protocol
  | PyTypeError
  | Transient nat
  | Terminal "nat option"
  | Interrupted
  | EmptyOutput

definition lift_in :: "InputError + 'a \<Rightarrow> StreamError + 'a" where
  "lift_in r = (case r of Inr a \<Rightarrow> Inr a | Inl TypeErr \<Rightarrow> Inl PyTypeError | Inl _ \<Rightarrow> Inl Protocol)"

lemma lift_in_Inr [simp]: "lift_in r = Inr a \<longleftrightarrow> r = Inr a"
  by (cases r) (auto simp: lift_in_def split: InputError.split)

lemma lift_in_simp [simp]: "lift_in (Inr a) = Inr a"
  by simp

text \<open>What the model takes from its environment: canonical JSON, whether JSON text is an object, \<open>str\<close> and a digest.\<close>

record StreamHost =
  sh_canon :: canonical
  sh_object :: "string \<Rightarrow> bool"
  sh_str :: "pyval \<Rightarrow> string"
  sh_digest :: "string \<Rightarrow> string \<Rightarrow> string \<Rightarrow> string"

definition attr :: "pyval \<Rightarrow> string \<Rightarrow> pyval" where
  "attr v k = get (as_dict v) k"

definition TRANSIENT_RESPONSE_CODES :: "pyval list" where
  "TRANSIENT_RESPONSE_CODES = map VStr
     [''account_wait_queue_full'', ''accounts_temporarily_unavailable'', ''gateway_queue_full'', ''rate_limit_error'',
      ''rate_limit_exceeded'', ''server_error'', ''upstream_error'', ''vector_store_timeout'']"

definition TRANSIENT_RESPONSE_MESSAGES :: "string list" where
  "TRANSIENT_RESPONSE_MESSAGES =
     [''eligible openai accounts are temporarily unavailable'', ''our servers are currently overloaded'', ''rate limit exceeded'',
      ''temporarily unavailable'', ''too many pending requests'', ''upstream http/2 stream failed'']"

text \<open>\<open>str.lower\<close> on code points below U+0100.\<close>

definition lower_char :: "char \<Rightarrow> char" where
  "lower_char c =
     (let n = code c in if (65 \<le> n \<and> n \<le> 90) \<or> (192 \<le> n \<and> n \<le> 222 \<and> n \<noteq> 215) then char_of (n + 32) else c)"

definition error_message :: "StreamHost \<Rightarrow> pyval \<Rightarrow> string" where
  "error_message h error =
     (let text = (\<lambda>v. case v of VStr s \<Rightarrow> s | _ \<Rightarrow> sh_str h v);
          unknown = ''unknown Responses error''
      in case error of
           VDict d \<Rightarrow>
             if truthy (get d ''message'') then text (get d ''message'')
             else if truthy (get d ''code'') then text (get d ''code'')
             else if truthy (get d ''reason'') then text (get d ''reason'') else unknown
         | _ \<Rightarrow> if truthy error then text error else unknown)"

definition raise_response_error :: "StreamHost \<Rightarrow> pyval \<Rightarrow> StreamError" where
  "raise_response_error h error =
     (let message = map lower_char (error_message h error); code = attr error ''code''
      in case lift_in (in_set code TRANSIENT_RESPONSE_CODES) of
           Inl e \<Rightarrow> e
         | Inr known \<Rightarrow>
             if known \<or> list_ex (\<lambda>f. sublist f message) TRANSIENT_RESPONSE_MESSAGES
             then Transient (if code = VStr ''rate_limit_exceeded'' then 429 else 503)
             else Terminal (if code \<in> {VStr ''context_length_exceeded'', VStr ''string_above_max_length''} then Some 400 else None))"

definition event_error_data :: "pyval \<Rightarrow> pyval" where
  "event_error_data ev =
     (let own = to_plain_data (attr ev ''error'');
          typed = (if own = VNone \<and> attr ev ''type'' = VStr ''error''
                   then let p = to_plain_data ev
                        in VDict [(''code'', attr p ''code''), (''message'', attr p ''message''), (''param'', attr p ''param'')]
                   else own);
          response = to_plain_data (attr (attr ev ''response'') ''error'')
      in if typed \<noteq> VNone then typed
         else if response \<noteq> VNone then response
         else to_plain_data (attr (attr ev ''response'') ''incomplete_details''))"

section \<open>Stream state\<close>

record StreamState =
  by_index :: "(int \<times> message) list"
  output_items :: "message list"
  fragments :: "(int \<times> string list) list"
  completed_response :: pyval

definition stream_start :: StreamState where
  "stream_start = \<lparr>by_index = [], output_items = [], fragments = [], completed_response = VNone\<rparr>"

definition accept_call :: "int \<Rightarrow> message \<Rightarrow> StreamState \<Rightarrow> StreamError + StreamState" where
  "accept_call index item s =
     (case (get item ''call_id'', get item ''arguments'', get item ''name'') of
        (VStr c, VStr a, VStr n) \<Rightarrow>
          if c = [] \<or> (\<exists>prior \<in> set (output_items s). is_function_call prior \<and> get prior ''call_id'' = VStr c) then Inl Protocol
          else (let parts = (case map_of (fragments s) index of Some ps \<Rightarrow> ps | None \<Rightarrow> [])
                in if (parts \<noteq> [] \<and> concat parts \<noteq> a) \<or> n = [] then Inl Protocol
                   else Inr (s\<lparr>fragments := AList.delete index (fragments s)\<rparr>))
      | _ \<Rightarrow> Inl Protocol)"

definition accept_output_item :: "pyval \<Rightarrow> pyval \<Rightarrow> StreamState \<Rightarrow> StreamError + StreamState" where
  "accept_output_item output_index raw s =
     (case (output_index, to_plain_data raw) of
        (VInt index, VDict item) \<Rightarrow>
          if index < 0 \<or> index \<in> keys (by_index s) then Inl Protocol
          else bnd (lift_in (in_set (get item ''type'') OUTPUT_ITEM_TYPES)) (\<lambda>known.
               if \<not> known then Inl Protocol
               else bnd (if is_function_call item then accept_call index item s else Inr s) (\<lambda>s1.
                    let d = AList.update index item (by_index s1)
                    in Inr (s1\<lparr>by_index := d, output_items := map snd (sort_key fst d)\<rparr>)))
      | _ \<Rightarrow> Inl Protocol)"

definition response_model :: "pyval \<Rightarrow> StreamError + string" where
  "response_model response = (case attr response ''model'' of VStr m \<Rightarrow> if m = [] then Inl Protocol else Inr m | _ \<Rightarrow> Inl Protocol)"

definition validate_terminal_response :: "pyval \<Rightarrow> StreamError + (string \<times> string)" where
  "validate_terminal_response response =
     (let status = attr response ''status''; incomplete = to_plain_data (attr response ''incomplete_details'')
      in bnd (lift_in (in_set status [VStr ''completed'', VStr ''incomplete''])) (\<lambda>known.
         if \<not> known \<or> to_plain_data (attr response ''error'') \<noteq> VNone \<or> (status = VStr ''completed'' \<and> incomplete \<noteq> VNone)
         then Inl Protocol
         else if status = VStr ''incomplete''
         then bnd (lift_in (in_set (attr incomplete ''reason'') [VStr ''max_tokens'', VStr ''max_output_tokens''])) (\<lambda>limit.
              if limit then bnd (response_model response) (\<lambda>m. Inr (m, ''max_tokens'')) else Inl Protocol)
         else bnd (response_model response) (\<lambda>m. Inr (m, ''stop''))))"

definition PASSIVE_EVENT_TYPES :: "pyval list" where
  "PASSIVE_EVENT_TYPES = map VStr
     [''response.created'', ''response.in_progress'', ''response.queued'', ''response.output_item.added'',
      ''response.content_part.added'', ''response.content_part.done'', ''response.output_text.delta'', ''response.output_text.done'',
      ''response.output_text.annotation.added'', ''response.refusal.delta'', ''response.refusal.done'',
      ''response.reasoning_summary_part.added'', ''response.reasoning_summary_part.done'', ''response.reasoning_summary_text.delta'',
      ''response.reasoning_summary_text.done'', ''response.reasoning_text.delta'', ''response.reasoning_text.done'',
      ''keepalive'', ''response.keepalive'']"

text \<open>The flag says that the event ends the stream.\<close>

definition handle_event :: "StreamHost \<Rightarrow> pyval \<Rightarrow> StreamState \<Rightarrow> StreamError + (StreamState \<times> bool)" where
  "handle_event h ev s =
     (case attr ev ''type'' of
        VStr t \<Rightarrow>
          let response = attr ev ''response''; done = s\<lparr>completed_response := response\<rparr> in
          if t = [] then Inl Protocol
          else if t \<in> {''error'', ''response.failed''} then Inl (raise_response_error h (event_error_data ev))
          else if t = ''response.incomplete'' then
            (if attr response ''status'' \<noteq> VStr ''incomplete'' then Inl (Terminal None)
             else bnd (validate_terminal_response response) (\<lambda>_. Inr (done, True)))
          else if t = ''response.function_call_arguments.delta'' then
            (case (attr ev ''output_index'', attr ev ''delta'') of
               (VInt i, VStr delta) \<Rightarrow>
                 Inr (s\<lparr>fragments := AList.update i
                          ((case map_of (fragments s) i of Some ps \<Rightarrow> ps | None \<Rightarrow> []) @ [delta]) (fragments s)\<rparr>, False)
             | _ \<Rightarrow> Inl Protocol)
          else if t = ''response.function_call_arguments.done'' then
            (case (attr ev ''output_index'', attr ev ''arguments'') of
               (VInt i, VStr a) \<Rightarrow>
                 (case map_of (fragments s) i of
                    Some ps \<Rightarrow> if ps \<noteq> [] \<and> concat ps \<noteq> a then Inl Protocol else Inr (s, False)
                  | None \<Rightarrow> Inr (s, False))
             | _ \<Rightarrow> Inl Protocol)
          else if t = ''response.output_item.done'' then
            bnd (accept_output_item (attr ev ''output_index'') (attr ev ''item'') s) (\<lambda>s'. Inr (s', False))
          else if t = ''response.completed'' then
            (if response = VNone then Inl Protocol
             else bnd (validate_terminal_response response) (\<lambda>_. Inr (done, True)))
          else if VStr t \<in> set PASSIVE_EVENT_TYPES then Inr (s, False)
          else Inl Protocol
      | _ \<Rightarrow> Inl Protocol)"

fun read_events :: "StreamHost \<Rightarrow> pyval list \<Rightarrow> StreamState \<Rightarrow> StreamError + StreamState" where
  "read_events h [] s = Inl Interrupted"
| "read_events h (ev # evs) s = bnd (handle_event h ev s) (\<lambda>(s', stop). if stop then Inr s' else read_events h evs s')"

definition is_cut_call :: "message \<Rightarrow> bool" where
  "is_cut_call item = (is_function_call item \<and> get item ''status'' = VStr ''incomplete'')"

text \<open>Argument text of calls that the token limit cut off may be left over.\<close>

definition drain_stream :: "StreamHost \<Rightarrow> pyval list \<Rightarrow> StreamState \<Rightarrow> StreamError + StreamState" where
  "drain_stream h evs s0 =
     bnd (read_events h evs s0) (\<lambda>s.
     if fragments s = [] then Inr s
     else bnd (validate_terminal_response (completed_response s)) (\<lambda>(_, ended).
          bnd (lift_in (validated_response_items (to_plain_data (attr (completed_response s) ''output'')))) (\<lambda>output.
          if ended = ''max_tokens'' \<and>
             list_all (\<lambda>(i, ps). 0 \<le> i \<and> i < int (length output) \<and> is_cut_call (output ! nat i) \<and>
                                 get (output ! nat i) ''arguments'' = VStr (concat ps)) (fragments s)
          then Inr (s\<lparr>fragments := []\<rparr>) else Inl Protocol)))"

section \<open>What an item means\<close>

definition output_part :: "pyval \<Rightarrow> string list" where
  "output_part part =
     (case part of
        VDict d \<Rightarrow>
          if get d ''type'' = VStr ''output_text'' \<and> is_str (get d ''text'') then (case get d ''text'' of VStr t \<Rightarrow> [t] | _ \<Rightarrow> [])
          else if get d ''type'' = VStr ''refusal'' then (case get d ''refusal'' of VStr t \<Rightarrow> [t] | _ \<Rightarrow> [])
          else []
      | _ \<Rightarrow> [])"

definition output_text :: "message \<Rightarrow> InputError + string" where
  "output_text item =
     (if get item ''type'' \<noteq> VStr ''message'' then Inr []
      else bnd (iterate (get item ''content'')) (\<lambda>parts. Inr (concat (concat (map output_part parts)))))"

definition text_field :: "pyval \<Rightarrow> string list" where
  "text_field part = (case part of VDict d \<Rightarrow> (case get d ''text'' of VStr t \<Rightarrow> [t] | _ \<Rightarrow> []) | _ \<Rightarrow> [])"

definition reasoning_text :: "message \<Rightarrow> InputError + string" where
  "reasoning_text item =
     (if get item ''type'' \<noteq> VStr ''reasoning'' then Inr []
      else bnd (iterate (get item ''content'')) (\<lambda>parts.
           let content = py_join [CHR 0x0A] (concat (map text_field parts))
           in if content \<noteq> [] then Inr content
              else bnd (iterate (get item ''summary'')) (\<lambda>parts. Inr (py_join [CHR 0x0A] (concat (map text_field parts))))))"

datatype Meaning =
    Calls "string \<times> string \<times> string"
  | Says string "(string \<times> string) list"
  | Thinks "(pyval \<times> string) list" "string list"

definition message_part :: "pyval \<Rightarrow> InputError + (string \<times> string)" where
  "message_part part =
     (case part of
        VDict d \<Rightarrow>
          (case (get d ''type'', get d ''text'', get d ''refusal'') of
             (VStr ty, VStr t, _) \<Rightarrow>
               if ty = ''output_text'' then Inr (ty, t)
               else (case get d ''refusal'' of VStr r \<Rightarrow> if ty = ''refusal'' then Inr (ty, r) else Inl ProtocolErr | _ \<Rightarrow> Inl ProtocolErr)
           | (VStr ty, _, VStr r) \<Rightarrow> if ty = ''refusal'' then Inr (ty, r) else Inl ProtocolErr
           | _ \<Rightarrow> Inl ProtocolErr)
      | _ \<Rightarrow> Inl ProtocolErr)"

definition reasoning_part :: "pyval \<Rightarrow> InputError + string" where
  "reasoning_part part =
     (case part of
        VDict d \<Rightarrow> if get d ''type'' = VStr ''reasoning_text''
                   then (case get d ''text'' of VStr t \<Rightarrow> Inr t | _ \<Rightarrow> Inl ProtocolErr) else Inl ProtocolErr
      | _ \<Rightarrow> Inl ProtocolErr)"

definition summary_part :: "pyval \<Rightarrow> InputError + (pyval \<times> string)" where
  "summary_part part =
     (case part of
        VDict d \<Rightarrow> (case get d ''text'' of VStr t \<Rightarrow> Inr (get d ''type'', t) | _ \<Rightarrow> Inl ProtocolErr)
      | _ \<Rightarrow> Inl ProtocolErr)"

definition semantic_output_item :: "canonical \<Rightarrow> message \<Rightarrow> InputError + Meaning" where
  "semantic_output_item canon item =
     (if is_function_call item then bnd (item_identity canon item) (\<lambda>q. Inr (Calls q))
      else if get item ''type'' = VStr ''message'' then
        (case get item ''role'' of
           VStr role \<Rightarrow>
             if role = [] then Inl ProtocolErr
             else bnd (if get item ''phase'' = VNone then Inr True
                       else in_set (get item ''phase'') [VStr ''commentary'', VStr ''final_answer'']) (\<lambda>ok.
                  if \<not> ok then Inl ProtocolErr
                  else bnd (bnd (iterate (get item ''content'')) (each message_part)) (\<lambda>parts. Inr (Says role parts)))
         | _ \<Rightarrow> Inl ProtocolErr)
      else if get item ''type'' = VStr ''reasoning'' then
        bnd (bnd (iterate (get item ''content'')) (each reasoning_part)) (\<lambda>content.
        bnd (bnd (iterate (get item ''summary'')) (each summary_part)) (\<lambda>summaries. Inr (Thinks summaries content)))
      else Inl ProtocolErr)"

definition projected_field :: "message \<Rightarrow> string option" where
  "projected_field item =
     (if get item ''type'' = VStr ''message'' then Some ''phase''
      else if get item ''type'' = VStr ''reasoning'' then Some ''encrypted_content'' else None)"

definition output_items_agree :: "canonical \<Rightarrow> message \<Rightarrow> message \<Rightarrow> InputError + bool" where
  "output_items_agree canon streamed terminal =
     bnd (semantic_output_item canon streamed) (\<lambda>a.
     bnd (semantic_output_item canon terminal) (\<lambda>b.
     if a \<noteq> b then Inr False
     else case projected_field streamed of
            None \<Rightarrow> Inr True
          | Some field \<Rightarrow>
              (let x = get streamed field; y = get terminal field
               in if field = ''encrypted_content'' \<and> ((x \<noteq> VNone \<and> \<not> is_str x) \<or> (y \<noteq> VNone \<and> \<not> is_str y)) then Inl ProtocolErr
                  else Inr (x = VNone \<or> y = VNone \<or> x = y))))"

definition merge_terminal_projection :: "message \<Rightarrow> message \<Rightarrow> message" where
  "merge_terminal_projection streamed terminal =
     (case projected_field streamed of
        None \<Rightarrow> streamed
      | Some field \<Rightarrow>
          if get streamed field = VNone \<and> get terminal field \<noteq> VNone
          then AList.update field (get terminal field) streamed else streamed)"

section \<open>The response\<close>

text \<open>\<open>any\<close> and \<open>all\<close> over tests that may raise.\<close>

fun any_of :: "('a \<Rightarrow> 'e + bool) \<Rightarrow> 'a list \<Rightarrow> 'e + bool" where
  "any_of f [] = Inr False"
| "any_of f (x # xs) = bnd (f x) (\<lambda>b. if b then Inr True else any_of f xs)"

fun all_of :: "('a \<Rightarrow> 'e + bool) \<Rightarrow> 'a list \<Rightarrow> 'e + bool" where
  "all_of f [] = Inr True"
| "all_of f (x # xs) = bnd (f x) (\<lambda>b. if b then all_of f xs else Inr False)"

text \<open>The items of the response; \<open>trust\<close> is the compatibility switch of the environment.\<close>

definition reconcile :: "canonical \<Rightarrow> bool \<Rightarrow> string \<Rightarrow> StreamState \<Rightarrow> InputError + message list" where
  "reconcile canon trust ended s =
     bnd (each (item_identity canon) (filter (\<lambda>i. is_function_call i \<and> \<not> is_cut_call i) (output_items s))) (\<lambda>_.
     bnd (validated_response_items (to_plain_data (attr (completed_response s) ''output''))) (\<lambda>final.
     bnd (any_of (\<lambda>(i, item). if int (length final) \<le> i then Inr True
                            else bnd (output_items_agree canon item (final ! nat i)) (\<lambda>b. Inr (\<not> b)))
            (filter (\<lambda>(_, item). \<not> is_cut_call item) (by_index s))) (\<lambda>indexed_mismatch.
     let cut = list_ex is_cut_call final in
     if cut \<and> ended \<noteq> ''max_tokens'' then Inl ProtocolErr
     else let final_items = (if cut then filter (\<lambda>i. \<not> is_cut_call i) final else final);
              items = (if cut then filter (\<lambda>i. \<not> is_cut_call i) (output_items s) else output_items s)
          in bnd (if indexed_mismatch \<or> length final_items \<noteq> length items then Inr False
                  else all_of (\<lambda>(x, y). output_items_agree canon x y) (zip items final_items)) (\<lambda>agree.
             if agree then Inr (map2 merge_terminal_projection items final_items)
             else if trust \<and> items \<noteq> [] then Inr items else Inl ProtocolErr))))"

definition tool_call_of :: "message \<Rightarrow> message" where
  "tool_call_of item =
     [(''id'', get item ''call_id''), (''type'', VStr ''function''),
      (''function'', VDict [(''name'', get item ''name''), (''arguments'', get item ''arguments'')])]"

definition rescue_empty_turn :: "string option \<Rightarrow> message list \<Rightarrow> string option \<Rightarrow> string option" where
  "rescue_empty_turn content calls reasoning =
     (if (case content of None \<Rightarrow> True | Some t \<Rightarrow> py_strip t = []) \<and> calls = [] then reasoning else content)"

definition text_or_none :: "string \<Rightarrow> string option" where
  "text_or_none t = (if t = [] then None else Some t)"

text \<open>A named tool answered as schema-bound text becomes one function call.\<close>

definition project_forced_text_tool :: "StreamHost \<Rightarrow> string \<Rightarrow> string \<Rightarrow> string \<Rightarrow> InputError + (message \<times> message)" where
  "project_forced_text_tool h name content identity =
     (case sh_canon h content of
        Some arguments \<Rightarrow>
          if \<not> sh_object h content then Inl ValueErr
          else (let digest = take 24 (sh_digest h identity name arguments); call_id = ''call_schema_'' @ digest
                in Inr ([(''id'', VStr call_id), (''type'', VStr ''function''),
                         (''function'', VDict [(''name'', VStr name), (''arguments'', VStr arguments)])],
                        [(''id'', VStr (''fc_'' @ digest)), (''type'', VStr ''function_call''), (''status'', VStr ''completed''),
                         (''call_id'', VStr call_id), (''name'', VStr name), (''arguments'', VStr arguments)]))
      | None \<Rightarrow> Inl ValueErr)"

definition bind_forced_tool ::
  "StreamHost \<Rightarrow> string option \<Rightarrow> string \<Rightarrow> pyval \<Rightarrow> message list \<Rightarrow> string option \<Rightarrow> StreamError + (message list \<times> message list \<times> string option)" where
  "bind_forced_tool h forced ended response items content =
     (let calls = map tool_call_of (filter is_function_call items)
      in case forced of
           None \<Rightarrow> Inr (items, calls, content)
         | Some name \<Rightarrow>
             if calls \<noteq> [] then Inl Protocol
             else if ended \<noteq> ''stop'' then Inr (items, calls, content)
             else (case (content, attr response ''id'') of
                     (None, _) \<Rightarrow> Inl EmptyOutput
                   | (Some t, VStr i) \<Rightarrow>
                       if i = [] then Inl Protocol
                       else bnd (lift_in (project_forced_text_tool h name t i)) (\<lambda>(call, item).
                            Inr (filter (\<lambda>i. get i ''type'' = VStr ''reasoning'') items @ [item], [call], None))
                   | _ \<Rightarrow> Inl Protocol))"

definition assemble ::
  "LLMUsage \<Rightarrow> string \<Rightarrow> string \<Rightarrow> string option \<Rightarrow> message list \<Rightarrow> message list \<Rightarrow> string option \<Rightarrow> StreamError + (Response \<times> string)" where
  "assemble usage model ended reasoning items calls content0 =
     (let content = rescue_empty_turn content0 calls reasoning
      in if (content = None \<or> content = Some []) \<and> calls = [] \<and> ended \<noteq> ''max_tokens'' then Inl EmptyOutput
         else Inr (\<lparr>rs_content = (case content of None \<Rightarrow> VNone | Some t \<Rightarrow> VStr t), rs_tool_calls = calls,
                    rs_finish = Some (if calls \<noteq> [] \<and> ended = ''stop'' then ''tool_calls'' else ended), rs_usage = usage,
                    rs_reasoning = (case reasoning of None \<Rightarrow> VNone | Some t \<Rightarrow> VStr t), rs_provider_state = VNone,
                    rs_provider_items = VList (map VDict items)\<rparr>, model))"

definition parse_stream :: "StreamHost \<Rightarrow> bool \<Rightarrow> LLMUsage \<Rightarrow> string option \<Rightarrow> StreamState \<Rightarrow> StreamError + (Response \<times> string)" where
  "parse_stream h trust usage forced s =
     bnd (validate_terminal_response (completed_response s)) (\<lambda>(model, ended).
     bnd (lift_in (reconcile (sh_canon h) trust ended s)) (\<lambda>items0.
     bnd (lift_in (each output_text items0)) (\<lambda>texts.
     bnd (lift_in (each reasoning_text items0)) (\<lambda>thoughts.
     bnd (bind_forced_tool h forced ended (completed_response s) items0 (text_or_none (concat texts))) (\<lambda>(items, calls, content).
     assemble usage model ended (text_or_none (py_join [CHR 0x0A] (filter (\<lambda>t. t \<noteq> []) thoughts))) items calls content)))))"

text \<open>A response that was not streamed is read as if its items had been.\<close>

fun accept_all :: "pyval list \<Rightarrow> StreamState \<Rightarrow> StreamError + StreamState" where
  "accept_all [] s = Inr s"
| "accept_all (item # rest) s =
     bnd (accept_output_item (VInt (int (length (output_items s)))) item s) (accept_all rest)"

definition parse_responses_response ::
  "StreamHost \<Rightarrow> bool \<Rightarrow> LLMUsage \<Rightarrow> string option \<Rightarrow> pyval \<Rightarrow> StreamError + (Response \<times> string)" where
  "parse_responses_response h trust usage forced response =
     (if attr response ''status'' = VStr ''failed''
      then bnd (response_model response) (\<lambda>_. Inl (raise_response_error h (to_plain_data (attr response ''error''))))
      else bnd (validate_terminal_response response) (\<lambda>_.
           case to_plain_data (attr response ''output'') of
             VList items \<Rightarrow>
               bnd (accept_all items (stream_start\<lparr>completed_response := response\<rparr>)) (parse_stream h trust usage forced)
           | _ \<Rightarrow> Inl Protocol))"

end
