(* ===== verification/Responses_Replay.thy ===== *)
theory Responses_Replay
  imports Responses_Stream "HOL-Library.Multiset"
begin

text \<open>
  What holds of a response of the Responses endpoint: the order in which its items finish does not
  matter, its tool calls are the function calls of its items, and the items it stores are replayed
  unchanged by the next request.
\<close>

section \<open>Plain data\<close>

definition plain_dict :: "message \<Rightarrow> bool" where
  "plain_dict d = (\<forall>(k, v) \<in> set d. v \<noteq> VNone \<and> to_plain_data v = v)"

lemma to_plain_none [simp]: "to_plain_data v = VNone \<longleftrightarrow> v = VNone"
  by (cases v) simp_all

lemma to_plain_idem [simp]: "to_plain_data (to_plain_data v) = to_plain_data v"
proof (induction v rule: to_plain_data.induct)
  case (1 d)
  have "map (\<lambda>(k, v). (k, to_plain_data v)) (map (\<lambda>(k, v). (k, to_plain_data v)) (filter (\<lambda>(k, v). v \<noteq> VNone) d)) =
      map (\<lambda>(k, v). (k, to_plain_data v)) (filter (\<lambda>(k, v). v \<noteq> VNone) d)"
    unfolding map_map comp_def using 1 by (intro map_cong refl) auto
  moreover have "filter (\<lambda>(k, v). v \<noteq> VNone) (map (\<lambda>(k, v). (k, to_plain_data v)) (filter (\<lambda>(k, v). v \<noteq> VNone) d)) =
      map (\<lambda>(k, v). (k, to_plain_data v)) (filter (\<lambda>(k, v). v \<noteq> VNone) d)"
    by (auto simp: filter_id_conv)
  ultimately show ?case by (simp del: map_map)
qed simp_all

lemma plain_dict_iff: "to_plain_data (VDict d) = VDict d \<longleftrightarrow> plain_dict d"
proof
  assume p: "to_plain_data (VDict d) = VDict d"
  then have e: "map (\<lambda>(k, v). (k, to_plain_data v)) (filter (\<lambda>(k, v). v \<noteq> VNone) d) = d" by simp
  from arg_cong [OF e, of length] have l: "length (filter (\<lambda>(k, v). v \<noteq> VNone) d) = length d" by simp
  have all: "v \<noteq> VNone" if "(k, v) \<in> set d" for k v
  proof
    assume "v = VNone"
    then have "length (filter (\<lambda>(k, v). v \<noteq> VNone) d) < length d"
      using that by (intro length_filter_less) auto
    then show False using l by simp
  qed
  then have "filter (\<lambda>(k, v). v \<noteq> VNone) d = d" by (auto simp: filter_id_conv)
  then have "map (\<lambda>(k, v). (k, to_plain_data v)) d = map id d" using e by simp
  then have "to_plain_data v = v" if "(k, v) \<in> set d" for k v using that unfolding map_eq_conv by fastforce
  then show "plain_dict d" using all by (auto simp: plain_dict_def)
next
  assume p: "plain_dict d"
  then have "filter (\<lambda>(k, v). v \<noteq> VNone) d = d" by (auto simp: plain_dict_def filter_id_conv)
  moreover have "map (\<lambda>(k, v). (k, to_plain_data v)) d = d" using p by (intro map_idI) (auto simp: plain_dict_def)
  ultimately show "to_plain_data (VDict d) = VDict d" by simp
qed

lemma plain_result: "to_plain_data v = VDict d \<Longrightarrow> plain_dict d"
  by (metis plain_dict_iff to_plain_idem)

lemma plain_get: "plain_dict d \<Longrightarrow> to_plain_data (get d k) = get d k"
  by (force simp: plain_dict_def get_def split: option.split dest: map_of_SomeD)

lemma plain_update: "plain_dict d \<Longrightarrow> to_plain_data v = v \<Longrightarrow> v \<noteq> VNone \<Longrightarrow> plain_dict (AList.update k v d)"
  by (induction d) (auto simp: plain_dict_def)

section \<open>The order of the items\<close>

text \<open>What makes an item acceptable by itself, given the argument text seen so far.\<close>

definition call_fits :: "(int \<times> string list) list \<Rightarrow> int \<Rightarrow> message \<Rightarrow> bool" where
  "call_fits fs i item =
     (\<exists>c a n. get item ''call_id'' = VStr c \<and> c \<noteq> [] \<and> get item ''arguments'' = VStr a \<and> get item ''name'' = VStr n \<and> n \<noteq> [] \<and>
        (case map_of fs i of Some ps \<Rightarrow> ps = [] \<or> concat ps = a | None \<Rightarrow> True))"

definition item_fits :: "(int \<times> string list) list \<Rightarrow> int \<Rightarrow> message \<Rightarrow> bool" where
  "item_fits fs i item =
     (0 \<le> i \<and> plain_dict item \<and> get item ''type'' \<in> set OUTPUT_ITEM_TYPES \<and> (is_function_call item \<longrightarrow> call_fits fs i item))"

definition stream_ok :: "StreamState \<Rightarrow> bool" where
  "stream_ok s =
     (dict_ok (by_index s) \<and> output_items s = map snd (sort_key fst (by_index s)) \<and> distinct (calls_in (output_items s)))"

lemma item_of_type: "is_list (get item ''type'') \<or> is_dict (get item ''type'') \<Longrightarrow> get item ''type'' \<notin> set OUTPUT_ITEM_TYPES"
  by (auto simp: OUTPUT_ITEM_TYPES_def)

lemma accept_iff:
  "accept_output_item v raw s = Inr s' \<longleftrightarrow>
   (\<exists>i item. v = VInt i \<and> to_plain_data raw = VDict item \<and> i \<notin> keys (by_index s) \<and> item_fits (fragments s) i item \<and>
      (is_function_call item \<longrightarrow> get item ''call_id'' \<notin> set (calls_in (output_items s))) \<and>
      s' = s\<lparr>fragments := (if is_function_call item then AList.delete i (fragments s) else fragments s),
             by_index := by_index s @ [(i, item)], output_items := map snd (sort_key fst (by_index s @ [(i, item)]))\<rparr>)"
  (is "_ \<longleftrightarrow> ?r")
proof
  assume acc: "accept_output_item v raw s = Inr s'"
  then obtain i item where v: "v = VInt i" "to_plain_data raw = VDict item" "0 \<le> i" "i \<notin> keys (by_index s)"
    and ty: "get item ''type'' \<in> set OUTPUT_ITEM_TYPES"
    and rest: "bnd (if is_function_call item then accept_call i item s else Inr s) (\<lambda>s1.
        let d = AList.update i item (by_index s1) in Inr (s1\<lparr>by_index := d, output_items := map snd (sort_key fst d)\<rparr>)) = Inr s'"
    by (auto simp: accept_output_item_def bnd_Inr_iff in_set_def split: pyval.splits if_splits)
  have plain: "plain_dict item" using v(2) by (rule plain_result)
  show ?r
  proof (cases "is_function_call item")
    case True
    then have "call_fits (fragments s) i item \<and> get item ''call_id'' \<notin> set (calls_in (output_items s)) \<and>
        s' = s\<lparr>fragments := AList.delete i (fragments s), by_index := by_index s @ [(i, item)],
               output_items := map snd (sort_key fst (by_index s @ [(i, item)]))\<rparr>"
      using rest v(4)
      by (auto simp: accept_call_def call_fits_def calls_in_def bnd_Inr_iff Let_def update_new split: pyval.splits if_splits option.splits)
    then show ?thesis using v ty plain True by (auto simp: item_fits_def)
  next
    case False
    then have "s' = s\<lparr>by_index := by_index s @ [(i, item)], output_items := map snd (sort_key fst (by_index s @ [(i, item)]))\<rparr>"
      using rest v(4) by (auto simp: Let_def update_new)
    then show ?thesis using v ty plain False by (auto simp: item_fits_def)
  qed
next
  assume ?r
  then obtain i item where v: "v = VInt i" "to_plain_data raw = VDict item" "i \<notin> keys (by_index s)" "item_fits (fragments s) i item"
    and fresh: "is_function_call item \<longrightarrow> get item ''call_id'' \<notin> set (calls_in (output_items s))"
    and s': "s' = s\<lparr>fragments := (if is_function_call item then AList.delete i (fragments s) else fragments s),
             by_index := by_index s @ [(i, item)], output_items := map snd (sort_key fst (by_index s @ [(i, item)]))\<rparr>"
    by blast
  have ty: "lift_in (in_set (get item ''type'') OUTPUT_ITEM_TYPES) = Inr True" "0 \<le> i"
    using v(4) item_of_type [of item] by (auto simp: item_fits_def in_set_def)
  have call: "accept_call i item s = Inr (s\<lparr>fragments := AList.delete i (fragments s)\<rparr>)" if f: "is_function_call item"
  proof -
    obtain c a n where c: "get item ''call_id'' = VStr c" "c \<noteq> []" "get item ''arguments'' = VStr a" "get item ''name'' = VStr n" "n \<noteq> []"
      "case map_of (fragments s) i of Some ps \<Rightarrow> ps = [] \<or> concat ps = a | None \<Rightarrow> True"
      using v(4) f by (auto simp: item_fits_def call_fits_def)
    have "\<not> (\<exists>prior \<in> set (output_items s). is_function_call prior \<and> get prior ''call_id'' = VStr c)"
      using fresh f c(1) by (force simp: calls_in_def)
    then show ?thesis using c by (auto simp: accept_call_def Let_def split: option.splits)
  qed
  show "accept_output_item v raw s = Inr s'"
    using v(1-3) ty call by (simp add: accept_output_item_def Let_def update_new s')
qed

definition accept_entry :: "pyval \<times> pyval \<Rightarrow> StreamState \<Rightarrow> StreamError + StreamState" where
  "accept_entry e = accept_output_item (fst e) (snd e)"

definition entry :: "pyval \<times> pyval \<Rightarrow> int \<times> message" where
  "entry e = (case fst e of VInt i \<Rightarrow> i | _ \<Rightarrow> 0, as_dict (to_plain_data (snd e)))"

definition entry_fits :: "StreamState \<Rightarrow> pyval \<times> pyval \<Rightarrow> bool" where
  "entry_fits s e = ((\<exists>i. fst e = VInt i) \<and> is_dict (to_plain_data (snd e)) \<and> item_fits (fragments s) (fst (entry e)) (snd (entry e)))"

definition batch_fits :: "StreamState \<Rightarrow> (pyval \<times> pyval) list \<Rightarrow> bool" where
  "batch_fits s es =
     (list_all (entry_fits s) es \<and> dict_ok (by_index s @ map entry es) \<and> distinct (calls_in (map snd (by_index s @ map entry es))))"

lemma calls_mset: "mset (calls_in xs) = image_mset (\<lambda>i. get i ''call_id'') (filter_mset is_function_call (mset xs))"
  by (simp add: calls_in_def)

lemma calls_sorted: "mset (calls_in (map snd (sort_key f d))) = mset (calls_in (map snd d))"
  by (simp add: calls_mset)

lemma accept_entry_step:
  assumes "stream_ok s" and "accept_entry e s = Inr s'"
  shows "stream_ok s' \<and> by_index s' = by_index s @ [entry e] \<and> entry_fits s e \<and> (batch_fits s' es \<longleftrightarrow> batch_fits s (e # es))"
proof -
  obtain i item where e: "fst e = VInt i" "to_plain_data (snd e) = VDict item" "i \<notin> keys (by_index s)"
    and fits: "item_fits (fragments s) i item"
    and fresh: "is_function_call item \<longrightarrow> get item ''call_id'' \<notin> set (calls_in (output_items s))"
    and s': "s' = s\<lparr>fragments := (if is_function_call item then AList.delete i (fragments s) else fragments s),
             by_index := by_index s @ [(i, item)], output_items := map snd (sort_key fst (by_index s @ [(i, item)]))\<rparr>"
    using assms(2) unfolding accept_entry_def accept_iff by blast
  have entry: "entry e = (i, item)" using e by (simp add: entry_def as_dict_def)
  have ok: "dict_ok (by_index s)" "output_items s = map snd (sort_key fst (by_index s))" "distinct (calls_in (output_items s))"
    using assms(1) unfolding stream_ok_def by blast+
  have m: "mset (calls_in (output_items s)) = mset (calls_in (map snd (by_index s)))" unfolding ok(2) by (rule calls_sorted)
  have d: "distinct (calls_in (map snd (by_index s @ [(i, item)])))"
    using fresh ok(3) mset_eq_imp_distinct_iff [OF m] mset_eq_setD [OF m] by (simp add: io_single)
  have m': "mset (calls_in (map snd (sort_key fst (by_index s @ [(i, item)])))) = mset (calls_in (map snd (by_index s @ [(i, item)])))"
    by (rule calls_sorted)
  have "distinct (calls_in (map snd (sort_key fst (by_index s @ [(i, item)]))))"
    using d mset_eq_imp_distinct_iff [OF m'] by simp
  then have stream: "stream_ok s'" using ok(1) e(3) by (simp add: stream_ok_def s')
  have head: "entry_fits s e" using e fits entry by (simp add: entry_fits_def)
  have same: "entry_fits s' f = entry_fits s f" if "fst (entry f) \<noteq> i" for f
    using that by (simp add: entry_fits_def item_fits_def call_fits_def s' delete_conv)
  have "batch_fits s' es \<longleftrightarrow> batch_fits s (e # es)"
  proof
    assume b: "batch_fits s' es"
    then have "\<forall>f \<in> set es. fst (entry f) \<noteq> i" by (auto simp: batch_fits_def s')
    then have "entry_fits s' f = entry_fits s f" if "f \<in> set es" for f using same that by blast
    then show "batch_fits s (e # es)" using b head entry by (auto simp: batch_fits_def list_all_iff s')
  next
    assume b: "batch_fits s (e # es)"
    then have "\<forall>f \<in> set es. fst (entry f) \<noteq> i" by (auto simp: batch_fits_def entry)
    then have "entry_fits s' f = entry_fits s f" if "f \<in> set es" for f using same that by blast
    then show "batch_fits s' es" using b entry by (auto simp: batch_fits_def list_all_iff s')
  qed
  then show ?thesis using stream head entry s' by simp
qed

lemma fitting_entry_accepted:
  assumes "stream_ok s" and "batch_fits s (e # es)"
  shows "\<exists>s'. accept_entry e s = Inr s'"
proof -
  obtain i item where e: "fst e = VInt i" "to_plain_data (snd e) = VDict item"
    using assms(2) by (auto simp: batch_fits_def entry_fits_def is_dict_conv)
  have entry: "entry e = (i, item)" using e by (simp add: entry_def as_dict_def)
  have m: "mset (calls_in (output_items s)) = mset (calls_in (map snd (by_index s)))"
    using assms(1) calls_sorted [of fst "by_index s"] by (simp add: stream_ok_def)
  have "i \<notin> keys (by_index s)" "item_fits (fragments s) i item"
    using assms(2) by (auto simp: batch_fits_def entry entry_fits_def)
  moreover have "is_function_call item \<longrightarrow> get item ''call_id'' \<notin> set (calls_in (output_items s))"
  proof
    assume f: "is_function_call item"
    have "calls_in (map snd (by_index s @ map entry (e # es))) =
        calls_in (map snd (by_index s)) @ get item ''call_id'' # calls_in (map snd (map entry es))"
      using f io_append(1) [of "[item]"] by (simp add: entry io_single)
    then have "get item ''call_id'' \<notin> set (calls_in (map snd (by_index s)))" using assms(2) by (simp add: batch_fits_def)
    then show "get item ''call_id'' \<notin> set (calls_in (output_items s))" using mset_eq_setD [OF m] by simp
  qed
  ultimately show ?thesis using e unfolding accept_entry_def accept_iff by blast
qed

lemma batch_accepted:
  "stream_ok s \<Longrightarrow> (\<exists>s'. each_step accept_entry es s = Inr s') \<longleftrightarrow> batch_fits s es"
proof (induction es arbitrary: s)
  case Nil
  have "mset (calls_in (output_items s)) = mset (calls_in (map snd (by_index s)))"
    using Nil calls_sorted [of fst "by_index s"] by (simp add: stream_ok_def)
  from mset_eq_imp_distinct_iff [OF this] show ?case using Nil by (simp add: batch_fits_def stream_ok_def)
next
  case (Cons e es)
  show ?case
  proof
    assume "\<exists>s'. each_step accept_entry (e # es) s = Inr s'"
    then obtain s1 where s1: "accept_entry e s = Inr s1" "\<exists>s'. each_step accept_entry es s1 = Inr s'" by (auto simp: bnd_Inr_iff)
    then show "batch_fits s (e # es)" using accept_entry_step [OF Cons.prems s1(1)] Cons.IH [of s1] by blast
  next
    assume b: "batch_fits s (e # es)"
    then obtain s1 where s1: "accept_entry e s = Inr s1" using fitting_entry_accepted [OF Cons.prems] by blast
    then have "stream_ok s1" "batch_fits s1 es" using accept_entry_step [OF Cons.prems s1] b by blast+
    then show "\<exists>s'. each_step accept_entry (e # es) s = Inr s'" using Cons.IH [of s1] s1 by auto
  qed
qed

lemma batch_result:
  "stream_ok s \<Longrightarrow> each_step accept_entry es s = Inr s' \<Longrightarrow> stream_ok s' \<and> by_index s' = by_index s @ map entry es"
proof (induction es arbitrary: s)
  case (Cons e es)
  then obtain s1 where s1: "accept_entry e s = Inr s1" "each_step accept_entry es s1 = Inr s'" by (auto simp: bnd_Inr_iff)
  have "stream_ok s1" "by_index s1 = by_index s @ [entry e]" using accept_entry_step [OF Cons.prems(1) s1(1)] by blast+
  then show ?case using Cons.IH [of s1] s1(2) by simp
qed simp

lemma batch_perm:
  assumes "mset es = mset es'"
  shows "batch_fits s es = batch_fits s es'"
proof -
  have m: "mset (map fst (by_index s @ map entry es)) = mset (map fst (by_index s @ map entry es'))"
    "mset (calls_in (map snd (by_index s @ map entry es))) = mset (calls_in (map snd (by_index s @ map entry es')))"
    using assms by (simp_all add: calls_mset)
  show ?thesis
    using mset_eq_setD [OF assms] mset_eq_imp_distinct_iff [OF m(1)] mset_eq_imp_distinct_iff [OF m(2)]
    by (simp add: batch_fits_def list_all_iff)
qed

lemma start_ok: "stream_ok (stream_start\<lparr>fragments := fs, completed_response := r\<rparr>)"
  by (simp add: stream_ok_def stream_start_def)

text \<open>
  The order in which items finish does not matter.  Take the finished items of a stream, each with its
  output index, after any argument text.  If they are accepted in one order they are accepted in every
  order, and the response has the same items in the same places.
\<close>

theorem item_order_irrelevant:
  assumes "mset es = mset es'" and "each_step accept_entry es (stream_start\<lparr>fragments := fs\<rparr>) = Inr s"
  shows "\<exists>s'. each_step accept_entry es' (stream_start\<lparr>fragments := fs\<rparr>) = Inr s' \<and> output_items s' = output_items s"
proof -
  let ?s = "stream_start\<lparr>fragments := fs\<rparr>"
  have ok: "stream_ok ?s" by (simp add: stream_ok_def stream_start_def)
  have "batch_fits ?s es" using assms(2) batch_accepted [OF ok] by blast
  then obtain s' where s': "each_step accept_entry es' ?s = Inr s'"
    using batch_perm [OF assms(1)] batch_accepted [OF ok] by blast
  have r: "stream_ok s" "by_index s = map entry es" "stream_ok s'" "by_index s' = map entry es'"
    using batch_result [OF ok assms(2)] batch_result [OF ok s'] by (simp_all add: stream_start_def)
  have "mset (map entry es') = mset (map entry es)" using assms(1) by simp
  moreover have "dict_ok (map entry es')" using r(3) unfolding stream_ok_def r(4) by blast
  then have "inj_on fst (set (map entry es'))" unfolding distinct_map by blast
  ultimately have "sort_key fst (map entry es') = sort_key fst (map entry es)"
    by (intro sort_key_inj_key_eq) simp_all
  then show ?thesis using s' r by (auto simp: stream_ok_def)
qed

definition finished_message :: "pyval \<times> pyval" where
  "finished_message =
     (VInt 0, VDict [(''type'', VStr ''message''), (''role'', VStr ''assistant''),
        (''content'', VList [VDict [(''type'', VStr ''output_text''), (''text'', VStr ''hi'')]])])"

definition finished_call :: "pyval \<times> pyval" where
  "finished_call =
     (VInt 1, VDict [(''type'', VStr ''function_call''), (''call_id'', VStr ''c1''), (''name'', VStr ''ls''), (''arguments'', VStr ''{}'')])"

theorem item_order_irrelevant_witness:
  "\<exists>s s'. each_step accept_entry [finished_message, finished_call] (stream_start\<lparr>fragments := [(1, [''{'', ''}''])]\<rparr>) = Inr s \<and>
     each_step accept_entry [finished_call, finished_message] (stream_start\<lparr>fragments := [(1, [''{'', ''}''])]\<rparr>) = Inr s' \<and>
     output_items s' = output_items s"
proof -
  have "case each_step accept_entry [finished_message, finished_call] (stream_start\<lparr>fragments := [(1, [''{'', ''}''])]\<rparr>) of
      Inr _ \<Rightarrow> True | Inl _ \<Rightarrow> False"
    by code_simp
  then obtain s where s: "each_step accept_entry [finished_message, finished_call] (stream_start\<lparr>fragments := [(1, [''{'', ''}''])]\<rparr>) = Inr s"
    by (auto split: sum.splits)
  have m: "mset [finished_message, finished_call] = mset [finished_call, finished_message]" by simp
  from item_order_irrelevant [OF m s] s show ?thesis by blast
qed

section \<open>The items of a response\<close>

definition items_sound :: "StreamState \<Rightarrow> bool" where
  "items_sound s = (\<forall>(i, item) \<in> set (by_index s). item_fits [] i item)"

lemma fits_mono: "item_fits fs i item \<Longrightarrow> item_fits [] i item"
  by (auto simp: item_fits_def call_fits_def)

lemma accept_sound:
  assumes "stream_ok s" and "items_sound s" and "accept_output_item v raw s = Inr s'"
  shows "stream_ok s' \<and> items_sound s'"
proof -
  have "accept_entry (v, raw) s = Inr s'" using assms(3) by (simp add: accept_entry_def)
  from accept_entry_step [OF assms(1) this] have "stream_ok s'" "by_index s' = by_index s @ [entry (v, raw)]" "entry_fits s (v, raw)"
    by blast+
  then show ?thesis using assms(2) fits_mono [of "fragments s" "fst (entry (v, raw))" "snd (entry (v, raw))"]
    by (auto simp: items_sound_def entry_fits_def)
qed

lemma handle_sound:
  assumes "stream_ok s" and "items_sound s" and "handle_event h ev s = Inr (s', stop)"
  shows "stream_ok s' \<and> items_sound s'"
proof -
  have "accept_output_item (attr ev ''output_index'') (attr ev ''item'') s = Inr s' \<or>
      by_index s' = by_index s \<and> output_items s' = output_items s"
    using assms(3) by (auto simp: handle_event_def bnd_Inr_iff Let_def split: pyval.splits if_splits option.splits)
  then show ?thesis
  proof
    assume "accept_output_item (attr ev ''output_index'') (attr ev ''item'') s = Inr s'"
    then show ?thesis by (rule accept_sound [OF assms(1,2)])
  next
    assume "by_index s' = by_index s \<and> output_items s' = output_items s"
    then show ?thesis using assms(1,2) unfolding stream_ok_def items_sound_def by metis
  qed
qed

lemma read_sound:
  "stream_ok s \<Longrightarrow> items_sound s \<Longrightarrow> read_events h evs s = Inr s' \<Longrightarrow> stream_ok s' \<and> items_sound s'"
proof (induction evs arbitrary: s)
  case (Cons ev evs)
  obtain s1 stop where s1: "handle_event h ev s = Inr (s1, stop)" "(if stop then Inr s1 else read_events h evs s1) = Inr s'"
    using Cons.prems(3) by (auto simp: bnd_Inr_iff)
  have "stream_ok s1" "items_sound s1" using handle_sound [OF Cons.prems(1,2) s1(1)] by blast+
  then show ?case using Cons.IH [of s1] s1(2) by (auto split: if_splits)
qed simp

lemma drain_sound:
  assumes "drain_stream h evs stream_start = Inr s"
  shows "stream_ok s \<and> items_sound s"
proof -
  obtain s1 where s1: "read_events h evs stream_start = Inr s1" "by_index s = by_index s1" "output_items s = output_items s1"
    using assms by (auto simp: drain_stream_def bnd_Inr_iff split: if_splits)
  have "stream_ok stream_start" "items_sound stream_start" by (simp_all add: stream_ok_def items_sound_def stream_start_def)
  from read_sound [OF this s1(1)] show ?thesis using s1(2,3) unfolding stream_ok_def items_sound_def by metis
qed

lemma accept_all_sound: "stream_ok s \<Longrightarrow> items_sound s \<Longrightarrow> accept_all items s = Inr s' \<Longrightarrow> stream_ok s' \<and> items_sound s'"
proof (induction items arbitrary: s)
  case (Cons item items)
  obtain s1 where s1: "accept_output_item (VInt (int (length (output_items s)))) item s = Inr s1" "accept_all items s1 = Inr s'"
    using Cons.prems(3) by (auto simp: bnd_Inr_iff)
  have "stream_ok s1" "items_sound s1" using accept_sound [OF Cons.prems(1,2) s1(1)] by blast+
  then show ?case by (rule Cons.IH) (rule s1(2))
qed simp

text \<open>Items that a later request can replay.\<close>

definition replayable :: "canonical \<Rightarrow> message list \<Rightarrow> bool" where
  "replayable canon items =
     ((\<forall>item \<in> set items. plain_dict item \<and> get item ''type'' \<in> set OUTPUT_ITEM_TYPES \<and>
         (is_function_call item \<longrightarrow> (\<exists>q. item_identity canon item = Inr q))) \<and>
      distinct (calls_in items))"

lemma validated_plain: "validated_response_items v = Inr items \<Longrightarrow> item \<in> set items \<Longrightarrow> plain_dict item"
proof -
  assume v: "validated_response_items v = Inr items" and item: "item \<in> set items"
  then obtain raw where "validated_item raw = Inr item"
    using each_origin by (fastforce simp: validated_response_items_def split: pyval.splits)
  then show ?thesis by (auto simp: validated_item_def bnd_Inr_iff split: pyval.splits if_splits intro: plain_result)
qed

lemma merge_cases:
  "merge_terminal_projection x y = x \<or>
   (\<exists>f. merge_terminal_projection x y = AList.update f (get y f) x \<and> get y f \<noteq> VNone \<and> f \<noteq> ''type'' \<and> f \<noteq> ''call_id'' \<and>
      \<not> is_function_call x)"
  by (auto simp: merge_terminal_projection_def projected_field_def is_function_call_def)

lemma merge_item:
  assumes "plain_dict x" and "plain_dict y"
  shows "plain_dict (merge_terminal_projection x y) \<and> get (merge_terminal_projection x y) ''type'' = get x ''type'' \<and>
    get (merge_terminal_projection x y) ''call_id'' = get x ''call_id'' \<and>
    (is_function_call x \<longrightarrow> merge_terminal_projection x y = x)"
  using merge_cases [of x y]
proof
  assume "\<exists>f. merge_terminal_projection x y = AList.update f (get y f) x \<and> get y f \<noteq> VNone \<and> f \<noteq> ''type'' \<and> f \<noteq> ''call_id'' \<and>
      \<not> is_function_call x"
  then obtain f where f: "merge_terminal_projection x y = AList.update f (get y f) x" "get y f \<noteq> VNone" "f \<noteq> ''type''" "f \<noteq> ''call_id''"
    "\<not> is_function_call x"
    by blast
  have "plain_dict (AList.update f (get y f) x)" using assms(1) plain_get [OF assms(2)] f(2) by (rule plain_update)
  then show ?thesis using f by simp
qed (use assms in simp)

lemma merged_calls:
  "list_all2 (\<lambda>x y. plain_dict x \<and> plain_dict y) xs ys \<Longrightarrow> calls_in (map2 merge_terminal_projection xs ys) = calls_in xs"
proof (induction xs ys rule: list_all2_induct)
  case (Cons x xs y ys)
  have m: "get (merge_terminal_projection x y) ''type'' = get x ''type''" "get (merge_terminal_projection x y) ''call_id'' = get x ''call_id''"
    using merge_item Cons.hyps(1) by blast+
  then show ?case using Cons by (simp add: calls_in_def is_function_call_def)
qed simp

lemma all_of_True: "all_of f xs = Inr True \<Longrightarrow> x \<in> set xs \<Longrightarrow> f x = Inr True"
  by (induction xs) (auto simp: bnd_Inr_iff split: if_splits)

lemma agree_identity: "output_items_agree canon x y = Inr b \<Longrightarrow> is_function_call x \<Longrightarrow> \<exists>q. item_identity canon x = Inr q"
  by (auto simp: output_items_agree_def semantic_output_item_def bnd_Inr_iff)

lemma distinct_calls_filter: "distinct (calls_in xs) \<Longrightarrow> distinct (calls_in (filter P xs))"
  by (induction xs) (auto simp: calls_in_def)

lemma reconcile_replayable:
  assumes "stream_ok s" and "items_sound s" and "reconcile canon trust ended s = Inr out"
    and "trust \<longrightarrow> \<not> list_ex is_cut_call (output_items s)"
  shows "replayable canon out"
proof -
  obtain qs final items cut where first: "each (item_identity canon) (filter (\<lambda>i. is_function_call i \<and> \<not> is_cut_call i) (output_items s)) = Inr qs"
    and final: "validated_response_items (to_plain_data (attr (completed_response s) ''output'')) = Inr final"
    and items: "items = (if cut then filter (\<lambda>i. \<not> is_cut_call i) (output_items s) else output_items s)"
    and out: "(\<exists>ys. (\<forall>y \<in> set ys. y \<in> set final) \<and> length ys = length items \<and>
        all_of (\<lambda>(x, y). output_items_agree canon x y) (zip items ys) = Inr True \<and> out = map2 merge_terminal_projection items ys) \<or>
      trust \<and> out = items"
  proof -
    obtain qs final mismatch where
      "each (item_identity canon) (filter (\<lambda>i. is_function_call i \<and> \<not> is_cut_call i) (output_items s)) = Inr qs"
      "validated_response_items (to_plain_data (attr (completed_response s) ''output'')) = Inr final"
      and agree: "(let cut = list_ex is_cut_call final in
        if cut \<and> ended \<noteq> ''max_tokens'' then Inl ProtocolErr
        else let final_items = (if cut then filter (\<lambda>i. \<not> is_cut_call i) final else final);
              items = (if cut then filter (\<lambda>i. \<not> is_cut_call i) (output_items s) else output_items s)
          in bnd (if mismatch \<or> length final_items \<noteq> length items then Inr False
                  else all_of (\<lambda>(x, y). output_items_agree canon x y) (zip items final_items)) (\<lambda>agree.
             if agree then Inr (map2 merge_terminal_projection items final_items)
             else if trust \<and> items \<noteq> [] then Inr items else Inl ProtocolErr)) = Inr out"
      using assms(3) unfolding reconcile_def bnd_Inr_iff by blast
    define cut where "cut = list_ex is_cut_call final"
    define ys where "ys = (if cut then filter (\<lambda>i. \<not> is_cut_call i) final else final)"
    define xs where "xs = (if cut then filter (\<lambda>i. \<not> is_cut_call i) (output_items s) else output_items s)"
    have nc: "(cut \<and> ended \<noteq> ''max_tokens'') = False"
      using agree unfolding Let_def cut_def [symmetric] by (cases "cut \<and> ended \<noteq> ''max_tokens''") simp_all
    have "bnd (if mismatch \<or> length ys \<noteq> length xs then Inr False else all_of (\<lambda>(x, y). output_items_agree canon x y) (zip xs ys))
        (\<lambda>agree. if agree then Inr (map2 merge_terminal_projection xs ys)
                 else if trust \<and> xs \<noteq> [] then Inr xs else Inl ProtocolErr) = Inr out"
      using agree unfolding Let_def cut_def [symmetric] xs_def [symmetric] ys_def [symmetric] nc if_False .
    then obtain b where b: "(if mismatch \<or> length ys \<noteq> length xs then Inr False
          else all_of (\<lambda>(x, y). output_items_agree canon x y) (zip xs ys)) = Inr b"
      "(if b then Inr (map2 merge_terminal_projection xs ys) else if trust \<and> xs \<noteq> [] then Inr xs else Inl ProtocolErr) = Inr out"
      unfolding bnd_Inr_iff by blast
    have "(\<exists>zs. (\<forall>y \<in> set zs. y \<in> set final) \<and> length zs = length xs \<and>
        all_of (\<lambda>(x, y). output_items_agree canon x y) (zip xs zs) = Inr True \<and> out = map2 merge_terminal_projection xs zs) \<or>
      trust \<and> out = xs"
    proof (cases b)
      case True
      have "\<forall>y \<in> set ys. y \<in> set final" by (auto simp: ys_def)
      then show ?thesis using b True by (intro disjI1 exI [of _ ys]) (auto split: if_splits)
    next
      case False
      then show ?thesis using b(2) by (auto split: if_splits)
    qed
    then show thesis using that [of qs final xs cut] \<open>each _ _ = Inr qs\<close> \<open>validated_response_items _ = Inr final\<close> xs_def by blast
  qed
  have member: "\<exists>i. (i, item) \<in> set (by_index s)" if "item \<in> set items" for item
    using that assms(1) by (force simp: items stream_ok_def split: if_splits)
  have sound: "plain_dict item \<and> get item ''type'' \<in> set OUTPUT_ITEM_TYPES" if "item \<in> set items" for item
    using member [OF that] assms(2) by (auto simp: items_sound_def item_fits_def)
  have distinct: "distinct (calls_in items)"
    using assms(1) distinct_calls_filter by (auto simp: items stream_ok_def)
  from out show ?thesis
  proof
    assume "trust \<and> out = items"
    moreover from this have "item_identity canon item \<in> range Inr" if "item \<in> set items" "is_function_call item" for item
      using that assms(4) each_image [OF first, of item] by (auto simp: items list_ex_iff split: if_splits)
    ultimately show ?thesis using sound distinct by (fastforce simp: replayable_def)
  next
    assume "\<exists>ys. (\<forall>y \<in> set ys. y \<in> set final) \<and> length ys = length items \<and>
        all_of (\<lambda>(x, y). output_items_agree canon x y) (zip items ys) = Inr True \<and> out = map2 merge_terminal_projection items ys"
    then obtain ys where ys: "\<forall>y \<in> set ys. plain_dict y" "length ys = length items"
      "all_of (\<lambda>(x, y). output_items_agree canon x y) (zip items ys) = Inr True" and o: "out = map2 merge_terminal_projection items ys"
      using validated_plain [OF final] by blast
    have "calls_in out = calls_in items"
      unfolding o using sound ys(1,2) by (intro merged_calls) (auto simp: list_all2_conv_all_nth)
    moreover have "plain_dict item \<and> get item ''type'' \<in> set OUTPUT_ITEM_TYPES \<and> (is_function_call item \<longrightarrow> (\<exists>q. item_identity canon item = Inr q))"
      if item: "item \<in> set out" for item
    proof -
      obtain x y where xy: "(x, y) \<in> set (zip items ys)" "item = merge_terminal_projection x y" using item o by auto
      have xs: "x \<in> set items" "y \<in> set ys" using xy(1) by (auto dest: set_zip_leftD set_zip_rightD)
      have agree: "output_items_agree canon x y = Inr True" using all_of_True [OF ys(3) xy(1)] by simp
      have m: "plain_dict item \<and> get item ''type'' = get x ''type'' \<and> (is_function_call x \<longrightarrow> item = x)"
        unfolding xy(2) using merge_item [of x y] sound [OF xs(1)] ys(1) xs(2) by blast
      then show ?thesis using sound [OF xs(1)] agree_identity [OF agree] by (auto simp: is_function_call_def)
    qed
    ultimately show ?thesis using distinct by (simp add: replayable_def)
  qed
qed

text \<open>What the code relies on of \<open>json\<close>: the empty text is no JSON, and what \<open>dumps\<close> prints \<open>loads\<close> reads.\<close>

definition json_laws :: "canonical \<Rightarrow> bool" where
  "json_laws canon = (canon [] = None \<and> (\<forall>a b. canon a = Some b \<longrightarrow> canon b \<noteq> None))"

lemma distinct_singleton_calls: "distinct (calls_in (filter (\<lambda>i. get i ''type'' = VStr ''reasoning'') xs @ [item]))"
  by (auto simp: calls_in_def filter_empty_conv is_function_call_def)

lemma forced_replayable:
  assumes "bind_forced_tool h forced ended response items0 content0 = Inr (items, calls, content)" and "replayable (sh_canon h) items0"
    and "json_laws (sh_canon h)" and "forced \<noteq> Some []"
  shows "replayable (sh_canon h) items \<and> calls = map tool_call_of (filter is_function_call items)"
proof (cases "items = items0 \<and> calls = map tool_call_of (filter is_function_call items0)")
  case True
  then show ?thesis using assms(2) by simp
next
  case False
  then obtain name t i call item where name: "forced = Some name"
    and p: "project_forced_text_tool h name t i = Inr (call, item)"
    and out: "items = filter (\<lambda>i. get i ''type'' = VStr ''reasoning'') items0 @ [item]" "calls = [call]"
    using assms(1) by (auto simp: bind_forced_tool_def bnd_Inr_iff Let_def split: option.splits if_splits pyval.splits)
  obtain js digest where js: "sh_canon h t = Some js"
    and call: "call = [(''id'', VStr (''call_schema_'' @ digest)), (''type'', VStr ''function''),
                       (''function'', VDict [(''name'', VStr name), (''arguments'', VStr js)])]"
    and item: "item = [(''id'', VStr (''fc_'' @ digest)), (''type'', VStr ''function_call''), (''status'', VStr ''completed''),
                       (''call_id'', VStr (''call_schema_'' @ digest)), (''name'', VStr name), (''arguments'', VStr js)]"
    using p by (auto simp: project_forced_text_tool_def Let_def split: option.splits if_splits)
  have "sh_canon h js \<noteq> None" using assms(3) js unfolding json_laws_def by blast
  then obtain q where "item_identity (sh_canon h) item = Inr q"
    using name assms(4) by (auto simp: item item_identity_def function_call_identity_def get_def)
  moreover have "plain_dict item" "get item ''type'' \<in> set OUTPUT_ITEM_TYPES" "is_function_call item" "tool_call_of item = call"
    by (simp_all add: item call plain_dict_def OUTPUT_ITEM_TYPES_def get_def is_function_call_def tool_call_of_def)
  moreover have "filter is_function_call (filter (\<lambda>i. get i ''type'' = VStr ''reasoning'') items0) = []"
    by (auto simp: filter_empty_conv is_function_call_def)
  ultimately show ?thesis
    using assms(2) distinct_singleton_calls [of items0 item] by (cases q) (auto simp: out replayable_def)
qed

lemma assemble_parts:
  "assemble usage model ended reasoning items calls content = Inr (r, m) \<Longrightarrow>
   rs_provider_items r = VList (map VDict items) \<and> rs_tool_calls r = calls"
  by (auto simp: assemble_def Let_def split: if_splits)

lemma parse_replayable:
  assumes "stream_ok s" and "items_sound s" and "json_laws (sh_canon h)" and "forced \<noteq> Some []"
    and "trust \<longrightarrow> \<not> list_ex is_cut_call (output_items s)" and "parse_stream h trust usage forced s = Inr (r, model)"
  obtains items where "rs_provider_items r = VList (map VDict items)" and "replayable (sh_canon h) items"
    and "rs_tool_calls r = map tool_call_of (filter is_function_call items)"
proof -
  obtain ended items0 content0 items calls content where rec: "reconcile (sh_canon h) trust ended s = Inr items0"
    and forced: "bind_forced_tool h forced ended (completed_response s) items0 content0 = Inr (items, calls, content)"
    and r: "rs_provider_items r = VList (map VDict items)" "rs_tool_calls r = calls"
    using assms(6) by (auto simp: parse_stream_def bnd_Inr_iff dest!: assemble_parts)
  have "replayable (sh_canon h) items0" using assms(1,2) rec assms(5) by (rule reconcile_replayable)
  from forced_replayable [OF forced this assms(3,4)] show thesis using that r by simp
qed

section \<open>Replay\<close>

lemma assistant_fields:
  "get (assistant_message r) ''role'' = VStr ''assistant''"
  "get (assistant_message r) ''response_items'' = (if truthy (rs_provider_items r) then rs_provider_items r else VNone)"
  "''tool_calls'' \<in> keys (assistant_message r) \<longleftrightarrow> rs_tool_calls r \<noteq> []"
  "rs_tool_calls r \<noteq> [] \<Longrightarrow> get (assistant_message r) ''tool_calls'' = VList (map VDict (rs_tool_calls r))"
  by (auto simp: assistant_message_def get_def)

lemma each_same: "(\<And>x. x \<in> set xs \<Longrightarrow> f x = Inr (g x)) \<Longrightarrow> each f xs = Inr (map g xs)"
  by (induction xs) simp_all

lemma replayable_validated: "replayable canon items \<Longrightarrow> validated_response_items (VList (map VDict items)) = Inr items"
proof -
  assume r: "replayable canon items"
  have "validated_item (VDict item) = Inr item" if "item \<in> set items" for item
  proof -
    have p: "plain_dict item" "get item ''type'' \<in> set OUTPUT_ITEM_TYPES" using r that by (simp_all add: replayable_def)
    then have "to_plain_data (VDict item) = VDict item" by (simp only: plain_dict_iff)
    then show ?thesis using p(2) item_of_type [of item] by (auto simp: validated_item_def in_set_def simp del: to_plain_data.simps)
  qed
  then have "each (validated_item \<circ> VDict) items = Inr (map id items)" by (intro each_same) simp
  moreover have "each validated_item (map VDict items) = each (validated_item \<circ> VDict) items" by (induction items) simp_all
  ultimately show ?thesis by (simp add: validated_response_items_def)
qed

lemma legacy_of_item:
  assumes "item_identity canon item = Inr q" and "canon [] = None"
  shows "legacy_identity canon (VDict (tool_call_of item)) = Inr q"
proof -
  have i: "function_call_identity canon (get item ''call_id'') (get item ''name'') (get item ''arguments'') = Inr q"
    using assms(1) by (simp add: item_identity_def)
  then obtain a x where a: "get item ''arguments'' = VStr a" "canon a = Some x"
    by (auto simp: function_call_identity_def split: pyval.splits if_splits option.splits)
  have "a \<noteq> []" using a(2) assms(2) by auto
  have "arguments_or_empty [(''name'', get item ''name''), (''arguments'', get item ''arguments'')] = get item ''arguments''"
    using a \<open>a \<noteq> []\<close> by (simp add: arguments_or_empty_def get_def)
  then show ?thesis using i by (simp add: legacy_identity_def tool_call_of_def get_def)
qed

lemma replay_verified:
  assumes "replayable canon items" and "canon [] = None" and "rs_tool_calls r = map tool_call_of (filter is_function_call items)"
  shows "verify_replay_tool_calls canon (assistant_message r) items = Inr ()"
proof (cases "rs_tool_calls r = []")
  case True
  then show ?thesis by (simp add: verify_replay_tool_calls_def assistant_fields)
next
  case False
  define g where "g i = projr (item_identity canon i)" for i
  have g: "item_identity canon i = Inr (g i)" if "i \<in> set (filter is_function_call items)" for i
    using assms(1) that by (auto simp: replayable_def g_def)
  let ?fs = "filter is_function_call items"
  have items: "each (item_identity canon) ?fs = Inr (map g ?fs)" by (rule each_same) (rule g)
  have "each (legacy_identity canon \<circ> (VDict \<circ> tool_call_of)) ?fs = Inr (map g ?fs)"
    using g legacy_of_item [where canon = canon, OF _ assms(2)] by (intro each_same) simp
  moreover have "each (legacy_identity canon) (map (VDict \<circ> tool_call_of) xs) = each (legacy_identity canon \<circ> (VDict \<circ> tool_call_of)) xs" for xs
    by (induction xs) simp_all
  ultimately have "each (legacy_identity canon) (map VDict (rs_tool_calls r)) = Inr (map g ?fs)" by (simp add: assms(3))
  moreover have "iterate (VList (map VDict (rs_tool_calls r))) = Inr (map VDict (rs_tool_calls r))"
    using False by (simp add: iterate_def)
  ultimately show ?thesis using False items by (simp add: verify_replay_tool_calls_def assistant_fields)
qed

lemma register_fresh:
  "list_all (\<lambda>i. usable_id (get i ''call_id'')) items \<Longrightarrow> distinct (map (\<lambda>i. get i ''call_id'') items) \<Longrightarrow>
   set (map (\<lambda>i. get i ''call_id'') items) \<inter> VStr ` in_calls s = {} \<Longrightarrow>
   \<exists>s'. each_step (\<lambda>item. register_call (get item ''call_id'')) items s = Inr s'"
proof (induction items arbitrary: s)
  case (Cons i items)
  obtain c where c: "get i ''call_id'' = VStr c" "c \<noteq> []" using Cons.prems(1) by (auto simp: usable_id_def)
  then have "c \<notin> in_calls s" using Cons.prems(3) by auto
  then have r: "register_call (get i ''call_id'') s = Inr (s\<lparr>in_calls := insert c (in_calls s)\<rparr>)" using c by (auto simp: register_iff)
  have "\<exists>s'. each_step (\<lambda>item. register_call (get item ''call_id'')) items (s\<lparr>in_calls := insert c (in_calls s)\<rparr>) = Inr s'"
    using Cons.prems c(1) by (intro Cons.IH) auto
  then show ?case using r by simp
qed simp

text \<open>
  C8. A response is replayed as it was received.  Read any stream of events to its end, reconcile it with
  the terminal response and store the assistant message as the turn driver does.  If the history so far
  converts and none of its calls has an id of the response, the next request converts too, and it carries
  the items of the response unchanged after the items of the history.  Its tool calls have ids of their
  own and arguments that are JSON.
\<close>

theorem response_is_replayed:
  assumes "json_laws (sh_canon h)" and "forced \<noteq> Some []"
    and "drain_stream h evs stream_start = Inr s" and "parse_stream h False usage forced s = Inr (r, model)"
    and "messages_to_input (sh_canon h) False ms = Inr (instructions, earlier)"
    and "set (map (\<lambda>c. get c ''id'') (rs_tool_calls r)) \<inter> set (calls_in earlier) = {}"
  shows "\<exists>items. rs_provider_items r = VList (map VDict items) \<and> distinct (map (\<lambda>c. get c ''id'') (rs_tool_calls r)) \<and>
    (\<forall>c \<in> set (rs_tool_calls r). \<exists>q. legacy_identity (sh_canon h) (VDict c) = Inr q) \<and>
    (items \<noteq> [] \<longrightarrow> messages_to_input (sh_canon h) False (ms @ [assistant_message r]) = Inr (instructions, earlier @ items))"
proof -
  have ok: "stream_ok s" "items_sound s" using drain_sound [OF assms(3)] by blast+
  obtain items where items: "rs_provider_items r = VList (map VDict items)" "replayable (sh_canon h) items"
    "rs_tool_calls r = map tool_call_of (filter is_function_call items)"
    using parse_replayable [OF ok assms(1,2) _ assms(4)] by blast
  have empty: "sh_canon h [] = None" using assms(1) unfolding json_laws_def by blast
  have ids: "map (\<lambda>c. get c ''id'') (rs_tool_calls r) = calls_in items"
    by (simp add: items(3) calls_in_def tool_call_of_def get_def comp_def)
  have fcalls: "\<exists>q. item_identity (sh_canon h) i = Inr q" if "i \<in> set (filter is_function_call items)" for i
    using items(2) that by (simp add: replayable_def)
  then have "\<exists>q. legacy_identity (sh_canon h) (VDict c) = Inr q" if "c \<in> set (rs_tool_calls r)" for c
    using that legacy_of_item [where canon = "sh_canon h", OF _ empty] unfolding items(3) by fastforce
  moreover have "distinct (map (\<lambda>c. get c ''id'') (rs_tool_calls r))" using items(2) unfolding ids replayable_def by blast
  moreover have "messages_to_input (sh_canon h) False (ms @ [assistant_message r]) = Inr (instructions, earlier @ items)" if "items \<noteq> []"
  proof -
    obtain t where t: "each_step (convert_message (sh_canon h) False) ms input_start = Inr t" "in_items t = earlier"
      "instructions = (let t = py_join [CHR 0x0A, CHR 0x0A] (in_instructions t) in if t = [] then None else Some t)"
      using assms(5) by (auto simp: messages_to_input_def bnd_Inr_iff)
    have "input_ok False input_start" by (simp add: input_ok_def input_start_def outputs_follow_def)
    with t(1) have "input_ok False t" by (rule each_step_keeps) (rule convert_ok)
    then have calls: "set (calls_in earlier) = VStr ` in_calls t" using t(2) unfolding input_ok_def by blast
    have "usable_id (get i ''call_id'')" if "i \<in> set (filter is_function_call items)" for i
      using fcalls [OF that] by (auto simp: item_identity_def function_call_identity_def usable_id_def split: pyval.splits if_splits)
    then have "list_all (\<lambda>i. usable_id (get i ''call_id'')) (filter is_function_call items)" by (simp add: list_all_iff)
    moreover have "distinct (map (\<lambda>i. get i ''call_id'') (filter is_function_call items))"
      using items(2) by (simp add: replayable_def calls_in_def)
    moreover have "set (map (\<lambda>i. get i ''call_id'') (filter is_function_call items)) \<inter> VStr ` in_calls t = {}"
    proof -
      have "set (calls_in items) \<inter> VStr ` in_calls t = {}" using assms(6) unfolding ids calls .
      then show ?thesis unfolding calls_in_def .
    qed
    ultimately obtain t1 where t1: "each_step (\<lambda>item. register_call (get item ''call_id'')) (filter is_function_call items) t = Inr t1"
      using register_fresh by blast
    have same: "in_items t1 = in_items t" "in_instructions t1 = in_instructions t" using register_all [OF t1] by auto
    have "replay_message (sh_canon h) (assistant_message r) t = Inr (t1\<lparr>in_items := in_items t1 @ items\<rparr>)"
      using that t1 replayable_validated [OF items(2)] replay_verified [OF items(2) empty items(3)]
      by (simp add: replay_message_def assistant_fields items(1))
    then have "convert_message (sh_canon h) False (assistant_message r) t = Inr (t1\<lparr>in_items := in_items t1 @ items\<rparr>)"
      using that by (simp add: convert_message_def assistant_fields items(1))
    then show ?thesis using t same by (simp add: messages_to_input_def each_step_append)
  qed
  ultimately show ?thesis using items(1) by blast
qed

definition demo_json :: StreamHost where
  "demo_json = \<lparr>sh_canon = sample_canon, sh_object = (\<lambda>_. True), sh_str = (\<lambda>_. []), sh_digest = (\<lambda>_ _ _. [])\<rparr>"

definition demo_usage :: LLMUsage where
  "demo_usage = \<lparr>lu_input = VInt 10, lu_total = VInt 12, lu_output = VInt 2, lu_context = VNone, lu_markup = 0\<rparr>"

text \<open>A stream with one function call, whose arguments come in two fragments.\<close>

definition demo_call_item :: message where
  "demo_call_item = [(''type'', VStr ''function_call''), (''call_id'', VStr ''c1''), (''name'', VStr ''ls''), (''arguments'', VStr ''{}'')]"

definition demo_final :: "message list \<Rightarrow> pyval" where
  "demo_final items = VDict [(''status'', VStr ''completed''), (''model'', VStr ''m''), (''output'', VList (map VDict items))]"

definition demo_events :: "pyval list" where
  "demo_events =
     [VDict [(''type'', VStr ''response.created'')],
      VDict [(''type'', VStr ''response.function_call_arguments.delta''), (''output_index'', VInt 0), (''delta'', VStr ''{'')],
      VDict [(''type'', VStr ''response.function_call_arguments.delta''), (''output_index'', VInt 0), (''delta'', VStr ''}'')],
      VDict [(''type'', VStr ''response.output_item.done''), (''output_index'', VInt 0), (''item'', VDict demo_call_item)],
      VDict [(''type'', VStr ''response.completed''), (''response'', demo_final [demo_call_item])]]"

definition demo_prompt :: "message list" where
  "demo_prompt = [[(''role'', VStr ''user''), (''content'', VStr ''list'')]]"

lemma demo_stream_read:
  "case bnd (drain_stream demo_json demo_events stream_start) (parse_stream demo_json False demo_usage None) of
     Inr (r, m) \<Rightarrow> map (\<lambda>c. get c ''id'') (rs_tool_calls r) = [VStr ''c1''] \<and> rs_provider_items r = VList [VDict demo_call_item]
   | Inl _ \<Rightarrow> False"
  by code_simp

lemma demo_prompt_input: "messages_to_input sample_canon False demo_prompt = Inr (None, demo_prompt)"
  by code_simp

lemma demo_laws: "json_laws (sh_canon demo_json)"
  by (simp add: json_laws_def demo_json_def sample_canon_def)

theorem response_is_replayed_witness:
  "\<exists>s r model. drain_stream demo_json demo_events stream_start = Inr s \<and> parse_stream demo_json False demo_usage None s = Inr (r, model) \<and>
     messages_to_input sample_canon False (demo_prompt @ [assistant_message r]) = Inr (None, demo_prompt @ [demo_call_item])"
proof -
  obtain s r model where s: "drain_stream demo_json demo_events stream_start = Inr s"
    and r: "parse_stream demo_json False demo_usage None s = Inr (r, model)"
    and calls: "map (\<lambda>c. get c ''id'') (rs_tool_calls r) = [VStr ''c1'']" and items: "rs_provider_items r = VList [VDict demo_call_item]"
    using demo_stream_read by (auto simp: bnd_def split: sum.splits)
  have canon: "sh_canon demo_json = sample_canon" by (simp add: demo_json_def)
  have "set (map (\<lambda>c. get c ''id'') (rs_tool_calls r)) \<inter> set (calls_in demo_prompt) = {}"
    unfolding calls by (simp add: demo_prompt_def calls_in_def is_function_call_def get_def)
  from response_is_replayed [OF demo_laws _ s r, unfolded canon, OF _ demo_prompt_input this]
  have "messages_to_input sample_canon False (demo_prompt @ [assistant_message r]) = Inr (None, demo_prompt @ [demo_call_item])"
    using items by auto
  then show ?thesis using s r by blast
qed

text \<open>
  With the compatibility switch the same does not hold.  A call that the token limit cut off is streamed
  as incomplete; if the terminal response leaves it out, the switch keeps it, and it is handed out as a
  tool call whose arguments are no JSON.  The next request refuses the stored message.
\<close>

definition cut_call_item :: message where
  "cut_call_item =
     [(''type'', VStr ''function_call''), (''call_id'', VStr ''c1''), (''name'', VStr ''ls''), (''arguments'', VStr ''{''),
      (''status'', VStr ''incomplete'')]"

definition cut_events :: "pyval list" where
  "cut_events =
     [VDict [(''type'', VStr ''response.output_item.done''), (''output_index'', VInt 0), (''item'', VDict cut_call_item)],
      VDict [(''type'', VStr ''response.completed''), (''response'', demo_final [])]]"

lemma trusted_cut_call:
  "case bnd (drain_stream demo_json cut_events stream_start) (parse_stream demo_json True demo_usage None) of
     Inr (r, m) \<Rightarrow> rs_finish r = Some ''tool_calls'' \<and>
       messages_to_input sample_canon False (demo_prompt @ [assistant_message r]) = Inl ProtocolErr
   | Inl _ \<Rightarrow> False"
  by code_simp

end
