(* ===== verification/Compaction.thy ===== *)
theory Compaction
  imports Run_Protocol
begin

text \<open>
  The summary call of history compaction (\<open>application/compaction_summary.py\<close> and
  \<open>application/compaction_prompt.py\<close>).  A segment that does not fit the model's window is summarised in
  chunks of whole message groups, each request carrying the summary so far.  The model is an argument:
  its answer may depend on the requests before.  So are the token estimate, the output limit and the
  fixed text of the prompt.
\<close>

section \<open>Prompt and answer\<close>

definition NL :: string where
  "NL = [CHR 0x0A]"

text \<open>The first occurrence of \<open>p\<close>: what is before it and what is after it.\<close>

fun split_at :: "string \<Rightarrow> string \<Rightarrow> (string \<times> string) option" where
  "split_at p s =
     (if startswith s p then Some ([], drop (length p) s)
      else case s of [] \<Rightarrow> None | c # cs \<Rightarrow> map_option (\<lambda>(a, b). (c # a, b)) (split_at p cs))"

declare split_at.simps [simp del]

lemma split_at_length: "split_at p s = Some (a, b) \<Longrightarrow> length b + length p + length a = length s"
proof (induction p s arbitrary: a b rule: split_at.induct)
  case (1 p s)
  show ?case
  proof (cases "startswith s p")
    case True
    then have "a = []" "b = drop (length p) s" using "1.prems" by (simp_all add: split_at.simps)
    moreover have "length p \<le> length s" using True by (metis length_append le_add1 startswith_iff)
    ultimately show ?thesis by simp
  next
    case False
    then obtain c cs where s: "s = c # cs" using "1.prems" by (cases s) (simp_all add: split_at.simps)
    then obtain a' where "split_at p cs = Some (a', b)" "a = c # a'"
      using "1.prems" False by (auto simp: split_at.simps [of p "c # cs"])
    then show ?thesis using "1.IH" [OF False s] s by simp
  qed
qed

text \<open>\<open>re.sub\<close> of an opening tag, the shortest text and a closing tag.\<close>

function sub_tag :: "string \<Rightarrow> string \<Rightarrow> (string \<Rightarrow> string) \<Rightarrow> string \<Rightarrow> string" where
  "sub_tag op cl f s =
     (case split_at op s of
        Some (before, rest) \<Rightarrow>
          (case split_at cl rest of
             Some (body, after) \<Rightarrow> if op = [] then s else before @ f body @ sub_tag op cl f after
           | None \<Rightarrow> s)
      | None \<Rightarrow> s)"
  by pat_completeness auto
termination
  by (relation "measure (\<lambda>(_, _, _, s). length s)") (auto dest!: split_at_length simp flip: length_greater_0_conv)

declare sub_tag.simps [simp del]

text \<open>\<open>re.sub(r"\n\n+", "\n\n", s)\<close>.\<close>

fun squeeze :: "nat \<Rightarrow> string \<Rightarrow> string" where
  "squeeze n [] = []"
| "squeeze n (c # s) = (if c = CHR 0x0A then (if n < 2 then c # squeeze (n + 1) s else squeeze n s) else c # squeeze 0 s)"

definition format_compact_summary :: "string \<Rightarrow> string" where
  "format_compact_summary raw =
     py_strip (squeeze 0
       (sub_tag ''<summary>'' ''</summary>''
          (\<lambda>b. let body = py_strip b in if body = [] then [] else ''Summary:'' @ NL @ body)
          (sub_tag ''<analysis>'' ''</analysis>'' (\<lambda>_. []) raw)))"

record Summarizer =
  sm_base_prompt :: string
  sm_trailer :: string
  sm_custom :: "string option"
  sm_transcript :: "string option"
  sm_fallback_chars :: nat
  sm_window :: "int option"
  sm_max_output :: int
  sm_estimate :: "message list \<Rightarrow> int"
  sm_limit :: "(message list \<Rightarrow> int option) option"

definition get_compact_prompt :: "Summarizer \<Rightarrow> string" where
  "get_compact_prompt sm =
     sm_base_prompt sm @
     (case sm_custom sm of
        Some t \<Rightarrow> if py_strip t = [] then [] else NL @ NL @ ''Additional Instructions:'' @ NL @ t
      | None \<Rightarrow> []) @ sm_trailer sm"

definition user_message :: "string \<Rightarrow> message" where
  "user_message t = [(''role'', VStr ''user''), (''content'', VStr t)]"

definition build_summary_request :: "Summarizer \<Rightarrow> message list \<Rightarrow> message list" where
  "build_summary_request sm segment = segment @ [user_message (get_compact_prompt sm)]"

definition transcript_recovery_note :: "string \<Rightarrow> string" where
  "transcript_recovery_note path =
     ''Consult the archived session transcript when an exact command, code fragment, error, or earlier response is needed to complete the task. Transcript location: '' @ path"

definition PRECEDING :: string where
  "PRECEDING =
     ''Summary of the preceding conversation. Update it with the messages that follow, preserving user requests and applying later revisions in chronological order.'' @ NL @ NL"

definition carried :: "string \<Rightarrow> message list" where
  "carried summary = (if summary = [] then [] else [user_message (PRECEDING @ summary)])"

section \<open>Requests that fit\<close>

text \<open>The output limit is \<open>None\<close> when the token budget refuses the request.\<close>

definition fits :: "Summarizer \<Rightarrow> bool \<Rightarrow> message list \<Rightarrow> bool" where
  "fits sm allow_budget_stop request =
     (case sm_window sm of
        None \<Rightarrow> True
      | Some w \<Rightarrow>
          if w \<le> 0 then True
          else if w \<le> sm_estimate sm request then False
          else (case (case sm_limit sm of Some f \<Rightarrow> f request | None \<Rightarrow> Some (sm_max_output sm)) of
                  None \<Rightarrow> allow_budget_stop
                | Some out \<Rightarrow> sm_estimate sm request + out \<le> w))"

text \<open>The longest run of groups whose request fits, its request, and the groups that are left.\<close>

fun take_groups ::
  "Summarizer \<Rightarrow> message list \<Rightarrow> bool \<Rightarrow> message list \<Rightarrow> message list \<Rightarrow> message list list \<Rightarrow> message list \<times> message list list" where
  "take_groups sm lead first chunk request [] = (request, [])"
| "take_groups sm lead first chunk request (g # gs) =
     (let candidate = build_summary_request sm (lead @ chunk @ g)
      in if fits sm first candidate then take_groups sm lead False (chunk @ g) candidate gs else (request, g # gs))"

lemma take_groups_length: "length (snd (take_groups sm lead first chunk request gs)) \<le> length gs"
  by (induction sm lead first chunk request gs rule: take_groups.induct) (auto simp: Let_def le_SucI)

section \<open>The model's answers\<close>

text \<open>\<open>Stops\<close> are the exceptions of budgets, cancellation and policies, which are passed on.\<close>

datatype SummaryError = Stops | Failed_Call | Truncated | EmptySummary | GroupTooLarge nat | Incomplete SummaryError

datatype Completion = Reply "string option" "string option" | Raises SummaryError

type_synonym model = "message list list \<Rightarrow> message list \<Rightarrow> Completion"

definition complete_summary :: "model \<Rightarrow> message list list \<Rightarrow> message list \<Rightarrow> SummaryError + string" where
  "complete_summary model asked request =
     (case model asked request of
        Raises e \<Rightarrow> Inl e
      | Reply ended content \<Rightarrow>
          if ended \<in> {Some ''length'', Some ''max_tokens'', Some ''model_context_window_exceeded''} then Inl Truncated
          else Inr (case content of Some t \<Rightarrow> format_compact_summary t | None \<Rightarrow> []))"

text \<open>The result and the requests that were sent.\<close>

function summarize_chunks ::
  "Summarizer \<Rightarrow> model \<Rightarrow> nat \<Rightarrow> string \<Rightarrow> message list list \<Rightarrow> message list list \<Rightarrow> (SummaryError + string) \<times> message list list" where
  "summarize_chunks sm model cursor summary asked gs =
     (if gs = [] then (Inr summary, asked)
      else let (request, rest) = take_groups sm (carried summary) True [] [] gs
           in if length rest = length gs then (Inl (GroupTooLarge (cursor + 1)), asked)
              else (case complete_summary model asked request of
                      Inl e \<Rightarrow> (Inl e, asked @ [request])
                    | Inr t \<Rightarrow> if t = [] then (Inl EmptySummary, asked @ [request])
                             else summarize_chunks sm model (cursor + (length gs - length rest)) t (asked @ [request]) rest))"
  by pat_completeness auto
termination
proof (relation "measure (\<lambda>(_, _, _, _, _, gs). length gs)")
  fix sm :: Summarizer and model :: model and cursor summary asked gs request rest t
  fix x :: "message list \<times> message list list"
  show "x = take_groups sm (carried summary) True [] [] gs \<Longrightarrow> (request, rest) = x \<Longrightarrow> length rest \<noteq> length gs \<Longrightarrow>
      ((sm, model, cursor + (length gs - length rest), t, asked @ [request], rest), sm, model, cursor, summary, asked, gs)
      \<in> measure (\<lambda>(_, _, _, _, _, gs). length gs)"
  proof -
    assume x: "x = take_groups sm (carried summary) True [] [] gs" "(request, rest) = x" and len: "length rest \<noteq> length gs"
    from x(2) have "rest = snd x" by (cases x) simp
    then have "length rest \<le> length gs" using take_groups_length unfolding x(1) by simp
    then show ?thesis using len by simp
  qed
qed simp

declare summarize_chunks.simps [simp del]

definition content_text :: "pyval \<Rightarrow> string list" where
  "content_text block =
     (case block of
        VStr t \<Rightarrow> if t = [] then [] else [t]
      | VDict d \<Rightarrow>
          (case (if is_str (get d ''text'') then get d ''text'' else get d ''input_text'') of
             VStr t \<Rightarrow> if t \<noteq> [] then [t]
                      else [''['' @ (case get d ''type'' of VStr ty \<Rightarrow> if ty = [] then ''unknown'' else ty | _ \<Rightarrow> ''unknown'') @ '' block]'']
           | _ \<Rightarrow> [''['' @ (case get d ''type'' of VStr ty \<Rightarrow> if ty = [] then ''unknown'' else ty | _ \<Rightarrow> ''unknown'') @ '' block]''])
      | _ \<Rightarrow> [''[unknown block]''])"

definition fallback_content_text :: "pyval \<Rightarrow> string" where
  "fallback_content_text content =
     (case content of VStr t \<Rightarrow> t | VList blocks \<Rightarrow> py_join NL (concat (map content_text blocks)) | _ \<Rightarrow> [])"

text \<open>\<open>role\<close> is printed by an f-string, \<open>str\<close> of other values is an argument.\<close>

definition fallback :: "(pyval \<Rightarrow> string) \<Rightarrow> Summarizer \<Rightarrow> message list \<Rightarrow> string" where
  "fallback str sm segment =
     (let parts = concat (map (\<lambda>m.
            let t = fallback_content_text (get m ''content'');
                role = (if ''role'' \<in> keys m then (case get m ''role'' of VStr r \<Rightarrow> r | v \<Rightarrow> str v) else ''?'')
            in if t = [] then [] else [''['' @ role @ '']: '' @ t]) segment);
          text = take (sm_fallback_chars sm) (py_join NL parts)
      in if text = [] then ''[summary unavailable]'' else text)"

text \<open>The summary, whether it may be cached, and the requests.\<close>

definition asummarize ::
  "(pyval \<Rightarrow> string) \<Rightarrow> Summarizer \<Rightarrow> model \<Rightarrow> message list list \<Rightarrow> message list \<Rightarrow> (SummaryError + string) \<times> bool \<times> message list list" where
  "asummarize str sm model asked segment =
     (let request = build_summary_request sm segment;
          chunked = (\<not> fits sm False request);
          (outcome, asked') = (if chunked then summarize_chunks sm model 0 [] asked (groups segment)
                             else (complete_summary model asked request, asked @ [request]));
          outcome' = (case outcome of Inr t \<Rightarrow> if t = [] then Inl EmptySummary else Inr t | Inl e \<Rightarrow> Inl e)
      in case outcome' of
           Inl Stops \<Rightarrow> (Inl Stops, False, asked')
         | Inl e \<Rightarrow> if chunked then (Inl (Incomplete e), False, asked') else (Inr (fallback str sm segment), False, asked')
         | Inr t \<Rightarrow>
             (Inr (t @ (case sm_transcript sm of
                          Some p \<Rightarrow> if p = [] then [] else NL @ NL @ transcript_recovery_note p | None \<Rightarrow> [])), True, asked'))"

section \<open>Chunks\<close>

lemma fits_allowed: "fits sm b request \<Longrightarrow> fits sm True request"
  by (auto simp: fits_def split: option.splits if_splits)

lemma take_groups_result:
  "take_groups sm lead first chunk request gs = (request', rest) \<Longrightarrow>
   \<exists>taken. gs = taken @ rest \<and> (taken = [] \<longrightarrow> request' = request) \<and>
     (taken \<noteq> [] \<longrightarrow> request' = build_summary_request sm (lead @ chunk @ concat taken) \<and> fits sm True request')"
proof (induction sm lead first chunk request gs rule: take_groups.induct)
  case (2 sm lead first chunk request g gs)
  let ?c = "build_summary_request sm (lead @ chunk @ g)"
  show ?case
  proof (cases "fits sm first ?c")
    case True
    then have "take_groups sm lead False (chunk @ g) ?c gs = (request', rest)" using "2.prems" by simp
    from "2.IH" [OF refl True this] obtain taken where t: "gs = taken @ rest" "taken = [] \<longrightarrow> request' = ?c"
      "taken \<noteq> [] \<longrightarrow> request' = build_summary_request sm (lead @ (chunk @ g) @ concat taken) \<and> fits sm True request'"
      by blast
    then show ?thesis using fits_allowed [OF True] by (intro exI [of _ "g # taken"]) (cases "taken = []"; auto)
  next
    case False
    then show ?thesis using "2.prems" by simp
  qed
qed simp

text \<open>The requests for a list of chunks, each with the answer it got.\<close>

fun requests_for :: "Summarizer \<Rightarrow> string \<Rightarrow> (message list list \<times> string) list \<Rightarrow> message list list" where
  "requests_for sm summary [] = []"
| "requests_for sm summary ((c, a) # xs) = build_summary_request sm (carried summary @ concat c) # requests_for sm a xs"

lemma chunks_cover:
  "summarize_chunks sm model cursor summary asked gs = (Inr t, asked') \<Longrightarrow>
   \<exists>xs. concat (map fst xs) = gs \<and> asked' = asked @ requests_for sm summary xs \<and> [] \<notin> fst ` set xs \<and> [] \<notin> snd ` set xs \<and>
     t = (if xs = [] then summary else snd (last xs)) \<and> list_all (fits sm True) (requests_for sm summary xs)"
proof (induction sm model cursor summary asked gs rule: summarize_chunks.induct)
  case (1 sm model cursor summary asked gs)
  show ?case
  proof (cases "gs = []")
    case True
    then show ?thesis using "1.prems" by (intro exI [of _ "[]"]) (simp add: summarize_chunks.simps)
  next
    case False
    obtain request rest where tg: "take_groups sm (carried summary) True [] [] gs = (request, rest)" by fastforce
    have prem: "(if length rest = length gs then (Inl (GroupTooLarge (cursor + 1)), asked)
        else (case complete_summary model asked request of
                Inl e \<Rightarrow> (Inl e, asked @ [request])
              | Inr t \<Rightarrow> if t = [] then (Inl EmptySummary, asked @ [request])
                       else summarize_chunks sm model (cursor + (length gs - length rest)) t (asked @ [request]) rest)) = (Inr t, asked')"
      using "1.prems" False by (subst (asm) summarize_chunks.simps) (simp add: tg)
    then have len: "length rest \<noteq> length gs" by (auto split: if_splits)
    obtain a where a: "complete_summary model asked request = Inr a" "a \<noteq> []"
      "summarize_chunks sm model (cursor + (length gs - length rest)) a (asked @ [request]) rest = (Inr t, asked')"
      using prem len by (auto split: sum.splits if_splits)
    obtain taken where taken: "gs = taken @ rest" "taken \<noteq> []" "request = build_summary_request sm (carried summary @ concat taken)"
      "fits sm True request"
      using take_groups_result [OF tg] len by force
    from "1.IH" [OF False tg [symmetric] refl len a(1) a(2) a(3)]
    obtain xs where xs: "concat (map fst xs) = rest" "asked' = (asked @ [request]) @ requests_for sm a xs" "[] \<notin> fst ` set xs"
      "[] \<notin> snd ` set xs" "t = (if xs = [] then a else snd (last xs))" "list_all (fits sm True) (requests_for sm a xs)"
      by blast
    show ?thesis using xs taken a(2) by (intro exI [of _ "(taken, a) # xs"]) auto
  qed
qed

lemma chained_part: "chained (xs @ ys @ zs) \<Longrightarrow> chained ys"
  by (induction xs) (simp_all add: chained_append)

lemma request_paired:
  assumes "chained c" and "list_all span_is_safe_to_compact c"
  shows "paired (build_summary_request sm (carried summary @ concat c))"
proof -
  have user: "plain (user_message t)" for t by (simp add: plain_def user_message_def is_tool_msg_def is_leader_def get_def)
  have gs: "groups (carried summary @ concat c) = (if summary = [] then c else [user_message (PRECEDING @ summary)] # c)"
  proof (cases "summary = []")
    case True
    then show ?thesis using groups_concat [OF assms(1)] by (simp add: carried_def)
  next
    case False
    have "chained ([user_message (PRECEDING @ summary)] # c)"
      using assms(1) user [of "PRECEDING @ summary"] by (simp add: group_ok_def plain_def)
    from groups_concat [OF this] show ?thesis using False by (simp add: carried_def)
  qed
  have "span_is_safe_to_compact [user_message t]" for t using user [of t] by (simp add: span_is_safe_to_compact_def plain_def)
  then have "paired (carried summary @ concat c)" using assms(2) gs by (simp add: paired_def)
  from paired_plain [OF this user] show ?thesis by (simp add: build_summary_request_def)
qed

lemma requests_paired:
  assumes "chained (concat (map fst xs))" and "list_all span_is_safe_to_compact (concat (map fst xs))"
  shows "list_all paired (requests_for sm summary xs)"
  using assms
proof (induction xs arbitrary: summary)
  case (Cons p xs)
  obtain c a where p: "p = (c, a)" by (cases p)
  have "chained c" "chained (concat (map fst xs))"
    using Cons.prems(1) chained_part [of "[]" c "concat (map fst xs)"] chained_part [of c "concat (map fst xs)" "[]"] by (simp_all add: p)
  then show ?case using Cons.IH [of a] Cons.prems(2) request_paired [of c sm summary] by (simp add: p)
qed simp

lemma chunk_count: "[] \<notin> fst ` set xs \<Longrightarrow> length xs \<le> length (concat (map fst xs))"
proof (induction xs)
  case (Cons p xs)
  then have "fst p \<noteq> []" "length xs \<le> length (concat (map fst xs))" by auto
  then show ?case by (cases "fst p") simp_all
qed simp

lemma asummarize_chunked:
  assumes "\<not> fits sm False (build_summary_request sm segment)" and "asummarize str sm model asked segment = (Inr t, cacheable, asked')"
  shows "\<exists>u. summarize_chunks sm model 0 [] asked (groups segment) = (Inr u, asked') \<and> u \<noteq> [] \<and> cacheable \<and>
    t = u @ (case sm_transcript sm of Some p \<Rightarrow> if p = [] then [] else NL @ NL @ transcript_recovery_note p | None \<Rightarrow> [])"
proof -
  obtain r l where "summarize_chunks sm model 0 [] asked (groups segment) = (r, l)" by fastforce
  then show ?thesis
    using assms
    by (cases r) (auto simp: asummarize_def Let_def split: if_splits SummaryError.splits)
qed



text \<open>Two messages of which one fits at a time.\<close>

definition demo_summarizer :: Summarizer where
  "demo_summarizer =
     \<lparr>sm_base_prompt = ''sum up'', sm_trailer = [], sm_custom = None, sm_transcript = None, sm_fallback_chars = 10,
      sm_window = Some 3, sm_max_output = 0, sm_estimate = (\<lambda>ms. if length ms \<le> 1 then 1 else if hd ms = last (take 2 ms) then 3 else 2),
      sm_limit = None\<rparr>"

definition demo_segment :: "message list" where
  "demo_segment = [user_message ''a'', user_message ''a'']"

lemma demo_not_fitting: "\<not> fits demo_summarizer False (build_summary_request demo_summarizer demo_segment)"
  by code_simp

definition demo_model :: model where
  "demo_model asked request = Reply (Some ''stop'') (Some ''<analysis>x</analysis><summary> both </summary>'')"

lemma demo_summary:
  "case asummarize (\<lambda>_. []) demo_summarizer demo_model [] demo_segment of
     (Inr t, cacheable, asked) \<Rightarrow> t = ''Summary:'' @ NL @ ''both'' \<and> cacheable \<and> length asked = 2
   | _ \<Rightarrow> False"
  by code_simp


end
