(* ===== verification/Findings.thy ===== *)
theory Findings
  imports Schema_Validate Shaping_Groups
begin

text \<open>
  Findings of a scout (\<open>application/submit_findings.py\<close>): the tool that accepts a report only when
  every verified finding cites evidence, and the bounded texts built when a scout submits nothing.
  The em dash of the printed texts lies outside the model's characters and is written as one \<open>-\<close>.
  \<open>str\<close> prints a value that is no string; the fixed text of the salvage prompt is an argument.
\<close>

section \<open>The tool\<close>

definition STRING_FIELD :: pyval where
  "STRING_FIELD = VDict [(''type'', VStr ''string'')]"

definition described :: "string \<Rightarrow> string \<Rightarrow> pyval" where
  "described t d = VDict [(''type'', VStr t), (''description'', VStr d)]"

definition FINDING_FIELDS :: "(string \<times> pyval) list" where
  "FINDING_FIELDS =
     [(''aspect'', described ''string'' ''Which sub-question this addresses.''),
      (''claim'', described ''string'' ''The concrete finding.''),
      (''evidence_anchor'', described ''string''
         ''file:line OR an exact string copied from a real tool result that backs the claim. Leave empty ONLY when verified is false.''),
      (''verified'', described ''boolean''
         ''True only if a real tool result (read/grep) confirms the claim and the anchor points at it.''),
      (''confidence'', described ''string'' ''high | medium | low.'')]"

definition FINDING_SCHEMA :: pyval where
  "FINDING_SCHEMA =
     VDict [(''type'', VStr ''object''),
       (''required'', VList [VStr ''aspect'', VStr ''claim'', VStr ''evidence_anchor'', VStr ''verified'', VStr ''confidence'']),
       (''properties'', VDict FINDING_FIELDS)]"

definition SUBMIT_FINDINGS_SCHEMA :: pyval where
  "SUBMIT_FINDINGS_SCHEMA =
     VDict [(''type'', VStr ''object''),
       (''required'', VList [VStr ''findings'', VStr ''summary'', VStr ''insufficient_evidence'']),
       (''properties'', VDict
          [(''findings'', VDict [(''type'', VStr ''array''),
              (''items'', FINDING_SCHEMA)]),
           (''summary'', described ''string'' ''One or two sentences answering the dimension.''),
           (''insufficient_evidence'', described ''boolean''
              ''True if you could not gather enough evidence to answer - a VALID outcome. Do NOT fabricate findings to avoid setting this.'')])]"

text \<open>\<open>str(d.get(k) or "")\<close>.\<close>

definition field_text :: "(pyval \<Rightarrow> string) \<Rightarrow> message \<Rightarrow> string \<Rightarrow> string" where
  "field_text str d k = (if truthy (get d k) then (case get d k of VStr s \<Rightarrow> s | v \<Rightarrow> str v) else [])"

definition stripped :: "(pyval \<Rightarrow> string) \<Rightarrow> message \<Rightarrow> string \<Rightarrow> string" where
  "stripped str d k = py_strip (field_text str d k)"

text \<open>\<open>params.get("findings") or []\<close> of a valid report.\<close>

definition findings_of :: "message \<Rightarrow> message list" where
  "findings_of params = (case get params ''findings'' of VList fs \<Rightarrow> map as_dict fs | _ \<Rightarrow> [])"

datatype SubmitOutcome =
    Invalid "schema_error list"
  | EmptyReport
  | EmptyAbstention
  | Uncited "nat list"
  | Recorded

record SubmitFindings =
  captured :: "message option"
  terminal_capture_accepted :: bool

definition uncited :: "(pyval \<Rightarrow> string) \<Rightarrow> message list \<Rightarrow> nat list" where
  "uncited str fs =
     map fst (filter (\<lambda>(i, f). truthy (get f ''verified'') \<and> stripped str f ''evidence_anchor'' = []) (List.enumerate 0 fs))"

definition submit ::
  "(string \<Rightarrow> bool) \<Rightarrow> (string \<Rightarrow> string \<Rightarrow> bool) \<Rightarrow> (pyval \<Rightarrow> string) \<Rightarrow> message \<Rightarrow> SubmitFindings \<Rightarrow> SubmitOutcome \<times> SubmitFindings" where
  "submit re_ok re_search str params s0 =
     (let s = s0\<lparr>terminal_capture_accepted := False\<rparr>;
          errors = validate re_ok re_search (VDict params) SUBMIT_FINDINGS_SCHEMA;
          fs = findings_of params
      in if errors \<noteq> [] then (Invalid errors, s)
         else if fs = [] \<and> \<not> truthy (get params ''insufficient_evidence'') then (EmptyReport, s)
         else if fs = [] \<and> stripped str params ''summary'' = [] then (EmptyAbstention, s)
         else if uncited str fs \<noteq> [] then (Uncited (uncited str fs), s)
         else (Recorded, s\<lparr>captured := Some params, terminal_capture_accepted := True\<rparr>))"

section \<open>Reports\<close>

definition LF :: string where
  "LF = [CHR 0x0A]"

definition finding_line :: "(pyval \<Rightarrow> string) \<Rightarrow> message \<Rightarrow> string" where
  "finding_line str f =
     (let aspect = stripped str f ''aspect''; anchor = stripped str f ''evidence_anchor''; confidence = stripped str f ''confidence''
      in ''- '' @ (if aspect = [] then [] else ''('' @ aspect @ '') '') @ stripped str f ''claim'' @
         (if anchor = [] then [] else '' ['' @ anchor @ '']'') @ '' - '' @
         (if truthy (get f ''verified'') then ''verified'' else ''unverified'') @
         (if confidence = [] then [] else '', confidence='' @ confidence))"

definition format_findings_report :: "(pyval \<Rightarrow> string) \<Rightarrow> message \<Rightarrow> string" where
  "format_findings_report str c =
     (let summary = stripped str c ''summary''
      in py_join LF
           ((if summary = [] then [] else [''Summary: '' @ summary]) @ map (finding_line str) (findings_of c) @
            (if truthy (get c ''insufficient_evidence'')
             then [''(insufficient_evidence: the scout reports it could not gather enough evidence to fully answer this dimension)'']
             else [])))"

definition PARTIAL_SNIPPET_CHARS :: nat where "PARTIAL_SNIPPET_CHARS = 600"
definition PARTIAL_MAX_MESSAGES :: nat where "PARTIAL_MAX_MESSAGES = 64"
definition PARTIAL_MAX_CHARS :: nat where "PARTIAL_MAX_CHARS = 16000"
definition LEDGER_FIELD_CHARS :: nat where "LEDGER_FIELD_CHARS = 240"
definition LEDGER_MAX_CARDS :: nat where "LEDGER_MAX_CARDS = 64"
definition LEDGER_MAX_CHARS :: nat where "LEDGER_MAX_CHARS = 12000"

definition with_omission_marker :: "string \<Rightarrow> string \<Rightarrow> nat \<Rightarrow> string" where
  "with_omission_marker t marker max_chars =
     (if marker = [] then take max_chars t
      else let separator = (if t = [] then [] else LF)
           in take max_chars (take (max_chars - length separator - length marker) t @ separator @ marker))"

definition py_rstrip :: "string \<Rightarrow> string" where
  "py_rstrip s = rev (dropWhile is_space (rev s))"

definition card_line :: "(pyval \<Rightarrow> string) \<Rightarrow> message \<Rightarrow> string" where
  "card_line str evidence =
     (let field = (\<lambda>k. take LEDGER_FIELD_CHARS (stripped str evidence k));
          head = py_rstrip (''- ['' @ field ''outcome'' @ ''] '' @ field ''tool'' @ '' '' @ field ''target'')
      in if field ''snippet'' = [] then head else head @ '': '' @ field ''snippet'')"

text \<open>Lines are taken while the text stays within the limit.\<close>

fun fitting_lines :: "string \<Rightarrow> nat \<Rightarrow> string list \<Rightarrow> string list \<Rightarrow> string list" where
  "fitting_lines sep limit acc [] = acc"
| "fitting_lines sep limit acc (l # ls) =
     (if limit < length (py_join sep (acc @ [l])) then acc else fitting_lines sep limit (acc @ [l]) ls)"

definition format_evidence_ledger :: "(pyval \<Rightarrow> string) \<Rightarrow> message list \<Rightarrow> nat \<Rightarrow> nat \<Rightarrow> string" where
  "format_evidence_ledger str cards max_cards max_chars =
     (let shown = fitting_lines LF max_chars [] (map (card_line str) (take max_cards cards));
          omitted = length cards - length shown
      in with_omission_marker (py_join LF shown)
           (if omitted = 0 then [] else ''- [omitted] '' @ nat_digits omitted @ '' evidence cards'') max_chars)"

definition salvage_texts :: "(pyval \<Rightarrow> string) \<Rightarrow> message list \<Rightarrow> string list" where
  "salvage_texts str ms =
     map (\<lambda>m. take PARTIAL_SNIPPET_CHARS (field_text str m ''content''))
       (filter (\<lambda>m. get m ''role'' = VStr ''tool'' \<or>
          (get m ''role'' = VStr ''assistant'' \<and> truthy (get m ''content'') \<and> get m ''_opencollab_placeholder'' \<noteq> VBool True)) ms)"

definition partial_transcript :: "(pyval \<Rightarrow> string) \<Rightarrow> message list \<Rightarrow> string" where
  "partial_transcript str ms =
     (let texts = salvage_texts str ms; blank = LF @ LF;
          header = ''(partial - scout chopped; '' @ nat_digits (length (filter is_tool_msg ms)) @ '' tool results)'';
          full = py_join blank (header # texts)
      in if texts = [] then []
         else if length texts \<le> PARTIAL_MAX_MESSAGES \<and> length full \<le> PARTIAL_MAX_CHARS then full
         else let parts = fitting_lines blank PARTIAL_MAX_CHARS [header] (rev (py_last PARTIAL_MAX_MESSAGES texts));
                  omitted = length texts - (length parts - 1)
              in with_omission_marker (py_join blank parts)
                   (if omitted = 0 then [] else ''[omitted '' @ nat_digits omitted @ '' earlier transcript messages]'') PARTIAL_MAX_CHARS)"

definition ledger_report :: "(pyval \<Rightarrow> string) \<Rightarrow> message list \<Rightarrow> string" where
  "ledger_report str ledger =
     (let body = format_evidence_ledger str ledger LEDGER_MAX_CARDS LEDGER_MAX_CHARS
      in if py_strip body = [] then []
         else ''(partial - scout chopped; '' @ nat_digits (length ledger) @ '' evidence cards)'' @ LF @ body)"

definition harvest_findings ::
  "(pyval \<Rightarrow> string) \<Rightarrow> message option \<Rightarrow> string \<Rightarrow> message list \<Rightarrow> message list \<Rightarrow> string option \<Rightarrow> string" where
  "harvest_findings str captured_report fallback_text ms ledger draft =
     (let report = (case captured_report of Some c \<Rightarrow> format_findings_report str c | None \<Rightarrow> []);
          drafted = (case draft of Some d \<Rightarrow> d | None \<Rightarrow> [])
      in if py_strip report \<noteq> [] then report
         else if py_strip drafted \<noteq> [] then drafted
         else if py_strip fallback_text \<noteq> [] then fallback_text
         else if ledger \<noteq> [] \<and> ledger_report str ledger \<noteq> [] then ledger_report str ledger
         else partial_transcript str ms)"

section \<open>The salvage prompt\<close>

definition SYNTH_RESULT_CHARS :: nat where "SYNTH_RESULT_CHARS = 800"
definition SYNTH_MAX_RESULTS :: nat where "SYNTH_MAX_RESULTS = 12"

definition NO_RESULTS :: string where
  "NO_RESULTS = ''(no raw tool results captured)''"

definition format_tool_results_for_synth :: "(pyval \<Rightarrow> string) \<Rightarrow> message list \<Rightarrow> nat \<Rightarrow> string" where
  "format_tool_results_for_synth str ms max_chars =
     (let results = filter is_tool_msg ms;
          selected = take SYNTH_MAX_RESULTS results;
          rendered = map (\<lambda>m. take SYNTH_RESULT_CHARS (field_text str m ''content'')) selected;
          body = py_join (LF @ ''---'' @ LF) (filter (\<lambda>r. py_strip r \<noteq> []) rendered);
          omitted = length results - length selected;
          bounded = with_omission_marker body
            (if omitted = 0 then [] else ''[omitted '' @ nat_digits omitted @ '' raw tool results]'') max_chars
      in if results = [] then NO_RESULTS else if bounded = [] then take max_chars NO_RESULTS else bounded)"

text \<open>The prompt is \<open>head\<close>, the ledger, \<open>middle\<close>, the results.\<close>

definition build_dead_scout_synthesis_prompt ::
  "string \<Rightarrow> string \<Rightarrow> (pyval \<Rightarrow> string) \<Rightarrow> message list \<Rightarrow> message list \<Rightarrow> nat \<Rightarrow> string" where
  "build_dead_scout_synthesis_prompt head middle str ledger ms max_chars =
     (if max_chars \<le> length (head @ middle) then take max_chars (head @ middle)
      else let room = max_chars - length (head @ middle);
               ledger_budget = max 1 (room * 2 div 3);
               result_budget = max 1 (room - ledger_budget);
               rendered = format_evidence_ledger str ledger LEDGER_MAX_CARDS ledger_budget;
               ledger_text = (if rendered = [] then take ledger_budget ''(empty ledger)'' else rendered)
           in take max_chars (head @ ledger_text @ middle @ format_tool_results_for_synth str ms result_budget))"

datatype Terminus = Forced | Voluntary | Strayed | Chopped

definition terminus :: "message option \<Rightarrow> bool \<Rightarrow> Terminus" where
  "terminus captured_report wind_down_done =
     (if captured_report \<noteq> None then if wind_down_done then Forced else Voluntary
      else if wind_down_done then Strayed else Chopped)"

section \<open>Accepted reports\<close>

lemma conforms_described:
  "conforms rs v (described t d) \<longleftrightarrow> check_type v (VStr t)"
  by (auto simp: described_def conforms.simps get_def string_conforms_def number_conforms_def required_present_def in_range_def
      declared_properties_def int_bound_def split: pyval.split)

definition finding_typed :: "pyval \<Rightarrow> bool" where
  "finding_typed f =
     (\<exists>d. f = VDict d \<and> is_str (get d ''aspect'') \<and> is_str (get d ''claim'') \<and> is_str (get d ''evidence_anchor'') \<and>
        is_bool (get d ''verified'') \<and> is_str (get d ''confidence''))"

lemma schema_accepted: "validate_schema re_ok SUBMIT_FINDINGS_SCHEMA = []"
  by (simp add: validate_schema_def SUBMIT_FINDINGS_SCHEMA_def FINDING_SCHEMA_def FINDING_FIELDS_def described_def validate_schema_node.simps check_keyword_def
      SUPPORTED_KEYWORDS_def VALIDATION_KEYWORDS_def ANNOTATION_KEYWORDS_def check_type_keyword_def get_def type_problem_def
      type_members_def type_check_def check_required_def check_enum_def check_lengths_def check_bounds_def check_pattern_def Let_def)

lemma validated_conforms: "validate re_ok rs v SUBMIT_FINDINGS_SCHEMA = [] \<longleftrightarrow> conforms rs v SUBMIT_FINDINGS_SCHEMA"
proof -
  have "wf_schema re_ok SUBMIT_FINDINGS_SCHEMA" using schema_accepted by (auto simp: wf_schema_def validate_schema_def)
  from validate_node_sound [OF this, of rs v "''$''"] show ?thesis by (simp add: validate_def schema_accepted sound_def)
qed

lemma typed_values:
  "check_type v (VStr ''string'') \<longleftrightarrow> is_str v" "check_type v (VStr ''boolean'') \<longleftrightarrow> is_bool v"
  by (simp_all add: check_type.simps type_check_def)

lemma submission_shape:
  assumes "conforms rs (VDict params) SUBMIT_FINDINGS_SCHEMA"
  obtains fs where "get params ''findings'' = VList fs" and "list_all finding_typed fs" and "is_str (get params ''summary'')"
    and "is_bool (get params ''insufficient_evidence'')"
proof -
  obtain f s i where f: "map_of params ''findings'' = Some f" "map_of params ''summary'' = Some s" "map_of params ''insufficient_evidence'' = Some i"
    and fs: "conforms rs f (VDict [(''type'', VStr ''array''), (''items'', FINDING_SCHEMA)])" "is_str s" "is_bool i"
    using assms
    by (auto simp: SUBMIT_FINDINGS_SCHEMA_def conforms.simps [of rs "VDict params"] conforms_described typed_values required_present_def
        get_def dest!: keys_lookup)
  have "check_type f (VStr ''array'')" using fs(1) by (simp add: conforms.simps [of rs f] get_def)
  then obtain xs where xs: "f = VList xs" by (cases f) (auto simp: check_type.simps type_check_def)
  have items: "list_all (\<lambda>x. conforms rs x FINDING_SCHEMA) xs"
    using fs(1) unfolding xs by (simp add: conforms.simps [of rs "VList xs"] get_def)
  have "finding_typed x" if "x \<in> set xs" for x
  proof -
    have c: "conforms rs x FINDING_SCHEMA" using items that by (simp add: list_all_iff)
    then have "check_type x (VStr ''object'')" by (simp add: conforms.simps [of rs x] FINDING_SCHEMA_def get_def)
    then obtain d where d: "x = VDict d" by (cases x) (auto simp: check_type.simps type_check_def)
    show ?thesis
      using c unfolding d
      by (auto simp: conforms.simps [of rs "VDict d"] FINDING_SCHEMA_def FINDING_FIELDS_def conforms_described typed_values required_present_def get_def
          finding_typed_def dest!: keys_lookup)
  qed
  then show thesis using that [of xs] f fs xs by (simp add: get_def list_all_iff)
qed

lemma uncited_none:
  "uncited str fs = [] \<longleftrightarrow> (\<forall>f \<in> set fs. truthy (get f ''verified'') \<longrightarrow> stripped str f ''evidence_anchor'' \<noteq> [])"
proof -
  have "(\<forall>p \<in> set (List.enumerate n fs). P (snd p)) \<longleftrightarrow> (\<forall>f \<in> set fs. P f)" for P n
    by (induction fs arbitrary: n) auto
  from this [of 0 "\<lambda>f. truthy (get f ''verified'') \<longrightarrow> stripped str f ''evidence_anchor'' \<noteq> []"]
  show ?thesis by (simp add: uncited_def filter_empty_conv case_prod_beta)
qed

text \<open>
  C15. Cite or abstain.  A report is recorded exactly when it conforms to the schema, has a finding or
  admits with a reason that the evidence is insufficient, and cites evidence for every finding it marks as
  verified.  A recorded report is the one captured and every finding of it is typed and, if verified,
  cited; a refused report captures nothing, keeps what was captured before, and does not end the scout.
\<close>

theorem report_cites_or_abstains:
  assumes "submit re_ok re_search str params s = (outcome, s')"
  shows "(outcome = Recorded \<longleftrightarrow> conforms re_search (VDict params) SUBMIT_FINDINGS_SCHEMA \<and>
      (findings_of params \<noteq> [] \<or> truthy (get params ''insufficient_evidence'') \<and> stripped str params ''summary'' \<noteq> []) \<and>
      (\<forall>f \<in> set (findings_of params). truthy (get f ''verified'') \<longrightarrow> stripped str f ''evidence_anchor'' \<noteq> [])) \<and>
    (if outcome = Recorded
     then captured s' = Some params \<and> terminal_capture_accepted s' \<and>
       (\<exists>fs. get params ''findings'' = VList fs \<and> list_all finding_typed fs)
     else captured s' = captured s \<and> \<not> terminal_capture_accepted s')"
proof -
  have out: "outcome = Recorded \<longleftrightarrow> conforms re_search (VDict params) SUBMIT_FINDINGS_SCHEMA \<and>
      (findings_of params \<noteq> [] \<or> truthy (get params ''insufficient_evidence'') \<and> stripped str params ''summary'' \<noteq> []) \<and>
      uncited str (findings_of params) = []"
    and state: "if outcome = Recorded then captured s' = Some params \<and> terminal_capture_accepted s'
      else captured s' = captured s \<and> \<not> terminal_capture_accepted s'"
    using assms by (auto simp: submit_def Let_def validated_conforms split: if_splits)
  moreover have "\<exists>fs. get params ''findings'' = VList fs \<and> list_all finding_typed fs" if "outcome = Recorded"
    using that out submission_shape by metis
  ultimately show ?thesis unfolding uncited_none by simp
qed

section \<open>Bounds\<close>

lemma marker_length [simp]: "length (with_omission_marker t marker n) \<le> n"
  by (simp only: with_omission_marker_def Let_def length_take split: if_splits) simp

lemma fitting_length: "length (py_join sep acc) \<le> n \<Longrightarrow> length (py_join sep (fitting_lines sep n acc ls)) \<le> n"
  by (induction sep n acc ls rule: fitting_lines.induct) auto

lemma ledger_length: "length (format_evidence_ledger str cards k n) \<le> n"
  by (simp add: format_evidence_ledger_def Let_def)

lemma prompt_length: "length (build_dead_scout_synthesis_prompt head middle str ledger ms n) \<le> n"
  by (simp only: build_dead_scout_synthesis_prompt_def Let_def length_take split: if_splits) simp

lemma partial_length: "length (partial_transcript str ms) \<le> PARTIAL_MAX_CHARS"
  by (simp add: partial_transcript_def Let_def)

text \<open>Every card of the ledger is a line or is counted in the marker.\<close>

lemma fitting_prefix: "\<exists>k. fitting_lines sep n acc ls = acc @ take k ls \<and> k \<le> length ls"
proof (induction sep n acc ls rule: fitting_lines.induct)
  case (2 sep n acc l ls)
  show ?case
  proof (cases "n < length (py_join sep (acc @ [l]))")
    case True
    then show ?thesis by (intro exI [of _ 0]) simp
  next
    case False
    then obtain k where "fitting_lines sep n (acc @ [l]) ls = (acc @ [l]) @ take k ls" "k \<le> length ls" using "2.IH" by blast
    then show ?thesis using False by (intro exI [of _ "Suc k"]) simp
  qed
qed simp

definition from_ledger :: "nat \<Rightarrow> string \<Rightarrow> bool" where
  "from_ledger n report =
     (\<exists>body. report = ''(partial - scout chopped; '' @ nat_digits n @ '' evidence cards)'' @ LF @ body \<and> length body \<le> LEDGER_MAX_CHARS)"

lemma ledger_report_shape: "ledger_report str ledger = [] \<or> from_ledger (length ledger) (ledger_report str ledger)"
proof (cases "py_strip (format_evidence_ledger str ledger LEDGER_MAX_CARDS LEDGER_MAX_CHARS) = []")
  case False
  then show ?thesis
    using ledger_length [of str ledger LEDGER_MAX_CARDS LEDGER_MAX_CHARS]
    unfolding ledger_report_def from_ledger_def Let_def if_not_P [OF False] by blast
qed (simp add: ledger_report_def)

lemma strip_nil: "py_strip [] = []"
  by (simp add: py_strip_def)

lemma one_of_three:
  "r \<in> S \<or> r = t \<or> r = l \<and> l \<noteq> [] \<Longrightarrow> length t \<le> n \<Longrightarrow> l = [] \<or> Q l \<Longrightarrow> r \<in> S \<or> length r \<le> n \<or> Q r"
  by auto

text \<open>
  What a lost scout leaves fits the planner.  The evidence ledger and the salvage prompt stay within
  the limit they are given; a report recovered from the transcript stays within its own, and one from the
  ledger within its limit and a header line.  Anything else that is returned is the captured report, the
  draft or the final answer, verbatim.
\<close>

theorem harvest_bounded:
  "length (format_evidence_ledger str ledger max_cards n) \<le> n \<and>
   length (build_dead_scout_synthesis_prompt head middle str ledger ms n) \<le> n \<and>
   (let report = harvest_findings str c fallback_text ms ledger draft
    in report \<in> {fallback_text} \<union> set_option draft \<union> format_findings_report str ` set_option c \<or>
       length report \<le> PARTIAL_MAX_CHARS \<or> from_ledger (length ledger) report)"
proof -
  let ?r = "harvest_findings str c fallback_text ms ledger draft"
  let ?S = "{fallback_text} \<union> set_option draft \<union> format_findings_report str ` set_option c"
  have "?r \<in> ?S \<or> ?r = partial_transcript str ms \<or> ?r = ledger_report str ledger \<and> ledger_report str ledger \<noteq> []"
    by (cases c; cases draft) (simp_all add: harvest_findings_def strip_nil Let_def)
  from one_of_three [where Q = "from_ledger (length ledger)", OF this partial_length ledger_report_shape]
  show ?thesis unfolding Let_def by (intro conjI ledger_length prompt_length)
qed

definition demo_report :: message where
  "demo_report =
     [(''findings'', VList [VDict [(''aspect'', VStr ''io''), (''claim'', VStr ''blocks''), (''evidence_anchor'', VStr ''a.py:3''),
         (''verified'', VBool True), (''confidence'', VStr ''high'')]]),
      (''summary'', VStr ''found''), (''insufficient_evidence'', VBool False)]"

theorem report_cites_or_abstains_witness:
  "case submit (\<lambda>_. True) (\<lambda>_ _. True) (\<lambda>_. []) demo_report \<lparr>captured = None, terminal_capture_accepted = False\<rparr> of
     (outcome, s') \<Rightarrow> outcome = Recorded \<and> captured s' = Some demo_report"
proof -
  obtain outcome s' where run: "submit (\<lambda>_. True) (\<lambda>_ _. True) (\<lambda>_. []) demo_report \<lparr>captured = None, terminal_capture_accepted = False\<rparr> = (outcome, s')"
    by fastforce
  have "conforms (\<lambda>_ _. True) (VDict demo_report) SUBMIT_FINDINGS_SCHEMA"
    by (simp add: demo_report_def SUBMIT_FINDINGS_SCHEMA_def FINDING_SCHEMA_def FINDING_FIELDS_def conforms.simps conforms_described typed_values get_def
        required_present_def in_range_def int_bound_def described_def string_conforms_def number_conforms_def is_number_def declared_properties_def check_type.simps type_check_def)
  then show ?thesis
    using report_cites_or_abstains [OF run] run
    by (simp add: demo_report_def findings_of_def as_dict_def stripped_def field_text_def get_def py_strip_def is_space_def code_def)
qed

end
