(* ===== verification/Retry.thy ===== *)
theory Retry
  imports Responses_Stream
begin

text \<open>
  Retries of provider requests (\<open>adapters/llm/retry.py\<close>) and the errors they depend on
  (\<open>adapters/llm/errors.py\<close>).  An exception is the record of the attributes that are read; its chain of
  causes starts with itself and ends where an exception occurs again.  Seconds are exact rational
  numbers.  The call number \<open>i\<close> is \<open>calls i\<close>: its result, how long it took, and the random part of the
  delay after it.  The regular expressions of input selectors, \<open>float\<close> and the date parser are arguments.
\<close>

section \<open>Errors\<close>

record ErrorLink =
  li_class :: string
  li_message :: string
  li_status :: "int option"

record ErrorInfo =
  er_transient :: bool
  er_status :: "int option"
  er_response_status :: "int option"
  er_code :: pyval
  er_param :: pyval
  er_body :: pyval
  er_message :: string
  er_links :: "ErrorLink list"
  er_headers :: "(string \<times> string) list"

record RetryHost =
  rh_selector :: "string \<Rightarrow> bool"
  rh_selectors_in :: "string \<Rightarrow> string list"
  rh_float :: "string \<Rightarrow> pyfloat option"
  rh_seconds_until :: "string \<Rightarrow> rat option"

abbreviation lower :: "string \<Rightarrow> string" where
  "lower s \<equiv> map lower_char s"

definition mentions :: "string \<Rightarrow> string list \<Rightarrow> bool" where
  "mentions message phrases = list_ex (\<lambda>f. sublist f message) phrases"

definition status_of :: "ErrorInfo \<Rightarrow> int option" where
  "status_of e = (case er_status e of Some s \<Rightarrow> Some s | None \<Rightarrow> er_response_status e)"

definition error_code_of :: "ErrorInfo \<Rightarrow> string" where
  "error_code_of e =
     (case er_code e of
        VStr c \<Rightarrow> lower c
      | _ \<Rightarrow>
          (case attr (er_body e) ''code'' of
             VStr c \<Rightarrow> lower c
           | _ \<Rightarrow> (case attr (attr (er_body e) ''error'') ''code'' of VStr c \<Rightarrow> lower c | _ \<Rightarrow> [])))"

definition OVERFLOW_MESSAGE_FRAGMENTS :: "string list" where
  "OVERFLOW_MESSAGE_FRAGMENTS =
     [''context length'', ''context_length_exceeded'', ''maximum context'', ''context window'', ''prompt is too long'',
      ''too many tokens'', ''reduce the length'', ''reduce the number of tokens'']"

definition oversized_input_string :: "RetryHost \<Rightarrow> ErrorInfo \<Rightarrow> bool" where
  "oversized_input_string h e =
     (let param = (case (er_param e, er_body e) of
                     (VStr p, _) \<Rightarrow> VStr p
                   | (p, VDict b) \<Rightarrow> attr (if is_dict (get b ''error'') then get b ''error'' else VDict b) ''param''
                   | (p, _) \<Rightarrow> p)
      in case param of
           VStr p \<Rightarrow> rh_selector h (lower p)
         | _ \<Rightarrow> list_ex (rh_selector h) (rh_selectors_in h (lower (er_message e))))"

definition is_context_overflow_error :: "RetryHost \<Rightarrow> ErrorInfo \<Rightarrow> bool" where
  "is_context_overflow_error h e =
     (if status_of e \<noteq> Some 400 then False
      else if error_code_of e = ''string_above_max_length'' then oversized_input_string h e
      else if sublist ''context_length_exceeded'' (error_code_of e) \<or> sublist ''context length'' (error_code_of e) then True
      else if sublist ''string too long'' (lower (er_message e)) \<and> oversized_input_string h e then True
      else mentions (lower (er_message e)) OVERFLOW_MESSAGE_FRAGMENTS)"

definition RETRYABLE_STATUS_CODES :: "int list" where
  "RETRYABLE_STATUS_CODES = [408, 409, 429, 500, 502, 503, 504, 529]"

definition RETRYABLE_MESSAGE_FRAGMENTS :: "string list" where
  "RETRYABLE_MESSAGE_FRAGMENTS = [''rate limit'', ''429'', ''timeout'', ''temporarily unavailable'', ''overloaded'']"

definition TRANSIENT_TRANSPORT_CLASS_NAMES :: "string list" where
  "TRANSIENT_TRANSPORT_CLASS_NAMES =
     [''apiconnectionerror'', ''apitimeouterror'', ''connecterror'', ''connecttimeout'', ''connectionabortederror'',
      ''connectionrefusederror'', ''connectionreseterror'', ''brokenpipeerror'', ''pooltimeout'', ''readerror'', ''readtimeout'',
      ''remoteprotocolerror'', ''sockettimeout'', ''timeouterror'', ''writeerror'', ''writetimeout'']"

definition TRANSIENT_TRANSPORT_MESSAGE_FRAGMENTS :: "string list" where
  "TRANSIENT_TRANSPORT_MESSAGE_FRAGMENTS =
     [''connection error'', ''connection reset'', ''connection refused'', ''connection aborted'', ''broken pipe'',
      ''server disconnected'', ''remote protocol error'']"

definition STATUSLESS_PROVIDER_ERROR_CLASS_NAMES :: "string list" where
  "STATUSLESS_PROVIDER_ERROR_CLASS_NAMES = [''apierror'', ''openaierror'', ''anthropicerror'']"

definition TRANSIENT_GATEWAY_MESSAGE_FRAGMENTS :: "string list" where
  "TRANSIENT_GATEWAY_MESSAGE_FRAGMENTS = [''concurrency limit'', ''too many concurrent'', ''stream failed'']"

definition transport_failure :: "ErrorLink \<Rightarrow> bool" where
  "transport_failure l =
     (lower (li_class l) \<in> set TRANSIENT_TRANSPORT_CLASS_NAMES \<or>
      (mentions (lower (li_message l)) TRANSIENT_TRANSPORT_MESSAGE_FRAGMENTS \<and>
       lower (li_class l) \<in> {''apiconnectionerror'', ''apitimeouterror'', ''connecterror'', ''connectionerror'', ''connectionreseterror'',
                             ''remoteprotocolerror'', ''timeouterror''}))"

definition gateway_refusal :: "ErrorLink \<Rightarrow> bool" where
  "gateway_refusal l =
     (lower (li_class l) \<in> set STATUSLESS_PROVIDER_ERROR_CLASS_NAMES \<and>
      mentions (lower (li_message l)) TRANSIENT_GATEWAY_MESSAGE_FRAGMENTS)"

text \<open>The walk along the causes; the flags are what was seen before.\<close>

fun transient_chain :: "bool \<Rightarrow> bool \<Rightarrow> ErrorLink list \<Rightarrow> bool" where
  "transient_chain refused has_status [] = (refused \<and> \<not> has_status)"
| "transient_chain refused has_status (l # ls) =
     (if transport_failure l then True
      else transient_chain (refused \<or> gateway_refusal l) (has_status \<or> li_status l \<noteq> None) ls)"

definition is_retryable_error :: "RetryHost \<Rightarrow> ErrorInfo \<Rightarrow> bool" where
  "is_retryable_error h e =
     (if er_transient e then True
      else if is_context_overflow_error h e then False
      else if er_status e \<in> Some ` set RETRYABLE_STATUS_CODES then True
      else if er_response_status e \<in> Some ` set RETRYABLE_STATUS_CODES then True
      else if mentions (lower (er_message e)) RETRYABLE_MESSAGE_FRAGMENTS then True
      else transient_chain False False (er_links e))"

section \<open>Delays\<close>

definition RETRY_JITTER_MAX_SECONDS :: rat where "RETRY_JITTER_MAX_SECONDS = 1 / 4"
definition MAX_RETRY_AFTER_SECONDS :: rat where "MAX_RETRY_AFTER_SECONDS = 300"
definition MAX_EXPONENTIAL_RETRY_DELAY_SECONDS :: rat where "MAX_EXPONENTIAL_RETRY_DELAY_SECONDS = 60"

definition header :: "(string \<times> string) list \<Rightarrow> string option" where
  "header hs =
     (case map_of hs ''Retry-After'' of
        Some v \<Rightarrow> if v = [] then map_of hs ''retry-after'' else Some v
      | None \<Rightarrow> map_of hs ''retry-after'')"

definition extract_retry_after_seconds :: "RetryHost \<Rightarrow> ErrorInfo \<Rightarrow> rat option" where
  "extract_retry_after_seconds h e =
     (case header (er_headers e) of
        None \<Rightarrow> None
      | Some v \<Rightarrow>
          (case (case rh_float h v of Some f \<Rightarrow> (case f of Fin q \<Rightarrow> Some q | _ \<Rightarrow> None) | None \<Rightarrow> rh_seconds_until h v) of
             None \<Rightarrow> None
           | Some s \<Rightarrow> if s < 0 then None else Some (min s MAX_RETRY_AFTER_SECONDS)))"

definition backoff :: "nat \<Rightarrow> rat" where
  "backoff attempt = min (2 ^ min attempt 30) MAX_EXPONENTIAL_RETRY_DELAY_SECONDS"

definition retry_delay :: "RetryHost \<Rightarrow> ErrorInfo \<Rightarrow> nat \<Rightarrow> rat \<Rightarrow> rat" where
  "retry_delay h e attempt jitter =
     max 0 ((case extract_retry_after_seconds h e of Some s \<Rightarrow> s | None \<Rightarrow> backoff attempt) + jitter)"

section \<open>The time budget\<close>

record RetryTimeBudget =
  total_seconds :: rat
  remaining_seconds :: rat

definition make_budget :: "pyval \<Rightarrow> unit + RetryTimeBudget" where
  "make_budget v =
     (case v of
        VInt i \<Rightarrow> if i < 0 then Inl () else (case float_of_int i of Some q \<Rightarrow> Inr \<lparr>total_seconds = q, remaining_seconds = q\<rparr> | None \<Rightarrow> Inl ())
      | VFloat (Fin q) \<Rightarrow> if q < 0 then Inl () else Inr \<lparr>total_seconds = q, remaining_seconds = q\<rparr>
      | _ \<Rightarrow> Inl ())"

definition consume :: "rat \<Rightarrow> RetryTimeBudget \<Rightarrow> bool \<times> RetryTimeBudget" where
  "consume seconds b =
     (let s = max 0 seconds
      in if remaining_seconds b < s then (False, b\<lparr>remaining_seconds := 0\<rparr>)
         else (True, b\<lparr>remaining_seconds := remaining_seconds b - s\<rparr>))"

definition consume_if :: "rat \<Rightarrow> RetryTimeBudget option \<Rightarrow> bool \<times> RetryTimeBudget option" where
  "consume_if seconds ob = (case ob of None \<Rightarrow> (True, None) | Some b \<Rightarrow> (let (ok, b') = consume seconds b in (ok, Some b')))"

text \<open>A run keeps its own copy of a shared budget, by the identity of the budget.\<close>

definition scoped_native_retry_budget ::
  "(nat \<times> RetryTimeBudget) option \<Rightarrow> (nat \<times> RetryTimeBudget) list option \<Rightarrow> RetryTimeBudget option \<times> (nat \<times> RetryTimeBudget) list option" where
  "scoped_native_retry_budget shared scope =
     (case (shared, scope) of
        (Some (i, b), Some entries) \<Rightarrow>
          (case map_of entries i of
             Some own \<Rightarrow> (Some own, scope)
           | None \<Rightarrow> (let own = \<lparr>total_seconds = total_seconds b, remaining_seconds = total_seconds b\<rparr>
                     in (Some own, Some (AList.update i own entries))))
      | (None, _) \<Rightarrow> (None, scope)
      | (Some (i, b), None) \<Rightarrow> (Some b, None))"

section \<open>The loop\<close>

record 'r Attempt =
  at_result :: "ErrorInfo + 'r"
  at_elapsed :: rat
  at_jitter :: rat

text \<open>
  The result, the budget that is left and the delays slept; \<open>None\<close> when more than \<open>fuel\<close> calls are needed.
\<close>

fun with_retry ::
  "nat \<Rightarrow> RetryHost \<Rightarrow> (nat \<Rightarrow> 'r Attempt) \<Rightarrow> nat option \<Rightarrow> RetryTimeBudget option \<Rightarrow> nat \<Rightarrow>
   ((ErrorInfo + 'r) \<times> RetryTimeBudget option \<times> rat list) option" where
  "with_retry 0 h calls max_retries budget attempt = None"
| "with_retry (Suc fuel) h calls max_retries budget attempt =
     (case at_result (calls attempt) of
        Inr r \<Rightarrow> Some (Inr r, budget, [])
      | Inl e \<Rightarrow>
          if \<not> is_retryable_error h e then Some (Inl e, budget, [])
          else
            let (available, b1) = consume_if (at_elapsed (calls attempt)) budget
            in if (case max_retries of None \<Rightarrow> False | Some n \<Rightarrow> n \<le> attempt) \<or> \<not> available then Some (Inl e, b1, [])
               else
                 let delay = retry_delay h e attempt (at_jitter (calls attempt));
                     (paid, b2) = consume_if delay b1
                 in if \<not> paid then Some (Inl e, b2, [])
                    else map_option (\<lambda>(r, b, ds). (r, b, delay # ds)) (with_retry fuel h calls max_retries b2 (attempt + 1)))"

section \<open>What a run of retries spends\<close>

lemma backoff_ge: "1 \<le> backoff attempt"
  by (simp add: backoff_def MAX_EXPONENTIAL_RETRY_DELAY_SECONDS_def)

lemma retry_after_range: "extract_retry_after_seconds h e = Some s \<Longrightarrow> 0 \<le> s \<and> s \<le> MAX_RETRY_AFTER_SECONDS"
  by (auto simp: extract_retry_after_seconds_def MAX_RETRY_AFTER_SECONDS_def split: option.splits if_splits)

lemma delay_range:
  assumes "0 \<le> j" and "j \<le> RETRY_JITTER_MAX_SECONDS"
  shows "0 \<le> retry_delay h e n j \<and> retry_delay h e n j \<le> MAX_RETRY_AFTER_SECONDS + RETRY_JITTER_MAX_SECONDS"
proof (cases "extract_retry_after_seconds h e")
  case None
  have "backoff n \<le> 60" by (simp add: backoff_def MAX_EXPONENTIAL_RETRY_DELAY_SECONDS_def)
  then show ?thesis using None assms backoff_ge [of n] by (simp add: retry_delay_def MAX_RETRY_AFTER_SECONDS_def)
next
  case (Some s)
  then show ?thesis using retry_after_range [OF Some] assms by (simp add: retry_delay_def)
qed

text \<open>At least \<open>amount\<close> was taken from the budget and no debt was made.\<close>

definition charged :: "rat \<Rightarrow> RetryTimeBudget option \<Rightarrow> RetryTimeBudget option \<Rightarrow> bool" where
  "charged amount ob ob' =
     (case (ob, ob') of
        (None, None) \<Rightarrow> True
      | (Some b, Some b') \<Rightarrow> 0 \<le> remaining_seconds b \<longrightarrow> 0 \<le> remaining_seconds b' \<and> remaining_seconds b' + amount \<le> remaining_seconds b
      | _ \<Rightarrow> False)"

lemma charged_refl: "charged 0 ob ob"
  by (auto simp: charged_def split: option.split)

lemma charged_trans: "charged x a b \<Longrightarrow> charged y b c \<Longrightarrow> charged (x + y) a c"
  by (auto simp: charged_def split: option.splits)

lemma charged_consume: "consume_if s ob = (ok, ob') \<Longrightarrow> 0 \<le> s \<Longrightarrow> charged (if ok then s else 0) ob ob'"
  by (auto simp: consume_if_def consume_def Let_def charged_def split: option.splits if_splits)

lemma retry_step:
  assumes "with_retry (Suc fuel) h calls m ob n = Some (r, ob', ds)" and "0 \<le> at_elapsed (calls n)"
    and "0 \<le> at_jitter (calls n)" and "at_jitter (calls n) \<le> RETRY_JITTER_MAX_SECONDS"
  obtains (last) "r = at_result (calls n)" "ds = []" "charged 0 ob ob'"
  | (again) e b2 ds' where "at_result (calls n) = Inl e" "is_retryable_error h e" "m = None \<or> (\<exists>k. m = Some k \<and> n < k)"
    "ds = retry_delay h e n (at_jitter (calls n)) # ds'"
    "charged (at_elapsed (calls n) + retry_delay h e n (at_jitter (calls n))) ob b2"
    "with_retry fuel h calls m b2 (Suc n) = Some (r, ob', ds')"
proof (cases "at_result (calls n)")
  case (Inr x)
  then show ?thesis using assms(1) last charged_refl by auto
next
  case (Inl e)
  obtain available b1 where c1: "consume_if (at_elapsed (calls n)) ob = (available, b1)" by fastforce
  note ch1 = charged_consume [OF c1 assms(2)]
  let ?d = "retry_delay h e n (at_jitter (calls n))"
  obtain paid b2 where c2: "consume_if ?d b1 = (paid, b2)" by fastforce
  note ch2 = charged_consume [OF c2 conjunct1 [OF delay_range [OF assms(3,4)]]]
  consider "\<not> is_retryable_error h e"
    | "is_retryable_error h e" "(case m of None \<Rightarrow> False | Some k \<Rightarrow> k \<le> n) \<or> \<not> available"
    | "is_retryable_error h e" "\<not> (case m of None \<Rightarrow> False | Some k \<Rightarrow> k \<le> n)" "available" "\<not> paid"
    | "is_retryable_error h e" "\<not> (case m of None \<Rightarrow> False | Some k \<Rightarrow> k \<le> n)" "available" "paid"
    by blast
  then show ?thesis
  proof cases
    case 1
    then show ?thesis using assms(1) Inl last charged_refl by auto
  next
    case 2
    have "charged 0 ob b1" using ch1 assms(2) by (auto simp: charged_def split: if_splits option.splits)
    then show ?thesis using 2 assms(1) Inl c1 last by (simp add: Let_def)
  next
    case 3
    have "charged 0 ob b2" using charged_trans [OF ch1 ch2] 3 assms(2) by (auto simp: charged_def split: option.splits)
    then show ?thesis using 3 assms(1) Inl c1 c2 last by (simp add: Let_def)
  next
    case 4
    then obtain ds' where "with_retry fuel h calls m b2 (Suc n) = Some (r, ob', ds')" "ds = ?d # ds'"
      using assms(1) Inl c1 c2 by (auto simp: Let_def)
    moreover have "charged (at_elapsed (calls n) + ?d) ob b2" using charged_trans [OF ch1 ch2] 4 by simp
    ultimately show ?thesis using again [OF Inl] 4 by (auto split: option.splits)
  qed
qed

definition timed :: "(nat \<Rightarrow> 'r Attempt) \<Rightarrow> bool" where
  "timed calls = (\<forall>i. 0 \<le> at_elapsed (calls i) \<and> 0 \<le> at_jitter (calls i) \<and> at_jitter (calls i) \<le> RETRY_JITTER_MAX_SECONDS)"

definition retried :: "RetryHost \<Rightarrow> 'r Attempt \<Rightarrow> nat \<Rightarrow> rat \<Rightarrow> bool" where
  "retried h call i delay = (\<exists>e. at_result call = Inl e \<and> is_retryable_error h e \<and> delay = retry_delay h e i (at_jitter call))"

lemma retry_run:
  assumes "timed calls" and "with_retry fuel h calls m ob n = Some (r, ob', ds)"
  shows "r = at_result (calls (n + length ds)) \<and> (\<forall>i < length ds. retried h (calls (n + i)) (n + i) (ds ! i)) \<and>
    (\<forall>k. m = Some k \<longrightarrow> n + length ds \<le> max n k) \<and>
    charged (sum_list ds + (\<Sum>i < length ds. at_elapsed (calls (n + i)))) ob ob'"
  using assms(2)
proof (induction fuel arbitrary: ob n ds)
  case (Suc fuel)
  have t: "0 \<le> at_elapsed (calls n)" "0 \<le> at_jitter (calls n)" "at_jitter (calls n) \<le> RETRY_JITTER_MAX_SECONDS"
    using assms(1) by (simp_all add: timed_def)
  from Suc.prems t show ?case
  proof (cases rule: retry_step)
    case last
    then show ?thesis by simp
  next
    case (again e b2 ds')
    note IH = Suc.IH [OF again(6)]
    have "retried h (calls (n + i)) (n + i) (ds ! i)" if "i < length ds" for i
      using again IH that by (cases i) (auto simp: retried_def)
    moreover have "charged (sum_list ds + (\<Sum>i < length ds. at_elapsed (calls (n + i)))) ob ob'"
    proof -
      have "(\<Sum>i < length ds. at_elapsed (calls (n + i))) = at_elapsed (calls n) + (\<Sum>i < length ds'. at_elapsed (calls (Suc n + i)))"
        unfolding again(4) by (simp add: sum.lessThan_Suc_shift del: sum.lessThan_Suc)
      then have "sum_list ds + (\<Sum>i < length ds. at_elapsed (calls (n + i))) =
          (at_elapsed (calls n) + retry_delay h e n (at_jitter (calls n))) + (sum_list ds' + (\<Sum>i < length ds'. at_elapsed (calls (Suc n + i))))"
        by (simp add: again(4) del: sum.lessThan_Suc)
      moreover have "charged (sum_list ds' + (\<Sum>i < length ds'. at_elapsed (calls (Suc n + i)))) b2 ob'" using IH by blast
      ultimately show ?thesis using charged_trans [OF again(5)] by presburger
    qed
    ultimately show ?thesis using again(3,4) IH by auto
  qed
qed simp

text \<open>
  C22. A retried request keeps within its allowance.  Every call before the last failed with an error that
  may be retried, which a context overflow is only if the provider calls it transient; the result is that
  of the last call; there are at most \<open>max_retries\<close> retries; no delay is negative or longer than five
  minutes and the jitter; and the time of the failed calls and the delays is within the time budget.
\<close>

theorem retry_within_allowance:
  assumes "timed calls" and "with_retry fuel h calls max_retries (Some b) 0 = Some (r, Some b', ds)" and "0 \<le> remaining_seconds b"
  shows "r = at_result (calls (length ds)) \<and>
    (\<forall>i < length ds. \<exists>e. at_result (calls i) = Inl e \<and> is_retryable_error h e \<and> (is_context_overflow_error h e \<longrightarrow> er_transient e) \<and>
       0 \<le> ds ! i \<and> ds ! i \<le> MAX_RETRY_AFTER_SECONDS + RETRY_JITTER_MAX_SECONDS) \<and>
    (\<forall>k. max_retries = Some k \<longrightarrow> length ds \<le> k) \<and>
    sum_list ds + (\<Sum>i < length ds. at_elapsed (calls i)) \<le> remaining_seconds b - remaining_seconds b' \<and> 0 \<le> remaining_seconds b'"
proof -
  note run = retry_run [OF assms(1,2)]
  have "\<exists>e. at_result (calls i) = Inl e \<and> is_retryable_error h e \<and> (is_context_overflow_error h e \<longrightarrow> er_transient e) \<and>
      0 \<le> ds ! i \<and> ds ! i \<le> MAX_RETRY_AFTER_SECONDS + RETRY_JITTER_MAX_SECONDS" if i: "i < length ds" for i
  proof -
    obtain e where e: "at_result (calls i) = Inl e" "is_retryable_error h e" "ds ! i = retry_delay h e i (at_jitter (calls i))"
      using run i by (auto simp: retried_def)
    have "is_context_overflow_error h e \<longrightarrow> er_transient e" using e(2) by (auto simp: is_retryable_error_def split: if_splits)
    then show ?thesis using e delay_range [of "at_jitter (calls i)" h e i] assms(1) by (auto simp: timed_def)
  qed
  then show ?thesis using run assms(3) by (auto simp: charged_def)
qed

text \<open>
  C23. Retrying ends.  With a limit on the retries the loop ends after at most one call more than the
  limit.  Without one, but with a time budget and a provider that sends no \<open>Retry-After\<close>, it ends after at
  most one call more than the budget has seconds, because every delay takes a second or more.
\<close>

theorem retry_ends:
  assumes "timed calls" and "max_retries = Some k \<and> k < fuel \<or>
    budget = Some b \<and> 0 \<le> remaining_seconds b \<and> remaining_seconds b < of_nat fuel \<and>
    (\<forall>i e. at_result (calls i) = Inl e \<longrightarrow> extract_retry_after_seconds h e = None)"
  shows "with_retry fuel h calls max_retries budget 0 \<noteq> None"
proof -
  have limit: "with_retry fuel h calls (Some k) ob n \<noteq> None" if "n \<le> k" and "k < n + fuel" for ob n fuel
    using that
  proof (induction fuel arbitrary: ob n)
    case (Suc fuel)
    show ?case
    proof (cases "k \<le> n")
      case True
      then show ?thesis by (auto simp: Let_def split: sum.splits prod.splits)
    next
      case False
      then have "with_retry fuel h calls (Some k) ob (Suc n) \<noteq> None" for ob using Suc by simp
      then show ?thesis by (auto simp: Let_def split: sum.splits prod.splits)
    qed
  qed simp
  have time: "with_retry fuel h calls m (Some b) n \<noteq> None"
    if quiet: "\<forall>i e. at_result (calls i) = Inl e \<longrightarrow> extract_retry_after_seconds h e = None"
      and "0 \<le> remaining_seconds b" and "remaining_seconds b < of_nat fuel" for m b n fuel
    using that(2,3)
  proof (induction fuel arbitrary: b n)
    case (Suc fuel)
    show ?case
    proof (cases "at_result (calls n)")
      case (Inl e)
      let ?d = "retry_delay h e n (at_jitter (calls n))"
      have t: "0 \<le> at_elapsed (calls n)" "0 \<le> at_jitter (calls n)" using assms(1) by (simp_all add: timed_def)
      then have d: "1 \<le> ?d" using quiet Inl backoff_ge [of n] by (simp add: retry_delay_def)
      obtain ok1 b1 where c1: "consume (at_elapsed (calls n)) b = (ok1, b1)" by fastforce
      obtain ok2 b2 where c2: "consume ?d b1 = (ok2, b2)" by fastforce
      have "with_retry fuel h calls m (Some b2) (Suc n) \<noteq> None" if "ok1" "ok2"
      proof (rule Suc.IH)
        show "0 \<le> remaining_seconds b2" using c2 that(2) d by (auto simp: consume_def Let_def split: if_splits)
        have "remaining_seconds b1 \<le> remaining_seconds b" "remaining_seconds b2 \<le> remaining_seconds b1 - 1"
          using c1 c2 that t d by (auto simp: consume_def Let_def split: if_splits)
        then show "remaining_seconds b2 < of_nat fuel" using Suc.prems(2) by simp
      qed
      then show ?thesis using Inl c1 c2 by (auto simp: Let_def consume_if_def)
    qed simp
  qed simp
  from assms(2) show ?thesis using limit [of 0] time by auto
qed

text \<open>One failed call with status 429, then an answer.\<close>

definition demo_error :: ErrorInfo where
  "demo_error =
     \<lparr>er_transient = False, er_status = Some 429, er_response_status = None, er_code = VNone, er_param = VNone, er_body = VNone,
      er_message = ''busy'', er_links = [], er_headers = []\<rparr>"

definition demo_retry_host :: RetryHost where
  "demo_retry_host = \<lparr>rh_selector = (\<lambda>_. False), rh_selectors_in = (\<lambda>_. []), rh_float = (\<lambda>_. None), rh_seconds_until = (\<lambda>_. None)\<rparr>"

definition demo_calls :: "nat \<Rightarrow> nat Attempt" where
  "demo_calls i = \<lparr>at_result = (if i = 0 then Inl demo_error else Inr 7), at_elapsed = 2, at_jitter = 0\<rparr>"

definition demo_budget :: RetryTimeBudget where
  "demo_budget = \<lparr>total_seconds = 10, remaining_seconds = 10\<rparr>"

lemma demo_timed: "timed demo_calls"
  by (simp add: timed_def demo_calls_def RETRY_JITTER_MAX_SECONDS_def)

lemma demo_no_header: "at_result (demo_calls i) = Inl e \<Longrightarrow> extract_retry_after_seconds h e = None"
  by (auto simp: demo_calls_def extract_retry_after_seconds_def header_def demo_error_def split: if_splits)

lemma demo_run:
  "with_retry 2 demo_retry_host demo_calls (Some 3) (Some demo_budget) 0 =
     Some (Inr 7, Some \<lparr>total_seconds = 10, remaining_seconds = 7\<rparr>, [1])"
  by code_simp

theorem retry_within_allowance_witness:
  "with_retry 2 demo_retry_host demo_calls (Some 3) (Some demo_budget) 0 =
     Some (Inr 7, Some \<lparr>total_seconds = 10, remaining_seconds = 7\<rparr>, [1]) \<and> is_retryable_error demo_retry_host demo_error"
  using retry_within_allowance [OF demo_timed demo_run] demo_run by (auto simp: demo_budget_def demo_calls_def)

theorem retry_ends_witness:
  "with_retry 11 demo_retry_host demo_calls None (Some demo_budget) 0 \<noteq> None"
  by (rule retry_ends [OF demo_timed]) (auto simp: demo_budget_def dest: demo_no_header)

section \<open>Failures of a stream\<close>

text \<open>The exception that a failed Responses stream raises.\<close>

definition raised :: "StreamError \<Rightarrow> pyval \<Rightarrow> pyval \<Rightarrow> string \<Rightarrow> ErrorInfo" where
  "raised e ec param message =
     (let body = VDict [(''error'', VDict [(''code'', ec), (''message'', VStr message), (''param'', param)])];
          own = (case e of Transient _ \<Rightarrow> True | Terminal _ \<Rightarrow> True | _ \<Rightarrow> False)
      in \<lparr>er_transient = (case e of Transient _ \<Rightarrow> True | Interrupted \<Rightarrow> True | EmptyOutput \<Rightarrow> True | _ \<Rightarrow> False),
          er_status = (case e of Transient n \<Rightarrow> Some (int n) | Terminal s \<Rightarrow> map_option int s | _ \<Rightarrow> None),
          er_response_status = None, er_code = (if own then ec else VNone), er_param = (if own then param else VNone),
          er_body = (if own then body else VNone), er_message = message, er_links = [], er_headers = []\<rparr>)"

text \<open>
  A failed stream is repeated when the provider says that the failure is temporary; a request that is too
  long is reported as such and is not sent again as it is.
\<close>

lemma transient_retried: "is_retryable_error h (raised (Transient n) ec param message)"
  by (simp add: is_retryable_error_def raised_def)

lemma too_long_terminal:
  "raise_response_error sh err = Terminal s \<Longrightarrow> attr err ''code'' = VStr ''context_length_exceeded'' \<Longrightarrow> s = Some 400"
  by (auto simp: raise_response_error_def Let_def in_set_def split: sum.splits if_splits)

lemma too_long_is_overflow: "is_context_overflow_error h (raised (Terminal (Some 400)) (VStr ''context_length_exceeded'') param message)"
proof -
  have low: "lower ''context_length_exceeded'' = ''context_length_exceeded''" "''context_length_exceeded'' \<noteq> ''string_above_max_length''"
    by code_simp+
  then have "error_code_of (raised (Terminal (Some 400)) (VStr ''context_length_exceeded'') param message) = ''context_length_exceeded''"
    by (simp add: error_code_of_def raised_def)
  moreover have "sublist ''context_length_exceeded'' ''context_length_exceeded''" by (rule sublist_order.order_refl)
  moreover have "status_of (raised (Terminal (Some 400)) (VStr ''context_length_exceeded'') param message) = Some 400"
    by (simp add: status_of_def raised_def)
  ultimately show ?thesis using low(2) unfolding is_context_overflow_error_def by presburger
qed

lemma stream_failure_classified:
  "case raise_response_error sh err of
     Transient n \<Rightarrow> is_retryable_error h (raised (Transient n) (attr err ''code'') (attr err ''param'') message)
   | Terminal s \<Rightarrow> attr err ''code'' = VStr ''context_length_exceeded'' \<longrightarrow>
       is_context_overflow_error h (raised (Terminal s) (attr err ''code'') (attr err ''param'') message) \<and>
       \<not> is_retryable_error h (raised (Terminal s) (attr err ''code'') (attr err ''param'') message)
   | _ \<Rightarrow> True"
proof (cases "raise_response_error sh err")
  case (Terminal s)
  have "\<not> er_transient (raised (Terminal (Some 400)) ec param message)" for ec param by (simp add: raised_def)
  then show ?thesis using Terminal too_long_terminal [OF Terminal] too_long_is_overflow by (auto simp: is_retryable_error_def)
qed (simp_all add: transient_retried)

end
