(* ===== verification/Patch_Paths.thy ===== *)
theory Patch_Paths
  imports Apply_Patch
begin

text \<open>
  Git patch blocks and paths (\<open>application/patch_paths.py\<close>).  A path is decoded to bytes and the bytes to
  text by \<open>bytes.decode("utf-8", "surrogateescape")\<close>, which is the argument \<open>utf8\<close>.  A block is the list of
  its lines with their line ends.
\<close>

section \<open>Quoted paths\<close>

type_synonym bytes = "nat list"

definition GIT_C_ESCAPES :: "(char \<times> nat) list" where
  "GIT_C_ESCAPES =
     [(CHR ''a'', 0x07), (CHR ''b'', 0x08), (CHR ''t'', 0x09), (CHR ''n'', 0x0A), (CHR ''v'', 0x0B), (CHR ''f'', 0x0C),
      (CHR ''r'', 0x0D), (CHR 0x22, 0x22), (CHR 0x5C, 0x5C)]"

text \<open>\<open>str.encode("utf-8")\<close> of a code point below U+0100.\<close>

definition utf8_char :: "char \<Rightarrow> bytes" where
  "utf8_char c = (let n = code c in if n < 0x80 then [n] else [0xC0 + n div 64, 0x80 + n mod 64])"

definition is_octal :: "char \<Rightarrow> bool" where
  "is_octal c = (0x30 \<le> code c \<and> code c \<le> 0x37)"

definition octal :: "string \<Rightarrow> nat" where
  "octal ds = foldl (\<lambda>n d. 8 * n + (code d - 0x30)) 0 ds"

text \<open>The octal digits of an escape: at most \<open>n\<close>, and what follows.\<close>

fun octal_digits :: "nat \<Rightarrow> string \<Rightarrow> string \<times> string" where
  "octal_digits (Suc n) (c # s) = (if is_octal c then (let (ds, rest) = octal_digits n s in (c # ds, rest)) else ([], c # s))"
| "octal_digits n s = ([], s)"

lemma octal_digits_length: "octal_digits n s = (ds, rest) \<Longrightarrow> length ds + length rest = length s"
  by (induction n s arbitrary: ds rule: octal_digits.induct) (auto split: if_splits prod.splits)

text \<open>\<open>bytearray.append\<close> raises \<open>ValueError\<close> above 255.\<close>

definition octal_byte :: "string \<Rightarrow> unit + nat" where
  "octal_byte ds = (if octal ds < 256 then Inr (octal ds) else Inl ())"

function decode_escapes :: "bool \<Rightarrow> string \<Rightarrow> unit + bytes" where
  "decode_escapes quoted [] = Inr []"
| "decode_escapes quoted (c # s) =
     (if quoted \<and> c = CHR 0x22 then Inr []
      else if c \<noteq> CHR 0x5C then bnd (decode_escapes quoted s) (\<lambda>bs. Inr (utf8_char c @ bs))
      else case s of
             [] \<Rightarrow> Inr [0x5C]
           | e # s' \<Rightarrow>
               if is_octal e
               then (let (ds, rest) = octal_digits 2 s'
                     in bnd (octal_byte (e # ds)) (\<lambda>b. bnd (decode_escapes quoted rest) (\<lambda>bs. Inr (b # bs))))
               else bnd (decode_escapes quoted s')
                      (\<lambda>bs. Inr ((case map_of GIT_C_ESCAPES e of Some b \<Rightarrow> b | None \<Rightarrow> code e) # bs)))"
  by pat_completeness auto
termination
  by (relation "measure (\<lambda>(_, s). length s)") (auto dest!: octal_digits_length [OF sym])

definition decode_bytes :: "string \<Rightarrow> unit + bytes" where
  "decode_bytes v =
     (if startswith v [CHR 0x22] then decode_escapes True (drop 1 v) else decode_escapes False v)"

definition decode_git_c_path :: "(bytes \<Rightarrow> string) \<Rightarrow> string \<Rightarrow> unit + string" where
  "decode_git_c_path utf8 v = bnd (decode_bytes v) (\<lambda>bs. Inr (utf8 bs))"

section \<open>Headers\<close>

definition rstrip_newlines :: "string \<Rightarrow> string" where
  "rstrip_newlines s = rev (dropWhile (\<lambda>c. c \<in> {CHR 0x0A, CHR 0x0D}) (rev s))"

definition DIFF_GIT :: string where
  "DIFF_GIT = ''diff --git ''"

text \<open>The index after the closing quote.\<close>

fun closing_quote :: "nat \<Rightarrow> string \<Rightarrow> nat option" where
  "closing_quote i [] = None"
| "closing_quote i (c # s) =
     (if c = CHR 0x5C then (case s of [] \<Rightarrow> None | _ # s' \<Rightarrow> closing_quote (i + 2) s')
      else if c = CHR 0x22 then Some (i + 1) else closing_quote (i + 1) s)"

text \<open>\<open>str.rfind\<close>.\<close>

fun rfind :: "string \<Rightarrow> string \<Rightarrow> nat option" where
  "rfind p [] = (if p = [] then Some 0 else None)"
| "rfind p (c # s) = (case rfind p s of Some i \<Rightarrow> Some (Suc i) | None \<Rightarrow> if startswith (c # s) p then Some 0 else None)"

definition split_last :: "string \<Rightarrow> string list" where
  "split_last text =
     (case rfind '' \"b/'' text of
        Some i \<Rightarrow> [take i text, drop (i + 1) text]
      | None \<Rightarrow> (case rfind '' b/'' text of Some i \<Rightarrow> [take i text, drop (i + 1) text] | None \<Rightarrow> [text]))"

definition git_header_tokens :: "string \<Rightarrow> string list" where
  "git_header_tokens header =
     (let line = rstrip_newlines header; text = drop (length DIFF_GIT) line
      in if \<not> startswith line DIFF_GIT then []
         else if startswith text [CHR 0x22] then
           (case closing_quote 1 (drop 1 text) of
              None \<Rightarrow> []
            | Some e \<Rightarrow> (let target = dropWhile (\<lambda>c. c = CHR 0x20) (drop e text)
                        in if target = [] then [take e text] else [take e text, target]))
         else if \<not> startswith text ''a/'' then []
         else (let body = drop 2 text; half = (length body - 3) div 2
               in if 3 \<le> length body \<and> take 3 (drop half body) = '' b/'' \<and> take half body = drop (half + 3) body
                  then [''a/'' @ take half body, ''b/'' @ drop (half + 3) body]
                  else split_last text))"

definition strip_side :: "string \<Rightarrow> string \<Rightarrow> string option" where
  "strip_side p s = (if startswith s p then Some (drop (length p) s) else None)"

definition diff_target_path :: "(bytes \<Rightarrow> string) \<Rightarrow> string \<Rightarrow> unit + string" where
  "diff_target_path utf8 header =
     (let source = (case git_header_tokens header of
                      [] \<Rightarrow> Inr []
                    | p # _ \<Rightarrow> bnd (decode_git_c_path utf8 p) (\<lambda>s. Inr (case strip_side ''a/'' s of Some q \<Rightarrow> q | None \<Rightarrow> [])))
      in case git_header_tokens header of
           _ # p # _ \<Rightarrow> bnd (decode_git_c_path utf8 p) (\<lambda>t. case strip_side ''b/'' t of Some q \<Rightarrow> Inr q | None \<Rightarrow> source)
         | _ \<Rightarrow> source)"

definition git_diff_endpoint :: "(bytes \<Rightarrow> string) \<Rightarrow> string \<Rightarrow> string \<Rightarrow> unit + string" where
  "git_diff_endpoint utf8 token side =
     bnd (decode_git_c_path utf8 token) (\<lambda>path. Inr
       (if path = ''/dev/null'' then []
        else case strip_side (side @ ''/'') path of Some q \<Rightarrow> q | None \<Rightarrow> path))"

section \<open>Blocks\<close>

text \<open>The lines of a text with their line feeds; the empty rest after the last one is left out.\<close>

fun keep_lines :: "string \<Rightarrow> string list" where
  "keep_lines [] = []"
| "keep_lines (c # s) =
     (if c = CHR 0x0A then [c] # keep_lines s
      else case keep_lines s of [] \<Rightarrow> [[c]] | l # ls \<Rightarrow> (c # l) # ls)"

definition is_header :: "string \<Rightarrow> bool" where
  "is_header l = startswith l DIFF_GIT"

fun split_blocks :: "string list list \<Rightarrow> string list \<Rightarrow> string list \<Rightarrow> string list list" where
  "split_blocks blocks current [] = (if current = [] then blocks else blocks @ [current])"
| "split_blocks blocks current (l # ls) =
     (if is_header l \<and> current \<noteq> [] then split_blocks (blocks @ [current]) [l] ls else split_blocks blocks (current @ [l]) ls)"

definition split_patch_blocks :: "string \<Rightarrow> string list list" where
  "split_patch_blocks patch = split_blocks [] [] (keep_lines patch)"

definition without_tab :: "string \<Rightarrow> string" where
  "without_tab s = (if endswith s [CHR 0x09] then take (length s - 1) s else s)"

text \<open>\<open>line.split(" ", 2)[2]\<close>.\<close>

definition after_second_space :: "string \<Rightarrow> string" where
  "after_second_space s =
     (let tail = (\<lambda>t. drop 1 (dropWhile (\<lambda>c. c \<noteq> CHR 0x20) t)) in tail (tail s))"

definition starts_with_any :: "string \<Rightarrow> string list \<Rightarrow> bool" where
  "starts_with_any s ps = list_ex (startswith s) ps"

fun block_paths :: "(bytes \<Rightarrow> string) \<Rightarrow> string \<times> string \<Rightarrow> string list \<Rightarrow> unit + string \<times> string" where
  "block_paths utf8 (old_path, new_path) [] = Inr (old_path, new_path)"
| "block_paths utf8 (old_path, new_path) (raw # ls) =
     (let line = rstrip_newlines raw
      in if startswith line ''--- ''
         then bnd (git_diff_endpoint utf8 (without_tab (drop 4 line)) ''a'') (\<lambda>p. block_paths utf8 (p, new_path) ls)
         else if startswith line ''+++ ''
         then bnd (git_diff_endpoint utf8 (without_tab (drop 4 line)) ''b'') (\<lambda>p. block_paths utf8 (old_path, p) ls)
         else if starts_with_any line [''rename from '', ''copy from '']
         then bnd (decode_git_c_path utf8 (after_second_space line)) (\<lambda>p. block_paths utf8 (p, new_path) ls)
         else if starts_with_any line [''rename to '', ''copy to '']
         then bnd (decode_git_c_path utf8 (after_second_space line)) (\<lambda>p. block_paths utf8 (old_path, p) ls)
         else if starts_with_any line [''@@'', ''GIT binary patch'', ''Binary files ''] then Inr (old_path, new_path)
         else block_paths utf8 (old_path, new_path) ls)"

definition header_paths :: "(bytes \<Rightarrow> string) \<Rightarrow> string \<Rightarrow> unit + string \<times> string" where
  "header_paths utf8 header =
     (case git_header_tokens header of
        p # q # _ \<Rightarrow> bnd (git_diff_endpoint utf8 p ''a'') (\<lambda>a. bnd (git_diff_endpoint utf8 q ''b'') (\<lambda>b. Inr (a, b)))
      | _ \<Rightarrow> Inr ([], []))"

definition block_entry :: "(bytes \<Rightarrow> string) \<Rightarrow> string list \<Rightarrow> unit + (string \<times> string) list" where
  "block_entry utf8 block =
     (case block of
        [] \<Rightarrow> Inr []
      | h # ls \<Rightarrow>
          if \<not> is_header h then Inr []
          else bnd (block_paths utf8 ([], []) ls) (\<lambda>ps.
               bnd (if ps = ([], []) then header_paths utf8 h else Inr ps) (\<lambda>qs.
               Inr (if qs = ([], []) then [] else [qs]))))"

fun entries_of :: "(bytes \<Rightarrow> string) \<Rightarrow> string list list \<Rightarrow> unit + (string \<times> string) list" where
  "entries_of utf8 [] = Inr []"
| "entries_of utf8 (b # bs) = bnd (block_entry utf8 b) (\<lambda>es. bnd (entries_of utf8 bs) (\<lambda>fs. Inr (es @ fs)))"

definition patch_entries :: "(bytes \<Rightarrow> string) \<Rightarrow> string \<Rightarrow> unit + (string \<times> string) list" where
  "patch_entries utf8 patch = entries_of utf8 (split_patch_blocks patch)"

text \<open>The keys of a dict in the order in which they are first set.\<close>

definition patch_paths :: "(bytes \<Rightarrow> string) \<Rightarrow> string \<Rightarrow> unit + string list" where
  "patch_paths utf8 patch =
     bnd (patch_entries utf8 patch) (\<lambda>es. Inr
       (foldl (\<lambda>acc p. if p = [] \<or> p \<in> set acc then acc else acc @ [p]) [] (concat (map (\<lambda>(a, b). [a, b]) es))))"

definition patch_block_target_path :: "(bytes \<Rightarrow> string) \<Rightarrow> string list \<Rightarrow> unit + string" where
  "patch_block_target_path utf8 block =
     bnd (patch_entries utf8 (concat block)) (\<lambda>es. Inr
       (case es of [(a, b)] \<Rightarrow> if b \<noteq> [] then b else a | _ \<Rightarrow> []))"

definition normalize_patch_path :: "string \<Rightarrow> string" where
  "normalize_patch_path path =
     dropWhile (\<lambda>c. c = CHR ''/'') (map (\<lambda>c. if c = CHR 0x5C then CHR ''/'' else c) (py_strip path))"

section \<open>Blocks and their text\<close>

lemma concat_keep_lines [simp]: "concat (keep_lines s) = s"
  by (induction s rule: keep_lines.induct) (auto split: list.splits)

lemma keep_lines_nonempty: "[] \<notin> set (keep_lines s)"
  by (induction s rule: keep_lines.induct) (auto split: list.splits)

lemma concat_split_blocks: "concat (split_blocks blocks current ls) = concat blocks @ current @ ls"
  by (induction blocks current ls rule: split_blocks.induct) auto

text \<open>A block is well formed when a header can only be its first line.\<close>

definition block_ok :: "string list \<Rightarrow> bool" where
  "block_ok b = (b \<noteq> [] \<and> list_all (\<lambda>l. \<not> is_header l) (tl b))"

definition headed :: "string list \<Rightarrow> bool" where
  "headed b = (b \<noteq> [] \<and> is_header (hd b))"

lemma headed_simps [simp]: "headed [l] = is_header l" "current \<noteq> [] \<Longrightarrow> headed (current @ [l]) = headed current"
  by (auto simp: headed_def)

lemma split_blocks_ok:
  "list_all block_ok blocks \<Longrightarrow> list_all headed (tl (blocks @ [current])) \<Longrightarrow> current = [] \<or> block_ok current \<Longrightarrow> current = [] \<longrightarrow> blocks = [] \<Longrightarrow>
   list_all block_ok (split_blocks blocks current ls) \<and> list_all headed (tl (split_blocks blocks current ls))"
proof (induction blocks current ls rule: split_blocks.induct)
  case (1 blocks current)
  then show ?case by (cases blocks) auto
next
  case (2 blocks current l ls)
  show ?case
  proof (cases "is_header l \<and> current \<noteq> []")
    case True
    have "list_all headed (tl ((blocks @ [current]) @ [[l]]))" using "2.prems" True by (cases blocks) auto
    then show ?thesis using "2.IH"(1) [OF True] "2.prems" True by (auto simp: block_ok_def)
  next
    case False
    have "list_all headed (tl (blocks @ [current @ [l]]))" using "2.prems" by (cases blocks; cases "current = []") auto
    moreover have "block_ok (current @ [l])" using "2.prems" False by (cases current) (auto simp: block_ok_def)
    ultimately show ?thesis using "2.IH"(2) [OF False] "2.prems" False by auto
  qed
qed

text \<open>
  Splitting a patch loses nothing.  The lines of its blocks, put together, are the patch character for
  character; no block is empty, every block but the first begins with a \<open>diff --git\<close> header and a
  header occurs nowhere else in a block.
\<close>

theorem blocks_lossless:
  "concat (concat (split_patch_blocks patch)) = patch \<and> list_all block_ok (split_patch_blocks patch) \<and>
   list_all headed (tl (split_patch_blocks patch))"
  using split_blocks_ok [of "[]" "[]" "keep_lines patch"] by (simp add: split_patch_blocks_def concat_split_blocks)

section \<open>Git's own quoting\<close>

text \<open>
  How git prints a path that needs quotes: a letter escape where there is one, three octal digits for the
  other control bytes and for bytes from 0x80, the byte itself otherwise.
\<close>

definition quote_byte :: "nat \<Rightarrow> string" where
  "quote_byte b =
     (case map_of (map (\<lambda>(c, n). (n, c)) GIT_C_ESCAPES) b of
        Some c \<Rightarrow> [CHR 0x5C, c]
      | None \<Rightarrow>
          if b < 0x20 \<or> 0x7F \<le> b
          then [CHR 0x5C, char_of (0x30 + b div 64), char_of (0x30 + b div 8 mod 8), char_of (0x30 + b mod 8)]
          else [char_of b])"

definition git_quote :: "bytes \<Rightarrow> string" where
  "git_quote bs = [CHR 0x22] @ concat (map quote_byte bs) @ [CHR 0x22]"

lemma code_char_of [simp]: "n < 256 \<Longrightarrow> code (char_of n) = n"
  by (simp add: code_def)

lemma code_marks: "code (CHR 0x22) = 0x22" "code (CHR 0x5C) = 0x5C"
  by (simp_all add: code_def)

lemma digit_char: "n < 8 \<Longrightarrow> is_octal (char_of (0x30 + n)) \<and> code (char_of (0x30 + n)) = 0x30 + n"
  by (simp add: is_octal_def)

lemma octal_of_digits:
  assumes "x < 8" and "y < 8" and "z < 8"
  shows "octal [char_of (0x30 + x), char_of (0x30 + y), char_of (0x30 + z)] = 8 * (8 * x + y) + z"
proof -
  have c: "code (char_of (0x30 + n)) - 0x30 = n" if "n < 8" for n :: nat using digit_char [OF that] by simp
  show ?thesis unfolding octal_def foldl.simps c [OF assms(1)] c [OF assms(2)] c [OF assms(3)] by simp
qed

lemma octal_of_byte:
  assumes "b < 256"
  shows "octal [char_of (0x30 + b div 64), char_of (0x30 + b div 8 mod 8), char_of (0x30 + b mod 8)] = b"
proof -
  have "b div 64 < 8" "b div 8 mod 8 < 8" "b mod 8 < 8" using assms by simp_all
  note octal_of_digits [OF this]
  also have "b div 64 = b div 8 div 8" using div_mult2_eq [of b 8 8] by simp
  then have "8 * (8 * (b div 64) + b div 8 mod 8) + b mod 8 = b" by (simp only: mult_div_mod_eq)
  finally show ?thesis .
qed

lemma decode_octal:
  assumes "is_octal d" and "is_octal e" and "is_octal f" and "octal [d, e, f] < 256"
  shows "decode_escapes True ([CHR 0x5C, d, e, f] @ s) = bnd (decode_escapes True s) (\<lambda>bs. Inr (octal [d, e, f] # bs))"
  using assms by (simp add: octal_byte_def numeral_2_eq_2)

lemma decode_three_digits:
  assumes "b < 256"
  shows "decode_escapes True
     ([CHR 0x5C, char_of (0x30 + b div 64), char_of (0x30 + b div 8 mod 8), char_of (0x30 + b mod 8)] @ s) =
   bnd (decode_escapes True s) (\<lambda>bs. Inr (b # bs))"
proof -
  have "b div 64 < 8" "b div 8 mod 8 < 8" "b mod 8 < 8" using assms by simp_all
  then have d: "is_octal (char_of (0x30 + b div 64))" "is_octal (char_of (0x30 + b div 8 mod 8))" "is_octal (char_of (0x30 + b mod 8))"
    using digit_char by blast+
  from decode_octal [OF d, of s] show ?thesis unfolding octal_of_byte [OF assms] using assms by simp
qed

lemma decode_letter:
  "map_of (map (\<lambda>(c, n). (n, c)) GIT_C_ESCAPES) b = Some c \<Longrightarrow>
   decode_escapes True ([CHR 0x5C, c] @ s) = bnd (decode_escapes True s) (\<lambda>bs. Inr (b # bs))"
  by (auto simp: GIT_C_ESCAPES_def is_octal_def code_def split: if_splits)

lemma decode_plain:
  assumes "0x20 \<le> b" and "b < 0x7F" and "map_of (map (\<lambda>(c, n). (n, c)) GIT_C_ESCAPES) b = None"
  shows "decode_escapes True ([char_of b] @ s) = bnd (decode_escapes True s) (\<lambda>bs. Inr (b # bs))"
proof -
  have c: "code (char_of b) = b" using assms by simp
  have "b \<noteq> 0x22" "b \<noteq> 0x5C" using assms(3) by (auto simp: GIT_C_ESCAPES_def)
  then have "char_of b \<noteq> CHR 0x22" "char_of b \<noteq> CHR 0x5C" using c code_marks by metis+
  then show ?thesis using c assms by (simp add: utf8_char_def)
qed

lemma decode_quoted_byte:
  assumes "b < 256"
  shows "decode_escapes True (quote_byte b @ s) = bnd (decode_escapes True s) (\<lambda>bs. Inr (b # bs))"
proof (cases "map_of (map (\<lambda>(c, n). (n, c)) GIT_C_ESCAPES) b")
  case (Some c)
  then show ?thesis using decode_letter [OF Some] by (simp add: quote_byte_def)
next
  case None
  then show ?thesis
    using decode_three_digits [OF assms, of s] decode_plain [OF _ _ None, of s] unfolding quote_byte_def by (cases "b < 0x20 \<or> 0x7F \<le> b") auto
qed

lemma decode_git_quoted: "list_all (\<lambda>b. b < 256) bs \<Longrightarrow> decode_escapes True (concat (map quote_byte bs) @ CHR 0x22 # s) = Inr bs"
  by (induction bs) (simp_all add: decode_quoted_byte)

text \<open>
  Every path that git can print is read back.  Whatever bytes a path is made of, the decoder returns
  exactly these bytes for the quoted form git writes in a patch, and a path of printable ASCII without a
  backslash that needs no quotes is returned as it is.
\<close>

theorem quoted_path_roundtrip:
  assumes "list_all (\<lambda>b. b < 256) bs"
  shows "decode_bytes (git_quote bs) = Inr bs \<and>
    (list_all (\<lambda>b. b \<in> {0x20..<0x7F} - {0x22, 0x5C}) bs \<longrightarrow> decode_bytes (map char_of bs) = Inr bs)"
proof -
  have "decode_escapes False (map char_of bs) = Inr bs" if "list_all (\<lambda>b. b \<in> {0x20..<0x7F} - {0x22, 0x5C}) bs" for bs :: bytes
    using that
  proof (induction bs)
    case (Cons b bs)
    then have c: "code (char_of b) = b" "b \<noteq> 0x5C" "b < 0x80" by auto
    then have "char_of b \<noteq> CHR 0x5C" using code_marks by metis
    then show ?case using c Cons by (simp add: utf8_char_def)
  qed simp
  moreover have "\<not> startswith (map char_of bs) [CHR 0x22]" if "list_all (\<lambda>b. b \<in> {0x20..<0x7F} - {0x22, 0x5C}) bs" for bs :: bytes
  proof (cases bs)
    case (Cons b bs')
    then have "code (char_of b) = b" "b \<noteq> 0x22" using that by auto
    then have "char_of b \<noteq> CHR 0x22" using code_marks by metis
    then show ?thesis using Cons by (simp add: startswith_def)
  qed (simp add: startswith_def)
  moreover have "decode_bytes (git_quote bs) = Inr bs"
    using decode_git_quoted [OF assms, of "[]"] by (simp add: decode_bytes_def git_quote_def startswith_def)
  ultimately show ?thesis unfolding decode_bytes_def by auto
qed

theorem quoted_path_roundtrip_witness:
  "decode_bytes (git_quote [0x61, 0x22, 0xC3, 0xA9, 0x0A]) = Inr [0x61, 0x22, 0xC3, 0xA9, 0x0A] \<and>
   git_quote [0xC3] = [CHR 0x22, CHR 0x5C] @ ''303'' @ [CHR 0x22]"
proof -
  have "git_quote [0xC3] = [CHR 0x22, CHR 0x5C] @ ''303'' @ [CHR 0x22]" by code_simp
  then show ?thesis using quoted_path_roundtrip [of "[0x61, 0x22, 0xC3, 0xA9, 0x0A]"] by simp
qed

text \<open>An octal escape above 255 is an error: git never writes one, but a patch may.\<close>

lemma octal_overflow: "decode_git_c_path utf8 [CHR 0x22, CHR 0x5C, CHR ''7'', CHR ''7'', CHR ''7'', CHR 0x22] = Inl ()"
  by (simp add: decode_git_c_path_def decode_bytes_def startswith_def is_octal_def code_def numeral_2_eq_2 octal_byte_def octal_def)

section \<open>Unquoted headers\<close>

lemma rstrip_line: "endswith s [CHR 0x0A] \<or> True \<Longrightarrow> s \<noteq> [] \<Longrightarrow> last s \<notin> {CHR 0x0A, CHR 0x0D} \<Longrightarrow> rstrip_newlines (s @ [CHR 0x0A]) = s"
  by (cases s rule: rev_cases) (auto simp: rstrip_newlines_def)

lemma header_of_path:
  assumes "p \<noteq> []" and "last p \<notin> {CHR 0x0A, CHR 0x0D}"
  shows "git_header_tokens (DIFF_GIT @ ''a/'' @ p @ '' b/'' @ p @ [CHR 0x0A]) = [''a/'' @ p, ''b/'' @ p]"
proof -
  have "rstrip_newlines ((DIFF_GIT @ ''a/'' @ p @ '' b/'' @ p) @ [CHR 0x0A]) = DIFF_GIT @ ''a/'' @ p @ '' b/'' @ p"
    using assms by (intro rstrip_line) (auto simp: DIFF_GIT_def)
  moreover have "(length p + (3 + length p) - 3) div 2 = length p" by simp
  ultimately show ?thesis
    by (simp add: git_header_tokens_def startswith_def DIFF_GIT_def Let_def)
qed

section \<open>The paths of a patch that git writes\<close>

definition line_ok :: "string \<Rightarrow> bool" where
  "line_ok l = (l \<noteq> [] \<and> last l = CHR 0x0A \<and> CHR 0x0A \<notin> set (butlast l))"

lemma keep_one_line: "CHR 0x0A \<notin> set t \<Longrightarrow> keep_lines ((t @ [CHR 0x0A]) @ s) = (t @ [CHR 0x0A]) # keep_lines s"
  by (induction t) auto

lemma keep_lines_concat: "list_all line_ok ls \<Longrightarrow> keep_lines (concat ls) = ls"
proof (induction ls)
  case (Cons l ls)
  then have l: "l = butlast l @ [CHR 0x0A]" "CHR 0x0A \<notin> set (butlast l)"
    using append_butlast_last_id [of l] by (simp_all add: line_ok_def)
  have "keep_lines (concat (l # ls)) = keep_lines ((butlast l @ [CHR 0x0A]) @ concat ls)" using l(1) by simp
  also have "\<dots> = (butlast l @ [CHR 0x0A]) # keep_lines (concat ls)" by (rule keep_one_line [OF l(2)])
  finally show ?case using Cons l(1) by simp
qed simp

lemma split_blocks_same:
  assumes "list_all (\<lambda>b. headed b \<and> block_ok b) bs"
  shows "split_blocks blocks current (concat bs) = blocks @ (if current = [] then [] else [current]) @ bs"
proof -
  have body: "split_blocks blocks current (ls @ rest) = split_blocks blocks (current @ ls) rest"
    if "list_all (\<lambda>l. \<not> is_header l) ls" for blocks current ls rest
    using that by (induction ls arbitrary: current) simp_all
  show ?thesis
    using assms
  proof (induction bs arbitrary: blocks current)
    case (Cons b bs)
    then obtain h ls where b: "b = h # ls" "is_header h" "list_all (\<lambda>l. \<not> is_header l) ls"
      by (cases b) (auto simp: headed_def block_ok_def)
    then show ?case using Cons by (simp add: body)
  qed simp
qed

lemma rstrip_keeps: "xs \<noteq> [] \<Longrightarrow> last xs \<notin> {CHR 0x0A, CHR 0x0D} \<Longrightarrow> rstrip_newlines (xs @ ys) = xs @ rstrip_newlines ys"
  by (cases xs rule: rev_cases) (auto simp: rstrip_newlines_def dropWhile_append)

lemma rstrip_newline [simp]: "rstrip_newlines [CHR 0x0A] = []"
  by (simp add: rstrip_newlines_def)

text \<open>What the model relies on of UTF-8: ASCII bytes in front decode to themselves.\<close>

definition ascii_prefix :: "(bytes \<Rightarrow> string) \<Rightarrow> bool" where
  "ascii_prefix utf8 = (\<forall>s bs. list_all (\<lambda>c. code c < 0x80) s \<longrightarrow> utf8 (map code s @ bs) = s @ utf8 bs)"

definition side_line :: "string \<Rightarrow> string \<Rightarrow> bytes \<Rightarrow> string" where
  "side_line mark side bs = mark @ git_quote (map code (side @ ''/'') @ bs) @ [CHR 0x0A]"

definition hunk_lines :: "string list \<Rightarrow> bool" where
  "hunk_lines ls =
     (case ls of [] \<Rightarrow> False
      | l # _ \<Rightarrow> startswith l ''@@'' \<and> list_all (\<lambda>l. line_ok l \<and> hd l \<in> {CHR ''@'', CHR '' '', CHR ''+'', CHR ''-'', CHR 0x5C}) ls)"

text \<open>One changed file: its path and the lines of its hunks.\<close>

definition file_block :: "bytes \<times> string list \<Rightarrow> string list" where
  "file_block f =
     (case f of (bs, hunks) \<Rightarrow>
        [DIFF_GIT @ git_quote (map code ''a/'' @ bs) @ side_line '' '' ''b'' bs, side_line ''--- '' ''a'' bs, side_line ''+++ '' ''b'' bs] @ hunks)"

lemma code_neq: "code c \<noteq> 10 \<Longrightarrow> c \<noteq> CHR 0x0A"
  by (auto simp: code_def)

lemma quote_byte_one_line: "b < 256 \<Longrightarrow> CHR 0x0A \<notin> set (quote_byte b)"
proof (cases "map_of (map (\<lambda>(c, n). (n, c)) GIT_C_ESCAPES) b")
  case (Some c)
  then show ?thesis by (auto simp: quote_byte_def GIT_C_ESCAPES_def split: if_splits)
next
  case None
  assume b: "b < 256"
  have digit: "char_of (0x30 + n) \<noteq> CHR 0x0A" if "n < 8" for n :: nat using digit_char [OF that] by (intro code_neq) simp
  have "b div 64 < 8" "b div 8 mod 8 < 8" "b mod 8 < 8" using b by simp_all
  note digits = this [THEN digit]
  have "char_of b \<noteq> CHR 0x0A" if "0x20 \<le> b" using b that by (intro code_neq) simp
  then show ?thesis using None digits [symmetric] by (auto simp: quote_byte_def)
qed

lemma quoted_one_line: "list_all (\<lambda>b. b < 256) bs \<Longrightarrow> CHR 0x0A \<notin> set (git_quote bs)"
  using quote_byte_one_line by (auto simp: git_quote_def list_all_iff)

lemma ascii_bytes: "list_all (\<lambda>b. b < 256) (map code s)"
  by (simp add: list_all_iff code_def)

lemma side_line_ok: "CHR 0x0A \<notin> set mark \<Longrightarrow> list_all (\<lambda>b. b < 256) bs \<Longrightarrow> line_ok (side_line mark side bs)"
  using quoted_one_line [of "map code (side @ ''/'') @ bs"] ascii_bytes [of "side @ ''/''"]
  by (simp add: line_ok_def side_line_def butlast_append list_all_append)

lemma rstrip_side_line: "rstrip_newlines (side_line mark side bs) = mark @ git_quote (map code (side @ ''/'') @ bs)"
  using rstrip_keeps [of "mark @ git_quote (map code (side @ ''/'') @ bs)" "[CHR 0x0A]"] by (simp add: side_line_def git_quote_def)

lemma quoted_no_tab: "without_tab (git_quote bs) = git_quote bs"
  by (auto simp: without_tab_def endswith_def git_quote_def suffix_def)

lemma endpoint_of_side:
  assumes "ascii_prefix utf8" and "list_all (\<lambda>b. b < 256) bs" and "side \<in> {''a'', ''b''}"
  shows "git_diff_endpoint utf8 (git_quote (map code (side @ ''/'') @ bs)) side = Inr (utf8 bs)"
proof -
  have bytes: "list_all (\<lambda>b. b < 256) (map code (side @ ''/'') @ bs)" using assms(2) ascii_bytes [of "side @ ''/''"] by simp
  have "decode_bytes (git_quote (map code (side @ ''/'') @ bs)) = Inr (map code (side @ ''/'') @ bs)"
    using decode_git_quoted [OF bytes, of "[]"] by (simp add: decode_bytes_def git_quote_def startswith_def)
  moreover have "utf8 (map code (side @ ''/'') @ bs) = (side @ ''/'') @ utf8 bs"
  proof (rule assms(1) [unfolded ascii_prefix_def, rule_format])
    show "list_all (\<lambda>c. code c < 0x80) (side @ ''/'')" using assms(3) by (auto simp: code_def)
  qed
  ultimately show ?thesis
    using assms(3) by (auto simp: git_diff_endpoint_def decode_git_c_path_def strip_side_def startswith_def)
qed

lemma hunks_stop:
  assumes "hunk_lines hunks"
  shows "block_paths utf8 (a, b) hunks = Inr (a, b)"
proof -
  obtain t ls where "hunks = (''@@'' @ t) # ls" using assms by (cases hunks) (auto simp: hunk_lines_def startswith_iff)
  moreover have "rstrip_newlines (''@@'' @ t) = ''@@'' @ rstrip_newlines t" by (rule rstrip_keeps) simp_all
  ultimately show ?thesis by (simp add: starts_with_any_def startswith_def)
qed

lemma block_of_file:
  assumes "ascii_prefix utf8" and "list_all (\<lambda>b. b < 256) bs" and "hunk_lines hunks" and "utf8 bs \<noteq> []"
  shows "block_entry utf8 (file_block (bs, hunks)) = Inr [(utf8 bs, utf8 bs)]"
proof -
  have "is_header (DIFF_GIT @ t)" for t by (simp add: is_header_def startswith_def)
  moreover have "block_paths utf8 ([], []) ([side_line ''--- '' ''a'' bs, side_line ''+++ '' ''b'' bs] @ hunks) = Inr (utf8 bs, utf8 bs)"
    using endpoint_of_side [OF assms(1,2), of "''a''"] endpoint_of_side [OF assms(1,2), of "''b''"] hunks_stop [OF assms(3)]
    by (simp add: rstrip_side_line quoted_no_tab startswith_def)
  ultimately show ?thesis using assms(4) by (simp add: block_entry_def file_block_def)
qed

lemma header_hd: "is_header l \<Longrightarrow> hd l = CHR ''d''"
  by (cases l) (simp_all add: is_header_def startswith_def DIFF_GIT_def)

lemma block_of_file_ok:
  assumes "list_all (\<lambda>b. b < 256) bs" and "hunk_lines hunks"
  shows "headed (file_block (bs, hunks))" "block_ok (file_block (bs, hunks))" "list_all line_ok (file_block (bs, hunks))"
proof -
  show "headed (file_block (bs, hunks))" by (simp add: headed_def file_block_def is_header_def startswith_def)
  have hunk: "line_ok l \<and> hd l \<in> {CHR ''@'', CHR '' '', CHR ''+'', CHR ''-'', CHR 0x5C}" if "l \<in> set hunks" for l
    using assms(2) that by (cases hunks) (auto simp: hunk_lines_def list_all_iff)
  have "\<not> is_header l" if "l \<in> set hunks" for l using hunk [OF that] header_hd [of l] by auto
  moreover have "\<not> is_header (side_line ''--- '' side bs)" "\<not> is_header (side_line ''+++ '' side bs)" for side
    using header_hd by (force simp: side_line_def)+
  ultimately show "block_ok (file_block (bs, hunks))" by (simp add: block_ok_def file_block_def list_all_iff)
  have "CHR 0x0A \<notin> set (DIFF_GIT @ git_quote (map code ''a/'' @ bs) @ '' '')"
    using quoted_one_line [of "map code ''a/'' @ bs"] ascii_bytes [of "''a/''"] assms(1) by (simp add: DIFF_GIT_def)
  from side_line_ok [OF this assms(1), of "''b''"]
  have "line_ok (DIFF_GIT @ git_quote (map code ''a/'' @ bs) @ side_line '' '' ''b'' bs)" by (simp add: side_line_def)
  moreover have "list_all line_ok hunks" using hunk by (simp add: list_all_iff)
  ultimately show "list_all line_ok (file_block (bs, hunks))"
    using side_line_ok [of "''--- ''" bs "''a''"] side_line_ok [of "''+++ ''" bs "''b''"] assms(1) by (simp add: file_block_def)
qed

definition changed_file :: "(bytes \<Rightarrow> string) \<Rightarrow> bytes \<times> string list \<Rightarrow> bool" where
  "changed_file utf8 f = (list_all (\<lambda>b. b < 256) (fst f) \<and> hunk_lines (snd f) \<and> utf8 (fst f) \<noteq> [])"

lemma blocks_of_files:
  assumes "list_all (changed_file utf8) fs"
  shows "split_patch_blocks (concat (concat (map file_block fs))) = map file_block fs"
proof -
  have "list_all (\<lambda>b. headed b \<and> block_ok b) (map file_block fs)" "list_all line_ok (concat (map file_block fs))"
    using assms block_of_file_ok by (fastforce simp: list_all_iff changed_file_def)+
  from split_blocks_same [OF this(1), of "[]" "[]"] keep_lines_concat [OF this(2)] show ?thesis
    by (simp add: split_patch_blocks_def)
qed

lemma entries_of_files:
  "list_all (changed_file utf8) fs \<Longrightarrow> ascii_prefix utf8 \<Longrightarrow>
   entries_of utf8 (map file_block fs) = Inr (map (\<lambda>f. (utf8 (fst f), utf8 (fst f))) fs)"
  by (induction fs) (auto simp: changed_file_def block_of_file)

lemma first_seen:
  "[] \<notin> set ps \<Longrightarrow> distinct (acc @ ps) \<Longrightarrow>
   foldl (\<lambda>acc p. if p = [] \<or> p \<in> set acc then acc else acc @ [p]) acc (concat (map (\<lambda>p. [p, p]) ps)) = acc @ ps"
  by (induction ps arbitrary: acc) auto


definition latin :: "bytes \<Rightarrow> string" where
  "latin bs = map char_of bs"

definition demo_files :: "(bytes \<times> string list) list" where
  "demo_files = [(map code ''my file'', [''@@ -1 +1 @@'' @ [CHR 0x0A], ''-x'' @ [CHR 0x0A], ''+y'' @ [CHR 0x0A]])]"


end
