(* ===== verification/Chat_Response.thy ===== *)
theory Chat_Response
  imports Responses_Stream Token_Estimation
begin

text \<open>
  Responses of the Chat endpoint (\<open>adapters/llm/_chat_response.py\<close>): tool calls written as literal
  markup are recovered, usage is taken from the response or estimated, and an empty turn falls back to its
  reasoning.  The regular expressions are written out as matchers.  \<open>is_json\<close> says what \<open>json.loads\<close>
  accepts, \<open>int_of\<close> what \<open>int\<close> makes of a text.
\<close>

section \<open>Finding text\<close>

fun find_sub :: "string \<Rightarrow> string \<Rightarrow> nat option" where
  "find_sub p [] = (if p = [] then Some 0 else None)"
| "find_sub p (c # s) = (if startswith (c # s) p then Some 0 else map_option Suc (find_sub p s))"

lemma find_sub_prefix: "find_sub p s = Some i \<Longrightarrow> \<exists>u v. s = u @ p @ v \<and> length u = i"
proof (induction p s arbitrary: i rule: find_sub.induct)
  case (1 p)
  then show ?case by (auto split: if_splits)
next
  case (2 p c s)
  show ?case
  proof (cases "startswith (c # s) p")
    case True
    then show ?thesis using 2 by (auto simp: startswith_iff)
  next
    case False
    then obtain j where j: "find_sub p s = Some j" "i = Suc j" using 2 by auto
    then obtain u v where "s = u @ p @ v" "length u = j" using 2 False by blast
    then show ?thesis using j by (intro exI [of _ "c # u"] exI [of _ v]) simp
  qed
qed

lemma find_sub_length: "find_sub p s = Some i \<Longrightarrow> i + length p \<le> length s"
  by (auto dest: find_sub_prefix)

text \<open>\<open>str.count\<close> of a text that is not empty.\<close>

function count_sub :: "string \<Rightarrow> string \<Rightarrow> nat" where
  "count_sub p s =
     (if p = [] then 0
      else case find_sub p s of None \<Rightarrow> 0 | Some i \<Rightarrow> Suc (count_sub p (drop (i + length p) s)))"
  by pat_completeness auto
termination
proof (relation "measure (\<lambda>(_, s). length s)")
  fix p s :: string and i
  assume "p \<noteq> []" "find_sub p s = Some i"
  then have "i + length p \<le> length s" "0 < length p" using find_sub_length by simp_all
  then have "length s - (i + length p) < length s" by linarith
  then show "((p, drop (i + length p) s), p, s) \<in> measure (\<lambda>(_, s). length s)" by simp
qed simp

declare count_sub.simps [simp del]

section \<open>Markup\<close>

definition MARKUP_SECTION_BEGIN :: string where "MARKUP_SECTION_BEGIN = ''<|tool_calls_section_begin|>''"
definition MARKUP_SECTION_END :: string where "MARKUP_SECTION_END = ''<|tool_calls_section_end|>''"
definition MARKUP_CALL_BEGIN :: string where "MARKUP_CALL_BEGIN = ''<|tool_call_begin|>''"
definition MARKUP_CALL_END :: string where "MARKUP_CALL_END = ''<|tool_call_end|>''"
definition MARKUP_ARG_BEGIN :: string where "MARKUP_ARG_BEGIN = ''<|tool_call_argument_begin|>''"

text \<open>\<open>str.splitlines(keepends=True)\<close>.\<close>

fun lines_keep :: "string \<Rightarrow> string \<Rightarrow> string list" where
  "lines_keep acc [] = (if acc = [] then [] else [acc])"
| "lines_keep acc [c] = [acc @ [c]]"
| "lines_keep acc (c # d # s) =
     (let n = code c
      in if c = CHR 0x0D \<and> d = CHR 0x0A then (acc @ [c, d]) # lines_keep [] s
         else if (10 \<le> n \<and> n \<le> 13) \<or> (28 \<le> n \<and> n \<le> 30) \<or> n = 133 then (acc @ [c]) # lines_keep [] (d # s)
         else lines_keep (acc @ [c]) (d # s))"

definition chomp :: "string \<Rightarrow> string" where
  "chomp l = rev (dropWhile (\<lambda>c. c \<in> {CHR 0x0A, CHR 0x0D}) (rev l))"

definition TICK :: char where "TICK = CHR 0x60"

text \<open>The fence of a line and what follows it.\<close>

definition fence_of :: "string \<Rightarrow> (string \<times> string) option" where
  "fence_of line =
     (let l = chomp line; body = dropWhile (\<lambda>c. c = CHR 0x20) l
      in if 3 < length l - length body then None
         else case body of
                [] \<Rightarrow> None
              | c # _ \<Rightarrow>
                  (let run = takeWhile (\<lambda>d. d = c) body
                   in if c \<in> {TICK, CHR ''~''} \<and> 3 \<le> length run then Some (run, drop (length run) body) else None))"

definition blank :: "string \<Rightarrow> string" where
  "blank l = replicate (length l) (CHR 0x20)"

fun mask_lines :: "string \<Rightarrow> string list \<Rightarrow> string list" where
  "mask_lines fence [] = []"
| "mask_lines fence (l # ls) =
     (if fence \<noteq> []
      then blank l # mask_lines
             (case fence_of l of
                Some (run, rest) \<Rightarrow> if hd run = hd fence \<and> length fence \<le> length run \<and> py_strip rest = [] then [] else fence
              | None \<Rightarrow> fence) ls
      else case fence_of l of
             Some (run, _) \<Rightarrow> blank l # mask_lines run ls
           | None \<Rightarrow>
               (if startswith l ''    '' \<or> startswith l [CHR 0x09] \<or> startswith (dropWhile is_space l) ''>'' then blank l else l)
               # mask_lines [] ls)"

text \<open>How far a closing run of exactly \<open>n\<close> backticks reaches.\<close>

function close_span :: "nat \<Rightarrow> string \<Rightarrow> nat option" where
  "close_span n [] = None"
| "close_span n (c # s) =
     (if c = TICK
      then (let r = length (takeWhile (\<lambda>d. d = TICK) (c # s))
            in if r = n then Some r else map_option ((+) r) (close_span n (drop r (c # s))))
      else map_option Suc (close_span n s))"
  by pat_completeness auto
termination by (relation "measure (\<lambda>(_, s). length s)") auto

declare close_span.simps [simp del]

function mask_spans :: "string \<Rightarrow> string" where
  "mask_spans [] = []"
| "mask_spans (c # s) =
     (if c = TICK
      then (let run = takeWhile (\<lambda>d. d = TICK) (c # s); rest = drop (length run) (c # s)
            in case close_span (length run) rest of
                 Some k \<Rightarrow> replicate (length run + k) (CHR 0x20) @ mask_spans (drop k rest)
               | None \<Rightarrow> run @ mask_spans rest)
      else c # mask_spans s)"
  by pat_completeness auto
termination by (relation "measure length") auto

declare mask_spans.simps [simp del]

definition unquoted_markup_text :: "string \<Rightarrow> string" where
  "unquoted_markup_text content = mask_spans (concat (mask_lines [] (lines_keep [] content)))"

text \<open>The id of a call: the shortest text without spaces before the arguments.\<close>

fun split_id :: "string \<Rightarrow> string \<Rightarrow> (string \<times> string) option" where
  "split_id acc s =
     (if acc \<noteq> [] \<and> startswith (dropWhile is_space s) MARKUP_ARG_BEGIN
      then Some (acc, drop (length MARKUP_ARG_BEGIN) (dropWhile is_space s))
      else case s of [] \<Rightarrow> None | c # cs \<Rightarrow> if is_space c then None else split_id (acc @ [c]) cs)"

declare split_id.simps [simp del]

record MarkupCall =
  mk_name :: string
  mk_id :: string
  mk_args :: string

text \<open>One call after its opening mark, and the rest of the text.\<close>

definition match_call :: "string \<Rightarrow> (MarkupCall \<times> string) option" where
  "match_call s0 =
     (let s = dropWhile is_space s0; named = drop 10 s;
          name = takeWhile (\<lambda>c. c \<noteq> CHR '':'' \<and> \<not> is_space c) named; tail = drop (length name) named
      in if \<not> startswith s ''functions.'' \<or> name = [] \<or> \<not> startswith tail '':'' then None
         else case split_id [] (drop 1 tail) of
                None \<Rightarrow> None
              | Some (call_id, s1) \<Rightarrow>
                  (case find_sub MARKUP_CALL_END s1 of
                     None \<Rightarrow> None
                   | Some i \<Rightarrow> Some (\<lparr>mk_name = name, mk_id = call_id, mk_args = take i s1\<rparr>, drop (i + length MARKUP_CALL_END) s1)))"

text \<open>The next call, what is before it and what is after it.\<close>

function next_call :: "string \<Rightarrow> (string \<times> MarkupCall \<times> string) option" where
  "next_call s =
     (case find_sub MARKUP_CALL_BEGIN s of
        None \<Rightarrow> None
      | Some i \<Rightarrow>
          (case match_call (drop (i + length MARKUP_CALL_BEGIN) s) of
             Some (call, rest) \<Rightarrow> Some (take i s, call, rest)
           | None \<Rightarrow> map_option (\<lambda>(before, r). (take (i + 1) s @ before, r)) (next_call (drop (i + 1) s))))"
  by pat_completeness auto
termination
proof (relation "measure length")
  fix s i
  assume "find_sub MARKUP_CALL_BEGIN s = Some i"
  from find_sub_length [OF this] show "(drop (i + 1) s, s) \<in> measure length" by (simp add: MARKUP_CALL_BEGIN_def)
qed simp

declare next_call.simps [simp del]

text \<open>The calls of a section from the cursor on; \<open>None\<close> when anything is wrong with them.\<close>

lemma next_call_rest: "next_call s = Some (before, call, rest) \<Longrightarrow> length rest < length s"
proof (induction s arbitrary: before rule: next_call.induct)
  case (1 s)
  obtain i where i: "find_sub MARKUP_CALL_BEGIN s = Some i" using "1.prems" by (subst (asm) next_call.simps) (auto split: option.splits)
  have pos: "0 < length MARKUP_CALL_BEGIN" by (simp add: MARKUP_CALL_BEGIN_def)
  have fits: "i + length MARKUP_CALL_BEGIN \<le> length s" using find_sub_length [OF i] .
  show ?case
  proof (cases "match_call (drop (i + length MARKUP_CALL_BEGIN) s)")
    case None
    then obtain b where b: "next_call (drop (i + 1) s) = Some (b, call, rest)"
      using "1.prems" i by (subst (asm) next_call.simps) (auto split: option.splits)
    have "length rest < length (drop (i + 1) s)" by (rule "1.IH" [OF i None b])
    then show ?thesis by simp
  next
    case (Some cr)
    then have m: "match_call (drop (i + length MARKUP_CALL_BEGIN) s) = Some (call, rest)"
      using "1.prems" i by (subst (asm) next_call.simps) (auto split: option.splits)
    have split: "length (snd q) \<le> length t" if "split_id acc t = Some q" for acc t q
      using that
    proof (induction acc t rule: split_id.induct)
      case (1 acc t)
      show ?case
      proof (cases "acc \<noteq> [] \<and> startswith (dropWhile is_space t) MARKUP_ARG_BEGIN")
        case True
        then have "snd q = drop (length MARKUP_ARG_BEGIN) (dropWhile is_space t)" using "1.prems" by (auto simp: split_id.simps)
        then show ?thesis using length_dropWhile_le [of is_space t] by simp
      next
        case False
        then obtain c cs where t: "t = c # cs" "\<not> is_space c" "split_id (acc @ [c]) cs = Some q"
          using "1.prems" by (subst (asm) split_id.simps) (auto split: list.splits if_splits)
        then show ?thesis using "1.IH" [OF False t(1,2)] by simp
      qed
    qed
    let ?t = "drop (i + length MARKUP_CALL_BEGIN) s"
    obtain d s1 j where "split_id [] (drop 1 (drop (length (takeWhile (\<lambda>c. c \<noteq> CHR '':'' \<and> \<not> is_space c)
        (drop 10 (dropWhile is_space ?t)))) (drop 10 (dropWhile is_space ?t)))) = Some (d, s1)"
      and rest: "rest = drop (j + length MARKUP_CALL_END) s1"
      using m by (auto simp: match_call_def Let_def split: if_splits option.splits)
    from split [OF this(1)] have "length s1 \<le> length (dropWhile is_space ?t)" by simp
    then have "length rest \<le> length ?t" using rest length_dropWhile_le [of is_space ?t] by simp
    then have "length rest \<le> length s - (i + length MARKUP_CALL_BEGIN)" by simp
    then show ?thesis using fits pos by linarith
  qed
qed

definition markup_call :: "MarkupCall \<Rightarrow> message" where
  "markup_call c =
     [(''id'', VStr (mk_id c)), (''type'', VStr ''function''),
      (''function'', VDict [(''name'', VStr (mk_name c)), (''arguments'', VStr (py_strip (mk_args c)))])]"

function markup_calls :: "(string \<Rightarrow> bool) \<Rightarrow> string list \<Rightarrow> string \<Rightarrow> message list option" where
  "markup_calls is_json seen s =
     (case next_call s of
        None \<Rightarrow> if py_strip s = [] then Some [] else None
      | Some (before, call, rest) \<Rightarrow>
          if py_strip before \<noteq> [] \<or> \<not> is_json (py_strip (mk_args call)) \<or> mk_id call \<in> set seen then None
          else map_option ((#) (markup_call call)) (markup_calls is_json (mk_id call # seen) rest))"
  by pat_completeness auto
termination
  by (relation "measure (\<lambda>(_, _, s). length s)") (auto dest: next_call_rest)

declare markup_calls.simps [simp del]

text \<open>The calls and the text around them; \<open>None\<close> when the content stays as it is.\<close>

definition extract_markup_tool_calls :: "(string \<Rightarrow> bool) \<Rightarrow> string option \<Rightarrow> (message list \<times> string option) option" where
  "extract_markup_tool_calls is_json content =
     (case content of
        None \<Rightarrow> None
      | Some text \<Rightarrow>
          let searchable = unquoted_markup_text text in
          if find_sub MARKUP_SECTION_BEGIN text = None \<or> count_sub MARKUP_SECTION_BEGIN searchable \<noteq> 1 \<or>
             count_sub MARKUP_SECTION_END searchable \<noteq> 1 then None
          else case find_sub MARKUP_SECTION_BEGIN searchable of
                 None \<Rightarrow> None
               | Some start \<Rightarrow>
                   let first = start + length MARKUP_SECTION_BEGIN in
                   (case find_sub MARKUP_SECTION_END (drop first searchable) of
                      None \<Rightarrow> None
                    | Some n \<Rightarrow>
                        (case markup_calls is_json [] (take n (drop first text)) of
                           None \<Rightarrow> None
                         | Some calls \<Rightarrow>
                             if calls = [] then None
                             else Some (calls, text_or_none (py_strip
                                    (take start text @ drop (first + n + length MARKUP_SECTION_END) text))))))"

definition normalize_tool_arguments :: "(string \<Rightarrow> bool) \<Rightarrow> string \<Rightarrow> string" where
  "normalize_tool_arguments is_json arguments =
     (let raw = py_strip arguments; candidate = py_strip (drop 2 raw)
      in if startswith raw ''{}{'' \<and> is_json candidate then candidate else raw)"

section \<open>Usage\<close>

record ChatUsage =
  cu_input :: int
  cu_output :: int
  cu_cached :: "int option"
  cu_reasoning :: "int option"
  cu_estimated :: bool
  cu_raw :: message
  cu_markup :: int

record ChatHost =
  ch_json :: "string \<Rightarrow> bool"
  ch_int :: "string \<Rightarrow> int option"
  ch_float :: "pyfloat \<Rightarrow> string"

text \<open>\<open>int(v)\<close>; \<open>None\<close> when it raises.\<close>

definition to_int :: "ChatHost \<Rightarrow> pyval \<Rightarrow> int option" where
  "to_int h v =
     (case v of
        VInt i \<Rightarrow> Some i
      | VBool b \<Rightarrow> Some (if b then 1 else 0)
      | VFloat (Fin q) \<Rightarrow> Some (trunc q)
      | VStr s \<Rightarrow> ch_int h s
      | _ \<Rightarrow> None)"

definition usage_int :: "ChatHost \<Rightarrow> pyval \<Rightarrow> string \<Rightarrow> int" where
  "usage_int h source k =
     (case source of
        VDict d \<Rightarrow> if get d k = VNone \<or> get d k = VStr [] then 0 else (case to_int h (get d k) of Some i \<Rightarrow> max 0 i | None \<Rightarrow> 0)
      | _ \<Rightarrow> 0)"

definition optional_usage_int :: "ChatHost \<Rightarrow> pyval \<Rightarrow> string \<Rightarrow> int option" where
  "optional_usage_int h source k =
     (case source of
        VDict d \<Rightarrow>
          if get d k = VNone \<or> is_bool (get d k) then None
          else (case to_int h (get d k) of Some i \<Rightarrow> if 0 \<le> i then Some i else None | None \<Rightarrow> None)
      | _ \<Rightarrow> None)"

definition usage_to_dict :: "pyval \<Rightarrow> message" where
  "usage_to_dict v = as_dict (to_plain_data v)"

text \<open>\<open>{**d, k: v}\<close>.\<close>

definition estimate_output_tokens :: "ChatHost \<Rightarrow> pyval \<Rightarrow> int" where
  "estimate_output_tokens h m =
     (case to_plain_data m of
        VDict d \<Rightarrow>
          let empty_content = (case get d ''content'' of VNone \<Rightarrow> True | VStr t \<Rightarrow> py_strip t = [] | _ \<Rightarrow> False);
              refused = (case get d ''refusal'' of VStr t \<Rightarrow> py_strip t \<noteq> [] | _ \<Rightarrow> False);
              shown = (if empty_content \<and> refused then AList.update ''content'' (get d ''refusal'') d else d)
          in int (estimate_messages_tokens (ch_float h) [AList.updates (map fst shown) (map snd shown) [(''role'', VStr ''assistant'')]] [] False)
      | _ \<Rightarrow> 0)"

definition EMPTY_TURN_FIELDS :: "string list" where
  "EMPTY_TURN_FIELDS = [''content'', ''refusal'', ''reasoning_content'', ''reasoning'', ''tool_calls'', ''function_call'', ''audio'']"

definition parse_usage :: "ChatHost \<Rightarrow> pyval \<Rightarrow> message list \<Rightarrow> pyval \<Rightarrow> pyval list \<Rightarrow> ChatUsage" where
  "parse_usage h reported request m tools =
     (let raw = usage_to_dict reported;
          input0 = usage_int h (VDict raw) ''prompt_tokens'';
          output0 = usage_int h (VDict raw) ''completion_tokens'';
          cached = usage_int h (get raw ''prompt_tokens_details'') ''cached_tokens'';
          reasoning = usage_int h (get raw ''completion_tokens_details'') ''reasoning_tokens'';
          no_input = (input0 \<le> 0);
          input = (if no_input then int (estimate_messages_tokens (ch_float h) request tools False) else input0);
          reported_empty =
            (\<not> no_input \<and> optional_usage_int h (VDict raw) ''completion_tokens'' = Some 0 \<and>
             optional_usage_int h (VDict raw) ''total_tokens'' = Some input \<and> reasoning = 0 \<and>
             (case to_plain_data m of VDict d \<Rightarrow> list_all (\<lambda>k. \<not> truthy (get d k)) EMPTY_TURN_FIELDS | _ \<Rightarrow> False));
          no_output = (output0 \<le> 0 \<and> \<not> reported_empty)
      in \<lparr>cu_input = input, cu_output = (if no_output then estimate_output_tokens h m else output0), cu_cached = Some cached,
          cu_reasoning = (if reasoning = 0 then None else Some reasoning), cu_estimated = no_input \<or> no_output, cu_raw = raw,
          cu_markup = 0\<rparr>)"

text \<open>The counters of an attempt that failed, if it reported any.\<close>

definition reported_chat_usage :: "ChatHost \<Rightarrow> pyval \<Rightarrow> ChatUsage option" where
  "reported_chat_usage h reported =
     (let raw = usage_to_dict reported;
          input = optional_usage_int h (VDict raw) ''prompt_tokens'';
          output = optional_usage_int h (VDict raw) ''completion_tokens''
      in if input = None \<and> output = None then None
         else Some \<lparr>cu_input = (case input of Some i \<Rightarrow> i | None \<Rightarrow> 0), cu_output = (case output of Some i \<Rightarrow> i | None \<Rightarrow> 0),
                    cu_cached = optional_usage_int h (get raw ''prompt_tokens_details'') ''cached_tokens'',
                    cu_reasoning = optional_usage_int h (get raw ''completion_tokens_details'') ''reasoning_tokens'',
                    cu_estimated = (input = None \<or> output = None), cu_raw = raw, cu_markup = 0\<rparr>)"

section \<open>The response\<close>

datatype ChatError = ChatTypeErr | TransientChat | UsageUnavailable

record ChatResponse =
  cr_content :: "string option"
  cr_calls :: "message list"
  cr_usage :: ChatUsage
  cr_finish :: "string option"
  cr_reasoning :: "string option"
  cr_model :: "string option"

definition empty_text :: "string option \<Rightarrow> bool" where
  "empty_text t = (case t of None \<Rightarrow> True | Some s \<Rightarrow> py_strip s = [])"

definition recover_markup ::
  "(string \<Rightarrow> bool) \<Rightarrow> string option \<Rightarrow> string option \<Rightarrow> string option \<times> string option \<times> message list \<times> int" where
  "recover_markup is_json content reasoning =
     (case extract_markup_tool_calls is_json content of
        Some (calls, cleaned) \<Rightarrow> (cleaned, reasoning, calls, 1)
      | None \<Rightarrow>
          (if reasoning = None \<or> reasoning = Some [] then (content, reasoning, [], 0)
           else case extract_markup_tool_calls is_json reasoning of
                  Some (calls, cleaned) \<Rightarrow> (content, cleaned, calls, 1)
                | None \<Rightarrow> (content, reasoning, [], 0)))"

definition build_chat_response ::
  "ChatHost \<Rightarrow> string option \<Rightarrow> string option \<Rightarrow> message list \<Rightarrow> string option \<Rightarrow> string option \<Rightarrow> pyval \<Rightarrow> pyval \<Rightarrow> message list
   \<Rightarrow> pyval list \<Rightarrow> string option \<Rightarrow> ChatResponse" where
  "build_chat_response h content reasoning calls ended model reported usage_message request tools refusal =
     (let use_refusal = (empty_text content \<and> \<not> empty_text refusal);
          (content1, reasoning1, calls1, recovered) =
            (if calls = [] \<and> \<not> use_refusal then recover_markup (ch_json h) content reasoning else (content, reasoning, calls, 0));
          content2 = (if use_refusal then refusal else content1);
          usage = (parse_usage h reported request usage_message tools)\<lparr>cu_markup := recovered\<rparr>
      in \<lparr>cr_content = rescue_empty_turn content2 calls1 reasoning1, cr_calls = calls1, cr_usage = usage, cr_finish = ended,
          cr_reasoning = reasoning1, cr_model = model\<rparr>)"

definition clean_provider_model :: "pyval \<Rightarrow> string option" where
  "clean_provider_model v = (case v of VStr s \<Rightarrow> if s = [] then None else Some s | _ \<Rightarrow> None)"

definition text_field_of :: "pyval \<Rightarrow> string \<Rightarrow> string option" where
  "text_field_of m k = (case attr m k of VStr s \<Rightarrow> if s = [] then None else Some s | _ \<Rightarrow> None)"

text \<open>A text or \<open>None\<close>; the SDK types exclude anything else.\<close>

definition optional_text :: "pyval \<Rightarrow> ChatError + string option" where
  "optional_text v = (case v of VNone \<Rightarrow> Inr None | VStr s \<Rightarrow> Inr (Some s) | _ \<Rightarrow> Inl ChatTypeErr)"

definition call_of_message :: "(string \<Rightarrow> bool) \<Rightarrow> pyval \<Rightarrow> ChatError + message" where
  "call_of_message is_json tc =
     bnd (optional_text (attr (attr tc ''function'') ''arguments'')) (\<lambda>arguments. Inr
       [(''id'', attr tc ''id''), (''type'', VStr ''function''),
        (''function'', VDict [(''name'', attr (attr tc ''function'') ''name''),
           (''arguments'', VStr (normalize_tool_arguments is_json (case arguments of Some a \<Rightarrow> a | None \<Rightarrow> [])))])])"

definition chat_iterate :: "pyval \<Rightarrow> ChatError + pyval list" where
  "chat_iterate v = (case iterate v of Inl _ \<Rightarrow> Inl ChatTypeErr | Inr xs \<Rightarrow> Inr xs)"

definition message_reasoning :: "pyval \<Rightarrow> string option" where
  "message_reasoning m = (case text_field_of m ''reasoning_content'' of Some r \<Rightarrow> Some r | None \<Rightarrow> text_field_of m ''reasoning'')"

definition parse_response :: "ChatHost \<Rightarrow> pyval \<Rightarrow> message list \<Rightarrow> pyval list \<Rightarrow> ChatError + ChatResponse" where
  "parse_response h resp request tools =
     (case attr resp ''choices'' of
        VList (choice # _) \<Rightarrow>
          let m = attr choice ''message''; reasoning = message_reasoning m;
              usage_message = (case reasoning of
                  None \<Rightarrow> m
                | Some r \<Rightarrow> VDict (AList.update ''reasoning_content'' (VStr r) (as_dict (to_plain_data m))))
          in bnd (bnd (chat_iterate (attr m ''tool_calls'')) (each (call_of_message (ch_json h)))) (\<lambda>calls.
             bnd (optional_text (attr m ''content'')) (\<lambda>content.
             bnd (optional_text (attr choice ''finish_reason'')) (\<lambda>ended. Inr
               (build_chat_response h content reasoning calls ended (clean_provider_model (attr resp ''model''))
                  (attr resp ''usage'') usage_message request tools
                  (case attr m ''refusal'' of VStr r \<Rightarrow> Some r | _ \<Rightarrow> None)))))
      | _ \<Rightarrow> Inl ChatTypeErr)"

section \<open>What is recovered\<close>

lemma concat_lines_keep: "concat (lines_keep acc s) = acc @ s"
  by (induction acc s rule: lines_keep.induct) (auto simp: Let_def)

text \<open>A masked text keeps its length and its unmasked characters.\<close>

definition masks :: "string \<Rightarrow> string \<Rightarrow> bool" where
  "masks m s = list_all2 (\<lambda>a b. a = b \<or> a = CHR 0x20) m s"

lemma masks_refl: "masks s s"
  by (simp add: masks_def list.rel_refl)

lemma masks_blank: "masks (blank s) s"
  by (simp add: masks_def blank_def list_all2_conv_all_nth)

lemma masks_append: "masks a s \<Longrightarrow> masks b t \<Longrightarrow> masks (a @ b) (s @ t)"
  by (simp add: masks_def list_all2_appendI)

lemma masks_trans: "masks a b \<Longrightarrow> masks b c \<Longrightarrow> masks a c"
  unfolding masks_def by (rule list_all2_trans [where ?P2.0 = "\<lambda>a b. a = b \<or> a = CHR 0x20"]) auto

lemma masks_lines: "masks (concat (mask_lines fence ls)) (concat ls)"
  by (induction fence ls rule: mask_lines.induct) (auto simp: masks_refl masks_blank masks_append split: option.split)

lemma close_span_length: "close_span n s = Some k \<Longrightarrow> k \<le> length s"
proof (induction n s arbitrary: k rule: close_span.induct)
  case (2 n c s)
  let ?r = "length (takeWhile (\<lambda>d. d = TICK) (c # s))"
  have r: "?r \<le> length (c # s)" by (rule length_takeWhile_le)
  show ?case
  proof (cases "c = TICK")
    case True
    show ?thesis
    proof (cases "?r = n")
      case True
      then show ?thesis using "2.prems" \<open>c = TICK\<close> r by (simp add: close_span.simps Let_def)
    next
      case False
      then obtain j where j: "close_span n (drop ?r (c # s)) = Some j" "k = ?r + j"
        using "2.prems" \<open>c = TICK\<close> by (auto simp: close_span.simps Let_def)
      from "2.IH"(1) [OF True refl False j(1)] show ?thesis using j(2) r by simp
    qed
  next
    case False
    then obtain j where "close_span n s = Some j" "k = Suc j" using "2.prems" by (auto simp: close_span.simps)
    then show ?thesis using "2.IH"(2) [OF False] by simp
  qed
qed (simp add: close_span.simps)

lemma masks_spans: "masks (mask_spans s) s"
proof (induction s rule: mask_spans.induct)
  case 1
  then show ?case by (simp add: mask_spans.simps masks_refl)
next
  case (2 c s)
  show ?case
  proof (cases "c = TICK")
    case False
    then show ?thesis using masks_append [OF masks_refl [of "[c]"] "2.IH"(3) [OF False]] by (simp add: mask_spans.simps)
  next
    case True
    define run where "run = takeWhile (\<lambda>d. d = TICK) (c # s)"
    define rest where "rest = drop (length run) (c # s)"
    have s: "c # s = run @ rest" by (simp add: run_def rest_def flip: takeWhile_eq_take dropWhile_eq_drop)
    show ?thesis
    proof (cases "close_span (length run) rest")
      case None
      have "masks (mask_spans rest) rest" by (rule "2.IH"(1) [OF True run_def rest_def None])
      moreover have "mask_spans (c # s) = run @ mask_spans rest"
        using True None unfolding mask_spans.simps Let_def run_def [symmetric] rest_def [symmetric] by simp
      ultimately show ?thesis using masks_append [OF masks_refl [of run]] s by metis
    next
      case (Some k)
      have "masks (mask_spans (drop k rest)) (drop k rest)" by (rule "2.IH"(2) [OF True run_def rest_def Some])
      moreover have "masks (replicate (length run + k) (CHR 0x20)) (run @ take k rest)"
        using masks_blank [of "run @ take k rest"] close_span_length [OF Some] by (simp add: blank_def)
      ultimately have "masks (replicate (length run + k) (CHR 0x20) @ mask_spans (drop k rest)) (run @ take k rest @ drop k rest)"
        using masks_append by fastforce
      moreover have "mask_spans (c # s) = replicate (length run + k) (CHR 0x20) @ mask_spans (drop k rest)"
        using True Some unfolding mask_spans.simps Let_def run_def [symmetric] rest_def [symmetric] by simp
      ultimately show ?thesis using s by simp
    qed
  qed
qed

lemma masked_text: "masks (unquoted_markup_text t) t"
proof -
  have "masks (concat (mask_lines [] (lines_keep [] t))) t" using masks_lines [of "[]" "lines_keep [] t"] by (simp add: concat_lines_keep)
  then show ?thesis unfolding unquoted_markup_text_def using masks_trans [OF masks_spans] by blast
qed

text \<open>A text without spaces that is found in the masked text stands at the same place of the original.\<close>

lemma masks_found:
  assumes "masks m s" and "take (length p) (drop i m) = p" and "CHR 0x20 \<notin> set p"
  shows "take (length p) (drop i s) = p"
proof -
  have "list_all2 (\<lambda>a b. a = b \<or> a = CHR 0x20) (take (length p) (drop i m)) (take (length p) (drop i s))"
    using assms(1) by (simp add: masks_def)
  then have "list_all2 (\<lambda>a b. a = b \<or> a = CHR 0x20) p (take (length p) (drop i s))" using assms(2) by simp
  then have "list_all2 (=) p (take (length p) (drop i s))"
    using assms(3) by (auto simp: list_all2_conv_all_nth) (metis nth_mem)
  then show ?thesis by (simp add: list.rel_eq)
qed

lemma find_sub_take: "find_sub p s = Some i \<Longrightarrow> take (length p) (drop i s) = p"
  by (auto dest!: find_sub_prefix)

lemma markup_calls_ok:
  "markup_calls is_json seen s = Some calls \<Longrightarrow>
   \<exists>cs. calls = map markup_call cs \<and> distinct (map mk_id cs) \<and> set (map mk_id cs) \<inter> set seen = {} \<and>
     list_all (\<lambda>c. is_json (py_strip (mk_args c))) cs"
proof (induction is_json seen s arbitrary: calls rule: markup_calls.induct)
  case (1 is_json seen s)
  show ?case
  proof (cases "next_call s")
    case None
    then have "calls = []" using "1.prems" by (subst (asm) markup_calls.simps) (auto split: if_splits)
    then show ?thesis by (intro exI [of _ "[]"]) simp
  next
    case (Some q)
    obtain before call rest where q: "q = (before, call, rest)" by (cases q) auto
    let ?bad = "py_strip before \<noteq> [] \<or> \<not> is_json (py_strip (mk_args call)) \<or> mk_id call \<in> set seen"
    have ok: "\<not> ?bad" using "1.prems" Some q by (subst (asm) markup_calls.simps) (auto split: if_splits)
    then obtain more where m: "markup_calls is_json (mk_id call # seen) rest = Some more" "calls = markup_call call # more"
      using "1.prems" Some q by (subst (asm) markup_calls.simps) (auto split: if_splits)
    from "1.IH" [OF Some q [symmetric] refl ok m(1)] obtain cs where cs: "more = map markup_call cs" "distinct (map mk_id cs)"
      "set (map mk_id cs) \<inter> set (mk_id call # seen) = {}" "list_all (\<lambda>c. is_json (py_strip (mk_args c))) cs"
      by blast
    then show ?thesis using ok m(2) by (intro exI [of _ "call # cs"]) auto
  qed
qed

lemma count_found: "count_sub p s \<noteq> 0 \<Longrightarrow> \<exists>i. find_sub p s = Some i"
  by (subst (asm) count_sub.simps) (auto split: if_splits option.splits)

lemma split_at_mark: "take (length p) (drop i s) = p \<Longrightarrow> s = take i s @ p @ drop (i + length p) s"
  by (metis append_take_drop_id drop_drop add.commute)


definition demo_markup :: string where
  "demo_markup =
     ''see `'' @ MARKUP_SECTION_BEGIN @ ''` '' @ MARKUP_SECTION_BEGIN @ MARKUP_CALL_BEGIN @ '' functions.ls:1 '' @ MARKUP_ARG_BEGIN @ ''{}'' @
     MARKUP_CALL_END @ MARKUP_SECTION_END"

lemma demo_recovered:
  "case extract_markup_tool_calls (\<lambda>s. s = ''{}'') (Some demo_markup) of
     Some (calls, cleaned) \<Rightarrow> map (\<lambda>c. get c ''id'') calls = [VStr ''1''] | None \<Rightarrow> False"
  by code_simp


section \<open>Counters\<close>

lemma message_tokens_pos: "0 < message_tokens fr ks prefer overhead m"
proof -
  have "0 < estimate_tokens t" for t by (simp add: estimate_tokens_def Let_def)
  then show ?thesis by (simp add: message_tokens_def serialized_tokens_def)
qed

lemma request_estimate_pos: "ms \<noteq> [] \<Longrightarrow> 0 < estimate_messages_tokens fr ms tools prefer"
proof -
  have mono: "n \<le> foldl (\<lambda>acc m. acc + message_tokens fr REQUEST_MESSAGE_FIELDS prefer MESSAGE_TOKEN_OVERHEAD m) n ms" for n ms
    by (induction ms arbitrary: n) (auto intro: le_trans [OF le_add1])
  assume "ms \<noteq> []"
  then obtain m rest where ms: "ms = m # rest" by (cases ms) auto
  have "message_tokens fr REQUEST_MESSAGE_FIELDS prefer MESSAGE_TOKEN_OVERHEAD m
      \<le> foldl (\<lambda>acc m. acc + message_tokens fr REQUEST_MESSAGE_FIELDS prefer MESSAGE_TOKEN_OVERHEAD m) 0 ms"
    using mono [of "message_tokens fr REQUEST_MESSAGE_FIELDS prefer MESSAGE_TOKEN_OVERHEAD m" rest] by (simp add: ms)
  then show ?thesis using message_tokens_pos [of fr REQUEST_MESSAGE_FIELDS "prefer" MESSAGE_TOKEN_OVERHEAD m]
    by (simp add: estimate_messages_tokens_def)
qed

lemma usage_int_nonneg: "0 \<le> usage_int h v k"
  by (auto simp: usage_int_def split: pyval.split option.split)

text \<open>
  Every completed request costs something.  The input counter of a request with messages is positive,
  so a budget is charged even if the provider reports nothing; no counter is negative; a usage that is not
  marked as estimated has the provider's own counters; and a counter of zero output is kept only for a
  turn that is really empty.
\<close>

theorem usage_accounted:
  assumes "request \<noteq> []" and "u = parse_usage h reported request m tools" and "raw = VDict (usage_to_dict reported)"
  shows "0 < cu_input u \<and> 0 \<le> cu_output u \<and>
    (if cu_estimated u then True
     else cu_input u = usage_int h raw ''prompt_tokens'' \<and> cu_output u = usage_int h raw ''completion_tokens'' \<and>
       (0 < cu_output u \<or> (\<exists>d. to_plain_data m = VDict d \<and> list_all (\<lambda>k. \<not> truthy (get d k)) EMPTY_TURN_FIELDS)))"
proof -
  have est: "0 < int (estimate_messages_tokens (ch_float h) request tools False)" using request_estimate_pos [OF assms(1)] by simp
  have out: "0 \<le> estimate_output_tokens h m" by (auto simp: estimate_output_tokens_def Let_def split: pyval.split)
  show ?thesis
    using est out usage_int_nonneg [of h "VDict (usage_to_dict reported)" "''completion_tokens''"] unfolding assms(2,3)
    by (auto simp: parse_usage_def Let_def split: pyval.splits)
qed

definition demo_chat_host :: ChatHost where
  "demo_chat_host = \<lparr>ch_json = (\<lambda>s. s = ''{}''), ch_int = (\<lambda>_. None), ch_float = (\<lambda>_. [])\<rparr>"

theorem usage_accounted_witness:
  "0 < cu_input (parse_usage demo_chat_host VNone [[(''role'', VStr ''user'')]] VNone [])"
  using usage_accounted [OF _ refl refl, of "[[(''role'', VStr ''user'')]]" demo_chat_host VNone VNone "[]"] by simp

end
