(* ===== verification/Chat_Stream.thy ===== *)
theory Chat_Stream
  imports Chat_Response
begin

text \<open>
  Chat streams (\<open>adapters/llm/_chat_stream.py\<close>): chunks are absorbed into a state and the state becomes
  the response.  A chunk is the dict of its attributes; a stream is the list of its chunks, and a missing
  chunk or a time-out before its end is the caller's exception.
\<close>

section \<open>Absorbing chunks\<close>

record ToolCallSlot =
  sl_id :: "string option"
  sl_name :: "string list"
  sl_args :: "string list"

record ChatStreamState =
  cs_content :: "string list"
  cs_refusal :: "string list"
  cs_reasoning :: "string list"
  cs_field :: "string option"
  cs_slots :: "(int \<times> ToolCallSlot) list"
  cs_finish :: "string option"
  cs_usage :: pyval
  cs_model :: "string option"
  cs_chunks :: nat

definition chat_start :: ChatStreamState where
  "chat_start =
     \<lparr>cs_content = [], cs_refusal = [], cs_reasoning = [], cs_field = None, cs_slots = [], cs_finish = None, cs_usage = VNone,
      cs_model = None, cs_chunks = 0\<rparr>"

definition REASONING_DELTA_FIELDS :: "string list" where
  "REASONING_DELTA_FIELDS = [''reasoning_content'', ''reasoning'']"

fun first_reasoning :: "pyval \<Rightarrow> string list \<Rightarrow> (string \<times> string) option" where
  "first_reasoning delta [] = None"
| "first_reasoning delta (k # ks) =
     (case text_field_of delta k of Some piece \<Rightarrow> Some (k, piece) | None \<Rightarrow> first_reasoning delta ks)"

definition absorb_reasoning_delta :: "pyval \<Rightarrow> ChatStreamState \<Rightarrow> ChatStreamState" where
  "absorb_reasoning_delta delta s =
     (case first_reasoning delta (case cs_field s of Some k \<Rightarrow> [k] | None \<Rightarrow> REASONING_DELTA_FIELDS) of
        Some (k, piece) \<Rightarrow> s\<lparr>cs_field := Some k, cs_reasoning := cs_reasoning s @ [piece]\<rparr>
      | None \<Rightarrow> s)"

definition new_slot :: ToolCallSlot where
  "new_slot = \<lparr>sl_id = None, sl_name = [], sl_args = []\<rparr>"

definition pieces :: "string option \<Rightarrow> string list" where
  "pieces t = (case t of Some p \<Rightarrow> [p] | None \<Rightarrow> [])"

definition absorb_tool_call_delta :: "pyval \<Rightarrow> ChatStreamState \<Rightarrow> ChatError + ChatStreamState" where
  "absorb_tool_call_delta delta s =
     (case attr delta ''index'' of
        VInt i \<Rightarrow>
          let own = (case map_of (cs_slots s) i of Some sl \<Rightarrow> sl | None \<Rightarrow> new_slot);
              call_id = text_field_of delta ''id'';
              function = attr delta ''function''
          in if call_id \<noteq> None \<and> sl_id own \<noteq> None \<and> sl_id own \<noteq> call_id then Inl TransientChat
             else Inr (s\<lparr>cs_slots := AList.update i
                    \<lparr>sl_id = (if call_id = None then sl_id own else call_id),
                     sl_name = sl_name own @ pieces (text_field_of function ''name''),
                     sl_args = sl_args own @ pieces (text_field_of function ''arguments'')\<rparr> (cs_slots s)\<rparr>)
      | _ \<Rightarrow> Inl TransientChat)"

definition absorb_delta :: "pyval \<Rightarrow> ChatStreamState \<Rightarrow> ChatError + ChatStreamState" where
  "absorb_delta delta s =
     (let s1 = s\<lparr>cs_content := cs_content s @ pieces (text_field_of delta ''content''),
                 cs_refusal := cs_refusal s @ pieces (text_field_of delta ''refusal'')\<rparr>
      in bnd (chat_iterate (attr delta ''tool_calls'')) (\<lambda>calls. each_step absorb_tool_call_delta calls (absorb_reasoning_delta delta s1)))"

definition absorb_choice :: "pyval \<Rightarrow> ChatStreamState \<Rightarrow> ChatError + ChatStreamState" where
  "absorb_choice choice s =
     (if (case map_of (as_dict choice) ''index'' of None \<Rightarrow> False | Some i \<Rightarrow> i \<noteq> VInt 0) then Inr s
      else let s1 = (case text_field_of choice ''finish_reason'' of Some f \<Rightarrow> s\<lparr>cs_finish := Some f\<rparr> | None \<Rightarrow> s)
           in if attr choice ''delta'' = VNone then Inr s1 else absorb_delta (attr choice ''delta'') s1)"

definition absorb_chunk :: "pyval \<Rightarrow> ChatStreamState \<Rightarrow> ChatError + ChatStreamState" where
  "absorb_chunk chunk s =
     (let s1 = s\<lparr>cs_chunks := cs_chunks s + 1,
                 cs_model := (if cs_model s = None then clean_provider_model (attr chunk ''model'') else cs_model s),
                 cs_usage := (if attr chunk ''usage'' = VNone then cs_usage s else attr chunk ''usage'')\<rparr>
      in bnd (chat_iterate (attr chunk ''choices'')) (\<lambda>choices. each_step absorb_choice choices s1))"

section \<open>The response\<close>

definition registered_names :: "pyval list \<Rightarrow> string list" where
  "registered_names tools =
     concat (map (\<lambda>t. case attr (attr t ''function'') ''name'' of VStr n \<Rightarrow> [n] | _ \<Rightarrow> []) tools)"

definition finalize_slot :: "ChatHost \<Rightarrow> bool \<Rightarrow> string list \<Rightarrow> ToolCallSlot \<Rightarrow> ChatError + message" where
  "finalize_slot h checked registered sl =
     (let name = concat (sl_name sl)
      in if checked \<and> name = [] then Inl TransientChat
         else if checked \<and> registered \<noteq> [] \<and> name \<notin> set registered then Inl TransientChat
         else if checked \<and> sl_id sl = None then Inl TransientChat
         else Inr [(''id'', VStr (case sl_id sl of Some i \<Rightarrow> i | None \<Rightarrow> [])), (''type'', VStr ''function''),
                   (''function'', VDict [(''name'', VStr name),
                      (''arguments'', VStr (normalize_tool_arguments (ch_json h) (concat (sl_args sl))))])])"

definition finalize_tool_calls :: "ChatHost \<Rightarrow> pyval list \<Rightarrow> ChatStreamState \<Rightarrow> ChatError + message list" where
  "finalize_tool_calls h tools s =
     each (finalize_slot h (cs_finish s \<notin> {Some ''length'', Some ''max_tokens''}) (registered_names tools)) (map snd (cs_slots s))"

definition text_value :: "string option \<Rightarrow> pyval" where
  "text_value t = (case t of Some s \<Rightarrow> VStr s | None \<Rightarrow> VNone)"

definition stream_state_to_response ::
  "ChatHost \<Rightarrow> bool \<Rightarrow> message list \<Rightarrow> pyval list \<Rightarrow> ChatStreamState \<Rightarrow> ChatError + ChatResponse" where
  "stream_state_to_response h require_reported_usage request tools s =
     (if cs_chunks s = 0 then Inl TransientChat
      else case cs_finish s of
             None \<Rightarrow> Inl TransientChat
           | Some ended \<Rightarrow>
               let content = text_or_none (concat (cs_content s));
                   refusal = text_or_none (concat (cs_refusal s));
                   reasoning = text_or_none (concat (cs_reasoning s))
               in bnd (finalize_tool_calls h tools s) (\<lambda>calls.
                  let response = build_chat_response h content reasoning calls (Some ended) (cs_model s) (cs_usage s)
                        (VDict [(''content'', text_value content), (''refusal'', text_value refusal), (''reasoning_content'', text_value reasoning),
                                (''tool_calls'', if calls = [] then VNone else VList (map VDict calls))]) request tools refusal
                  in if require_reported_usage \<and> cu_estimated (cr_usage response) then Inl UsageUnavailable else Inr response))"

definition read_chat_stream :: "ChatHost \<Rightarrow> bool \<Rightarrow> message list \<Rightarrow> pyval list \<Rightarrow> pyval list \<Rightarrow> ChatError + ChatResponse" where
  "read_chat_stream h require_reported_usage request tools chunks =
     bnd (each_step absorb_chunk chunks chat_start) (stream_state_to_response h require_reported_usage request tools)"

section \<open>What the state adds up to\<close>

definition chunk_choices :: "pyval \<Rightarrow> pyval list" where
  "chunk_choices chunk =
     (case chat_iterate (attr chunk ''choices'') of
        Inr cs \<Rightarrow> filter (\<lambda>c. case map_of (as_dict c) ''index'' of None \<Rightarrow> True | Some i \<Rightarrow> i = VInt 0) cs
      | Inl _ \<Rightarrow> [])"

definition choice_calls :: "pyval \<Rightarrow> pyval list" where
  "choice_calls choice = (case chat_iterate (attr (attr choice ''delta'') ''tool_calls'') of Inr ds \<Rightarrow> ds | Inl _ \<Rightarrow> [])"

text \<open>The fragments of tool calls of a stream, in the order of their arrival.\<close>

definition call_deltas :: "pyval list \<Rightarrow> pyval list" where
  "call_deltas chunks = concat (map choice_calls (concat (map chunk_choices chunks)))"

definition delta_index :: "pyval \<Rightarrow> int" where
  "delta_index d = (case attr d ''index'' of VInt i \<Rightarrow> i | _ \<Rightarrow> 0)"

definition first_seen :: "'a list \<Rightarrow> 'a list" where
  "first_seen xs = rev (remdups (rev xs))"

lemma first_seen_simps [simp]:
  "first_seen [] = []" "first_seen (xs @ [x]) = (if x \<in> set xs then first_seen xs else first_seen xs @ [x])"
  by (simp_all add: first_seen_def)

lemma set_first_seen [simp]: "set (first_seen xs) = set xs" and distinct_first_seen [simp]: "distinct (first_seen xs)"
  by (simp_all add: first_seen_def)

text \<open>The call that the fragments of one index make up.\<close>

definition slot_of :: "pyval list \<Rightarrow> ToolCallSlot" where
  "slot_of ds =
     \<lparr>sl_id = (case filter (\<lambda>t. t \<noteq> None) (map (\<lambda>d. text_field_of d ''id'') ds) of [] \<Rightarrow> None | t # _ \<Rightarrow> t),
      sl_name = concat (map (\<lambda>d. pieces (text_field_of (attr d ''function'') ''name'')) ds),
      sl_args = concat (map (\<lambda>d. pieces (text_field_of (attr d ''function'') ''arguments'')) ds)\<rparr>"

definition fragments_of :: "int \<Rightarrow> pyval list \<Rightarrow> pyval list" where
  "fragments_of i ds = filter (\<lambda>d. delta_index d = i) ds"

definition slots_of :: "pyval list \<Rightarrow> (int \<times> ToolCallSlot) list" where
  "slots_of ds = map (\<lambda>i. (i, slot_of (fragments_of i ds))) (first_seen (map delta_index ds))"

lemma update_mapped:
  "distinct js \<Longrightarrow> AList.update i v (map (\<lambda>j. (j, f j)) js) =
     (if i \<in> set js then map (\<lambda>j. (j, if j = i then v else f j)) js else map (\<lambda>j. (j, f j)) js @ [(i, v)])"
  by (induction js) auto

lemma map_of_slots: "map_of (slots_of ds) i = (if i \<in> delta_index ` set ds then Some (slot_of (fragments_of i ds)) else None)"
  by (auto simp: slots_of_def map_of_map_restrict restrict_map_def)

lemma no_fragments: "i \<notin> delta_index ` set ds \<Longrightarrow> fragments_of i ds = []"
  by (auto simp: fragments_of_def filter_empty_conv)

lemma absorbed_call:
  assumes "absorb_tool_call_delta d s = Inr s'" and "cs_slots s = slots_of ds"
  shows "cs_slots s' = slots_of (ds @ [d])"
proof -
  obtain i where i: "attr d ''index'' = VInt i" using assms(1) by (auto simp: absorb_tool_call_delta_def split: pyval.splits)
  then have di: "delta_index d = i" by (simp add: delta_index_def)
  let ?own = "fragments_of i ds"
  have slot: "(case map_of (cs_slots s) i of Some sl \<Rightarrow> sl | None \<Rightarrow> new_slot) = slot_of ?own"
    using no_fragments [of i ds] by (simp add: assms(2) map_of_slots slot_of_def new_slot_def)
  have ok: "text_field_of d ''id'' = None \<or> sl_id (slot_of ?own) = None \<or> sl_id (slot_of ?own) = text_field_of d ''id''"
    and s': "cs_slots s' = AList.update i
       \<lparr>sl_id = (if text_field_of d ''id'' = None then sl_id (slot_of ?own) else text_field_of d ''id''),
        sl_name = sl_name (slot_of ?own) @ pieces (text_field_of (attr d ''function'') ''name''),
        sl_args = sl_args (slot_of ?own) @ pieces (text_field_of (attr d ''function'') ''arguments'')\<rparr> (slots_of ds)"
    using assms(1) by (auto simp: absorb_tool_call_delta_def i slot [unfolded assms(2)] Let_def assms(2) split: if_splits)
  have "slot_of (?own @ [d]) =
      \<lparr>sl_id = (if text_field_of d ''id'' = None then sl_id (slot_of ?own) else text_field_of d ''id''),
       sl_name = sl_name (slot_of ?own) @ pieces (text_field_of (attr d ''function'') ''name''),
       sl_args = sl_args (slot_of ?own) @ pieces (text_field_of (attr d ''function'') ''arguments'')\<rparr>"
    using ok by (auto simp: slot_of_def split: list.splits dest!: filter_eq_ConsD)
  then have "cs_slots s' = AList.update i (slot_of (?own @ [d])) (slots_of ds)" using s' by simp
  moreover have "fragments_of j (ds @ [d]) = (if j = i then ?own @ [d] else fragments_of j ds)" for j
    using di by (simp add: fragments_of_def)
  ultimately show ?thesis
    using no_fragments [of i ds] di by (auto simp: slots_of_def update_mapped if_distrib [of slot_of] cong: if_cong) (metis image_eqI)+
qed

lemma absorbed_calls:
  "each_step absorb_tool_call_delta ds s = Inr s' \<Longrightarrow> cs_slots s = slots_of before \<Longrightarrow> cs_slots s' = slots_of (before @ ds)"
proof (induction ds arbitrary: s before)
  case (Cons d ds)
  then obtain s1 where s1: "absorb_tool_call_delta d s = Inr s1" "each_step absorb_tool_call_delta ds s1 = Inr s'"
    by (auto simp: bnd_Inr_iff)
  from Cons.IH [OF s1(2) absorbed_call [OF s1(1) Cons.prems(2)]] show ?case by simp
qed simp

lemma reasoning_slots [simp]: "cs_slots (absorb_reasoning_delta d s) = cs_slots s"
  by (auto simp: absorb_reasoning_delta_def split: option.split prod.split)

lemma absorbed_choices:
  "each_step absorb_choice cs s = Inr s' \<Longrightarrow> cs_slots s = slots_of before \<Longrightarrow>
   cs_slots s' = slots_of (before @ concat (map choice_calls
     (filter (\<lambda>c. case map_of (as_dict c) ''index'' of None \<Rightarrow> True | Some i \<Rightarrow> i = VInt 0) cs)))"
proof (induction cs arbitrary: s before)
  case (Cons c cs)
  then obtain s1 where s1: "absorb_choice c s = Inr s1" "each_step absorb_choice cs s1 = Inr s'" by (auto simp: bnd_Inr_iff)
  let ?own = "case map_of (as_dict c) ''index'' of None \<Rightarrow> True | Some i \<Rightarrow> i = VInt 0"
  have "cs_slots s1 = slots_of (before @ (if ?own then choice_calls c else []))"
  proof (cases ?own)
    case True
    let ?f = "case text_field_of c ''finish_reason'' of Some f \<Rightarrow> s\<lparr>cs_finish := Some f\<rparr> | None \<Rightarrow> s"
    have f: "cs_slots ?f = slots_of before" using Cons.prems(2) by (simp split: option.split)
    show ?thesis
    proof (cases "attr c ''delta'' = VNone")
      case True
      then show ?thesis using s1(1) \<open>?own\<close> f
        by (auto simp: absorb_choice_def Let_def choice_calls_def attr_def as_dict_def chat_iterate_def iterate_def get_def split: option.splits if_splits)
    next
      case False
      then have "absorb_delta (attr c ''delta'') ?f = Inr s1" using s1(1) \<open>?own\<close> by (auto simp: absorb_choice_def Let_def split: option.splits if_splits)
      then obtain ds where ds: "chat_iterate (attr (attr c ''delta'') ''tool_calls'') = Inr ds"
        and run: "each_step absorb_tool_call_delta ds (absorb_reasoning_delta (attr c ''delta'')
          (?f\<lparr>cs_content := cs_content ?f @ pieces (text_field_of (attr c ''delta'') ''content''),
              cs_refusal := cs_refusal ?f @ pieces (text_field_of (attr c ''delta'') ''refusal'')\<rparr>)) = Inr s1"
        by (auto simp: absorb_delta_def Let_def bnd_Inr_iff)
      from absorbed_calls [OF run, of before] f ds \<open>?own\<close> show ?thesis by (simp add: choice_calls_def)
    qed
  next
    case False
    then show ?thesis using s1(1) Cons.prems(2) by (auto simp: absorb_choice_def split: option.splits if_splits)
  qed
  from Cons.IH [OF s1(2) this] show ?case by (auto split: if_splits option.splits)
qed simp

lemma absorbed_chunks:
  "each_step absorb_chunk chunks s = Inr s' \<Longrightarrow> cs_slots s = slots_of before \<Longrightarrow> cs_slots s' = slots_of (before @ call_deltas chunks)"
proof (induction chunks arbitrary: s before)
  case (Cons c chunks)
  then obtain s1 where s1: "absorb_chunk c s = Inr s1" "each_step absorb_chunk chunks s1 = Inr s'" by (auto simp: bnd_Inr_iff)
  then obtain cs where cs: "chat_iterate (attr c ''choices'') = Inr cs"
    and run: "each_step absorb_choice cs (s\<lparr>cs_chunks := cs_chunks s + 1,
                 cs_model := (if cs_model s = None then clean_provider_model (attr c ''model'') else cs_model s),
                 cs_usage := (if attr c ''usage'' = VNone then cs_usage s else attr c ''usage'')\<rparr>) = Inr s1"
    by (auto simp: absorb_chunk_def Let_def bnd_Inr_iff)
  have "cs_slots s1 = slots_of (before @ concat (map choice_calls (chunk_choices c)))"
    using absorbed_choices [OF run, of before] Cons.prems(2) cs by (simp add: chunk_choices_def)
  from Cons.IH [OF s1(2) this] show ?case by (simp add: call_deltas_def)
qed (simp add: call_deltas_def)

text \<open>
  C19. Parallel tool calls are never spliced.  However the fragments of a stream's tool calls interleave,
  each call is made of the fragments with its index, in their order, and of no others: its id is the one
  they carry, its name and its arguments are their pieces put together.  The calls stand in the order in
  which their indices were first seen.
\<close>

theorem fragments_assembled:
  assumes "each_step absorb_chunk chunks chat_start = Inr s"
  shows "cs_slots s = map (\<lambda>i. (i, slot_of (fragments_of i (call_deltas chunks)))) (first_seen (map delta_index (call_deltas chunks)))"
  using absorbed_chunks [OF assms, of "[]"] by (simp add: chat_start_def slots_of_def)

section \<open>The stream as one message\<close>

text \<open>The completion that a state adds up to.\<close>

definition whole_call :: "ToolCallSlot \<Rightarrow> pyval" where
  "whole_call sl =
     VDict [(''id'', VStr (case sl_id sl of Some i \<Rightarrow> i | None \<Rightarrow> [])),
            (''function'', VDict [(''name'', VStr (concat (sl_name sl))), (''arguments'', VStr (concat (sl_args sl)))])]"

definition whole_message :: "ChatStreamState \<Rightarrow> pyval" where
  "whole_message s =
     VDict [(''content'', text_value (text_or_none (concat (cs_content s)))), (''refusal'', text_value (text_or_none (concat (cs_refusal s)))),
            (''reasoning_content'', text_value (text_or_none (concat (cs_reasoning s)))),
            (''tool_calls'', VList (map (whole_call \<circ> snd) (cs_slots s)))]"

definition whole_completion :: "ChatStreamState \<Rightarrow> pyval" where
  "whole_completion s =
     VDict [(''model'', text_value (cs_model s)), (''usage'', cs_usage s),
            (''choices'', VList [VDict [(''message'', whole_message s), (''finish_reason'', text_value (cs_finish s))]])]"

lemma text_value_simps [simp]:
  "optional_text (text_value t) = Inr t" "clean_provider_model (text_value (text_or_none u)) = text_or_none u"
  by (auto simp: optional_text_def text_value_def clean_provider_model_def text_or_none_def split: option.split)

lemma text_or_none_field: "attr m k = text_value (text_or_none u) \<Longrightarrow> text_field_of m k = text_or_none u"
  by (auto simp: text_field_of_def text_value_def text_or_none_def)

lemma finalized_call: "finalize_slot h b names sl = Inr call \<Longrightarrow> call_of_message (ch_json h) (whole_call sl) = Inr call"
  by (auto simp: finalize_slot_def Let_def call_of_message_def whole_call_def attr_def as_dict_def get_def optional_text_def split: if_splits)

lemma finalized_calls:
  "each (finalize_slot h b names) sls = Inr calls \<Longrightarrow> each (call_of_message (ch_json h)) (map whole_call sls) = Inr calls"
  by (induction sls arbitrary: calls) (auto simp: bnd_Inr_iff finalized_call)

text \<open>When both counters are reported the usage does not depend on the message.\<close>

lemma reported_usage:
  assumes "0 < usage_int h (VDict (usage_to_dict u)) ''prompt_tokens''" and "0 < usage_int h (VDict (usage_to_dict u)) ''completion_tokens''"
  shows "parse_usage h u request m tools = parse_usage h u request m' tools"
  using assms by (simp add: parse_usage_def Let_def)

lemma reported_response:
  assumes "0 < usage_int h (VDict (usage_to_dict u)) ''prompt_tokens''" and "0 < usage_int h (VDict (usage_to_dict u)) ''completion_tokens''"
  shows "build_chat_response h content reasoning calls ended model u m request tools refusal =
    build_chat_response h content reasoning calls ended model u m' request tools refusal"
  unfolding build_chat_response_def by (simp only: reported_usage [OF assms, of request m tools m'])

lemma model_nonempty:
  "each_step absorb_chunk chunks s = Inr s' \<Longrightarrow> cs_model s \<noteq> Some [] \<Longrightarrow> cs_model s' \<noteq> Some []"
proof (induction chunks arbitrary: s)
  case (Cons c chunks)
  then obtain s1 where s1: "absorb_chunk c s = Inr s1" "each_step absorb_chunk chunks s1 = Inr s'" by (auto simp: bnd_Inr_iff)
  have calls: "cs_model t = cs_model t'" if "each_step absorb_tool_call_delta ds t' = Inr t" for ds t t'
    using that by (induction ds arbitrary: t') (auto simp: bnd_Inr_iff absorb_tool_call_delta_def Let_def split: pyval.splits if_splits)
  have delta: "cs_model t = cs_model t'" if "absorb_delta d t' = Inr t" for d t t'
    using that calls by (auto simp: absorb_delta_def Let_def bnd_Inr_iff absorb_reasoning_delta_def split: option.splits prod.splits)
  have choices: "cs_model t = cs_model t'" if "each_step absorb_choice cs t' = Inr t" for cs t t'
    using that
  proof (induction cs arbitrary: t')
    case (Cons c cs)
    then obtain u where u: "absorb_choice c t' = Inr u" "each_step absorb_choice cs u = Inr t" by (auto simp: bnd_Inr_iff)
    have "cs_model u = cs_model t'" using u(1) delta by (force simp: absorb_choice_def Let_def split: option.splits if_splits)
    then show ?case using Cons.IH [OF u(2)] by simp
  qed simp
  have "cs_model s1 \<noteq> Some []" using s1(1) Cons.prems(2) choices
    by (force simp: absorb_chunk_def Let_def bnd_Inr_iff clean_provider_model_def split: pyval.splits if_splits)
  then show ?case using Cons.IH [OF s1(2)] by simp
qed simp


section \<open>Two calls whose fragments interleave\<close>

definition demo_fragment :: "int \<Rightarrow> pyval \<Rightarrow> pyval \<Rightarrow> string \<Rightarrow> pyval" where
  "demo_fragment i call_id nm args =
     VDict [(''index'', VInt i), (''id'', call_id), (''function'', VDict [(''name'', nm), (''arguments'', VStr args)])]"

definition demo_chunk :: "pyval list \<Rightarrow> pyval \<Rightarrow> pyval" where
  "demo_chunk ds ended =
     VDict [(''choices'', VList [VDict [(''delta'', VDict [(''tool_calls'', VList ds)]), (''finish_reason'', ended)]]),
            (''usage'', VDict [(''prompt_tokens'', VInt 5), (''completion_tokens'', VInt 3)])]"

definition demo_chunks :: "pyval list" where
  "demo_chunks =
     [demo_chunk [demo_fragment 1 (VStr ''b'') (VStr ''ls'') ''{'', demo_fragment 0 (VStr ''a'') (VStr ''cat'') ''{''] VNone,
      demo_chunk [demo_fragment 0 VNone VNone ''}'', demo_fragment 1 VNone VNone ''}''] (VStr ''tool_calls'')]"

definition demo_state :: ChatStreamState where
  "demo_state =
     chat_start\<lparr>cs_slots := [(1, \<lparr>sl_id = Some ''b'', sl_name = [''ls''], sl_args = [''{'', ''}'']\<rparr>),
                             (0, \<lparr>sl_id = Some ''a'', sl_name = [''cat''], sl_args = [''{'', ''}'']\<rparr>)],
                cs_finish := Some ''tool_calls'', cs_usage := VDict [(''prompt_tokens'', VInt 5), (''completion_tokens'', VInt 3)], cs_chunks := 2\<rparr>"

lemma demo_absorbed: "each_step absorb_chunk demo_chunks chat_start = Inr demo_state"
  by code_simp

theorem fragments_assembled_witness:
  "map (\<lambda>i. concat (sl_args (slot_of (fragments_of i (call_deltas demo_chunks))))) [1, 0] = [''{}'', ''{}''] \<and>
   first_seen (map delta_index (call_deltas demo_chunks)) = [1, 0]"
proof -
  have "map fst (cs_slots demo_state) = [1, 0]" "map (concat \<circ> sl_args \<circ> snd) (cs_slots demo_state) = [''{}'', ''{}'']"
    by (simp_all add: demo_state_def)
  then show ?thesis unfolding fragments_assembled [OF demo_absorbed] by (simp add: comp_def)
qed

lemma demo_answer:
  "case stream_state_to_response demo_chat_host True [] [] demo_state of Inr response \<Rightarrow> length (cr_calls response) = 2 | Inl _ \<Rightarrow> False"
  by code_simp


end
