(* ===== verification/Workflow_Collections.thy ===== *)
theory Workflow_Collections
  imports Prelude "HOL-Library.Multiset"
begin

text \<open>
  \<open>parallel\<close> and \<open>pipeline\<close> of the workflow engine (\<open>application/workflow_collections.py\<close>).  Workers
  take the indices of a collection one after the other until one of them fails.  A schedule is a list of
  turns: which worker goes on, or that a further worker starts.  A unit of work is its result, and a task
  slot that is waited for is a turn that comes later.  Turns are finer than those of asyncio, where a worker
  that ends a unit takes its next index at once, so every run of the event loop is a schedule.  Cancelling
  a worker from outside is not modelled.
\<close>

section \<open>Units\<close>

datatype Failure = BudgetExceeded | EnvironmentRevoked | Failed string

text \<open>The guard of \<open>parallel\<close>: \<open>None\<close> for an ordinary failure.\<close>

definition guarded :: "Failure + 'a option \<Rightarrow> Failure + 'a option" where
  "guarded r =
     (case r of
        Inr v \<Rightarrow> Inr v
      | Inl (Failed _) \<Rightarrow> Inr None
      | Inl e \<Rightarrow> Inl e)"

text \<open>A stage gets the previous result, the item and its index; \<open>None\<close> is Python's \<open>None\<close>.\<close>

type_synonym 'a stage = "'a option \<Rightarrow> 'a option \<Rightarrow> nat \<Rightarrow> Failure + 'a option"

fun flow :: "bool \<Rightarrow> 'a stage list \<Rightarrow> 'a option \<Rightarrow> nat \<Rightarrow> 'a option \<Rightarrow> Failure + 'a option" where
  "flow stop_on_none [] item i result = Inr result"
| "flow stop_on_none (st # sts) item i result =
     (case st result item i of
        Inl (Failed _) \<Rightarrow> Inr None
      | Inl e \<Rightarrow> Inl e
      | Inr r \<Rightarrow> if r = None \<and> stop_on_none then Inr None else flow stop_on_none sts item i r)"

section \<open>Workers\<close>

datatype Worker = Ready | Running nat | Finished

record 'a Collection =
  cl_next :: nat
  cl_results :: "(nat \<times> 'a option) list"
  cl_errors :: "(nat \<times> Failure) list"
  cl_workers :: "Worker list"

definition collection_start :: "nat \<Rightarrow> 'a Collection" where
  "collection_start k = \<lparr>cl_next = 0, cl_results = [], cl_errors = [], cl_workers = replicate k Ready\<rparr>"

datatype Event = Turn nat | Spawn

text \<open>
  A ready worker takes the next index unless an error was recorded or none is left; a running one ends its
  unit.  A collection inside another one starts with one worker and is given more as task slots become
  free.
\<close>

definition worker_turn :: "(nat \<Rightarrow> Failure + 'a option) \<Rightarrow> nat \<Rightarrow> nat \<Rightarrow> 'a Collection \<Rightarrow> 'a Collection option" where
  "worker_turn units n w s =
     (if length (cl_workers s) \<le> w then None
      else case cl_workers s ! w of
             Ready \<Rightarrow>
               if cl_errors s = [] \<and> cl_next s < n
               then Some (s\<lparr>cl_workers := (cl_workers s)[w := Running (cl_next s)], cl_next := cl_next s + 1\<rparr>)
               else Some (s\<lparr>cl_workers := (cl_workers s)[w := Finished]\<rparr>)
           | Running i \<Rightarrow>
               (case units i of
                  Inr r \<Rightarrow> Some (s\<lparr>cl_workers := (cl_workers s)[w := Ready], cl_results := cl_results s @ [(i, r)]\<rparr>)
                | Inl e \<Rightarrow> Some (s\<lparr>cl_workers := (cl_workers s)[w := Ready], cl_errors := cl_errors s @ [(i, e)]\<rparr>))
           | Finished \<Rightarrow> None)"

definition collection_step ::
  "(nat \<Rightarrow> Failure + 'a option) \<Rightarrow> nat \<Rightarrow> nat \<Rightarrow> Event \<Rightarrow> 'a Collection \<Rightarrow> 'a Collection option" where
  "collection_step units n limit ev s =
     (case ev of
        Turn w \<Rightarrow> worker_turn units n w s
      | Spawn \<Rightarrow> if length (cl_workers s) < limit then Some (s\<lparr>cl_workers := cl_workers s @ [Ready]\<rparr>) else None)"

fun run_schedule ::
  "(nat \<Rightarrow> Failure + 'a option) \<Rightarrow> nat \<Rightarrow> nat \<Rightarrow> Event list \<Rightarrow> 'a Collection \<Rightarrow> 'a Collection option" where
  "run_schedule units n limit [] s = Some s"
| "run_schedule units n limit (ev # evs) s =
     (case collection_step units n limit ev s of None \<Rightarrow> None | Some s' \<Rightarrow> run_schedule units n limit evs s')"

definition all_finished :: "'a Collection \<Rightarrow> bool" where
  "all_finished s = list_all (\<lambda>w. w = Finished) (cl_workers s)"

definition raised_error :: "(nat \<times> Failure) list \<Rightarrow> Failure" where
  "raised_error errs =
     (let sorted_errs = sort_key fst errs
      in case filter (\<lambda>(_, e). e = BudgetExceeded) sorted_errs of
           (_, e) # _ \<Rightarrow> e
         | [] \<Rightarrow> snd (hd sorted_errs))"

text \<open>The list of results, \<open>None\<close> where no unit ran.\<close>

definition collection_outcome :: "nat \<Rightarrow> 'a Collection \<Rightarrow> Failure + 'a option list" where
  "collection_outcome n s =
     (if cl_errors s \<noteq> [] then Inl (raised_error (cl_errors s))
      else Inr (map (\<lambda>i. case map_of (cl_results s) i of Some r \<Rightarrow> r | None \<Rightarrow> None) [0..<n]))"

text \<open>Workers of a collection, all at once unless it is inside another one.\<close>

definition worker_count :: "nat \<Rightarrow> nat \<Rightarrow> nat" where
  "worker_count n task_concurrency = min n task_concurrency"

text \<open>The budget of a unit; \<open>None\<close> when the run has no budget.\<close>

definition planned_budget :: "int option \<Rightarrow> int option \<Rightarrow> nat \<Rightarrow> int option" where
  "planned_budget remaining parent n =
     (case remaining of
        None \<Rightarrow> None
      | Some r \<Rightarrow>
          let own = max 0 r; available = (case parent of Some p \<Rightarrow> min own p | None \<Rightarrow> own)
          in Some (if available \<noteq> 0 then max 1 (available div int n) else 0))"

definition parallel_units :: "(Failure + 'a option) list \<Rightarrow> nat \<Rightarrow> Failure + 'a option" where
  "parallel_units thunks i = guarded (thunks ! i)"

definition pipeline_units :: "bool \<Rightarrow> 'a stage list \<Rightarrow> 'a option list \<Rightarrow> nat \<Rightarrow> Failure + 'a option" where
  "pipeline_units stop_on_none stages items i = flow stop_on_none stages (items ! i) i (items ! i)"

section \<open>Every schedule\<close>

fun running_at :: "Worker \<Rightarrow> nat list" where
  "running_at (Running i) = [i]"
| "running_at Ready = []"
| "running_at Finished = []"

definition in_flight :: "'a Collection \<Rightarrow> nat multiset" where
  "in_flight s = mset (concat (map running_at (cl_workers s)))"

text \<open>
  The indices taken are those below \<open>cl_next\<close>: each is in flight, has a result or has an error, and only
  one of these.  Nothing is taken once there is an error, and no worker ends with work left.
\<close>

definition collection_ok :: "(nat \<Rightarrow> Failure + 'a option) \<Rightarrow> nat \<Rightarrow> nat \<Rightarrow> 'a Collection \<Rightarrow> bool" where
  "collection_ok units n limit s =
     (cl_next s \<le> n \<and> length (cl_workers s) \<le> limit \<and>
      in_flight s + mset (map fst (cl_results s)) + mset (map fst (cl_errors s)) = mset [0..<cl_next s] \<and>
      (\<forall>(i, r) \<in> set (cl_results s). units i = Inr r) \<and> (\<forall>(i, e) \<in> set (cl_errors s). units i = Inl e) \<and>
      (Finished \<in> set (cl_workers s) \<longrightarrow> cl_errors s \<noteq> [] \<or> cl_next s = n))"

lemma in_flight_update:
  "w < length ws \<Longrightarrow> mset (concat (map running_at (ws[w := v]))) + mset (running_at (ws ! w)) =
     mset (concat (map running_at ws)) + mset (running_at v)"
  by (induction ws arbitrary: w) (auto split: nat.split)

lemma in_flight_set:
  assumes "w < length (cl_workers s)"
  shows "in_flight (s\<lparr>cl_workers := (cl_workers s)[w := v]\<rparr>) + mset (running_at (cl_workers s ! w)) = in_flight s + mset (running_at v)"
  using in_flight_update [OF assms] by (simp add: in_flight_def)

lemma finished_update: "Finished \<in> set (ws[w := v]) \<Longrightarrow> v = Finished \<or> Finished \<in> set ws"
  using set_update_subset_insert [of ws w v] by auto

lemma turn_ok:
  assumes turn: "worker_turn units n w s = Some s'" and ok: "collection_ok units n limit s"
  shows "collection_ok units n limit s'"
proof -
  have w: "w < length (cl_workers s)" using turn by (auto simp: worker_turn_def split: if_splits)
  note moved = in_flight_set [OF w]
  show ?thesis
  proof (cases "cl_workers s ! w")
    case Finished
    then show ?thesis using turn w by (simp add: worker_turn_def)
  next
    case Ready
    show ?thesis
    proof (cases "cl_errors s = [] \<and> cl_next s < n")
      case True
      then have s': "s' = s\<lparr>cl_workers := (cl_workers s)[w := Running (cl_next s)], cl_next := cl_next s + 1\<rparr>"
        using turn w Ready by (simp add: worker_turn_def)
      have "in_flight s' = in_flight s + {#cl_next s#}"
        using moved [of "Running (cl_next s)"] Ready by (simp add: s' in_flight_def)
      then show ?thesis using ok True
        by (auto simp: collection_ok_def s' dest!: finished_update)
    next
      case False
      then have s': "s' = s\<lparr>cl_workers := (cl_workers s)[w := Finished]\<rparr>"
        using turn w Ready unfolding worker_turn_def by (auto split: if_splits)
      have "in_flight s' = in_flight s" using moved [of Finished] Ready by (simp add: s')
      then show ?thesis using ok False by (auto simp: collection_ok_def s')
    qed
  next
    case (Running i)
    have gone: "in_flight (s\<lparr>cl_workers := (cl_workers s)[w := Ready]\<rparr>) + {#i#} = in_flight s" using moved [of Ready] Running by simp
    show ?thesis
    proof (cases "units i")
      case (Inr r)
      then have s': "s' = s\<lparr>cl_workers := (cl_workers s)[w := Ready], cl_results := cl_results s @ [(i, r)]\<rparr>"
        using turn w Running by (simp add: worker_turn_def)
      have flight: "in_flight s = add_mset i (in_flight s')" using gone by (simp add: s' in_flight_def)
      have kept: "cl_next s' = cl_next s" "cl_errors s' = cl_errors s" "cl_results s' = cl_results s @ [(i, r)]"
        "cl_workers s' = (cl_workers s)[w := Ready]"
        by (simp_all add: s')
      show ?thesis using ok Inr by (auto simp: collection_ok_def flight kept dest!: finished_update)
    next
      case (Inl e)
      then have s': "s' = s\<lparr>cl_workers := (cl_workers s)[w := Ready], cl_errors := cl_errors s @ [(i, e)]\<rparr>"
        using turn w Running by (simp add: worker_turn_def)
      have flight: "in_flight s = add_mset i (in_flight s')" using gone by (simp add: s' in_flight_def)
      have kept: "cl_next s' = cl_next s" "cl_results s' = cl_results s" "cl_errors s' = cl_errors s @ [(i, e)]"
        "cl_workers s' = (cl_workers s)[w := Ready]"
        by (simp_all add: s')
      show ?thesis using ok Inl by (auto simp: collection_ok_def flight kept dest!: finished_update)
    qed
  qed
qed

lemma step_ok: "collection_step units n limit ev s = Some s' \<Longrightarrow> collection_ok units n limit s \<Longrightarrow> collection_ok units n limit s'"
proof (cases ev)
  case (Turn w)
  then show "collection_step units n limit ev s = Some s' \<Longrightarrow> collection_ok units n limit s \<Longrightarrow> collection_ok units n limit s'"
    using turn_ok by (simp add: collection_step_def)
next
  case Spawn
  then show "collection_step units n limit ev s = Some s' \<Longrightarrow> collection_ok units n limit s \<Longrightarrow> collection_ok units n limit s'"
    by (auto simp: collection_step_def collection_ok_def in_flight_def split: if_splits)
qed

lemma fresh_collection_ok: "k \<le> limit \<Longrightarrow> collection_ok units n limit (collection_start k)"
  by (auto simp: collection_ok_def collection_start_def in_flight_def)

lemma schedule_ok:
  "run_schedule units n limit evs s = Some s' \<Longrightarrow> collection_ok units n limit s \<Longrightarrow> collection_ok units n limit s'"
  by (induction evs arbitrary: s) (auto split: option.splits dest: step_ok)

section \<open>Outcomes\<close>

lemma finished_not_in_flight: "all_finished s \<Longrightarrow> in_flight s = {#}"
  by (auto simp: all_finished_def in_flight_def list_all_iff)

text \<open>The error that is raised: the first budget error by index, otherwise the first error by index.\<close>

lemma raised_error_in:
  assumes "errs \<noteq> []"
  shows "\<exists>i. (i, raised_error errs) \<in> set errs \<and>
    (raised_error errs \<noteq> BudgetExceeded \<longrightarrow> list_all (\<lambda>(j, e). e \<noteq> BudgetExceeded \<and> i \<le> j) errs)"
proof (cases "filter (\<lambda>(_, e). e = BudgetExceeded) (sort_key fst errs)")
  case (Cons q qs)
  then have "q \<in> set (filter (\<lambda>(_, e). e = BudgetExceeded) (sort_key fst errs))" by simp
  then have "q \<in> set errs" "snd q = BudgetExceeded" by auto
  moreover have "raised_error errs = snd q" using Cons by (simp add: raised_error_def Let_def split: prod.split)
  ultimately show ?thesis by (intro exI [of _ "fst q"]) (cases q; simp)
next
  case Nil
  then have none: "\<forall>(j, e) \<in> set errs. e \<noteq> BudgetExceeded" by (auto simp: filter_empty_conv)
  obtain q qs where q: "sort_key fst errs = q # qs" using assms by (cases "sort_key fst errs") (auto dest: arg_cong [of _ _ set])
  have r: "raised_error errs = snd q" using Nil q by (simp add: raised_error_def)
  have "set (q # qs) = set errs" using arg_cong [OF q, of set] by simp
  moreover have "sorted (map fst (q # qs))" using sorted_sort_key [of fst errs] by (simp add: q)
  ultimately have "\<forall>p \<in> set errs. fst q \<le> fst p" by auto
  moreover have "q \<in> set errs" using \<open>set (q # qs) = set errs\<close> by auto
  ultimately show ?thesis using none r
    by (intro exI [of _ "fst q"]) (cases q, auto simp: list_all_iff)
qed

lemma all_settled:
  assumes ok: "collection_ok units n limit s" and "all_finished s" and "cl_workers s \<noteq> [] \<or> n = 0" and none: "cl_errors s = []"
  shows "i < n \<Longrightarrow> \<exists>r. map_of (cl_results s) i = Some r \<and> units i = Inr r"
proof -
  assume i: "i < n"
  have "Finished \<in> set (cl_workers s)" using assms(2,3) i by (cases "cl_workers s") (auto simp: all_finished_def)
  then have "cl_next s = n" using ok none by (simp add: collection_ok_def)
  then have "mset (map fst (cl_results s)) = mset [0..<n]"
    using ok finished_not_in_flight [OF assms(2)] none by (simp add: collection_ok_def)
  then have "set (map fst (cl_results s)) = set [0..<n]" by (rule mset_eq_setD)
  then have "i \<in> fst ` set (cl_results s)" using i by auto
  then obtain r where r: "map_of (cl_results s) i = Some r" by (metis domD dom_map_of_conv_image_fst)
  then have "(i, r) \<in> set (cl_results s)" by (rule map_of_SomeD)
  then show ?thesis using ok r by (auto simp: collection_ok_def)
qed

lemma workers_kept: "run_schedule units n limit evs s = Some s' \<Longrightarrow> length (cl_workers s) \<le> length (cl_workers s')"
proof (induction evs arbitrary: s)
  case (Cons ev evs)
  then obtain s1 where s1: "collection_step units n limit ev s = Some s1" "run_schedule units n limit evs s1 = Some s'"
    by (auto split: option.splits)
  have "length (cl_workers s) \<le> length (cl_workers s1)" using s1(1)
    by (auto simp: collection_step_def worker_turn_def split: Event.splits if_splits Worker.splits sum.splits)
  then show ?case using Cons.IH [OF s1(2)] by simp
qed simp

lemma schedule_settles:
  assumes "run_schedule units n limit evs (collection_start k) = Some s" and "all_finished s" and "k \<le> limit" and "0 < k \<or> n = 0"
  shows "case collection_outcome n s of
      Inr rs \<Rightarrow> map units [0..<n] = map Inr rs
    | Inl e \<Rightarrow> \<exists>i < n. units i = Inl e \<and> (e \<noteq> BudgetExceeded \<longrightarrow> list_all (\<lambda>(j, f). f \<noteq> BudgetExceeded \<and> i \<le> j) (cl_errors s))"
proof -
  have ok: "collection_ok units n limit s" by (rule schedule_ok [OF assms(1) fresh_collection_ok [OF assms(3)]])
  have workers: "cl_workers s \<noteq> [] \<or> n = 0" using workers_kept [OF assms(1)] assms(4) by (auto simp: collection_start_def)
  show ?thesis
  proof (cases "cl_errors s = []")
    case True
    have "units i = Inr (case map_of (cl_results s) i of Some r \<Rightarrow> r | None \<Rightarrow> None)" if "i < n" for i
      using all_settled [OF ok assms(2) workers True that] by auto
    then show ?thesis using True by (simp add: collection_outcome_def)
  next
    case False
    obtain i where i: "(i, raised_error (cl_errors s)) \<in> set (cl_errors s)"
      "raised_error (cl_errors s) \<noteq> BudgetExceeded \<longrightarrow> list_all (\<lambda>(j, f). f \<noteq> BudgetExceeded \<and> i \<le> j) (cl_errors s)"
      using raised_error_in [OF False] by blast
    have "i \<in># mset (map fst (cl_errors s))" using i(1) by force
    then have "i \<in># mset [0..<cl_next s]" using ok by (metis collection_ok_def union_iff)
    then have "i < n" using ok by (auto simp: collection_ok_def)
    moreover have "units i = Inl (raised_error (cl_errors s))" using ok i(1) by (auto simp: collection_ok_def)
    ultimately show ?thesis using False i(2) by (auto simp: collection_outcome_def)
  qed
qed


text \<open>The schedule of two workers on three units.\<close>

definition demo_units :: "nat \<Rightarrow> Failure + nat option" where
  "demo_units i = Inr (Some (10 * i))"

definition demo_schedule :: "Event list" where
  "demo_schedule = [Turn 0, Spawn, Turn 1, Turn 1, Turn 1, Turn 0, Turn 1, Turn 0, Turn 1]"

lemma demo_collection:
  "case run_schedule demo_units 3 2 demo_schedule (collection_start 1) of
     Some s \<Rightarrow> all_finished s \<and> collection_outcome 3 s = Inr [Some 0, Some 10, Some 20] | None \<Rightarrow> False"
  by code_simp


section \<open>Ends\<close>

fun worker_left :: "Worker \<Rightarrow> nat" where
  "worker_left Ready = 1"
| "worker_left (Running i) = 2"
| "worker_left Finished = 0"

definition turns_left :: "nat \<Rightarrow> nat \<Rightarrow> 'a Collection \<Rightarrow> nat" where
  "turns_left n limit s = 2 * (n - cl_next s) + 2 * (limit - length (cl_workers s)) + sum_list (map worker_left (cl_workers s))"

lemma left_update:
  "w < length ws \<Longrightarrow> sum_list (map worker_left (ws[w := v])) + worker_left (ws ! w) = sum_list (map worker_left ws) + worker_left v"
  by (induction ws arbitrary: w) (auto split: nat.split)

lemma turn_counts:
  assumes "collection_step units n limit ev s = Some s'"
  shows "turns_left n limit s' < turns_left n limit s"
proof (cases ev)
  case Spawn
  then show ?thesis using assms by (auto simp: collection_step_def turns_left_def split: if_splits)
next
  case (Turn w)
  then have turn: "worker_turn units n w s = Some s'" using assms by (simp add: collection_step_def)
  then have w: "w < length (cl_workers s)" by (auto simp: worker_turn_def split: if_splits)
  note upd = left_update [OF w]
  show ?thesis
  proof (cases "cl_workers s ! w")
    case Finished
    then show ?thesis using turn w by (simp add: worker_turn_def)
  next
    case Ready
    show ?thesis
      using turn w Ready upd [of "Running (cl_next s)"] upd [of Finished]
      by (auto simp: worker_turn_def turns_left_def split: if_splits)
  next
    case (Running i)
    then show ?thesis using turn w upd [of Ready] by (auto simp: worker_turn_def turns_left_def split: sum.splits)
  qed
qed

lemma schedule_counts: "run_schedule units n limit evs s = Some s' \<Longrightarrow> length evs + turns_left n limit s' \<le> turns_left n limit s"
proof (induction evs arbitrary: s)
  case (Cons ev evs)
  then obtain s1 where s1: "collection_step units n limit ev s = Some s1" "run_schedule units n limit evs s1 = Some s'"
    by (auto split: option.splits)
  from Cons.IH [OF s1(2)] turn_counts [OF s1(1)] show ?case by simp
qed simp



section \<open>Parallel and pipeline\<close>

text \<open>
  A thunk that fails in an ordinary way leaves \<open>None\<close> at its place and disturbs no other.
\<close>

lemma parallel_isolates:
  assumes "run_schedule (parallel_units thunks) (length thunks) limit evs (collection_start k) = Some s" and "all_finished s"
    and "k \<le> limit" and "0 < k \<or> thunks = []" and "Inl BudgetExceeded \<notin> set thunks" and "Inl EnvironmentRevoked \<notin> set thunks"
  shows "collection_outcome (length thunks) s = Inr (map (\<lambda>t. case t of Inr v \<Rightarrow> v | Inl _ \<Rightarrow> None) thunks)"
proof -
  have unit: "parallel_units thunks i = Inr (case thunks ! i of Inr v \<Rightarrow> v | Inl _ \<Rightarrow> None)" if "i < length thunks" for i
    
  proof (cases "thunks ! i")
    case (Inl e)
    then have "Inl e \<in> set thunks" using nth_mem [OF that] by simp
    then have "e \<noteq> BudgetExceeded" "e \<noteq> EnvironmentRevoked" using assms(5,6) by auto
    then show ?thesis using Inl by (cases e) (simp_all add: parallel_units_def guarded_def)
  qed (simp add: parallel_units_def guarded_def)
  have settled: "case collection_outcome (length thunks) s of
      Inr rs \<Rightarrow> map (parallel_units thunks) [0..<length thunks] = map Inr rs
    | Inl e \<Rightarrow> \<exists>i < length thunks. parallel_units thunks i = Inl e \<and>
        (e \<noteq> BudgetExceeded \<longrightarrow> list_all (\<lambda>(j, f). f \<noteq> BudgetExceeded \<and> i \<le> j) (cl_errors s))"
    using schedule_settles [OF assms(1-3)] assms(4) by simp
  show ?thesis
  proof (cases "collection_outcome (length thunks) s")
    case (Inl e)
    then show ?thesis using settled unit by auto
  next
    case (Inr rs)
    let ?g = "\<lambda>t. case t of Inr v \<Rightarrow> v | Inl _ \<Rightarrow> None"
    have "map Inr rs = map (parallel_units thunks) [0..<length thunks]" using settled unfolding Inr by (simp only: sum.case)
    also have "\<dots> = map (\<lambda>i. Inr (?g (thunks ! i))) [0..<length thunks]" by (rule map_cong [OF refl unit]) simp
    also have "\<dots> = map Inr (map ?g (map ((!) thunks) [0..<length thunks]))" by (simp only: map_map o_def)
    also have "\<dots> = map Inr (map ?g thunks)" by (simp only: map_nth)
    finally have "map Inr rs = (map Inr (map ?g thunks) :: (Failure + 'a option) list)" .
    then have "rs = map (\<lambda>t. case t of Inr v \<Rightarrow> v | Inl _ \<Rightarrow> None) thunks" by (rule map_injective) (simp add: inj_def)
    then show ?thesis by (simp only: Inr)
  qed
qed

text \<open>A collection's units share what is left of the budget and of the share of the collection around it.\<close>

lemma shares_within:
  assumes "planned_budget (Some r) parent n = Some p" and "0 < n" and "\<forall>q. parent = Some q \<longrightarrow> 0 \<le> q"
  shows "0 \<le> p \<and> p \<le> max 0 r \<and> (\<forall>q. parent = Some q \<longrightarrow> p \<le> q) \<and> (1 < p \<longrightarrow> p * int n \<le> max 0 r)"
proof -
  define a where "a = (case parent of Some q \<Rightarrow> min (max 0 r) q | None \<Rightarrow> max 0 r)"
  have a: "0 \<le> a" "a \<le> max 0 r" "\<forall>q. parent = Some q \<longrightarrow> a \<le> q" using assms(3) by (auto simp: a_def split: option.splits)
  have p: "p = (if a \<noteq> 0 then max 1 (a div int n) else 0)"
    using assms(1) unfolding planned_budget_def option.case Let_def a_def [symmetric] by (simp only: option.inject)
  have "a div int n \<le> a" using zdiv_mono2 [of a 1 "int n"] a(1) assms(2) by simp
  then have "p \<le> a" "0 \<le> p" using p a(1) by auto
  moreover have "p * int n \<le> a" if "1 < p"
  proof -
    have "p = a div int n" using p that by (auto split: if_splits)
    then show ?thesis by (simp add: minus_mod_eq_div_mult [symmetric] assms(2))
  qed
  ultimately show ?thesis using a by fastforce
qed

end
