(* ===== verification/Anthropic_History.thy ===== *)
theory Anthropic_History
  imports Session_Snapshot Session_Run
begin

text \<open>
  Native thinking blocks of Anthropic conversations (\<open>application/_anthropic_history.py\<close>).  A thinking
  block is bound to the messages before it.  The session records the view it has sent last; a request is
  built on that view, and thinking is removed behind the first message that has changed.  Block types are
  texts.
\<close>

section \<open>Equality of values\<close>

definition number_of :: "pyval \<Rightarrow> rat option" where
  "number_of v =
     (case v of
        VBool b \<Rightarrow> Some (if b then 1 else 0)
      | VInt i \<Rightarrow> Some (of_int i)
      | VFloat (Fin q) \<Rightarrow> Some q
      | _ \<Rightarrow> None)"

text \<open>\<open>==\<close> of Python: dicts without order, numbers by value.\<close>

function py_same :: "pyval \<Rightarrow> pyval \<Rightarrow> bool" where
  "py_same l r =
     (case (l, r) of
        (VNone, VNone) \<Rightarrow> True
      | (VStr s, VStr t) \<Rightarrow> s = t
      | (VList xs, VList ys) \<Rightarrow> length xs = length ys \<and> list_all (\<lambda>q. py_same (fst q) (snd q)) (zip xs ys)
      | (VDict d, VDict e) \<Rightarrow>
          keys d = keys e \<and>
          list_all (\<lambda>k. case (map_of d k, map_of e k) of (Some a, Some b) \<Rightarrow> py_same a b | _ \<Rightarrow> False) (map fst d)
      | _ \<Rightarrow> (case (number_of l, number_of r) of (Some a, Some b) \<Rightarrow> a = b | _ \<Rightarrow> (case (l, r) of
                (VFloat f, VFloat g) \<Rightarrow> f = g \<and> f \<noteq> NaN
              | _ \<Rightarrow> False)))"
  by pat_completeness auto
termination
  by (relation "measure (\<lambda>(l, _). size l)")
    (auto simp del: pyval.size intro: size_list_entry size_map_of_sym dest: set_zip_leftD)

declare py_same.simps [simp del]

definition same_message :: "message \<Rightarrow> message \<Rightarrow> bool" where
  "same_message a b = py_same (VDict a) (VDict b)"

section \<open>The recorded view\<close>

definition THINKING_TYPES :: "string list" where
  "THINKING_TYPES = [''thinking'', ''redacted_thinking'']"

definition is_thinking :: "pyval \<Rightarrow> bool" where
  "is_thinking block = (is_dict block \<and> get (as_dict block) ''type'' \<in> VStr ` set THINKING_TYPES)"

definition native_blocks :: "message \<Rightarrow> pyval list option" where
  "native_blocks m =
     (case get m ''provider_state'' of
        VDict st \<Rightarrow> (case get st ''anthropic_content'' of VList blocks \<Rightarrow> Some blocks | _ \<Rightarrow> None)
      | _ \<Rightarrow> None)"

definition strip_message :: "message \<Rightarrow> message" where
  "strip_message m =
     (case native_blocks m of
        None \<Rightarrow> m
      | Some blocks \<Rightarrow>
          let kept = filter (\<lambda>b. \<not> is_thinking b) blocks
          in if length kept \<noteq> length blocks
             then AList.update ''provider_state''
                    (VDict (AList.update ''anthropic_content'' (VList kept) (as_dict (get m ''provider_state'')))) m
             else m)"

definition strip_anthropic_thinking :: "message list \<Rightarrow> nat \<Rightarrow> message list" where
  "strip_anthropic_thinking ms start = take start ms @ map strip_message (drop start ms)"

definition prompt_messages :: "message list \<Rightarrow> message list" where
  "prompt_messages ms = filter (\<lambda>m. get m ''role'' = VStr ''system'' \<and> \<not> truthy (get m ''compacted'')) ms"

definition same_messages :: "message list \<Rightarrow> message list \<Rightarrow> bool" where
  "same_messages xs ys = list_all2 same_message xs ys"

fun first_edit :: "nat \<Rightarrow> message list \<Rightarrow> message list \<Rightarrow> nat option" where
  "first_edit i (old # olds) (new # news) = (if same_message old new then first_edit (i + 1) olds news else Some i)"
| "first_edit i _ _ = None"

definition edited_anthropic_history :: "message list \<Rightarrow> message list \<Rightarrow> message list" where
  "edited_anthropic_history before after =
     (if \<not> same_messages (prompt_messages before) (prompt_messages after) then strip_anthropic_thinking after 0
      else case first_edit 0 before after of
             Some i \<Rightarrow> strip_anthropic_thinking after i
           | None \<Rightarrow> after)"

definition view_messages :: "pyval \<Rightarrow> message list" where
  "view_messages h = (case get (as_dict h) ''messages'' of VList xs \<Rightarrow> map as_dict xs | _ \<Rightarrow> [])"

definition recorded_view :: "message list \<Rightarrow> nat \<Rightarrow> pyval \<Rightarrow> pyval" where
  "recorded_view ms n tools =
     VDict [(''messages'', VList (map VDict ms)), (''source_count'', VInt (int n)), (''tools'', tools)]"

definition remember_anthropic_history :: "SessionState \<Rightarrow> message list \<Rightarrow> pyval \<Rightarrow> SessionState \<times> message list" where
  "remember_anthropic_history st ms0 tools =
     (let ms1 = edited_anthropic_history (fst (history_input st)) ms0;
          ms = (case anthropic_history st of
                  None \<Rightarrow> ms1
                | Some h \<Rightarrow>
                    let ms2 = edited_anthropic_history (view_messages h) ms1
                    in if \<not> py_same (get (as_dict h) ''tools'') tools then strip_anthropic_thinking ms2 0 else ms2)
      in (st\<lparr>anthropic_history := Some (recorded_view ms (length (messages st)) tools)\<rparr>, ms))"

text \<open>A provider error: its status and its body.\<close>

record PrefixError =
  pe_status :: "int option"
  pe_body :: pyval

definition BINDING_MESSAGE :: string where
  "BINDING_MESSAGE =
     ''Invalid `signature` in `thinking` block. The block is bound to a different conversation.''"

definition prefix_rejected :: "PrefixError \<Rightarrow> bool" where
  "prefix_rejected e =
     (pe_status e = Some 400 \<and>
      (case pe_body e of
         VDict body \<Rightarrow>
           (case (case map_of body ''error'' of Some d \<Rightarrow> d | None \<Rightarrow> VDict body) of
              VDict detail \<Rightarrow>
                get detail ''type'' = VStr ''invalid_request_error'' \<and>
                (case get detail ''message'' of VStr s \<Rightarrow> contains BINDING_MESSAGE s | _ \<Rightarrow> False)
            | _ \<Rightarrow> False)
       | _ \<Rightarrow> False))"

definition thinking_count :: "message \<Rightarrow> nat" where
  "thinking_count m = (case native_blocks m of Some blocks \<Rightarrow> length (filter is_thinking blocks) | None \<Rightarrow> 0)"

definition recover_anthropic_history ::
  "SessionState \<Rightarrow> message list \<Rightarrow> pyval \<Rightarrow> PrefixError \<Rightarrow> (SessionState \<times> message list \<times> nat) option" where
  "recover_anthropic_history st ms tools e =
     (if \<not> prefix_rejected e then None
      else let removed = sum_list (map thinking_count ms)
           in if removed = 0 then None
              else let (st', sent_ms) = remember_anthropic_history st (strip_anthropic_thinking ms 0) tools
                   in Some (st', sent_ms, removed))"

section \<open>Thinking behind an unchanged prefix\<close>

lemma native_update: "native_blocks (AList.update ''provider_state'' (VDict (AList.update ''anthropic_content'' (VList bs) st)) m) = Some bs"
  by (simp add: native_blocks_def get_update)

lemma no_thinking_kept: "length (filter (\<lambda>b. \<not> p b) bs) = length bs \<Longrightarrow> filter p bs = []"
  using sum_length_filter_compl [of p bs] by simp

lemma thinking_stripped [simp]: "thinking_count (strip_message m) = 0"
proof (cases "native_blocks m")
  case None
  then show ?thesis by (simp add: strip_message_def thinking_count_def)
next
  case (Some bs)
  let ?kept = "filter (\<lambda>b. \<not> is_thinking b) bs"
  show ?thesis
  proof (cases "length ?kept = length bs")
    case True
    then have "filter is_thinking bs = []" by (rule no_thinking_kept)
    then show ?thesis using Some True by (simp add: strip_message_def thinking_count_def)
  next
    case False
    then show ?thesis using Some by (simp add: strip_message_def thinking_count_def native_update)
  qed
qed

lemma strip_length [simp]: "length (strip_anthropic_thinking ms n) = length ms"
  by (simp add: strip_anthropic_thinking_def)

lemma strip_nth: "i < length ms \<Longrightarrow> strip_anthropic_thinking ms n ! i = (if i < n then ms ! i else strip_message (ms ! i))"
  by (auto simp: strip_anthropic_thinking_def nth_append min_def)

lemma edited_length [simp]: "length (edited_anthropic_history b a) = length a"
  by (auto simp: edited_anthropic_history_def split: option.split)

lemma first_edit_same:
  "i \<le> j \<Longrightarrow> j - i < length xs \<Longrightarrow> j - i < length ys \<Longrightarrow> (\<forall>d. first_edit i xs ys = Some d \<longrightarrow> j < d) \<Longrightarrow>
   same_message (xs ! (j - i)) (ys ! (j - i))"
proof (induction i xs ys rule: first_edit.induct)
  case (1 i old olds new news)
  show ?case
  proof (cases "same_message old new")
    case True
    show ?thesis
    proof (cases "j = i")
      case True
      then show ?thesis using \<open>same_message old new\<close> by simp
    next
      case False
      then have j: "j - i = Suc (j - (i + 1))" "i + 1 \<le> j" using "1.prems"(1) by simp_all
      show ?thesis using "1.IH" [OF True j(2)] "1.prems" True j by simp
    qed
  next
    case False
    then show ?thesis using "1.prems"(1,4) by simp
  qed
qed simp_all

text \<open>Thinking that survives an edit has nothing changed before it.\<close>

lemma edited_thinking:
  assumes i: "i < length a" and t: "thinking_count (edited_anthropic_history b a ! i) \<noteq> 0" and j: "j \<le> i"
  shows "edited_anthropic_history b a ! j = a ! j" and "j < length b \<Longrightarrow> same_message (b ! j) (a ! j)"
    and "same_messages (prompt_messages b) (prompt_messages a)"
proof -
  show p: "same_messages (prompt_messages b) (prompt_messages a)"
    using t i by (auto simp: edited_anthropic_history_def strip_nth split: if_splits)
  have d: "i < d" if "first_edit 0 b a = Some d" for d
    using t i p that by (auto simp: edited_anthropic_history_def strip_nth split: if_splits)
  show "edited_anthropic_history b a ! j = a ! j"
    using p d i j by (auto simp: edited_anthropic_history_def strip_nth split: option.split)
  show "same_message (b ! j) (a ! j)" if "j < length b"
    using first_edit_same [of 0 j b a] that i j d by force
qed

lemma stripped_field: "k \<noteq> ''provider_state'' \<Longrightarrow> get (strip_message m) k = get m k"
  by (auto simp: strip_message_def Let_def get_update split: option.split)

lemma prompts_strip:
  assumes "list_all (\<lambda>m. native_blocks m = None) (prompt_messages ms)"
  shows "prompt_messages (strip_anthropic_thinking ms n) = prompt_messages ms"
proof -
  have plain: "native_blocks m = None \<Longrightarrow> strip_message m = m" for m by (simp add: strip_message_def)
  have "prompt_messages (map strip_message xs) = prompt_messages xs" if "list_all (\<lambda>m. native_blocks m = None) (prompt_messages xs)" for xs
    using that by (induction xs) (auto simp: prompt_messages_def stripped_field plain)
  moreover have "prompt_messages ms = prompt_messages (take n ms) @ prompt_messages (drop n ms)"
    by (simp add: prompt_messages_def flip: filter_append)
  moreover have "list_all (\<lambda>m. native_blocks m = None) (prompt_messages (drop n ms))"
    using assms \<open>prompt_messages ms = _\<close> by simp
  ultimately show ?thesis by (simp add: strip_anthropic_thinking_def prompt_messages_def)
qed

lemma prompts_edited:
  "list_all (\<lambda>m. native_blocks m = None) (prompt_messages a) \<Longrightarrow> prompt_messages (edited_anthropic_history b a) = prompt_messages a"
  by (auto simp: edited_anthropic_history_def prompts_strip split: option.split)

text \<open>The next request continues on the recorded view.\<close>

lemma remembered_view:
  assumes "remember_anthropic_history st ms0 tools = (st', ms)"
  shows "history_input st' = (ms, False)" and "length ms = length ms0" and "messages st' = messages st"
proof -
  have st': "st' = st\<lparr>anthropic_history := Some (recorded_view ms (length (messages st)) tools)\<rparr>"
    using assms by (auto simp: remember_anthropic_history_def Let_def)
  then show "messages st' = messages st" by simp
  show "history_input st' = (ms, False)"
    by (simp add: st' history_input_def recorded_view_def get_def as_dict_def py_slice_from_def o_def)
  show "length ms = length ms0" using assms by (auto simp: remember_anthropic_history_def Let_def split: option.splits)
qed


definition demo_user :: message where
  "demo_user = [(''role'', VStr ''user''), (''content'', VStr ''hi'')]"

definition demo_thinker :: message where
  "demo_thinker =
     [(''role'', VStr ''assistant''), (''content'', VStr ''ok''),
      (''provider_state'', VDict [(''anthropic_content'',
         VList [VDict [(''type'', VStr ''thinking''), (''signature'', VStr ''s'')], VDict [(''type'', VStr ''text''), (''text'', VStr ''ok'')]])])]"

definition demo_recorded :: SessionState where
  "demo_recorded = (new_session ''t'' [demo_user, demo_thinker])
     \<lparr>anthropic_history := Some (recorded_view [demo_user, demo_thinker] 2 VNone)\<rparr>"

lemma demo_remembered:
  "map thinking_count (snd (remember_anthropic_history demo_recorded [demo_user, demo_thinker] VNone)) = [0, 1] \<and>
   map thinking_count (snd (remember_anthropic_history demo_recorded [demo_thinker, demo_thinker] VNone)) = [0, 0]"
  by code_simp


section \<open>A rejected prefix\<close>

lemma edited_without_thinking:
  "list_all (\<lambda>m. thinking_count m = 0) a \<Longrightarrow> list_all (\<lambda>m. thinking_count m = 0) (edited_anthropic_history b a)"
  by (auto simp: edited_anthropic_history_def strip_anthropic_thinking_def list_all_iff dest: in_set_takeD split: option.split)

lemma stripped_without_thinking: "list_all (\<lambda>m. thinking_count m = 0) (strip_anthropic_thinking ms 0)"
  by (simp add: strip_anthropic_thinking_def list_all_iff)

lemma remembered_without_thinking:
  assumes "remember_anthropic_history st ms0 tools = (st', ms)" and "list_all (\<lambda>m. thinking_count m = 0) ms0"
  shows "list_all (\<lambda>m. thinking_count m = 0) ms"
  using assms edited_without_thinking stripped_without_thinking
  by (auto simp: remember_anthropic_history_def Let_def split: option.splits if_splits)

text \<open>
  C12. A rejected prefix is repaired at once.  Only the provider's own refusal of a thinking block is
  answered, and only if the request had thinking.  The repaired request has as many messages and no
  thinking at all, the count is that of the blocks removed, the next request continues the repaired one,
  and whatever the provider answers to it no second repair is tried.
\<close>

theorem prefix_recovery_once:
  assumes "recover_anthropic_history st ms tools e = Some (st', ms', n)"
  shows "prefix_rejected e \<and> length ms' = length ms \<and> list_all (\<lambda>m. thinking_count m = 0) ms' \<and>
    n = sum_list (map thinking_count ms) \<and> 0 < n \<and> history_input st' = (ms', False) \<and>
    recover_anthropic_history st' ms' tools' e' = None"
proof -
  have r: "remember_anthropic_history st (strip_anthropic_thinking ms 0) tools = (st', ms')"
    and n: "prefix_rejected e" "n = sum_list (map thinking_count ms)" "n \<noteq> 0"
    using assms by (auto simp: recover_anthropic_history_def Let_def simp del: sum_list_eq_0_iff split: if_splits prod.splits)
  have none: "list_all (\<lambda>m. thinking_count m = 0) ms'" by (rule remembered_without_thinking [OF r stripped_without_thinking])
  then have "sum_list (map thinking_count ms') = 0" by (simp add: list_all_iff)
  then have "recover_anthropic_history st' ms' tools' e' = None" by (simp add: recover_anthropic_history_def)
  moreover have "0 < n" using n(3) by blast
  ultimately show ?thesis using n(1,2) none remembered_view(1,2) [OF r] by simp
qed

definition demo_rejection :: PrefixError where
  "demo_rejection = \<lparr>pe_status = Some 400, pe_body = VDict [(''error'', VDict
     [(''type'', VStr ''invalid_request_error''), (''message'', VStr BINDING_MESSAGE)])]\<rparr>"

lemma demo_recovered_prefix:
  "case recover_anthropic_history demo_recorded [demo_user, demo_thinker] VNone demo_rejection of
     Some (_, _, n) \<Rightarrow> n = 1 | None \<Rightarrow> False"
  by code_simp

theorem prefix_recovery_once_witness:
  "\<exists>st' ms'. recover_anthropic_history demo_recorded [demo_user, demo_thinker] VNone demo_rejection = Some (st', ms', 1) \<and>
     recover_anthropic_history st' ms' VNone demo_rejection = None"
proof -
  obtain st' ms' where r: "recover_anthropic_history demo_recorded [demo_user, demo_thinker] VNone demo_rejection = Some (st', ms', 1)"
    using demo_recovered_prefix by (auto split: option.splits)
  show ?thesis using r prefix_recovery_once [OF r] by blast
qed

end
