(* ===== verification/Workflow_Structured.thy ===== *)
theory Workflow_Structured
  imports Schema_Validate Anthropic_History
begin

text \<open>
  Structured agents (\<open>application/structured_output.py\<close>, \<open>workflow_structured.py\<close>): a tool captures a
  payload that conforms to the caller's schema, and a session that ends without one is followed by one
  corrective session with this tool only.  What a session does is a turn: the calls of the capture tool in
  order and how the turn ended.  Log records are left out.
\<close>

section \<open>The capture tool\<close>

record StructuredOutputTool =
  so_schema :: pyval
  so_captured :: "pyval option"
  so_accepted :: bool
  so_done :: bool

datatype OutputSchemaError = Unsupported schema_error | NotObject

definition make_structured_output :: "(string \<Rightarrow> bool) \<Rightarrow> pyval \<Rightarrow> OutputSchemaError list + StructuredOutputTool" where
  "make_structured_output re_ok schema =
     (let errors = map Unsupported (validate_schema re_ok schema) @
            (if \<not> is_dict schema \<or> get (as_dict schema) ''type'' \<noteq> VStr ''object'' then [NotObject] else [])
      in if errors \<noteq> [] then Inl errors
         else Inr \<lparr>so_schema = schema, so_captured = None, so_accepted = False, so_done = False\<rparr>)"

text \<open>One call of the tool: the errors that are reported to the model, and the tool.\<close>

definition structured_execute ::
  "(string \<Rightarrow> bool) \<Rightarrow> (string \<Rightarrow> string \<Rightarrow> bool) \<Rightarrow> pyval \<Rightarrow> StructuredOutputTool \<Rightarrow> schema_error list \<times> StructuredOutputTool" where
  "structured_execute re_ok re_search params t0 =
     (let t = t0\<lparr>so_accepted := False\<rparr>; errors = validate re_ok re_search params (so_schema t)
      in if errors \<noteq> [] then (errors, t)
         else ([], t\<lparr>so_captured := Some params, so_accepted := True, so_done := True\<rparr>))"

section \<open>The agent\<close>

datatype TurnEnd = Ended string | TimedOut | Raised

record SessionTurn =
  tn_calls :: "pyval list"
  tn_end :: TurnEnd

definition captures ::
  "(string \<Rightarrow> bool) \<Rightarrow> (string \<Rightarrow> string \<Rightarrow> bool) \<Rightarrow> SessionTurn \<Rightarrow> StructuredOutputTool \<Rightarrow> StructuredOutputTool" where
  "captures re_ok re_search trn t = foldl (\<lambda>t params. snd (structured_execute re_ok re_search params t)) t (tn_calls trn)"

definition schema_satisfied :: "pyval option \<Rightarrow> pyval \<Rightarrow> bool" where
  "schema_satisfied captured schema =
     (case captured of
        Some (VDict d) \<Rightarrow>
          (case get (as_dict schema) ''required'' of
             VList ks \<Rightarrow> list_all (\<lambda>k. case k of VStr s \<Rightarrow> s \<in> keys d | _ \<Rightarrow> False) ks
           | _ \<Rightarrow> True)
      | _ \<Rightarrow> False)"

text \<open>The exploration of the first session behind the system messages of the corrective one.\<close>

definition carry_exploration :: "message list option \<Rightarrow> bool \<Rightarrow> message list \<Rightarrow> message list \<times> bool" where
  "carry_exploration prior native fresh =
     (case prior of
        None \<Rightarrow> (fresh, False)
      | Some ms \<Rightarrow>
          let system = filter (\<lambda>m. get m ''role'' = VStr ''system'') fresh;
              carried = (if system \<noteq> [] then system @ filter (\<lambda>m. get m ''role'' \<noteq> VStr ''system'') ms else ms)
          in (if native then strip_anthropic_thinking carried 0 else carried, True))"

text \<open>
  The world of one call: whether the two sessions can be built, their turns, the messages the first one
  leaves behind, whether executions of the first one still drain and whether its time is over.
\<close>

record StructuredWorld =
  wo_built :: bool
  wo_explore :: SessionTurn
  wo_prior :: "message list option"
  wo_native :: bool
  wo_draining :: bool
  wo_expired :: bool
  wo_rebuilt :: bool
  wo_fresh :: "message list"
  wo_commit :: "message list \<Rightarrow> SessionTurn"

text \<open>The payload and the number of sessions.\<close>

definition forced_structured_commit ::
  "(string \<Rightarrow> bool) \<Rightarrow> (string \<Rightarrow> string \<Rightarrow> bool) \<Rightarrow> StructuredWorld \<Rightarrow> pyval \<Rightarrow> StructuredOutputTool \<Rightarrow> pyval option \<times> nat" where
  "forced_structured_commit re_ok re_search w schema t =
     (if \<not> wo_rebuilt w then (None, 1)
      else let trn = wo_commit w (fst (carry_exploration (wo_prior w) (wo_native w) (wo_fresh w)));
               t' = captures re_ok re_search trn t
           in case tn_end trn of
                Ended _ \<Rightarrow> (if schema_satisfied (so_captured t') schema then so_captured t' else None, 2)
              | _ \<Rightarrow> (None, 2))"

definition CONTEXT_OVERFLOW :: string where
  "CONTEXT_OVERFLOW = ''context overflow:''"

definition run_structured_agent ::
  "(string \<Rightarrow> bool) \<Rightarrow> (string \<Rightarrow> string \<Rightarrow> bool) \<Rightarrow> StructuredWorld \<Rightarrow> pyval \<Rightarrow> OutputSchemaError list + pyval option \<times> nat" where
  "run_structured_agent re_ok re_search w schema =
     bnd (make_structured_output re_ok schema) (\<lambda>t0.
       if \<not> wo_built w then Inr (None, 0)
       else let t = captures re_ok re_search (wo_explore w) t0;
                satisfied = schema_satisfied (so_captured t) schema;
                correct = (if wo_draining w \<or> wo_expired w then (None, 1) else forced_structured_commit re_ok re_search w schema t)
            in Inr (case tn_end (wo_explore w) of
                 TimedOut \<Rightarrow> (None, 1)
               | Raised \<Rightarrow> if satisfied then (so_captured t, 1) else correct
               | Ended reason \<Rightarrow>
                   if satisfied then (so_captured t, 1)
                   else if startswith reason CONTEXT_OVERFLOW then (None, 1) else correct))"

section \<open>What is captured\<close>

lemma tool_made:
  assumes "make_structured_output re_ok schema = Inr t"
  shows "t = \<lparr>so_schema = schema, so_captured = None, so_accepted = False, so_done = False\<rparr>" and "wf_schema re_ok schema"
    and "validate_schema re_ok schema = []" and "\<exists>d. schema = VDict d \<and> get d ''type'' = VStr ''object''"
proof -
  have none: "validate_schema re_ok schema = []" and object: "is_dict schema" "get (as_dict schema) ''type'' = VStr ''object''"
    and t: "t = \<lparr>so_schema = schema, so_captured = None, so_accepted = False, so_done = False\<rparr>"
    using assms by (auto simp: make_structured_output_def Let_def split: if_splits)
  then show "validate_schema re_ok schema = []" "t = \<lparr>so_schema = schema, so_captured = None, so_accepted = False, so_done = False\<rparr>" by simp_all
  show "wf_schema re_ok schema" using none by (auto simp: wf_schema_def validate_schema_def)
  show "\<exists>d. schema = VDict d \<and> get d ''type'' = VStr ''object''" using object by (cases schema) (auto simp: as_dict_def)
qed

lemma validated:
  assumes "wf_schema re_ok schema" and "validate_schema re_ok schema = []"
  shows "validate re_ok rs v schema = [] \<longleftrightarrow> conforms rs v schema"
  using validate_node_sound [OF assms(1), of rs v "''$''"] by (simp add: validate_def assms(2) sound_def)

text \<open>A payload that conforms to a schema for objects has every required key.\<close>

lemma conforming_satisfied:
  assumes "conforms rs p schema" and "wf_schema re_ok schema" and d: "schema = VDict d" and object: "get d ''type'' = VStr ''object''"
  shows "schema_satisfied (Some p) schema"
proof -
  have c: "conforms rs p (VDict d)" using assms(1) d by simp
  then have "check_type p (VStr ''object'')" using object by (subst (asm) conforms.simps) simp
  then obtain obj where p: "p = VDict obj" by (cases p) (auto simp: check_type.simps type_check_def)
  have "required_present obj d" using c unfolding p by (subst (asm) conforms.simps) simp
  then have r: "case map_of d ''required'' of
      Some (VList fs) \<Rightarrow> list_all (\<lambda>f. case f of VStr k \<Rightarrow> k \<in> keys obj | _ \<Rightarrow> True) fs | _ \<Rightarrow> True"
    by (simp add: required_present_def)
  show ?thesis
  proof (cases "map_of d ''required''")
    case None
    then show ?thesis by (simp add: schema_satisfied_def p d as_dict_def get_def)
  next
    case (Some v)
    then obtain fs where fs: "v = VList fs" "list_all is_str fs" using wf_schemaD(1) assms(2) d by blast
    have "list_all (\<lambda>k. case k of VStr s \<Rightarrow> s \<in> keys obj | _ \<Rightarrow> False) fs"
      using r Some fs by (auto simp: list_all_iff is_str_def split: pyval.splits)
    then show ?thesis using Some fs by (simp add: schema_satisfied_def p d as_dict_def get_def)
  qed
qed

definition conforming :: "(string \<Rightarrow> string \<Rightarrow> bool) \<Rightarrow> pyval \<Rightarrow> SessionTurn \<Rightarrow> pyval list" where
  "conforming re_search schema trn = filter (\<lambda>p. conforms re_search p schema) (tn_calls trn)"

lemma captures_last:
  assumes "wf_schema re_ok schema" and "validate_schema re_ok schema = []" and "so_schema t = schema"
  shows "so_schema (captures re_ok rs trn t) = schema \<and>
    so_captured (captures re_ok rs trn t) = (if conforming rs schema trn = [] then so_captured t else Some (last (conforming rs schema trn)))"
proof -
  define step where "step = (\<lambda>t params. snd (structured_execute re_ok rs params t))"
  have "so_schema (foldl step t ps) = schema \<and>
     so_captured (foldl step t ps) = (let cs = filter (\<lambda>p. conforms rs p schema) ps in if cs = [] then so_captured t else Some (last cs))" for ps
    using assms(3)
  proof (induction ps arbitrary: t)
    case (Cons p ps)
    have s: "so_schema (step t p) = schema" "so_captured (step t p) = (if conforms rs p schema then Some p else so_captured t)"
      using Cons.prems validated [OF assms(1,2), of rs p] by (auto simp: step_def structured_execute_def Let_def)
    show ?case using Cons.IH [OF s(1)] s(2) by (auto simp: Let_def)
  qed simp
  from this [of "tn_calls trn"] show ?thesis by (simp add: captures_def step_def conforming_def Let_def)
qed

lemma captured_satisfied:
  assumes "make_structured_output re_ok schema = Inr t0" and that: "so_schema t = schema"
    and old: "\<forall>p. so_captured t = Some p \<longrightarrow> conforms rs p schema"
  shows "schema_satisfied (so_captured (captures re_ok rs trn t)) schema \<longleftrightarrow> so_captured (captures re_ok rs trn t) \<noteq> None"
proof -
  obtain d where d: "schema = VDict d" "get d ''type'' = VStr ''object''" using tool_made(4) [OF assms(1)] by blast
  note made = captures_last [OF tool_made(2,3) [OF assms(1)] that, of rs trn]
  have "conforms rs p schema" if p: "so_captured (captures re_ok rs trn t) = Some p" for p
  proof (cases "conforming rs schema trn = []")
    case True
    then show ?thesis using made p old by simp
  next
    case False
    then have "p = last (conforming rs schema trn)" using made p by simp
    then have "p \<in> set (conforming rs schema trn)" using False by simp
    then show ?thesis by (simp add: conforming_def)
  qed
  then show ?thesis using conforming_satisfied [OF _ tool_made(2) [OF assms(1)] d] by (auto simp: schema_satisfied_def split: option.splits)
qed

text \<open>The payload of an agent, told from the calls of its sessions alone.\<close>

definition last_of :: "'a list \<Rightarrow> 'a option" where
  "last_of xs = (if xs = [] then None else Some (last xs))"

definition second_turn :: "StructuredWorld \<Rightarrow> SessionTurn" where
  "second_turn w = wo_commit w (fst (carry_exploration (wo_prior w) (wo_native w) (wo_fresh w)))"

definition ended :: "SessionTurn \<Rightarrow> bool" where
  "ended trn = (case tn_end trn of Ended _ \<Rightarrow> True | _ \<Rightarrow> False)"

definition correctable :: "(string \<Rightarrow> string \<Rightarrow> bool) \<Rightarrow> pyval \<Rightarrow> StructuredWorld \<Rightarrow> bool" where
  "correctable re_search schema w =
     (conforming re_search schema (wo_explore w) = [] \<and> \<not> wo_draining w \<and> \<not> wo_expired w \<and> wo_rebuilt w \<and>
      (case tn_end (wo_explore w) of Ended reason \<Rightarrow> \<not> startswith reason CONTEXT_OVERFLOW | TimedOut \<Rightarrow> False | Raised \<Rightarrow> True))"

text \<open>
  C17. A structured agent returns a payload that conforms to the schema, or nothing.  A schema that is not
  supported is refused.  Otherwise there are at most two sessions, and the second only if the first had
  no conforming call, can be corrected and did not run out of time; the payload is the last conforming
  call of the first session unless it timed out, or that of the second if it ended normally.
\<close>

theorem structured_payload:
  "run_structured_agent re_ok rs w schema =
     (case make_structured_output re_ok schema of
        Inl errors \<Rightarrow> Inl errors
      | Inr _ \<Rightarrow>
          Inr (if \<not> wo_built w then (None, 0)
               else if correctable rs schema w
               then (if ended (second_turn w) then last_of (conforming rs schema (second_turn w)) else None, 2)
               else (if tn_end (wo_explore w) = TimedOut then None else last_of (conforming rs schema (wo_explore w)), 1)))"
proof (cases "make_structured_output re_ok schema")
  case (Inl e)
  then show ?thesis by (simp add: run_structured_agent_def)
next
  case (Inr t0)
  have t0: "so_schema t0 = schema" "so_captured t0 = None" using tool_made(1) [OF Inr] by simp_all
  define t where "t = captures re_ok rs (wo_explore w) t0"
  have t: "so_schema t = schema" "so_captured t = last_of (conforming rs schema (wo_explore w))"
    using captures_last [OF tool_made(2,3) [OF Inr] t0(1), of rs "wo_explore w"] t0(2) by (simp_all add: t_def last_of_def)
  have sat: "schema_satisfied (so_captured t) schema \<longleftrightarrow> conforming rs schema (wo_explore w) \<noteq> []"
    using captured_satisfied [OF Inr t0(1), of rs "wo_explore w"] t0(2) t(2) by (simp add: t_def last_of_def split: if_splits)
  have second: "forced_structured_commit re_ok rs w schema t =
      (if \<not> wo_rebuilt w then (None, 1)
       else (if ended (second_turn w) then last_of (conforming rs schema (second_turn w)) else None, 2))"
    if none: "conforming rs schema (wo_explore w) = []"
  proof -
    have empty: "so_captured t = None" using t(2) none by (simp add: last_of_def)
    have c: "so_captured (captures re_ok rs (second_turn w) t) = last_of (conforming rs schema (second_turn w))"
      using captures_last [OF tool_made(2,3) [OF Inr] t(1), of rs "second_turn w"] empty by (simp add: last_of_def)
    have s: "schema_satisfied (so_captured (captures re_ok rs (second_turn w) t)) schema \<longleftrightarrow> conforming rs schema (second_turn w) \<noteq> []"
      using captured_satisfied [OF Inr t(1), of rs "second_turn w"] empty c by (simp add: last_of_def)
    show ?thesis
      unfolding forced_structured_commit_def second_turn_def [symmetric] Let_def
      using c s by (simp add: ended_def last_of_def split: TurnEnd.split)
  qed
  show ?thesis
    unfolding run_structured_agent_def Inr bnd_def sum.case Let_def t_def [symmetric] sat
    using t(2) second by (auto simp: correctable_def last_of_def split: TurnEnd.split)
qed

end
