(* ===== verification/Workflow_Agents.thy ===== *)
theory Workflow_Agents
  imports Findings Workflow_Structured
begin

text \<open>
  Agents of a workflow that run a single session (\<open>application/workflow_agents.py\<close>,
  \<open>workflow_agent_run.py\<close>): the scout that must submit findings and is
  salvaged when it does not, the draft of findings, and the status of a managed call.  A session is the
  calls of its capture tool and how its turn ended; log and trace records are left out.
\<close>

section \<open>Scouts\<close>

definition DEFAULT_COMMIT_RESERVE :: int where "DEFAULT_COMMIT_RESERVE = 25000"

text \<open>The tokens kept back for the submission.\<close>

definition commit_reserve_of :: "int option \<Rightarrow> int option \<Rightarrow> int" where
  "commit_reserve_of requested session_budget =
     (case requested of
        Some r \<Rightarrow> r
      | None \<Rightarrow>
          (case session_budget of
             Some b \<Rightarrow> if b < DEFAULT_COMMIT_RESERVE then max 1 (b div 4) else DEFAULT_COMMIT_RESERVE
           | None \<Rightarrow> DEFAULT_COMMIT_RESERVE))"

text \<open>The length of the salvage prompt.\<close>

definition salvage_prompt_chars :: "int \<Rightarrow> nat" where
  "salvage_prompt_chars kept = nat (max 2000 (min 16000 (kept * 4)))"

record ScoutTurn =
  sk_submits :: "message list"
  sk_text :: "string option"

text \<open>
  \<open>sk_text\<close> is the final text, \<open>None\<close> for a turn that failed or ran out of time.  The world of a scout:
  whether its session can be built, its turn, what it leaves behind, and the same for the salvage session,
  whose turn depends on its prompt; a salvage whose time is over has failed.
\<close>

record ScoutWorld =
  sc_built :: bool
  sc_turn :: ScoutTurn
  sc_ledger :: "message list"
  sc_messages :: "message list"
  sc_draining :: bool
  sc_rebuilt :: bool
  sc_salvage :: "string \<Rightarrow> ScoutTurn"

record ScoutHost =
  sh_re_ok :: "string \<Rightarrow> bool"
  sh_search :: "string \<Rightarrow> string \<Rightarrow> bool"
  sh_str :: "pyval \<Rightarrow> string"
  sh_head :: string
  sh_middle :: string

definition fresh_submit :: SubmitFindings where
  "fresh_submit = \<lparr>captured = None, terminal_capture_accepted = False\<rparr>"

definition submissions :: "ScoutHost \<Rightarrow> ScoutTurn \<Rightarrow> SubmitFindings" where
  "submissions h trn = foldl (\<lambda>s params. snd (submit (sh_re_ok h) (sh_search h) (sh_str h) params s)) fresh_submit (sk_submits trn)"

definition salvage_prompt :: "ScoutHost \<Rightarrow> ScoutWorld \<Rightarrow> int \<Rightarrow> string" where
  "salvage_prompt h w kept =
     build_dead_scout_synthesis_prompt (sh_head h) (sh_middle h) (sh_str h) (sc_ledger w) (sc_messages w) (salvage_prompt_chars kept)"

text \<open>The salvaged report, if there is one, and the number of sessions.\<close>

definition synthesize_dead_scout :: "ScoutHost \<Rightarrow> ScoutWorld \<Rightarrow> int \<Rightarrow> string option \<times> nat" where
  "synthesize_dead_scout h w kept =
     (if \<not> sc_rebuilt w then (None, 0)
      else let trn = sc_salvage w (salvage_prompt h w kept)
           in if sk_text trn = None then (None, 1)
              else (case captured (submissions h trn) of
                      None \<Rightarrow> (None, 1)
                    | Some c \<Rightarrow>
                        (let report = format_findings_report (sh_str h) c
                         in (if py_strip report \<noteq> [] then Some report else None, 1))))"

definition run_enforced_agent ::
  "ScoutHost \<Rightarrow> ScoutWorld \<Rightarrow> int option \<Rightarrow> int option \<Rightarrow> string option \<Rightarrow> string option \<times> nat" where
  "run_enforced_agent h w requested_reserve session_budget harvest_fallback =
     (if \<not> sc_built w then (if harvest_fallback = Some [] then None else harvest_fallback, 0)
      else let kept = commit_reserve_of requested_reserve session_budget;
               own = captured (submissions h (sc_turn w));
               plain = sk_text (sc_turn w);
               harvested = harvest_findings (sh_str h) own (case plain of Some t \<Rightarrow> t | None \<Rightarrow> []) (sc_messages w) (sc_ledger w) harvest_fallback;
               (salvaged, more) =
                 (if own = None \<and> sc_ledger w \<noteq> [] \<and> \<not> sc_draining w then synthesize_dead_scout h w kept else (None, 0));
               report = (case salvaged of Some r \<Rightarrow> if py_strip r \<noteq> [] then r else harvested | None \<Rightarrow> harvested)
           in (if report \<noteq> [] then Some report else plain, 1 + more))"

text \<open>A draft: one session, its captured findings unless its turn failed.\<close>

definition draft_findings_with_lease :: "ScoutHost \<Rightarrow> bool \<Rightarrow> ScoutTurn \<Rightarrow> message option" where
  "draft_findings_with_lease h built trn =
     (if \<not> built \<or> sk_text trn = None then None else captured (submissions h trn))"

section \<open>Reports of scouts\<close>

definition accepted :: "ScoutHost \<Rightarrow> message \<Rightarrow> bool" where
  "accepted h params = (fst (submit (sh_re_ok h) (sh_search h) (sh_str h) params fresh_submit) = Recorded)"

definition accepted_reports :: "ScoutHost \<Rightarrow> ScoutTurn \<Rightarrow> message list" where
  "accepted_reports h trn = filter (accepted h) (sk_submits trn)"

lemma submit_captures:
  "captured (snd (submit (sh_re_ok h) (sh_search h) (sh_str h) params s)) = (if accepted h params then Some params else captured s)"
  by (simp add: accepted_def submit_def Let_def)

lemma submissions_last: "captured (submissions h trn) = last_of (accepted_reports h trn)"
proof -
  define step where "step = (\<lambda>s params. snd (submit (sh_re_ok h) (sh_search h) (sh_str h) params s))"
  have "captured (foldl step s ps) = (if filter (accepted h) ps = [] then captured s else Some (last (filter (accepted h) ps)))" for ps s
    by (induction ps arbitrary: s) (auto simp: step_def submit_captures)
  from this [of fresh_submit "sk_submits trn"] show ?thesis
    by (simp add: submissions_def step_def accepted_reports_def last_of_def fresh_submit_def)
qed

lemma strip_visible: "c \<in> set s \<Longrightarrow> \<not> is_space c \<Longrightarrow> py_strip s \<noteq> []"
  by (auto simp: py_strip_def dropWhile_eq_Nil_conv) (metis (full_types) Un_iff set_append set_takeWhileD takeWhile_dropWhile_id)

lemma join_visible: "x \<in> set xs \<Longrightarrow> c \<in> set x \<Longrightarrow> c \<in> set (py_join sep xs)"
  by (induction sep xs rule: py_join.induct) auto

text \<open>An accepted report has something to show.\<close>

lemma accepted_visible:
  assumes "accepted h c"
  shows "py_strip (format_findings_report (sh_str h) c) \<noteq> []"
proof -
  let ?str = "sh_str h"
  have some: "findings_of c \<noteq> [] \<or> stripped ?str c ''summary'' \<noteq> []"
    using assms by (auto simp: accepted_def submit_def Let_def split: if_splits)
  let ?lines = "(if stripped ?str c ''summary'' = [] then [] else [''Summary: '' @ stripped ?str c ''summary'']) @ map (finding_line ?str) (findings_of c) @
      (if truthy (get c ''insufficient_evidence'')
       then [''(insufficient_evidence: the scout reports it could not gather enough evidence to fully answer this dimension)'']
       else [])"
  have "\<exists>x \<in> set ?lines. \<exists>b \<in> set x. \<not> is_space b"
  proof (cases "findings_of c")
    case Nil
    then have "stripped ?str c ''summary'' \<noteq> []" using some by simp
    then have "''Summary: '' @ stripped ?str c ''summary'' \<in> set ?lines" by simp
    moreover have "CHR ''S'' \<in> set (''Summary: '' @ stripped ?str c ''summary'')" by simp
    moreover have "\<not> is_space (CHR ''S'')" by (simp add: is_space_def code_def)
    ultimately show ?thesis by blast
  next
    case (Cons f fs)
    then have "finding_line ?str f \<in> set ?lines" by simp
    moreover have "CHR ''-'' \<in> set (finding_line ?str f)" by (simp add: finding_line_def Let_def)
    moreover have "\<not> is_space (CHR ''-'')" by (simp add: is_space_def code_def)
    ultimately show ?thesis by blast
  qed
  then obtain x b where "x \<in> set ?lines" "b \<in> set x" "\<not> is_space b" by blast
  then have "b \<in> set (py_join LF ?lines)" "\<not> is_space b" using join_visible [of x ?lines b LF] by simp_all
  then show ?thesis unfolding format_findings_report_def Let_def by (rule strip_visible)
qed

lemma last_accepted: "accepted_reports h trn \<noteq> [] \<Longrightarrow> accepted h (last (accepted_reports h trn))"
  using last_in_set [of "accepted_reports h trn"] by (simp add: accepted_reports_def)

text \<open>What is told of a scout that submitted nothing.\<close>

definition without_report :: "ScoutHost \<Rightarrow> ScoutWorld \<Rightarrow> string option \<Rightarrow> string option" where
  "without_report h w harvest_fallback =
     (let harvested = harvest_findings (sh_str h) None (case sk_text (sc_turn w) of Some t \<Rightarrow> t | None \<Rightarrow> []) (sc_messages w)
            (sc_ledger w) harvest_fallback
      in if harvested \<noteq> [] then Some harvested else sk_text (sc_turn w))"

lemma harvest_captured:
  "py_strip (format_findings_report str c) \<noteq> [] \<Longrightarrow> harvest_findings str (Some c) t ms ledger draft = format_findings_report str c"
  by (simp add: harvest_findings_def Let_def)

lemma salvage_cases:
  "synthesize_dead_scout h w kept =
     (if \<not> sc_rebuilt w then (None, 0)
      else let trn = sc_salvage w (salvage_prompt h w kept)
           in (if sk_text trn \<noteq> None \<and> accepted_reports h trn \<noteq> []
               then Some (format_findings_report (sh_str h) (last (accepted_reports h trn))) else None, 1))"
proof (cases "sc_rebuilt w")
  case True
  let ?trn = "sc_salvage w (salvage_prompt h w kept)"
  show ?thesis
  proof (cases "accepted_reports h ?trn = []")
    case True
    then show ?thesis using \<open>sc_rebuilt w\<close> by (simp add: synthesize_dead_scout_def Let_def submissions_last last_of_def)
  next
    case False
    then have "py_strip (format_findings_report (sh_str h) (last (accepted_reports h ?trn))) \<noteq> []"
      by (rule accepted_visible [OF last_accepted])
    then show ?thesis using \<open>sc_rebuilt w\<close> False by (simp add: synthesize_dead_scout_def Let_def submissions_last last_of_def)
  qed
qed (simp add: synthesize_dead_scout_def)

text \<open>
  C16. What a scout reports.  If it submitted findings that cite or abstain, its report is the last of
  them, from one session.  If not, and there is evidence and nothing of it still runs, there is one more
  session that may only submit, and its accepted findings are the report.  Otherwise the report is what
  can be harvested without findings.  Findings that were refused are never reported.
\<close>

theorem scout_report:
  "run_enforced_agent h w requested budget fallback =
     (if \<not> sc_built w then (if fallback = Some [] then None else fallback, 0)
      else if accepted_reports h (sc_turn w) \<noteq> []
      then (Some (format_findings_report (sh_str h) (last (accepted_reports h (sc_turn w)))), 1)
      else if sc_ledger w \<noteq> [] \<and> \<not> sc_draining w \<and> sc_rebuilt w
      then (let trn = sc_salvage w (salvage_prompt h w (commit_reserve_of requested budget))
            in (if sk_text trn \<noteq> None \<and> accepted_reports h trn \<noteq> []
                then Some (format_findings_report (sh_str h) (last (accepted_reports h trn))) else without_report h w fallback, 2))
      else (without_report h w fallback, 1))"
proof (cases "sc_built w")
  case True
  let ?own = "accepted_reports h (sc_turn w)"
  let ?trn = "sc_salvage w (salvage_prompt h w (commit_reserve_of requested budget))"
  show ?thesis
  proof (cases "?own = []")
    case False
    then have v: "py_strip (format_findings_report (sh_str h) (last ?own)) \<noteq> []" by (rule accepted_visible [OF last_accepted])
    then have "format_findings_report (sh_str h) (last ?own) \<noteq> []" by (auto simp: strip_nil)
    then show ?thesis using True False harvest_captured [OF v]
      by (simp add: run_enforced_agent_def Let_def submissions_last last_of_def)
  next
    case none: True
    have seen: "py_strip (format_findings_report (sh_str h) (last (accepted_reports h ?trn))) \<noteq> []" if "accepted_reports h ?trn \<noteq> []"
      using that by (rule accepted_visible [OF last_accepted])
    then have "format_findings_report (sh_str h) (last (accepted_reports h ?trn)) \<noteq> []" if "accepted_reports h ?trn \<noteq> []"
      using that by (auto simp: strip_nil)
    then show ?thesis using True none seen
      by (simp add: run_enforced_agent_def Let_def submissions_last last_of_def salvage_cases without_report_def)
  qed
qed (simp add: run_enforced_agent_def)

section \<open>Managed calls\<close>

datatype AgentStatus = Completed | Stopped | Failed

datatype RunEnd = RunReturned string | RunTimedOut | RunRaised string

datatype Closing = NoClose | Closed | CloseRaised

text \<open>
  A managed call that has built its session: how its turn ended, whether its cleanup was quiet in time
  before and after the session was closed, and the state of the session.
\<close>

record AgentRun =
  ar_end :: RunEnd
  ar_settled :: bool
  ar_closing :: Closing
  ar_settled_again :: bool
  ar_persistence_failed :: bool
  ar_phase :: "string option"
  ar_reason :: "string option"
  ar_unsafe :: bool
  ar_revoked :: bool

record WorkflowAgentResult =
  wr_output :: "string option"
  wr_status :: AgentStatus
  wr_reason :: "string option"
  wr_cleanup_complete :: bool
  wr_workspace_ready :: bool

definition quiet_after :: "AgentRun \<Rightarrow> bool" where
  "quiet_after r =
     (ar_settled r \<and>
      (case ar_closing r of NoClose \<Rightarrow> True | Closed \<Rightarrow> ar_settled_again r | CloseRaised \<Rightarrow> False))"

definition end_status :: "RunEnd \<Rightarrow> AgentStatus \<times> string option" where
  "end_status e =
     (case e of
        RunReturned _ \<Rightarrow> (Completed, None)
      | RunTimedOut \<Rightarrow> (Stopped, Some ''timeout'')
      | RunRaised t \<Rightarrow> (Failed, Some (''run failed: '' @ t)))"

text \<open>The result, whether the environment is unsafe afterwards and whether the lease is released at once.\<close>

definition agent_run_result :: "AgentRun \<Rightarrow> WorkflowAgentResult \<times> bool \<times> bool" where
  "agent_run_result r =
     (let quiet = quiet_after r;
          (status0, reason0) = end_status (ar_end r);
          unsafe = (ar_unsafe r \<or> \<not> quiet);
          (status1, reason1) = (if \<not> quiet then (Failed, Some ''cleanup incomplete'') else (status0, reason0));
          (status2, reason2) = (if ar_persistence_failed r then (Failed, Some ''session persistence failed'') else (status1, reason1));
          (status, reason) =
            (if status2 \<noteq> Completed then (status2, reason2)
             else case ar_phase r of
                    None \<Rightarrow> (Completed, reason2)
                  | Some p \<Rightarrow>
                      if p = ''stopped'' then (Stopped, ar_reason r)
                      else if p = ''error'' then (Failed, ar_reason r)
                      else if p = ''done'' then (Completed, reason2)
                      else (Stopped, if ar_reason r = None \<or> ar_reason r = Some [] then Some (''session phase: '' @ p) else ar_reason r))
      in (\<lparr>wr_output = (case ar_end r of RunReturned t \<Rightarrow> Some t | _ \<Rightarrow> None), wr_status = status, wr_reason = reason,
           wr_cleanup_complete = quiet, wr_workspace_ready = quiet \<and> \<not> unsafe \<and> \<not> ar_revoked r\<rparr>, unsafe, quiet))"


end
