(* ===== verification/Spec2Isabelle.thy ===== *)
theory Spec2Isabelle
  imports Pending Tool_Facts Tool_Loops Session_State Identity Tool_Processing Team_Rules Team_Leases Spawn_Dedup
    Workflow_Budget Schema_Validate Apply_Patch Token_Estimation Shaping Shaping_Bounds Mailbox Run_Termination Run_Budget Run_Protocol Session_Recovery
    Responses_Replay Compaction Findings Retry Patch_Paths Chat_Stream Workflow_Collections Workflow_Agents
begin

text \<open>Verification of OpenCollab.\<close>

end
